(* ===== verification/Prelude.thy ===== *)
theory Prelude
  imports Main "HOL-Library.Word" "HOL-Library.Monad_Syntax"
begin

text \<open>
  Shared vocabulary of the development: the widths of the machine integers the C sources
  use (LP64: \<open>size_t\<close>, \<open>uint64_t\<close> and \<open>uintptr_t\<close> are 64-bit words), the bytes of a
  mapped region as a function from region offsets, the little-endian encoding by which a
  C struct field of 4 or 8 bytes lives in those bytes, and the read-over-write lemmas that
  every component uses. No lemma here is about one component.
\<close>

unbundle bit_operations_syntax

type_synonym u8 = "8 word"
type_synonym u32 = "32 word"
type_synonym u64 = "64 word"

text \<open>The contents of the shared object, indexed by the byte offset from its base.\<close>

type_synonym mem = "nat \<Rightarrow> u8"

text \<open>A null-terminated C string, without its terminator.\<close>

type_synonym cstr = "u8 list"

named_theorems frame "a read outside the range of a write is unchanged"
named_theorems roundtrip "a read of what was just written"
named_theorems layout "the numeric values of the C layout constants"

section \<open>Word arithmetic without wrap-around\<close>

lemma unat_add_nowrap:
  fixes a b :: "'a::len word"
  assumes "unat a + unat b < 2 ^ LENGTH('a)"
  shows "unat (a + b) = unat a + unat b"
  using assms by (simp add: unat_add_lem)

lemma unat_mult_nowrap:
  fixes a b :: "'a::len word"
  assumes "unat a * unat b < 2 ^ LENGTH('a)"
  shows "unat (a * b) = unat a * unat b"
  using assms by (simp add: unat_word_ariths)

lemma unat_less_2p64: "unat (a :: u64) < 18446744073709551616"
  using unsigned_less [of a] by simp

lemma unat_less_2p32: "unat (a :: u32) < 4294967296"
  using unsigned_less [of a] by simp

lemma unat_diff_le:
  fixes a b :: "'a::len word"
  assumes "unat b \<le> unat a"
  shows "unat (a - b) = unat a - unat b"
  using assms by (simp add: unat_sub word_le_nat_alt)

lemma unat_add_diff_cancel [simp]: "unat ((a + b) - a) = unat (b :: 'a::len word)"
  by simp

lemma unat_of_nat_small:
  "n < 2 ^ LENGTH('a) \<Longrightarrow> unat (of_nat n :: 'a::len word) = n"
  by (simp add: unat_of_nat)

lemma word_eq_iff_unat: "(a = b) \<longleftrightarrow> unat a = unat (b :: 'a::len word)"
  by (simp add: word_unat_eq_iff)

section \<open>Little-endian encoding\<close>

primrec le_bytes :: "nat \<Rightarrow> nat \<Rightarrow> u8 list" where
  "le_bytes 0 v = []"
| "le_bytes (Suc n) v = of_nat v # le_bytes n (v div 256)"

primrec le_val :: "u8 list \<Rightarrow> nat" where
  "le_val [] = 0"
| "le_val (b # bs) = unat b + 256 * le_val bs"

lemma length_le_bytes [simp]: "length (le_bytes n v) = n"
  by (induction n arbitrary: v) simp_all

lemma le_val_le_bytes: "le_val (le_bytes n v) = v mod 256 ^ n"
proof (induction n arbitrary: v)
  case 0
  then show ?case by simp
next
  case (Suc n)
  have "unat (of_nat v :: u8) = v mod 256"
    by (simp add: unat_of_nat)
  with Suc show ?case by (simp add: mod_mult2_eq)
qed

lemma le_val_less: "le_val bs < 256 ^ length bs"
proof (induction bs)
  case Nil
  then show ?case by simp
next
  case (Cons b bs)
  have "unat b < 256" using unsigned_less [of b] by simp
  with Cons show ?case by simp
qed

lemma le_bytes_le_val: "le_bytes (length bs) (le_val bs) = bs"
proof (induction bs)
  case Nil
  then show ?case by simp
next
  case (Cons b bs)
  have b: "unat b < 256" using unsigned_less [of b] by simp
  have "(of_nat (unat b + 256 * le_val bs) :: u8) = b + 256 * of_nat (le_val bs)"
    by simp
  also have "(256 :: u8) = 0" by simp
  finally have "(of_nat (unat b + 256 * le_val bs) :: u8) = b" by simp
  with Cons b show ?case by simp
qed

section \<open>Bytes of a region\<close>

definition rd :: "mem \<Rightarrow> nat \<Rightarrow> nat \<Rightarrow> u8 list" where
  "rd m a n = map m [a..<a + n]"

definition wr :: "mem \<Rightarrow> nat \<Rightarrow> u8 list \<Rightarrow> mem" where
  "wr m a bs = (\<lambda>x. if a \<le> x \<and> x < a + length bs then bs ! (x - a) else m x)"

text \<open>\<open>memset(p, 0, n)\<close>\<close>

definition zero :: "mem \<Rightarrow> nat \<Rightarrow> nat \<Rightarrow> mem" where
  "zero m a n = (\<lambda>x. if a \<le> x \<and> x < a + n then 0 else m x)"

definition ld64 :: "mem \<Rightarrow> nat \<Rightarrow> u64" where
  "ld64 m a = of_nat (le_val (rd m a 8))"

definition st64 :: "mem \<Rightarrow> nat \<Rightarrow> u64 \<Rightarrow> mem" where
  "st64 m a v = wr m a (le_bytes 8 (unat v))"

definition ld32 :: "mem \<Rightarrow> nat \<Rightarrow> u32" where
  "ld32 m a = of_nat (le_val (rd m a 4))"

definition st32 :: "mem \<Rightarrow> nat \<Rightarrow> u32 \<Rightarrow> mem" where
  "st32 m a v = wr m a (le_bytes 4 (unat v))"

text \<open>Two memories agree on a half-open range of offsets.\<close>

definition same_on :: "mem \<Rightarrow> mem \<Rightarrow> nat \<Rightarrow> nat \<Rightarrow> bool" where
  "same_on m m' lo hi \<longleftrightarrow> (\<forall>x. lo \<le> x \<and> x < hi \<longrightarrow> m' x = m x)"

lemma length_rd [simp]: "length (rd m a n) = n"
  by (simp add: rd_def)

lemma rd_nth [simp]: "i < n \<Longrightarrow> rd m a n ! i = m (a + i)"
  by (simp add: rd_def)

lemma rd_wr_same [simp, roundtrip]: "length bs = n \<Longrightarrow> rd (wr m a bs) a n = bs"
  by (rule nth_equalityI) (simp_all add: wr_def)

lemma rd_wr_other [simp, frame]: "a + n \<le> b \<or> b + length bs \<le> a \<Longrightarrow> rd (wr m b bs) a n = rd m a n"
  by (rule nth_equalityI) (auto simp: wr_def)

lemma wr_rd_same [simp]: "wr m a (rd m a n) = m"
  by (rule ext) (auto simp: wr_def)

lemma wr_Nil [simp]: "wr m a [] = m"
  by (rule ext) (auto simp: wr_def)

lemma rd_0 [simp]: "rd m a 0 = []"
  by (simp add: rd_def)

lemma same_onI: "(\<And>x. lo \<le> x \<Longrightarrow> x < hi \<Longrightarrow> m' x = m x) \<Longrightarrow> same_on m m' lo hi"
  by (simp add: same_on_def)

lemma same_onD: "same_on m m' lo hi \<Longrightarrow> lo \<le> x \<Longrightarrow> x < hi \<Longrightarrow> m' x = m x"
  by (simp add: same_on_def)

lemma same_on_refl [simp]: "same_on m m lo hi"
  by (simp add: same_on_def)

lemma same_on_trans: "same_on m m' lo hi \<Longrightarrow> same_on m' m'' lo hi \<Longrightarrow> same_on m m'' lo hi"
  by (simp add: same_on_def)

lemma same_on_sub: "same_on m m' lo hi \<Longrightarrow> lo \<le> lo' \<Longrightarrow> hi' \<le> hi \<Longrightarrow> same_on m m' lo' hi'"
  by (simp add: same_on_def)

lemma same_on_wr [simp]: "b + length bs \<le> lo \<or> hi \<le> b \<Longrightarrow> same_on m (wr m b bs) lo hi"
  by (auto simp: same_on_def wr_def)

lemma same_on_st64 [simp]: "b + 8 \<le> lo \<or> hi \<le> b \<Longrightarrow> same_on m (st64 m b v) lo hi"
  by (simp add: st64_def)

lemma same_on_st32 [simp]: "b + 4 \<le> lo \<or> hi \<le> b \<Longrightarrow> same_on m (st32 m b v) lo hi"
  by (simp add: st32_def)

lemma same_on_zero [simp]: "b + n \<le> lo \<or> hi \<le> b \<Longrightarrow> same_on m (zero m b n) lo hi"
  by (auto simp: same_on_def zero_def)

lemma st64_outside: "x < a \<or> a + 8 \<le> x \<Longrightarrow> st64 m a v x = m x"
  by (auto simp: st64_def wr_def)

lemma zero_outside: "x < a \<or> a + n \<le> x \<Longrightarrow> zero m a n x = m x"
  by (auto simp: zero_def)

lemma wr_outside: "x < a \<or> a + length bs \<le> x \<Longrightarrow> wr m a bs x = m x"
  by (auto simp: wr_def)

lemma rd_same_on: "same_on m m' a (a + n) \<Longrightarrow> rd m' a n = rd m a n"
  by (rule nth_equalityI) (auto simp: same_on_def)

lemma rd_part: "j + e \<le> n \<Longrightarrow> rd m (a + j) e = take e (drop j (rd m a n))"
  by (rule nth_equalityI) (simp_all add: add.assoc)

lemma ld64_same_on: "same_on m m' a (a + 8) \<Longrightarrow> ld64 m' a = ld64 m a"
  by (simp add: ld64_def rd_same_on)

lemma ld32_same_on: "same_on m m' a (a + 4) \<Longrightarrow> ld32 m' a = ld32 m a"
  by (simp add: ld32_def rd_same_on)

lemma ld64_st64_same [simp, roundtrip]: "ld64 (st64 m a v) a = v"
  using unat_less_2p64 [of v] by (simp add: ld64_def st64_def le_val_le_bytes)

lemma ld32_st32_same [simp, roundtrip]: "ld32 (st32 m a v) a = v"
  using unat_less_2p32 [of v] by (simp add: ld32_def st32_def le_val_le_bytes)

lemma ld64_st64_other [simp, frame]: "a + 8 \<le> b \<or> b + 8 \<le> a \<Longrightarrow> ld64 (st64 m b v) a = ld64 m a"
  by (simp add: ld64_def st64_def)

lemma ld64_st32_other [simp, frame]: "a + 8 \<le> b \<or> b + 4 \<le> a \<Longrightarrow> ld64 (st32 m b v) a = ld64 m a"
  by (simp add: ld64_def st32_def)

lemma ld32_st64_other [simp, frame]: "a + 4 \<le> b \<or> b + 8 \<le> a \<Longrightarrow> ld32 (st64 m b v) a = ld32 m a"
  by (simp add: ld32_def st64_def)

lemma ld32_st32_other [simp, frame]: "a + 4 \<le> b \<or> b + 4 \<le> a \<Longrightarrow> ld32 (st32 m b v) a = ld32 m a"
  by (simp add: ld32_def st32_def)

lemma ld64_wr_other [simp, frame]: "a + 8 \<le> b \<or> b + length bs \<le> a \<Longrightarrow> ld64 (wr m b bs) a = ld64 m a"
  by (simp add: ld64_def)

lemma ld32_wr_other [simp, frame]: "a + 4 \<le> b \<or> b + length bs \<le> a \<Longrightarrow> ld32 (wr m b bs) a = ld32 m a"
  by (simp add: ld32_def)

lemma st64_ld64_same [simp]: "st64 m a (ld64 m a) = m"
proof -
  have "le_val (rd m a 8) < 2 ^ 64" using le_val_less [of "rd m a 8"] by simp
  then have "le_bytes 8 (unat (ld64 m a)) = rd m a 8"
    using le_bytes_le_val [of "rd m a 8"] by (simp add: ld64_def unat_of_nat_small)
  then show ?thesis by (simp add: st64_def)
qed

lemma le_val_zeros: "le_val (replicate n 0) = 0"
  by (induction n) simp_all

lemma ld64_zeros: "ld64 (\<lambda>_. 0) a = 0"
  by (simp add: ld64_def rd_def map_replicate_const le_val_zeros)

section \<open>Rounding up to a power of two\<close>

lemma pow2_of_and_pred: "0 < n \<Longrightarrow> n AND (n - 1) = 0 \<Longrightarrow> \<exists>k. n = 2 ^ k" for n :: nat
proof (induction n rule: less_induct)
  case (less n)
  show ?case
  proof (cases "even n")
    case True
    with less.prems obtain h where n: "n = 2 * h" and h: "0 < h" by auto
    have "n AND (n - 1) = 2 * (h AND (h - 1))"
    proof -
      have "(n - 1) div 2 = h - 1" using n h by (cases h) simp_all
      then show ?thesis using n h and_nat_rec [of n "n - 1"] by simp
    qed
    with less.prems have "h AND (h - 1) = 0" by simp
    then obtain k where "h = 2 ^ k" using less.IH [of h] n h by auto
    then show ?thesis using n by (metis power_Suc)
  next
    case False
    then obtain h where n: "n = Suc (2 * h)" by (metis oddE Suc_eq_plus1)
    have "n AND (n - 1) = 2 * (h AND h)"
      using n and_nat_rec [of n "n - 1"] by simp
    with less.prems n have "n = 2 ^ 0" by simp
    then show ?thesis by blast
  qed
qed

lemma word_pow2_of_and_pred:
  fixes a :: "'a::len word"
  assumes "a \<noteq> 0" and "a AND (a - 1) = 0"
  obtains k where "unat a = 2 ^ k" and "k < LENGTH('a)" and "a = 2 ^ k"
proof -
  have pos: "0 < unat a" using assms(1) by (simp add: unat_gt_0)
  have "unat (a - 1) = unat a - 1"
    using pos by (simp add: unat_minus_one assms(1))
  with assms(2) have "unat a AND (unat a - 1) = 0"
    by (metis unsigned_and_eq unsigned_0)
  then obtain k where k: "unat a = 2 ^ k" using pow2_of_and_pred pos by blast
  have "k < LENGTH('a)"
    using unsigned_less [of a, where ?'a = nat] k by (simp add: power_strict_increasing_iff)
  moreover have "a = 2 ^ k" using k by (metis of_nat_numeral of_nat_power ucast_id of_nat_unat)
  ultimately show ?thesis using that k by blast
qed

lemma unat_and_not_mask:
  fixes v :: "'a::len word"
  shows "unat (v AND NOT (mask k)) = unat v div 2 ^ k * 2 ^ k"
proof -
  have "v AND NOT (mask k) = push_bit k (drop_bit k v)"
    by (rule bit_word_eqI) (auto simp: bit_simps)
  then have "unat (v AND NOT (mask k)) = take_bit LENGTH('a) (push_bit k (drop_bit k (unat v)))"
    by (simp add: unsigned_push_bit_eq unsigned_drop_bit_eq take_bit_nat_eq_self)
  also have "\<dots> = push_bit k (drop_bit k (unat v))"
  proof (rule take_bit_nat_eq_self)
    have "push_bit k (drop_bit k (unat v)) \<le> unat v"
      by (simp add: push_bit_eq_mult drop_bit_eq_div)
    also have "\<dots> < 2 ^ LENGTH('a)" by simp
    finally show "push_bit k (drop_bit k (unat v)) < 2 ^ LENGTH('a)" .
  qed
  finally show ?thesis by (simp add: push_bit_eq_mult drop_bit_eq_div)
qed

text \<open>The least multiple of \<open>a\<close> that is at least \<open>v\<close>.\<close>

definition round_up :: "nat \<Rightarrow> nat \<Rightarrow> nat" where
  "round_up v a = (v + (a - 1)) div a * a"

lemma round_up_ge: "0 < a \<Longrightarrow> v \<le> round_up v a"
  and round_up_less: "0 < a \<Longrightarrow> round_up v a < v + a"
  and round_up_mod [simp]: "round_up v a mod a = 0"
proof -
  assume a: "0 < a"
  have e: "(v + (a - 1)) div a * a + (v + (a - 1)) mod a = v + (a - 1)" by simp
  have "(v + (a - 1)) mod a < a" using a by simp
  with e a show "v \<le> round_up v a" unfolding round_up_def by linarith
  from e a show "round_up v a < v + a" unfolding round_up_def by linarith
next
  show "round_up v a mod a = 0" by (simp add: round_up_def)
qed

lemma round_up_eq: "0 < a \<Longrightarrow> v mod a = 0 \<Longrightarrow> round_up v a = v"
proof -
  assume a: "0 < a" and v: "v mod a = 0"
  then obtain q where q: "v = a * q" by (metis mod_0_imp_dvd dvdE)
  have "(a * q + (a - 1)) div a = q + (a - 1) div a"
    using a by (intro div_mult_self4) simp
  also have "(a - 1) div a = 0" using a by simp
  finally have "(a * q + (a - 1)) div a = q" by simp
  then show ?thesis by (simp add: round_up_def q mult.commute)
qed

end
