(* ===== verification/OffsetPtr.thy ===== *)
theory OffsetPtr
  imports Prelude
begin

text \<open>
  The public status codes (include/offset_store/offset_store.h, src/core/offset_store.c) and
  the offset pointers of src/core/offset_ptr.c: the null sentinel, the bounds check, and the
  conversions between process-local addresses and region offsets. An \<open>OffsetPtr\<close> is the
  C struct with one 64-bit field, so its model is that field. A C function that returns
  \<open>bool\<close> and fills an out parameter is an \<open>option\<close>; a null pointer is address 0; an out
  pointer is represented by whether it is non-null.
\<close>

section \<open>Status codes\<close>

datatype OffsetStoreStatus =
    STATUS_OK
  | STATUS_INVALID_ARGUMENT
  | STATUS_INVALID_STATE
  | STATUS_NOT_FOUND
  | STATUS_ALREADY_EXISTS
  | STATUS_OUT_OF_MEMORY
  | STATUS_SYSTEM_ERROR

text \<open>The values the C enumeration gives its constants; anything else is an unknown status.\<close>

definition status_of_code :: "int \<Rightarrow> OffsetStoreStatus option" where
  "status_of_code c =
     (if c = 0 then Some STATUS_OK
      else if c = 1 then Some STATUS_INVALID_ARGUMENT
      else if c = 2 then Some STATUS_INVALID_STATE
      else if c = 3 then Some STATUS_NOT_FOUND
      else if c = 4 then Some STATUS_ALREADY_EXISTS
      else if c = 5 then Some STATUS_OUT_OF_MEMORY
      else if c = 6 then Some STATUS_SYSTEM_ERROR
      else None)"

definition offset_store_status_string :: "int \<Rightarrow> string" where
  "offset_store_status_string c =
     (case status_of_code c of
        Some STATUS_OK \<Rightarrow> ''ok''
      | Some STATUS_INVALID_ARGUMENT \<Rightarrow> ''invalid argument''
      | Some STATUS_INVALID_STATE \<Rightarrow> ''invalid state''
      | Some STATUS_NOT_FOUND \<Rightarrow> ''not found''
      | Some STATUS_ALREADY_EXISTS \<Rightarrow> ''already exists''
      | Some STATUS_OUT_OF_MEMORY \<Rightarrow> ''out of memory''
      | Some STATUS_SYSTEM_ERROR \<Rightarrow> ''system error''
      | None \<Rightarrow> ''unknown status'')"

section \<open>Offset pointers\<close>

type_synonym OffsetPtr = u64

definition offset_ptr_null :: OffsetPtr where
  "offset_ptr_null = 0"

definition offset_ptr_is_null :: "OffsetPtr \<Rightarrow> bool" where
  "offset_ptr_is_null p \<longleftrightarrow> p = 0"

definition offset_ptr_is_in_bounds :: "u64 \<Rightarrow> OffsetPtr \<Rightarrow> u64 \<Rightarrow> bool" where
  "offset_ptr_is_in_bounds region_size p span =
     (if offset_ptr_is_null p then False
      else if 18446744073709551615 < unat span then False
      else if region_size \<le> p then False
      else if region_size - p < span then False
      else True)"

definition offset_ptr_try_from_raw :: "u64 \<Rightarrow> u64 \<Rightarrow> u64 \<Rightarrow> bool \<Rightarrow> OffsetPtr option" where
  "offset_ptr_try_from_raw base_addr region_size ptr_addr out_nonnull =
     (if base_addr = 0 \<or> ptr_addr = 0 \<or> \<not> out_nonnull then None
      else let end_addr = base_addr + region_size in
        if end_addr < base_addr \<or> ptr_addr < base_addr \<or> end_addr \<le> ptr_addr then None
        else let converted = ptr_addr - base_addr in
          if converted = 0 then None else Some converted)"

definition offset_ptr_try_resolve :: "u64 \<Rightarrow> u64 \<Rightarrow> OffsetPtr \<Rightarrow> u64 \<Rightarrow> bool \<Rightarrow> u64 option" where
  "offset_ptr_try_resolve base_addr region_size p span out_nonnull =
     (if base_addr = 0 \<or> \<not> out_nonnull then None
      else if \<not> offset_ptr_is_in_bounds region_size p span then None
      else Some (base_addr + p))"

definition offset_ptr_try_resolve_const ::
    "u64 \<Rightarrow> u64 \<Rightarrow> OffsetPtr \<Rightarrow> u64 \<Rightarrow> bool \<Rightarrow> u64 option" where
  "offset_ptr_try_resolve_const base_addr region_size p span out_nonnull =
     (if \<not> out_nonnull then None
      else case offset_ptr_try_resolve base_addr region_size p span True of
             None \<Rightarrow> None
           | Some resolved \<Rightarrow> Some resolved)"

section \<open>Facts\<close>

lemma offset_ptr_is_null_iff [simp]: "offset_ptr_is_null p \<longleftrightarrow> p = 0"
  by (simp add: offset_ptr_is_null_def)

lemma offset_ptr_is_null_null: "offset_ptr_is_null offset_ptr_null"
  by (simp add: offset_ptr_null_def)

lemma in_bounds_nat:
  "offset_ptr_is_in_bounds region_size p span \<longleftrightarrow>
     p \<noteq> 0 \<and> unat p < unat region_size \<and> unat p + unat span \<le> unat region_size"
proof -
  have "\<not> 18446744073709551615 < unat span"
    using unat_less_2p64 [of span] by linarith
  moreover have "unat (region_size - p) = unat region_size - unat p"
    if "unat p < unat region_size"
    using that by (simp add: unat_diff_le)
  ultimately show ?thesis
    by (auto simp: offset_ptr_is_in_bounds_def word_less_nat_alt word_le_nat_alt)
qed

lemma resolve_iff:
  "offset_ptr_try_resolve base region_size p span True = Some r \<longleftrightarrow>
     base \<noteq> 0 \<and> r = base + p \<and> p \<noteq> 0 \<and> unat p < unat region_size \<and>
     unat p + unat span \<le> unat region_size"
  by (auto simp: offset_ptr_try_resolve_def in_bounds_nat)

lemma resolve_None_iff:
  "offset_ptr_try_resolve base region_size p span True = None \<longleftrightarrow>
     \<not> (base \<noteq> 0 \<and> p \<noteq> 0 \<and> unat p < unat region_size \<and> unat p + unat span \<le> unat region_size)"
  by (auto simp: offset_ptr_try_resolve_def in_bounds_nat)

lemma resolve_const_eq:
  "offset_ptr_try_resolve_const = offset_ptr_try_resolve"
  by (intro ext)
     (auto simp: offset_ptr_try_resolve_const_def offset_ptr_try_resolve_def split: option.splits)

text \<open>A mapping that \<open>mmap\<close> can return: non-null and not wrapping past the address space.\<close>

definition mapping_ok :: "u64 \<Rightarrow> u64 \<Rightarrow> bool" where
  "mapping_ok base region_size \<longleftrightarrow> base \<noteq> 0 \<and> unat base + unat region_size < 2 ^ 64"

lemma from_raw_of_offset:
  assumes "mapping_ok base region_size" and "p \<noteq> 0" and "unat p < unat region_size"
  shows "offset_ptr_try_from_raw base region_size (base + p) True = Some p"
proof -
  have b: "base \<noteq> 0" "unat base + unat region_size < 18446744073709551616"
    using assms(1) by (simp_all add: mapping_ok_def)
  have e: "unat (base + region_size) = unat base + unat region_size"
    and f: "unat (base + p) = unat base + unat p"
    using b assms(3) by (auto intro!: unat_add_nowrap)
  have "0 < unat base" using b by (simp add: unat_gt_0)
  then have "base + p \<noteq> 0" using f by auto
  then show ?thesis
    using b e f assms
    by (simp add: offset_ptr_try_from_raw_def word_less_nat_alt word_le_nat_alt Let_def)
qed

lemma from_raw_SomeD:
  assumes "offset_ptr_try_from_raw base region_size ptr True = Some p"
  shows "ptr = base + p" and "p \<noteq> 0" and "unat p < unat region_size" and "base \<noteq> 0"
proof -
  have s: "base \<noteq> 0" "base \<le> base + region_size" "base \<le> ptr" "ptr < base + region_size"
      "p = ptr - base" "p \<noteq> 0"
    using assms by (auto simp: offset_ptr_try_from_raw_def Let_def not_less split: if_splits)
  show "ptr = base + p" and "p \<noteq> 0" and "base \<noteq> 0" using s by simp_all
  have "unat (base + region_size) = unat base + unat region_size"
    using s(2) by (simp add: unat_plus_simple)
  then show "unat p < unat region_size"
    using s by (simp add: word_less_nat_alt word_le_nat_alt unat_diff_le)
qed

section \<open>Properties\<close>

text \<open>an offset taken from a pointer in one mapping resolves, in any other mapping of the
  same region, to the address at the same distance from that mapping's base, for every span
  that fits; in the same mapping it resolves to the original pointer. Offsets are therefore
  position independent.\<close>

theorem offset_ptr_relocation:
  assumes "offset_ptr_try_from_raw base region_size ptr True = Some p"
    and "base' \<noteq> 0" and "unat p + unat span \<le> unat region_size"
  shows "offset_ptr_try_resolve base' region_size p span True = Some (base' + (ptr - base))
       \<and> offset_ptr_try_resolve base region_size p span True = Some ptr"
  using from_raw_SomeD [OF assms(1)] assms(2,3) by (simp add: resolve_iff)

theorem offset_ptr_relocation_witness:
  "offset_ptr_try_from_raw 4096 8192 4112 True = Some 16
   \<and> offset_ptr_try_resolve 65536 8192 16 100 True = Some (65536 + (4112 - 4096))
   \<and> offset_ptr_try_resolve 4096 8192 16 100 True = Some 4112"
proof -
  have h: "offset_ptr_try_from_raw 4096 8192 4112 True = Some 16"
    by (simp add: offset_ptr_try_from_raw_def)
  show ?thesis
    using h offset_ptr_relocation [OF h, of 65536 100] by simp
qed

text \<open>C21: in every mapping the address space can hold, resolution is exact: an offset resolves if and
  only if it is not null, lies before the end of the region and leaves the whole span inside it, and
  then to the address at that distance from the base; every other offset, and a null out parameter,
  is refused. The range at a resolved address therefore starts after the base (offset zero is
  reserved) and ends inside the mapping, with no wrap-around. The const variant does the same.\<close>

theorem offset_ptr_resolve_safe:
  assumes "mapping_ok base region_size"
  shows "offset_ptr_try_resolve base region_size p span out =
       (if out \<and> p \<noteq> 0 \<and> unat p < unat region_size \<and> unat p + unat span \<le> unat region_size
        then Some (base + p) else None)
     \<and> (\<forall>r. offset_ptr_try_resolve base region_size p span out = Some r \<longrightarrow>
          unat r = unat base + unat p \<and> unat base < unat r \<and> unat r + unat span \<le> unat base + unat region_size)
     \<and> offset_ptr_try_resolve_const base region_size p span out = offset_ptr_try_resolve base region_size p span out"
proof -
  let ?in = "p \<noteq> 0 \<and> unat p < unat region_size \<and> unat p + unat span \<le> unat region_size"
  have e: "offset_ptr_try_resolve base region_size p span out = (if out \<and> ?in then Some (base + p) else None)"
    using assms by (simp add: offset_ptr_try_resolve_def in_bounds_nat mapping_ok_def)
  have "unat (base + p) = unat base + unat p" if ?in
    using assms that by (intro unat_add_nowrap) (simp add: mapping_ok_def)
  then show ?thesis using e by (auto simp: resolve_const_eq unat_gt_0)
qed

text \<open>A region of 8192 bytes at 4096: one offset that resolves, and the null offset, an offset at the end of
  the region, a span that leaves it by one byte and a null out parameter, which are refused.\<close>

theorem offset_ptr_resolve_safe_witness:
  "mapping_ok 4096 8192 \<and> offset_ptr_try_resolve 4096 8192 8184 8 True = Some 12280
   \<and> offset_ptr_try_resolve 4096 8192 0 8 True = None \<and> offset_ptr_try_resolve 4096 8192 8192 0 True = None
   \<and> offset_ptr_try_resolve 4096 8192 8185 8 True = None \<and> offset_ptr_try_resolve 4096 8192 8184 8 False = None"
proof -
  have m: "mapping_ok 4096 8192" by (simp add: mapping_ok_def)
  note r = offset_ptr_resolve_safe [OF m, THEN conjunct1]
  show ?thesis using m by (simp add: r)
qed

end
