(* ===== verification/Sync.thy ===== *)
theory Sync
  imports OffsetPtr
begin

text \<open>
  The state every operation runs on and the POSIX synchronization it calls. A \<open>world\<close> is the
  shared object as one thread sees it: its bytes, the state of the \<open>pthread_mutex_t\<close> and
  \<open>pthread_rwlock_t\<close> objects that live in it (keyed by the region offset at which the C
  struct holds them; their bytes are opaque and no code reads them), the thread-local
  \<open>held_shard\<close> of allocator.c, and the diagnostics it prints. The calls follow POSIX:
  locking a mutex whose owner died returns \<open>EOWNERDEAD\<close> and hands the mutex over in the
  inconsistent state, unlocking it in that state makes it unrecoverable, and a lock that is held
  elsewhere blocks. A call that does not return is \<open>None\<close>. Return codes POSIX leaves to the
  system (attribute and initialization calls) are fields of the environment \<open>env\<close>, together
  with the preprocessor facts the sources test (\<open>#if defined\<close>).
\<close>

datatype mutex_state =
    MUninit
  | MFree
  | MHeld nat bool
  | MDead
  | MNotRecoverable

datatype rw_state =
    RWUninit
  | RWFree
  | RWRead nat
  | RWWrite nat

record env =
  env_tid :: nat
  def_EOWNERDEAD :: bool
  def_ROBUST :: bool
  rc_mutexattr_init :: int
  rc_mutexattr_setpshared :: int
  rc_mutexattr_setrobust :: int
  rc_mutex_init :: "nat \<Rightarrow> int"
  rc_rwlockattr_init :: int
  rc_rwlockattr_setpshared :: int
  rc_rwlock_init :: "nat \<Rightarrow> int"

record world =
  bytes :: mem
  mtx :: "nat \<Rightarrow> mutex_state"
  rwl :: "nat \<Rightarrow> rw_state"
  held_shard :: "nat \<Rightarrow> int"
  dlog :: "(string \<times> u32 \<times> int) list"

text \<open>An action may block or run forever, which is \<open>None\<close>.\<close>

type_synonym 'a result = "('a \<times> world) option"

definition EPERM :: int where "EPERM = 1"
definition EBUSY :: int where "EBUSY = 16"
definition EINVAL :: int where "EINVAL = 22"
definition EDEADLK :: int where "EDEADLK = 35"
definition EOWNERDEAD :: int where "EOWNERDEAD = 130"
definition ENOTRECOVERABLE :: int where "ENOTRECOVERABLE = 131"

lemmas errno_defs [simp] =
  EPERM_def EBUSY_def EINVAL_def EDEADLK_def EOWNERDEAD_def ENOTRECOVERABLE_def

definition set_mtx :: "nat \<Rightarrow> mutex_state \<Rightarrow> world \<Rightarrow> world" where
  "set_mtx a s w = w\<lparr>mtx := (mtx w)(a := s)\<rparr>"

definition set_rwl :: "nat \<Rightarrow> rw_state \<Rightarrow> world \<Rightarrow> world" where
  "set_rwl a s w = w\<lparr>rwl := (rwl w)(a := s)\<rparr>"

definition set_bytes :: "mem \<Rightarrow> world \<Rightarrow> world" where
  "set_bytes m w = w\<lparr>bytes := m\<rparr>"

definition set_held :: "nat \<Rightarrow> int \<Rightarrow> world \<Rightarrow> world" where
  "set_held t v w = w\<lparr>held_shard := (held_shard w)(t := v)\<rparr>"

section \<open>Mutexes\<close>

definition pthread_mutex_lock :: "env \<Rightarrow> nat \<Rightarrow> world \<Rightarrow> int result" where
  "pthread_mutex_lock E a w =
     (case mtx w a of
        MFree \<Rightarrow> Some (0, set_mtx a (MHeld (env_tid E) False) w)
      | MDead \<Rightarrow> Some (EOWNERDEAD, set_mtx a (MHeld (env_tid E) True) w)
      | MNotRecoverable \<Rightarrow> Some (ENOTRECOVERABLE, w)
      | MUninit \<Rightarrow> Some (EINVAL, w)
      | MHeld t i \<Rightarrow> None)"

definition pthread_mutex_trylock :: "env \<Rightarrow> nat \<Rightarrow> world \<Rightarrow> int \<times> world" where
  "pthread_mutex_trylock E a w =
     (case mtx w a of
        MFree \<Rightarrow> (0, set_mtx a (MHeld (env_tid E) False) w)
      | MDead \<Rightarrow> (EOWNERDEAD, set_mtx a (MHeld (env_tid E) True) w)
      | MNotRecoverable \<Rightarrow> (ENOTRECOVERABLE, w)
      | MUninit \<Rightarrow> (EINVAL, w)
      | MHeld t i \<Rightarrow> (EBUSY, w))"

definition pthread_mutex_unlock :: "env \<Rightarrow> nat \<Rightarrow> world \<Rightarrow> int \<times> world" where
  "pthread_mutex_unlock E a w =
     (case mtx w a of
        MHeld t i \<Rightarrow>
          if t = env_tid E
          then (0, set_mtx a (if i then MNotRecoverable else MFree) w)
          else (EPERM, w)
      | MUninit \<Rightarrow> (EINVAL, w)
      | _ \<Rightarrow> (EPERM, w))"

definition pthread_mutex_consistent :: "env \<Rightarrow> nat \<Rightarrow> world \<Rightarrow> int \<times> world" where
  "pthread_mutex_consistent E a w =
     (case mtx w a of
        MHeld t i \<Rightarrow> if t = env_tid E \<and> i then (0, set_mtx a (MHeld t False) w) else (EINVAL, w)
      | _ \<Rightarrow> (EINVAL, w))"

definition pthread_mutex_init :: "env \<Rightarrow> nat \<Rightarrow> world \<Rightarrow> int \<times> world" where
  "pthread_mutex_init E a w =
     (rc_mutex_init E a, if rc_mutex_init E a = 0 then set_mtx a MFree w else w)"

definition pthread_mutex_destroy :: "nat \<Rightarrow> world \<Rightarrow> world" where
  "pthread_mutex_destroy a w = set_mtx a MUninit w"

section \<open>Read-write locks\<close>

definition pthread_rwlock_wrlock :: "env \<Rightarrow> nat \<Rightarrow> world \<Rightarrow> int result" where
  "pthread_rwlock_wrlock E a w =
     (case rwl w a of
        RWFree \<Rightarrow> Some (0, set_rwl a (RWWrite (env_tid E)) w)
      | RWUninit \<Rightarrow> Some (EINVAL, w)
      | RWWrite t \<Rightarrow> if t = env_tid E then Some (EDEADLK, w) else None
      | RWRead n \<Rightarrow> None)"

definition pthread_rwlock_rdlock :: "env \<Rightarrow> nat \<Rightarrow> world \<Rightarrow> int result" where
  "pthread_rwlock_rdlock E a w =
     (case rwl w a of
        RWFree \<Rightarrow> Some (0, set_rwl a (RWRead 1) w)
      | RWRead n \<Rightarrow> Some (0, set_rwl a (RWRead (Suc n)) w)
      | RWUninit \<Rightarrow> Some (EINVAL, w)
      | RWWrite t \<Rightarrow> if t = env_tid E then Some (EDEADLK, w) else None)"

definition pthread_rwlock_trywrlock :: "env \<Rightarrow> nat \<Rightarrow> world \<Rightarrow> int \<times> world" where
  "pthread_rwlock_trywrlock E a w =
     (case rwl w a of
        RWFree \<Rightarrow> (0, set_rwl a (RWWrite (env_tid E)) w)
      | RWUninit \<Rightarrow> (EINVAL, w)
      | _ \<Rightarrow> (EBUSY, w))"

definition pthread_rwlock_unlock :: "env \<Rightarrow> nat \<Rightarrow> world \<Rightarrow> int \<times> world" where
  "pthread_rwlock_unlock E a w =
     (case rwl w a of
        RWRead n \<Rightarrow> (0, set_rwl a (if n \<le> 1 then RWFree else RWRead (n - 1)) w)
      | RWWrite t \<Rightarrow> if t = env_tid E then (0, set_rwl a RWFree w) else (EPERM, w)
      | RWUninit \<Rightarrow> (EINVAL, w)
      | RWFree \<Rightarrow> (EPERM, w))"

definition pthread_rwlock_init :: "env \<Rightarrow> nat \<Rightarrow> world \<Rightarrow> int \<times> world" where
  "pthread_rwlock_init E a w =
     (rc_rwlock_init E a, if rc_rwlock_init E a = 0 then set_rwl a RWFree w else w)"

section \<open>Facts\<close>

lemma bytes_setters [simp]:
  "bytes (set_mtx a s w) = bytes w" "bytes (set_rwl a r w) = bytes w"
  "bytes (set_bytes m w) = m" "bytes (set_held t v w) = bytes w"
  by (simp_all add: set_mtx_def set_rwl_def set_bytes_def set_held_def)

lemma mtx_setters [simp]:
  "mtx (set_mtx a s w) = (mtx w)(a := s)" "mtx (set_rwl a r w) = mtx w"
  "mtx (set_bytes m w) = mtx w" "mtx (set_held t v w) = mtx w"
  by (simp_all add: set_mtx_def set_rwl_def set_bytes_def set_held_def)

lemma rwl_setters [simp]:
  "rwl (set_mtx a s w) = rwl w" "rwl (set_rwl a r w) = (rwl w)(a := r)"
  "rwl (set_bytes m w) = rwl w" "rwl (set_held t v w) = rwl w"
  by (simp_all add: set_mtx_def set_rwl_def set_bytes_def set_held_def)

lemma held_setters [simp]:
  "held_shard (set_mtx a s w) = held_shard w" "held_shard (set_rwl a r w) = held_shard w"
  "held_shard (set_bytes m w) = held_shard w"
  "held_shard (set_held t v w) = (held_shard w)(t := v)"
  by (simp_all add: set_mtx_def set_rwl_def set_bytes_def set_held_def)

lemma dlog_setters [simp]:
  "dlog (set_mtx a s w) = dlog w" "dlog (set_rwl a r w) = dlog w"
  "dlog (set_bytes m w) = dlog w" "dlog (set_held t v w) = dlog w"
  by (simp_all add: set_mtx_def set_rwl_def set_bytes_def set_held_def)

lemma setters_collapse [simp]:
  "set_mtx a s (set_mtx a s' w) = set_mtx a s w"
  "set_rwl a r (set_rwl a r' w) = set_rwl a r w"
  "set_bytes m (set_bytes m' w) = set_bytes m w"
  "set_held t v (set_held t v' w) = set_held t v w"
  by (simp_all add: set_mtx_def set_rwl_def set_bytes_def set_held_def)

lemma setters_commute [simp]:
  "set_mtx a s (set_bytes m w) = set_bytes m (set_mtx a s w)"
  "set_rwl a r (set_bytes m w) = set_bytes m (set_rwl a r w)"
  "set_held t v (set_bytes m w) = set_bytes m (set_held t v w)"
  "set_held t v (set_mtx a s w) = set_mtx a s (set_held t v w)"
  by (simp_all add: set_mtx_def set_rwl_def set_bytes_def set_held_def)

lemma set_mtx_same [simp]: "mtx w a = s \<Longrightarrow> set_mtx a s w = w"
  by (auto simp: set_mtx_def)

lemma set_rwl_same [simp]: "rwl w a = r \<Longrightarrow> set_rwl a r w = w"
  by (auto simp: set_rwl_def)

lemma set_bytes_same [simp]: "bytes w = m \<Longrightarrow> set_bytes m w = w"
  by (auto simp: set_bytes_def)

lemma set_held_same [simp]: "held_shard w t = v \<Longrightarrow> set_held t v w = w"
  by (auto simp: set_held_def)

lemma mutex_lock_free [simp]:
  "mtx w a = MFree \<Longrightarrow> pthread_mutex_lock E a w = Some (0, set_mtx a (MHeld (env_tid E) False) w)"
  by (simp add: pthread_mutex_lock_def)

lemma mutex_unlock_own [simp]:
  "mtx w a = MHeld (env_tid E) False \<Longrightarrow> pthread_mutex_unlock E a w = (0, set_mtx a MFree w)"
  by (simp add: pthread_mutex_unlock_def)

lemma rwlock_wrlock_free [simp]:
  "rwl w a = RWFree \<Longrightarrow> pthread_rwlock_wrlock E a w = Some (0, set_rwl a (RWWrite (env_tid E)) w)"
  by (simp add: pthread_rwlock_wrlock_def)

lemma rwlock_unlock_own [simp]:
  "rwl w a = RWWrite (env_tid E) \<Longrightarrow> pthread_rwlock_unlock E a w = (0, set_rwl a RWFree w)"
  by (simp add: pthread_rwlock_unlock_def)

lemma rwlock_rdlock_free [simp]:
  "rwl w a = RWFree \<Longrightarrow> pthread_rwlock_rdlock E a w = Some (0, set_rwl a (RWRead 1) w)"
  by (simp add: pthread_rwlock_rdlock_def)

lemma rwlock_unlock_read1 [simp]:
  "rwl w a = RWRead (Suc 0) \<Longrightarrow> pthread_rwlock_unlock E a w = (0, set_rwl a RWFree w)"
  by (simp add: pthread_rwlock_unlock_def)

end
