(* ===== verification/NameTable.thy ===== *)
theory NameTable
  imports Sync
begin

text \<open>
  The fixed-capacity name tables of the region header (src/core/shm_region.c): the root table
  and the index table have the same entry layout (\<open>in_use\<close>, seven reserved bytes, a 32-byte
  inline name, an \<open>OffsetPtr\<close>) and the same lookup, insert and remove loops, so the entry
  operations are defined once over the table's offset and capacity; Region.thy instantiates
  them for the two tables. The locale states what a table promises: it is a finite map from
  names to handles.
\<close>

section \<open>Entries\<close>

text \<open>Offsets of the fields of \<open>ShmRegionRootEntry\<close> and \<open>ShmRegionIndexEntry\<close>.\<close>

definition ENTRY_RESERVED :: nat where "ENTRY_RESERVED = 1"
definition ENTRY_NAME :: nat where "ENTRY_NAME = 8"
definition ENTRY_OBJECT :: nat where "ENTRY_OBJECT = 40"
definition SIZEOF_ENTRY :: nat where "SIZEOF_ENTRY = 48"
definition NAME_LENGTH :: nat where "NAME_LENGTH = 32"

lemmas entry_layout [layout, simp] =
  ENTRY_RESERVED_def ENTRY_NAME_def ENTRY_OBJECT_def SIZEOF_ENTRY_def NAME_LENGTH_def

definition entry_at :: "nat \<Rightarrow> nat \<Rightarrow> nat" where
  "entry_at tbl i = tbl + SIZEOF_ENTRY * i"

text \<open>\<open>strcmp(buffer, name) == 0\<close> for a buffer in the region and a string argument.\<close>

definition strcmp_eq :: "mem \<Rightarrow> nat \<Rightarrow> cstr \<Rightarrow> bool" where
  "strcmp_eq m a s \<longleftrightarrow> rd m a (length s) = s \<and> m (a + length s) = 0"

text \<open>\<open>strnlen(s, n)\<close>\<close>

definition strnlen :: "cstr \<Rightarrow> nat \<Rightarrow> nat" where
  "strnlen s n = min (length s) n"

text \<open>The validity check both tables make on a candidate name; \<open>None\<close> is a null pointer.\<close>

definition name_valid :: "nat \<Rightarrow> cstr option \<Rightarrow> bool" where
  "name_valid limit name =
     (case name of
        None \<Rightarrow> False
      | Some s \<Rightarrow> \<not> (strnlen s limit = 0 \<or> limit \<le> strnlen s limit))"

definition entry_matches :: "mem \<Rightarrow> cstr \<Rightarrow> nat \<Rightarrow> bool" where
  "entry_matches m name e \<longleftrightarrow> m e \<noteq> 0 \<and> strcmp_eq m (e + ENTRY_NAME) name"

definition table_find :: "mem \<Rightarrow> nat \<Rightarrow> nat \<Rightarrow> cstr \<Rightarrow> nat option" where
  "table_find m tbl cap name = find (entry_matches m name) (map (entry_at tbl) [0..<cap])"

definition table_find_free :: "mem \<Rightarrow> nat \<Rightarrow> nat \<Rightarrow> nat option" where
  "table_find_free m tbl cap = find (\<lambda>e. m e = 0) (map (entry_at tbl) [0..<cap])"

definition entry_store :: "mem \<Rightarrow> nat \<Rightarrow> cstr \<Rightarrow> OffsetPtr \<Rightarrow> mem" where
  "entry_store m e name obj =
     (let m1 = wr m e [1];
          m2 = zero m1 (e + ENTRY_RESERVED) 7;
          m3 = zero m2 (e + ENTRY_NAME) NAME_LENGTH;
          m4 = wr m3 (e + ENTRY_NAME) name
      in st64 m4 (e + ENTRY_OBJECT) obj)"

definition entry_clear :: "mem \<Rightarrow> nat \<Rightarrow> mem" where
  "entry_clear m e =
     (let m1 = wr m e [0];
          m2 = zero m1 (e + ENTRY_RESERVED) 7;
          m3 = zero m2 (e + ENTRY_NAME) NAME_LENGTH
      in st64 m3 (e + ENTRY_OBJECT) offset_ptr_null)"

definition table_clear :: "mem \<Rightarrow> nat \<Rightarrow> nat \<Rightarrow> mem" where
  "table_clear m tbl cap = fold (\<lambda>i m. entry_clear m (entry_at tbl i)) [0..<cap] m"

text \<open>The slot an insert writes: the entry of that name if there is one, else the first unused.\<close>

definition table_slot :: "mem \<Rightarrow> nat \<Rightarrow> nat \<Rightarrow> cstr \<Rightarrow> nat option" where
  "table_slot m tbl cap name =
     (case table_find m tbl cap name of
        Some e \<Rightarrow> Some e
      | None \<Rightarrow> table_find_free m tbl cap)"

text \<open>The finite map a table stands for.\<close>

definition table_map :: "mem \<Rightarrow> nat \<Rightarrow> nat \<Rightarrow> cstr \<rightharpoonup> OffsetPtr" where
  "table_map m tbl cap name =
     map_option (\<lambda>e. ld64 m (e + ENTRY_OBJECT)) (table_find m tbl cap name)"

text \<open>A name the tables accept: non-empty, shorter than the buffer, without a null byte.\<close>

definition good_name :: "cstr \<Rightarrow> bool" where
  "good_name s \<longleftrightarrow> s \<noteq> [] \<and> length s < NAME_LENGTH \<and> 0 \<notin> set s"

text \<open>No two used entries hold the same name.\<close>

definition table_uniq :: "mem \<Rightarrow> nat \<Rightarrow> nat \<Rightarrow> bool" where
  "table_uniq m tbl cap \<longleftrightarrow>
     (\<forall>i < cap. \<forall>j < cap. \<forall>s. i \<noteq> j \<longrightarrow> good_name s \<longrightarrow>
        \<not> (entry_matches m s (entry_at tbl i) \<and> entry_matches m s (entry_at tbl j)))"

text \<open>Every used entry holds a name the tables accept.\<close>

definition table_exact :: "mem \<Rightarrow> nat \<Rightarrow> nat \<Rightarrow> bool" where
  "table_exact m tbl cap \<longleftrightarrow>
     (\<forall>i < cap. m (entry_at tbl i) \<noteq> 0 \<longrightarrow> (\<exists>s. good_name s \<and> entry_matches m s (entry_at tbl i)))"

section \<open>Facts about entries\<close>

lemma name_valid_iff: "name_valid limit name \<longleftrightarrow> (\<exists>s. name = Some s \<and> s \<noteq> [] \<and> length s < limit)"
  by (cases name) (auto simp: name_valid_def strnlen_def min_def)

lemma find_map_Some:
  "find P (map f [0..<n]) = Some e \<longleftrightarrow>
     (\<exists>i < n. e = f i \<and> P (f i) \<and> (\<forall>j < i. \<not> P (f j)))"
  by (auto simp: find_Some_iff)

lemma find_map_None: "find P (map f [0..<n]) = None \<longleftrightarrow> (\<forall>i < n. \<not> P (f i))"
  by (auto simp: find_None_iff)

lemma strcmp_eq_unique:
  assumes "strcmp_eq m a s" and "strcmp_eq m a t" and "0 \<notin> set s" and "0 \<notin> set t"
  shows "s = t"
proof -
  have len: "\<not> length u < length v"
    if "strcmp_eq m a u" "strcmp_eq m a v" "0 \<notin> set v" for u v
  proof
    assume l: "length u < length v"
    then have "v ! length u = rd m a (length v) ! length u"
      using that(2) by (simp add: strcmp_eq_def)
    also have "\<dots> = 0" using that(1) l by (simp add: strcmp_eq_def)
    finally show False using that(3) l by (metis nth_mem)
  qed
  have "length s = length t"
    using len [OF assms(1,2,4)] len [OF assms(2,1,3)] by simp
  then show ?thesis using assms by (metis strcmp_eq_def)
qed

lemma entry_matches_unique:
  "entry_matches m s e \<Longrightarrow> entry_matches m t e \<Longrightarrow> 0 \<notin> set s \<Longrightarrow> 0 \<notin> set t \<Longrightarrow> s = t"
  by (auto simp: entry_matches_def intro: strcmp_eq_unique)

lemma entry_matches_same_on:
  assumes "same_on m m' e (e + 40)" and "length s < 32"
  shows "entry_matches m' s e = entry_matches m s e"
proof -
  have "m' e = m e" using assms by (simp add: same_on_def)
  moreover have "rd m' (e + 8) (length s) = rd m (e + 8) (length s)"
    using assms by (intro rd_same_on) (auto elim!: same_on_sub)
  moreover have "m' (e + 8 + length s) = m (e + 8 + length s)"
    using assms by (simp add: same_on_def)
  ultimately show ?thesis by (simp add: entry_matches_def strcmp_eq_def)
qed

lemma entry_store_outside: "length name \<le> 32 \<Longrightarrow> x < e \<or> e + 48 \<le> x \<Longrightarrow> entry_store m e name obj x = m x"
  by (auto simp: entry_store_def Let_def wr_def zero_def st64_def)

lemma entry_clear_outside: "x < e \<or> e + 48 \<le> x \<Longrightarrow> entry_clear m e x = m x"
  by (auto simp: entry_clear_def Let_def wr_def zero_def st64_def)

lemma entry_store_object [simp]: "ld64 (entry_store m e name obj) (e + 40) = obj"
  by (simp add: entry_store_def Let_def)

lemma entry_store_in_use [simp]: "length name \<le> 32 \<Longrightarrow> entry_store m e name obj e = 1"
  by (simp add: entry_store_def Let_def wr_def zero_def st64_def)

lemma entry_clear_in_use [simp]: "entry_clear m e e = 0"
  by (simp add: entry_clear_def Let_def wr_def zero_def st64_def)

lemma entry_store_strcmp:
  assumes "length name < 32"
  shows "strcmp_eq (entry_store m e name obj) (e + 8) name"
proof -
  have "rd (entry_store m e name obj) (e + 8) (length name) = name"
    using assms by (simp add: entry_store_def Let_def st64_def)
  moreover have "entry_store m e name obj (e + 8 + length name) = 0"
    using assms by (simp add: entry_store_def Let_def st64_def wr_def zero_def)
  ultimately show ?thesis by (simp add: strcmp_eq_def)
qed

lemma entry_store_matches_iff:
  assumes "good_name name" and "0 \<notin> set s"
  shows "entry_matches (entry_store m e name obj) s e \<longleftrightarrow> s = name"
proof -
  let ?m = "entry_store m e name obj"
  have l: "length name < 32" and z: "0 \<notin> set name" using assms(1) by (simp_all add: good_name_def)
  have c: "strcmp_eq ?m (e + 8) name" using l by (rule entry_store_strcmp)
  show ?thesis
    using c strcmp_eq_unique [OF _ c assms(2) z] l by (auto simp: entry_matches_def)
qed

lemma entry_clear_matches [simp]: "\<not> entry_matches (entry_clear m e) s e"
  by (simp add: entry_matches_def)

lemma entry_at_inj: "entry_at tbl i = entry_at tbl j \<longleftrightarrow> i = j"
  by (simp add: entry_at_def)

lemma entry_at_disjoint: "i \<noteq> j \<Longrightarrow> entry_at tbl i + 48 \<le> entry_at tbl j \<or> entry_at tbl j + 48 \<le> entry_at tbl i"
  by (auto simp: entry_at_def)

lemma table_clear_Suc: "table_clear m tbl (Suc n) = entry_clear (table_clear m tbl n) (entry_at tbl n)"
  by (simp add: table_clear_def)

lemma table_clear_outside: "x < tbl \<or> tbl + 48 * cap \<le> x \<Longrightarrow> table_clear m tbl cap x = m x"
proof (induction cap)
  case 0
  then show ?case by (simp add: table_clear_def)
next
  case (Suc n)
  then show ?case by (auto simp: table_clear_Suc entry_clear_outside entry_at_def)
qed

lemma table_clear_unused: "i < cap \<Longrightarrow> table_clear m tbl cap (entry_at tbl i) = 0"
proof (induction cap)
  case 0
  then show ?case by simp
next
  case (Suc n)
  then show ?case
    by (cases "i = n") (auto simp: table_clear_Suc entry_clear_outside entry_at_def)
qed

section \<open>The contract of a table\<close>

text \<open>
  A name table occupies \<open>cap\<close> entries from offset \<open>tbl\<close>; the scalar header fields, among
  them the checksum that every update refreshes, are below it.
\<close>

locale name_table =
  fixes tbl :: nat and cap :: nat
  assumes above_scalars: "40 \<le> tbl"
begin

lemma find_SomeD:
  assumes "table_find m tbl cap s = Some e"
  obtains i where "i < cap" "e = entry_at tbl i" "entry_matches m s e"
    "\<And>j. j < i \<Longrightarrow> \<not> entry_matches m s (entry_at tbl j)"
  using assms unfolding table_find_def find_map_Some by blast

lemma other_entry_matches:
  assumes "length s < 32" and "\<And>x. x < e \<or> e + 48 \<le> x \<Longrightarrow> m' x = m x"
    and "e = entry_at tbl i" and "i \<noteq> j"
  shows "entry_matches m' s (entry_at tbl j) = entry_matches m s (entry_at tbl j)"
proof (rule entry_matches_same_on [OF _ assms(1)])
  show "same_on m m' (entry_at tbl j) (entry_at tbl j + 40)"
    using entry_at_disjoint [OF assms(4), of tbl] assms(2,3) by (intro same_onI) auto
qed

lemma find_cong:
  assumes "\<And>j. j < cap \<Longrightarrow> entry_matches m' s (entry_at tbl j) = entry_matches m s (entry_at tbl j)"
  shows "table_find m' tbl cap s = table_find m tbl cap s"
  unfolding table_find_def by (rule find_cong) (use assms in auto)

lemma map_cong:
  assumes "\<And>j. j < cap \<Longrightarrow> same_on m m' (entry_at tbl j) (entry_at tbl j + 48)" and "length s < 32"
  shows "table_map m' tbl cap s = table_map m tbl cap s"
proof -
  have "table_find m' tbl cap s = table_find m tbl cap s"
    using assms by (intro find_cong entry_matches_same_on) (auto intro: same_on_sub [OF assms(1)])
  moreover have "ld64 m' (e + 40) = ld64 m (e + 40)" if "table_find m tbl cap s = Some e" for e
    using that by (elim find_SomeD) (auto intro!: ld64_same_on same_on_sub [OF assms(1)])
  ultimately show ?thesis by (cases "table_find m tbl cap s") (simp_all add: table_map_def)
qed

lemma slot_SomeD:
  assumes "table_slot m tbl cap s = Some e"
  obtains i where "i < cap" "e = entry_at tbl i"
    "entry_matches m s e \<or> m e = 0"
    "\<And>j. j < i \<Longrightarrow> \<not> entry_matches m s (entry_at tbl j)"
    "m e = 0 \<Longrightarrow> table_find m tbl cap s = None"
proof (cases "table_find m tbl cap s")
  case None
  then have n: "\<forall>i < cap. \<not> entry_matches m s (entry_at tbl i)"
    by (simp add: table_find_def find_map_None)
  from None assms have "table_find_free m tbl cap = Some e" by (simp add: table_slot_def)
  then obtain i where "i < cap" "e = entry_at tbl i" "m e = 0"
    by (auto simp: table_find_free_def find_map_Some)
  with n None show ?thesis by (intro that [of i]) auto
next
  case (Some e')
  with assms have "e' = e" by (simp add: table_slot_def)
  with Some show ?thesis
    by (elim find_SomeD) (rule that, auto simp: entry_matches_def)
qed

lemma slot_None_iff:
  "table_slot m tbl cap s = None \<longleftrightarrow>
     table_find m tbl cap s = None \<and> (\<forall>i < cap. m (entry_at tbl i) \<noteq> 0)"
  by (auto simp: table_slot_def table_find_free_def find_map_None split: option.splits)

lemma update_find_other:
  assumes "length k < 32" and e: "e = entry_at tbl i" and "i < cap"
    and out: "\<And>x. x < e \<or> e + 48 \<le> x \<Longrightarrow> m' x = m x"
    and at: "entry_matches m' k e = entry_matches m k e" and no: "\<not> entry_matches m k e"
  shows "table_map m' tbl cap k = table_map m tbl cap k"
proof -
  have f: "table_find m' tbl cap k = table_find m tbl cap k"
  proof (rule find_cong)
    fix j assume "j < cap"
    show "entry_matches m' k (entry_at tbl j) = entry_matches m k (entry_at tbl j)"
      using other_entry_matches [OF assms(1) out e, where j = j] at e by (cases "i = j") auto
  qed
  have "ld64 m' (e' + 40) = ld64 m (e' + 40)" if "table_find m tbl cap k = Some e'" for e'
  proof -
    from that obtain j where j: "e' = entry_at tbl j" "entry_matches m k e'"
      by (elim find_SomeD)
    with no e have "i \<noteq> j" by auto
    with j e entry_at_disjoint [of i j tbl] out show ?thesis
      by (intro ld64_same_on same_onI) auto
  qed
  with f show ?thesis by (cases "table_find m tbl cap k") (simp_all add: table_map_def)
qed

lemma map_store:
  assumes "table_slot m tbl cap name = Some e" and "good_name name" and k: "good_name k"
  shows "table_map (entry_store m e name obj) tbl cap k =
           (if k = name then Some obj else table_map m tbl cap k)"
proof -
  let ?m = "entry_store m e name obj"
  obtain i where i: "i < cap" "e = entry_at tbl i" "entry_matches m name e \<or> m e = 0"
      "\<And>j. j < i \<Longrightarrow> \<not> entry_matches m name (entry_at tbl j)"
    using slot_SomeD [OF assms(1)] by metis
  have ln: "length name < 32" "0 \<notin> set name" and lk: "length k < 32" "0 \<notin> set k"
    using assms(2) k by (simp_all add: good_name_def)
  have out: "?m x = m x" if "x < e \<or> e + 48 \<le> x" for x
    using that ln by (intro entry_store_outside) auto
  show ?thesis
  proof (cases "k = name")
    case True
    have "entry_matches ?m name e" using entry_store_matches_iff assms(2) ln by blast
    moreover have "\<not> entry_matches ?m name (entry_at tbl j)" if "j < i" for j
      using other_entry_matches [OF ln(1) out i(2), where j = j] i(4) [OF that] that by auto
    ultimately have "table_find ?m tbl cap name = Some e"
      using i by (auto simp: table_find_def find_map_Some)
    with True show ?thesis by (simp add: table_map_def)
  next
    case False
    have "\<not> entry_matches ?m k e" using entry_store_matches_iff assms(2) lk False by blast
    moreover have "\<not> entry_matches m k e"
      using i(3) entry_matches_unique [of m name e k] ln lk False by (auto simp: entry_matches_def)
    ultimately show ?thesis
      using update_find_other [OF lk(1) i(2,1) out] False by simp
  qed
qed

lemma map_clear:
  assumes "table_uniq m tbl cap" and "table_find m tbl cap name = Some e"
    and "good_name name" and k: "good_name k"
  shows "table_map (entry_clear m e) tbl cap k =
           (if k = name then None else table_map m tbl cap k)"
proof -
  let ?m = "entry_clear m e"
  obtain i where i: "i < cap" "e = entry_at tbl i" "entry_matches m name e"
    using find_SomeD [OF assms(2)] by metis
  have ln: "length name < 32" "0 \<notin> set name" and lk: "length k < 32" "0 \<notin> set k"
    using assms(3) k by (simp_all add: good_name_def)
  have out: "?m x = m x" if "x < e \<or> e + 48 \<le> x" for x
    using that by (rule entry_clear_outside)
  show ?thesis
  proof (cases "k = name")
    case True
    have "\<not> entry_matches ?m name (entry_at tbl j)" if "j < cap" for j
      using other_entry_matches [OF ln(1) out i(2), where j = j] assms(1,3) i that
      by (cases "i = j") (auto simp: table_uniq_def)
    with True show ?thesis by (auto simp: table_map_def table_find_def find_map_None)
  next
    case False
    have "\<not> entry_matches m k e" using i(3) entry_matches_unique [of m name e k] ln lk False by auto
    then show ?thesis using update_find_other [OF lk(1) i(2,1) out] False by simp
  qed
qed

lemma uniq_no_other:
  assumes "table_uniq m tbl cap" and "good_name s" and "i < cap" and "j < cap" and "i \<noteq> j"
    and "entry_matches m s (entry_at tbl i)"
  shows "\<not> entry_matches m s (entry_at tbl j)"
  using assms by (auto simp: table_uniq_def)

lemma uniq_store:
  assumes u: "table_uniq m tbl cap" and "table_slot m tbl cap name = Some e" and n: "good_name name"
  shows "table_uniq (entry_store m e name obj) tbl cap"
proof -
  let ?m = "entry_store m e name obj"
  obtain i where i: "i < cap" "e = entry_at tbl i" "entry_matches m name e \<or> m e = 0"
      "m e = 0 \<Longrightarrow> table_find m tbl cap name = None"
    using slot_SomeD [OF assms(2)] by metis
  have nomatch: "\<not> entry_matches m name (entry_at tbl j)" if "j < cap" "j \<noteq> i" for j
    using i uniq_no_other [OF u n i(1) that(1)] that by (auto simp: table_find_def find_map_None)
  have keep: "entry_matches ?m s (entry_at tbl j) = entry_matches m s (entry_at tbl j)"
    if "good_name s" "j \<noteq> i" for s j
    using other_entry_matches [of s e ?m m i j] that n i(2)
    by (auto simp: good_name_def entry_store_outside)
  have at: "entry_matches ?m s e \<longleftrightarrow> s = name" if "good_name s" for s
    using entry_store_matches_iff [OF n] that by (simp add: good_name_def)
  have "\<not> (entry_matches ?m s (entry_at tbl a) \<and> entry_matches ?m s (entry_at tbl b))"
    if ab: "a < cap" "b < cap" "a \<noteq> b" and s: "good_name s" for a b s
  proof (cases "a = i \<or> b = i")
    case True
    then show ?thesis using at [OF s] keep [OF s] nomatch ab i(2) by metis
  next
    case False
    then show ?thesis using keep [OF s] u ab s by (auto simp: table_uniq_def)
  qed
  then show ?thesis by (auto simp: table_uniq_def)
qed

lemma uniq_clear:
  assumes u: "table_uniq m tbl cap" and "table_find m tbl cap name = Some e"
  shows "table_uniq (entry_clear m e) tbl cap"
proof -
  let ?m = "entry_clear m e"
  obtain i where i: "i < cap" "e = entry_at tbl i" using find_SomeD [OF assms(2)] by metis
  have keep: "entry_matches ?m s (entry_at tbl j) \<longrightarrow> entry_matches m s (entry_at tbl j)"
    if "good_name s" for s j
    using other_entry_matches [of s e ?m m i j] that i
    by (cases "j = i") (auto simp: good_name_def entry_clear_outside)
  then show ?thesis using u unfolding table_uniq_def by blast
qed

lemma exact_other:
  assumes x: "table_exact m tbl cap" and e: "e = entry_at tbl i" and out: "\<And>x. x < e \<or> e + 48 \<le> x \<Longrightarrow> m' x = m x"
    and own: "m' e \<noteq> 0 \<Longrightarrow> \<exists>s. good_name s \<and> entry_matches m' s e"
  shows "table_exact m' tbl cap"
  unfolding table_exact_def
proof (intro allI impI)
  fix j assume j: "j < cap" "m' (entry_at tbl j) \<noteq> 0"
  show "\<exists>s. good_name s \<and> entry_matches m' s (entry_at tbl j)"
  proof (cases "j = i")
    case False
    then have "m' (entry_at tbl j) = m (entry_at tbl j)"
      using entry_at_disjoint [of i j tbl] e by (intro out) auto
    then obtain s where "good_name s" "entry_matches m s (entry_at tbl j)" using x j by (auto simp: table_exact_def)
    moreover have "entry_matches m' s (entry_at tbl j) = entry_matches m s (entry_at tbl j)"
      using False other_entry_matches [OF _ out e, where j = j and s = s] \<open>good_name s\<close> by (simp add: good_name_def)
    ultimately show ?thesis by blast
  qed (use own e j in simp)
qed

lemma exact_store:
  assumes "table_exact m tbl cap" and "table_slot m tbl cap name = Some e" and n: "good_name name"
  shows "table_exact (entry_store m e name obj) tbl cap"
proof -
  obtain i where i: "e = entry_at tbl i" using slot_SomeD [OF assms(2)] by metis
  have "entry_matches (entry_store m e name obj) name e" using entry_store_matches_iff [OF n] n by (simp add: good_name_def)
  then show ?thesis
    using n by (intro exact_other [OF assms(1) i]) (auto simp: good_name_def entry_store_outside)
qed

lemma exact_clear:
  assumes "table_exact m tbl cap" and "table_find m tbl cap name = Some e"
  shows "table_exact (entry_clear m e) tbl cap"
proof -
  obtain i where i: "e = entry_at tbl i" using find_SomeD [OF assms(2)] by metis
  show ?thesis by (intro exact_other [OF assms(1) i]) (auto simp: entry_clear_outside)
qed

text \<open>With distinct, well-formed names the used entries are as many as the names bound, so an unused
  entry is there exactly when fewer names than entries are bound.\<close>

lemma unused_iff_card:
  assumes u: "table_uniq m tbl cap" and x: "table_exact m tbl cap"
  defines "D \<equiv> {s. good_name s \<and> table_find m tbl cap s \<noteq> None}"
  shows "finite D" and "(\<exists>i < cap. m (entry_at tbl i) = 0) \<longleftrightarrow> card D < cap"
proof -
  let ?U = "{i. i < cap \<and> m (entry_at tbl i) \<noteq> 0}"
  have "\<forall>i \<in> ?U. \<exists>s. good_name s \<and> entry_matches m s (entry_at tbl i)" using x by (auto simp: table_exact_def)
  then obtain f where f: "\<And>i. i \<in> ?U \<Longrightarrow> good_name (f i) \<and> entry_matches m (f i) (entry_at tbl i)" by metis
  have "inj_on f ?U"
  proof (rule inj_onI, rule ccontr)
    fix i j assume a: "i \<in> ?U" "j \<in> ?U" "f i = f j" "i \<noteq> j"
    then show False using uniq_no_other [OF u, of "f i" i j] f [of i] f [of j] by simp
  qed
  moreover have D: "D = f ` ?U"
  proof
    show "D \<subseteq> f ` ?U"
    proof
      fix s assume s: "s \<in> D"
      then obtain i where i: "i < cap" "entry_matches m s (entry_at tbl i)" by (auto simp: D_def elim: find_SomeD)
      then have U: "i \<in> ?U" by (simp add: entry_matches_def)
      moreover have "f i = s"
        using f [OF U] i(2) s by (intro entry_matches_unique [of m _ "entry_at tbl i"]) (auto simp: good_name_def D_def)
      ultimately show "s \<in> f ` ?U" by blast
    qed
    show "f ` ?U \<subseteq> D"
    proof
      fix s assume "s \<in> f ` ?U"
      then obtain i where i: "i \<in> ?U" "s = f i" by blast
      then have "table_find m tbl cap s \<noteq> None" using f [OF i(1)] by (auto simp: table_find_def find_map_None)
      then show "s \<in> D" using f [OF i(1)] i(2) by (simp add: D_def)
    qed
  qed
  ultimately have c: "card D = card ?U" using card_image by blast
  show "finite D" unfolding D by simp
  have sub: "?U \<subseteq> {..<cap}" by auto
  have "(\<exists>i < cap. m (entry_at tbl i) = 0) \<longleftrightarrow> ?U \<noteq> {..<cap}" by auto
  also have "\<dots> \<longleftrightarrow> ?U \<subset> {..<cap}" using sub by blast
  also have "\<dots> \<longleftrightarrow> card ?U < cap"
  proof
    assume "?U \<subset> {..<cap}"
    then show "card ?U < cap" using psubset_card_mono [of "{..<cap}" ?U] by simp
  next
    assume "card ?U < cap"
    then have "?U \<noteq> {..<cap}" by (metis card_lessThan less_irrefl)
    then show "?U \<subset> {..<cap}" using sub by blast
  qed
  finally show "(\<exists>i < cap. m (entry_at tbl i) = 0) \<longleftrightarrow> card D < cap" unfolding c .
qed

lemma unused_empty:
  assumes "\<And>i. i < cap \<Longrightarrow> m (entry_at tbl i) = 0"
  shows "table_map m tbl cap = Map.empty" and "table_uniq m tbl cap" and "table_exact m tbl cap"
proof -
  have "table_find m tbl cap s = None" for s
    using assms by (auto simp: table_find_def find_map_None entry_matches_def)
  then show "table_map m tbl cap = Map.empty" by (auto simp: table_map_def)
  show "table_uniq m tbl cap" using assms by (auto simp: table_uniq_def entry_matches_def)
  show "table_exact m tbl cap" using assms by (simp add: table_exact_def)
qed

end

end
