(* ===== verification/Region.thy ===== *)
theory Region
  imports NameTable
begin

text \<open>
  The shared region of src/core/shm_region.c: the layout of \<open>ShmRegionHeader\<close>, the header
  checksum and its validation, the subsystem locks, the metadata queries, and the root and
  index tables. The lifecycle calls (create, open, close, unlink) are in RegionLife.thy.
  Offsets follow the x86-64 Linux ABI: \<open>sizeof(pthread_mutex_t)\<close> is 40 and
  \<open>sizeof(pthread_rwlock_t)\<close> is 56.
\<close>

section \<open>Descriptors and layout\<close>

record ShmRegion =
  rg_fd :: int
  rg_base :: u64
  rg_size :: u64
  rg_creator :: bool

definition SIZEOF_MUTEX :: nat where "SIZEOF_MUTEX = 40"
definition SIZEOF_RWLOCK :: nat where "SIZEOF_RWLOCK = 56"

definition ROOT_CAPACITY :: nat where "ROOT_CAPACITY = 16"
definition ROOT_NAME_LENGTH :: nat where "ROOT_NAME_LENGTH = 32"
definition INDEX_CAPACITY :: nat where "INDEX_CAPACITY = 32"
definition INDEX_KEY_LENGTH :: nat where "INDEX_KEY_LENGTH = 32"

text \<open>Field offsets of \<open>ShmRegionHeader\<close>: magic, version, state_flags, generation, total_size,
  header_checksum, allocator_mutex, roots_rwlock, index_rwlock, roots, index.\<close>

definition HDR_magic :: nat where "HDR_magic = 0"
definition HDR_version :: nat where "HDR_version = 8"
definition HDR_state_flags :: nat where "HDR_state_flags = 12"
definition HDR_generation :: nat where "HDR_generation = 16"
definition HDR_total_size :: nat where "HDR_total_size = 24"
definition HDR_checksum :: nat where "HDR_checksum = 32"
definition HDR_allocator_mutex :: nat where "HDR_allocator_mutex = 40"
definition HDR_roots_rwlock :: nat where "HDR_roots_rwlock = HDR_allocator_mutex + SIZEOF_MUTEX"
definition HDR_index_rwlock :: nat where "HDR_index_rwlock = HDR_roots_rwlock + SIZEOF_RWLOCK"
definition HDR_roots :: nat where "HDR_roots = HDR_index_rwlock + SIZEOF_RWLOCK"
definition HDR_index :: nat where "HDR_index = HDR_roots + ROOT_CAPACITY * SIZEOF_ENTRY"
definition SIZEOF_ShmRegionHeader :: nat where
  "SIZEOF_ShmRegionHeader = HDR_index + INDEX_CAPACITY * SIZEOF_ENTRY"

lemmas region_layout [layout, simp] =
  SIZEOF_MUTEX_def SIZEOF_RWLOCK_def ROOT_CAPACITY_def ROOT_NAME_LENGTH_def INDEX_CAPACITY_def
  INDEX_KEY_LENGTH_def HDR_magic_def HDR_version_def HDR_state_flags_def HDR_generation_def
  HDR_total_size_def HDR_checksum_def HDR_allocator_mutex_def HDR_roots_rwlock_def
  HDR_index_rwlock_def HDR_roots_def HDR_index_def SIZEOF_ShmRegionHeader_def

definition REGION_MAGIC :: u64 where "REGION_MAGIC = 0x4f464653544f5245"
definition REGION_CHECKSUM_SEED :: u64 where "REGION_CHECKSUM_SEED = 1469598103934665603"
definition REGION_CHECKSUM_MULTIPLIER :: u64 where "REGION_CHECKSUM_MULTIPLIER = 1099511628211"
definition REGION_VERSION :: u32 where "REGION_VERSION = 6"
definition REGION_STATE_INITIALIZING :: u32 where "REGION_STATE_INITIALIZING = push_bit 0 1"
definition REGION_STATE_READY :: u32 where "REGION_STATE_READY = push_bit 1 1"
definition REGION_STATE_DIRTY :: u32 where "REGION_STATE_DIRTY = push_bit 2 1"

definition shm_region_reset :: "ShmRegion option \<Rightarrow> ShmRegion option" where
  "shm_region_reset region =
     map_option (\<lambda>rg. rg\<lparr>rg_fd := -1, rg_base := 0, rg_size := 0, rg_creator := False\<rparr>) region"

definition shm_region_is_size_valid :: "u64 \<Rightarrow> bool" where
  "shm_region_is_size_valid sz \<longleftrightarrow> SIZEOF_ShmRegionHeader \<le> unat sz"

text \<open>The const and mutable header views: the base address, or null.\<close>

definition shm_region_header :: "ShmRegion option \<Rightarrow> u64 option" where
  "shm_region_header region =
     (case region of
        None \<Rightarrow> None
      | Some rg \<Rightarrow> if rg_base rg = 0 then None else Some (rg_base rg))"

section \<open>Checksum\<close>

definition shm_region_checksum_bytes :: "u64 \<Rightarrow> u8 list \<Rightarrow> u64" where
  "shm_region_checksum_bytes checksum data =
     fold (\<lambda>b c. (c XOR ucast b) * REGION_CHECKSUM_MULTIPLIER) data checksum"

definition shm_region_compute_header_checksum :: "mem \<Rightarrow> u64" where
  "shm_region_compute_header_checksum m =
     (let c0 = REGION_CHECKSUM_SEED;
          c1 = shm_region_checksum_bytes c0 (rd m HDR_magic 8);
          c2 = shm_region_checksum_bytes c1 (rd m HDR_version 4);
          c3 = shm_region_checksum_bytes c2 (rd m HDR_state_flags 4);
          c4 = shm_region_checksum_bytes c3 (rd m HDR_generation 8);
          c5 = shm_region_checksum_bytes c4 (rd m HDR_total_size 8);
          c6 = shm_region_checksum_bytes c5 (rd m HDR_roots (ROOT_CAPACITY * SIZEOF_ENTRY))
      in shm_region_checksum_bytes c6 (rd m HDR_index (INDEX_CAPACITY * SIZEOF_ENTRY)))"

definition shm_region_refresh_header_checksum :: "mem \<Rightarrow> mem" where
  "shm_region_refresh_header_checksum m =
     st64 m HDR_checksum (shm_region_compute_header_checksum m)"

definition shm_region_validate_header :: "ShmRegion option \<Rightarrow> mem \<Rightarrow> bool" where
  "shm_region_validate_header region m =
     (case region of
        None \<Rightarrow> False
      | Some rg \<Rightarrow>
          if rg_base rg = 0 then False
          else if ld64 m HDR_magic \<noteq> REGION_MAGIC then False
          else if ld32 m HDR_version \<noteq> REGION_VERSION then False
          else if ld32 m HDR_state_flags \<noteq> REGION_STATE_READY then False
          else if ld64 m HDR_generation = 0 then False
          else if ld64 m HDR_total_size \<noteq> rg_size rg then False
          else ld64 m HDR_checksum = shm_region_compute_header_checksum m)"

section \<open>Validation of the synchronization primitives\<close>

definition shm_region_validate_mutex :: "env \<Rightarrow> nat \<Rightarrow> world \<Rightarrow> bool \<times> world" where
  "shm_region_validate_mutex E mutex w =
     (let (rc, w1) = pthread_mutex_trylock E mutex w in
      if rc = 0 then (let (u, w2) = pthread_mutex_unlock E mutex w1 in (u = 0, w2))
      else if def_EOWNERDEAD E \<and> rc = EOWNERDEAD then
        (let w2 = snd (pthread_mutex_consistent E mutex w1);
             w3 = snd (pthread_mutex_unlock E mutex w2)
         in (False, w3))
      else (rc = EBUSY, w1))"

definition shm_region_validate_rwlock :: "env \<Rightarrow> nat \<Rightarrow> world \<Rightarrow> bool \<times> world" where
  "shm_region_validate_rwlock E rwlock w =
     (let (rc, w1) = pthread_rwlock_trywrlock E rwlock w in
      if rc = 0 then (let (u, w2) = pthread_rwlock_unlock E rwlock w1 in (u = 0, w2))
      else (rc = EBUSY \<or> rc = EDEADLK, w1))"

definition shm_region_validate ::
    "env \<Rightarrow> ShmRegion option \<Rightarrow> world \<Rightarrow> OffsetStoreStatus \<times> world" where
  "shm_region_validate E region w =
     (case region of
        None \<Rightarrow> (STATUS_INVALID_ARGUMENT, w)
      | Some rg \<Rightarrow>
          if \<not> shm_region_validate_header region (bytes w) then (STATUS_INVALID_STATE, w)
          else if rg_base rg = 0 then (STATUS_INVALID_STATE, w)
          else
            let (ok1, w1) = shm_region_validate_mutex E HDR_allocator_mutex w in
            if \<not> ok1 then (STATUS_INVALID_STATE, w1)
            else let (ok2, w2) = shm_region_validate_rwlock E HDR_roots_rwlock w1 in
            if \<not> ok2 then (STATUS_INVALID_STATE, w2)
            else let (ok3, w3) = shm_region_validate_rwlock E HDR_index_rwlock w2 in
            if \<not> ok3 then (STATUS_INVALID_STATE, w3)
            else (STATUS_OK, w3))"

section \<open>Locks\<close>

definition shm_region_lock_one :: "env \<Rightarrow> nat option \<Rightarrow> world \<Rightarrow> OffsetStoreStatus result" where
  "shm_region_lock_one E mutex w =
     (case mutex of
        None \<Rightarrow> Some (STATUS_INVALID_STATE, w)
      | Some a \<Rightarrow> do {
          (rc, w1) \<leftarrow> pthread_mutex_lock E a w;
          if def_EOWNERDEAD E \<and> rc = EOWNERDEAD then
            let (c, w2) = pthread_mutex_consistent E a w1 in
            if c \<noteq> 0 then Some (STATUS_SYSTEM_ERROR, w2)
            else let (u, w3) = pthread_mutex_unlock E a w2 in
            if u \<noteq> 0 then Some (STATUS_SYSTEM_ERROR, w3)
            else Some (STATUS_INVALID_STATE, w3)
          else if rc \<noteq> 0 then Some (STATUS_SYSTEM_ERROR, w1)
          else Some (STATUS_OK, w1)
        })"

definition shm_region_unlock_one :: "env \<Rightarrow> nat option \<Rightarrow> world \<Rightarrow> OffsetStoreStatus \<times> world" where
  "shm_region_unlock_one E mutex w =
     (case mutex of
        None \<Rightarrow> (STATUS_INVALID_STATE, w)
      | Some a \<Rightarrow>
          let (rc, w1) = pthread_mutex_unlock E a w in
          if rc \<noteq> 0 then (STATUS_SYSTEM_ERROR, w1) else (STATUS_OK, w1))"

definition shm_region_wrlock_one :: "env \<Rightarrow> nat option \<Rightarrow> world \<Rightarrow> OffsetStoreStatus result" where
  "shm_region_wrlock_one E rwlock w =
     (case rwlock of
        None \<Rightarrow> Some (STATUS_INVALID_STATE, w)
      | Some a \<Rightarrow> do {
          (rc, w1) \<leftarrow> pthread_rwlock_wrlock E a w;
          if rc \<noteq> 0 then Some (STATUS_SYSTEM_ERROR, w1) else Some (STATUS_OK, w1)
        })"

definition shm_region_rdlock_one :: "env \<Rightarrow> nat option \<Rightarrow> world \<Rightarrow> OffsetStoreStatus result" where
  "shm_region_rdlock_one E rwlock w =
     (case rwlock of
        None \<Rightarrow> Some (STATUS_INVALID_STATE, w)
      | Some a \<Rightarrow> do {
          (rc, w1) \<leftarrow> pthread_rwlock_rdlock E a w;
          if rc \<noteq> 0 then Some (STATUS_SYSTEM_ERROR, w1) else Some (STATUS_OK, w1)
        })"

definition shm_region_rwunlock_one :: "env \<Rightarrow> nat option \<Rightarrow> world \<Rightarrow> OffsetStoreStatus \<times> world" where
  "shm_region_rwunlock_one E rwlock w =
     (case rwlock of
        None \<Rightarrow> (STATUS_INVALID_STATE, w)
      | Some a \<Rightarrow>
          let (rc, w1) = pthread_rwlock_unlock E a w in
          if rc \<noteq> 0 then (STATUS_SYSTEM_ERROR, w1) else (STATUS_OK, w1))"

text \<open>The addresses of the three primitives, as offsets in the region, or null.\<close>

definition shm_region_allocator_mutex :: "ShmRegion option \<Rightarrow> nat option" where
  "shm_region_allocator_mutex region =
     map_option (\<lambda>_. HDR_allocator_mutex) (shm_region_header region)"

definition shm_region_roots_rwlock :: "ShmRegion option \<Rightarrow> nat option" where
  "shm_region_roots_rwlock region =
     map_option (\<lambda>_. HDR_roots_rwlock) (shm_region_header region)"

definition shm_region_index_rwlock :: "ShmRegion option \<Rightarrow> nat option" where
  "shm_region_index_rwlock region =
     map_option (\<lambda>_. HDR_index_rwlock) (shm_region_header region)"

definition shm_region_allocator_lock ::
    "env \<Rightarrow> ShmRegion option \<Rightarrow> world \<Rightarrow> OffsetStoreStatus result" where
  "shm_region_allocator_lock E region w =
     (if region = None then Some (STATUS_INVALID_ARGUMENT, w)
      else shm_region_lock_one E (shm_region_allocator_mutex region) w)"

definition shm_region_allocator_unlock ::
    "env \<Rightarrow> ShmRegion option \<Rightarrow> world \<Rightarrow> OffsetStoreStatus \<times> world" where
  "shm_region_allocator_unlock E region w =
     (if region = None then (STATUS_INVALID_ARGUMENT, w)
      else shm_region_unlock_one E (shm_region_allocator_mutex region) w)"

definition shm_region_roots_lock ::
    "env \<Rightarrow> ShmRegion option \<Rightarrow> world \<Rightarrow> OffsetStoreStatus result" where
  "shm_region_roots_lock E region w =
     (if region = None then Some (STATUS_INVALID_ARGUMENT, w)
      else shm_region_wrlock_one E (shm_region_roots_rwlock region) w)"

definition shm_region_roots_read_lock ::
    "env \<Rightarrow> ShmRegion option \<Rightarrow> world \<Rightarrow> OffsetStoreStatus result" where
  "shm_region_roots_read_lock E region w =
     (if region = None then Some (STATUS_INVALID_ARGUMENT, w)
      else shm_region_rdlock_one E (shm_region_roots_rwlock region) w)"

definition shm_region_roots_unlock ::
    "env \<Rightarrow> ShmRegion option \<Rightarrow> world \<Rightarrow> OffsetStoreStatus \<times> world" where
  "shm_region_roots_unlock E region w =
     (if region = None then (STATUS_INVALID_ARGUMENT, w)
      else shm_region_rwunlock_one E (shm_region_roots_rwlock region) w)"

definition shm_region_index_lock ::
    "env \<Rightarrow> ShmRegion option \<Rightarrow> world \<Rightarrow> OffsetStoreStatus result" where
  "shm_region_index_lock E region w =
     (if region = None then Some (STATUS_INVALID_ARGUMENT, w)
      else shm_region_wrlock_one E (shm_region_index_rwlock region) w)"

definition shm_region_index_read_lock ::
    "env \<Rightarrow> ShmRegion option \<Rightarrow> world \<Rightarrow> OffsetStoreStatus result" where
  "shm_region_index_read_lock E region w =
     (if region = None then Some (STATUS_INVALID_ARGUMENT, w)
      else shm_region_rdlock_one E (shm_region_index_rwlock region) w)"

definition shm_region_index_unlock ::
    "env \<Rightarrow> ShmRegion option \<Rightarrow> world \<Rightarrow> OffsetStoreStatus \<times> world" where
  "shm_region_index_unlock E region w =
     (if region = None then (STATUS_INVALID_ARGUMENT, w)
      else shm_region_rwunlock_one E (shm_region_index_rwlock region) w)"

definition shm_region_lock ::
    "env \<Rightarrow> ShmRegion option \<Rightarrow> world \<Rightarrow> OffsetStoreStatus result" where
  "shm_region_lock E region w = shm_region_allocator_lock E region w"

definition shm_region_unlock ::
    "env \<Rightarrow> ShmRegion option \<Rightarrow> world \<Rightarrow> OffsetStoreStatus \<times> world" where
  "shm_region_unlock E region w = shm_region_allocator_unlock E region w"

section \<open>Metadata queries\<close>

definition shm_region_header_size :: u64 where
  "shm_region_header_size = of_nat SIZEOF_ShmRegionHeader"

text \<open>A query returns its status and, on success, the value stored through the out pointer.\<close>

definition shm_region_get_total_size ::
    "ShmRegion option \<Rightarrow> bool \<Rightarrow> mem \<Rightarrow> OffsetStoreStatus \<times> u64 option" where
  "shm_region_get_total_size region out_nonnull m =
     (if region = None \<or> \<not> out_nonnull then (STATUS_INVALID_ARGUMENT, None)
      else case shm_region_header region of
             None \<Rightarrow> (STATUS_INVALID_STATE, None)
           | Some _ \<Rightarrow> (STATUS_OK, Some (ld64 m HDR_total_size)))"

definition shm_region_get_version ::
    "ShmRegion option \<Rightarrow> bool \<Rightarrow> mem \<Rightarrow> OffsetStoreStatus \<times> u32 option" where
  "shm_region_get_version region out_nonnull m =
     (if region = None \<or> \<not> out_nonnull then (STATUS_INVALID_ARGUMENT, None)
      else case shm_region_header region of
             None \<Rightarrow> (STATUS_INVALID_STATE, None)
           | Some _ \<Rightarrow> (STATUS_OK, Some (ld32 m HDR_version)))"

definition shm_region_data_const :: "ShmRegion option \<Rightarrow> u64" where
  "shm_region_data_const region =
     (case region of
        None \<Rightarrow> 0
      | Some rg \<Rightarrow>
          if rg_base rg = 0 \<or> unat (rg_size rg) < SIZEOF_ShmRegionHeader then 0
          else rg_base rg + of_nat SIZEOF_ShmRegionHeader)"

definition shm_region_data :: "ShmRegion option \<Rightarrow> u64" where
  "shm_region_data region = shm_region_data_const region"

definition shm_region_usable_size :: "ShmRegion option \<Rightarrow> u64" where
  "shm_region_usable_size region =
     (case region of
        None \<Rightarrow> 0
      | Some rg \<Rightarrow>
          if unat (rg_size rg) < SIZEOF_ShmRegionHeader then 0
          else rg_size rg - of_nat SIZEOF_ShmRegionHeader)"

section \<open>Roots\<close>

definition shm_region_is_root_name_valid :: "cstr option \<Rightarrow> bool" where
  "shm_region_is_root_name_valid name = name_valid ROOT_NAME_LENGTH name"

definition shm_region_find_root :: "mem \<Rightarrow> cstr \<Rightarrow> nat option" where
  "shm_region_find_root m name = table_find m HDR_roots ROOT_CAPACITY name"

definition shm_region_find_free_root :: "mem \<Rightarrow> nat option" where
  "shm_region_find_free_root m = table_find_free m HDR_roots ROOT_CAPACITY"

definition shm_region_init_roots :: "mem \<Rightarrow> mem" where
  "shm_region_init_roots m = table_clear m HDR_roots ROOT_CAPACITY"

definition shm_region_set_root ::
    "env \<Rightarrow> ShmRegion option \<Rightarrow> cstr option \<Rightarrow> OffsetPtr \<Rightarrow> world \<Rightarrow> OffsetStoreStatus result" where
  "shm_region_set_root E region name obj w =
     (if region = None \<or> \<not> shm_region_is_root_name_valid name \<or> offset_ptr_is_null obj
      then Some (STATUS_INVALID_ARGUMENT, w)
      else if shm_region_header region = None then Some (STATUS_INVALID_ARGUMENT, w)
      else do {
        (status, w1) \<leftarrow> shm_region_roots_lock E region w;
        if status \<noteq> STATUS_OK then Some (status, w1)
        else
          let found = shm_region_find_root (bytes w1) (the name);
              entry = (if found = None then shm_region_find_free_root (bytes w1) else found)
          in case entry of
               None \<Rightarrow> Some (STATUS_OUT_OF_MEMORY, snd (shm_region_roots_unlock E region w1))
             | Some e \<Rightarrow>
                 let m1 = entry_store (bytes w1) e (the name) obj;
                     m2 = shm_region_refresh_header_checksum m1
                 in Some (shm_region_roots_unlock E region (set_bytes m2 w1))
      })"

definition shm_region_get_root ::
    "env \<Rightarrow> ShmRegion option \<Rightarrow> cstr option \<Rightarrow> bool \<Rightarrow> world
       \<Rightarrow> (OffsetStoreStatus \<times> OffsetPtr option) result" where
  "shm_region_get_root E region name out_nonnull w =
     (if region = None \<or> \<not> shm_region_is_root_name_valid name \<or> \<not> out_nonnull
      then Some ((STATUS_INVALID_ARGUMENT, None), w)
      else if shm_region_header region = None then Some ((STATUS_INVALID_ARGUMENT, None), w)
      else do {
        (status, w1) \<leftarrow> shm_region_roots_read_lock E region w;
        if status \<noteq> STATUS_OK then Some ((status, None), w1)
        else case shm_region_find_root (bytes w1) (the name) of
               None \<Rightarrow> Some ((STATUS_NOT_FOUND, None), snd (shm_region_roots_unlock E region w1))
             | Some e \<Rightarrow>
                 let obj = ld64 (bytes w1) (e + ENTRY_OBJECT);
                     (st, w2) = shm_region_roots_unlock E region w1
                 in Some ((st, Some obj), w2)
      })"

definition shm_region_remove_root ::
    "env \<Rightarrow> ShmRegion option \<Rightarrow> cstr option \<Rightarrow> world \<Rightarrow> OffsetStoreStatus result" where
  "shm_region_remove_root E region name w =
     (if region = None \<or> \<not> shm_region_is_root_name_valid name
      then Some (STATUS_INVALID_ARGUMENT, w)
      else if shm_region_header region = None then Some (STATUS_INVALID_ARGUMENT, w)
      else do {
        (status, w1) \<leftarrow> shm_region_roots_lock E region w;
        if status \<noteq> STATUS_OK then Some (status, w1)
        else case shm_region_find_root (bytes w1) (the name) of
               None \<Rightarrow> Some (STATUS_NOT_FOUND, snd (shm_region_roots_unlock E region w1))
             | Some e \<Rightarrow>
                 let m1 = entry_clear (bytes w1) e;
                     m2 = shm_region_refresh_header_checksum m1
                 in Some (shm_region_roots_unlock E region (set_bytes m2 w1))
      })"

section \<open>Index\<close>

definition shm_region_is_index_key_valid :: "cstr option \<Rightarrow> bool" where
  "shm_region_is_index_key_valid key = name_valid INDEX_KEY_LENGTH key"

definition shm_region_find_index_entry :: "mem \<Rightarrow> cstr \<Rightarrow> nat option" where
  "shm_region_find_index_entry m key = table_find m HDR_index INDEX_CAPACITY key"

definition shm_region_find_free_index_entry :: "mem \<Rightarrow> nat option" where
  "shm_region_find_free_index_entry m = table_find_free m HDR_index INDEX_CAPACITY"

definition shm_region_init_index :: "mem \<Rightarrow> mem" where
  "shm_region_init_index m = table_clear m HDR_index INDEX_CAPACITY"

definition shm_region_index_put ::
    "env \<Rightarrow> ShmRegion option \<Rightarrow> cstr option \<Rightarrow> OffsetPtr \<Rightarrow> world \<Rightarrow> OffsetStoreStatus result" where
  "shm_region_index_put E region key obj w =
     (if region = None \<or> \<not> shm_region_is_index_key_valid key \<or> offset_ptr_is_null obj
      then Some (STATUS_INVALID_ARGUMENT, w)
      else if shm_region_header region = None then Some (STATUS_INVALID_ARGUMENT, w)
      else do {
        (status, w1) \<leftarrow> shm_region_index_lock E region w;
        if status \<noteq> STATUS_OK then Some (status, w1)
        else
          let found = shm_region_find_index_entry (bytes w1) (the key);
              entry = (if found = None then shm_region_find_free_index_entry (bytes w1) else found)
          in case entry of
               None \<Rightarrow> Some (STATUS_OUT_OF_MEMORY, snd (shm_region_index_unlock E region w1))
             | Some e \<Rightarrow>
                 let m1 = entry_store (bytes w1) e (the key) obj;
                     m2 = shm_region_refresh_header_checksum m1
                 in Some (shm_region_index_unlock E region (set_bytes m2 w1))
      })"

definition shm_region_index_get ::
    "env \<Rightarrow> ShmRegion option \<Rightarrow> cstr option \<Rightarrow> bool \<Rightarrow> world
       \<Rightarrow> (OffsetStoreStatus \<times> OffsetPtr option) result" where
  "shm_region_index_get E region key out_nonnull w =
     (if region = None \<or> \<not> shm_region_is_index_key_valid key \<or> \<not> out_nonnull
      then Some ((STATUS_INVALID_ARGUMENT, None), w)
      else if shm_region_header region = None then Some ((STATUS_INVALID_ARGUMENT, None), w)
      else do {
        (status, w1) \<leftarrow> shm_region_index_read_lock E region w;
        if status \<noteq> STATUS_OK then Some ((status, None), w1)
        else case shm_region_find_index_entry (bytes w1) (the key) of
               None \<Rightarrow> Some ((STATUS_NOT_FOUND, None), snd (shm_region_index_unlock E region w1))
             | Some e \<Rightarrow>
                 let obj = ld64 (bytes w1) (e + ENTRY_OBJECT);
                     (st, w2) = shm_region_index_unlock E region w1
                 in Some ((st, Some obj), w2)
      })"

definition shm_region_index_contains ::
    "env \<Rightarrow> ShmRegion option \<Rightarrow> cstr option \<Rightarrow> bool \<Rightarrow> world
       \<Rightarrow> (OffsetStoreStatus \<times> bool option) result" where
  "shm_region_index_contains E region key out_nonnull w =
     (if region = None \<or> \<not> shm_region_is_index_key_valid key \<or> \<not> out_nonnull
      then Some ((STATUS_INVALID_ARGUMENT, None), w)
      else if shm_region_header region = None then Some ((STATUS_INVALID_ARGUMENT, None), w)
      else do {
        (status, w1) \<leftarrow> shm_region_index_read_lock E region w;
        if status \<noteq> STATUS_OK then Some ((status, None), w1)
        else
          let contains = (shm_region_find_index_entry (bytes w1) (the key) \<noteq> None);
              (st, w2) = shm_region_index_unlock E region w1
          in Some ((st, Some contains), w2)
      })"

definition shm_region_index_remove ::
    "env \<Rightarrow> ShmRegion option \<Rightarrow> cstr option \<Rightarrow> world \<Rightarrow> OffsetStoreStatus result" where
  "shm_region_index_remove E region key w =
     (if region = None \<or> \<not> shm_region_is_index_key_valid key
      then Some (STATUS_INVALID_ARGUMENT, w)
      else if shm_region_header region = None then Some (STATUS_INVALID_ARGUMENT, w)
      else do {
        (status, w1) \<leftarrow> shm_region_index_lock E region w;
        if status \<noteq> STATUS_OK then Some (status, w1)
        else case shm_region_find_index_entry (bytes w1) (the key) of
               None \<Rightarrow> Some (STATUS_NOT_FOUND, snd (shm_region_index_unlock E region w1))
             | Some e \<Rightarrow>
                 let m1 = entry_clear (bytes w1) e;
                     m2 = shm_region_refresh_header_checksum m1
                 in Some (shm_region_index_unlock E region (set_bytes m2 w1))
      })"

end
