(* ===== verification/RegionSpec.thy ===== *)
theory RegionSpec
  imports Region
begin

text \<open>
  The root and index tables of the region header refine two independent finite maps from names
  to handles. Each update rewrites one entry and the header checksum: the other table, the scalar
  header fields and everything behind the header keep their bytes, a header that validates keeps
  validating, and the table's read-write lock is released on every path.
\<close>

section \<open>The checksum and its frame\<close>

lemma compute_checksum_same_on:
  assumes "same_on m m' 0 32" and "same_on m m' 192 2496"
  shows "shm_region_compute_header_checksum m' = shm_region_compute_header_checksum m"
proof -
  have "rd m' a n = rd m a n" if "a + n \<le> 32 \<or> 192 \<le> a \<and> a + n \<le> 2496" for a n
    using assms that by (intro rd_same_on) (auto elim: same_on_sub)
  then show ?thesis by (simp add: shm_region_compute_header_checksum_def Let_def)
qed

lemma refresh_outside: "x < 32 \<or> 40 \<le> x \<Longrightarrow> shm_region_refresh_header_checksum m x = m x"
  by (auto simp: shm_region_refresh_header_checksum_def st64_def wr_def)

lemma refresh_checksum:
  "ld64 (shm_region_refresh_header_checksum m) 32
     = shm_region_compute_header_checksum (shm_region_refresh_header_checksum m)"
proof -
  have "shm_region_compute_header_checksum (shm_region_refresh_header_checksum m)
      = shm_region_compute_header_checksum m"
    by (rule compute_checksum_same_on) (simp_all add: same_on_def refresh_outside)
  then show ?thesis by (simp add: shm_region_refresh_header_checksum_def)
qed

text \<open>A header that validates keeps validating when its scalar fields are kept and its checksum
  is refreshed.\<close>

lemma validate_header_kept:
  assumes v: "shm_region_validate_header region m" and s: "same_on m m' 0 32"
    and c: "ld64 m' 32 = shm_region_compute_header_checksum m'"
  shows "shm_region_validate_header region m'"
proof -
  have "ld64 m' a = ld64 m a" if "a + 8 \<le> 32" for a
    using s that by (intro ld64_same_on) (auto elim: same_on_sub)
  moreover have "ld32 m' a = ld32 m a" if "a + 4 \<le> 32" for a
    using s that by (intro ld32_same_on) (auto elim: same_on_sub)
  ultimately show ?thesis
    using v c by (auto simp: shm_region_validate_header_def split: option.splits if_splits)
qed

section \<open>A table inside the header\<close>

text \<open>The map a table stands for, on the names it accepts.\<close>

definition named :: "mem \<Rightarrow> nat \<Rightarrow> nat \<Rightarrow> cstr \<rightharpoonup> OffsetPtr" where
  "named m tbl cap k = (if good_name k then table_map m tbl cap k else None)"

text \<open>What an update of one entry of a table leaves alone: every byte outside the table except the
  checksum, which is correct afterwards.\<close>

definition others_kept :: "nat \<Rightarrow> nat \<Rightarrow> mem \<Rightarrow> mem \<Rightarrow> bool" where
  "others_kept tbl cap m m' \<longleftrightarrow>
     (\<forall>x. x < 32 \<or> 40 \<le> x \<and> x < tbl \<or> tbl + 48 * cap \<le> x \<longrightarrow> m' x = m x) \<and>
     ld64 m' 32 = shm_region_compute_header_checksum m'"

locale header_table = name_table tbl cap for tbl cap +
  assumes behind_locks: "192 \<le> tbl" and inside_header: "tbl + 48 * cap \<le> 2496"
begin

lemma entry_range: "i < cap \<Longrightarrow> tbl \<le> entry_at tbl i \<and> entry_at tbl i + 48 \<le> tbl + 48 * cap"
  by (simp add: entry_at_def)

lemma named_same_on:
  assumes "same_on m m' tbl (tbl + 48 * cap)"
  shows "named m' tbl cap = named m tbl cap" and "table_uniq m' tbl cap = table_uniq m tbl cap"
    and "\<And>i. i < cap \<Longrightarrow> m' (entry_at tbl i) = m (entry_at tbl i)" and "table_exact m' tbl cap = table_exact m tbl cap"
proof -
  have so: "same_on m m' (entry_at tbl j) (entry_at tbl j + 48)" if "j < cap" for j
    using assms entry_range [OF that] by (auto elim: same_on_sub)
  show "named m' tbl cap = named m tbl cap"
    using map_cong [OF so] by (auto simp: named_def good_name_def)
  have "entry_matches m' s (entry_at tbl j) = entry_matches m s (entry_at tbl j)"
    if "j < cap" "good_name s" for j s
    using that(2) by (intro entry_matches_same_on same_on_sub [OF so [OF that(1)]]) (auto simp: good_name_def)
  note em = this
  then show "table_uniq m' tbl cap = table_uniq m tbl cap" by (auto simp: table_uniq_def)
  show at: "m' (entry_at tbl i) = m (entry_at tbl i)" if "i < cap" for i
    using so [OF that] by (simp add: same_on_def)
  then show "table_exact m' tbl cap = table_exact m tbl cap" using em unfolding table_exact_def by metis
qed

lemma others_keptI:
  assumes "i < cap" and "e = entry_at tbl i" and "\<And>x. x < e \<or> e + 48 \<le> x \<Longrightarrow> m1 x = m x"
  shows "others_kept tbl cap m (shm_region_refresh_header_checksum m1)"
  using entry_range [OF assms(1)] assms(2,3) behind_locks refresh_checksum [of m1]
  by (auto simp: others_kept_def refresh_outside)

lemma refresh_keeps_table:
  "named (shm_region_refresh_header_checksum m) tbl cap = named m tbl cap"
  "table_uniq (shm_region_refresh_header_checksum m) tbl cap = table_uniq m tbl cap"
  "table_exact (shm_region_refresh_header_checksum m) tbl cap = table_exact m tbl cap"
  using behind_locks by (intro named_same_on; simp add: same_on_def refresh_outside)+

lemma put_bytes:
  fixes obj
  assumes u: "table_uniq m tbl cap" and s: "table_slot m tbl cap name = Some e" and n: "good_name name"
  defines "m' \<equiv> shm_region_refresh_header_checksum (entry_store m e name obj)"
  shows "named m' tbl cap = (named m tbl cap)(name \<mapsto> obj)" and "table_uniq m' tbl cap" and "others_kept tbl cap m m'"
    and "table_exact m tbl cap \<Longrightarrow> table_exact m' tbl cap"
proof -
  obtain i where i: "i < cap" "e = entry_at tbl i" using slot_SomeD [OF s] by metis
  show "named m' tbl cap = (named m tbl cap)(name \<mapsto> obj)"
    unfolding m'_def refresh_keeps_table using map_store [OF s n] n by (auto simp: named_def fun_eq_iff)
  show "table_uniq m' tbl cap" unfolding m'_def refresh_keeps_table by (rule uniq_store [OF u s n])
  show "table_exact m tbl cap \<Longrightarrow> table_exact m' tbl cap" unfolding m'_def refresh_keeps_table by (rule exact_store [OF _ s n])
  show "others_kept tbl cap m m'" unfolding m'_def
    using n by (intro others_keptI [OF i] entry_store_outside) (auto simp: good_name_def)
qed

lemma clear_bytes:
  assumes u: "table_uniq m tbl cap" and s: "table_find m tbl cap name = Some e" and n: "good_name name"
  defines "m' \<equiv> shm_region_refresh_header_checksum (entry_clear m e)"
  shows "named m' tbl cap = (named m tbl cap)(name := None)" and "table_uniq m' tbl cap" and "others_kept tbl cap m m'"
    and "table_exact m tbl cap \<Longrightarrow> table_exact m' tbl cap"
proof -
  obtain i where i: "i < cap" "e = entry_at tbl i" using find_SomeD [OF s] by metis
  show "named m' tbl cap = (named m tbl cap)(name := None)"
    unfolding m'_def refresh_keeps_table using map_clear [OF u s n] n by (auto simp: named_def fun_eq_iff)
  show "table_uniq m' tbl cap" unfolding m'_def refresh_keeps_table by (rule uniq_clear [OF u s])
  show "table_exact m tbl cap \<Longrightarrow> table_exact m' tbl cap" unfolding m'_def refresh_keeps_table by (rule exact_clear [OF _ s])
  show "others_kept tbl cap m m'" unfolding m'_def by (intro others_keptI [OF i] entry_clear_outside)
qed

lemma named_find:
  assumes "good_name name"
  shows "table_find m tbl cap name = None \<longleftrightarrow> named m tbl cap name = None"
    and "table_find m tbl cap name = Some e \<Longrightarrow> named m tbl cap name = Some (ld64 m (e + 40))"
  using assms by (simp_all add: named_def table_map_def)

lemma named_dom: "dom (named m tbl cap) = {s. good_name s \<and> table_find m tbl cap s \<noteq> None}"
  by (auto simp: named_def table_map_def dom_def split: if_splits)

lemma unused_iff_named:
  "table_uniq m tbl cap \<Longrightarrow> table_exact m tbl cap \<Longrightarrow>
     (\<exists>i < cap. m (entry_at tbl i) = 0) \<longleftrightarrow> card (dom (named m tbl cap)) < cap"
  unfolding named_dom by (rule unused_iff_card(2))

end

interpretation roots: header_table HDR_roots ROOT_CAPACITY
  by unfold_locales simp_all

interpretation index: header_table HDR_index INDEX_CAPACITY
  by unfold_locales simp_all

section \<open>The two maps\<close>

definition roots_map :: "mem \<Rightarrow> cstr \<rightharpoonup> OffsetPtr" where
  "roots_map m = named m HDR_roots ROOT_CAPACITY"

definition index_map :: "mem \<Rightarrow> cstr \<rightharpoonup> OffsetPtr" where
  "index_map m = named m HDR_index INDEX_CAPACITY"

definition tables_ok :: "mem \<Rightarrow> bool" where
  "tables_ok m \<longleftrightarrow> table_uniq m HDR_roots ROOT_CAPACITY \<and> table_uniq m HDR_index INDEX_CAPACITY"

definition tables_exact :: "mem \<Rightarrow> bool" where
  "tables_exact m \<longleftrightarrow> table_exact m HDR_roots ROOT_CAPACITY \<and> table_exact m HDR_index INDEX_CAPACITY"

text \<open>An insert has room when the name is bound already or an entry is unused.\<close>

definition roots_room :: "mem \<Rightarrow> cstr \<Rightarrow> bool" where
  "roots_room m name \<longleftrightarrow>
     roots_map m name \<noteq> None \<or> (\<exists>i < ROOT_CAPACITY. m (entry_at HDR_roots i) = 0)"

definition index_room :: "mem \<Rightarrow> cstr \<Rightarrow> bool" where
  "index_room m name \<longleftrightarrow>
     index_map m name \<noteq> None \<or> (\<exists>i < INDEX_CAPACITY. m (entry_at HDR_index i) = 0)"

text \<open>What every update of a table keeps: the other table, the invariant, the validity of the
  header and every byte behind it.\<close>

lemma roots_update:
  assumes "others_kept HDR_roots ROOT_CAPACITY m m'" and "tables_ok m"
    and "table_uniq m' HDR_roots ROOT_CAPACITY"
  shows "index_map m' = index_map m" "tables_ok m'" "x \<ge> 2496 \<Longrightarrow> m' x = m x"
    and "shm_region_validate_header region m \<Longrightarrow> shm_region_validate_header region m'"
    and "tables_exact m \<Longrightarrow> table_exact m' HDR_roots ROOT_CAPACITY \<Longrightarrow> tables_exact m'"
proof -
  have k: "\<And>x. x < 32 \<or> 40 \<le> x \<and> x < 192 \<or> 960 \<le> x \<Longrightarrow> m' x = m x"
    and c: "ld64 m' 32 = shm_region_compute_header_checksum m'"
    using assms(1) by (auto simp: others_kept_def)
  have so: "same_on m m' HDR_index (HDR_index + 48 * INDEX_CAPACITY)" using k by (simp add: same_on_def)
  show "index_map m' = index_map m" using index.named_same_on(1) [OF so] by (simp add: index_map_def)
  show "tables_ok m'" using index.named_same_on(2) [OF so] assms(2,3) by (simp add: tables_ok_def)
  show "tables_exact m \<Longrightarrow> table_exact m' HDR_roots ROOT_CAPACITY \<Longrightarrow> tables_exact m'"
    using index.named_same_on(4) [OF so] by (simp add: tables_exact_def)
  show "x \<ge> 2496 \<Longrightarrow> m' x = m x" using k by simp
  have "same_on m m' 0 32" using k by (simp add: same_on_def)
  from validate_header_kept [OF _ this c]
  show "shm_region_validate_header region m \<Longrightarrow> shm_region_validate_header region m'" .
qed

lemma index_update:
  assumes "others_kept HDR_index INDEX_CAPACITY m m'" and "tables_ok m"
    and "table_uniq m' HDR_index INDEX_CAPACITY"
  shows "roots_map m' = roots_map m" "tables_ok m'" "x \<ge> 2496 \<Longrightarrow> m' x = m x"
    and "shm_region_validate_header region m \<Longrightarrow> shm_region_validate_header region m'"
    and "tables_exact m \<Longrightarrow> table_exact m' HDR_index INDEX_CAPACITY \<Longrightarrow> tables_exact m'"
proof -
  have k: "\<And>x. x < 32 \<or> 40 \<le> x \<and> x < 960 \<or> 2496 \<le> x \<Longrightarrow> m' x = m x"
    and c: "ld64 m' 32 = shm_region_compute_header_checksum m'"
    using assms(1) by (auto simp: others_kept_def)
  have so: "same_on m m' HDR_roots (HDR_roots + 48 * ROOT_CAPACITY)" using k by (simp add: same_on_def)
  show "roots_map m' = roots_map m" using roots.named_same_on(1) [OF so] by (simp add: roots_map_def)
  show "tables_ok m'" using roots.named_same_on(2) [OF so] assms(2,3) by (simp add: tables_ok_def)
  show "tables_exact m \<Longrightarrow> table_exact m' HDR_index INDEX_CAPACITY \<Longrightarrow> tables_exact m'"
    using roots.named_same_on(4) [OF so] by (simp add: tables_exact_def)
  show "x \<ge> 2496 \<Longrightarrow> m' x = m x" using k by simp
  have "same_on m m' 0 32" using k by (simp add: same_on_def)
  from validate_header_kept [OF _ this c]
  show "shm_region_validate_header region m \<Longrightarrow> shm_region_validate_header region m'" .
qed

section \<open>Locking around the tables\<close>

lemma good_name_valid: "good_name s \<Longrightarrow> name_valid 32 (Some s)"
  by (simp add: good_name_def name_valid_iff)

text \<open>A lock a reader gets at once.\<close>

definition readable :: "world \<Rightarrow> nat \<Rightarrow> bool" where
  "readable w a \<longleftrightarrow> rwl w a = RWFree \<or> (\<exists>n. rwl w a = RWRead (Suc n))"

lemma rdlock_unlock:
  assumes "readable w a"
  obtains w1 where "shm_region_rdlock_one E (Some a) w = Some (STATUS_OK, w1)" and "bytes w1 = bytes w"
    and "shm_region_rwunlock_one E (Some a) w1 = (STATUS_OK, w)"
  using assms unfolding readable_def
proof (elim disjE exE)
  assume "rwl w a = RWFree"
  then show ?thesis using that [of "set_rwl a (RWRead 1) w"]
    by (simp add: shm_region_rdlock_one_def shm_region_rwunlock_one_def)
next
  fix n assume "rwl w a = RWRead (Suc n)"
  then show ?thesis using that [of "set_rwl a (RWRead (Suc (Suc n))) w"]
    by (simp add: shm_region_rdlock_one_def shm_region_rwunlock_one_def pthread_rwlock_rdlock_def
        pthread_rwlock_unlock_def)
qed

lemma wrlock_unlock:
  assumes "rwl w a = RWFree"
  obtains w1 where "shm_region_wrlock_one E (Some a) w = Some (STATUS_OK, w1)" and "bytes w1 = bytes w"
    and "\<And>m. shm_region_rwunlock_one E (Some a) (set_bytes m w1) = (STATUS_OK, set_bytes m w)"
    and "shm_region_rwunlock_one E (Some a) w1 = (STATUS_OK, w)"
proof -
  let ?w = "set_rwl a (RWWrite (env_tid E)) w"
  have u: "shm_region_rwunlock_one E (Some a) (set_bytes m ?w) = (STATUS_OK, set_bytes m w)" for m
    using assms by (simp add: shm_region_rwunlock_one_def)
  have "shm_region_rwunlock_one E (Some a) ?w = (STATUS_OK, w)"
    using assms by (simp add: shm_region_rwunlock_one_def)
  with u assms show ?thesis using that [of ?w] by (simp add: shm_region_wrlock_one_def)
qed

lemmas roots_locks = shm_region_roots_lock_def shm_region_roots_read_lock_def shm_region_roots_unlock_def
  shm_region_roots_rwlock_def shm_region_header_def
lemmas index_locks = shm_region_index_lock_def shm_region_index_read_lock_def shm_region_index_unlock_def
  shm_region_index_rwlock_def shm_region_header_def

section \<open>Root operations\<close>

lemma roots_slot:
  assumes "good_name name"
  shows "table_slot m HDR_roots ROOT_CAPACITY name = None \<longleftrightarrow> \<not> roots_room m name"
  unfolding roots.slot_None_iff roots_room_def roots_map_def roots.named_find(1) [OF assms] by auto

lemma set_root_runs:
  assumes b: "rg_base rg \<noteq> 0" and l: "rwl w HDR_roots_rwlock = RWFree" and n: "good_name name"
    and o: "obj \<noteq> 0" and t: "tables_ok (bytes w)"
  shows "if roots_room (bytes w) name
     then \<exists>m'. shm_region_set_root E (Some rg) (Some name) obj w = Some (STATUS_OK, set_bytes m' w) \<and>
        roots_map m' = (roots_map (bytes w))(name \<mapsto> obj) \<and> index_map m' = index_map (bytes w) \<and>
        tables_ok m' \<and> (\<forall>x \<ge> 2496. m' x = bytes w x) \<and>
        (shm_region_validate_header (Some rg) (bytes w) \<longrightarrow> shm_region_validate_header (Some rg) m') \<and>
        (tables_exact (bytes w) \<longrightarrow> tables_exact m')
     else shm_region_set_root E (Some rg) (Some name) obj w = Some (STATUS_OUT_OF_MEMORY, w)"
proof -
  let ?m = "bytes w"
  obtain w1 where w1: "shm_region_wrlock_one E (Some HDR_roots_rwlock) w = Some (STATUS_OK, w1)"
    "bytes w1 = ?m" "\<And>m. shm_region_rwunlock_one E (Some HDR_roots_rwlock) (set_bytes m w1) = (STATUS_OK, set_bytes m w)"
    "shm_region_rwunlock_one E (Some HDR_roots_rwlock) w1 = (STATUS_OK, w)"
    using wrlock_unlock [OF l] by metis
  have run: "shm_region_set_root E (Some rg) (Some name) obj w =
     (case table_slot ?m HDR_roots ROOT_CAPACITY name of
        None \<Rightarrow> Some (STATUS_OUT_OF_MEMORY, w)
      | Some e \<Rightarrow> Some (STATUS_OK, set_bytes (shm_region_refresh_header_checksum (entry_store ?m e name obj)) w))"
    using b o good_name_valid [OF n] w1
    by (auto simp: shm_region_set_root_def roots_locks table_slot_def shm_region_is_root_name_valid_def offset_ptr_is_null_def Let_def
        shm_region_find_root_def shm_region_find_free_root_def split: option.split)
  show ?thesis
  proof (cases "table_slot ?m HDR_roots ROOT_CAPACITY name")
    case None
    then show ?thesis using run roots_slot [OF n, of ?m] by simp
  next
    case (Some e)
    have u: "table_uniq ?m HDR_roots ROOT_CAPACITY" using t by (simp add: tables_ok_def)
    note p = roots.put_bytes [OF u Some n, where obj = obj]
    show ?thesis using run Some roots_slot [OF n, of ?m] p(1) roots_update [OF p(3) t p(2)] p(4)
      by (auto simp: roots_map_def tables_exact_def)
  qed
qed

text \<open>\<open>shm_region_set_root\<close> binds the name in the root map and nothing else: with room it returns
  \<open>OK\<close>, the root map is updated at that name, the index map and every byte behind the header are
  unchanged, a valid header stays valid and the lock is released; without room it returns
  \<open>OUT_OF_MEMORY\<close> and changes nothing.\<close>

theorem shm_region_set_root_refines:
  assumes b: "rg_base rg \<noteq> 0" and l: "rwl w HDR_roots_rwlock = RWFree" and n: "good_name name"
    and o: "obj \<noteq> 0" and t: "tables_ok (bytes w)"
  shows "if roots_room (bytes w) name
     then \<exists>m'. shm_region_set_root E (Some rg) (Some name) obj w = Some (STATUS_OK, set_bytes m' w) \<and>
        roots_map m' = (roots_map (bytes w))(name \<mapsto> obj) \<and> index_map m' = index_map (bytes w) \<and>
        tables_ok m' \<and> (\<forall>x \<ge> 2496. m' x = bytes w x) \<and>
        (shm_region_validate_header (Some rg) (bytes w) \<longrightarrow> shm_region_validate_header (Some rg) m') \<and>
        (tables_exact (bytes w) \<longrightarrow> tables_exact m')
     else shm_region_set_root E (Some rg) (Some name) obj w = Some (STATUS_OUT_OF_MEMORY, w)"
  using set_root_runs [OF assms] .

lemma get_root_runs:
  assumes b: "rg_base rg \<noteq> 0" and l: "readable w HDR_roots_rwlock" and n: "good_name name"
  shows "shm_region_get_root E (Some rg) (Some name) True w =
     Some ((case roots_map (bytes w) name of
              None \<Rightarrow> (STATUS_NOT_FOUND, None)
            | Some obj \<Rightarrow> (STATUS_OK, Some obj)), w)"
proof -
  obtain w1 where w1: "shm_region_rdlock_one E (Some HDR_roots_rwlock) w = Some (STATUS_OK, w1)"
    "bytes w1 = bytes w" "shm_region_rwunlock_one E (Some HDR_roots_rwlock) w1 = (STATUS_OK, w)"
    using rdlock_unlock [OF l] by metis
  show ?thesis using b good_name_valid [OF n] w1 roots.named_find [OF n, of "bytes w"]
    by (cases "table_find (bytes w) HDR_roots ROOT_CAPACITY name")
      (auto simp: shm_region_get_root_def roots_locks shm_region_is_root_name_valid_def shm_region_find_root_def roots_map_def)
qed

text \<open>\<open>shm_region_get_root\<close> returns the handle the root map binds to the name, or \<open>NOT_FOUND\<close>, and leaves
  the region and its lock as they were, also while other readers hold the lock.\<close>

theorem shm_region_get_root_refines:
  assumes b: "rg_base rg \<noteq> 0" and l: "readable w HDR_roots_rwlock" and n: "good_name name"
  shows "shm_region_get_root E (Some rg) (Some name) True w =
     Some ((case roots_map (bytes w) name of
              None \<Rightarrow> (STATUS_NOT_FOUND, None)
            | Some obj \<Rightarrow> (STATUS_OK, Some obj)), w)"
  using get_root_runs [OF assms] .

text \<open>\<open>shm_region_remove_root\<close> unbinds exactly that name: a bound name is removed with \<open>OK\<close>, keeping the
  index map, every byte behind the header and the validity of the header; an unbound one gives
  \<open>NOT_FOUND\<close> and changes nothing. The lock is released on both paths.\<close>

theorem shm_region_remove_root_refines:
  assumes b: "rg_base rg \<noteq> 0" and l: "rwl w HDR_roots_rwlock = RWFree" and n: "good_name name"
    and t: "tables_ok (bytes w)"
  shows "if roots_map (bytes w) name = None
     then shm_region_remove_root E (Some rg) (Some name) w = Some (STATUS_NOT_FOUND, w)
     else \<exists>m'. shm_region_remove_root E (Some rg) (Some name) w = Some (STATUS_OK, set_bytes m' w) \<and>
        roots_map m' = (roots_map (bytes w))(name := None) \<and> index_map m' = index_map (bytes w) \<and>
        tables_ok m' \<and> (\<forall>x \<ge> 2496. m' x = bytes w x) \<and>
        (shm_region_validate_header (Some rg) (bytes w) \<longrightarrow> shm_region_validate_header (Some rg) m') \<and>
        (tables_exact (bytes w) \<longrightarrow> tables_exact m')"
proof -
  let ?m = "bytes w"
  obtain w1 where w1: "shm_region_wrlock_one E (Some HDR_roots_rwlock) w = Some (STATUS_OK, w1)"
    "bytes w1 = ?m" "\<And>m. shm_region_rwunlock_one E (Some HDR_roots_rwlock) (set_bytes m w1) = (STATUS_OK, set_bytes m w)"
    "shm_region_rwunlock_one E (Some HDR_roots_rwlock) w1 = (STATUS_OK, w)"
    using wrlock_unlock [OF l] by metis
  have run: "shm_region_remove_root E (Some rg) (Some name) w =
     (case table_find ?m HDR_roots ROOT_CAPACITY name of
        None \<Rightarrow> Some (STATUS_NOT_FOUND, w)
      | Some e \<Rightarrow> Some (STATUS_OK, set_bytes (shm_region_refresh_header_checksum (entry_clear ?m e)) w))"
    using b good_name_valid [OF n] w1
    by (auto simp: shm_region_remove_root_def roots_locks shm_region_is_root_name_valid_def Let_def shm_region_find_root_def split: option.split)
  show ?thesis
  proof (cases "table_find ?m HDR_roots ROOT_CAPACITY name")
    case None
    then show ?thesis using run roots.named_find(1) [OF n, of ?m] by (simp add: roots_map_def)
  next
    case (Some e)
    have u: "table_uniq ?m HDR_roots ROOT_CAPACITY" using t by (simp add: tables_ok_def)
    note p = roots.clear_bytes [OF u Some n]
    show ?thesis using run Some roots.named_find(2) [OF n Some] p(1) roots_update [OF p(3) t p(2)] p(4)
      by (auto simp: roots_map_def tables_exact_def)
  qed
qed

section \<open>Index operations\<close>

lemma index_slot:
  assumes "good_name name"
  shows "table_slot m HDR_index INDEX_CAPACITY name = None \<longleftrightarrow> \<not> index_room m name"
  unfolding index.slot_None_iff index_room_def index_map_def index.named_find(1) [OF assms] by auto

text \<open>\<open>shm_region_index_put\<close> binds the name in the index map and nothing else: with room it returns
  \<open>OK\<close>, the index map is updated at that name, the root map and every byte behind the header are
  unchanged, a valid header stays valid and the lock is released; without room it returns
  \<open>OUT_OF_MEMORY\<close> and changes nothing.\<close>

theorem shm_region_index_put_refines:
  assumes b: "rg_base rg \<noteq> 0" and l: "rwl w HDR_index_rwlock = RWFree" and n: "good_name name"
    and o: "obj \<noteq> 0" and t: "tables_ok (bytes w)"
  shows "if index_room (bytes w) name
     then \<exists>m'. shm_region_index_put E (Some rg) (Some name) obj w = Some (STATUS_OK, set_bytes m' w) \<and>
        index_map m' = (index_map (bytes w))(name \<mapsto> obj) \<and> roots_map m' = roots_map (bytes w) \<and>
        tables_ok m' \<and> (\<forall>x \<ge> 2496. m' x = bytes w x) \<and>
        (shm_region_validate_header (Some rg) (bytes w) \<longrightarrow> shm_region_validate_header (Some rg) m') \<and>
        (tables_exact (bytes w) \<longrightarrow> tables_exact m')
     else shm_region_index_put E (Some rg) (Some name) obj w = Some (STATUS_OUT_OF_MEMORY, w)"
proof -
  let ?m = "bytes w"
  obtain w1 where w1: "shm_region_wrlock_one E (Some HDR_index_rwlock) w = Some (STATUS_OK, w1)"
    "bytes w1 = ?m" "\<And>m. shm_region_rwunlock_one E (Some HDR_index_rwlock) (set_bytes m w1) = (STATUS_OK, set_bytes m w)"
    "shm_region_rwunlock_one E (Some HDR_index_rwlock) w1 = (STATUS_OK, w)"
    using wrlock_unlock [OF l] by metis
  have run: "shm_region_index_put E (Some rg) (Some name) obj w =
     (case table_slot ?m HDR_index INDEX_CAPACITY name of
        None \<Rightarrow> Some (STATUS_OUT_OF_MEMORY, w)
      | Some e \<Rightarrow> Some (STATUS_OK, set_bytes (shm_region_refresh_header_checksum (entry_store ?m e name obj)) w))"
    using b o good_name_valid [OF n] w1
    by (auto simp: shm_region_index_put_def index_locks table_slot_def shm_region_is_index_key_valid_def offset_ptr_is_null_def Let_def
        shm_region_find_index_entry_def shm_region_find_free_index_entry_def split: option.split)
  show ?thesis
  proof (cases "table_slot ?m HDR_index INDEX_CAPACITY name")
    case None
    then show ?thesis using run index_slot [OF n, of ?m] by simp
  next
    case (Some e)
    have u: "table_uniq ?m HDR_index INDEX_CAPACITY" using t by (simp add: tables_ok_def)
    note p = index.put_bytes [OF u Some n, where obj = obj]
    show ?thesis using run Some index_slot [OF n, of ?m] p(1) index_update [OF p(3) t p(2)] p(4)
      by (auto simp: index_map_def tables_exact_def)
  qed
qed

text \<open>\<open>shm_region_index_get\<close> returns the handle the index map binds to the name, or \<open>NOT_FOUND\<close>, and leaves
  the region and its lock as they were, also while other readers hold the lock.\<close>

theorem shm_region_index_get_refines:
  assumes b: "rg_base rg \<noteq> 0" and l: "readable w HDR_index_rwlock" and n: "good_name name"
  shows "shm_region_index_get E (Some rg) (Some name) True w =
     Some ((case index_map (bytes w) name of
              None \<Rightarrow> (STATUS_NOT_FOUND, None)
            | Some obj \<Rightarrow> (STATUS_OK, Some obj)), w)"
proof -
  obtain w1 where w1: "shm_region_rdlock_one E (Some HDR_index_rwlock) w = Some (STATUS_OK, w1)"
    "bytes w1 = bytes w" "shm_region_rwunlock_one E (Some HDR_index_rwlock) w1 = (STATUS_OK, w)"
    using rdlock_unlock [OF l] by metis
  show ?thesis using b good_name_valid [OF n] w1 index.named_find [OF n, of "bytes w"]
    by (cases "table_find (bytes w) HDR_index INDEX_CAPACITY name")
      (auto simp: shm_region_index_get_def index_locks shm_region_is_index_key_valid_def shm_region_find_index_entry_def index_map_def)
qed

text \<open>\<open>shm_region_index_contains\<close> tells whether the index map binds the key, and leaves the region
  and its lock as they were.\<close>

theorem shm_region_index_contains_refines:
  assumes b: "rg_base rg \<noteq> 0" and l: "readable w HDR_index_rwlock" and n: "good_name name"
  shows "shm_region_index_contains E (Some rg) (Some name) True w =
     Some ((STATUS_OK, Some (index_map (bytes w) name \<noteq> None)), w)"
proof -
  obtain w1 where w1: "shm_region_rdlock_one E (Some HDR_index_rwlock) w = Some (STATUS_OK, w1)"
    "bytes w1 = bytes w" "shm_region_rwunlock_one E (Some HDR_index_rwlock) w1 = (STATUS_OK, w)"
    using rdlock_unlock [OF l] by metis
  show ?thesis using b good_name_valid [OF n] w1 index.named_find [OF n, of "bytes w"]
    by (cases "table_find (bytes w) HDR_index INDEX_CAPACITY name")
      (auto simp: shm_region_index_contains_def index_locks shm_region_is_index_key_valid_def
        shm_region_find_index_entry_def index_map_def)
qed

text \<open>\<open>shm_region_index_remove\<close> unbinds exactly that name: a bound name is removed with \<open>OK\<close>, keeping the
  root map, every byte behind the header and the validity of the header; an unbound one gives
  \<open>NOT_FOUND\<close> and changes nothing. The lock is released on both paths.\<close>

theorem shm_region_index_remove_refines:
  assumes b: "rg_base rg \<noteq> 0" and l: "rwl w HDR_index_rwlock = RWFree" and n: "good_name name"
    and t: "tables_ok (bytes w)"
  shows "if index_map (bytes w) name = None
     then shm_region_index_remove E (Some rg) (Some name) w = Some (STATUS_NOT_FOUND, w)
     else \<exists>m'. shm_region_index_remove E (Some rg) (Some name) w = Some (STATUS_OK, set_bytes m' w) \<and>
        index_map m' = (index_map (bytes w))(name := None) \<and> roots_map m' = roots_map (bytes w) \<and>
        tables_ok m' \<and> (\<forall>x \<ge> 2496. m' x = bytes w x) \<and>
        (shm_region_validate_header (Some rg) (bytes w) \<longrightarrow> shm_region_validate_header (Some rg) m') \<and>
        (tables_exact (bytes w) \<longrightarrow> tables_exact m')"
proof -
  let ?m = "bytes w"
  obtain w1 where w1: "shm_region_wrlock_one E (Some HDR_index_rwlock) w = Some (STATUS_OK, w1)"
    "bytes w1 = ?m" "\<And>m. shm_region_rwunlock_one E (Some HDR_index_rwlock) (set_bytes m w1) = (STATUS_OK, set_bytes m w)"
    "shm_region_rwunlock_one E (Some HDR_index_rwlock) w1 = (STATUS_OK, w)"
    using wrlock_unlock [OF l] by metis
  have run: "shm_region_index_remove E (Some rg) (Some name) w =
     (case table_find ?m HDR_index INDEX_CAPACITY name of
        None \<Rightarrow> Some (STATUS_NOT_FOUND, w)
      | Some e \<Rightarrow> Some (STATUS_OK, set_bytes (shm_region_refresh_header_checksum (entry_clear ?m e)) w))"
    using b good_name_valid [OF n] w1
    by (auto simp: shm_region_index_remove_def index_locks shm_region_is_index_key_valid_def Let_def shm_region_find_index_entry_def split: option.split)
  show ?thesis
  proof (cases "table_find ?m HDR_index INDEX_CAPACITY name")
    case None
    then show ?thesis using run index.named_find(1) [OF n, of ?m] by (simp add: index_map_def)
  next
    case (Some e)
    have u: "table_uniq ?m HDR_index INDEX_CAPACITY" using t by (simp add: tables_ok_def)
    note p = index.clear_bytes [OF u Some n]
    show ?thesis using run Some index.named_find(2) [OF n Some] p(1) index_update [OF p(3) t p(2)] p(4)
      by (auto simp: index_map_def tables_exact_def)
  qed
qed

section \<open>A concrete region\<close>

text \<open>A mapped region of 8192 zero bytes with every lock free.\<close>

definition demo_region :: ShmRegion where
  "demo_region = \<lparr>rg_fd = 3, rg_base = 65536, rg_size = 8192, rg_creator = True\<rparr>"

definition demo_env :: env where
  "demo_env = \<lparr>env_tid = 1, def_EOWNERDEAD = True, def_ROBUST = True, rc_mutexattr_init = 0,
     rc_mutexattr_setpshared = 0, rc_mutexattr_setrobust = 0, rc_mutex_init = (\<lambda>_. 0),
     rc_rwlockattr_init = 0, rc_rwlockattr_setpshared = 0, rc_rwlock_init = (\<lambda>_. 0)\<rparr>"

definition demo_blank :: world where
  "demo_blank = \<lparr>bytes = (\<lambda>_. 0), mtx = (\<lambda>a. if a = 40 then MFree else MUninit),
     rwl = (\<lambda>_. RWFree), held_shard = (\<lambda>_. - 1), dlog = []\<rparr>"

lemma demo_name: "good_name [97]"
  by (simp add: good_name_def)

lemma demo_base: "rg_base demo_region \<noteq> 0"
  by (simp add: demo_region_def)

lemma demo_blank_facts:
  "rwl demo_blank a = RWFree" "tables_ok (bytes demo_blank)" "roots_room (bytes demo_blank) s"
  "index_room (bytes demo_blank) s" "tables_exact (bytes demo_blank)"
proof -
  show "rwl demo_blank a = RWFree" by (simp add: demo_blank_def)
  have z: "bytes demo_blank x = 0" for x by (simp add: demo_blank_def)
  show "tables_ok (bytes demo_blank)"
    unfolding tables_ok_def using z by (intro conjI roots.unused_empty(2) index.unused_empty(2))
  show "tables_exact (bytes demo_blank)"
    unfolding tables_exact_def using z by (intro conjI roots.unused_empty(3) index.unused_empty(3))
  show "roots_room (bytes demo_blank) s" "index_room (bytes demo_blank) s"
    using z by (auto simp: roots_room_def index_room_def intro: exI [of _ 0])
qed

theorem shm_region_set_root_refines_witness:
  "\<exists>m'. shm_region_set_root demo_env (Some demo_region) (Some [97]) 4096 demo_blank
      = Some (STATUS_OK, set_bytes m' demo_blank) \<and> roots_map m' [97] = Some 4096"
  using shm_region_set_root_refines [OF demo_base demo_blank_facts(1) demo_name _ demo_blank_facts(2), where obj = 4096]
    demo_blank_facts(3) [of "[97]"] by fastforce

end
