(* ===== verification/Allocator.thy ===== *)
theory Allocator
  imports RegionSpec
begin

text \<open>
  The sharded first-fit allocator of src/core/allocator.c, definition by definition. Block
  headers, the allocator header and the in-band prefixes are bytes of the region; a C pointer is
  a 64-bit address, and the field it points at is read at its distance from the mapping base.
  Stores happen one field at a time in the order of the source, so overlapping structs behave as
  they do in memory. Static helpers receive the address of a local as their out parameter, so
  their null check on it never fires and is not modelled. A loop that may run forever on corrupt
  metadata is a \<open>partial_function (option)\<close>; loops the code itself bounds are total.
\<close>

section \<open>Layout\<close>

definition ALLOCATOR_VERSION :: u32 where "ALLOCATOR_VERSION = 3"
definition BLOCK_FREE :: u32 where "BLOCK_FREE = 1"
definition SHARD_COUNT :: u32 where "SHARD_COUNT = 4"
definition ALLOCATOR_MAGIC :: u64 where "ALLOCATOR_MAGIC = 0x4f464653414c4c43"
definition ALIGNOF_max_align_t :: u64 where "ALIGNOF_max_align_t = 16"

text \<open>\<open>AllocatorHeader\<close>: magic, version, shard_count, heap_offset, heap_size, shard_mutexes,
  shard_free_list_heads, allocation_failures.\<close>

definition AH_magic :: nat where "AH_magic = 0"
definition AH_version :: nat where "AH_version = 8"
definition AH_shard_count :: nat where "AH_shard_count = 12"
definition AH_heap_offset :: nat where "AH_heap_offset = 16"
definition AH_heap_size :: nat where "AH_heap_size = 24"
definition AH_shard_mutexes :: nat where "AH_shard_mutexes = 32"
definition AH_heads :: nat where "AH_heads = AH_shard_mutexes + 4 * SIZEOF_MUTEX"
definition AH_failures :: nat where "AH_failures = AH_heads + 4 * 8"
definition SIZEOF_AllocatorHeader :: nat where "SIZEOF_AllocatorHeader = AH_failures + 8"

text \<open>\<open>AllocatorBlockHeader\<close> (28 bytes, padded to 32) and \<open>AllocationPrefix\<close>.\<close>

definition BH_size :: nat where "BH_size = 0"
definition BH_next_free :: nat where "BH_next_free = 8"
definition BH_flags :: nat where "BH_flags = 16"
definition BH_shard :: nat where "BH_shard = 20"
definition BH_payload_offset :: nat where "BH_payload_offset = 24"
definition SIZEOF_AllocatorBlockHeader :: u64 where "SIZEOF_AllocatorBlockHeader = 32"
definition SIZEOF_AllocationPrefix :: u64 where "SIZEOF_AllocationPrefix = 8"

lemmas allocator_layout [layout, simp] =
  ALLOCATOR_VERSION_def BLOCK_FREE_def SHARD_COUNT_def ALIGNOF_max_align_t_def
  AH_magic_def AH_version_def AH_shard_count_def AH_heap_offset_def AH_heap_size_def
  AH_shard_mutexes_def AH_heads_def AH_failures_def SIZEOF_AllocatorHeader_def
  BH_size_def BH_next_free_def BH_flags_def BH_shard_def BH_payload_offset_def
  SIZEOF_AllocatorBlockHeader_def SIZEOF_AllocationPrefix_def

record AllocatorBlockHeader =
  bh_size :: u64
  bh_next_free :: OffsetPtr
  bh_flags :: u32
  bh_shard :: u32
  bh_payload_offset :: u32

definition get_block :: "mem \<Rightarrow> nat \<Rightarrow> AllocatorBlockHeader" where
  "get_block m b =
     \<lparr>bh_size = ld64 m (b + BH_size), bh_next_free = ld64 m (b + BH_next_free),
      bh_flags = ld32 m (b + BH_flags), bh_shard = ld32 m (b + BH_shard),
      bh_payload_offset = ld32 m (b + BH_payload_offset)\<rparr>"

definition set_bh_size :: "nat \<Rightarrow> u64 \<Rightarrow> mem \<Rightarrow> mem" where
  "set_bh_size b v m = st64 m (b + BH_size) v"

definition set_bh_next_free :: "nat \<Rightarrow> OffsetPtr \<Rightarrow> mem \<Rightarrow> mem" where
  "set_bh_next_free b v m = st64 m (b + BH_next_free) v"

definition set_bh_flags :: "nat \<Rightarrow> u32 \<Rightarrow> mem \<Rightarrow> mem" where
  "set_bh_flags b v m = st32 m (b + BH_flags) v"

definition set_bh_shard :: "nat \<Rightarrow> u32 \<Rightarrow> mem \<Rightarrow> mem" where
  "set_bh_shard b v m = st32 m (b + BH_shard) v"

definition set_bh_payload_offset :: "nat \<Rightarrow> u32 \<Rightarrow> mem \<Rightarrow> mem" where
  "set_bh_payload_offset b v m = st32 m (b + BH_payload_offset) v"

section \<open>Helpers\<close>

definition allocator_metadata_offset :: nat where
  "allocator_metadata_offset = unat shm_region_header_size"

definition ah_magic :: "mem \<Rightarrow> u64" where
  "ah_magic m = ld64 m (allocator_metadata_offset + AH_magic)"
definition ah_version :: "mem \<Rightarrow> u32" where
  "ah_version m = ld32 m (allocator_metadata_offset + AH_version)"
definition ah_shard_count :: "mem \<Rightarrow> u32" where
  "ah_shard_count m = ld32 m (allocator_metadata_offset + AH_shard_count)"
definition ah_heap_offset :: "mem \<Rightarrow> u64" where
  "ah_heap_offset m = ld64 m (allocator_metadata_offset + AH_heap_offset)"
definition ah_heap_size :: "mem \<Rightarrow> u64" where
  "ah_heap_size m = ld64 m (allocator_metadata_offset + AH_heap_size)"
definition ah_failures :: "mem \<Rightarrow> u64" where
  "ah_failures m = ld64 m (allocator_metadata_offset + AH_failures)"

text \<open>The offsets of \<open>shard_mutexes[s]\<close> and \<open>shard_free_list_heads[s]\<close>.\<close>

definition shard_mutex_at :: "nat \<Rightarrow> nat" where
  "shard_mutex_at s = allocator_metadata_offset + AH_shard_mutexes + SIZEOF_MUTEX * s"
definition shard_head_at :: "nat \<Rightarrow> nat" where
  "shard_head_at s = allocator_metadata_offset + AH_heads + 8 * s"

definition ah_head :: "mem \<Rightarrow> nat \<Rightarrow> OffsetPtr" where
  "ah_head m s = ld64 m (shard_head_at s)"

definition allocator_align_up :: "u64 \<Rightarrow> u64 \<Rightarrow> u64 option" where
  "allocator_align_up v alignment =
     (if alignment = 0 \<or> alignment AND (alignment - 1) \<noteq> 0 then None
      else if (- 1) - (alignment - 1) < v then None
      else Some ((v + (alignment - 1)) AND NOT (alignment - 1)))"

definition allocator_min_block_size :: u64 where
  "allocator_min_block_size =
     SIZEOF_AllocatorBlockHeader + SIZEOF_AllocationPrefix + ALIGNOF_max_align_t"

definition allocator_select_shard :: "u64 \<Rightarrow> u32" where
  "allocator_select_shard sz =
     (let hash = sz XOR drop_bit 17 sz in ucast (hash AND (ucast SHARD_COUNT - 1)))"

definition allocator_shard_heap_offset :: "u64 \<Rightarrow> u64 \<Rightarrow> u32 \<Rightarrow> u64" where
  "allocator_shard_heap_offset heap_offset heap_size shard =
     (let shard_size = heap_size div ucast SHARD_COUNT in heap_offset + ucast shard * shard_size)"

definition allocator_shard_heap_size :: "u64 \<Rightarrow> u64" where
  "allocator_shard_heap_size heap_size = heap_size div ucast SHARD_COUNT"

definition allocator_region_offsets :: "ShmRegion option \<Rightarrow> (u64 \<times> u64) option" where
  "allocator_region_offsets region =
     (case region of
        None \<Rightarrow> None
      | Some rg \<Rightarrow>
          let heap_start = of_nat (allocator_metadata_offset + SIZEOF_AllocatorHeader) in
          if rg_size rg < heap_start then None
          else case allocator_align_up heap_start ALIGNOF_max_align_t of
                 None \<Rightarrow> None
               | Some aligned_heap_start \<Rightarrow>
                   if rg_size rg \<le> aligned_heap_start then None
                   else Some (aligned_heap_start, rg_size rg - aligned_heap_start))"

text \<open>The mutable and the const header pointer, or null.\<close>

definition allocator_header_mut :: "ShmRegion option \<Rightarrow> u64 option" where
  "allocator_header_mut region =
     (case region of
        None \<Rightarrow> None
      | Some rg \<Rightarrow>
          if rg_base rg = 0
             \<or> rg_size rg < of_nat (allocator_metadata_offset + SIZEOF_AllocatorHeader) then None
          else Some (rg_base rg + of_nat allocator_metadata_offset))"

definition allocator_header :: "ShmRegion option \<Rightarrow> u64 option" where
  "allocator_header region =
     (case region of
        None \<Rightarrow> None
      | Some rg \<Rightarrow>
          if rg_base rg = 0
             \<or> rg_size rg < of_nat (allocator_metadata_offset + SIZEOF_AllocatorHeader) then None
          else Some (rg_base rg + of_nat allocator_metadata_offset))"

definition allocator_header_valid :: "ShmRegion option \<Rightarrow> u64 option \<Rightarrow> mem \<Rightarrow> bool" where
  "allocator_header_valid region header m =
     (case region of
        None \<Rightarrow> False
      | Some rg \<Rightarrow>
          if header = None then False
          else if ah_magic m \<noteq> ALLOCATOR_MAGIC then False
          else if ah_version m \<noteq> ALLOCATOR_VERSION then False
          else if ah_shard_count m \<noteq> SHARD_COUNT then False
          else if rg_size rg \<le> ah_heap_offset m \<or> rg_size rg < ah_heap_size m then False
          else if ah_heap_offset m + ah_heap_size m \<noteq> rg_size rg then False
          else True)"

definition allocator_block_from_offset :: "ShmRegion \<Rightarrow> OffsetPtr \<Rightarrow> u64 option" where
  "allocator_block_from_offset rg block_offset =
     offset_ptr_try_resolve (rg_base rg) (rg_size rg) block_offset SIZEOF_AllocatorBlockHeader True"

text \<open>The region offset a process-local pointer designates.\<close>

definition roff :: "ShmRegion \<Rightarrow> u64 \<Rightarrow> nat" where
  "roff rg p = unat (p - rg_base rg)"

definition allocator_block_is_in_heap :: "u64 option \<Rightarrow> OffsetPtr \<Rightarrow> mem \<Rightarrow> bool" where
  "allocator_block_is_in_heap header block_offset m =
     (if header = None \<or> offset_ptr_is_null block_offset then False
      else if block_offset < ah_heap_offset m then False
      else if ah_heap_offset m + ah_heap_size m \<le> block_offset then False
      else True)"

section \<open>Introspection\<close>

definition allocator_get_heap_offset ::
    "ShmRegion option \<Rightarrow> bool \<Rightarrow> mem \<Rightarrow> OffsetStoreStatus \<times> u64 option" where
  "allocator_get_heap_offset region out_nonnull m =
     (if region = None \<or> \<not> out_nonnull then (STATUS_INVALID_ARGUMENT, None)
      else if \<not> allocator_header_valid region (allocator_header region) m
      then (STATUS_INVALID_STATE, None)
      else (STATUS_OK, Some (ah_heap_offset m)))"

definition allocator_get_heap_size ::
    "ShmRegion option \<Rightarrow> bool \<Rightarrow> mem \<Rightarrow> OffsetStoreStatus \<times> u64 option" where
  "allocator_get_heap_size region out_nonnull m =
     (if region = None \<or> \<not> out_nonnull then (STATUS_INVALID_ARGUMENT, None)
      else if \<not> allocator_header_valid region (allocator_header region) m
      then (STATUS_INVALID_STATE, None)
      else (STATUS_OK, Some (ah_heap_size m)))"

definition allocator_get_free_list_head ::
    "ShmRegion option \<Rightarrow> bool \<Rightarrow> mem \<Rightarrow> OffsetStoreStatus \<times> OffsetPtr option" where
  "allocator_get_free_list_head region out_nonnull m =
     (if region = None \<or> \<not> out_nonnull then (STATUS_INVALID_ARGUMENT, None)
      else if \<not> allocator_header_valid region (allocator_header region) m
      then (STATUS_INVALID_STATE, None)
      else (STATUS_OK, Some (ah_head m 0)))"

definition allocator_get_allocation_failures ::
    "ShmRegion option \<Rightarrow> bool \<Rightarrow> mem \<Rightarrow> OffsetStoreStatus \<times> u64 option" where
  "allocator_get_allocation_failures region out_nonnull m =
     (if region = None \<or> \<not> out_nonnull then (STATUS_INVALID_ARGUMENT, None)
      else if \<not> allocator_header_valid region (allocator_header region) m
      then (STATUS_INVALID_STATE, None)
      else (STATUS_OK, Some (ah_failures m)))"

section \<open>Statistics\<close>

record AllocatorStats =
  st_heap_size :: u64
  st_free_bytes :: u64
  st_used_bytes :: u64
  st_largest_free_block :: u64
  st_free_block_count :: u64
  st_allocation_failures :: u64

lemma walk_measure:
  fixes hs t sz :: u64
  assumes "t < hs" and "sz \<noteq> 0" and "\<not> hs - t < sz"
  shows "unat hs - unat (t + sz) < unat hs - unat t" and "unat (t + sz) = unat t + unat sz"
    and "unat t + unat sz \<le> unat hs"
proof -
  have a: "unat t < unat hs" "0 < unat sz"
    using assms by (simp_all add: word_less_nat_alt unat_gt_0)
  then have "unat (hs - t) = unat hs - unat t" by (simp add: unat_diff_le)
  with assms(3) a show b: "unat t + unat sz \<le> unat hs"
    by (simp add: word_less_nat_alt)
  show c: "unat (t + sz) = unat t + unat sz"
    using b unat_less_2p64 [of hs] by (intro unat_add_nowrap) simp
  show "unat hs - unat (t + sz) < unat hs - unat t" using a b c by simp
qed

function allocator_stats_walk ::
    "ShmRegion \<Rightarrow> mem \<Rightarrow> u64 \<Rightarrow> AllocatorStats \<Rightarrow> OffsetStoreStatus \<times> AllocatorStats" where
  "allocator_stats_walk rg m traversed st =
     (if \<not> traversed < ah_heap_size m then (STATUS_OK, st)
      else case allocator_block_from_offset rg (ah_heap_offset m + traversed) of
             None \<Rightarrow> (STATUS_INVALID_STATE, st)
           | Some block \<Rightarrow>
               let blk = get_block m (roff rg block); block_size = bh_size blk in
               if block_size = 0 \<or> ah_heap_size m - traversed < block_size
               then (STATUS_INVALID_STATE, st)
               else
                 let st' =
                   (if bh_flags blk AND BLOCK_FREE \<noteq> 0 then
                      st\<lparr>st_free_bytes := st_free_bytes st + block_size,
                         st_free_block_count := st_free_block_count st + 1,
                         st_largest_free_block :=
                           (if st_largest_free_block st < block_size then block_size
                            else st_largest_free_block st)\<rparr>
                    else st\<lparr>st_used_bytes := st_used_bytes st + block_size\<rparr>)
                 in allocator_stats_walk rg m (traversed + block_size) st')"
  by pat_completeness auto
termination
  by (relation "measure (\<lambda>(rg, m, traversed, st). unat (ah_heap_size m) - unat traversed)")
     (auto simp: walk_measure(1))

declare allocator_stats_walk.simps [simp del]

definition allocator_get_stats ::
    "ShmRegion option \<Rightarrow> bool \<Rightarrow> mem \<Rightarrow> OffsetStoreStatus \<times> AllocatorStats option" where
  "allocator_get_stats region out_nonnull m =
     (if region = None \<or> \<not> out_nonnull then (STATUS_INVALID_ARGUMENT, None)
      else if \<not> allocator_header_valid region (allocator_header region) m
      then (STATUS_INVALID_STATE, None)
      else
        let st0 = \<lparr>st_heap_size = ah_heap_size m, st_free_bytes = 0, st_used_bytes = 0,
                   st_largest_free_block = 0, st_free_block_count = 0,
                   st_allocation_failures = ah_failures m\<rparr>;
            (status, st) = allocator_stats_walk (the region) m 0 st0
        in (status, Some st))"

section \<open>Span of a live allocation\<close>

partial_function (option) allocator_span_walk ::
    "ShmRegion \<Rightarrow> mem \<Rightarrow> u64 \<Rightarrow> u64 \<Rightarrow> (OffsetStoreStatus \<times> u64 option) option" where
  "allocator_span_walk rg m ptr traversed =
     (if \<not> traversed < ah_heap_size m then Some (STATUS_NOT_FOUND, None)
      else case allocator_block_from_offset rg (ah_heap_offset m + traversed) of
             None \<Rightarrow> Some (STATUS_INVALID_STATE, None)
           | Some block \<Rightarrow>
               let blk = get_block m (roff rg block) in
               if bh_flags blk AND BLOCK_FREE = 0 \<and> block + ucast (bh_payload_offset blk) = ptr
               then Some (STATUS_OK, Some (bh_size blk - ucast (bh_payload_offset blk)))
               else allocator_span_walk rg m ptr (traversed + bh_size blk))"

definition allocator_get_allocation_span ::
    "ShmRegion option \<Rightarrow> u64 \<Rightarrow> bool \<Rightarrow> mem \<Rightarrow> (OffsetStoreStatus \<times> u64 option) option" where
  "allocator_get_allocation_span region ptr out_nonnull m =
     (if region = None \<or> ptr = 0 \<or> \<not> out_nonnull then Some (STATUS_INVALID_ARGUMENT, None)
      else if \<not> allocator_header_valid region (allocator_header region) m
      then Some (STATUS_INVALID_STATE, None)
      else allocator_span_walk (the region) m ptr 0)"

end
