(* ===== verification/AllocatorOps.thy ===== *)
theory AllocatorOps
  imports Allocator
begin

text \<open>
  The operations of src/core/allocator.c that change or check the heap: initialization,
  validation, allocation and free, with their locking, the thread-local deadlock diagnostics and
  every early return. The pointer \<open>link\<close> of the free-list walk is the region offset of the
  \<open>OffsetPtr\<close> cell it points at: a shard's list head or a block's \<open>next_free\<close> field.
\<close>

section \<open>Initialization\<close>

function allocator_init_mutexes :: "env \<Rightarrow> nat \<Rightarrow> world \<Rightarrow> bool \<times> world" where
  "allocator_init_mutexes E shard w =
     (if \<not> shard < unat SHARD_COUNT then (True, w)
      else
        let (rc, w1) = pthread_mutex_init E (shard_mutex_at shard) w in
        if rc \<noteq> 0
        then (False, fold (\<lambda>i w. pthread_mutex_destroy (shard_mutex_at i) w) [0..<shard] w1)
        else allocator_init_mutexes E (Suc shard) w1)"
  by pat_completeness auto
termination
  by (relation "measure (\<lambda>(E, shard, w). 4 - shard)") auto

function allocator_init_blocks ::
    "ShmRegion \<Rightarrow> u64 \<Rightarrow> u64 \<Rightarrow> nat \<Rightarrow> mem \<Rightarrow> bool \<times> mem" where
  "allocator_init_blocks rg heap_offset heap_size shard m =
     (if \<not> shard < unat SHARD_COUNT then (True, m)
      else
        let shard_heap_offset =
              allocator_shard_heap_offset heap_offset heap_size (of_nat shard);
            shard_heap_size = allocator_shard_heap_size heap_size;
            m1 = st64 m (shard_head_at shard) shard_heap_offset
        in case allocator_block_from_offset rg shard_heap_offset of
             None \<Rightarrow> (False, m1)
           | Some block \<Rightarrow>
               let b = roff rg block;
                   m2 = set_bh_size b shard_heap_size m1;
                   m3 = set_bh_next_free b offset_ptr_null m2;
                   m4 = set_bh_flags b BLOCK_FREE m3;
                   m5 = set_bh_shard b (of_nat shard) m4;
                   m6 = set_bh_payload_offset b 0 m5
               in allocator_init_blocks rg heap_offset heap_size (Suc shard) m6)"
  by pat_completeness auto
termination
  by (relation "measure (\<lambda>(rg, ho, hs, shard, m). 4 - shard)") auto

declare allocator_init_mutexes.simps [simp del]
declare allocator_init_blocks.simps [simp del]

definition allocator_write_header :: "u64 \<Rightarrow> u64 \<Rightarrow> mem \<Rightarrow> mem" where
  "allocator_write_header heap_offset heap_size m =
     (let m1 = st64 m (allocator_metadata_offset + AH_magic) ALLOCATOR_MAGIC;
          m2 = st32 m1 (allocator_metadata_offset + AH_version) ALLOCATOR_VERSION;
          m3 = st32 m2 (allocator_metadata_offset + AH_shard_count) SHARD_COUNT;
          m4 = st64 m3 (allocator_metadata_offset + AH_heap_offset) heap_offset;
          m5 = st64 m4 (allocator_metadata_offset + AH_heap_size) heap_size
      in st64 m5 (allocator_metadata_offset + AH_failures) 0)"

definition allocator_init :: "env \<Rightarrow> ShmRegion option \<Rightarrow> world \<Rightarrow> OffsetStoreStatus result" where
  "allocator_init E region w =
     (if region = None then Some (STATUS_INVALID_ARGUMENT, w)
      else do {
        (status, w1) \<leftarrow> shm_region_allocator_lock E region w;
        let unlock = (\<lambda>w. snd (shm_region_allocator_unlock E region w));
        if status \<noteq> STATUS_OK then Some (STATUS_SYSTEM_ERROR, w1)
        else case allocator_region_offsets region of
          None \<Rightarrow> Some (STATUS_OUT_OF_MEMORY, unlock w1)
        | Some (heap_offset, heap_size) \<Rightarrow>
            if heap_size < allocator_min_block_size * ucast SHARD_COUNT
            then Some (STATUS_OUT_OF_MEMORY, unlock w1)
            else if allocator_header_mut region = None
            then Some (STATUS_INVALID_STATE, unlock w1)
            else if allocator_header_valid region (allocator_header_mut region) (bytes w1)
            then Some (STATUS_ALREADY_EXISTS, unlock w1)
            else if rc_mutexattr_init E \<noteq> 0 then Some (STATUS_SYSTEM_ERROR, unlock w1)
            else if rc_mutexattr_setpshared E \<noteq> 0 then Some (STATUS_SYSTEM_ERROR, unlock w1)
            else
              let w2 = set_bytes (allocator_write_header heap_offset heap_size (bytes w1)) w1;
                  (ok, w3) = allocator_init_mutexes E 0 w2
              in if \<not> ok then Some (STATUS_SYSTEM_ERROR, unlock w3)
                 else
                   let (ok', m') =
                         allocator_init_blocks (the region) heap_offset heap_size 0 (bytes w3);
                       w4 = set_bytes m' w3
                   in if \<not> ok'
                      then Some (STATUS_INVALID_STATE,
                                 unlock (fold (\<lambda>i w. pthread_mutex_destroy (shard_mutex_at i) w)
                                           [0..<unat SHARD_COUNT] w4))
                      else
                        let (st, w5) = shm_region_allocator_unlock E region w4
                        in if st \<noteq> STATUS_OK then Some (STATUS_SYSTEM_ERROR, w5)
                           else Some (STATUS_OK, w5)
      })"

section \<open>Validation\<close>

function allocator_validate_blocks :: "ShmRegion \<Rightarrow> mem \<Rightarrow> u64 \<Rightarrow> u64 \<Rightarrow> u64 option" where
  "allocator_validate_blocks rg m traversed block_count =
     (if \<not> traversed < ah_heap_size m then Some block_count
      else case allocator_block_from_offset rg (ah_heap_offset m + traversed) of
             None \<Rightarrow> None
           | Some block \<Rightarrow>
               let blk = get_block m (roff rg block) in
               if bh_size blk < SIZEOF_AllocatorBlockHeader
                  \<or> ah_heap_size m - traversed < bh_size blk then None
               else if bh_flags blk \<noteq> 0 \<and> bh_flags blk \<noteq> BLOCK_FREE then None
               else if SHARD_COUNT \<le> bh_shard blk then None
               else allocator_validate_blocks rg m (traversed + bh_size blk) (block_count + 1))"
  by pat_completeness auto
termination
proof (relation "measure (\<lambda>(rg, m, traversed, c). unat (ah_heap_size m) - unat traversed)", goal_cases)
  case (2 rg m traversed c block blk)
  then have "bh_size blk \<noteq> 0" by auto
  with 2 show ?case by (auto simp: walk_measure(1))
qed auto

function allocator_validate_free_list ::
    "ShmRegion \<Rightarrow> mem \<Rightarrow> u32 \<Rightarrow> OffsetPtr \<Rightarrow> u64 \<Rightarrow> u64 option" where
  "allocator_validate_free_list rg m shard free_cursor block_count =
     (if offset_ptr_is_null free_cursor then Some block_count
      else if block_count = 0 then None
      else
        let sho = allocator_shard_heap_offset (ah_heap_offset m) (ah_heap_size m) shard;
            shs = allocator_shard_heap_size (ah_heap_size m)
        in if free_cursor < sho \<or> sho + shs \<le> free_cursor then None
           else case allocator_block_from_offset rg free_cursor of
                  None \<Rightarrow> None
                | Some block \<Rightarrow>
                    let blk = get_block m (roff rg block) in
                    if bh_flags blk AND BLOCK_FREE = 0 then None
                    else if bh_shard blk \<noteq> shard then None
                    else allocator_validate_free_list rg m shard (bh_next_free blk) (block_count - 1))"
  by pat_completeness auto
termination
  by (relation "measure (\<lambda>(rg, m, shard, cur, c). unat c)")
     (auto simp: unat_minus_one unat_gt_0)

declare allocator_validate_blocks.simps [simp del]
declare allocator_validate_free_list.simps [simp del]

fun allocator_validate_shards :: "ShmRegion \<Rightarrow> mem \<Rightarrow> nat list \<Rightarrow> u64 \<Rightarrow> u64 option" where
  "allocator_validate_shards rg m [] block_count = Some block_count"
| "allocator_validate_shards rg m (shard # shards) block_count =
     (case allocator_validate_free_list rg m (of_nat shard) (ah_head m shard) block_count of
        None \<Rightarrow> None
      | Some block_count' \<Rightarrow> allocator_validate_shards rg m shards block_count')"

definition allocator_validate :: "ShmRegion option \<Rightarrow> mem \<Rightarrow> OffsetStoreStatus" where
  "allocator_validate region m =
     (if region = None then STATUS_INVALID_ARGUMENT
      else if \<not> allocator_header_valid region (allocator_header region) m then STATUS_INVALID_STATE
      else case allocator_validate_blocks (the region) m 0 0 of
             None \<Rightarrow> STATUS_INVALID_STATE
           | Some block_count \<Rightarrow>
               (case allocator_validate_shards (the region) m [0..<unat SHARD_COUNT] block_count of
                  None \<Rightarrow> STATUS_INVALID_STATE
                | Some _ \<Rightarrow> STATUS_OK))"

section \<open>Allocation\<close>

text \<open>What the walk of one shard's free list comes to: a payload, an early return, or nothing
  that fits.\<close>

datatype alloc_outcome =
    AllocOk u64
  | AllocFail OffsetStoreStatus
  | AllocNone

text \<open>Taking a block: the split or whole-block unlink, then the block header, the prefix and the
  payload pointer. \<open>None\<close> when the remainder block does not resolve.\<close>

definition allocator_take_block ::
    "ShmRegion \<Rightarrow> u32 \<Rightarrow> nat \<Rightarrow> OffsetPtr \<Rightarrow> u64 \<Rightarrow> u64 \<Rightarrow> u64 \<Rightarrow> mem \<Rightarrow> (u64 \<times> mem) option" where
  "allocator_take_block rg try_shard link current_offset block payload_offset required_size m =
     (let b = roff rg block;
          remaining_size = bh_size (get_block m b) - required_size;
          taken =
            (if allocator_min_block_size \<le> remaining_size then
               (let next_block_offset = current_offset + required_size in
                case allocator_block_from_offset rg next_block_offset of
                  None \<Rightarrow> None
                | Some next_block \<Rightarrow>
                    let n = roff rg next_block;
                        m1 = set_bh_size n remaining_size m;
                        m2 = set_bh_next_free n (bh_next_free (get_block m1 b)) m1;
                        m3 = set_bh_flags n BLOCK_FREE m2;
                        m4 = set_bh_shard n try_shard m3;
                        m5 = set_bh_payload_offset n 0 m4;
                        m6 = st64 m5 link next_block_offset
                    in Some (set_bh_size b required_size m6))
             else Some (st64 m link (bh_next_free (get_block m b))))
      in case taken of
           None \<Rightarrow> None
         | Some m7 \<Rightarrow>
             let m8 = set_bh_flags b 0 m7;
                 m9 = set_bh_next_free b offset_ptr_null m8;
                 m10 = set_bh_shard b try_shard m9;
                 m11 = set_bh_payload_offset b (ucast payload_offset) m10;
                 prefix = block + payload_offset - SIZEOF_AllocationPrefix;
                 m12 = st64 m11 (roff rg prefix) current_offset
             in Some (block + payload_offset, m12))"

partial_function (option) allocator_alloc_walk ::
    "ShmRegion \<Rightarrow> u64 \<Rightarrow> u64 \<Rightarrow> u32 \<Rightarrow> nat \<Rightarrow> OffsetPtr \<Rightarrow> mem \<Rightarrow> (alloc_outcome \<times> mem) option" where
  "allocator_alloc_walk rg sz alignment try_shard link current_offset m =
     (if offset_ptr_is_null current_offset then Some (AllocNone, m)
      else
        let sho = allocator_shard_heap_offset (ah_heap_offset m) (ah_heap_size m) try_shard;
            shs = allocator_shard_heap_size (ah_heap_size m)
        in if current_offset < sho \<or> sho + shs \<le> current_offset
           then Some (AllocFail STATUS_INVALID_STATE, m)
           else case allocator_block_from_offset rg current_offset of
             None \<Rightarrow> Some (AllocFail STATUS_INVALID_STATE, m)
           | Some block \<Rightarrow>
               let b = roff rg block;
                   prefix_base = SIZEOF_AllocatorBlockHeader + SIZEOF_AllocationPrefix
               in case allocator_align_up (prefix_base + current_offset) alignment of
                 None \<Rightarrow> Some (AllocFail STATUS_INVALID_ARGUMENT, m)
               | Some payload_at \<Rightarrow>
                   let payload_offset = payload_at - current_offset in
                   case allocator_align_up (payload_offset + sz) ALIGNOF_max_align_t of
                     None \<Rightarrow> Some (AllocFail STATUS_INVALID_ARGUMENT, m)
                   | Some required_size \<Rightarrow>
                       if required_size \<le> bh_size (get_block m b) then
                         (case allocator_take_block rg try_shard link current_offset block
                                 payload_offset required_size m of
                            None \<Rightarrow> Some (AllocFail STATUS_INVALID_STATE, m)
                          | Some (ptr, m') \<Rightarrow> Some (AllocOk ptr, m'))
                       else
                         allocator_alloc_walk rg sz alignment try_shard (b + BH_next_free)
                           (bh_next_free (get_block m b)) m)"

text \<open>The deadlock diagnostics around acquiring a shard's mutex, and clearing the tracking.\<close>

definition log_deadlock_warning :: "string \<Rightarrow> u32 \<Rightarrow> int \<Rightarrow> world \<Rightarrow> world" where
  "log_deadlock_warning act trying_shard current_shard w =
     w\<lparr>dlog := dlog w @ [(act, trying_shard, current_shard)]\<rparr>"

text \<open>The hooks through which the tests set and read the calling thread's tracking variable.\<close>

definition test_set_held_shard :: "env \<Rightarrow> int \<Rightarrow> world \<Rightarrow> world" where
  "test_set_held_shard E val w = set_held (env_tid E) val w"

definition test_get_held_shard :: "env \<Rightarrow> world \<Rightarrow> int" where
  "test_get_held_shard E w = held_shard w (env_tid E)"

definition note_shard_lock :: "env \<Rightarrow> string \<Rightarrow> u32 \<Rightarrow> world \<Rightarrow> world" where
  "note_shard_lock E act shard w =
     (let held = held_shard w (env_tid E);
          w1 = (if held \<noteq> - 1 \<and> (of_int held :: u32) \<noteq> shard
                then log_deadlock_warning act shard held w else w)
      in set_held (env_tid E) (sint shard) w1)"

function allocator_alloc_attempts ::
    "env \<Rightarrow> ShmRegion \<Rightarrow> u64 \<Rightarrow> u64 \<Rightarrow> u32 \<Rightarrow> nat \<Rightarrow> world
       \<Rightarrow> (OffsetStoreStatus \<times> u64 option) result" where
  "allocator_alloc_attempts E rg sz alignment shard attempt w =
     (if \<not> attempt < unat SHARD_COUNT then
        Some ((STATUS_OUT_OF_MEMORY, None),
              set_bytes (st64 (bytes w) (allocator_metadata_offset + AH_failures)
                           (ah_failures (bytes w) + 1)) w)
      else
        let try_shard = (shard + of_nat attempt) mod SHARD_COUNT;
            shard_mutex = shard_mutex_at (unat try_shard);
            release = (\<lambda>w. set_held (env_tid E) (- 1) (snd (pthread_mutex_unlock E shard_mutex w)))
        in do {
          (lock_result, w1) \<leftarrow> pthread_mutex_lock E shard_mutex w;
          let w2 = note_shard_lock E ''allocator_alloc_lock'' try_shard w1;
          let w3 = (if def_EOWNERDEAD E \<and> lock_result = EOWNERDEAD
                    then snd (pthread_mutex_consistent E shard_mutex w2) else w2);
          if lock_result \<noteq> 0 then Some ((STATUS_SYSTEM_ERROR, None), w3)
          else if \<not> allocator_header_valid (Some rg) (allocator_header_mut (Some rg)) (bytes w3)
          then Some ((STATUS_INVALID_STATE, None), release w3)
          else do {
            (outcome, m') \<leftarrow>
              allocator_alloc_walk rg sz alignment try_shard (shard_head_at (unat try_shard))
                (ah_head (bytes w3) (unat try_shard)) (bytes w3);
            let w4 = release (set_bytes m' w3);
            case outcome of
              AllocOk ptr \<Rightarrow> Some ((STATUS_OK, Some ptr), w4)
            | AllocFail status \<Rightarrow> Some ((status, None), w4)
            | AllocNone \<Rightarrow> allocator_alloc_attempts E rg sz alignment shard (Suc attempt) w4
          }
        })"
  by pat_completeness auto
termination
  by (relation "measure (\<lambda>(E, rg, sz, al, shard, attempt, w). 4 - attempt)") auto

declare allocator_alloc_attempts.simps [simp del]

definition allocator_alloc ::
    "env \<Rightarrow> ShmRegion option \<Rightarrow> u64 \<Rightarrow> u64 \<Rightarrow> bool \<Rightarrow> world
       \<Rightarrow> (OffsetStoreStatus \<times> u64 option) result" where
  "allocator_alloc E region sz alignment out_nonnull w =
     (if region = None \<or> \<not> out_nonnull \<or> sz = 0 then Some ((STATUS_INVALID_ARGUMENT, None), w)
      else
        let alignment' = (if alignment < ALIGNOF_max_align_t then ALIGNOF_max_align_t else alignment)
        in case allocator_align_up sz ALIGNOF_max_align_t of
             None \<Rightarrow> Some ((STATUS_INVALID_ARGUMENT, None), w)
           | Some sz' \<Rightarrow>
               if allocator_header_mut region = None
                  \<or> \<not> allocator_header_valid region (allocator_header_mut region) (bytes w)
               then Some ((STATUS_INVALID_STATE, None), w)
               else allocator_alloc_attempts E (the region) sz' alignment'
                      (allocator_select_shard sz') 0 w)"

section \<open>Free\<close>

definition allocator_free ::
    "env \<Rightarrow> ShmRegion option \<Rightarrow> u64 \<Rightarrow> world \<Rightarrow> OffsetStoreStatus result" where
  "allocator_free E region ptr w =
     (case region of
        None \<Rightarrow> Some (STATUS_INVALID_ARGUMENT, w)
      | Some rg \<Rightarrow>
          if ptr = 0 then Some (STATUS_INVALID_ARGUMENT, w)
          else if allocator_header_mut region = None
                  \<or> \<not> allocator_header_valid region (allocator_header_mut region) (bytes w)
          then Some (STATUS_INVALID_STATE, w)
          else
            let block_offset = ld64 (bytes w) (roff rg (ptr - SIZEOF_AllocationPrefix)) in
            case allocator_block_from_offset rg block_offset of
              None \<Rightarrow> Some (STATUS_INVALID_STATE, w)
            | Some block \<Rightarrow>
                let blk = get_block (bytes w) (roff rg block); shard = bh_shard blk in
                if bh_flags blk AND BLOCK_FREE \<noteq> 0 then Some (STATUS_INVALID_STATE, w)
                else if SHARD_COUNT \<le> shard then Some (STATUS_INVALID_STATE, w)
                else
                  let shard_mutex = shard_mutex_at (unat shard);
                      unlock = (\<lambda>w. snd (pthread_mutex_unlock E shard_mutex w))
                  in do {
                    (lock_result, w1) \<leftarrow> pthread_mutex_lock E shard_mutex w;
                    let w2 = note_shard_lock E ''allocator_free_lock'' shard w1;
                    let w3 = (if def_EOWNERDEAD E \<and> lock_result = EOWNERDEAD
                              then snd (pthread_mutex_consistent E shard_mutex w2) else w2);
                    if lock_result \<noteq> 0 then Some (STATUS_SYSTEM_ERROR, w3)
                    else if \<not> allocator_header_valid region (allocator_header_mut region) (bytes w3)
                    then Some (STATUS_INVALID_STATE, unlock w3)
                    else case allocator_block_from_offset rg block_offset of
                      None \<Rightarrow> Some (STATUS_INVALID_STATE, unlock w3)
                    | Some block' \<Rightarrow>
                        let b = roff rg block';
                            expected_payload =
                              block' + ucast (bh_payload_offset (get_block (bytes w3) b))
                        in if expected_payload \<noteq> ptr
                           then Some (STATUS_INVALID_ARGUMENT, unlock w3)
                           else
                             let m1 = set_bh_flags b BLOCK_FREE (bytes w3);
                                 m2 = set_bh_payload_offset b 0 m1;
                                 m3 = set_bh_next_free b (ah_head m2 (unat shard)) m2;
                                 m4 = st64 m3 (shard_head_at (unat shard)) block_offset
                             in Some (STATUS_OK,
                                      set_held (env_tid E) (- 1) (unlock (set_bytes m4 w3)))
                  })"

end
