(* ===== verification/AllocatorInv.thy ===== *)
theory AllocatorInv
  imports AllocatorOps
begin

text \<open>
  The heap invariant of the allocator and its frame lemmas. A shard's part of the heap is tiled
  by its blocks, its free list visits exactly its free blocks, once each, and every live block
  carries the prefix that leads \<open>allocator_free\<close> from the payload back to the block. The
  predicates \<open>tiles\<close> and \<open>chain\<close> relate the bytes of the region to the lists of block
  offsets; the frame lemmas say which bytes they depend on.
\<close>

section \<open>Reading and writing block headers\<close>

lemma get_block_same_on: "same_on m m' b (b + 28) \<Longrightarrow> get_block m' b = get_block m b"
  by (auto simp: get_block_def intro!: ld64_same_on ld32_same_on elim: same_on_sub)

lemma get_block_setters [simp]:
  "get_block (set_bh_size b v m) b = (get_block m b)\<lparr>bh_size := v\<rparr>"
  "get_block (set_bh_next_free b v m) b = (get_block m b)\<lparr>bh_next_free := v\<rparr>"
  "get_block (set_bh_flags b f m) b = (get_block m b)\<lparr>bh_flags := f\<rparr>"
  "get_block (set_bh_shard b f m) b = (get_block m b)\<lparr>bh_shard := f\<rparr>"
  "get_block (set_bh_payload_offset b f m) b = (get_block m b)\<lparr>bh_payload_offset := f\<rparr>"
  by (simp_all add: get_block_def set_bh_size_def set_bh_next_free_def set_bh_flags_def
      set_bh_shard_def set_bh_payload_offset_def)

lemma get_block_setters_other [simp, frame]:
  assumes "b + 28 \<le> c \<or> c + 28 \<le> b"
  shows "get_block (set_bh_size b v m) c = get_block m c"
    and "get_block (set_bh_next_free b v m) c = get_block m c"
    and "get_block (set_bh_flags b f m) c = get_block m c"
    and "get_block (set_bh_shard b f m) c = get_block m c"
    and "get_block (set_bh_payload_offset b f m) c = get_block m c"
  using assms by (auto simp: get_block_def set_bh_size_def set_bh_next_free_def set_bh_flags_def
      set_bh_shard_def set_bh_payload_offset_def)

lemma get_block_st64_other [simp, frame]:
  "a + 8 \<le> b \<or> b + 28 \<le> a \<Longrightarrow> get_block (st64 m a v) b = get_block m b"
  by (auto simp: get_block_def)

lemma get_block_st64_next:
  "get_block (st64 m (b + 8) v) b = (get_block m b)\<lparr>bh_next_free := v\<rparr>"
  by (simp add: get_block_def)

lemma ld64_setters_other [simp, frame]:
  assumes "a + 8 \<le> b \<or> b + 28 \<le> a"
  shows "ld64 (set_bh_size b v m) a = ld64 m a"
    and "ld64 (set_bh_next_free b v m) a = ld64 m a"
    and "ld64 (set_bh_flags b f m) a = ld64 m a"
    and "ld64 (set_bh_shard b f m) a = ld64 m a"
    and "ld64 (set_bh_payload_offset b f m) a = ld64 m a"
  using assms by (auto simp: set_bh_size_def set_bh_next_free_def set_bh_flags_def
      set_bh_shard_def set_bh_payload_offset_def)

lemma ld32_setters_other [simp, frame]:
  assumes "a + 4 \<le> b \<or> b + 28 \<le> a"
  shows "ld32 (set_bh_size b v m) a = ld32 m a"
    and "ld32 (set_bh_next_free b v m) a = ld32 m a"
    and "ld32 (set_bh_flags b f m) a = ld32 m a"
    and "ld32 (set_bh_shard b f m) a = ld32 m a"
    and "ld32 (set_bh_payload_offset b f m) a = ld32 m a"
  using assms by (auto simp: set_bh_size_def set_bh_next_free_def set_bh_flags_def
      set_bh_shard_def set_bh_payload_offset_def)

lemma setters_outside:
  assumes "x < b \<or> b + 28 \<le> x"
  shows "set_bh_size b v m x = m x"
    and "set_bh_next_free b v m x = m x"
    and "set_bh_flags b f m x = m x"
    and "set_bh_shard b f m x = m x"
    and "set_bh_payload_offset b f m x = m x"
  using assms by (auto simp: set_bh_size_def set_bh_next_free_def set_bh_flags_def
      set_bh_shard_def set_bh_payload_offset_def st64_def st32_def wr_def)

lemma roff_base [simp]: "roff rg (rg_base rg + p) = unat p"
  by (simp add: roff_def)

lemma metadata_offset [simp]: "allocator_metadata_offset = 2496"
  by (simp add: allocator_metadata_offset_def shm_region_header_size_def unat_of_nat)

section \<open>Tilings and chains\<close>

abbreviation bsz :: "mem \<Rightarrow> nat \<Rightarrow> nat" where
  "bsz m b \<equiv> unat (bh_size (get_block m b))"

fun tiles :: "mem \<Rightarrow> nat \<Rightarrow> nat \<Rightarrow> nat list \<Rightarrow> bool" where
  "tiles m lo hi [] \<longleftrightarrow> lo = hi"
| "tiles m lo hi (b # bs) \<longleftrightarrow> b = lo \<and> 56 \<le> bsz m b \<and> tiles m (lo + bsz m b) hi bs"

text \<open>A path of the \<open>next_free\<close> links from \<open>p\<close> through the blocks \<open>fs\<close> to \<open>q\<close>.\<close>

fun path :: "mem \<Rightarrow> OffsetPtr \<Rightarrow> nat list \<Rightarrow> OffsetPtr \<Rightarrow> bool" where
  "path m p [] q \<longleftrightarrow> p = q"
| "path m p (f # fs) q \<longleftrightarrow> p \<noteq> 0 \<and> unat p = f \<and> path m (bh_next_free (get_block m f)) fs q"

abbreviation chain :: "mem \<Rightarrow> OffsetPtr \<Rightarrow> nat list \<Rightarrow> bool" where
  "chain m p fs \<equiv> path m p fs 0"

text \<open>A live block: the payload starts after header and prefix, aligned, and the prefix holds the
  block's own offset.\<close>

definition live_ok :: "mem \<Rightarrow> nat \<Rightarrow> bool" where
  "live_ok m b \<longleftrightarrow>
     (let po = unat (bh_payload_offset (get_block m b)) in
      40 \<le> po \<and> po + 16 \<le> bsz m b \<and> (b + po) mod 16 = 0 \<and> unat (ld64 m (b + po - 8)) = b)"

definition blk_ok :: "mem \<Rightarrow> nat \<Rightarrow> nat \<Rightarrow> bool" where
  "blk_ok m s b \<longleftrightarrow>
     unat (bh_shard (get_block m b)) = s \<and>
     (bh_flags (get_block m b) = 1 \<or> bh_flags (get_block m b) = 0 \<and> live_ok m b)"

definition is_free :: "mem \<Rightarrow> nat \<Rightarrow> bool" where
  "is_free m b \<longleftrightarrow> bh_flags (get_block m b) = 1"

definition shard_ok ::
    "mem \<Rightarrow> nat \<Rightarrow> nat \<Rightarrow> OffsetPtr \<Rightarrow> nat \<Rightarrow> nat list \<Rightarrow> nat list \<Rightarrow> bool" where
  "shard_ok m lo hi head s bs fs \<longleftrightarrow>
     tiles m lo hi bs \<and> chain m head fs \<and> distinct fs \<and>
     set fs = {b \<in> set bs. is_free m b} \<and> (\<forall>b \<in> set bs. blk_ok m s b)"

lemma tiles_le: "tiles m lo hi bs \<Longrightarrow> lo \<le> hi"
  by (induction bs arbitrary: lo) force+

lemma tiles_mem:
  assumes "tiles m lo hi bs" and "b \<in> set bs"
  shows "lo \<le> b" and "b + bsz m b \<le> hi" and "56 \<le> bsz m b"
proof -
  have "lo \<le> b \<and> b + bsz m b \<le> hi \<and> 56 \<le> bsz m b"
    using assms
  proof (induction bs arbitrary: lo)
    case Nil
    then show ?case by simp
  next
    case (Cons c bs)
    then show ?case using tiles_le [of m "lo + bsz m c" hi bs] by fastforce
  qed
  then show "lo \<le> b" "b + bsz m b \<le> hi" "56 \<le> bsz m b" by auto
qed

lemma tiles_append:
  "tiles m lo hi (xs @ ys) \<longleftrightarrow> (\<exists>mid. tiles m lo mid xs \<and> tiles m mid hi ys)"
  by (induction xs arbitrary: lo) auto

lemma tiles_disjoint:
  assumes "tiles m lo hi bs" and "b \<in> set bs" and "c \<in> set bs" and "b \<noteq> c"
  shows "b + bsz m b \<le> c \<or> c + bsz m c \<le> b"
  using assms
proof (induction bs arbitrary: lo)
  case Nil
  then show ?case by simp
next
  case (Cons d bs)
  then have t: "tiles m (lo + bsz m d) hi bs" and d: "d = lo" by auto
  show ?case
  proof (cases "b = d \<or> c = d")
    case True
    then show ?thesis using Cons.prems tiles_mem(1) [OF t] d by auto
  next
    case False
    then show ?thesis using Cons.IH [OF t] Cons.prems by auto
  qed
qed

lemma tiles_distinct: "tiles m lo hi bs \<Longrightarrow> distinct bs"
proof (induction bs arbitrary: lo)
  case Nil
  then show ?case by simp
next
  case (Cons d bs)
  then show ?case using tiles_mem(1) [of m "lo + bsz m d" hi bs] by fastforce
qed

lemma tiles_unique: "tiles m lo hi bs \<Longrightarrow> tiles m lo hi cs \<Longrightarrow> bs = cs"
proof (induction bs arbitrary: lo cs)
  case Nil
  then show ?case
  proof (cases cs)
    case (Cons c cs')
    then show ?thesis using Nil tiles_le [of m "lo + bsz m c" hi cs'] by fastforce
  qed simp
next
  case (Cons b bs)
  then show ?case using tiles_le [of m "lo + bsz m b" hi bs] by (cases cs) auto
qed

lemma tiles_cong:
  "(\<And>b. b \<in> set bs \<Longrightarrow> bh_size (get_block m' b) = bh_size (get_block m b)) \<Longrightarrow>
     tiles m' lo hi bs = tiles m lo hi bs"
  by (induction bs arbitrary: lo) auto

lemma path_cong:
  "(\<And>f. f \<in> set fs \<Longrightarrow> bh_next_free (get_block m' f) = bh_next_free (get_block m f)) \<Longrightarrow>
     path m' p fs q = path m p fs q"
  by (induction fs arbitrary: p) auto

lemma path_append: "path m p (xs @ ys) q \<longleftrightarrow> (\<exists>r. path m p xs r \<and> path m r ys q)"
  by (induction xs arbitrary: p) auto

lemma chain_unique: "chain m p fs \<Longrightarrow> chain m p gs \<Longrightarrow> fs = gs"
proof (induction fs arbitrary: p gs)
  case Nil
  then show ?case by (cases gs) auto
next
  case (Cons f fs)
  then show ?case by (cases gs) auto
qed

lemma path_relink:
  assumes "path m p (pre @ [l]) q"
    and "\<And>f. f \<in> set pre \<Longrightarrow> bh_next_free (get_block m' f) = bh_next_free (get_block m f)"
    and "bh_next_free (get_block m' l) = v"
  shows "path m' p (pre @ [l]) v"
proof -
  obtain r where r: "path m p pre r" "r \<noteq> 0" "unat r = l"
    using assms(1) by (auto simp: path_append)
  have "path m' p pre r" using r(1) path_cong [OF assms(2)] by blast
  with r assms(3) show ?thesis by (auto simp: path_append)
qed

section \<open>What the predicates depend on\<close>

lemma live_ok_same_on:
  assumes "same_on m m' b (b + bsz m b)" and "56 \<le> bsz m b"
  shows "live_ok m' b = live_ok m b"
proof -
  have g: "get_block m' b = get_block m b"
    using assms by (intro get_block_same_on) (auto elim: same_on_sub)
  have "ld64 m' (b + po - 8) = ld64 m (b + po - 8)" if "40 \<le> po" "po + 16 \<le> bsz m b" for po
    using that assms by (intro ld64_same_on) (auto elim!: same_on_sub)
  then show ?thesis unfolding live_ok_def g Let_def by auto
qed

lemma blk_ok_same_on:
  assumes "same_on m m' b (b + bsz m b)" and "56 \<le> bsz m b"
  shows "blk_ok m' s b = blk_ok m s b" and "get_block m' b = get_block m b"
proof -
  show g: "get_block m' b = get_block m b"
    using assms by (intro get_block_same_on) (auto elim: same_on_sub)
  show "blk_ok m' s b = blk_ok m s b"
    using live_ok_same_on [OF assms] g by (simp add: blk_ok_def)
qed

lemma shard_ok_same_on:
  assumes "same_on m m' lo hi" and "shard_ok m lo hi head s bs fs"
  shows "shard_ok m' lo hi head s bs fs"
proof -
  have t: "tiles m lo hi bs" and f: "set fs = {b \<in> set bs. is_free m b}"
    using assms(2) by (simp_all add: shard_ok_def)
  have "same_on m m' b (b + bsz m b)" "56 \<le> bsz m b" if "b \<in> set bs" for b
    using tiles_mem [OF t that] assms(1) by (auto elim: same_on_sub)
  note eq = blk_ok_same_on [OF this]
  have "tiles m' lo hi bs = tiles m lo hi bs" by (rule tiles_cong) (simp add: eq)
  moreover have "chain m' head fs = chain m head fs" by (rule path_cong) (use f eq in auto)
  ultimately show ?thesis using assms(2) eq by (auto simp: shard_ok_def is_free_def)
qed

section \<open>The heap invariant\<close>

text \<open>A mapped region: \<open>mmap\<close> returned a non-null range of the address space, and the size
  came from a positive \<open>off_t\<close>.\<close>

definition region_ok :: "ShmRegion \<Rightarrow> bool" where
  "region_ok rg \<longleftrightarrow> mapping_ok (rg_base rg) (rg_size rg) \<and> unat (rg_size rg) < 2 ^ 63"

definition shard_len :: "mem \<Rightarrow> nat" where
  "shard_len m = unat (ah_heap_size m) div 4"

definition shard_lo :: "mem \<Rightarrow> nat \<Rightarrow> nat" where
  "shard_lo m s = unat (ah_heap_offset m) + s * shard_len m"

text \<open>The allocator's header is valid, and the heap starts where \<open>allocator_init\<close> puts it, on the first
  multiple of 16 behind the header.\<close>

definition header_inv :: "ShmRegion \<Rightarrow> mem \<Rightarrow> bool" where
  "header_inv rg m \<longleftrightarrow>
     region_ok rg \<and> allocator_header_valid (Some rg) (allocator_header (Some rg)) m \<and>
     unat (ah_heap_offset m) = 2736 \<and> 56 \<le> shard_len m"

definition heap_inv :: "ShmRegion \<Rightarrow> mem \<Rightarrow> bool" where
  "heap_inv rg m \<longleftrightarrow>
     header_inv rg m \<and>
     (\<forall>s < 4. \<exists>bs fs. shard_ok m (shard_lo m s) (shard_lo m s + shard_len m) (ah_head m s) s bs fs)"

lemma region_okD:
  assumes "region_ok rg"
  shows "rg_base rg \<noteq> 0" and "unat (rg_base rg) + unat (rg_size rg) < 18446744073709551616"
    and "unat (rg_size rg) < 9223372036854775808"
  using assms by (simp_all add: region_ok_def mapping_ok_def)

lemma header_mut_eq: "allocator_header_mut = allocator_header"
  by (intro ext) (simp add: allocator_header_mut_def allocator_header_def)

lemma header_invD:
  assumes "header_inv rg m"
  shows "unat (ah_heap_offset m) + unat (ah_heap_size m) = unat (rg_size rg)"
    and "shard_lo m 3 + shard_len m \<le> unat (rg_size rg)"
    and "allocator_header (Some rg) \<noteq> None"
proof -
  have r: "region_ok rg" and v: "allocator_header_valid (Some rg) (allocator_header (Some rg)) m"
    using assms by (simp_all add: header_inv_def)
  show "allocator_header (Some rg) \<noteq> None" using v by (auto simp: allocator_header_valid_def split: if_splits)
  have e: "ah_heap_offset m + ah_heap_size m = rg_size rg"
    and l: "unat (ah_heap_offset m) < unat (rg_size rg)" "unat (ah_heap_size m) \<le> unat (rg_size rg)"
    using v by (auto simp: allocator_header_valid_def word_less_nat_alt word_le_nat_alt split: if_splits)
  have "unat (ah_heap_offset m + ah_heap_size m) = unat (ah_heap_offset m) + unat (ah_heap_size m)"
    using l region_okD [OF r] by (intro unat_add_nowrap) simp
  with e show s: "unat (ah_heap_offset m) + unat (ah_heap_size m) = unat (rg_size rg)" by simp
  have "4 * shard_len m \<le> unat (ah_heap_size m)" by (simp add: shard_len_def)
  with s show "shard_lo m 3 + shard_len m \<le> unat (rg_size rg)" by (simp add: shard_lo_def)
qed

lemma shard_range:
  assumes "header_inv rg m" and "s < 4"
  shows "2728 \<le> shard_lo m s" and "shard_lo m s + shard_len m \<le> unat (rg_size rg)"
    and "s' < 4 \<Longrightarrow> s' \<noteq> s \<Longrightarrow>
           shard_lo m s + shard_len m \<le> shard_lo m s' \<or> shard_lo m s' + shard_len m \<le> shard_lo m s"
proof -
  show "2728 \<le> shard_lo m s" using assms(1) by (simp add: header_inv_def shard_lo_def)
  have "s * shard_len m \<le> 3 * shard_len m" using assms(2) by (intro mult_le_mono1) simp
  then show "shard_lo m s + shard_len m \<le> unat (rg_size rg)"
    using header_invD(2) [OF assms(1)] unfolding shard_lo_def by linarith
  assume "s' < 4" and "s' \<noteq> s"
  then consider "Suc s \<le> s'" | "Suc s' \<le> s" by linarith
  then show "shard_lo m s + shard_len m \<le> shard_lo m s' \<or> shard_lo m s' + shard_len m \<le> shard_lo m s"
  proof cases
    case 1
    from mult_le_mono1 [OF this, of "shard_len m"] show ?thesis by (simp add: shard_lo_def)
  next
    case 2
    from mult_le_mono1 [OF this, of "shard_len m"] show ?thesis by (simp add: shard_lo_def)
  qed
qed

lemma shard_words:
  assumes "header_inv rg m" and "unat sh = s" and "s < 4"
  shows "unat (allocator_shard_heap_offset (ah_heap_offset m) (ah_heap_size m) sh) = shard_lo m s"
    and "unat (allocator_shard_heap_size (ah_heap_size m)) = shard_len m"
    and "unat (allocator_shard_heap_offset (ah_heap_offset m) (ah_heap_size m) sh
                + allocator_shard_heap_size (ah_heap_size m)) = shard_lo m s + shard_len m"
proof -
  have r: "shard_lo m s + shard_len m < 18446744073709551616"
    using shard_range(2) [OF assms(1,3)] unat_less_2p64 [of "rg_size rg"] by linarith
  show l: "unat (allocator_shard_heap_size (ah_heap_size m)) = shard_len m"
    by (simp add: allocator_shard_heap_size_def shard_len_def unat_div)
  have us: "unat (ucast sh :: u64) = s"
    using assms(2,3) by (simp add: unsigned_ucast_eq take_bit_nat_eq_self)
  have "unat (ucast sh * (ah_heap_size m div 4) :: u64) = s * shard_len m"
    using r us l by (subst unat_mult_lem [THEN iffD1])
      (simp_all add: shard_lo_def allocator_shard_heap_size_def)
  with r show o: "unat (allocator_shard_heap_offset (ah_heap_offset m) (ah_heap_size m) sh) = shard_lo m s"
    by (simp add: allocator_shard_heap_offset_def Let_def shard_lo_def unat_add_nowrap)
  show "unat (allocator_shard_heap_offset (ah_heap_offset m) (ah_heap_size m) sh
                + allocator_shard_heap_size (ah_heap_size m)) = shard_lo m s + shard_len m"
    using o l r by (simp add: unat_add_nowrap)
qed

lemma block_from_offset_ok:
  assumes "region_ok rg" and "p \<noteq> 0" and "unat p + 32 \<le> unat (rg_size rg)"
  shows "allocator_block_from_offset rg p = Some (rg_base rg + p)"
  using assms region_okD(1) [OF assms(1)]
  by (simp add: allocator_block_from_offset_def resolve_iff)

end
