(* ===== verification/AllocatorAlloc.thy ===== *)
theory AllocatorAlloc
  imports AllocatorInv
begin

text \<open>
  Allocation. First the arithmetic: \<open>allocator_align_up\<close> rounds up to a power of two and fails
  exactly on a bad alignment or overflow. Then the free-list walk is shown equal to a first-fit
  search over the chain of free blocks, and taking a block (split or whole) is shown to keep the
  shard invariant and every byte of every other block.
\<close>

section \<open>Alignment\<close>

lemma unat_pow2: "k < 64 \<Longrightarrow> unat ((2 :: u64) ^ k) = 2 ^ k"
proof -
  assume "k < 64"
  then have "(2::nat) ^ k < 2 ^ 64" by (intro power_strict_increasing) simp_all
  then have "unat (of_nat (2 ^ k) :: u64) = 2 ^ k" by (intro unat_of_nat_small) simp
  then show ?thesis by simp
qed

lemma unat_mask: "k < 64 \<Longrightarrow> unat (mask k :: u64) = 2 ^ k - 1"
proof -
  assume k: "k < 64"
  have "(2 :: u64) ^ k \<noteq> 0" using k by simp
  then show ?thesis using unat_pow2 [OF k] by (simp add: mask_eq_decr_exp unat_minus_one)
qed

lemma align_up_pow2:
  assumes a: "unat a = 2 ^ k" and v: "unat v + 2 ^ k \<le> 2 ^ 64"
  shows "\<exists>r. allocator_align_up v a = Some r \<and> unat r = round_up (unat v) (2 ^ k)"
proof -
  have "(2::nat) ^ k < 2 ^ 64" using unat_less_2p64 [of a] a by simp
  then have k: "k < 64" by (rule power_less_imp_less_exp [rotated]) simp
  have a2: "a = 2 ^ k" using a unat_pow2 [OF k] by (simp add: word_eq_iff_unat)
  have m: "a - 1 = mask k" by (simp add: a2 mask_eq_decr_exp)
  have nz: "a \<noteq> 0" using a by auto
  have and0: "a AND (a - 1) = 0"
    unfolding m by (rule bit_word_eqI) (auto simp: a2 bit_simps)
  have um: "unat (a - 1) = 2 ^ k - 1" using m unat_mask [OF k] by simp
  have p: "(0::nat) < 2 ^ k" by simp
  have "unat ((- 1) - (a - 1) :: u64) = 2 ^ 64 - 2 ^ k"
  proof -
    have "unat ((- 1) :: u64) = 2 ^ 64 - 1" by (simp add: unsigned_minus_1_eq_mask mask_eq_exp_minus_1)
    then show ?thesis using um k \<open>(2::nat) ^ k < 2 ^ 64\<close> by (subst unat_diff_le) auto
  qed
  then have lt: "\<not> (- 1) - (a - 1) < v" using v by (simp add: word_less_nat_alt)
  let ?r = "(v + (a - 1)) AND NOT (a - 1)"
  have "unat (v + (a - 1)) = unat v + (2 ^ k - 1)"
    using um v p by (subst unat_add_nowrap) simp_all
  then have "unat ?r = (unat v + (2 ^ k - 1)) div 2 ^ k * 2 ^ k"
    unfolding m by (simp add: unat_and_not_mask)
  then have "unat ?r = round_up (unat v) (2 ^ k)" by (simp add: round_up_def)
  with nz and0 lt show ?thesis by (auto simp: allocator_align_up_def)
qed

lemma align_up_SomeD:
  assumes "allocator_align_up v a = Some r"
  obtains k where "unat a = 2 ^ k" and "unat v + 2 ^ k \<le> 2 ^ 64" and "unat r = round_up (unat v) (2 ^ k)"
proof -
  have nz: "a \<noteq> 0" and and0: "a AND (a - 1) = 0" and lt: "\<not> (- 1) - (a - 1) < v"
    using assms by (auto simp: allocator_align_up_def split: if_splits)
  obtain k where k: "unat a = 2 ^ k" "k < 64" using word_pow2_of_and_pred [OF nz and0] by auto
  have "unat (a - 1) = 2 ^ k - 1" using k nz by (simp add: unat_minus_one)
  moreover have "unat ((- 1) :: u64) = 2 ^ 64 - 1" by (simp add: unsigned_minus_1_eq_mask mask_eq_exp_minus_1)
  moreover have "(2::nat) ^ k \<le> 2 ^ 64" using k(2) by (intro power_increasing) simp_all
  ultimately have "unat ((- 1) - (a - 1) :: u64) = 2 ^ 64 - 2 ^ k"
    by (subst unat_diff_le) auto
  with lt have v: "unat v \<le> 2 ^ 64 - 2 ^ k" by (simp add: word_less_nat_alt)
  with \<open>(2::nat) ^ k \<le> 2 ^ 64\<close> have v': "unat v + 2 ^ k \<le> 2 ^ 64" by linarith
  with align_up_pow2 [OF k(1) v'] assms show ?thesis using that [OF k(1) v'] by auto
qed

text \<open>\<open>allocator_align_up\<close> succeeds exactly when the alignment is a power of two and the
  rounded value does not overflow, and then returns the least multiple of the alignment that
  is at least the value.\<close>

theorem allocator_align_up_spec:
  "(allocator_align_up v a = Some r) \<longleftrightarrow>
     (\<exists>k. unat a = 2 ^ k \<and> unat v + 2 ^ k \<le> 2 ^ 64 \<and>
          unat r mod unat a = 0 \<and> unat v \<le> unat r \<and> unat r < unat v + unat a)"
proof
  assume "allocator_align_up v a = Some r"
  then show "\<exists>k. unat a = 2 ^ k \<and> unat v + 2 ^ k \<le> 2 ^ 64 \<and>
          unat r mod unat a = 0 \<and> unat v \<le> unat r \<and> unat r < unat v + unat a"
    by (elim align_up_SomeD) (auto simp: round_up_ge round_up_less)
next
  assume "\<exists>k. unat a = 2 ^ k \<and> unat v + 2 ^ k \<le> 2 ^ 64 \<and>
          unat r mod unat a = 0 \<and> unat v \<le> unat r \<and> unat r < unat v + unat a"
  then obtain k where k: "unat a = 2 ^ k" "unat v + 2 ^ k \<le> 2 ^ 64"
    and r: "unat r mod 2 ^ k = 0" "unat v \<le> unat r" "unat r < unat v + 2 ^ k" by auto
  obtain q where q: "allocator_align_up v a = Some q" "unat q = round_up (unat v) (2 ^ k)"
    using align_up_pow2 [OF k] by blast
  let ?p = "(2::nat) ^ k"
  obtain x y where x: "unat r = ?p * x" and y: "unat q = ?p * y"
    using r(1) round_up_mod [of "unat v" ?p] q(2) by (metis mod_0_imp_dvd dvdE)
  have "unat v \<le> unat q" "unat q < unat v + ?p" using q(2) by (simp_all add: round_up_ge round_up_less)
  with r x y have "?p * x < ?p * (y + 1)" "?p * y < ?p * (x + 1)" by (simp_all add: algebra_simps)
  then have "x = y" by (simp only: mult_less_cancel1) simp
  with x y have "r = q" by (simp add: word_eq_iff_unat)
  with q show "allocator_align_up v a = Some r" by simp
qed

section \<open>Taking a block\<close>

text \<open>The bytes a taken block may change: its header and prefix, the remainder's header, the link.\<close>

definition taken_outside :: "nat \<Rightarrow> nat \<Rightarrow> nat \<Rightarrow> nat \<Rightarrow> nat \<Rightarrow> bool" where
  "taken_outside b po n link x \<longleftrightarrow>
     (x < b \<or> b + 28 \<le> x) \<and> (x < b + po - 8 \<or> b + po \<le> x) \<and>
     (x < n \<or> n + 28 \<le> x) \<and> (x < link \<or> link + 8 \<le> x)"

lemma take_block_geometry:
  assumes "region_ok rg" and "unat cur = b" and "b + bsz m b \<le> unat (rg_size rg)"
    and "40 \<le> unat po" and "unat po + 16 \<le> unat req" and "unat req \<le> bsz m b"
  shows "unat (cur + req) = b + unat req" and "roff rg (rg_base rg + cur + po - 8) = b + unat po - 8"
    and "unat (bh_size (get_block m b) - req) = bsz m b - unat req"
proof -
  have s: "unat (rg_size rg) < 9223372036854775808" using region_okD(3) [OF assms(1)] .
  show "unat (cur + req) = b + unat req"
    using assms s by (subst unat_add_nowrap) simp_all
  have "rg_base rg + cur + po - 8 - rg_base rg = cur + po - 8" by simp
  moreover have "unat (cur + po) = b + unat po" using assms s by (subst unat_add_nowrap) simp_all
  moreover then have "unat (cur + po - 8) = b + unat po - 8"
    using assms by (subst unat_diff_le) simp_all
  ultimately show "roff rg (rg_base rg + cur + po - 8) = b + unat po - 8"
    unfolding roff_def by (simp only:)
  show "unat (bh_size (get_block m b) - req) = bsz m b - unat req"
    using assms(6) by (rule unat_diff_le)
qed

lemma take_block_split:
  assumes rg: "region_ok rg" and cur: "unat cur = b" and sz: "b + bsz m b \<le> unat (rg_size rg)"
    and po: "40 \<le> unat po" "unat po + 16 \<le> unat req" "unat req + 56 \<le> bsz m b"
    and link: "link + 8 \<le> b \<or> b + bsz m b \<le> link"
  obtains m' where
    "allocator_take_block rg sh link cur (rg_base rg + cur) po req m = Some (rg_base rg + cur + po, m')"
    "get_block m' b = \<lparr>bh_size = req, bh_next_free = 0, bh_flags = 0, bh_shard = sh,
                       bh_payload_offset = ucast po\<rparr>"
    "get_block m' (b + unat req) =
       \<lparr>bh_size = bh_size (get_block m b) - req, bh_next_free = bh_next_free (get_block m b),
        bh_flags = 1, bh_shard = sh, bh_payload_offset = 0\<rparr>"
    "ld64 m' link = cur + req" "ld64 m' (b + unat po - 8) = cur"
    "\<forall>x. taken_outside b (unat po) (b + unat req) link x \<longrightarrow> m' x = m x"
proof -
  let ?n = "b + unat req"
  have le: "unat req \<le> bsz m b" using po by simp
  note geo = take_block_geometry [OF rg cur sz po(1,2) le]
  have nxt: "allocator_block_from_offset rg (cur + req) = Some (rg_base rg + (cur + req))"
    using geo(1) po sz by (intro block_from_offset_ok [OF rg]) auto
  have rem: "allocator_min_block_size \<le> bh_size (get_block m b) - req"
    using geo(3) po by (simp add: allocator_min_block_size_def word_le_nat_alt)
  have rb: "roff rg (rg_base rg + cur) = b" using cur by simp
  have lb: "link + 8 \<le> b + unat req \<or> b + unat req + 28 \<le> link" using link po by linarith
  let ?m6 = "st64 (set_bh_payload_offset ?n 0 (set_bh_shard ?n sh (set_bh_flags ?n 1
    (set_bh_next_free ?n (bh_next_free (get_block m b)) (set_bh_size ?n (bh_size (get_block m b) - req) m)))))
    link (cur + req)"
  let ?m = "st64 (set_bh_payload_offset b (ucast po) (set_bh_shard b sh (set_bh_next_free b 0
    (set_bh_flags b 0 (set_bh_size b req ?m6))))) (b + unat po - 8) cur"
  have t: "allocator_take_block rg sh link cur (rg_base rg + cur) po req m
      = Some (rg_base rg + cur + po, ?m)"
    unfolding allocator_take_block_def Let_def rb nxt
    using rem geo(2) po by (simp add: geo(1) offset_ptr_null_def)
  show ?thesis
  proof (rule that [OF t])
    show "get_block ?m b = \<lparr>bh_size = req, bh_next_free = 0, bh_flags = 0, bh_shard = sh,
                       bh_payload_offset = ucast po\<rparr>"
      using po link by simp
    show "get_block ?m ?n = \<lparr>bh_size = bh_size (get_block m b) - req,
        bh_next_free = bh_next_free (get_block m b), bh_flags = 1, bh_shard = sh,
        bh_payload_offset = 0\<rparr>"
      using po lb by (cases "get_block m ?n") simp
    show "ld64 ?m link = cur + req" using po link by (subst ld64_st64_other) auto
    show "ld64 ?m (b + unat po - 8) = cur" by simp
    show "\<forall>x. taken_outside b (unat po) ?n link x \<longrightarrow> ?m x = m x"
      using po by (simp add: taken_outside_def st64_outside setters_outside)
  qed
qed

lemma take_block_whole:
  assumes rg: "region_ok rg" and cur: "unat cur = b" and sz: "b + bsz m b \<le> unat (rg_size rg)"
    and po: "40 \<le> unat po" "unat po + 16 \<le> unat req" "unat req \<le> bsz m b"
    and small: "bsz m b < unat req + 56"
    and link: "link + 8 \<le> b \<or> b + bsz m b \<le> link"
  obtains m' where
    "allocator_take_block rg sh link cur (rg_base rg + cur) po req m = Some (rg_base rg + cur + po, m')"
    "get_block m' b = \<lparr>bh_size = bh_size (get_block m b), bh_next_free = 0, bh_flags = 0,
                       bh_shard = sh, bh_payload_offset = ucast po\<rparr>"
    "ld64 m' link = bh_next_free (get_block m b)" "ld64 m' (b + unat po - 8) = cur"
    "\<forall>x. taken_outside b (unat po) b link x \<longrightarrow> m' x = m x"
proof -
  note geo = take_block_geometry [OF rg cur sz po]
  have rem: "\<not> allocator_min_block_size \<le> bh_size (get_block m b) - req"
    using geo(3) small po by (simp add: allocator_min_block_size_def word_le_nat_alt)
  have rb: "roff rg (rg_base rg + cur) = b" using cur by simp
  have l28: "link + 8 \<le> b \<or> b + 28 \<le> link" using link po by linarith
  let ?m = "st64 (set_bh_payload_offset b (ucast po) (set_bh_shard b sh (set_bh_next_free b 0
    (set_bh_flags b 0 (st64 m link (bh_next_free (get_block m b))))))) (b + unat po - 8) cur"
  have t: "allocator_take_block rg sh link cur (rg_base rg + cur) po req m
      = Some (rg_base rg + cur + po, ?m)"
    unfolding allocator_take_block_def Let_def rb
    using rem geo(2) by (simp add: offset_ptr_null_def)
  show ?thesis
  proof (rule that [OF t])
    show "get_block ?m b = \<lparr>bh_size = bh_size (get_block m b), bh_next_free = 0, bh_flags = 0,
                       bh_shard = sh, bh_payload_offset = ucast po\<rparr>"
      using po l28 by (cases "get_block m b") simp
    show "ld64 ?m link = bh_next_free (get_block m b)" using po link by (subst ld64_st64_other) auto
    show "ld64 ?m (b + unat po - 8) = cur" by simp
    show "\<forall>x. taken_outside b (unat po) b link x \<longrightarrow> ?m x = m x"
      using po by (simp add: taken_outside_def st64_outside setters_outside)
  qed
qed

section \<open>Taking a block keeps the shard\<close>

text \<open>The cell that points at the block after \<open>pre\<close>: the list head's, or the last block's link.\<close>

definition link_at :: "nat \<Rightarrow> nat list \<Rightarrow> nat" where
  "link_at hc pre = (if pre = [] then hc else last pre + 8)"

lemma get_block_next_upd:
  assumes "\<And>x. b \<le> x \<and> x < b + 8 \<or> b + 16 \<le> x \<and> x < b + 28 \<Longrightarrow> m' x = m x"
  shows "get_block m' b = (get_block m b)\<lparr>bh_next_free := ld64 m' (b + 8)\<rparr>"
proof -
  have "ld64 m' b = ld64 m b" "ld32 m' (b + 16) = ld32 m (b + 16)"
    "ld32 m' (b + 20) = ld32 m (b + 20)" "ld32 m' (b + 24) = ld32 m (b + 24)"
    using assms by (auto intro!: ld64_same_on ld32_same_on same_onI)
  then show ?thesis by (simp add: get_block_def)
qed

lemma take_others:
  assumes ok: "shard_ok m lo hi head s bs (pre @ b # post)" and hc: "hc + 8 \<le> lo"
    and link: "link = link_at hc pre"
    and n: "b \<le> n" "n + 28 \<le> b + bsz m b" and po: "40 \<le> po" "po \<le> bsz m b"
    and out: "\<forall>x. taken_outside b po n link x \<longrightarrow> m' x = m x"
    and c: "c \<in> set bs" "c \<noteq> b"
  shows "get_block m' c = (if pre \<noteq> [] \<and> c = last pre
           then (get_block m c)\<lparr>bh_next_free := ld64 m' link\<rparr> else get_block m c)"
    and "blk_ok m' s c"
proof -
  have t: "tiles m lo hi bs" and f: "set (pre @ b # post) = {b \<in> set bs. is_free m b}"
    and d: "distinct (pre @ b # post)" and k: "blk_ok m s c"
    using ok c by (simp_all add: shard_ok_def)
  have b: "b \<in> set bs" using f by auto
  have cb: "c + bsz m c \<le> b \<or> b + bsz m b \<le> c"
    using tiles_disjoint [OF t c(1) b] c(2) by auto
  have cs: "lo \<le> c" "56 \<le> bsz m c" using tiles_mem [OF t c(1)] by auto
  have far: "taken_outside b po n link x"
    if "c \<le> x" "x < c + bsz m c" "x < link \<or> link + 8 \<le> x" for x
    using that cb n po by (auto simp: taken_outside_def)
  have "get_block m' c = (if pre \<noteq> [] \<and> c = last pre
           then (get_block m c)\<lparr>bh_next_free := ld64 m' link\<rparr> else get_block m c) \<and> blk_ok m' s c"
  proof (cases "pre \<noteq> [] \<and> c = last pre")
    case True
    then have lk: "link = c + 8" using link by (simp add: link_at_def)
    have g: "get_block m' c = (get_block m c)\<lparr>bh_next_free := ld64 m' (c + 8)\<rparr>"
      using far lk cs by (intro get_block_next_upd out [rule_format]) auto
    have "c \<in> set (pre @ b # post)" using True by auto
    with f have "is_free m c" by blast
    with k g have "blk_ok m' s c" by (simp add: blk_ok_def is_free_def)
    with g lk True show ?thesis by simp
  next
    case False
    have "link + 8 \<le> c \<or> c + bsz m c \<le> link"
    proof (cases "pre = []")
      case True
      then show ?thesis using link hc cs by (simp add: link_at_def)
    next
      case nn: False
      then have "last pre \<in> set (pre @ b # post)" by simp
      with f have l: "last pre \<in> set bs" by blast
      have "last pre \<noteq> c" using False nn by auto
      then show ?thesis
        using tiles_disjoint [OF t l c(1)] tiles_mem(3) [OF t l] link nn by (auto simp: link_at_def)
    qed
    then have "same_on m m' c (c + bsz m c)" using far by (intro same_onI out [rule_format]) auto
    from blk_ok_same_on [OF this cs(2)] k False show ?thesis by auto
  qed
  then show "get_block m' c = (if pre \<noteq> [] \<and> c = last pre
           then (get_block m c)\<lparr>bh_next_free := ld64 m' link\<rparr> else get_block m c)"
    and "blk_ok m' s c" by auto
qed

lemma take_paths:
  assumes ok: "shard_ok m lo hi head s bs (pre @ b # post)" and hc: "hc + 8 \<le> lo"
    and link: "link = link_at hc pre"
    and n: "b \<le> n" "n + 28 \<le> b + bsz m b" and po: "40 \<le> po" "po \<le> bsz m b"
    and out: "\<forall>x. taken_outside b po n link x \<longrightarrow> m' x = m x"
  shows "path m' (if pre = [] then ld64 m' link else head) pre (ld64 m' link)"
    and "path m' (bh_next_free (get_block m b)) post 0"
proof -
  have ch: "path m head (pre @ b # post) 0" and d: "distinct (pre @ b # post)"
    and f: "set (pre @ b # post) = {b \<in> set bs. is_free m b}"
    using ok by (simp_all add: shard_ok_def)
  note others = take_others(1) [OF ok hc link n po out]
  have mem: "c \<in> set bs" "c \<noteq> b" if "c \<in> set pre \<or> c \<in> set post" for c
    using that f d by auto
  have lp: "pre \<noteq> [] \<Longrightarrow> last pre \<notin> set post"
    using d last_in_set [of pre] by (meson disjoint_iff distinct_append list.set_intros(2))
  have "path m' (bh_next_free (get_block m b)) post 0 = path m (bh_next_free (get_block m b)) post 0"
  proof (rule path_cong)
    fix c assume "c \<in> set post"
    then show "bh_next_free (get_block m' c) = bh_next_free (get_block m c)"
      using others [OF mem, of c] lp by auto
  qed
  then show "path m' (bh_next_free (get_block m b)) post 0" using ch by (auto simp: path_append)
  show "path m' (if pre = [] then ld64 m' link else head) pre (ld64 m' link)"
  proof (cases pre rule: rev_cases)
    case Nil
    then show ?thesis by simp
  next
    case (snoc us l)
    have "path m' head (us @ [l]) (ld64 m' link)"
    proof (rule path_relink)
      show "path m head (us @ [l]) (of_nat b)"
      proof -
        obtain r where "path m head pre r" "r \<noteq> 0" "unat r = b" using ch by (auto simp: path_append)
        then show ?thesis using snoc by (metis of_nat_unat ucast_id)
      qed
      show "bh_next_free (get_block m' c) = bh_next_free (get_block m c)" if "c \<in> set us" for c
        using others [OF mem, of c] that snoc d by auto
      show "bh_next_free (get_block m' l) = ld64 m' link"
        using others [OF mem, of l] snoc by auto
    qed
    with snoc show ?thesis by simp
  qed
qed

lemma take_split_shard_ok:
  assumes ok: "shard_ok m lo hi head s (xs @ b # ys) (pre @ b # post)" and hc: "hc + 8 \<le> lo"
    and link: "link = link_at hc pre" and sh: "unat sh = s"
    and nw: "unat nxt = b + req"
    and po: "40 \<le> po" "po + 16 \<le> req" "req + 56 \<le> bsz m b" "(b + po) mod 16 = 0"
    and gb: "get_block m' b = \<lparr>bh_size = reqw, bh_next_free = 0, bh_flags = 0, bh_shard = sh,
                       bh_payload_offset = pow\<rparr>" "unat reqw = req" "unat pow = po"
    and gn: "get_block m' (b + req) = \<lparr>bh_size = remw, bh_next_free = bh_next_free (get_block m b),
        bh_flags = 1, bh_shard = sh, bh_payload_offset = 0\<rparr>" "unat remw = bsz m b - req"
    and lk: "ld64 m' link = nxt" and pf: "unat (ld64 m' (b + po - 8)) = b"
    and out: "\<forall>x. taken_outside b po (b + req) link x \<longrightarrow> m' x = m x"
  shows "shard_ok m' lo hi (if pre = [] then nxt else head) s
           (xs @ b # (b + req) # ys) (pre @ (b + req) # post)"
proof -
  let ?n = "b + req"
  have t: "tiles m lo hi (xs @ b # ys)" and d: "distinct (pre @ b # post)"
    and f: "set (pre @ b # post) = {c \<in> set (xs @ b # ys). is_free m c}"
    using ok by (simp_all add: shard_ok_def)
  have n: "b \<le> ?n" "?n + 28 \<le> b + bsz m b" and pb: "po \<le> bsz m b" using po by simp_all
  note others = take_others [OF ok hc link n po(1) pb out]
  note paths = take_paths [OF ok hc link n po(1) pb out]
  have nb: "c \<noteq> b" if "c \<in> set xs \<or> c \<in> set ys" for c using tiles_distinct [OF t] that by auto
  have sz: "bh_size (get_block m' c) = bh_size (get_block m c)" "is_free m' c = is_free m c"
      "blk_ok m' s c" if "c \<in> set xs \<or> c \<in> set ys" for c
    using others [of c] that nb by (auto simp: is_free_def)
  have nn: "?n \<notin> set (xs @ b # ys)"
  proof
    assume "?n \<in> set (xs @ b # ys)"
    with tiles_disjoint [OF t this, of b] tiles_mem(3) [OF t this] po show False by auto
  qed
  have "tiles m' lo hi (xs @ b # ?n # ys)"
  proof -
    have "tiles m lo b xs" "tiles m (b + bsz m b) hi ys" using t by (auto simp: tiles_append)
    then have "tiles m' lo b xs" "tiles m' (b + bsz m b) hi ys"
      using tiles_cong [of xs m' m] tiles_cong [of ys m' m] sz by auto
    then show ?thesis using po by (auto simp: tiles_append gb gn)
  qed
  moreover have "path m' (if pre = [] then nxt else head) (pre @ ?n # post) 0"
  proof -
    have "nxt \<noteq> 0" using nw po by auto
    then show ?thesis using paths lk nw by (auto simp: path_append gn)
  qed
  moreover have "distinct (pre @ ?n # post)"
  proof -
    have "set pre \<union> set post \<subseteq> set (xs @ b # ys)" using f by auto
    then show ?thesis using d nn by auto
  qed
  moreover have "set (pre @ ?n # post) = {c \<in> set (xs @ b # ?n # ys). is_free m' c}"
  proof -
    have "\<not> is_free m' b" "is_free m' ?n" by (simp_all add: is_free_def gb gn)
    moreover have "c \<in> set pre \<union> set post \<longleftrightarrow> c \<in> set xs \<union> set ys \<and> is_free m c" for c
    proof -
      have "c \<in> set (pre @ b # post) \<longleftrightarrow> c \<in> set (xs @ b # ys) \<and> is_free m c" using f by blast
      then show ?thesis using d nb by auto
    qed
    ultimately show ?thesis using sz(2) by auto
  qed
  moreover have "blk_ok m' s b"
    using po sh pf by (simp add: blk_ok_def live_ok_def gb)
  moreover have "blk_ok m' s ?n" using sh by (simp add: blk_ok_def gn)
  ultimately show ?thesis using sz by (auto simp: shard_ok_def)
qed

lemma take_whole_shard_ok:
  assumes ok: "shard_ok m lo hi head s bs (pre @ b # post)" and hc: "hc + 8 \<le> lo"
    and link: "link = link_at hc pre" and sh: "unat sh = s"
    and po: "40 \<le> po" "po + 16 \<le> bsz m b" "(b + po) mod 16 = 0"
    and gb: "get_block m' b = \<lparr>bh_size = bh_size (get_block m b), bh_next_free = 0, bh_flags = 0,
                       bh_shard = sh, bh_payload_offset = pow\<rparr>" "unat pow = po"
    and lk: "ld64 m' link = bh_next_free (get_block m b)" and pf: "unat (ld64 m' (b + po - 8)) = b"
    and out: "\<forall>x. taken_outside b po b link x \<longrightarrow> m' x = m x"
  shows "shard_ok m' lo hi (if pre = [] then bh_next_free (get_block m b) else head) s
           bs (pre @ post)"
proof -
  have t: "tiles m lo hi bs" and d: "distinct (pre @ b # post)"
    and f: "set (pre @ b # post) = {c \<in> set bs. is_free m c}"
    using ok by (simp_all add: shard_ok_def)
  have b: "b \<in> set bs" using f by auto
  have n: "b \<le> b" "b + 28 \<le> b + bsz m b" and pb: "po \<le> bsz m b"
    using po tiles_mem(3) [OF t b] by simp_all
  note others = take_others [OF ok hc link n po(1) pb out]
  note paths = take_paths [OF ok hc link n po(1) pb out]
  have sz: "bh_size (get_block m' c) = bh_size (get_block m c)" if "c \<in> set bs" for c
    using others [OF that] gb by (cases "c = b") auto
  have fr: "is_free m' c = (is_free m c \<and> c \<noteq> b)" "blk_ok m' s c" if "c \<in> set bs" for c
  proof -
    show "is_free m' c = (is_free m c \<and> c \<noteq> b)"
      using others [OF that] gb by (cases "c = b") (auto simp: is_free_def)
    show "blk_ok m' s c"
      using others(2) [OF that] po sh pf gb by (cases "c = b") (simp_all add: blk_ok_def live_ok_def)
  qed
  have "tiles m' lo hi bs" using t tiles_cong [of bs m' m] sz by simp
  moreover have "path m' (if pre = [] then bh_next_free (get_block m b) else head) (pre @ post) 0"
    using paths lk by (auto simp: path_append)
  moreover have "distinct (pre @ post)" using d by auto
  moreover have "set (pre @ post) = {c \<in> set bs. is_free m' c}"
    using f d fr(1) by (auto simp: set_eq_iff)
  ultimately show ?thesis using fr(2) by (simp add: shard_ok_def)
qed

section \<open>First fit\<close>

text \<open>Where the payload of a request starts in a block at offset \<open>f\<close>, and how many bytes of the
  block the request takes.\<close>

definition payload_off :: "nat \<Rightarrow> nat \<Rightarrow> nat" where
  "payload_off al f = round_up (40 + f) al - f"

definition need :: "nat \<Rightarrow> nat \<Rightarrow> nat \<Rightarrow> nat" where
  "need al sz f = round_up (payload_off al f + sz) 16"

definition fits :: "mem \<Rightarrow> nat \<Rightarrow> nat \<Rightarrow> nat \<Rightarrow> bool" where
  "fits m al sz f \<longleftrightarrow> need al sz f \<le> bsz m f"

text \<open>A request the word arithmetic of the walk handles without wrap-around: the alignment is a
  power of two between 16 and \<open>2 ^ 31\<close>, the size a positive multiple of 16 up to \<open>2 ^ 62\<close>.\<close>

definition req_ok :: "u64 \<Rightarrow> u64 \<Rightarrow> bool" where
  "req_ok sz al \<longleftrightarrow>
     (\<exists>k. 4 \<le> k \<and> k \<le> 31 \<and> unat al = 2 ^ k) \<and> unat sz mod 16 = 0 \<and> 0 < unat sz \<and> unat sz \<le> 2 ^ 62"

lemma req_okD:
  assumes "req_ok sz al"
  obtains k where "unat al = 2 ^ k" "16 dvd unat al" "16 \<le> unat al" "unat al \<le> 2147483648"
    "16 \<le> unat sz" "16 dvd unat sz" "unat sz \<le> 4611686018427387904"
proof -
  obtain k where k: "4 \<le> k" "k \<le> 31" "unat al = 2 ^ k" using assms by (auto simp: req_ok_def)
  have "(2::nat) ^ 4 \<le> 2 ^ k" "(2::nat) ^ k \<le> 2 ^ 31" 
    using power_increasing [of 4 k "2::nat"] power_increasing [of k 31 "2::nat"] k by simp_all
  moreover have "(2::nat) ^ 4 dvd 2 ^ k" using k by (intro le_imp_power_dvd)
  moreover have "16 dvd unat sz" using assms by (simp add: req_ok_def mod_eq_0_iff_dvd)
  moreover then have "16 \<le> unat sz" using assms by (intro dvd_imp_le) (auto simp: req_ok_def)
  ultimately show ?thesis using that [OF k(3)] k(3) assms by (simp add: req_ok_def)
qed

lemma payload_off_bounds:
  assumes "0 < al"
  shows "40 \<le> payload_off al f" and "payload_off al f < 40 + al"
    and "(f + payload_off al f) mod al = 0" and "f + payload_off al f = round_up (40 + f) al"
  using round_up_ge [OF assms, of "40 + f"] round_up_less [OF assms, of "40 + f"]
    round_up_mod [of "40 + f" al] unfolding payload_off_def by simp_all

lemma need_bounds:
  "payload_off al f + sz \<le> need al sz f" "need al sz f < payload_off al f + sz + 16"
  using round_up_ge [of 16 "payload_off al f + sz"] round_up_less [of 16 "payload_off al f + sz"]
  by (simp_all add: need_def)

text \<open>The two alignments of the walk, in words, compute \<open>payload_off\<close> and \<open>need\<close>.\<close>

lemma walk_align:
  assumes r: "req_ok sz al" and f: "unat cur = f" "f < 2 ^ 63"
  shows "\<exists>p q. allocator_align_up (32 + 8 + cur) al = Some p \<and>
      allocator_align_up (p - cur + sz) 16 = Some q \<and>
      unat (p - cur) = payload_off (unat al) f \<and> unat q = need (unat al) (unat sz) f"
proof -
  obtain k where a: "unat al = 2 ^ k" "16 \<le> unat al" "unat al \<le> 2147483648"
    and s: "16 \<le> unat sz" "unat sz \<le> 4611686018427387904"
    using req_okD [OF r] by metis
  have al: "0 < unat al" using a by simp
  have c: "unat (32 + 8 + cur) = 40 + f" using f by (subst unat_add_nowrap) simp_all
  then have "unat (32 + 8 + cur) + 2 ^ k \<le> 2 ^ 64" using f a by simp
  then obtain p where p: "allocator_align_up (32 + 8 + cur) al = Some p"
    and up: "unat p = round_up (40 + f) (unat al)"
    using align_up_pow2 [OF a(1)] c a(1) by metis
  have "f \<le> unat p" using round_up_ge [OF al, of "40 + f"] up by simp
  then have po: "unat (p - cur) = payload_off (unat al) f"
    using f up by (simp add: unat_diff_le payload_off_def)
  have "unat (p - cur + sz) = payload_off (unat al) f + unat sz"
    using po payload_off_bounds(2) [OF al, of f] s a by (subst unat_add_nowrap) simp_all
  moreover have "unat (p - cur + sz) + 2 ^ 4 \<le> 2 ^ 64"
    using calculation payload_off_bounds(2) [OF al, of f] s a by simp
  ultimately obtain q where "allocator_align_up (p - cur + sz) 16 = Some q"
    "unat q = need (unat al) (unat sz) f"
    using align_up_pow2 [of "16" 4 "p - cur + sz"] by (auto simp: need_def)
  with p po show ?thesis by blast
qed

text \<open>What taking block \<open>b\<close> out of a shard does: the shard stays well formed, \<open>b\<close> becomes a live
  block of at least \<open>req\<close> bytes with its payload at \<open>po\<close>, the other live blocks keep all their
  bytes, and nothing outside the shard's range and its head cell changes.\<close>

definition shard_took ::
    "nat \<Rightarrow> nat \<Rightarrow> nat \<Rightarrow> nat \<Rightarrow> mem \<Rightarrow> nat list \<Rightarrow> nat \<Rightarrow> nat \<Rightarrow> nat \<Rightarrow> mem \<Rightarrow> nat list \<Rightarrow> nat list \<Rightarrow> bool"
  where
  "shard_took hc lo hi s m bs b po req m' bs' fs' \<longleftrightarrow>
     shard_ok m' lo hi (ld64 m' hc) s bs' fs' \<and>
     unat (bh_payload_offset (get_block m' b)) = po \<and> req \<le> bsz m' b \<and>
     {c \<in> set bs'. \<not> is_free m' c} = insert b {c \<in> set bs. \<not> is_free m c} \<and>
     (\<forall>c \<in> set bs. \<not> is_free m c \<longrightarrow> same_on m m' c (c + bsz m c)) \<and>
     (\<forall>x. (x < lo \<or> hi \<le> x) \<and> (x < hc \<or> hc + 8 \<le> x) \<longrightarrow> m' x = m x) \<and>
     (\<forall>c \<in> set bs. is_free m c \<and> c \<noteq> b \<longrightarrow> c \<in> set bs' \<and> is_free m' c \<and> bsz m' c = bsz m c) \<and>
     (req + 56 \<le> bsz m b \<longrightarrow> (\<exists>c \<in> set bs'. is_free m' c \<and> bsz m b \<le> req + bsz m' c))"

lemma take_link:
  assumes ok: "shard_ok m lo hi head s bs (pre @ b # post)" and hc: "hc + 8 \<le> lo"
    and link: "link = link_at hc pre"
  shows "link + 8 \<le> b \<or> b + bsz m b \<le> link"
    and "c \<in> set bs \<Longrightarrow> \<not> is_free m c \<Longrightarrow> link + 8 \<le> c \<or> c + bsz m c \<le> link"
    and "pre \<noteq> [] \<Longrightarrow> lo \<le> link" and "pre \<noteq> [] \<Longrightarrow> link + 8 \<le> hi"
proof -
  have t: "tiles m lo hi bs" and f: "set (pre @ b # post) = {c \<in> set bs. is_free m c}"
    and d: "distinct (pre @ b # post)"
    using ok by (simp_all add: shard_ok_def)
  have b: "b \<in> set bs" using f by auto
  have lp: "last pre \<in> set bs \<and> last pre \<noteq> b \<and> is_free m (last pre)" if "pre \<noteq> []"
    using f d last_in_set [OF that] by auto
  show "pre \<noteq> [] \<Longrightarrow> lo \<le> link" "pre \<noteq> [] \<Longrightarrow> link + 8 \<le> hi"
    using lp tiles_mem [OF t, of "last pre"] link by (auto simp: link_at_def)
  show "link + 8 \<le> b \<or> b + bsz m b \<le> link"
  proof (cases "pre = []")
    case True
    then show ?thesis using hc tiles_mem(1) [OF t b] link by (auto simp: link_at_def)
  next
    case False
    then show ?thesis using lp tiles_disjoint [OF t _ b, of "last pre"] tiles_mem(3) [OF t, of "last pre"] link
      by (auto simp: link_at_def)
  qed
  show "link + 8 \<le> c \<or> c + bsz m c \<le> link" if c: "c \<in> set bs" "\<not> is_free m c"
  proof (cases "pre = []")
    case True
    then show ?thesis using hc tiles_mem(1) [OF t c(1)] link by (auto simp: link_at_def)
  next
    case False
    with lp c have "c \<noteq> last pre" by auto
    with False show ?thesis using lp c tiles_disjoint [OF t c(1), of "last pre"]
        tiles_mem(3) [OF t, of "last pre"] link
      by (auto simp: link_at_def)
  qed
qed

lemma take_frame:
  assumes ok: "shard_ok m lo hi head s bs (pre @ b # post)" and hc: "hc + 8 \<le> lo"
    and link: "link = link_at hc pre"
    and n: "b \<le> n" "n + 28 \<le> b + bsz m b" and po: "40 \<le> po" "po \<le> bsz m b"
    and out: "\<forall>x. taken_outside b po n link x \<longrightarrow> m' x = m x"
  shows "\<forall>c \<in> set bs. \<not> is_free m c \<longrightarrow> same_on m m' c (c + bsz m c)"
    and "\<forall>x. (x < lo \<or> hi \<le> x) \<and> (x < hc \<or> hc + 8 \<le> x) \<longrightarrow> m' x = m x"
    and "ld64 m' hc = (if pre = [] then ld64 m' link else ld64 m hc)"
proof -
  have t: "tiles m lo hi bs" and f: "set (pre @ b # post) = {c \<in> set bs. is_free m c}"
    using ok by (simp_all add: shard_ok_def)
  have b: "b \<in> set bs" "is_free m b" using f by auto
  note tb = tiles_mem [OF t b(1)]
  note lk = take_link [OF ok hc link]
  show "\<forall>c \<in> set bs. \<not> is_free m c \<longrightarrow> same_on m m' c (c + bsz m c)"
  proof (intro ballI impI same_onI)
    fix c x assume c: "c \<in> set bs" "\<not> is_free m c" and x: "c \<le> x" "x < c + bsz m c"
    have "c + bsz m c \<le> b \<or> b + bsz m b \<le> c" using tiles_disjoint [OF t c(1) b(1)] b(2) c by auto
    then show "m' x = m x" using lk(2) [OF c] x n po out by (auto simp: taken_outside_def)
  qed
  have lin: "link = hc \<or> lo \<le> link \<and> link + 8 \<le> hi"
    using lk(3,4) link by (auto simp: link_at_def)
  then show "\<forall>x. (x < lo \<or> hi \<le> x) \<and> (x < hc \<or> hc + 8 \<le> x) \<longrightarrow> m' x = m x"
    using tb n po out by (auto simp: taken_outside_def)
  show "ld64 m' hc = (if pre = [] then ld64 m' link else ld64 m hc)"
  proof (cases "pre = []")
    case True
    then show ?thesis using link by (simp add: link_at_def)
  next
    case False
    then have "ld64 m' hc = ld64 m hc"
      using lk(3) hc tb n po out by (intro ld64_same_on same_onI) (auto simp: taken_outside_def)
    with False show ?thesis by simp
  qed
qed

lemma unat_ucast_32: "unat (p :: u64) < 2 ^ 32 \<Longrightarrow> unat (ucast p :: u32) = unat p"
  by (simp add: unsigned_ucast_eq take_bit_nat_eq_self)

lemma take_took_split:
  assumes rg: "region_ok rg" and hi: "hi \<le> unat (rg_size rg)"
    and ok: "shard_ok m lo hi (ld64 m hc) s (xs @ b # ys) (pre @ b # post)" and hc: "hc + 8 \<le> lo"
    and link: "link = link_at hc pre" and sh: "unat sh = s" and cur: "unat cur = b"
    and po: "40 \<le> unat po" "unat po < 2 ^ 32" "unat po + 16 \<le> unat req" "unat req + 56 \<le> bsz m b"
      "(b + unat po) mod 16 = 0"
  shows "\<exists>m' bs' fs'. allocator_take_block rg sh link cur (rg_base rg + cur) po req m
             = Some (rg_base rg + cur + po, m') \<and>
           shard_took hc lo hi s m (xs @ b # ys) b (unat po) (unat req) m' bs' fs'"
proof -
  let ?n = "b + unat req" and ?bs = "xs @ b # ys"
  have t: "tiles m lo hi ?bs" using ok by (simp add: shard_ok_def)
  have sz: "b + bsz m b \<le> unat (rg_size rg)" using tiles_mem(2) [OF t, of b] hi by simp
  have n: "b \<le> ?n" "?n + 28 \<le> b + bsz m b" and pb: "unat po \<le> bsz m b" using po by simp_all
  obtain m' where tk: "allocator_take_block rg sh link cur (rg_base rg + cur) po req m
        = Some (rg_base rg + cur + po, m')"
    and gb: "get_block m' b = \<lparr>bh_size = req, bh_next_free = 0, bh_flags = 0, bh_shard = sh,
                       bh_payload_offset = ucast po\<rparr>"
    and gn: "get_block m' ?n = \<lparr>bh_size = bh_size (get_block m b) - req,
        bh_next_free = bh_next_free (get_block m b), bh_flags = 1, bh_shard = sh, bh_payload_offset = 0\<rparr>"
    and lk: "ld64 m' link = cur + req" and pf: "ld64 m' (b + unat po - 8) = cur"
    and out: "\<forall>x. taken_outside b (unat po) ?n link x \<longrightarrow> m' x = m x"
    by (rule take_block_split [OF rg cur sz po(1,3,4) take_link(1) [OF ok hc link], of sh])
  note fr = take_frame [OF ok hc link n po(1) pb out]
  have geo: "unat (cur + req) = ?n" "unat (bh_size (get_block m b) - req) = bsz m b - unat req"
    using take_block_geometry [OF rg cur sz po(1,3)] po by auto
  have pf': "unat (ld64 m' (b + unat po - 8)) = b" using pf cur by simp
  have sok: "shard_ok m' lo hi (if pre = [] then cur + req else ld64 m hc) s
           (xs @ b # ?n # ys) (pre @ ?n # post)"
    by (rule take_split_shard_ok [OF ok hc link sh geo(1) po(1,3,4,5) gb refl unat_ucast_32 [OF po(2)]
          gn geo(2) lk pf' out])
  then have sok: "shard_ok m' lo hi (ld64 m' hc) s (xs @ b # ?n # ys) (pre @ ?n # post)"
    unfolding fr(3) lk .
  have live: "{c \<in> set (xs @ b # ?n # ys). \<not> is_free m' c} = insert b {c \<in> set ?bs. \<not> is_free m c}"
  proof -
    have "is_free m' c = is_free m c" if "c \<in> set xs \<or> c \<in> set ys" for c
    proof -
      have "c \<noteq> b" using tiles_distinct [OF t] that by auto
      then show ?thesis using take_others(1) [OF ok hc link n po(1) pb out, of c] that
        by (auto simp: is_free_def)
    qed
    moreover have "\<not> is_free m' b" "is_free m' ?n" by (simp_all add: is_free_def gb gn)
    moreover have "is_free m b" using ok by (auto simp: shard_ok_def)
    ultimately show ?thesis by auto
  qed
  have rest: "is_free m' c \<and> bsz m' c = bsz m c" if "c \<in> set ?bs" "is_free m c" "c \<noteq> b" for c
    using take_others(1) [OF ok hc link n po(1) pb out that(1,3)] that(2) by (auto simp: is_free_def)
  have left: "is_free m' ?n" "bsz m b \<le> unat req + bsz m' ?n" using geo(2) po(4) by (simp_all add: is_free_def gn)
  have "shard_took hc lo hi s m ?bs b (unat po) (unat req) m' (xs @ b # ?n # ys) (pre @ ?n # post)"
    unfolding shard_took_def
    using sok fr(1,2) live rest left by (simp add: gb unat_ucast_32 [OF po(2)])
  with tk show ?thesis by blast
qed

lemma take_took_whole:
  assumes rg: "region_ok rg" and hi: "hi \<le> unat (rg_size rg)"
    and ok: "shard_ok m lo hi (ld64 m hc) s bs (pre @ b # post)" and hc: "hc + 8 \<le> lo"
    and link: "link = link_at hc pre" and sh: "unat sh = s" and cur: "unat cur = b"
    and po: "40 \<le> unat po" "unat po < 2 ^ 32" "unat po + 16 \<le> unat req" "unat req \<le> bsz m b"
      "(b + unat po) mod 16 = 0"
    and small: "bsz m b < unat req + 56"
  shows "\<exists>m' bs' fs'. allocator_take_block rg sh link cur (rg_base rg + cur) po req m
             = Some (rg_base rg + cur + po, m') \<and>
           shard_took hc lo hi s m bs b (unat po) (unat req) m' bs' fs'"
proof -
  have t: "tiles m lo hi bs" and b: "b \<in> set bs" "is_free m b" using ok by (auto simp: shard_ok_def)
  have sz: "b + bsz m b \<le> unat (rg_size rg)" using tiles_mem(2) [OF t b(1)] hi by simp
  have n: "b \<le> b" "b + 28 \<le> b + bsz m b" and pb: "unat po \<le> bsz m b" "unat po + 16 \<le> bsz m b"
    using po by simp_all
  obtain m' where tk: "allocator_take_block rg sh link cur (rg_base rg + cur) po req m
        = Some (rg_base rg + cur + po, m')"
    and gb: "get_block m' b = \<lparr>bh_size = bh_size (get_block m b), bh_next_free = 0, bh_flags = 0,
                       bh_shard = sh, bh_payload_offset = ucast po\<rparr>"
    and lk: "ld64 m' link = bh_next_free (get_block m b)" and pf: "ld64 m' (b + unat po - 8) = cur"
    and out: "\<forall>x. taken_outside b (unat po) b link x \<longrightarrow> m' x = m x"
    by (rule take_block_whole [OF rg cur sz po(1,3,4) small take_link(1) [OF ok hc link], of sh])
  note fr = take_frame [OF ok hc link n po(1) pb(1) out]
  have pf': "unat (ld64 m' (b + unat po - 8)) = b" using pf cur by simp
  have sok: "shard_ok m' lo hi (if pre = [] then bh_next_free (get_block m b) else ld64 m hc) s
           bs (pre @ post)"
    by (rule take_whole_shard_ok [OF ok hc link sh po(1) pb(2) po(5) gb unat_ucast_32 [OF po(2)]
          lk pf' out])
  then have sok: "shard_ok m' lo hi (ld64 m' hc) s bs (pre @ post)" unfolding fr(3) lk .
  have "is_free m' c = (is_free m c \<and> c \<noteq> b)" if "c \<in> set bs" for c
    using take_others(1) [OF ok hc link n po(1) pb(1) out that] gb
    by (cases "c = b") (auto simp: is_free_def)
  then have live: "{c \<in> set bs. \<not> is_free m' c} = insert b {c \<in> set bs. \<not> is_free m c}"
    using b by auto
  have rest: "is_free m' c \<and> bsz m' c = bsz m c" if "c \<in> set bs" "is_free m c" "c \<noteq> b" for c
    using take_others(1) [OF ok hc link n po(1) pb(1) out that(1,3)] that(2) by (auto simp: is_free_def)
  have "shard_took hc lo hi s m bs b (unat po) (unat req) m' bs (pre @ post)"
    unfolding shard_took_def using sok fr(1,2) live po(4) rest small by (simp add: gb unat_ucast_32 [OF po(2)])
  with tk show ?thesis by blast
qed

lemma take_took:
  assumes rg: "region_ok rg" and hi: "hi \<le> unat (rg_size rg)"
    and ok: "shard_ok m lo hi (ld64 m hc) s bs (pre @ b # post)" and hc: "hc + 8 \<le> lo"
    and link: "link = link_at hc pre" and sh: "unat sh = s" and cur: "unat cur = b"
    and po: "40 \<le> unat po" "unat po < 2 ^ 32" "unat po + 16 \<le> unat req" "unat req \<le> bsz m b"
      "(b + unat po) mod 16 = 0"
  shows "\<exists>m' bs' fs'. allocator_take_block rg sh link cur (rg_base rg + cur) po req m
             = Some (rg_base rg + cur + po, m') \<and>
           shard_took hc lo hi s m bs b (unat po) (unat req) m' bs' fs'"
proof (cases "unat req + 56 \<le> bsz m b")
  case True
  have "b \<in> set bs" using ok by (auto simp: shard_ok_def)
  then obtain xs ys where bs: "bs = xs @ b # ys" using split_list [of b bs] by auto
  show ?thesis
    using take_took_split [OF rg hi ok [unfolded bs] hc link sh cur po(1,2,3) True po(5)] bs by simp
next
  case False
  then show ?thesis using take_took_whole [OF rg hi ok hc link sh cur po] by simp
qed

lemma request_geometry:
  assumes r: "req_ok sz al" and u: "unat po = payload_off (unat al) b" "unat req = need (unat al) (unat sz) b"
  shows "40 \<le> unat po" "unat po < 2 ^ 32" "unat po + 16 \<le> unat req" "(b + unat po) mod 16 = 0"
proof -
  obtain k where al: "16 dvd unat al" "16 \<le> unat al" "unat al \<le> 2147483648" "16 \<le> unat sz"
    using req_okD [OF r] by metis
  then have al0: "0 < unat al" by simp
  show "40 \<le> unat po" "unat po < 2 ^ 32" using payload_off_bounds(1,2) [OF al0, of b] u al by auto
  show "unat po + 16 \<le> unat req" using need_bounds(1) [of "unat al" b "unat sz"] u al by simp
  have "unat al dvd b + unat po"
    using payload_off_bounds(3) [OF al0, of b] u by (simp add: mod_eq_0_iff_dvd)
  then show "(b + unat po) mod 16 = 0" using al(1) dvd_trans by (metis mod_eq_0_iff_dvd)
qed

end
