(* ===== verification/AllocatorWalk.thy ===== *)
theory AllocatorWalk
  imports AllocatorAlloc
begin

text \<open>
  The free-list walk of \<open>allocator_alloc\<close>: under the shard invariant it ends, and it is a
  first-fit search over the chain of free blocks. The first block that fits is taken; when none
  fits the memory is unchanged.
\<close>

lemma shard_head_at_eq [simp]: "shard_head_at s = 2688 + 8 * s"
  by (simp add: shard_head_at_def)

text \<open>One iteration at a block of the chain: past a block that does not fit, or taking it.\<close>

lemma walk_step:
  assumes h: "header_inv rg m" and s: "s < 4" "unat sh = s" and r: "req_ok sz al"
    and lo: "shard_lo m s \<le> f" "f + bsz m f \<le> shard_lo m s + shard_len m" "56 \<le> bsz m f"
    and cur: "unat cur = f"
  shows "\<exists>po req. unat po = payload_off (unat al) f \<and> unat req = need (unat al) (unat sz) f \<and>
      allocator_alloc_walk rg sz al sh link cur m =
        (if fits m (unat al) (unat sz) f
         then (case allocator_take_block rg sh link cur (rg_base rg + cur) po req m of
                 None \<Rightarrow> Some (AllocFail STATUS_INVALID_STATE, m)
               | Some (ptr, m') \<Rightarrow> Some (AllocOk ptr, m'))
         else allocator_alloc_walk rg sz al sh (f + 8) (bh_next_free (get_block m f)) m)"
proof -
  have rg: "region_ok rg" using h by (simp add: header_inv_def)
  note rng = shard_range(1,2) [OF h s(1)]
  have c0: "cur \<noteq> 0" using lo rng cur by auto
  have f63: "f < 2 ^ 63" using lo rng region_okD(3) [OF rg] by simp
  obtain p q where p: "allocator_align_up (32 + 8 + cur) al = Some p"
    and q: "allocator_align_up (p - cur + sz) 16 = Some q"
    and u: "unat (p - cur) = payload_off (unat al) f" "unat q = need (unat al) (unat sz) f"
    using walk_align [OF r cur f63] by blast
  have blk: "allocator_block_from_offset rg cur = Some (rg_base rg + cur)"
    using c0 cur lo rng by (intro block_from_offset_ok [OF rg]) auto
  have inr: "\<not> cur < allocator_shard_heap_offset (ah_heap_offset m) (ah_heap_size m) sh"
    "\<not> allocator_shard_heap_offset (ah_heap_offset m) (ah_heap_size m) sh
        + allocator_shard_heap_size (ah_heap_size m) \<le> cur"
    using shard_words [OF h s(2,1)] cur lo by (simp_all add: word_less_nat_alt word_le_nat_alt)
  have fit: "q \<le> bh_size (get_block m f) \<longleftrightarrow> fits m (unat al) (unat sz) f"
    using u by (simp add: fits_def word_le_nat_alt)
  have p': "allocator_align_up (40 + cur) al = Some p" using p by simp
  have "allocator_alloc_walk rg sz al sh link cur m =
        (if fits m (unat al) (unat sz) f
         then (case allocator_take_block rg sh link cur (rg_base rg + cur) (p - cur) q m of
                 None \<Rightarrow> Some (AllocFail STATUS_INVALID_STATE, m)
               | Some (ptr, m') \<Rightarrow> Some (AllocOk ptr, m'))
         else allocator_alloc_walk rg sz al sh (f + 8) (bh_next_free (get_block m f)) m)"
    apply (subst allocator_alloc_walk.simps)
    using c0 inr blk p' q cur fit
    by (simp add: Let_def offset_ptr_is_null_def)
  with u show ?thesis by blast
qed

lemma walk_none:
  assumes h: "header_inv rg m" and s: "s < 4" "unat sh = s" and r: "req_ok sz al"
    and mem: "\<And>f. f \<in> set post \<Longrightarrow> shard_lo m s \<le> f \<and> f + bsz m f \<le> shard_lo m s + shard_len m \<and> 56 \<le> bsz m f"
    and p: "path m cur post 0" and no: "\<And>f. f \<in> set post \<Longrightarrow> \<not> fits m (unat al) (unat sz) f"
  shows "allocator_alloc_walk rg sz al sh link cur m = Some (AllocNone, m)"
  using p mem no
proof (induction post arbitrary: cur link)
  case Nil
  then show ?case by (subst allocator_alloc_walk.simps) (simp add: offset_ptr_is_null_def)
next
  case (Cons f post)
  then have cur: "unat cur = f" and nxt: "path m (bh_next_free (get_block m f)) post 0" by auto
  have "allocator_alloc_walk rg sz al sh link cur m
        = allocator_alloc_walk rg sz al sh (f + 8) (bh_next_free (get_block m f)) m"
    using walk_step [OF h s r _ _ _ cur, of link] Cons.prems(2,3) [of f] by force
  also have "\<dots> = Some (AllocNone, m)" using Cons.IH [OF nxt] Cons.prems(2,3) by simp
  finally show ?case .
qed

lemma walk_skip:
  assumes h: "header_inv rg m" and s: "s < 4" "unat sh = s" and r: "req_ok sz al"
    and mem: "\<And>f. f \<in> set us \<Longrightarrow> shard_lo m s \<le> f \<and> f + bsz m f \<le> shard_lo m s + shard_len m \<and> 56 \<le> bsz m f"
    and p: "path m cur us q" and no: "\<And>f. f \<in> set us \<Longrightarrow> \<not> fits m (unat al) (unat sz) f"
  shows "allocator_alloc_walk rg sz al sh hc cur m
       = allocator_alloc_walk rg sz al sh (link_at hc us) q m"
  using p mem no
proof (induction us arbitrary: cur hc)
  case Nil
  then show ?case by (simp add: link_at_def)
next
  case (Cons f us)
  then have cur: "unat cur = f" and nxt: "path m (bh_next_free (get_block m f)) us q" by auto
  have "allocator_alloc_walk rg sz al sh hc cur m
        = allocator_alloc_walk rg sz al sh (f + 8) (bh_next_free (get_block m f)) m"
    using walk_step [OF h s r _ _ _ cur, of hc] Cons.prems(2,3) [of f] by force
  also have "\<dots> = allocator_alloc_walk rg sz al sh (link_at (f + 8) us) q m"
    using Cons.IH [OF nxt] Cons.prems(2,3) by simp
  also have "link_at (f + 8) us = link_at hc (f # us)" by (simp add: link_at_def)
  finally show ?case .
qed

text \<open>The walk of one shard: it takes the first free block that fits, or finds that none does.\<close>

lemma walk_first_fit:
  assumes h: "header_inv rg m" and s: "s < 4" "unat sh = s" and r: "req_ok sz al"
    and ok: "shard_ok m (shard_lo m s) (shard_lo m s + shard_len m) (ah_head m s) s bs fs"
  shows "(\<forall>f \<in> set fs. \<not> fits m (unat al) (unat sz) f) \<and>
           allocator_alloc_walk rg sz al sh (shard_head_at s) (ah_head m s) m = Some (AllocNone, m) \<or>
         (\<exists>us b vs po ptr m' bs' fs'. fs = us @ b # vs \<and>
            (\<forall>f \<in> set us. \<not> fits m (unat al) (unat sz) f) \<and> fits m (unat al) (unat sz) b \<and>
            allocator_alloc_walk rg sz al sh (shard_head_at s) (ah_head m s) m = Some (AllocOk ptr, m') \<and>
            po = payload_off (unat al) b \<and> ptr = rg_base rg + of_nat (b + po) \<and>
            shard_took (shard_head_at s) (shard_lo m s) (shard_lo m s + shard_len m) s m bs b
              po (need (unat al) (unat sz) b) m' bs' fs')"
proof -
  let ?lo = "shard_lo m s" and ?hi = "shard_lo m s + shard_len m" and ?hc = "shard_head_at s"
  have rg: "region_ok rg" using h by (simp add: header_inv_def)
  have t: "tiles m ?lo ?hi bs" and f: "set fs = {b \<in> set bs. is_free m b}" and p: "path m (ah_head m s) fs 0"
    using ok by (simp_all add: shard_ok_def)
  have mem: "?lo \<le> f \<and> f + bsz m f \<le> ?hi \<and> 56 \<le> bsz m f" if "f \<in> set fs" for f
    using tiles_mem [OF t, of f] that f by auto
  show ?thesis
  proof (cases "\<exists>f \<in> set fs. fits m (unat al) (unat sz) f")
    case False
    then show ?thesis using walk_none [OF h s r mem p, of ?hc] by auto
  next
    case True
    then obtain us b vs where fs: "fs = us @ b # vs" and us: "\<forall>f \<in> set us. \<not> fits m (unat al) (unat sz) f"
      and b: "fits m (unat al) (unat sz) b"
      using split_list_first_prop [of fs] by metis
    obtain cur where pu: "path m (ah_head m s) us cur" and cur: "unat cur = b"
      using p fs by (auto simp: path_append)
    have bm: "?lo \<le> b" "b + bsz m b \<le> ?hi" "56 \<le> bsz m b" using mem [of b] fs by auto
    obtain po req where u: "unat po = payload_off (unat al) b" "unat req = need (unat al) (unat sz) b"
      and w: "allocator_alloc_walk rg sz al sh (link_at ?hc us) cur m =
         (case allocator_take_block rg sh (link_at ?hc us) cur (rg_base rg + cur) po req m of
                 None \<Rightarrow> Some (AllocFail STATUS_INVALID_STATE, m)
               | Some (ptr, m') \<Rightarrow> Some (AllocOk ptr, m'))"
      using walk_step [OF h s r bm cur, of "link_at ?hc us"] b by auto
    note po = request_geometry [OF r u]
    have rq: "unat req \<le> bsz m b" using b u by (simp add: fits_def)
    have hi: "?hi \<le> unat (rg_size rg)" using shard_range(2) [OF h s(1)] .
    have hc: "?hc + 8 \<le> ?lo" using shard_range(1) [OF h s(1)] s by simp
    have ok': "shard_ok m ?lo ?hi (ld64 m ?hc) s bs (us @ b # vs)" using ok fs by (simp add: ah_head_def)
    obtain m' bs' fs' where
      tk: "allocator_take_block rg sh (link_at ?hc us) cur (rg_base rg + cur) po req m
             = Some (rg_base rg + cur + po, m')"
      and took: "shard_took ?hc ?lo ?hi s m bs b (unat po) (unat req) m' bs' fs'"
      using take_took [OF rg hi ok' hc refl s(2) cur po(1,2,3) rq po(4)] by blast
    have "rg_base rg + cur + po = rg_base rg + of_nat (b + unat po)" using cur by (simp add: ac_simps flip: cur)
    moreover have "allocator_alloc_walk rg sz al sh ?hc (ah_head m s) m = Some (AllocOk (rg_base rg + cur + po), m')"
      using walk_skip [OF h s r mem pu, of ?hc] fs us w tk by simp
    ultimately show ?thesis using fs us b took u by auto
  qed
qed

end
