(* ===== verification/AllocatorHeap.thy ===== *)
theory AllocatorHeap
  imports AllocatorWalk
begin

text \<open>
  The allocator as its clients see it: a finite map from payload offsets to spans. The map is
  read off the bytes of the region (\<open>heap_abs\<close>); under \<open>heap_inv\<close> its spans are aligned, inside
  the region and disjoint, and a write inside a span, to the region header or to the failure
  counter changes neither the invariant nor the map.
\<close>

section \<open>The abstraction\<close>

definition po_of :: "mem \<Rightarrow> nat \<Rightarrow> nat" where
  "po_of m b = unat (bh_payload_offset (get_block m b))"

text \<open>The blocks of one shard, used or free.\<close>

definition used_in :: "mem \<Rightarrow> nat \<Rightarrow> nat set" where
  "used_in m s = {b. \<exists>bs. tiles m (shard_lo m s) (shard_lo m s + shard_len m) bs \<and>
                           b \<in> set bs \<and> \<not> is_free m b}"

definition free_in :: "mem \<Rightarrow> nat \<Rightarrow> nat set" where
  "free_in m s = {b. \<exists>bs. tiles m (shard_lo m s) (shard_lo m s + shard_len m) bs \<and>
                           b \<in> set bs \<and> is_free m b}"

definition used_blocks :: "mem \<Rightarrow> nat set" where
  "used_blocks m = (\<Union>s < 4. used_in m s)"

definition free_blocks :: "mem \<Rightarrow> nat set" where
  "free_blocks m = (\<Union>s < 4. free_in m s)"

definition heap_abs :: "mem \<Rightarrow> nat \<rightharpoonup> nat" where
  "heap_abs m p =
     (let b = unat (ld64 m (p - 8)) in
      if b \<in> used_blocks m \<and> b + po_of m b = p then Some (bsz m b - po_of m b) else None)"

lemma used_in_eq:
  assumes "tiles m (shard_lo m s) (shard_lo m s + shard_len m) bs"
  shows "used_in m s = {b \<in> set bs. \<not> is_free m b}" and "free_in m s = {b \<in> set bs. is_free m b}"
proof -
  have "tiles m (shard_lo m s) (shard_lo m s + shard_len m) cs \<longleftrightarrow> cs = bs" for cs
    using assms tiles_unique by blast
  then show "used_in m s = {b \<in> set bs. \<not> is_free m b}" "free_in m s = {b \<in> set bs. is_free m b}"
    by (simp_all add: used_in_def free_in_def)
qed

lemma used_in_blocks: "s < 4 \<Longrightarrow> b \<in> used_in m s \<Longrightarrow> b \<in> used_blocks m"
  and free_in_blocks: "s < 4 \<Longrightarrow> b \<in> free_in m s \<Longrightarrow> b \<in> free_blocks m"
  by (auto simp: used_blocks_def free_blocks_def)

lemma heap_shard:
  assumes "heap_inv rg m" and "s < 4"
  obtains bs fs where "shard_ok m (shard_lo m s) (shard_lo m s + shard_len m) (ah_head m s) s bs fs"
    "tiles m (shard_lo m s) (shard_lo m s + shard_len m) bs"
    "used_in m s = {b \<in> set bs. \<not> is_free m b}" "free_in m s = set fs"
proof -
  obtain bs fs where ok: "shard_ok m (shard_lo m s) (shard_lo m s + shard_len m) (ah_head m s) s bs fs"
    using assms by (auto simp: heap_inv_def)
  then have t: "tiles m (shard_lo m s) (shard_lo m s + shard_len m) bs" by (simp add: shard_ok_def)
  show ?thesis using that [OF ok t] used_in_eq [OF t] ok by (simp add: shard_ok_def)
qed

lemma used_inD:
  assumes h: "heap_inv rg m" and s: "s < 4" and b: "b \<in> used_in m s"
  shows "shard_lo m s \<le> b" "b + bsz m b \<le> shard_lo m s + shard_len m" "56 \<le> bsz m b"
    "live_ok m b" "unat (bh_shard (get_block m b)) = s" "bh_flags (get_block m b) = 0"
proof -
  obtain bs fs where ok: "shard_ok m (shard_lo m s) (shard_lo m s + shard_len m) (ah_head m s) s bs fs"
    and t: "tiles m (shard_lo m s) (shard_lo m s + shard_len m) bs"
    and u: "used_in m s = {b \<in> set bs. \<not> is_free m b}" using heap_shard [OF h s] by metis
  have bm: "b \<in> set bs" and nf: "\<not> is_free m b" using b u by auto
  show "shard_lo m s \<le> b" "b + bsz m b \<le> shard_lo m s + shard_len m" "56 \<le> bsz m b"
    using tiles_mem [OF t bm] .
  have "blk_ok m s b" using ok bm by (simp add: shard_ok_def)
  then show "live_ok m b" "unat (bh_shard (get_block m b)) = s" "bh_flags (get_block m b) = 0"
    using nf by (auto simp: blk_ok_def is_free_def)
qed

lemma used_blocksD:
  assumes h: "heap_inv rg m" and b: "b \<in> used_blocks m"
  shows "2728 \<le> b" "b + bsz m b \<le> unat (rg_size rg)" "40 \<le> po_of m b" "po_of m b + 16 \<le> bsz m b"
    "(b + po_of m b) mod 16 = 0" "unat (ld64 m (b + po_of m b - 8)) = b"
    "bh_flags (get_block m b) = 0" "unat (bh_shard (get_block m b)) < 4" "po_of m b < 4294967296"
proof -
  obtain s where s: "s < 4" "b \<in> used_in m s" using b by (auto simp: used_blocks_def)
  note u = used_inD [OF h s]
  have hi: "header_inv rg m" using h by (simp add: heap_inv_def)
  show "2728 \<le> b" "b + bsz m b \<le> unat (rg_size rg)"
    using u(1,2) shard_range(1,2) [OF hi s(1)] by linarith+
  show "40 \<le> po_of m b" "po_of m b + 16 \<le> bsz m b"
    "(b + po_of m b) mod 16 = 0" "unat (ld64 m (b + po_of m b - 8)) = b"
    using u(4) by (simp_all add: live_ok_def po_of_def Let_def)
  show "bh_flags (get_block m b) = 0" "unat (bh_shard (get_block m b)) < 4" using u s by simp_all
  show "po_of m b < 4294967296" by (simp add: po_of_def unat_less_2p32)
qed

lemma used_disjoint:
  assumes h: "heap_inv rg m" and b: "b \<in> used_blocks m" and c: "c \<in> used_blocks m" and "b \<noteq> c"
  shows "b + bsz m b \<le> c \<or> c + bsz m c \<le> b"
proof -
  obtain s t where s: "s < 4" "b \<in> used_in m s" and t: "t < 4" "c \<in> used_in m t"
    using b c by (auto simp: used_blocks_def)
  have hi: "header_inv rg m" using h by (simp add: heap_inv_def)
  show ?thesis
  proof (cases "s = t")
    case True
    obtain bs where "tiles m (shard_lo m s) (shard_lo m s + shard_len m) bs"
      and "used_in m s = {b \<in> set bs. \<not> is_free m b}" using heap_shard [OF h s(1)] by metis
    then show ?thesis using tiles_disjoint [of m _ _ bs b c] s t True assms(4) by auto
  next
    case False
    then show ?thesis using shard_range(3) [OF hi s(1) t(1)] used_inD(1,2) [OF h s] used_inD(1,2) [OF h t]
      by linarith
  qed
qed

lemma heap_abs_iff:
  assumes "heap_inv rg m"
  shows "heap_abs m p = Some n \<longleftrightarrow>
           (\<exists>b \<in> used_blocks m. p = b + po_of m b \<and> n = bsz m b - po_of m b)"
proof
  show "heap_abs m p = Some n \<Longrightarrow> \<exists>b \<in> used_blocks m. p = b + po_of m b \<and> n = bsz m b - po_of m b"
    by (auto simp: heap_abs_def Let_def split: if_splits intro!: bexI [of _ "unat (ld64 m (p - 8))"])
  show "\<exists>b \<in> used_blocks m. p = b + po_of m b \<and> n = bsz m b - po_of m b \<Longrightarrow> heap_abs m p = Some n"
    using used_blocksD(6) [OF assms] by (auto simp: heap_abs_def Let_def)
qed

lemma heap_absE:
  assumes "heap_inv rg m" and "heap_abs m p = Some n"
  obtains b where "b \<in> used_blocks m" "p = b + po_of m b" "n = bsz m b - po_of m b"
  using assms by (auto simp: heap_abs_iff)

lemma heap_abs_bounds:
  assumes "heap_inv rg m" and "heap_abs m p = Some n"
  shows "2768 \<le> p" "16 \<le> n" "p + n \<le> unat (rg_size rg)" "p mod 16 = 0"
proof -
  obtain b where b: "b \<in> used_blocks m" "p = b + po_of m b" "n = bsz m b - po_of m b"
    using assms by (auto simp: heap_abs_iff)
  note u = used_blocksD [OF assms(1) b(1)]
  show "2768 \<le> p" "16 \<le> n" "p + n \<le> unat (rg_size rg)" "p mod 16 = 0" using b u by simp_all
qed

lemma heap_abs_disjoint:
  assumes h: "heap_inv rg m" and p: "heap_abs m p = Some n" and q: "heap_abs m q = Some k" and "p \<noteq> q"
  shows "p + n \<le> q \<or> q + k \<le> p"
proof -
  obtain b c where b: "b \<in> used_blocks m" "p = b + po_of m b" "n = bsz m b - po_of m b"
    and c: "c \<in> used_blocks m" "q = c + po_of m c" "k = bsz m c - po_of m c"
    using h p q by (auto simp: heap_abs_iff)
  have "b \<noteq> c" using b c assms(4) by auto
  then show ?thesis using used_disjoint [OF h b(1) c(1)] b c used_blocksD(4) [OF h b(1)]
      used_blocksD(4) [OF h c(1)] by linarith
qed

section \<open>Frame\<close>

lemma header_same_on:
  assumes "same_on m m' 2496 2528"
  shows "ah_magic m' = ah_magic m" "ah_version m' = ah_version m" "ah_shard_count m' = ah_shard_count m"
    "ah_heap_offset m' = ah_heap_offset m" "ah_heap_size m' = ah_heap_size m"
proof -
  have "ld64 m' a = ld64 m a" if "2496 \<le> a" "a + 8 \<le> 2528" for a
    using assms that by (intro ld64_same_on) (auto elim: same_on_sub)
  moreover have "ld32 m' a = ld32 m a" if "2496 \<le> a" "a + 4 \<le> 2528" for a
    using assms that by (intro ld32_same_on) (auto elim: same_on_sub)
  ultimately show "ah_magic m' = ah_magic m" "ah_version m' = ah_version m"
    "ah_shard_count m' = ah_shard_count m" "ah_heap_offset m' = ah_heap_offset m"
    "ah_heap_size m' = ah_heap_size m"
    by (simp_all add: ah_magic_def ah_version_def ah_shard_count_def ah_heap_offset_def ah_heap_size_def)
qed

lemma header_valid_same_on:
  "same_on m m' 2496 2528 \<Longrightarrow> allocator_header_valid r h m' = allocator_header_valid r h m"
  unfolding allocator_header_valid_def by (simp only: header_same_on)

lemma header_inv_same_on:
  assumes "same_on m m' 2496 2528"
  shows "header_inv rg m' = header_inv rg m" "shard_lo m' s = shard_lo m s" "shard_len m' = shard_len m"
proof -
  show "shard_len m' = shard_len m" "shard_lo m' s = shard_lo m s"
    using header_same_on [OF assms] by (simp_all add: shard_len_def shard_lo_def)
  then show "header_inv rg m' = header_inv rg m"
    using header_same_on [OF assms] header_valid_same_on [OF assms] by (simp add: header_inv_def)
qed

text \<open>A shard depends on the headers of its blocks and on the prefixes of its used blocks.\<close>

lemma shard_ok_cong:
  assumes ok: "shard_ok m lo hi head s bs fs"
    and g: "\<And>b. b \<in> set bs \<Longrightarrow> get_block m' b = get_block m b"
    and p: "\<And>b. b \<in> set bs \<Longrightarrow> \<not> is_free m b \<Longrightarrow>
              ld64 m' (b + po_of m b - 8) = ld64 m (b + po_of m b - 8)"
  shows "shard_ok m' lo hi head s bs fs"
proof -
  have f: "set fs = {b \<in> set bs. is_free m b}" using ok by (simp add: shard_ok_def)
  have fr: "is_free m' b = is_free m b" if "b \<in> set bs" for b using g [OF that] by (simp add: is_free_def)
  have "tiles m' lo hi bs = tiles m lo hi bs" by (rule tiles_cong) (simp add: g)
  moreover have "chain m' head fs = chain m head fs" by (rule path_cong) (use f g in auto)
  moreover have "blk_ok m' s b" if b: "b \<in> set bs" for b
  proof (cases "is_free m b")
    case True
    then show ?thesis using ok b g [OF b] by (auto simp: shard_ok_def blk_ok_def is_free_def)
  next
    case False
    then have "live_ok m' b = live_ok m b"
      using p [OF b False] g [OF b] by (simp add: live_ok_def po_of_def Let_def)
    then show ?thesis using ok b g [OF b] by (auto simp: shard_ok_def blk_ok_def)
  qed
  moreover have "set fs = {b \<in> set bs. is_free m' b}" using f fr by auto
  ultimately show ?thesis using ok by (simp add: shard_ok_def)
qed

lemma heap_abs_cong:
  assumes "heap_inv rg m" and "heap_inv rg m'"
    and "used_blocks m' = used_blocks m" and "\<And>b. b \<in> used_blocks m \<Longrightarrow> get_block m' b = get_block m b"
  shows "heap_abs m' = heap_abs m"
proof (rule ext)
  fix p
  have "heap_abs m' p = Some n \<longleftrightarrow> heap_abs m p = Some n" for n
    using assms by (auto simp: heap_abs_iff [OF assms(1)] heap_abs_iff [OF assms(2)] po_of_def)
  then show "heap_abs m' p = heap_abs m p" by (metis option.exhaust)
qed

text \<open>Where a write leaves the heap alone: the region header, the failure counter, a payload.\<close>

definition outside_heap_meta :: "mem \<Rightarrow> nat \<Rightarrow> bool" where
  "outside_heap_meta m x \<longleftrightarrow>
     x < 2496 \<or> 2720 \<le> x \<and> x < 2728 \<or> (\<exists>p n. heap_abs m p = Some n \<and> p \<le> x \<and> x < p + n)"

lemma payload_apart:
  assumes h: "heap_inv rg m" and s: "s < 4" and t: "tiles m (shard_lo m s) (shard_lo m s + shard_len m) bs"
    and b: "b \<in> set bs" and x: "b \<le> x" "x < b + (if is_free m b then bsz m b else po_of m b)"
  shows "\<not> outside_heap_meta m x"
proof
  assume o: "outside_heap_meta m x"
  have hi: "header_inv rg m" using h by (simp add: heap_inv_def)
  note bt = tiles_mem [OF t b] and lo = shard_range [OF hi s]
  have ub: "po_of m b \<le> bsz m b" if "\<not> is_free m b"
  proof -
    have "b \<in> used_in m s" using that b used_in_eq(1) [OF t] by simp
    then show ?thesis using used_blocksD(4) [OF h used_in_blocks [OF s], of b] by simp
  qed
  have xb: "x < b + bsz m b" using x ub by (auto split: if_splits)
  have x2: "2728 \<le> x" using bt lo x by linarith
  obtain p n where "heap_abs m p = Some n" and xp: "p \<le> x" "x < p + n"
    using o x2 by (auto simp: outside_heap_meta_def)
  then obtain c where c: "c \<in> used_blocks m" "p = c + po_of m c" "n = bsz m c - po_of m c"
    using h by (auto simp: heap_abs_iff)
  have xc: "c \<le> x" "x < c + bsz m c" "c + po_of m c \<le> x" using c xp by auto
  obtain s' where s': "s' < 4" "c \<in> used_in m s'" using c(1) by (auto simp: used_blocks_def)
  have "s' = s"
    using lo(3) [OF s'(1)] used_inD(1,2) [OF h s'] bt xc(1,2) x(1) xb by (cases "s' = s") auto
  then have cb: "c \<in> set bs" "\<not> is_free m c" using s' used_in_eq(1) [OF t] by auto
  show False
  proof (cases "c = b")
    case True
    then show ?thesis using xc cb x by simp
  next
    case False
    then show ?thesis using tiles_disjoint [OF t cb(1) b] xc x xb by auto
  qed
qed

lemma shard_write:
  assumes h: "heap_inv rg m" and w: "\<And>x. \<not> outside_heap_meta m x \<Longrightarrow> m' x = m x"
    and s: "s < 4" and ok: "shard_ok m (shard_lo m s) (shard_lo m s + shard_len m) head s bs fs"
  shows "shard_ok m' (shard_lo m s) (shard_lo m s + shard_len m) head s bs fs"
    and "b \<in> set bs \<Longrightarrow> get_block m' b = get_block m b"
proof -
  have t: "tiles m (shard_lo m s) (shard_lo m s + shard_len m) bs" using ok by (simp add: shard_ok_def)
  have po: "40 \<le> po_of m b" if "b \<in> set bs" "\<not> is_free m b" for b
    using that used_in_eq(1) [OF t] used_blocksD(3) [OF h used_in_blocks [OF s]] by auto
  have bs: "m' x = m x" if "b \<in> set bs" "b \<le> x" "x < b + (if is_free m b then bsz m b else po_of m b)" for b x
    using payload_apart [OF h s t that] w by blast
  show g: "get_block m' b = get_block m b" if "b \<in> set bs" for b
  proof (rule get_block_same_on, rule same_onI)
    fix x assume "b \<le> x" "x < b + 28"
    then show "m' x = m x" using bs [OF that] po [OF that] tiles_mem(3) [OF t that]
      by (cases "is_free m b") auto
  qed
  have p: "ld64 m' (b + po_of m b - 8) = ld64 m (b + po_of m b - 8)" if "b \<in> set bs" "\<not> is_free m b" for b
    using bs [OF that(1)] that(2) po [OF that] by (intro ld64_same_on) (auto simp: same_on_def)
  show "shard_ok m' (shard_lo m s) (shard_lo m s + shard_len m) head s bs fs"
    by (rule shard_ok_cong [OF ok g p])
qed

lemma heap_write:
  assumes h: "heap_inv rg m" and w: "\<And>x. \<not> outside_heap_meta m x \<Longrightarrow> m' x = m x"
  shows "heap_inv rg m'" and "heap_abs m' = heap_abs m"
    and "used_blocks m' = used_blocks m" and "free_blocks m' = free_blocks m"
    and "\<And>b. b \<in> used_blocks m \<union> free_blocks m \<Longrightarrow> get_block m' b = get_block m b"
proof -
  have low: "m' x = m x" if "2496 \<le> x" "x < 2720" for x
    using that heap_abs_bounds(1) [OF h] by (intro w) (force simp: outside_heap_meta_def)
  have "same_on m m' 2496 2528" using low by (simp add: same_on_def)
  note hs = header_inv_same_on [OF this]
  have hd: "ah_head m' s = ah_head m s" if "s < 4" for s
    using low that unfolding ah_head_def by (intro ld64_same_on) (simp add: same_on_def)
  have sh: "(\<exists>bs fs. shard_ok m' (shard_lo m' s) (shard_lo m' s + shard_len m') (ah_head m' s) s bs fs) \<and>
      used_in m' s = used_in m s \<and> free_in m' s = free_in m s \<and>
      (\<forall>b \<in> used_in m s \<union> free_in m s. get_block m' b = get_block m b)" if s: "s < 4" for s
  proof -
    obtain bs fs where ok: "shard_ok m (shard_lo m s) (shard_lo m s + shard_len m) (ah_head m s) s bs fs"
      and t: "tiles m (shard_lo m s) (shard_lo m s + shard_len m) bs" using heap_shard [OF h s] by metis
    note ok' = shard_write(1) [OF h w s ok] and g = shard_write(2) [OF h w s ok]
    have t': "tiles m' (shard_lo m' s) (shard_lo m' s + shard_len m') bs"
      using ok' by (simp add: shard_ok_def hs)
    show ?thesis using ok' used_in_eq [OF t'] used_in_eq [OF t] g hd [OF s] by (auto simp: is_free_def hs)
  qed
  show inv: "heap_inv rg m'" unfolding heap_inv_def using h hs(1) sh by (auto simp: heap_inv_def)
  show ub: "used_blocks m' = used_blocks m" "free_blocks m' = free_blocks m"
    using sh by (simp_all add: used_blocks_def free_blocks_def)
  show gb: "get_block m' b = get_block m b" if "b \<in> used_blocks m \<union> free_blocks m" for b
    using that sh by (auto simp: used_blocks_def free_blocks_def)
  show "heap_abs m' = heap_abs m" using heap_abs_cong [OF h inv ub(1)] gb by blast
qed

section \<open>Replacing one shard\<close>

text \<open>A change confined to the bytes of shard \<open>s\<close> and its list head.\<close>

definition shard_local :: "mem \<Rightarrow> nat \<Rightarrow> mem \<Rightarrow> bool" where
  "shard_local m s m' \<longleftrightarrow>
     (\<forall>x. (x < shard_lo m s \<or> shard_lo m s + shard_len m \<le> x) \<and>
          (x < shard_head_at s \<or> shard_head_at s + 8 \<le> x) \<longrightarrow> m' x = m x)"

lemma shard_local_low:
  assumes "header_inv rg m" "s < 4" "shard_local m s m'"
  shows "same_on m m' 0 2688" and "same_on m m' 2720 2728"
    and "header_inv rg m'" "shard_lo m' t = shard_lo m t" "shard_len m' = shard_len m"
proof -
  show l: "same_on m m' 0 2688" "same_on m m' 2720 2728"
    using assms(2,3) shard_range(1) [OF assms(1,2)] by (auto simp: shard_local_def same_on_def)
  then have "same_on m m' 2496 2528" by (auto elim: same_on_sub)
  then show "header_inv rg m'" "shard_lo m' t = shard_lo m t" "shard_len m' = shard_len m"
    using header_inv_same_on assms(1) by simp_all
qed

lemma shard_local_other:
  assumes hi: "header_inv rg m" and s: "s < 4" and l: "shard_local m s m'" and t: "t < 4" "t \<noteq> s"
  shows "same_on m m' (shard_lo m t) (shard_lo m t + shard_len m)" and "ah_head m' t = ah_head m t"
proof -
  note r = shard_range(1,3) [OF hi s]
  show "same_on m m' (shard_lo m t) (shard_lo m t + shard_len m)"
    using l r(2) [OF t] shard_range(1) [OF hi t(1)] s by (auto simp: shard_local_def same_on_def)
  show "ah_head m' t = ah_head m t" unfolding ah_head_def
  proof (rule ld64_same_on, rule same_onI)
    fix x assume x: "shard_head_at t \<le> x" "x < shard_head_at t + 8"
    have "t < s \<or> s < t" using t by auto
    then have "x < shard_head_at s \<or> shard_head_at s + 8 \<le> x" using x by auto
    then show "m' x = m x" using l r(1) x t by (simp add: shard_local_def)
  qed
qed

lemma shard_update:
  assumes h: "heap_inv rg m" and s: "s < 4" and l: "shard_local m s m'"
    and ok: "shard_ok m' (shard_lo m s) (shard_lo m s + shard_len m) (ah_head m' s) s bs' fs'"
  shows "heap_inv rg m'" and "used_in m' s = {c \<in> set bs'. \<not> is_free m' c}"
    and "free_in m' s = {c \<in> set bs'. is_free m' c}"
    and "\<And>t. t < 4 \<Longrightarrow> t \<noteq> s \<Longrightarrow> used_in m' t = used_in m t"
    and "\<And>t c. t < 4 \<Longrightarrow> t \<noteq> s \<Longrightarrow> c \<in> used_in m t \<Longrightarrow> same_on m m' c (c + bsz m c)"
    and "\<And>t. t < 4 \<Longrightarrow> t \<noteq> s \<Longrightarrow> free_in m' t = free_in m t"
    and "\<And>t c. t < 4 \<Longrightarrow> t \<noteq> s \<Longrightarrow> c \<in> free_in m t \<Longrightarrow> bsz m' c = bsz m c"
proof -
  have hi: "header_inv rg m" using h by (simp add: heap_inv_def)
  note lw = shard_local_low [OF hi s l]
  have t': "tiles m' (shard_lo m' s) (shard_lo m' s + shard_len m') bs'"
    using ok lw by (simp add: shard_ok_def)
  show "used_in m' s = {c \<in> set bs'. \<not> is_free m' c}" "free_in m' s = {c \<in> set bs'. is_free m' c}"
    using used_in_eq [OF t'] .
  have other: "\<exists>bs fs. shard_ok m' (shard_lo m' t) (shard_lo m' t + shard_len m') (ah_head m' t) t bs fs \<and>
       used_in m' t = used_in m t \<and> (\<forall>c \<in> used_in m t. same_on m m' c (c + bsz m c)) \<and>
       free_in m' t = free_in m t \<and> (\<forall>c \<in> free_in m t. bsz m' c = bsz m c)"
    if t: "t < 4" "t \<noteq> s" for t
  proof -
    note so = shard_local_other [OF hi s l t]
    obtain bs fs where k: "shard_ok m (shard_lo m t) (shard_lo m t + shard_len m) (ah_head m t) t bs fs"
      and tl: "tiles m (shard_lo m t) (shard_lo m t + shard_len m) bs" using heap_shard [OF h t(1)] by metis
    have k': "shard_ok m' (shard_lo m' t) (shard_lo m' t + shard_len m') (ah_head m' t) t bs fs"
      using shard_ok_same_on [OF so(1) k] so(2) lw by simp
    then have tl': "tiles m' (shard_lo m' t) (shard_lo m' t + shard_len m') bs" by (simp add: shard_ok_def)
    have sm: "same_on m m' c (c + bsz m c)" if "c \<in> set bs" for c
      using so(1) tiles_mem [OF tl that] by (auto elim: same_on_sub)
    have gb: "get_block m' c = get_block m c" if "c \<in> set bs" for c
      using blk_ok_same_on(2) [OF sm [OF that] tiles_mem(3) [OF tl that]] .
    then have "used_in m' t = used_in m t" "free_in m' t = free_in m t"
      using used_in_eq [OF tl] used_in_eq [OF tl'] by (auto simp: is_free_def)
    then show ?thesis using k' sm gb used_in_eq [OF tl] by auto
  qed
  show "heap_inv rg m'"
    unfolding heap_inv_def using ok lw other by (metis (no_types, lifting))
  show "\<And>t. t < 4 \<Longrightarrow> t \<noteq> s \<Longrightarrow> used_in m' t = used_in m t"
    "\<And>t c. t < 4 \<Longrightarrow> t \<noteq> s \<Longrightarrow> c \<in> used_in m t \<Longrightarrow> same_on m m' c (c + bsz m c)"
    "\<And>t. t < 4 \<Longrightarrow> t \<noteq> s \<Longrightarrow> free_in m' t = free_in m t"
    "\<And>t c. t < 4 \<Longrightarrow> t \<noteq> s \<Longrightarrow> c \<in> free_in m t \<Longrightarrow> bsz m' c = bsz m c"
    using other by blast+
qed

lemma used_blocks_split:
  assumes "s < 4" and "\<And>t. t < 4 \<Longrightarrow> t \<noteq> s \<Longrightarrow> used_in m' t = used_in m t"
  obtains U where "used_blocks m = U \<union> used_in m s" "used_blocks m' = U \<union> used_in m' s"
    "U = (\<Union>t \<in> {..<4} - {s}. used_in m t)"
proof -
  let ?U = "\<Union>t \<in> {..<4} - {s}. used_in m t"
  have e: "{..<4} = insert s ({..<4} - {s})" using assms(1) by auto
  have "used_blocks m = ?U \<union> used_in m s" unfolding used_blocks_def by (subst e) blast
  moreover have "used_blocks m' = ?U \<union> used_in m' s" unfolding used_blocks_def
    by (subst e) (use assms(2) in auto)
  ultimately show ?thesis using that by blast
qed

lemma used_block_same:
  assumes h: "heap_inv rg m" and c: "c \<in> used_blocks m" and so: "same_on m m' c (c + bsz m c)"
  shows "get_block m' c = get_block m c"
proof -
  have "56 \<le> bsz m c" using used_blocksD(3,4) [OF h c] by linarith
  with so show ?thesis by (rule blk_ok_same_on(2))
qed

text \<open>The map after one block became used.\<close>

lemma heap_abs_insert:
  assumes h: "heap_inv rg m" and h': "heap_inv rg m'" and ub: "used_blocks m' = insert b (used_blocks m)"
    and g: "\<And>c. c \<in> used_blocks m \<Longrightarrow> get_block m' c = get_block m c" and nb: "b \<notin> used_blocks m"
  shows "heap_abs m (b + po_of m' b) = None"
    and "heap_abs m' = (heap_abs m)(b + po_of m' b \<mapsto> bsz m' b - po_of m' b)"
proof -
  let ?p = "b + po_of m' b" and ?n = "bsz m' b - po_of m' b"
  have pg: "po_of m' c = po_of m c" if "c \<in> used_blocks m" for c using g [OF that] by (simp add: po_of_def)
  have eq: "heap_abs m' q = Some n \<longleftrightarrow> q = ?p \<and> n = ?n \<or> heap_abs m q = Some n" for q n
    by (auto simp: heap_abs_iff [OF h] heap_abs_iff [OF h'] ub pg g)
  show none: "heap_abs m ?p = None"
  proof (rule ccontr)
    assume "heap_abs m ?p \<noteq> None"
    then obtain n where "heap_abs m ?p = Some n" by auto
    then obtain c where c: "c \<in> used_blocks m" "?p = c + po_of m c" by (rule heap_absE [OF h])
    have "unat (ld64 m' (c + po_of m' c - 8)) = c" "unat (ld64 m' (?p - 8)) = b"
      using used_blocksD(6) [OF h'] c(1) ub by auto
    then have "c = b" using c pg by simp
    with c nb show False by simp
  qed
  show "heap_abs m' = (heap_abs m)(?p \<mapsto> ?n)"
  proof (rule ext)
    fix q show "heap_abs m' q = ((heap_abs m)(?p \<mapsto> ?n)) q"
      using eq [of q] by (cases "q = ?p"; cases "heap_abs m q"; cases "heap_abs m' q") auto
  qed
qed

text \<open>Taking a block extends the map by one span and leaves the contents of the others alone.\<close>

lemma took_used:
  assumes h: "heap_inv rg m" and s: "s < 4"
    and ok: "shard_ok m (shard_lo m s) (shard_lo m s + shard_len m) (ah_head m s) s bs fs"
    and b: "b \<in> set fs"
    and took: "shard_took (shard_head_at s) (shard_lo m s) (shard_lo m s + shard_len m) s m bs b po req m' bs' fs'"
  shows "heap_inv rg m'" and "used_blocks m' = insert b (used_blocks m)" and "b \<notin> used_blocks m"
    and "\<And>c. c \<in> used_blocks m \<Longrightarrow> same_on m m' c (c + bsz m c)" and "shard_local m s m'"
    and "\<And>t. t < 4 \<Longrightarrow> t \<noteq> s \<Longrightarrow> free_in m' t = free_in m t \<and> (\<forall>c \<in> free_in m t. bsz m' c = bsz m c)"
proof -
  show l: "shard_local m s m'" using took by (simp add: shard_took_def shard_local_def)
  have ok': "shard_ok m' (shard_lo m s) (shard_lo m s + shard_len m) (ah_head m' s) s bs' fs'"
    using took by (simp add: shard_took_def ah_head_def)
  note up = shard_update [OF h s l ok']
  show "heap_inv rg m'" by (rule up(1))
  show "free_in m' t = free_in m t \<and> (\<forall>c \<in> free_in m t. bsz m' c = bsz m c)" if "t < 4" "t \<noteq> s" for t
    using up(6,7) [OF that] by blast
  have t: "tiles m (shard_lo m s) (shard_lo m s + shard_len m) bs" using ok by (simp add: shard_ok_def)
  have us: "used_in m' s = insert b (used_in m s)"
    using took up(2) used_in_eq(1) [OF t] by (simp add: shard_took_def)
  obtain U where U: "used_blocks m = U \<union> used_in m s" "used_blocks m' = U \<union> used_in m' s"
    "U = (\<Union>t \<in> {..<4} - {s}. used_in m t)" using used_blocks_split [OF s up(4)] by metis
  show "used_blocks m' = insert b (used_blocks m)" using U us by auto
  show "same_on m m' c (c + bsz m c)" if "c \<in> used_blocks m" for c
    using that U up(5) took used_in_eq(1) [OF t] by (auto simp: shard_took_def)
  have "is_free m b" using ok b by (auto simp: shard_ok_def)
  then show "b \<notin> used_blocks m" by (auto simp: used_blocks_def used_in_def)
qed

lemma used_same_abs:
  assumes h: "heap_inv rg m" and so: "\<And>c. c \<in> used_blocks m \<Longrightarrow> same_on m m' c (c + bsz m c)"
    and q: "heap_abs m q = Some j"
  shows "same_on m m' q (q + j)"
  using q
proof (rule heap_absE [OF h])
  fix c assume c: "c \<in> used_blocks m" "q = c + po_of m c" "j = bsz m c - po_of m c"
  then show ?thesis using so [OF c(1)] used_blocksD(4) [OF h c(1)] by (auto elim: same_on_sub)
qed

lemma took_heap:
  assumes h: "heap_inv rg m" and s: "s < 4"
    and ok: "shard_ok m (shard_lo m s) (shard_lo m s + shard_len m) (ah_head m s) s bs fs"
    and b: "b \<in> set fs" and sz: "po + k \<le> req"
    and took: "shard_took (shard_head_at s) (shard_lo m s) (shard_lo m s + shard_len m) s m bs b po req m' bs' fs'"
  shows "heap_inv rg m'" and "same_on m m' 0 2688" and "same_on m m' 2720 2728"
    and "\<exists>n. k \<le> n \<and> heap_abs m' = (heap_abs m)(b + po \<mapsto> n)" and "heap_abs m (b + po) = None"
    and "heap_abs m q = Some j \<Longrightarrow> same_on m m' q (q + j)"
proof -
  note u = took_used [OF h s ok b took]
  show "heap_inv rg m'" by (rule u(1))
  show "same_on m m' 0 2688" "same_on m m' 2720 2728"
    using shard_local_low [OF _ s u(5)] h by (auto simp: heap_inv_def)
  have po: "po_of m' b = po" and req: "req \<le> bsz m' b" using took by (simp_all add: shard_took_def po_of_def)
  note ins = heap_abs_insert [OF h u(1,2) used_block_same [OF h _ u(4)] u(3), unfolded po]
  show "heap_abs m (b + po) = None" by (rule ins(1))
  have "k \<le> bsz m' b - po" using req sz by simp
  with ins(2) show "\<exists>n. k \<le> n \<and> heap_abs m' = (heap_abs m)(b + po \<mapsto> n)" by blast
  show "heap_abs m q = Some j \<Longrightarrow> same_on m m' q (q + j)" by (rule used_same_abs [OF h u(4)])
qed

text \<open>What a grant does to the blocks: the payload's block serves requests of that size, the blocks in
  use stay, and the free blocks of the other shards stay. \<open>serves\<close> is kept until the block is freed,
  when it makes the same request grantable again.\<close>

definition serves :: "nat \<Rightarrow> nat \<Rightarrow> mem \<Rightarrow> nat \<Rightarrow> bool" where
  "serves al sz m p \<longleftrightarrow> (\<exists>b \<in> used_blocks m. b + po_of m b = p \<and> need al sz b \<le> bsz m b)"

lemma serves_write:
  assumes h: "heap_inv rg m" and w: "\<And>x. \<not> outside_heap_meta m x \<Longrightarrow> m' x = m x"
  shows "serves al sz m' p = serves al sz m p"
  using heap_write(3) [OF h w] heap_write(5) [OF h w] by (auto simp: serves_def po_of_def)

definition blocks_kept :: "mem \<Rightarrow> mem \<Rightarrow> bool" where
  "blocks_kept m m' \<longleftrightarrow>
     (\<forall>c \<in> used_blocks m. c \<in> used_blocks m' \<and> get_block m' c = get_block m c) \<and>
     (\<exists>s < 4. \<forall>c \<in> free_blocks m. c \<notin> free_in m s \<longrightarrow> c \<in> free_blocks m' \<and> bsz m' c = bsz m c)"

lemma serves_kept: "blocks_kept m m' \<Longrightarrow> serves al sz m p \<Longrightarrow> serves al sz m' p"
  unfolding blocks_kept_def serves_def by (metis po_of_def)

lemma took_blocks:
  assumes h: "heap_inv rg m" and s: "s < 4"
    and ok: "shard_ok m (shard_lo m s) (shard_lo m s + shard_len m) (ah_head m s) s bs fs"
    and b: "b \<in> set fs" and nd: "req = need al sz b"
    and took: "shard_took (shard_head_at s) (shard_lo m s) (shard_lo m s + shard_len m) s m bs b po req m' bs' fs'"
  shows "serves al sz m' (b + po)" and "blocks_kept m m'"
proof -
  note u = took_used [OF h s ok b took]
  have "po_of m' b = po" "req \<le> bsz m' b" using took by (simp_all add: shard_took_def po_of_def)
  then show "serves al sz m' (b + po)" using u(2) nd unfolding serves_def by auto
  show "blocks_kept m m'"
    unfolding blocks_kept_def free_blocks_def using s u(2,6) used_block_same [OF h _ u(4)] by blast
qed

lemma blocks_kept_write:
  assumes k: "blocks_kept m m1" and h: "heap_inv rg m1" and w: "\<And>x. \<not> outside_heap_meta m1 x \<Longrightarrow> m' x = m1 x"
  shows "blocks_kept m m'"
  using k heap_write(3-5) [OF h w] unfolding blocks_kept_def by auto

section \<open>The largest free block\<close>

text \<open>\<open>spare N m\<close>: some free block has \<open>N\<close> bytes. A step pays \<open>c\<close> when it takes at most \<open>c\<close> bytes from the
  largest free block; payments add up, so they bound how many requests a heap can serve.\<close>

definition spare :: "nat \<Rightarrow> mem \<Rightarrow> bool" where
  "spare N m \<longleftrightarrow> (\<exists>b \<in> free_blocks m. N \<le> bsz m b)"

definition pays :: "(nat \<Rightarrow> mem \<Rightarrow> bool) \<Rightarrow> nat \<Rightarrow> mem \<Rightarrow> mem \<Rightarrow> bool" where
  "pays sp c m m' \<longleftrightarrow> (\<forall>N. sp (N + c) m \<longrightarrow> sp N m')"

lemma pays_same: "(\<And>N. sp N m' = sp N m) \<Longrightarrow> pays sp 0 m m'"
  by (simp add: pays_def)

lemma pays_refl [simp]: "pays sp 0 m m"
  by (simp add: pays_def)

lemma pays_trans: "pays sp a m m1 \<Longrightarrow> pays sp b m1 m2 \<Longrightarrow> pays sp (a + b) m m2"
  by (simp add: pays_def) (metis add.assoc add.commute)

lemma paysD: "pays sp c m m' \<Longrightarrow> sp (N + c) m \<Longrightarrow> sp N m'"
  by (simp add: pays_def)

lemma spare_mono: "spare N m \<Longrightarrow> K \<le> N \<Longrightarrow> spare K m"
  unfolding spare_def using le_trans by blast

lemma pays_mono:
  assumes p: "pays spare c m m'" and le: "c \<le> d"
  shows "pays spare d m m'"
proof -
  have "spare N m'" if "spare (N + d) m" for N
    using paysD [OF p, of N] spare_mono [OF that, of "N + c"] le by simp
  then show ?thesis by (simp add: pays_def)
qed

lemma spare_write:
  assumes h: "heap_inv rg m" and w: "\<And>x. \<not> outside_heap_meta m x \<Longrightarrow> m' x = m x"
  shows "spare N m' = spare N m"
  using heap_write(4,5) [OF h w] by (auto simp: spare_def)

text \<open>What a request can take out of a block.\<close>

lemma need_le: "0 < al \<Longrightarrow> need al sz f \<le> sz + al + 55"
  using payload_off_bounds(2) [of al f] need_bounds(2) [of al sz f] by simp

lemma spare_fits: "spare (sz + al + 112) m \<Longrightarrow> 0 < al \<Longrightarrow> \<exists>b \<in> free_blocks m. fits m al sz b"
proof -
  assume s: "spare (sz + al + 112) m" and al: "0 < al"
  then obtain b where b: "b \<in> free_blocks m" "sz + al + 112 \<le> bsz m b" by (auto simp: spare_def)
  have "need al sz b \<le> bsz m b" using need_le [OF al, of sz b] b(2) by simp
  then show ?thesis using b(1) by (auto simp: fits_def)
qed

lemma took_pays:
  assumes h: "heap_inv rg m" and s: "s < 4" and al: "0 < al"
    and ok: "shard_ok m (shard_lo m s) (shard_lo m s + shard_len m) (ah_head m s) s bs fs"
    and b: "b \<in> set fs" and nd: "req = need al sz b"
    and took: "shard_took (shard_head_at s) (shard_lo m s) (shard_lo m s + shard_len m) s m bs b po req m' bs' fs'"
  shows "pays spare (sz + al + 112) m m'"
proof -
  have l: "shard_local m s m'" using took by (simp add: shard_took_def shard_local_def)
  have ok': "shard_ok m' (shard_lo m s) (shard_lo m s + shard_len m) (ah_head m' s) s bs' fs'"
    using took by (simp add: shard_took_def ah_head_def)
  note up = shard_update [OF h s l ok']
  have t: "tiles m (shard_lo m s) (shard_lo m s + shard_len m) bs" using ok by (simp add: shard_ok_def)
  have "spare N m'" if sp: "spare (N + (sz + al + 112)) m" for N
  proof -
    obtain c where c: "c \<in> free_blocks m" "N + (sz + al + 112) \<le> bsz m c" using sp by (auto simp: spare_def)
    obtain u where u: "u < 4" "c \<in> free_in m u" using c(1) by (auto simp: free_blocks_def)
    consider "u \<noteq> s" | "u = s" "c \<noteq> b" | "u = s" "c = b" by blast
    then show ?thesis
    proof cases
      case 1
      then have "c \<in> free_in m' u" "bsz m' c = bsz m c" using up(6,7) u by simp_all
      then show ?thesis using c(2) u(1) free_in_blocks unfolding spare_def by (intro bexI [of _ c]) auto
    next
      case 2
      then have "c \<in> set bs" "is_free m c" using u(2) used_in_eq(2) [OF t] by auto
      then have "c \<in> free_in m' s" "bsz m' c = bsz m c" using took 2(2) up(3) by (auto simp: shard_took_def)
      then show ?thesis using c(2) free_in_blocks [OF s] unfolding spare_def by (intro bexI [of _ c]) auto
    next
      case 3
      have "req + 56 \<le> bsz m b" using c(2) 3(2) need_le [OF al, of sz b] nd by simp
      then obtain d where "d \<in> set bs'" "is_free m' d" "bsz m b \<le> req + bsz m' d"
        using took by (auto simp: shard_took_def)
      moreover from this have "N \<le> bsz m' d" using c(2) 3(2) need_le [OF al, of sz b] nd by simp
      moreover from calculation have "d \<in> free_in m' s" using up(3) by simp
      ultimately show ?thesis using free_in_blocks [OF s] unfolding spare_def by auto
    qed
  qed
  then show ?thesis by (simp add: pays_def)
qed

end
