(* ===== verification/AllocatorAllocSpec.thy ===== *)
theory AllocatorAllocSpec
  imports AllocatorHeap
begin

text \<open>
  \<open>allocator_alloc\<close> as a whole: the lock of each shard tried, the walk, the fallback to the next
  shard and the failure counter. The two properties together say what a call does on every
  well-formed heap with every shard mutex free: it returns a span when some free block fits, and
  \<open>OUT_OF_MEMORY\<close> exactly when none does.
\<close>

text \<open>A thread about to call the allocator: it tracks no shard and every shard mutex is free.\<close>

definition ready :: "env \<Rightarrow> world \<Rightarrow> bool" where
  "ready E w \<longleftrightarrow> (\<forall>s < 4. mtx w (shard_mutex_at s) = MFree) \<and> held_shard w (env_tid E) = - 1"

lemma ready_set_bytes [simp]: "ready E (set_bytes m w) = ready E w"
  by (simp add: ready_def)

lemma note_shard_lock_ready:
  "held_shard w (env_tid E) = - 1 \<Longrightarrow> note_shard_lock E act s w = set_held (env_tid E) (sint s) w"
  by (simp add: note_shard_lock_def Let_def)

lemma release_restores:
  assumes "ready E w" and "s < 4" and "mu = shard_mutex_at s"
  shows "set_held (env_tid E) (- 1)
     (snd (pthread_mutex_unlock E mu
        (set_bytes m (set_held (env_tid E) v (set_mtx mu (MHeld (env_tid E) False) w)))))
      = set_bytes m w"
  using assms by (simp add: ready_def)

lemma attempts_step:
  assumes h: "heap_inv rg (bytes w)" and r: "ready E w" and a: "attempt < 4" and sh: "unat shard < 4"
    and s: "s = (unat shard + attempt) mod 4"
    and wk: "allocator_alloc_walk rg sz al (of_nat s) (shard_head_at s) (ah_head (bytes w) s) (bytes w)
        = Some (out, m')"
  shows "allocator_alloc_attempts E rg sz al shard attempt w =
     (case out of
        AllocOk ptr \<Rightarrow> Some ((STATUS_OK, Some ptr), set_bytes m' w)
      | AllocFail st \<Rightarrow> Some ((st, None), set_bytes m' w)
      | AllocNone \<Rightarrow> allocator_alloc_attempts E rg sz al shard (Suc attempt) (set_bytes m' w))"
proof -
  have s4: "s < 4" using s by simp
  have "unat (shard + of_nat attempt) = unat shard + attempt"
    using sh a by (subst unat_add_nowrap) (simp_all add: unat_of_nat)
  then have us: "unat ((shard + of_nat attempt) mod 4) = s" by (simp add: unat_mod s)
  then have ts: "(shard + of_nat attempt) mod 4 = (of_nat s :: u32)"
    by (metis of_nat_unat ucast_id)
  have us': "unat (of_nat s :: u32) = s" using us ts by simp
  have fr: "mtx w (shard_mutex_at s) = MFree" "held_shard w (env_tid E) = - 1"
    using r s4 by (simp_all add: ready_def)
  have v: "allocator_header_valid (Some rg) (allocator_header (Some rg)) (bytes w)"
    using h by (simp add: heap_inv_def header_inv_def)
  have rel: "set_held (env_tid E) (- 1)
     (snd (pthread_mutex_unlock E (shard_mutex_at s)
        (set_bytes m' (set_held (env_tid E) v (set_mtx (shard_mutex_at s) (MHeld (env_tid E) False) w)))))
      = set_bytes m' w" for v
    using release_restores [OF r s4 refl] .
  show ?thesis
    apply (subst allocator_alloc_attempts.simps)
    using a fr v wk rel
    by (simp add: ts us' Let_def note_shard_lock_ready header_mut_eq del: setters_commute
        split: alloc_outcome.split)
qed

text \<open>The contract of a successful call: a fresh span \<open>p \<mapsto> n\<close> of at least the requested size,
  aligned, and everything that was live before unchanged.\<close>

definition alloc_grants :: "ShmRegion \<Rightarrow> nat \<Rightarrow> nat \<Rightarrow> mem \<Rightarrow> nat \<Rightarrow> nat \<Rightarrow> mem \<Rightarrow> bool" where
  "alloc_grants rg sz al m p n m' \<longleftrightarrow>
     heap_inv rg m' \<and> heap_abs m p = None \<and> heap_abs m' = (heap_abs m)(p \<mapsto> n) \<and>
     sz \<le> n \<and> p mod al = 0 \<and> same_on m m' 0 2688 \<and> same_on m m' 2720 2728 \<and>
     (\<forall>q j. heap_abs m q = Some j \<longrightarrow> same_on m m' q (q + j)) \<and>
     serves al (round_up sz 16) m' p \<and> blocks_kept m m' \<and> pays spare (round_up sz 16 + al + 112) m m' \<and>
     (\<exists>b \<in> free_blocks m. p = b + payload_off al b)"

lemma took_grants:
  assumes h: "heap_inv rg m" and s: "s < 4" and r: "req_ok sz al"
    and ok: "shard_ok m (shard_lo m s) (shard_lo m s + shard_len m) (ah_head m s) s bs fs"
    and b: "b \<in> set fs" and po: "po = payload_off (unat al) b"
    and took: "shard_took (shard_head_at s) (shard_lo m s) (shard_lo m s + shard_len m) s m bs b
                po (need (unat al) (unat sz) b) m' bs' fs'"
  shows "\<exists>n. alloc_grants rg (unat sz) (unat al) m (b + po) n m'"
proof -
  have al: "0 < unat al" using req_okD [OF r] by (metis gr0I not_numeral_le_zero)
  have "po + unat sz \<le> need (unat al) (unat sz) b" using need_bounds(1) po by simp
  note t = took_heap [OF h s ok b this took]
  have "(b + po) mod unat al = 0" using payload_off_bounds(3) [OF al] po by simp
  moreover have "round_up (unat sz) 16 = unat sz" using req_okD [OF r] by (metis round_up_eq zero_less_numeral mod_eq_0_iff_dvd)
  moreover note took_blocks [OF h s ok b refl took] took_pays [OF h s al ok b refl took]
  moreover have "b \<in> free_blocks m"
  proof -
    have "tiles m (shard_lo m s) (shard_lo m s + shard_len m) bs" using ok by (simp add: shard_ok_def)
    then show ?thesis using ok b used_in_eq(2) free_in_blocks [OF s] by (fastforce simp: shard_ok_def)
  qed
  ultimately show ?thesis using t po by (auto simp: alloc_grants_def)
qed

lemma attempts_result:
  assumes h: "heap_inv rg (bytes w)" and r: "ready E w" and q: "req_ok sz al" and sh: "unat shard < 4"
    and a: "attempt \<le> 4"
  shows "(\<exists>p n m'. allocator_alloc_attempts E rg sz al shard attempt w
             = Some ((STATUS_OK, Some (rg_base rg + of_nat p)), set_bytes m' w) \<and>
           alloc_grants rg (unat sz) (unat al) (bytes w) p n m' \<and>
           (\<exists>b \<in> free_blocks (bytes w). fits (bytes w) (unat al) (unat sz) b)) \<or>
         allocator_alloc_attempts E rg sz al shard attempt w
             = Some ((STATUS_OUT_OF_MEMORY, None),
                     set_bytes (st64 (bytes w) 2720 (ah_failures (bytes w) + 1)) w) \<and>
           (\<forall>t. attempt \<le> t \<and> t < 4 \<longrightarrow>
              (\<forall>b \<in> free_in (bytes w) ((unat shard + t) mod 4). \<not> fits (bytes w) (unat al) (unat sz) b))"
  using a
proof (induction attempt rule: inc_induct)
  case base
  then show ?case by (subst (2) allocator_alloc_attempts.simps) auto
next
  case (step a)
  define s where "s = (unat shard + a) mod 4"
  have s4: "s < 4" by (simp add: s_def)
  have us: "unat (of_nat s :: u32) = s" using s4 by (simp add: unat_of_nat)
  have hi: "header_inv rg (bytes w)" using h by (simp add: heap_inv_def)
  obtain bs fs where ok: "shard_ok (bytes w) (shard_lo (bytes w) s) (shard_lo (bytes w) s + shard_len (bytes w))
      (ah_head (bytes w) s) s bs fs" and fs: "free_in (bytes w) s = set fs"
    using heap_shard [OF h s4] by metis
  note st = attempts_step [OF h r step.hyps(2) sh s_def]
  from walk_first_fit [OF hi s4 us q ok] show ?case
  proof (elim disjE exE conjE)
    assume no: "\<forall>f \<in> set fs. \<not> fits (bytes w) (unat al) (unat sz) f"
      and wk: "allocator_alloc_walk rg sz al (of_nat s) (shard_head_at s) (ah_head (bytes w) s) (bytes w)
        = Some (AllocNone, bytes w)"
    have "allocator_alloc_attempts E rg sz al shard a w
        = allocator_alloc_attempts E rg sz al shard (Suc a) w" using st [OF wk] by simp
    moreover have "a \<le> t \<longleftrightarrow> t = a \<or> Suc a \<le> t" for t by auto
    ultimately show ?thesis using step.IH no fs by (auto simp: s_def)
  next
    fix us b vs po ptr m' bs' fs'
    assume f: "fs = us @ b # vs" "fits (bytes w) (unat al) (unat sz) b" "po = payload_off (unat al) b"
      "ptr = rg_base rg + of_nat (b + po)"
      and wk: "allocator_alloc_walk rg sz al (of_nat s) (shard_head_at s) (ah_head (bytes w) s) (bytes w)
        = Some (AllocOk ptr, m')"
      and took: "shard_took (shard_head_at s) (shard_lo (bytes w) s) (shard_lo (bytes w) s + shard_len (bytes w))
              s (bytes w) bs b po (need (unat al) (unat sz) b) m' bs' fs'"
    have b: "b \<in> set fs" using f by simp
    have "b \<in> free_blocks (bytes w)" using free_in_blocks [OF s4] fs b by simp
    moreover obtain n where "alloc_grants rg (unat sz) (unat al) (bytes w) (b + po) n m'"
      using took_grants [OF h s4 q ok b f(3) took] by blast
    moreover have "allocator_alloc_attempts E rg sz al shard a w
        = Some ((STATUS_OK, Some (rg_base rg + of_nat (b + po))), set_bytes m' w)"
      using st [OF wk] f(4) by simp
    ultimately show ?thesis using f(2) by blast
  qed
qed

lemma free_blocks_cover:
  assumes "b \<in> free_blocks m" and "unat (shard :: u32) < 4"
  obtains t where "t < 4" and "b \<in> free_in m ((unat shard + t) mod 4)"
proof -
  obtain s where s: "s < 4" "b \<in> free_in m s" using assms(1) by (auto simp: free_blocks_def)
  have "(unat shard + (s + 4 - unat shard) mod 4) mod 4 = s"
    using s assms(2) by (simp add: mod_add_right_eq)
  then show ?thesis using that [of "(s + 4 - unat shard) mod 4"] s(2) by simp
qed

section \<open>The whole call\<close>

text \<open>What a caller may ask for: any positive size up to \<open>2 ^ 62\<close>, and an alignment below 16 (then
  raised to 16) or a power of two up to \<open>2 ^ 31\<close>.\<close>

definition valid_request :: "u64 \<Rightarrow> u64 \<Rightarrow> bool" where
  "valid_request sz al \<longleftrightarrow>
     0 < unat sz \<and> unat sz \<le> 2 ^ 62 \<and> (unat al < 16 \<or> (\<exists>k. 4 \<le> k \<and> k \<le> 31 \<and> unat al = 2 ^ k))"

definition req_align :: "u64 \<Rightarrow> nat" where
  "req_align al = (if unat al < 16 then 16 else unat al)"

definition req_size :: "u64 \<Rightarrow> nat" where
  "req_size sz = round_up (unat sz) 16"

lemma select_shard_less: "unat (allocator_select_shard sz) < 4"
proof -
  have "unat ((sz XOR drop_bit 17 sz) AND 3 :: u64) \<le> 3"
    using word_and_le1 [of "sz XOR drop_bit 17 sz" 3] by (simp add: word_le_nat_alt)
  then have "unat (ucast ((sz XOR drop_bit 17 sz) AND 3) :: u32) \<le> 3"
    by (subst unat_ucast_32) simp_all
  then show ?thesis by (simp add: allocator_select_shard_def Let_def)
qed

lemma alloc_calls_attempts:
  assumes h: "heap_inv rg (bytes w)" and v: "valid_request sz al"
  shows "\<exists>sz' al'. req_ok sz' al' \<and> unat sz' = req_size sz \<and> unat al' = req_align al \<and>
     allocator_alloc E (Some rg) sz al True w
       = allocator_alloc_attempts E rg sz' al' (allocator_select_shard sz') 0 w"
proof -
  have u16: "unat (16 :: u64) = 2 ^ 4" by simp
  obtain sz' where s: "allocator_align_up sz 16 = Some sz'" "unat sz' = round_up (unat sz) 16"
    using align_up_pow2 [OF u16, of sz] v by (auto simp: valid_request_def)
  have sb: "0 < unat sz'" "unat sz' \<le> 2 ^ 62"
  proof -
    show "0 < unat sz'" using s round_up_ge [of 16 "unat sz"] v by (simp add: valid_request_def)
    have "unat sz' < 2 ^ 62 + 16" using s round_up_less [of 16 "unat sz"] v by (simp add: valid_request_def)
    moreover have "unat sz' mod 16 = 0" using s by simp
    ultimately show "unat sz' \<le> 2 ^ 62" by simp presburger
  qed
  define al' where "al' = (if al < 16 then 16 else al)"
  have ua: "unat al' = req_align al" by (simp add: al'_def req_align_def word_less_nat_alt)
  have "req_ok sz' al'"
    using v s sb ua by (auto simp: req_ok_def req_align_def valid_request_def intro: exI [of _ 4])
  moreover have "allocator_header (Some rg) \<noteq> None"
    "allocator_header_valid (Some rg) (allocator_header (Some rg)) (bytes w)" "sz \<noteq> 0"
    using h header_invD(3) v by (auto simp: heap_inv_def header_inv_def valid_request_def)
  then have "allocator_alloc E (Some rg) sz al True w
      = allocator_alloc_attempts E rg sz' al' (allocator_select_shard sz') 0 w"
    by (auto simp: allocator_alloc_def Let_def s(1) header_mut_eq al'_def)
  ultimately show ?thesis using s ua by (auto simp: req_size_def)
qed

lemma alloc_runs:
  assumes h: "heap_inv rg (bytes w)" and r: "ready E w" and v: "valid_request sz al"
    and b: "b \<in> free_blocks (bytes w)" "fits (bytes w) (req_align al) (req_size sz) b"
  shows "\<exists>p n m'. allocator_alloc E (Some rg) sz al True w
             = Some ((STATUS_OK, Some (rg_base rg + of_nat p)), set_bytes m' w) \<and>
           alloc_grants rg (unat sz) (req_align al) (bytes w) p n m' \<and>
           (\<forall>q j. heap_abs (bytes w) q = Some j \<longrightarrow> p + n \<le> q \<or> q + j \<le> p)"
proof -
  obtain sz' al' where q: "req_ok sz' al'" "unat sz' = req_size sz" "unat al' = req_align al"
    and e: "allocator_alloc E (Some rg) sz al True w
       = allocator_alloc_attempts E rg sz' al' (allocator_select_shard sz') 0 w"
    using alloc_calls_attempts [OF h v] by blast
  obtain t where t: "t < 4" "b \<in> free_in (bytes w) ((unat (allocator_select_shard sz') + t) mod 4)"
    using free_blocks_cover [OF b(1) select_shard_less] .
  obtain p n m' where p: "allocator_alloc_attempts E rg sz' al' (allocator_select_shard sz') 0 w
      = Some ((STATUS_OK, Some (rg_base rg + of_nat p)), set_bytes m' w)"
    "alloc_grants rg (unat sz') (unat al') (bytes w) p n m'"
    using attempts_result [OF h r q(1) select_shard_less, of 0 sz'] b(2) t q by fastforce
  have "unat sz \<le> req_size sz" by (simp add: req_size_def round_up_ge)
  then have g: "alloc_grants rg (unat sz) (req_align al) (bytes w) p n m'"
    using p(2) q by (simp add: alloc_grants_def req_size_def round_up_eq)
  have "p + n \<le> q \<or> q + j \<le> p" if "heap_abs (bytes w) q = Some j" for q j
  proof -
    have "q \<noteq> p" using that g by (auto simp: alloc_grants_def)
    then show ?thesis using g that heap_abs_disjoint [of rg m' p n q j] by (simp add: alloc_grants_def)
  qed
  with p(1) g e show ?thesis by auto
qed

text \<open>C8: When some free block can hold the request, \<open>allocator_alloc\<close> returns \<open>OK\<close> and a pointer to
  a fresh span: it is at least as long as the request, aligned as asked, disjoint from every live
  allocation, the heap stays well formed, the bytes of every live allocation and of the region
  header are unchanged, and every lock is released.\<close>

theorem allocator_alloc_grants:
  assumes h: "heap_inv rg (bytes w)" and r: "ready E w" and v: "valid_request sz al"
    and b: "b \<in> free_blocks (bytes w)" "fits (bytes w) (req_align al) (req_size sz) b"
  shows "\<exists>p n m'. allocator_alloc E (Some rg) sz al True w
             = Some ((STATUS_OK, Some (rg_base rg + of_nat p)), set_bytes m' w) \<and>
           alloc_grants rg (unat sz) (req_align al) (bytes w) p n m' \<and>
           (\<forall>q j. heap_abs (bytes w) q = Some j \<longrightarrow> p + n \<le> q \<or> q + j \<le> p)"
  using alloc_runs [OF assms] .

lemma alloc_exhausted:
  assumes h: "heap_inv rg (bytes w)" and r: "ready E w" and v: "valid_request sz al"
    and no: "\<forall>b \<in> free_blocks (bytes w). \<not> fits (bytes w) (req_align al) (req_size sz) b"
  shows "\<exists>m'. allocator_alloc E (Some rg) sz al True w = Some ((STATUS_OUT_OF_MEMORY, None), set_bytes m' w) \<and>
           m' = st64 (bytes w) 2720 (ah_failures (bytes w) + 1) \<and>
           heap_inv rg m' \<and> heap_abs m' = heap_abs (bytes w) \<and> ah_failures m' = ah_failures (bytes w) + 1"
proof -
  let ?m = "st64 (bytes w) 2720 (ah_failures (bytes w) + 1)"
  obtain sz' al' where q: "req_ok sz' al'" "unat sz' = req_size sz" "unat al' = req_align al"
    and e: "allocator_alloc E (Some rg) sz al True w
       = allocator_alloc_attempts E rg sz' al' (allocator_select_shard sz') 0 w"
    using alloc_calls_attempts [OF h v] by blast
  have "allocator_alloc_attempts E rg sz' al' (allocator_select_shard sz') 0 w
      = Some ((STATUS_OUT_OF_MEMORY, None), set_bytes ?m w)"
    using attempts_result [OF h r q(1) select_shard_less, of 0 sz'] no q by auto
  moreover have fr: "?m x = bytes w x" if "\<not> outside_heap_meta (bytes w) x" for x
    using that by (intro st64_outside) (auto simp: outside_heap_meta_def)
  have "heap_inv rg ?m" "heap_abs ?m = heap_abs (bytes w)"
    using heap_write(1,2) [OF h fr] by simp_all
  moreover have "ah_failures ?m = ah_failures (bytes w) + 1" by (simp add: ah_failures_def)
  ultimately show ?thesis using e by auto
qed

text \<open>C22: When no free block of any shard can hold the request, \<open>allocator_alloc\<close> returns
  \<open>OUT_OF_MEMORY\<close>; the only byte change is the failure counter, and the heap is as before.\<close>

theorem allocator_alloc_out_of_memory:
  assumes h: "heap_inv rg (bytes w)" and r: "ready E w" and v: "valid_request sz al"
    and no: "\<forall>b \<in> free_blocks (bytes w). \<not> fits (bytes w) (req_align al) (req_size sz) b"
  shows "\<exists>m'. allocator_alloc E (Some rg) sz al True w = Some ((STATUS_OUT_OF_MEMORY, None), set_bytes m' w) \<and>
           m' = st64 (bytes w) 2720 (ah_failures (bytes w) + 1) \<and>
           heap_inv rg m' \<and> heap_abs m' = heap_abs (bytes w) \<and> ah_failures m' = ah_failures (bytes w) + 1"
  using alloc_exhausted [OF assms] .

end
