(* ===== verification/AllocatorInitSpec.thy ===== *)
theory AllocatorInitSpec
  imports AllocatorAllocSpec
begin

text \<open>
  \<open>allocator_init\<close> establishes the heap invariant: on a mapped region large enough for four
  minimal shards, with the region's allocator mutex free, it returns \<open>OK\<close>, the heap is well
  formed and empty, every shard is one free block, and every shard mutex is initialized. The
  region and the world built here are the concrete instance the properties of the allocator
  are applied to.
\<close>

lemma header_inv_written:
  assumes rg: "region_ok rg" and sz: "2736 + 224 \<le> unat (rg_size rg)"
  shows "header_inv rg (allocator_write_header 2736 (rg_size rg - 2736) m)" (is "header_inv rg ?m")
    and "shard_len (allocator_write_header 2736 (rg_size rg - 2736) m) = (unat (rg_size rg) - 2736) div 4"
    and "ah_heap_offset (allocator_write_header 2736 (rg_size rg - 2736) m) = 2736"
    and "ah_heap_size (allocator_write_header 2736 (rg_size rg - 2736) m) = rg_size rg - 2736"
    and "ah_failures (allocator_write_header 2736 (rg_size rg - 2736) m) = 0"
proof -
  let ?hs = "rg_size rg - 2736"
  have f: "ah_magic ?m = ALLOCATOR_MAGIC" "ah_version ?m = 3" "ah_shard_count ?m = 4"
    "ah_heap_offset ?m = 2736" "ah_heap_size ?m = ?hs"
    by (simp_all add: allocator_write_header_def Let_def ah_magic_def ah_version_def ah_shard_count_def
        ah_heap_offset_def ah_heap_size_def)
  show "ah_failures ?m = 0" by (simp add: allocator_write_header_def ah_failures_def)
  show "ah_heap_offset ?m = 2736" "ah_heap_size ?m = ?hs" using f by simp_all
  have u: "unat ?hs = unat (rg_size rg) - 2736" using sz by (subst unat_diff_le) simp_all
  show l: "shard_len ?m = (unat (rg_size rg) - 2736) div 4" by (simp add: shard_len_def f u)
  have h: "allocator_header (Some rg) \<noteq> None"
    using region_okD(1) [OF rg] sz by (simp add: allocator_header_def word_less_nat_alt)
  have "\<not> rg_size rg \<le> 2736" "\<not> rg_size rg < ?hs"
    using sz u by (simp_all add: word_less_nat_alt word_le_nat_alt)
  then have "allocator_header_valid (Some rg) (allocator_header (Some rg)) ?m"
    using h by (simp add: allocator_header_valid_def f)
  then show "header_inv rg ?m" using rg l sz by (simp add: header_inv_def f)
qed

text \<open>A shard that is one free block.\<close>

definition fresh_shard :: "mem \<Rightarrow> nat \<Rightarrow> bool" where
  "fresh_shard m s \<longleftrightarrow> ah_head m s = of_nat (shard_lo m s) \<and>
     get_block m (shard_lo m s) =
       \<lparr>bh_size = of_nat (shard_len m), bh_next_free = 0, bh_flags = 1, bh_shard = of_nat s, bh_payload_offset = 0\<rparr>"

lemma fresh_shard_ok:
  assumes h: "header_inv rg m" and s: "s < 4" and f: "fresh_shard m s"
  shows "shard_ok m (shard_lo m s) (shard_lo m s + shard_len m) (ah_head m s) s [shard_lo m s] [shard_lo m s]"
proof -
  note r = shard_range(1,2) [OF h s]
  have b: "shard_lo m s + shard_len m < 18446744073709551616"
    using r(2) unat_less_2p64 [of "rg_size rg"] by linarith
  then have u: "unat (of_nat (shard_len m) :: u64) = shard_len m" "unat (of_nat (shard_lo m s) :: u64) = shard_lo m s"
    by (simp_all add: unat_of_nat_small)
  have "56 \<le> shard_len m" using h by (simp add: header_inv_def)
  moreover have "unat (of_nat s :: u32) = s" using s by (simp add: unat_of_nat)
  moreover have "of_nat (shard_lo m s) \<noteq> (0 :: u64)" using u(2) r(1) by auto
  ultimately show ?thesis using f u
    by (auto simp: fresh_shard_def shard_ok_def is_free_def blk_ok_def)
qed

lemma fresh_shard_same_on:
  assumes "same_on m m' 2496 2528" "same_on m m' (shard_lo m s) (shard_lo m s + shard_len m)"
    "56 \<le> shard_len m" "ah_head m' s = ah_head m s" "fresh_shard m s"
  shows "fresh_shard m' s"
proof -
  have "get_block m' (shard_lo m s) = get_block m (shard_lo m s)"
    using assms(2,3) by (intro get_block_same_on) (auto elim: same_on_sub)
  then show ?thesis using assms(4,5) header_inv_same_on [OF assms(1)] by (simp add: fresh_shard_def)
qed

text \<open>One iteration of the loop that installs the shards' first blocks.\<close>

lemma init_block_step:
  assumes h: "header_inv rg m" and s: "s < 4"
  obtains m' where "allocator_init_blocks rg (ah_heap_offset m) (ah_heap_size m) s m
      = allocator_init_blocks rg (ah_heap_offset m) (ah_heap_size m) (Suc s) m'"
    "shard_local m s m'" "fresh_shard m' s"
proof -
  let ?lo = "shard_lo m s"
  define sh where "sh = allocator_shard_heap_offset (ah_heap_offset m) (ah_heap_size m) (of_nat s)"
  define sl where "sl = allocator_shard_heap_size (ah_heap_size m)"
  have us: "unat (of_nat s :: u32) = s" using s by (simp add: unat_of_nat)
  have u: "unat sh = ?lo" "unat sl = shard_len m" using shard_words [OF h us s] by (simp_all add: sh_def sl_def)
  have rg: "region_ok rg" and l56: "56 \<le> shard_len m" using h by (simp_all add: header_inv_def)
  note r = shard_range(1,2) [OF h s]
  have blk: "allocator_block_from_offset rg sh = Some (rg_base rg + sh)"
    using u r l56 by (intro block_from_offset_ok [OF rg]) auto
  define m1 where "m1 = st64 m (shard_head_at s) sh"
  define m' where "m' = set_bh_payload_offset ?lo 0 (set_bh_shard ?lo (of_nat s)
     (set_bh_flags ?lo 1 (set_bh_next_free ?lo 0 (set_bh_size ?lo sl m1))))"
  have e: "allocator_init_blocks rg (ah_heap_offset m) (ah_heap_size m) s m
      = allocator_init_blocks rg (ah_heap_offset m) (ah_heap_size m) (Suc s) m'"
    apply (subst allocator_init_blocks.simps)
    using s blk u(1) by (simp add: Let_def sh_def sl_def m'_def m1_def offset_ptr_null_def)
  have l: "shard_local m s m'"
    using l56 by (auto simp: shard_local_def m'_def m1_def setters_outside st64_outside)
  have "get_block m' ?lo = \<lparr>bh_size = sl, bh_next_free = 0, bh_flags = 1, bh_shard = of_nat s, bh_payload_offset = 0\<rparr>"
    by (cases "get_block m1 ?lo") (simp add: m'_def)
  moreover have "ah_head m' s = sh"
    using r(1) s by (simp add: ah_head_def m'_def m1_def)
  moreover have "sl = of_nat (shard_len m)" "sh = of_nat ?lo" using u by (simp_all flip: u)
  ultimately have "fresh_shard m' s" using shard_local_low [OF h s l] by (simp add: fresh_shard_def)
  with e l that show ?thesis by blast
qed

lemma init_blocks_fresh:
  assumes "s \<le> 4" and "header_inv rg m" and "\<forall>t < s. fresh_shard m t"
  shows "\<exists>m'. allocator_init_blocks rg (ah_heap_offset m) (ah_heap_size m) s m = (True, m') \<and>
     header_inv rg m' \<and> same_on m m' 0 2688 \<and> same_on m m' 2720 2728 \<and> (\<forall>t < 4. fresh_shard m' t)"
  using assms
proof (induction s arbitrary: m rule: inc_induct)
  case base
  then show ?case by (subst allocator_init_blocks.simps) simp
next
  case (step s)
  obtain m1 where e: "allocator_init_blocks rg (ah_heap_offset m) (ah_heap_size m) s m
      = allocator_init_blocks rg (ah_heap_offset m) (ah_heap_size m) (Suc s) m1"
    and l: "shard_local m s m1" and f: "fresh_shard m1 s"
    using init_block_step [OF step.prems(1) step.hyps(2)] .
  note lw = shard_local_low [OF step.prems(1) step.hyps(2) l]
  have so: "same_on m m1 2496 2528" using lw(1) by (rule same_on_sub) simp_all
  have "fresh_shard m1 t" if "t < Suc s" for t
  proof (cases "t = s")
    case True
    then show ?thesis using f by simp
  next
    case False
    then have t: "t < 4" "t \<noteq> s" "t < s" using that step.hyps by auto
    have "56 \<le> shard_len m" using step.prems(1) by (simp add: header_inv_def)
    then show ?thesis
      using fresh_shard_same_on [OF so] shard_local_other [OF step.prems(1) step.hyps(2) l t(1,2)]
        step.prems(2) t(3) by blast
  qed
  then obtain m' where "allocator_init_blocks rg (ah_heap_offset m1) (ah_heap_size m1) (Suc s) m1 = (True, m')"
    "header_inv rg m'" "same_on m1 m' 0 2688" "same_on m1 m' 2720 2728" "\<forall>t < 4. fresh_shard m' t"
    using step.IH [OF lw(3)] by blast
  then show ?case using e header_same_on [OF so] lw(1,2) same_on_trans by metis
qed

lemma init_mutexes_ok:
  assumes "s \<le> 4" and "\<And>t. t < 4 \<Longrightarrow> rc_mutex_init E (shard_mutex_at t) = 0"
  shows "\<exists>w'. allocator_init_mutexes E s w = (True, w') \<and> bytes w' = bytes w \<and> rwl w' = rwl w \<and>
     held_shard w' = held_shard w \<and> dlog w' = dlog w \<and>
     mtx w' = (\<lambda>a. if \<exists>t. s \<le> t \<and> t < 4 \<and> a = shard_mutex_at t then MFree else mtx w a)"
  using assms(1)
proof (induction s arbitrary: w rule: inc_induct)
  case base
  then show ?case by (subst allocator_init_mutexes.simps) (auto simp: fun_eq_iff)
next
  case (step s)
  let ?w = "set_mtx (shard_mutex_at s) MFree w"
  have e: "allocator_init_mutexes E s w = allocator_init_mutexes E (Suc s) ?w"
    by (subst allocator_init_mutexes.simps) (use step.hyps assms(2) in \<open>simp add: pthread_mutex_init_def\<close>)
  have "s \<le> t \<longleftrightarrow> t = s \<or> Suc s \<le> t" for t by auto
  with step.IH [of ?w] step.hyps show ?case unfolding e by (auto simp: fun_eq_iff)
qed

text \<open>Four fresh shards are a well-formed heap with nothing allocated.\<close>

lemma fresh_heap:
  assumes h: "header_inv rg m" and f: "\<forall>t < 4. fresh_shard m t"
  shows "heap_inv rg m" and "heap_abs m = Map.empty" and "free_blocks m = shard_lo m ` {..<4}"
    and "\<forall>s < 4. bsz m (shard_lo m s) = shard_len m"
proof -
  note ok = fresh_shard_ok [OF h]
  show inv: "heap_inv rg m" unfolding heap_inv_def using h f ok by blast
  have t: "tiles m (shard_lo m s) (shard_lo m s + shard_len m) [shard_lo m s]" if "s < 4" for s
    using ok [OF that] f that by (auto simp: shard_ok_def)
  show "\<forall>s < 4. bsz m (shard_lo m s) = shard_len m" using t by auto
  have fr: "is_free m (shard_lo m s)" if "s < 4" for s using f that by (simp add: fresh_shard_def is_free_def)
  have "used_in m s = {}" "free_in m s = {shard_lo m s}" if "s < 4" for s
    using used_in_eq [OF t [OF that]] fr [OF that] by auto
  then have "used_blocks m = {}" and "free_blocks m = shard_lo m ` {..<4}"
    by (auto simp: used_blocks_def free_blocks_def)
  then show "free_blocks m = shard_lo m ` {..<4}" "heap_abs m = Map.empty"
    by (auto simp: heap_abs_def)
qed

lemma region_offsets_eq:
  assumes "region_ok rg" and "2736 + 224 \<le> unat (rg_size rg)"
  shows "allocator_region_offsets (Some rg) = Some (2736, rg_size rg - 2736)"
proof -
  have "allocator_align_up 2728 16 = Some 2736"
    by (simp add: allocator_align_up_def word_less_nat_alt)
  then show ?thesis using assms(2) by (simp add: allocator_region_offsets_def word_less_nat_alt word_le_nat_alt)
qed

text \<open>The calls of POSIX that \<open>allocator_init\<close> makes succeed.\<close>

definition init_calls_ok :: "env \<Rightarrow> bool" where
  "init_calls_ok E \<longleftrightarrow>
     rc_mutexattr_init E = 0 \<and> rc_mutexattr_setpshared E = 0 \<and> (\<forall>a. rc_mutex_init E a = 0)"

lemma init_ok:
  assumes rg: "region_ok rg" and sz: "2960 \<le> unat (rg_size rg)"
    and mu: "mtx w HDR_allocator_mutex = MFree" and rc: "init_calls_ok E"
    and nv: "\<not> allocator_header_valid (Some rg) (allocator_header (Some rg)) (bytes w)"
  shows "\<exists>w'. allocator_init E (Some rg) w = Some (STATUS_OK, w') \<and>
     header_inv rg (bytes w') \<and> (\<forall>s < 4. fresh_shard (bytes w') s) \<and> ah_failures (bytes w') = 0 \<and>
     shard_len (bytes w') = (unat (rg_size rg) - 2736) div 4 \<and> unat (ah_heap_offset (bytes w')) = 2736 \<and>
     same_on (bytes w) (bytes w') 0 2496 \<and>
     mtx w' = (\<lambda>a. if \<exists>s < 4. a = shard_mutex_at s then MFree else mtx w a) \<and>
     rwl w' = rwl w \<and> held_shard w' = held_shard w \<and> dlog w' = dlog w"
proof -
  let ?hs = "rg_size rg - 2736" and ?am = "HDR_allocator_mutex"
  let ?w1 = "set_mtx ?am (MHeld (env_tid E) False) w"
  let ?w2 = "set_bytes (allocator_write_header 2736 ?hs (bytes w)) ?w1"
  have sz': "2736 + 224 \<le> unat (rg_size rg)" using sz by simp
  note wh = header_inv_written [OF rg sz', of "bytes w"]
  obtain w3 where m: "allocator_init_mutexes E 0 ?w2 = (True, w3)" "bytes w3 = bytes ?w2" "rwl w3 = rwl w"
      "held_shard w3 = held_shard w" "dlog w3 = dlog w"
      "mtx w3 = (\<lambda>a. if \<exists>t. 0 \<le> t \<and> t < 4 \<and> a = shard_mutex_at t then MFree else mtx ?w2 a)"
    using init_mutexes_ok [of 0 E ?w2] rc by (auto simp: init_calls_ok_def)
  obtain m' where b: "allocator_init_blocks rg 2736 ?hs 0 (bytes w3) = (True, m')"
    and b': "header_inv rg m'" "same_on (bytes w3) m' 0 2688" "same_on (bytes w3) m' 2720 2728"
      "\<forall>t < 4. fresh_shard m' t"
    using init_blocks_fresh [of 0 rg "bytes w3"] wh m(2) by auto
  have hm: "allocator_header (Some rg) \<noteq> None" using header_invD(3) wh(1) by blast
  have hs: "\<not> ?hs < 56 * 4" using sz by (simp add: word_less_nat_alt unat_diff_le)
  have am: "mtx w3 ?am = MHeld (env_tid E) False" using m(6) by (auto simp: shard_mutex_at_def)
  define w' where "w' = set_bytes m' (set_mtx ?am MFree w3)"
  have e: "allocator_init E (Some rg) w = Some (STATUS_OK, w')"
    using mu region_okD(1) [OF rg] rc nv hm hs m(1) b am
    by (simp add: allocator_init_def shm_region_allocator_lock_def shm_region_allocator_mutex_def
        shm_region_header_def shm_region_lock_one_def shm_region_allocator_unlock_def
        shm_region_unlock_one_def region_offsets_eq [OF rg sz'] allocator_min_block_size_def header_mut_eq
        init_calls_ok_def w'_def Let_def)
  have lw: "same_on (bytes w) m' 0 2496"
  proof -
    have "same_on (bytes w) (bytes w3) 0 2496"
      by (simp add: m(2) same_on_def allocator_write_header_def Let_def st64_def st32_def wr_def)
    moreover have "same_on (bytes w3) m' 0 2496" using b'(2) by (rule same_on_sub) simp_all
    ultimately show ?thesis by (rule same_on_trans)
  qed
  have "ah_failures m' = ah_failures (bytes w3)"
    unfolding ah_failures_def using b'(3) by (intro ld64_same_on) simp
  moreover have "same_on (bytes w3) m' 2496 2528" using b'(2) by (rule same_on_sub) simp_all
  note header_inv_same_on(3) [OF this] header_same_on(4) [OF this]
  moreover have "mtx w' = (\<lambda>a. if \<exists>s < 4. a = shard_mutex_at s then MFree else mtx w a)"
    using m(6) mu by (auto simp: w'_def fun_eq_iff)
  ultimately show ?thesis using e b'(1,4) lw wh(2,3,5) m(2-5) by (simp add: w'_def)
qed

text \<open>C10: On a mapped region of at least 2960 bytes whose allocator mutex is free and which holds no
  allocator yet, \<open>allocator_init\<close> returns \<open>OK\<close>, establishes the heap invariant with nothing allocated
  and one free block per shard, initializes the shard mutexes, releases the allocator mutex and
  leaves the region header untouched.\<close>

theorem allocator_init_establishes:
  assumes "region_ok rg" and "2960 \<le> unat (rg_size rg)"
    and "mtx w HDR_allocator_mutex = MFree" and "init_calls_ok E"
    and "\<not> allocator_header_valid (Some rg) (allocator_header (Some rg)) (bytes w)"
  shows "\<exists>w' L. allocator_init E (Some rg) w = Some (STATUS_OK, w') \<and>
     L = (unat (rg_size rg) - 2736) div 4 \<and>
     heap_inv rg (bytes w') \<and> heap_abs (bytes w') = Map.empty \<and> ah_failures (bytes w') = 0 \<and>
     free_blocks (bytes w') = (\<lambda>s. 2736 + s * L) ` {..<4} \<and>
     (\<forall>s < 4. bsz (bytes w') (2736 + s * L) = L) \<and>
     (\<forall>s < 4. mtx w' (shard_mutex_at s) = MFree) \<and> mtx w' HDR_allocator_mutex = MFree \<and>
     held_shard w' = held_shard w \<and> same_on (bytes w) (bytes w') 0 2496"
proof -
  obtain w' where w': "allocator_init E (Some rg) w = Some (STATUS_OK, w')" "header_inv rg (bytes w')"
     "\<forall>s < 4. fresh_shard (bytes w') s" "ah_failures (bytes w') = 0"
     "shard_len (bytes w') = (unat (rg_size rg) - 2736) div 4" "unat (ah_heap_offset (bytes w')) = 2736"
     "same_on (bytes w) (bytes w') 0 2496" "held_shard w' = held_shard w"
     "mtx w' = (\<lambda>a. if \<exists>s < 4. a = shard_mutex_at s then MFree else mtx w a)"
    using init_ok [OF assms] by blast
  have "shard_lo (bytes w') = (\<lambda>s. 2736 + s * shard_len (bytes w'))" using w'(6) by (simp add: shard_lo_def fun_eq_iff)
  then show ?thesis using w' fresh_heap [OF w'(2,3)] assms(3) by auto
qed

section \<open>A concrete heap\<close>

definition demo_world :: world where
  "demo_world = snd (the (allocator_init demo_env (Some demo_region) demo_blank))"

lemma demo_region_ok: "region_ok demo_region"
  by (simp add: region_ok_def mapping_ok_def demo_region_def)

lemma demo_init:
  "mtx demo_blank HDR_allocator_mutex = MFree" "init_calls_ok demo_env" "2960 \<le> unat (rg_size demo_region)"
  "\<not> allocator_header_valid (Some demo_region) (allocator_header (Some demo_region)) (bytes demo_blank)"
proof -
  show "mtx demo_blank HDR_allocator_mutex = MFree" "init_calls_ok demo_env" "2960 \<le> unat (rg_size demo_region)"
    by (simp_all add: demo_blank_def init_calls_ok_def demo_env_def demo_region_def)
  have "ah_magic (bytes demo_blank) = 0" by (simp add: ah_magic_def demo_blank_def ld64_zeros)
  then show "\<not> allocator_header_valid (Some demo_region) (allocator_header (Some demo_region)) (bytes demo_blank)"
    by (simp add: allocator_header_valid_def ALLOCATOR_MAGIC_def)
qed

lemma demo_facts:
  shows "allocator_init demo_env (Some demo_region) demo_blank = Some (STATUS_OK, demo_world)"
    and "heap_inv demo_region (bytes demo_world)" and "heap_abs (bytes demo_world) = Map.empty"
    and "ready demo_env demo_world" and "free_blocks (bytes demo_world) = (\<lambda>s. 2736 + s * 1364) ` {..<4}"
    and "s < 4 \<Longrightarrow> bsz (bytes demo_world) (2736 + s * 1364) = 1364"
    and "mtx demo_world 40 = MFree" and "rwl demo_world = (\<lambda>_. RWFree)"
    and "unat (ah_heap_offset (bytes demo_world)) = 2736" and "shard_len (bytes demo_world) = 1364"
proof -
  obtain w' where w': "allocator_init demo_env (Some demo_region) demo_blank = Some (STATUS_OK, w')"
     "header_inv demo_region (bytes w')" "\<forall>s < 4. fresh_shard (bytes w') s"
     "shard_len (bytes w') = (unat (rg_size demo_region) - 2736) div 4" "unat (ah_heap_offset (bytes w')) = 2736"
     "held_shard w' = held_shard demo_blank" "rwl w' = rwl demo_blank"
     "mtx w' = (\<lambda>a. if \<exists>s < 4. a = shard_mutex_at s then MFree else mtx demo_blank a)"
    using init_ok [OF demo_region_ok demo_init(3,1,2,4)] by blast
  have e: "demo_world = w'" by (simp add: demo_world_def w'(1))
  have l: "shard_len (bytes w') = 1364" using w'(4) by (simp add: demo_region_def)
  have sl: "shard_lo (bytes w') = (\<lambda>s. 2736 + s * 1364)" using w'(5) l by (simp add: shard_lo_def fun_eq_iff)
  note fh = fresh_heap [OF w'(2,3)]
  show "allocator_init demo_env (Some demo_region) demo_blank = Some (STATUS_OK, demo_world)" using w'(1) e by simp
  show "heap_inv demo_region (bytes demo_world)" "heap_abs (bytes demo_world) = Map.empty" using fh e by simp_all
  show "ready demo_env demo_world"
    using w'(6,8) e by (auto simp: ready_def demo_blank_def)
  show "free_blocks (bytes demo_world) = (\<lambda>s. 2736 + s * 1364) ` {..<4}" using fh(3) e sl by simp
  show "s < 4 \<Longrightarrow> bsz (bytes demo_world) (2736 + s * 1364) = 1364" using fh(4) e sl l by simp
  show "mtx demo_world 40 = MFree" using w'(8) e by (auto simp: demo_blank_def)
  show "unat (ah_heap_offset (bytes demo_world)) = 2736" using w'(5) e by simp
  show "shard_len (bytes demo_world) = 1364" using l e by simp
  show "rwl demo_world = (\<lambda>_. RWFree)" using w'(7) e by (simp add: demo_blank_def)
qed

theorem allocator_init_establishes_witness:
  "\<exists>w'. allocator_init demo_env (Some demo_region) demo_blank = Some (STATUS_OK, w') \<and>
     heap_inv demo_region (bytes w')"
  using allocator_init_establishes [OF demo_region_ok demo_init(3,1,2,4)] by blast

theorem allocator_alloc_grants_witness:
  "\<exists>p n m'. allocator_alloc demo_env (Some demo_region) 100 64 True demo_world
             = Some ((STATUS_OK, Some (rg_base demo_region + of_nat p)), set_bytes m' demo_world) \<and>
           alloc_grants demo_region 100 64 (bytes demo_world) p n m'"
proof -
  have b: "2736 \<in> free_blocks (bytes demo_world)" by (force simp: demo_facts(5))
  have v: "valid_request 100 64" by (auto simp: valid_request_def intro: exI [of _ 6])
  have f: "fits (bytes demo_world) (req_align 64) (req_size 100) 2736"
    using demo_facts(6) [of 0] by (simp add: fits_def need_def payload_off_def round_up_def req_align_def req_size_def)
  have "unat (100 :: u64) = 100" "req_align 64 = 64" by (simp_all add: req_align_def)
  then show ?thesis using allocator_alloc_grants [OF demo_facts(2,4) v b f] by auto
qed

theorem allocator_alloc_out_of_memory_witness:
  "\<exists>m'. allocator_alloc demo_env (Some demo_region) 4096 16 True demo_world
      = Some ((STATUS_OUT_OF_MEMORY, None), set_bytes m' demo_world) \<and> heap_inv demo_region m'"
proof -
  have v: "valid_request 4096 16" by (auto simp: valid_request_def intro: exI [of _ 4])
  have "\<not> fits (bytes demo_world) (req_align 16) (req_size 4096) b" if "b \<in> free_blocks (bytes demo_world)" for b
  proof -
    have "bsz (bytes demo_world) b = 1364" using that demo_facts(5,6) by auto
    moreover have "4096 \<le> need (req_align 16) (req_size 4096) b"
      using need_bounds(1) [of "req_align 16" b "req_size 4096"] round_up_ge [of 16 4096] by (simp add: req_size_def)
    ultimately show ?thesis by (simp add: fits_def)
  qed
  then show ?thesis using allocator_alloc_out_of_memory [OF demo_facts(2,4) v] by blast
qed

end
