(* ===== verification/AllocatorFreeSpec.thy ===== *)
theory AllocatorFreeSpec
  imports AllocatorInitSpec
begin

text \<open>
  \<open>allocator_free\<close>: the payload's prefix leads to its block, the block becomes the head of its
  shard's free list, and the map of live spans loses exactly that span. A second free of the same
  pointer is refused.
\<close>

text \<open>The memory after freeing block \<open>b\<close> of a shard whose list head is at \<open>hc\<close>.\<close>

definition freed :: "nat \<Rightarrow> OffsetPtr \<Rightarrow> nat \<Rightarrow> mem \<Rightarrow> mem" where
  "freed hc cur b m =
     st64 (set_bh_next_free b (ld64 m hc) (set_bh_payload_offset b 0 (set_bh_flags b 1 m))) hc cur"

lemma freed_bytes:
  assumes "hc + 8 \<le> b" and "unat cur = b"
  shows "get_block (freed hc cur b m) b =
      (get_block m b)\<lparr>bh_flags := 1, bh_payload_offset := 0, bh_next_free := ld64 m hc\<rparr>"
    and "ld64 (freed hc cur b m) hc = cur"
    and "(x < b \<or> b + 28 \<le> x) \<Longrightarrow> (x < hc \<or> hc + 8 \<le> x) \<Longrightarrow> freed hc cur b m x = m x"
  using assms by (simp_all add: freed_def st64_outside setters_outside)

lemma freed_shard_ok:
  assumes ok: "shard_ok m lo hi (ld64 m hc) s bs fs" and hc: "hc + 8 \<le> lo"
    and b: "b \<in> set bs" "\<not> is_free m b" and cur: "unat cur = b" "cur \<noteq> 0"
  shows "shard_ok (freed hc cur b m) lo hi cur s bs (b # fs)" (is "shard_ok ?m _ _ _ _ _ _")
    and "\<And>c. c \<in> set bs \<Longrightarrow> c \<noteq> b \<Longrightarrow> same_on m (freed hc cur b m) c (c + bsz m c)"
    and "{c \<in> set bs. \<not> is_free (freed hc cur b m) c} = {c \<in> set bs. \<not> is_free m c} - {b}"
    and "bsz (freed hc cur b m) b = bsz m b"
    and "\<And>c. c \<in> set bs \<Longrightarrow> c \<noteq> b \<Longrightarrow> is_free (freed hc cur b m) c = is_free m c \<and> bsz (freed hc cur b m) c = bsz m c"
proof -
  have t: "tiles m lo hi bs" and f: "set fs = {b \<in> set bs. is_free m b}" and d: "distinct fs"
    and p: "path m (ld64 m hc) fs 0" using ok by (simp_all add: shard_ok_def)
  note tb = tiles_mem [OF t b(1)]
  note fb = freed_bytes [of hc b cur, OF _ cur(1), where m = m]
  have hb: "hc + 8 \<le> b" using hc tb by simp
  show so: "same_on m ?m c (c + bsz m c)" if "c \<in> set bs" "c \<noteq> b" for c
    using tiles_disjoint [OF t that(1) b(1) that(2)] tiles_mem(1) [OF t that(1)] hc tb fb(3) [OF hb]
    by (auto simp: same_on_def)
  note ot = blk_ok_same_on [OF so tiles_mem(3) [OF t]]
  show sz: "bsz ?m b = bsz m b" using fb(1) [OF hb] by simp
  show "is_free ?m c = is_free m c \<and> bsz ?m c = bsz m c" if "c \<in> set bs" "c \<noteq> b" for c
    using ot(2) [OF that(1)] that by (simp add: is_free_def)
  have fr: "is_free ?m c \<longleftrightarrow> c = b \<or> is_free m c" if "c \<in> set bs" for c
    using ot(2) [of c] that fb(1) [OF hb] by (cases "c = b") (auto simp: is_free_def)
  then show "{c \<in> set bs. \<not> is_free ?m c} = {c \<in> set bs. \<not> is_free m c} - {b}" by auto
  have "tiles ?m lo hi bs = tiles m lo hi bs"
  proof (rule tiles_cong)
    fix c assume "c \<in> set bs"
    then show "bh_size (get_block ?m c) = bh_size (get_block m c)"
      using ot(2) [of c] fb(1) [OF hb] by (cases "c = b") auto
  qed
  moreover have "path ?m (ld64 m hc) fs 0 = path m (ld64 m hc) fs 0"
  proof (rule path_cong)
    fix c assume "c \<in> set fs"
    then have "c \<in> set bs" "c \<noteq> b" using f b by auto
    then show "bh_next_free (get_block ?m c) = bh_next_free (get_block m c)" using ot(2) by simp
  qed
  moreover have "blk_ok ?m s c" if "c \<in> set bs" for c
  proof (cases "c = b")
    case True
    then show ?thesis using ok b(1) fb(1) [OF hb] by (simp add: blk_ok_def shard_ok_def)
  next
    case False
    then show ?thesis using ot(1) [of c s] that ok by (simp add: shard_ok_def)
  qed
  moreover have "set (b # fs) = {c \<in> set bs. is_free ?m c}" using f fr b by auto
  moreover have "distinct (b # fs)" using d f b by auto
  ultimately show "shard_ok ?m lo hi cur s bs (b # fs)"
    using t p cur fb(1) [OF hb] by (simp add: shard_ok_def)
qed

lemma heap_abs_remove:
  assumes h: "heap_inv rg m" and h': "heap_inv rg m'" and ub: "used_blocks m' = used_blocks m - {b}"
    and g: "\<And>c. c \<in> used_blocks m' \<Longrightarrow> get_block m' c = get_block m c" and b: "b \<in> used_blocks m"
  shows "heap_abs m' = (heap_abs m)(b + po_of m b := None)"
proof (rule ext)
  fix q
  have inj: "c = b" if "c \<in> used_blocks m" "c + po_of m c = b + po_of m b" for c
    using used_blocksD(6) [OF h that(1)] used_blocksD(6) [OF h b] that(2) by metis
  have eq: "heap_abs m' q = Some n \<longleftrightarrow> q \<noteq> b + po_of m b \<and> heap_abs m q = Some n" for n
  proof -
    have pg: "get_block m' c = get_block m c" "po_of m' c = po_of m c" if "c \<in> used_blocks m" "c \<noteq> b" for c
      using g [of c] ub that by (simp_all add: po_of_def)
    have "heap_abs m' q = Some n \<longleftrightarrow>
        (\<exists>c \<in> used_blocks m. c \<noteq> b \<and> q = c + po_of m c \<and> n = bsz m c - po_of m c)"
      unfolding heap_abs_iff [OF h'] ub using pg by fastforce
    also have "\<dots> \<longleftrightarrow> q \<noteq> b + po_of m b \<and> heap_abs m q = Some n"
      unfolding heap_abs_iff [OF h] using inj by metis
    finally show ?thesis .
  qed
  show "heap_abs m' q = ((heap_abs m)(b + po_of m b := None)) q"
  proof (cases "q = b + po_of m b")
    case True
    then show ?thesis using eq by (cases "heap_abs m' q") auto
  next
    case False
    then show ?thesis using eq by (cases "heap_abs m q") (auto simp: option.expand)
  qed
qed

text \<open>Freeing a used block of shard \<open>s\<close>, seen on the whole heap.\<close>

lemma freed_heap:
  assumes h: "heap_inv rg m" and s: "s < 4" and b: "b \<in> used_in m s" and cur: "unat cur = b"
  defines "m' \<equiv> freed (shard_head_at s) cur b m"
  shows "heap_inv rg m'" and "heap_abs m' = (heap_abs m)(b + po_of m b := None)"
    and "same_on m m' 0 2688" and "same_on m m' 2720 2728" and "b \<in> free_blocks m'" and "bsz m' b = bsz m b"
    and "\<And>q j. heap_abs m q = Some j \<Longrightarrow> q \<noteq> b + po_of m b \<Longrightarrow> same_on m m' q (q + j)"
    and "\<And>q. serves al sz m q \<Longrightarrow> q \<noteq> b + po_of m b \<Longrightarrow> serves al sz m' q"
    and "serves al sz m (b + po_of m b) \<Longrightarrow> \<exists>c \<in> free_blocks m'. fits m' al sz c" and "pays spare 0 m m'"
proof -
  have hi: "header_inv rg m" using h by (simp add: heap_inv_def)
  obtain bs fs where ok: "shard_ok m (shard_lo m s) (shard_lo m s + shard_len m) (ah_head m s) s bs fs"
    and t: "tiles m (shard_lo m s) (shard_lo m s + shard_len m) bs"
    and u: "used_in m s = {b \<in> set bs. \<not> is_free m b}" using heap_shard [OF h s] by metis
  have bb: "b \<in> set bs" "\<not> is_free m b" using b u by auto
  note r = shard_range(1) [OF hi s] and tb = tiles_mem [OF t bb(1)]
  have hc: "shard_head_at s + 8 \<le> shard_lo m s" and c0: "cur \<noteq> 0" using r s tb cur by auto
  note fs' = freed_shard_ok [OF ok [unfolded ah_head_def] hc bb cur c0, folded m'_def]
  have hb: "shard_head_at s + 8 \<le> b" using hc tb by simp
  note fb = freed_bytes [OF hb cur, where m = m, folded m'_def]
  have l: "shard_local m s m'" using fb(3) tb by (auto simp: shard_local_def)
  have ok': "shard_ok m' (shard_lo m s) (shard_lo m s + shard_len m) (ah_head m' s) s bs (b # fs)"
    using fs'(1) fb(2) by (simp add: ah_head_def)
  note up = shard_update [OF h s l ok']
  show h': "heap_inv rg m'" by (rule up(1))
  show "same_on m m' 0 2688" "same_on m m' 2720 2728" using shard_local_low [OF hi s l] by simp_all
  have "b \<in> free_in m' s" unfolding up(3) using bb fb(1) by (simp add: is_free_def)
  then show bf: "b \<in> free_blocks m'" by (rule free_in_blocks [OF s])
  show "bsz m' b = bsz m b" by (rule fs'(4))
  obtain U where U: "used_blocks m = U \<union> used_in m s" "used_blocks m' = U \<union> used_in m' s"
    "U = (\<Union>t \<in> {..<4} - {s}. used_in m t)" using used_blocks_split [OF s up(4)] by metis
  have us: "used_in m' s = used_in m s - {b}" using up(2) fs'(3) u by simp
  have bU: "b \<notin> U"
  proof
    assume "b \<in> U"
    then obtain t where "t < 4" "t \<noteq> s" "b \<in> used_in m t" using U(3) by auto
    then show False using used_inD(5) [OF h] s b by metis
  qed
  then have ub: "used_blocks m' = used_blocks m - {b}" using U us by auto
  have so: "same_on m m' c (c + bsz m c)" if "c \<in> used_blocks m" "c \<noteq> b" for c
    using that U up(5) fs'(2) u by auto
  have bu: "b \<in> used_blocks m" using used_in_blocks [OF s b] .
  show "heap_abs m' = (heap_abs m)(b + po_of m b := None)"
    using heap_abs_remove [OF h h' ub _ bu] used_block_same [OF h _ so] ub by blast
  show "serves al sz m' q" if q: "serves al sz m q" "q \<noteq> b + po_of m b" for q
  proof -
    obtain c where c: "c \<in> used_blocks m" "c + po_of m c = q" "need al sz c \<le> bsz m c" using q(1) by (auto simp: serves_def)
    then have "c \<noteq> b" using q(2) by auto
    then have "c \<in> used_blocks m'" "get_block m' c = get_block m c"
      using c(1) ub used_block_same [OF h c(1) so] by simp_all
    then show ?thesis using c(2,3) unfolding serves_def po_of_def by (intro bexI [of _ c]) simp_all
  qed
  have "c \<in> free_blocks m' \<and> bsz m' c = bsz m c" if c: "c \<in> free_blocks m" for c
  proof -
    obtain u where v: "u < 4" "c \<in> free_in m u" using c by (auto simp: free_blocks_def)
    show ?thesis
    proof (cases "u = s")
      case True
      then have m: "c \<in> set bs" "is_free m c" using v(2) used_in_eq(2) [OF t] by auto
      then have nb: "c \<noteq> b" using bb(2) by auto
      then show ?thesis using fs'(5) [OF m(1) nb] free_in_blocks [OF s] up(3) m by simp
    next
      case False
      then show ?thesis using up(6,7) v free_in_blocks [OF v(1)] by simp
    qed
  qed
  then have "spare N m'" if "spare N m" for N using that unfolding spare_def by metis
  then show "pays spare 0 m m'" by (simp add: pays_def)
  show "\<exists>c \<in> free_blocks m'. fits m' al sz c" if sv: "serves al sz m (b + po_of m b)"
  proof -
    obtain c where c: "c \<in> used_blocks m" "c + po_of m c = b + po_of m b" "need al sz c \<le> bsz m c"
      using sv by (auto simp: serves_def)
    have "c = b" using used_blocksD(6) [OF h c(1)] used_blocksD(6) [OF h bu] c(2) by metis
    then show ?thesis using c(3) bf fs'(4) by (intro bexI [of _ b]) (simp_all add: fits_def)
  qed
  show "same_on m m' q (q + j)" if q: "heap_abs m q = Some j" "q \<noteq> b + po_of m b" for q j
    using q(1)
  proof (rule heap_absE [OF h])
    fix c assume c: "c \<in> used_blocks m" "q = c + po_of m c" "j = bsz m c - po_of m c"
    then have "c \<noteq> b" using q by auto
    then show ?thesis using so [OF c(1)] c used_blocksD(4) [OF h c(1)] by (auto elim: same_on_sub)
  qed
qed

section \<open>The whole call\<close>

lemma unat_ucast_64: "unat (ucast (p :: u32) :: u64) = unat p"
  using unat_less_2p32 [of p] by (simp add: unsigned_ucast_eq take_bit_nat_eq_self)

lemma payload_pointer:
  assumes h: "heap_inv rg m" and p: "heap_abs m p = Some n"
  shows "unat (of_nat p :: u64) = p" and "roff rg (rg_base rg + of_nat p - 8) = p - 8"
    and "rg_base rg + of_nat p \<noteq> 0"
proof -
  have rg: "region_ok rg" using h by (simp add: heap_inv_def header_inv_def)
  note b = heap_abs_bounds [OF h p] and r = region_okD [OF rg]
  show u: "unat (of_nat p :: u64) = p" using b(3) r(3) by (intro unat_of_nat_small) simp
  have "rg_base rg + of_nat p - 8 - rg_base rg = of_nat p - 8" by simp
  moreover have "unat (of_nat p - 8 :: u64) = p - 8" using u b(1) by (subst unat_diff_le) simp_all
  ultimately show "roff rg (rg_base rg + of_nat p - 8) = p - 8" by (simp add: roff_def)
  have "unat (rg_base rg + of_nat p) = unat (rg_base rg) + p"
    using u b(3) r(2) by (subst unat_add_nowrap) simp_all
  then show "rg_base rg + of_nat p \<noteq> 0" using b(1) by auto
qed

text \<open>What the guards of \<open>allocator_free\<close> read, when the pointer's prefix names block \<open>b\<close>.\<close>

lemma free_prefix:
  assumes h: "heap_inv rg m" and p: "heap_abs m p = Some n"
  obtains b s cur where "s < 4" "b \<in> used_in m s" "unat cur = b" "p = b + po_of m b"
    "ld64 m (p - 8) = cur" "allocator_block_from_offset rg cur = Some (rg_base rg + cur)"
    "bh_shard (get_block m b) = of_nat s" "bh_flags (get_block m b) = 0"
    "rg_base rg + cur + ucast (bh_payload_offset (get_block m b)) = rg_base rg + of_nat p"
proof -
  have rg: "region_ok rg" using h by (simp add: heap_inv_def header_inv_def)
  obtain b where b: "b \<in> used_blocks m" "p = b + po_of m b" using heap_absE [OF h p] by metis
  obtain s where s: "s < 4" "b \<in> used_in m s" using b(1) by (auto simp: used_blocks_def)
  note u = used_blocksD [OF h b(1)] and i = used_inD [OF h s]
  define cur where "cur = ld64 m (p - 8)"
  have c: "unat cur = b" using u(6) b(2) by (simp add: cur_def)
  have blk: "allocator_block_from_offset rg cur = Some (rg_base rg + cur)"
    using c u(1,2) i(3) by (intro block_from_offset_ok [OF rg]) auto
  have sh: "bh_shard (get_block m b) = of_nat s" using i(5) by (metis of_nat_unat ucast_id)
  have "ucast (bh_payload_offset (get_block m b)) = (of_nat (po_of m b) :: u64)"
    using unat_ucast_64 [of "bh_payload_offset (get_block m b)"] by (metis po_of_def of_nat_unat ucast_id)
  moreover have "cur = of_nat b" using c by (metis of_nat_unat ucast_id)
  ultimately have "rg_base rg + cur + ucast (bh_payload_offset (get_block m b)) = rg_base rg + of_nat p"
    using b(2) by simp
  with that [OF s c b(2) _ blk sh i(6)] show ?thesis by (simp add: cur_def)
qed

lemma free_runs:
  assumes h: "heap_inv rg (bytes w)" and r: "ready E w" and p: "heap_abs (bytes w) p = Some n"
  obtains b s cur where "s < 4" "b \<in> used_in (bytes w) s" "unat cur = b" "p = b + po_of (bytes w) b"
    "ld64 (bytes w) (p - 8) = cur"
    "allocator_free E (Some rg) (rg_base rg + of_nat p) w
       = Some (STATUS_OK, set_bytes (freed (shard_head_at s) cur b (bytes w)) w)"
proof -
  let ?m = "bytes w"
  obtain b s cur where s: "s < 4" "b \<in> used_in ?m s" and c: "unat cur = b" and pb: "p = b + po_of ?m b"
    and pf: "ld64 ?m (p - 8) = cur" and blk: "allocator_block_from_offset rg cur = Some (rg_base rg + cur)"
    and sh: "bh_shard (get_block ?m b) = of_nat s" and fl: "bh_flags (get_block ?m b) = 0"
    and ex: "rg_base rg + cur + ucast (bh_payload_offset (get_block ?m b)) = rg_base rg + of_nat p"
    using free_prefix [OF h p] .
  note pp = payload_pointer [OF h p]
  have us: "unat (of_nat s :: u32) = s" using s by (simp add: unat_of_nat)
  have s4: "\<not> 4 \<le> (of_nat s :: u32)" using us s by (simp add: word_le_nat_alt)
  have v: "allocator_header (Some rg) \<noteq> None"
    "allocator_header_valid (Some rg) (allocator_header (Some rg)) ?m"
    using h header_invD(3) by (auto simp: heap_inv_def header_inv_def)
  have fr: "mtx w (shard_mutex_at s) = MFree" "held_shard w (env_tid E) = - 1"
    using r s by (simp_all add: ready_def)
  have hd: "ah_head (set_bh_payload_offset b 0 (set_bh_flags b 1 ?m)) s = ld64 ?m (shard_head_at s)"
  proof -
    have "2728 \<le> b" using used_blocksD(1) [OF h used_in_blocks [OF s]] .
    then show ?thesis using s by (simp add: ah_head_def)
  qed
  have "allocator_free E (Some rg) (rg_base rg + of_nat p) w
       = Some (STATUS_OK, set_bytes (freed (shard_head_at s) cur b ?m) w)"
    using v(2) pp blk fl fr ex s4 hd pf c sh us release_restores [OF r s(1) refl] v(1)
    by (auto simp: allocator_free_def header_mut_eq note_shard_lock_ready freed_def Let_def
        simp del: setters_commute shard_head_at_eq)
  with that s c pb pf show ?thesis by blast
qed

lemma free_releases:
  assumes h: "heap_inv rg (bytes w)" and r: "ready E w" and p: "heap_abs (bytes w) p = Some n"
  shows "\<exists>m'. allocator_free E (Some rg) (rg_base rg + of_nat p) w = Some (STATUS_OK, set_bytes m' w) \<and>
     heap_inv rg m' \<and> heap_abs m' = (heap_abs (bytes w))(p := None) \<and>
     same_on (bytes w) m' 0 2688 \<and> same_on (bytes w) m' 2720 2728 \<and>
     (\<forall>q j. heap_abs (bytes w) q = Some j \<and> q \<noteq> p \<longrightarrow> same_on (bytes w) m' q (q + j)) \<and>
     (\<exists>b \<in> free_blocks m'. b < p \<and> b + bsz m' b = p + n) \<and>
     (\<forall>al sz q. serves al sz (bytes w) q \<and> q \<noteq> p \<longrightarrow> serves al sz m' q) \<and>
     (\<forall>al sz. serves al sz (bytes w) p \<longrightarrow> (\<exists>b \<in> free_blocks m'. fits m' al sz b)) \<and> pays spare 0 (bytes w) m'"
proof -
  obtain b s cur where s: "s < 4" "b \<in> used_in (bytes w) s" "unat cur = b" and pb: "p = b + po_of (bytes w) b"
    and e: "allocator_free E (Some rg) (rg_base rg + of_nat p) w
       = Some (STATUS_OK, set_bytes (freed (shard_head_at s) cur b (bytes w)) w)"
    using free_runs [OF h r p] by metis
  note fh = freed_heap [OF h s] and u = used_blocksD [OF h used_in_blocks [OF s(1,2)]]
  obtain c where c: "c \<in> used_blocks (bytes w)" "p = c + po_of (bytes w) c" "n = bsz (bytes w) c - po_of (bytes w) c"
    using heap_absE [OF h p] by metis
  have "c = b" using used_blocksD(6) [OF h c(1)] u(6) c(2) pb by metis
  then have "b < p" "b + bsz (freed (shard_head_at s) cur b (bytes w)) b = p + n" using c u pb fh(6) by auto
  then show ?thesis using e fh(1-5,7-10) unfolding pb by blast
qed

text \<open>C9: Freeing a live allocation returns \<open>OK\<close>, removes exactly that span from the heap, keeps the
  heap well formed and the bytes of every other live allocation and of the region header unchanged,
  makes the block available again, and releases the shard lock.\<close>

theorem allocator_free_releases:
  assumes h: "heap_inv rg (bytes w)" and r: "ready E w" and p: "heap_abs (bytes w) p = Some n"
  shows "\<exists>m'. allocator_free E (Some rg) (rg_base rg + of_nat p) w = Some (STATUS_OK, set_bytes m' w) \<and>
     heap_inv rg m' \<and> heap_abs m' = (heap_abs (bytes w))(p := None) \<and>
     same_on (bytes w) m' 0 2688 \<and> same_on (bytes w) m' 2720 2728 \<and>
     (\<forall>q j. heap_abs (bytes w) q = Some j \<and> q \<noteq> p \<longrightarrow> same_on (bytes w) m' q (q + j)) \<and>
     (\<exists>b \<in> free_blocks m'. b < p \<and> b + bsz m' b = p + n)"
  using free_releases [OF assms] by blast

text \<open>A second free of the same pointer, with nothing in between, is refused with
  \<open>INVALID_STATE\<close> and changes nothing.\<close>

theorem allocator_double_free_refused:
  assumes h: "heap_inv rg (bytes w)" and r: "ready E w" and p: "heap_abs (bytes w) p = Some n"
    and f: "allocator_free E (Some rg) (rg_base rg + of_nat p) w = Some (st, w')"
  shows "allocator_free E (Some rg) (rg_base rg + of_nat p) w' = Some (STATUS_INVALID_STATE, w')"
proof -
  obtain b s cur where s: "s < 4" "b \<in> used_in (bytes w) s" "unat cur = b" and pb: "p = b + po_of (bytes w) b"
    and pf: "ld64 (bytes w) (p - 8) = cur"
    and e: "allocator_free E (Some rg) (rg_base rg + of_nat p) w
       = Some (STATUS_OK, set_bytes (freed (shard_head_at s) cur b (bytes w)) w)"
    using free_runs [OF h r p] by metis
  let ?m' = "freed (shard_head_at s) cur b (bytes w)"
  have w': "w' = set_bytes ?m' w" using f e by simp
  have h': "heap_inv rg ?m'" using freed_heap(1) [OF h s] .
  note u = used_blocksD [OF h used_in_blocks [OF s(1,2)]]
  have hc: "shard_head_at s + 8 \<le> b" using u(1) s by simp
  have "ld64 ?m' (p - 8) = ld64 (bytes w) (p - 8)"
  proof (intro ld64_same_on same_onI freed_bytes(3) [OF hc s(3)])
    fix x assume "p - 8 \<le> x"
    then show "x < b \<or> b + 28 \<le> x" "x < shard_head_at s \<or> shard_head_at s + 8 \<le> x"
      using hc u(3) pb by linarith+
  qed
  then have pf': "ld64 ?m' (p - 8) = cur" using pf by simp
  have v: "allocator_header (Some rg) \<noteq> None"
    "allocator_header_valid (Some rg) (allocator_header (Some rg)) ?m'"
    using h' header_invD(3) by (auto simp: heap_inv_def header_inv_def)
  have blk: "allocator_block_from_offset rg cur = Some (rg_base rg + cur)"
    using u s h by (intro block_from_offset_ok) (auto simp: heap_inv_def header_inv_def)
  have "bh_flags (get_block ?m' b) = 1" using freed_bytes(1) [OF hc s(3)] by simp
  then show ?thesis using v pf' blk s payload_pointer [OF h p]
    by (auto simp: w' allocator_free_def header_mut_eq Let_def simp del: shard_head_at_eq)
qed

text \<open>A live allocation of the concrete heap.\<close>

lemma demo_alloc:
  obtains p n m where "heap_inv demo_region m" and "ready demo_env (set_bytes m demo_world)"
    and "heap_abs m p = Some n" and "64 \<le> n"
    and "allocator_alloc demo_env (Some demo_region) 64 16 True demo_world
           = Some ((STATUS_OK, Some (rg_base demo_region + of_nat p)), set_bytes m demo_world)"
proof -
  have v: "valid_request 64 16" by (auto simp: valid_request_def intro: exI [of _ 4])
  obtain sz al where q: "req_ok sz al" "unat sz = req_size 64" "unat al = req_align 16"
    and e: "allocator_alloc demo_env (Some demo_region) 64 16 True demo_world
       = allocator_alloc_attempts demo_env demo_region sz al (allocator_select_shard sz) 0 demo_world"
    using alloc_calls_attempts [OF demo_facts(2) v] by blast
  have n: "req_size 64 = 64" "req_align 16 = 16" by (simp_all add: req_size_def req_align_def round_up_def)
  have "2736 \<in> free_blocks (bytes demo_world)" by (force simp: demo_facts(5))
  then obtain t where t: "t < 4" "2736 \<in> free_in (bytes demo_world) ((unat (allocator_select_shard sz) + t) mod 4)"
    using free_blocks_cover [OF _ select_shard_less] by blast
  have "fits (bytes demo_world) (unat al) (unat sz) 2736"
    using demo_facts(6) [of 0] by (simp add: fits_def need_def payload_off_def round_up_def q n)
  with t obtain p k m where p: "allocator_alloc_attempts demo_env demo_region sz al (allocator_select_shard sz) 0 demo_world
      = Some ((STATUS_OK, Some (rg_base demo_region + of_nat p)), set_bytes m demo_world)"
    "alloc_grants demo_region (unat sz) (unat al) (bytes demo_world) p k m"
    using attempts_result [OF demo_facts(2,4) q(1) select_shard_less, of 0 sz] by fastforce
  show ?thesis using that [of m p k] p e q n demo_facts(4) by (simp add: alloc_grants_def)
qed

lemma demo_live:
  obtains w p n where "heap_inv demo_region (bytes w)" and "ready demo_env w"
    and "heap_abs (bytes w) p = Some n"
  using demo_alloc bytes_setters(3) by metis

theorem allocator_free_releases_witness:
  "\<exists>w p m'. allocator_free demo_env (Some demo_region) (rg_base demo_region + of_nat p) w
      = Some (STATUS_OK, set_bytes m' w) \<and> heap_inv demo_region m' \<and> heap_abs m' p = None"
proof (rule demo_live)
  fix w p n assume "heap_inv demo_region (bytes w)" "ready demo_env w" "heap_abs (bytes w) p = Some n"
  from allocator_free_releases [OF this] show ?thesis by (metis fun_upd_same)
qed

theorem allocator_double_free_refused_witness:
  "\<exists>w w' p. allocator_free demo_env (Some demo_region) (rg_base demo_region + of_nat p) w = Some (STATUS_OK, w') \<and>
     allocator_free demo_env (Some demo_region) (rg_base demo_region + of_nat p) w' = Some (STATUS_INVALID_STATE, w')"
proof (rule demo_live)
  fix w p n assume d: "heap_inv demo_region (bytes w)" "ready demo_env w" "heap_abs (bytes w) p = Some n"
  obtain w' where f: "allocator_free demo_env (Some demo_region) (rg_base demo_region + of_nat p) w = Some (STATUS_OK, w')"
    using free_runs [OF d] by metis
  from f allocator_double_free_refused [OF d f] show ?thesis by blast
qed

end
