(* ===== verification/AllocatorQuery.thy ===== *)
theory AllocatorQuery
  imports AllocatorFreeSpec
begin

text \<open>
  The walks over the whole heap: the span of a live allocation, the statistics and the structural
  validation. The four shards together are one tiling of the heap up to \<open>heap_size mod 4\<close> bytes at
  its end; the walks visit exactly its blocks.
\<close>

section \<open>The heap as one tiling\<close>

lemma shard_lo_Suc: "shard_lo m (Suc s) = shard_lo m s + shard_len m"
  by (simp add: shard_lo_def)

lemma heap_tiles_upto:
  assumes h: "heap_inv rg m" and "n \<le> 4"
  shows "\<exists>bs. tiles m (shard_lo m 0) (shard_lo m n) bs \<and> set bs = (\<Union>s < n. used_in m s \<union> free_in m s) \<and>
     (\<Sum>s < n. card (free_in m s)) \<le> length bs"
  using assms(2)
proof (induction n)
  case 0
  then show ?case by (intro exI [of _ "[]"]) simp
next
  case (Suc n)
  then obtain bs where bs: "tiles m (shard_lo m 0) (shard_lo m n) bs"
    "set bs = (\<Union>s < n. used_in m s \<union> free_in m s)" "(\<Sum>s < n. card (free_in m s)) \<le> length bs" by auto
  obtain cs where cs: "tiles m (shard_lo m n) (shard_lo m n + shard_len m) cs"
    using heap_shard [OF h, of n] Suc.prems by (metis Suc_le_eq)
  have "set cs = used_in m n \<union> free_in m n" using used_in_eq [OF cs] by auto
  then have "set (bs @ cs) = (\<Union>s < Suc n. used_in m s \<union> free_in m s)"
    using bs(2) by (auto simp: lessThan_Suc)
  moreover have "tiles m (shard_lo m 0) (shard_lo m (Suc n)) (bs @ cs)"
    unfolding shard_lo_Suc tiles_append using bs(1) cs by blast
  moreover have "card (free_in m n) \<le> length cs"
  proof -
    have "card (free_in m n) \<le> card (set cs)" using used_in_eq(2) [OF cs] by (intro card_mono) auto
    then show ?thesis using card_length [of cs] by simp
  qed
  ultimately show ?case using bs(3) by (intro exI [of _ "bs @ cs"]) simp
qed

text \<open>A block of the heap as the walks see it.\<close>

definition heap_block :: "mem \<Rightarrow> nat \<Rightarrow> bool" where
  "heap_block m b \<longleftrightarrow>
     (bh_flags (get_block m b) = 1 \<or> bh_flags (get_block m b) = 0) \<and> bh_shard (get_block m b) < 4"

lemma heap_tiles:
  assumes h: "heap_inv rg m"
  obtains bs where "tiles m (unat (ah_heap_offset m)) (unat (ah_heap_offset m) + 4 * shard_len m) bs"
    "set bs = used_blocks m \<union> free_blocks m" "\<And>b. b \<in> set bs \<Longrightarrow> heap_block m b"
    "\<And>b. b \<in> set bs \<Longrightarrow> is_free m b \<longleftrightarrow> b \<in> free_blocks m"
    "\<And>b. b \<in> set bs \<Longrightarrow> \<not> is_free m b \<longleftrightarrow> b \<in> used_blocks m"
proof -
  obtain bs where bs: "tiles m (shard_lo m 0) (shard_lo m 4) bs" "set bs = (\<Union>s < 4. used_in m s \<union> free_in m s)"
    using heap_tiles_upto [OF h, of 4] by auto
  have e: "shard_lo m 0 = unat (ah_heap_offset m)" "shard_lo m 4 = unat (ah_heap_offset m) + 4 * shard_len m"
    by (simp_all add: shard_lo_def)
  have u: "set bs = used_blocks m \<union> free_blocks m" using bs(2) by (auto simp: used_blocks_def free_blocks_def)
  have fr: "\<And>b. b \<in> free_blocks m \<Longrightarrow> is_free m b" and us: "\<And>b. b \<in> used_blocks m \<Longrightarrow> \<not> is_free m b"
    by (auto simp: free_blocks_def free_in_def used_blocks_def used_in_def)
  have blk: "heap_block m b" if bm: "b \<in> set bs" for b
  proof -
    obtain s where s: "s < 4" "b \<in> used_in m s \<union> free_in m s" using bm unfolding bs(2) by blast
    obtain cs fs where ok: "shard_ok m (shard_lo m s) (shard_lo m s + shard_len m) (ah_head m s) s cs fs"
      and t: "tiles m (shard_lo m s) (shard_lo m s + shard_len m) cs" using heap_shard [OF h s(1)] by metis
    have "b \<in> set cs" using s(2) used_in_eq [OF t] by auto
    then have "blk_ok m s b" using ok by (simp add: shard_ok_def)
    then show ?thesis using s(1) by (auto simp: blk_ok_def heap_block_def word_less_nat_alt)
  qed
  show ?thesis using that [OF bs(1) [unfolded e] u blk] fr us u by auto
qed

lemma flag_free: "heap_block m b \<Longrightarrow> bh_flags (get_block m b) AND 1 \<noteq> 0 \<longleftrightarrow> is_free m b"
  by (auto simp: heap_block_def is_free_def)

text \<open>What a walk reads at a block, given the part of the tiling it has still to visit.\<close>

lemma walk_reads:
  assumes h: "header_inv rg m" and t: "tiles m (unat (ah_heap_offset m) + unat tr) hi (b # bs)"
    and hi: "hi \<le> unat (ah_heap_offset m) + unat (ah_heap_size m)"
  shows "tr < ah_heap_size m" "roff rg (rg_base rg + (ah_heap_offset m + tr)) = b"
    "allocator_block_from_offset rg (ah_heap_offset m + tr) = Some (rg_base rg + (ah_heap_offset m + tr))"
    "ah_heap_offset m + tr = of_nat b" "unat (tr + bh_size (get_block m b)) = unat tr + bsz m b"
    "\<not> ah_heap_size m - tr < bh_size (get_block m b)" "56 \<le> bsz m b"
    "tiles m (unat (ah_heap_offset m) + unat (tr + bh_size (get_block m b))) hi bs"
proof -
  let ?ho = "unat (ah_heap_offset m)" and ?hs = "unat (ah_heap_size m)"
  have b: "b = ?ho + unat tr" "56 \<le> bsz m b" and t': "tiles m (?ho + unat tr + bsz m b) hi bs" using t by auto
  have le: "?ho + unat tr + bsz m b \<le> ?ho + ?hs" using tiles_le [OF t'] hi by simp
  have sz: "?ho + ?hs = unat (rg_size rg)" using header_invD(1) [OF h] .
  have rg: "region_ok rg" using h by (simp add: header_inv_def)
  have rsz: "unat (rg_size rg) < 9223372036854775808" using region_okD(3) [OF rg] .
  show "tr < ah_heap_size m" using le b(2) by (simp add: word_less_nat_alt)
  have u: "unat (ah_heap_offset m + tr) = b" using le sz rsz b by (subst unat_add_nowrap) simp_all
  then show "roff rg (rg_base rg + (ah_heap_offset m + tr)) = b" by simp
  show "ah_heap_offset m + tr = of_nat b" using u by (metis of_nat_unat ucast_id)
  have "2728 \<le> ?ho" using h by (simp add: header_inv_def)
  then show "allocator_block_from_offset rg (ah_heap_offset m + tr) = Some (rg_base rg + (ah_heap_offset m + tr))"
    using u b le sz by (intro block_from_offset_ok [OF rg]) auto
  show ut: "unat (tr + bh_size (get_block m b)) = unat tr + bsz m b"
    using le sz rsz by (subst unat_add_nowrap) simp_all
  show "\<not> ah_heap_size m - tr < bh_size (get_block m b)"
    using le by (simp add: word_less_nat_alt unat_diff_le)
  show "56 \<le> bsz m b" using b by simp
  show "tiles m (?ho + unat (tr + bh_size (get_block m b))) hi bs" using t' ut by (simp add: add.assoc)
qed

section \<open>Span lookup\<close>

lemma roff_eq_iff: "q < 2 ^ 64 \<Longrightarrow> rg_base rg + of_nat q = ptr \<longleftrightarrow> q = roff rg ptr"
proof
  assume q: "q < 2 ^ 64"
  show "rg_base rg + of_nat q = ptr \<Longrightarrow> q = roff rg ptr"
    using q unat_of_nat_small [where 'a = 64, of q] by (auto simp: roff_def)
  show "q = roff rg ptr \<Longrightarrow> rg_base rg + of_nat q = ptr" by (simp add: roff_def)
qed

definition span_at :: "ShmRegion \<Rightarrow> mem \<Rightarrow> u64 \<Rightarrow> nat \<Rightarrow> bool" where
  "span_at rg m ptr b \<longleftrightarrow> \<not> is_free m b \<and> rg_base rg + of_nat (b + po_of m b) = ptr"

lemma block_payload: "(of_nat b :: u64) + ucast (bh_payload_offset (get_block m b)) = of_nat (b + po_of m b)"
proof -
  have "ucast (bh_payload_offset (get_block m b)) = (of_nat (po_of m b) :: u64)"
    using unat_ucast_64 [of "bh_payload_offset (get_block m b)"] by (metis po_of_def of_nat_unat ucast_id)
  then show ?thesis by simp
qed

lemma span_walk_tiles:
  assumes h: "header_inv rg m" and hi: "hi \<le> unat (ah_heap_offset m) + unat (ah_heap_size m)"
    and t: "tiles m (unat (ah_heap_offset m) + unat tr) hi bs" and k: "\<And>b. b \<in> set bs \<Longrightarrow> heap_block m b"
  shows "allocator_span_walk rg m ptr tr =
     (case find (span_at rg m ptr) bs of
        Some b \<Rightarrow> Some (STATUS_OK, Some (bh_size (get_block m b) - ucast (bh_payload_offset (get_block m b))))
      | None \<Rightarrow> allocator_span_walk rg m ptr (of_nat (hi - unat (ah_heap_offset m))))"
  using t k
proof (induction bs arbitrary: tr)
  case Nil
  then have "of_nat (hi - unat (ah_heap_offset m)) = tr" by auto
  then show ?case by simp
next
  case (Cons b bs)
  note r = walk_reads [OF h Cons.prems(1) hi]
  have fl: "bh_flags (get_block m b) AND 1 = 0 \<longleftrightarrow> \<not> is_free m b" using flag_free [of m b] Cons.prems(2) by auto
  have p: "rg_base rg + of_nat b + ucast (bh_payload_offset (get_block m b)) = rg_base rg + of_nat (b + po_of m b)"
    using block_payload [of b m] by (simp add: add.assoc)
  have "allocator_span_walk rg m ptr tr =
     (if span_at rg m ptr b
      then Some (STATUS_OK, Some (bh_size (get_block m b) - ucast (bh_payload_offset (get_block m b))))
      else allocator_span_walk rg m ptr (tr + bh_size (get_block m b)))"
    apply (subst allocator_span_walk.simps)
    using r(1,2,3) fl p by (simp add: r(4) span_at_def Let_def add.assoc)
  then show ?case using Cons.IH [OF r(8)] Cons.prems(2) by auto
qed

text \<open>Behind the last shard: the end of the heap, or one to three bytes no block header fits in.\<close>

lemma heap_end:
  assumes h: "header_inv rg m"
  shows "(of_nat (4 * shard_len m) :: u64) < ah_heap_size m \<longleftrightarrow> unat (ah_heap_size m) mod 4 \<noteq> 0"
    and "unat (ah_heap_size m) mod 4 \<noteq> 0 \<Longrightarrow>
       allocator_block_from_offset rg (ah_heap_offset m + of_nat (4 * shard_len m)) = None"
proof -
  let ?hs = "unat (ah_heap_size m)" and ?ho = "unat (ah_heap_offset m)"
  have d: "?hs = 4 * shard_len m + ?hs mod 4" by (simp add: shard_len_def)
  have u: "unat (of_nat (4 * shard_len m) :: u64) = 4 * shard_len m"
    using d unat_less_2p64 [of "ah_heap_size m"] by (intro unat_of_nat_small) simp
  show "(of_nat (4 * shard_len m) :: u64) < ah_heap_size m \<longleftrightarrow> ?hs mod 4 \<noteq> 0"
    unfolding word_less_nat_alt u using d by linarith
  assume nz: "?hs mod 4 \<noteq> 0"
  have "unat (rg_size rg) < 9223372036854775808" using h region_okD(3) by (simp add: header_inv_def)
  then have "unat (ah_heap_offset m + of_nat (4 * shard_len m)) = ?ho + 4 * shard_len m"
    using u d header_invD(1) [OF h] by (subst unat_add_nowrap) simp_all
  moreover have "\<not> ?ho + 4 * shard_len m + 32 \<le> unat (rg_size rg)"
    using d header_invD(1) [OF h] mod_less_divisor [of 4 ?hs] by linarith
  ultimately show "allocator_block_from_offset rg (ah_heap_offset m + of_nat (4 * shard_len m)) = None"
    by (simp add: allocator_block_from_offset_def resolve_None_iff)
qed

lemma span_walk_end:
  assumes h: "header_inv rg m"
  shows "allocator_span_walk rg m ptr (of_nat (4 * shard_len m)) =
     Some (if unat (ah_heap_size m) mod 4 = 0 then STATUS_NOT_FOUND else STATUS_INVALID_STATE, None)"
  by (subst allocator_span_walk.simps) (use heap_end [OF h] in \<open>simp del: of_nat_mult of_nat_numeral\<close>)

lemma span_len:
  assumes h: "heap_inv rg m" and b: "b \<in> used_blocks m"
  shows "unat (bh_size (get_block m b) - ucast (bh_payload_offset (get_block m b))) = bsz m b - po_of m b"
  using used_blocksD(4) [OF h b] by (subst unat_diff_le) (simp_all add: unat_ucast_64 po_of_def)

lemma span_lookup:
  assumes h: "heap_inv rg m" and p0: "ptr \<noteq> 0"
  shows "\<exists>st sp. allocator_get_allocation_span (Some rg) ptr True m = Some (st, sp) \<and>
     (case heap_abs m (roff rg ptr) of
        Some n \<Rightarrow> st = STATUS_OK \<and> map_option unat sp = Some n
      | None \<Rightarrow> st = (if unat (ah_heap_size m) mod 4 = 0 then STATUS_NOT_FOUND else STATUS_INVALID_STATE) \<and> sp = None)"
proof -
  have hi: "header_inv rg m" using h by (simp add: heap_inv_def)
  obtain bs where t: "tiles m (unat (ah_heap_offset m)) (unat (ah_heap_offset m) + 4 * shard_len m) bs"
    and k: "\<And>b. b \<in> set bs \<Longrightarrow> heap_block m b" and sb: "set bs = used_blocks m \<union> free_blocks m"
    and us: "\<And>b. b \<in> set bs \<Longrightarrow> \<not> is_free m b \<longleftrightarrow> b \<in> used_blocks m"
    using heap_tiles [OF h] by metis
  have le: "unat (ah_heap_offset m) + 4 * shard_len m \<le> unat (ah_heap_offset m) + unat (ah_heap_size m)"
    by (simp add: shard_len_def)
  have t0: "tiles m (unat (ah_heap_offset m) + unat (0 :: u64)) (unat (ah_heap_offset m) + 4 * shard_len m) bs"
    using t by simp
  have e: "unat (ah_heap_offset m) + 4 * shard_len m - unat (ah_heap_offset m) = 4 * shard_len m" by simp
  have "allocator_get_allocation_span (Some rg) ptr True m = allocator_span_walk rg m ptr 0"
    using h p0 by (simp add: allocator_get_allocation_span_def heap_inv_def header_inv_def)
  also have "\<dots> = (case find (span_at rg m ptr) bs of
        Some b \<Rightarrow> Some (STATUS_OK, Some (bh_size (get_block m b) - ucast (bh_payload_offset (get_block m b))))
      | None \<Rightarrow> Some (if unat (ah_heap_size m) mod 4 = 0 then STATUS_NOT_FOUND else STATUS_INVALID_STATE, None))"
    by (rule span_walk_tiles [OF hi le t0 k, where ptr = ptr, unfolded e span_walk_end [OF hi]])
  finally have run: "allocator_get_allocation_span (Some rg) ptr True m = \<dots>" .
  have at: "span_at rg m ptr b \<longleftrightarrow> b + po_of m b = roff rg ptr" if "b \<in> used_blocks m" for b
  proof -
    have "b + po_of m b < 2 ^ 64"
      using used_blocksD(2,4) [OF h that] unat_less_2p64 [of "rg_size rg"] by simp
    then have "rg_base rg + of_nat (b + po_of m b) = ptr \<longleftrightarrow> b + po_of m b = roff rg ptr"
      by (rule roff_eq_iff)
    then show ?thesis using that us sb by (auto simp: span_at_def)
  qed
  show ?thesis
  proof (cases "find (span_at rg m ptr) bs")
    case None
    then have "heap_abs m (roff rg ptr) \<noteq> Some n" for n
      using at sb by (auto simp: heap_abs_iff [OF h] find_None_iff)
    then show ?thesis using run None by (cases "heap_abs m (roff rg ptr)") auto
  next
    case (Some b)
    then have b: "b \<in> set bs" "span_at rg m ptr b" by (auto simp: find_Some_iff)
    then have bu: "b \<in> used_blocks m" using us by (auto simp: span_at_def)
    then have "heap_abs m (roff rg ptr) = Some (bsz m b - po_of m b)"
      unfolding heap_abs_iff [OF h] using at [OF bu] b(2) by metis
    then show ?thesis using run Some span_len [OF h bu] by simp
  qed
qed

text \<open>C27: \<open>allocator_get_allocation_span\<close> is the lookup of the heap map: it always returns, it answers
  \<open>OK\<close> with the span exactly when the pointer is the payload of a live allocation, and an error with
  no span for every other pointer.\<close>

theorem allocator_get_allocation_span_refines:
  assumes h: "heap_inv rg m" and p0: "ptr \<noteq> 0"
  shows "\<exists>st sp. allocator_get_allocation_span (Some rg) ptr True m = Some (st, sp) \<and>
     (case heap_abs m (roff rg ptr) of
        Some n \<Rightarrow> st = STATUS_OK \<and> map_option unat sp = Some n
      | None \<Rightarrow> st = (if unat (ah_heap_size m) mod 4 = 0 then STATUS_NOT_FOUND else STATUS_INVALID_STATE) \<and> sp = None)"
  by (rule span_lookup [OF assms])

theorem allocator_get_allocation_span_refines_witness:
  "\<exists>m p n sp. heap_abs m p = Some n \<and>
     allocator_get_allocation_span (Some demo_region) (rg_base demo_region + of_nat p) True m = Some (STATUS_OK, Some sp)"
proof (rule demo_live)
  fix w p n assume d: "heap_inv demo_region (bytes w)" "heap_abs (bytes w) p = Some n"
  note pp = payload_pointer [OF d]
  have "roff demo_region (rg_base demo_region + of_nat p) = p" using pp(1) by simp
  with allocator_get_allocation_span_refines [OF d(1) pp(3)] d(2) show ?thesis by auto
qed

section \<open>Statistics\<close>

lemma heap_len_mod: "unat (ah_heap_size m) mod 4 = 0 \<Longrightarrow> 4 * shard_len m = unat (ah_heap_size m)"
  using mult_div_mod_eq [of 4 "unat (ah_heap_size m)"] by (simp add: shard_len_def)


definition block_stats :: "mem \<Rightarrow> nat list \<Rightarrow> AllocatorStats \<Rightarrow> AllocatorStats" where
  "block_stats m bs st = fold (\<lambda>b st.
     if is_free m b then
       st\<lparr>st_free_bytes := st_free_bytes st + bh_size (get_block m b),
          st_free_block_count := st_free_block_count st + 1,
          st_largest_free_block :=
            (if st_largest_free_block st < bh_size (get_block m b) then bh_size (get_block m b)
             else st_largest_free_block st)\<rparr>
     else st\<lparr>st_used_bytes := st_used_bytes st + bh_size (get_block m b)\<rparr>) bs st"

lemma stats_walk_tiles:
  assumes h: "header_inv rg m" and hi: "hi = unat (ah_heap_offset m) + unat (ah_heap_size m)"
    and t: "tiles m (unat (ah_heap_offset m) + unat tr) hi bs" and k: "\<And>b. b \<in> set bs \<Longrightarrow> heap_block m b"
  shows "allocator_stats_walk rg m tr st = (STATUS_OK, block_stats m bs st)"
  using t k
proof (induction bs arbitrary: tr st)
  case Nil
  then have "tr = ah_heap_size m" using hi by (simp add: word_eq_iff_unat)
  then show ?case by (subst allocator_stats_walk.simps) (simp add: block_stats_def)
next
  case (Cons b bs)
  have le: "hi \<le> unat (ah_heap_offset m) + unat (ah_heap_size m)" using hi by simp
  note r = walk_reads [OF h Cons.prems(1) le]
  have nz: "bh_size (get_block m b) \<noteq> 0" using r(7) by auto
  have fl: "bh_flags (get_block m b) AND 1 \<noteq> 0 \<longleftrightarrow> is_free m b" using flag_free [of m b] Cons.prems(2) by auto
  have "allocator_stats_walk rg m tr st =
     allocator_stats_walk rg m (tr + bh_size (get_block m b)) (block_stats m [b] st)"
    apply (subst allocator_stats_walk.simps)
    using r(1,2,3,6) nz fl by (simp add: block_stats_def Let_def)
  also have "\<dots> = (STATUS_OK, block_stats m bs (block_stats m [b] st))"
    using Cons.IH [OF r(8)] Cons.prems(2) by simp
  also have "block_stats m bs (block_stats m [b] st) = block_stats m (b # bs) st" by (simp add: block_stats_def)
  finally show ?case .
qed

text \<open>The sums the walk accumulates, as long as they do not exceed the word.\<close>

definition adds_up :: "mem \<Rightarrow> nat list \<Rightarrow> AllocatorStats \<Rightarrow> AllocatorStats \<Rightarrow> bool" where
  "adds_up m bs st st' \<longleftrightarrow>
     unat (st_free_bytes st') = unat (st_free_bytes st) + sum_list (map (bsz m) (filter (is_free m) bs)) \<and>
     unat (st_used_bytes st') = unat (st_used_bytes st) + sum_list (map (bsz m) (filter (\<lambda>b. \<not> is_free m b) bs)) \<and>
     unat (st_free_block_count st') = unat (st_free_block_count st) + length (filter (is_free m) bs) \<and>
     unat (st_largest_free_block st') = fold max (map (bsz m) (filter (is_free m) bs)) (unat (st_largest_free_block st)) \<and>
     st_heap_size st' = st_heap_size st \<and> st_allocation_failures st' = st_allocation_failures st"

definition stats_room :: "mem \<Rightarrow> nat list \<Rightarrow> AllocatorStats \<Rightarrow> bool" where
  "stats_room m bs st \<longleftrightarrow>
     unat (st_free_bytes st) + unat (st_used_bytes st) + sum_list (map (bsz m) bs) < 2 ^ 64 \<and>
     unat (st_free_block_count st) + length bs < 2 ^ 64"

lemma adds_up_one:
  assumes "stats_room m [b] st"
  shows "adds_up m [b] st (block_stats m [b] st)"
  using assms by (auto simp: adds_up_def stats_room_def block_stats_def unat_add_nowrap word_less_nat_alt max_def)

lemma adds_up_Cons: "adds_up m [b] st s1 \<Longrightarrow> adds_up m bs s1 s2 \<Longrightarrow> adds_up m (b # bs) st s2"
  by (auto simp: adds_up_def split: if_splits)

lemma stats_room_step: "stats_room m (b # bs) st \<Longrightarrow> adds_up m [b] st s1 \<Longrightarrow> stats_room m bs s1"
  by (auto simp: adds_up_def stats_room_def split: if_splits)

lemma block_stats_adds_up: "stats_room m bs st \<Longrightarrow> adds_up m bs st (block_stats m bs st)"
proof (induction bs arbitrary: st)
  case Nil
  then show ?case by (simp add: adds_up_def block_stats_def)
next
  case (Cons b bs)
  have one: "adds_up m [b] st (block_stats m [b] st)"
    using Cons.prems by (intro adds_up_one) (auto simp: stats_room_def)
  have "block_stats m (b # bs) st = block_stats m bs (block_stats m [b] st)" by (simp add: block_stats_def)
  then show ?case using adds_up_Cons [OF one Cons.IH [OF stats_room_step [OF Cons.prems one]]] by simp
qed

lemma tiles_sum: "tiles m lo hi bs \<Longrightarrow> lo + sum_list (map (bsz m) bs) = hi"
  by (induction bs arbitrary: lo) (simp_all add: add.assoc [symmetric])

lemma tiles_length: "tiles m lo hi bs \<Longrightarrow> length bs + lo \<le> hi"
  by (induction bs arbitrary: lo) fastforce+

lemma sum_filter:
  fixes f :: "nat \<Rightarrow> nat"
  assumes "distinct bs"
  shows "sum_list (map f (filter P bs)) = (\<Sum>b \<in> {b \<in> set bs. P b}. f b)"
  using assms by (simp add: sum_list_distinct_conv_sum_set)

lemma sum_list_partition:
  fixes f :: "nat \<Rightarrow> nat"
  shows "sum_list (map f (filter P bs)) + sum_list (map f (filter (\<lambda>b. \<not> P b) bs)) = sum_list (map f bs)"
  by (induction bs) auto

lemma fold_max_Max: "fold max (map f bs) (0 :: nat) = Max (insert 0 (f ` set bs))"
  using Max.set_eq_fold [of 0 "map f bs"] by simp

text \<open>C28: On a well-formed heap whose size is a multiple of four, \<open>allocator_get_stats\<close> reports the
  heap as it is: the bytes of the free blocks, the bytes of the used blocks, their sum the heap
  size, the number of free blocks, the largest of them, and the failure counter.\<close>

theorem allocator_get_stats_exact:
  assumes h: "heap_inv rg m" and q: "unat (ah_heap_size m) mod 4 = 0"
  shows "\<exists>st. allocator_get_stats (Some rg) True m = (STATUS_OK, Some st) \<and>
     unat (st_free_bytes st) = (\<Sum>b \<in> free_blocks m. bsz m b) \<and>
     unat (st_used_bytes st) = (\<Sum>b \<in> used_blocks m. bsz m b) \<and>
     unat (st_free_bytes st) + unat (st_used_bytes st) = unat (st_heap_size st) \<and>
     unat (st_free_block_count st) = card (free_blocks m) \<and>
     unat (st_largest_free_block st) = Max (insert 0 (bsz m ` free_blocks m)) \<and>
     st_heap_size st = ah_heap_size m \<and> st_allocation_failures st = ah_failures m"
proof -
  have hi: "header_inv rg m" using h by (simp add: heap_inv_def)
  obtain bs where t: "tiles m (unat (ah_heap_offset m)) (unat (ah_heap_offset m) + 4 * shard_len m) bs"
    and sb: "set bs = used_blocks m \<union> free_blocks m" and k: "\<And>b. b \<in> set bs \<Longrightarrow> heap_block m b"
    and fr: "\<And>b. b \<in> set bs \<Longrightarrow> is_free m b \<longleftrightarrow> b \<in> free_blocks m"
    and us: "\<And>b. b \<in> set bs \<Longrightarrow> \<not> is_free m b \<longleftrightarrow> b \<in> used_blocks m"
    using heap_tiles [OF h] by metis
  have e: "unat (ah_heap_offset m) + 4 * shard_len m = unat (ah_heap_offset m) + unat (ah_heap_size m)"
    using heap_len_mod [OF q] by simp
  define st0 where "st0 = \<lparr>st_heap_size = ah_heap_size m, st_free_bytes = 0, st_used_bytes = 0,
                   st_largest_free_block = 0, st_free_block_count = 0, st_allocation_failures = ah_failures m\<rparr>"
  have t0: "tiles m (unat (ah_heap_offset m) + unat (0 :: u64)) (unat (ah_heap_offset m) + 4 * shard_len m) bs"
    using t by simp
  have run: "allocator_get_stats (Some rg) True m = (STATUS_OK, Some (block_stats m bs st0))"
    using h stats_walk_tiles [OF hi e t0 k] by (simp add: allocator_get_stats_def st0_def heap_inv_def header_inv_def)
  have sum: "sum_list (map (bsz m) bs) = unat (ah_heap_size m)" using tiles_sum [OF t] e by simp
  have "length bs \<le> unat (ah_heap_size m)" using tiles_length [OF t] e by simp
  then have "stats_room m bs st0"
    using sum unat_less_2p64 [of "ah_heap_size m"] by (simp add: stats_room_def st0_def)
  note au = block_stats_adds_up [OF this]
  have d: "distinct bs" using tiles_distinct [OF t] .
  have fs: "{b \<in> set bs. is_free m b} = free_blocks m" "{b \<in> set bs. \<not> is_free m b} = used_blocks m"
    using fr us sb by auto
  have all: "sum_list (map (bsz m) (filter (is_free m) bs)) + sum_list (map (bsz m) (filter (\<lambda>b. \<not> is_free m b) bs))
      = unat (ah_heap_size m)" using sum sum_list_partition by simp
  have card: "length (filter (is_free m) bs) = card (free_blocks m)"
    using d fs by (metis distinct_card distinct_filter set_filter)
  have mx: "fold max (map (bsz m) (filter (is_free m) bs)) 0 = Max (insert 0 (bsz m ` free_blocks m))"
    using fold_max_Max [of "bsz m" "filter (is_free m) bs"] fs by simp
  have z: "st_free_bytes st0 = 0" "st_used_bytes st0 = 0" "st_free_block_count st0 = 0" "st_largest_free_block st0 = 0"
    "st_heap_size st0 = ah_heap_size m" "st_allocation_failures st0 = ah_failures m" by (simp_all add: st0_def)
  show ?thesis using au all
    unfolding adds_up_def z unsigned_0 mx card sum_filter [OF d] fs run by simp
qed

theorem allocator_get_stats_exact_witness:
  "\<exists>st. allocator_get_stats (Some demo_region) True (bytes demo_world) = (STATUS_OK, Some st) \<and>
     unat (st_free_block_count st) = card ((\<lambda>s. 2736 + s * 1364) ` {..<(4::nat)})"
proof -
  have "unat (ah_heap_size (bytes demo_world)) = 8192 - unat (ah_heap_offset (bytes demo_world))"
    using header_invD(1) [of demo_region "bytes demo_world"] demo_facts(2) by (simp add: heap_inv_def demo_region_def)
  then have "unat (ah_heap_size (bytes demo_world)) mod 4 = 0" using demo_facts(9) by simp
  from allocator_get_stats_exact [OF demo_facts(2) this] show ?thesis unfolding demo_facts(5) by blast
qed

section \<open>Validation\<close>

lemma validate_blocks_tiles:
  assumes h: "header_inv rg m" and hi: "hi \<le> unat (ah_heap_offset m) + unat (ah_heap_size m)"
    and t: "tiles m (unat (ah_heap_offset m) + unat tr) hi bs" and k: "\<And>b. b \<in> set bs \<Longrightarrow> heap_block m b"
  shows "allocator_validate_blocks rg m tr c =
     allocator_validate_blocks rg m (of_nat (hi - unat (ah_heap_offset m))) (c + of_nat (length bs))"
  using t k
proof (induction bs arbitrary: tr c)
  case Nil
  then have "of_nat (hi - unat (ah_heap_offset m)) = tr" by auto
  then show ?case by simp
next
  case (Cons b bs)
  note r = walk_reads [OF h Cons.prems(1) hi]
  have sz: "\<not> bh_size (get_block m b) < 32" using r(7) by (simp add: word_less_nat_alt)
  have b: "bh_flags (get_block m b) = 0 \<or> bh_flags (get_block m b) = 1" "\<not> 4 \<le> bh_shard (get_block m b)"
    using Cons.prems(2) [of b] by (auto simp: heap_block_def)
  have "allocator_validate_blocks rg m tr c = allocator_validate_blocks rg m (tr + bh_size (get_block m b)) (c + 1)"
    apply (subst allocator_validate_blocks.simps)
    using r(1,2,3,6) sz b by (auto simp: Let_def)
  then show ?case using Cons.IH [OF r(8)] Cons.prems(2) by (simp add: add.assoc)
qed

lemma validate_blocks_end:
  assumes h: "header_inv rg m"
  shows "allocator_validate_blocks rg m (of_nat (4 * shard_len m)) c =
     (if unat (ah_heap_size m) mod 4 = 0 then Some c else None)"
  by (subst allocator_validate_blocks.simps) (use heap_end [OF h] in \<open>simp del: of_nat_mult of_nat_numeral\<close>)

text \<open>A free list of a shard visits its blocks and ends; the budget of the check is not exceeded.\<close>

lemma validate_free_list_path:
  assumes h: "header_inv rg m" and s: "s < 4"
    and k: "\<And>f. f \<in> set fs \<Longrightarrow> shard_lo m s \<le> f \<and> f + 56 \<le> shard_lo m s + shard_len m \<and>
              bh_flags (get_block m f) = 1 \<and> bh_shard (get_block m f) = of_nat s"
    and p: "path m cur fs 0" and c: "length fs \<le> unat c"
  shows "\<exists>c'. allocator_validate_free_list rg m (of_nat s) cur c = Some c' \<and> unat c' = unat c - length fs"
  using k p c
proof (induction fs arbitrary: cur c)
  case Nil
  then show ?case by (subst allocator_validate_free_list.simps) simp
next
  case (Cons f fs)
  have us: "unat (of_nat s :: u32) = s" using s by (simp add: unat_of_nat)
  have rg: "region_ok rg" using h by (simp add: header_inv_def)
  have cur: "cur \<noteq> 0" "unat cur = f" "path m (bh_next_free (get_block m f)) fs 0" using Cons.prems(2) by auto
  have f: "shard_lo m s \<le> f" "f + 56 \<le> shard_lo m s + shard_len m" "bh_flags (get_block m f) = 1"
    "bh_shard (get_block m f) = of_nat s" using Cons.prems(1) [of f] by auto
  have inr: "\<not> cur < allocator_shard_heap_offset (ah_heap_offset m) (ah_heap_size m) (of_nat s)"
    "\<not> allocator_shard_heap_offset (ah_heap_offset m) (ah_heap_size m) (of_nat s)
        + allocator_shard_heap_size (ah_heap_size m) \<le> cur"
    using shard_words [OF h us s] cur f by (simp_all add: word_less_nat_alt word_le_nat_alt)
  have blk: "allocator_block_from_offset rg cur = Some (rg_base rg + cur)"
    using cur f shard_range(2) [OF h s] by (intro block_from_offset_ok [OF rg]) auto
  have c0: "c \<noteq> 0" using Cons.prems(3) by auto
  then have uc: "unat (c - 1) = unat c - 1" by (simp add: unat_minus_one)
  have "allocator_validate_free_list rg m (of_nat s) cur c
      = allocator_validate_free_list rg m (of_nat s) (bh_next_free (get_block m f)) (c - 1)"
    apply (subst allocator_validate_free_list.simps)
    using cur c0 inr blk f by (simp add: Let_def)
  moreover have "length fs \<le> unat (c - 1)" using Cons.prems(3) uc by simp
  ultimately show ?case using Cons.IH [OF _ cur(3), of "c - 1"] Cons.prems(1) uc by auto
qed

lemma validate_shard:
  assumes h: "heap_inv rg m" and s: "s < 4" and c: "card (free_in m s) \<le> unat c"
  shows "\<exists>c'. allocator_validate_free_list rg m (of_nat s) (ah_head m s) c = Some c' \<and>
     unat c' = unat c - card (free_in m s)"
proof -
  have hi: "header_inv rg m" using h by (simp add: heap_inv_def)
  obtain bs fs where ok: "shard_ok m (shard_lo m s) (shard_lo m s + shard_len m) (ah_head m s) s bs fs"
    and t: "tiles m (shard_lo m s) (shard_lo m s + shard_len m) bs" and fr: "free_in m s = set fs"
    using heap_shard [OF h s] by metis
  have f: "set fs = {b \<in> set bs. is_free m b}" and p: "path m (ah_head m s) fs 0" and d: "distinct fs"
    using ok by (simp_all add: shard_ok_def)
  have "card (free_in m s) = length fs" using fr d by (simp add: distinct_card)
  moreover have "shard_lo m s \<le> x \<and> x + 56 \<le> shard_lo m s + shard_len m \<and>
              bh_flags (get_block m x) = 1 \<and> bh_shard (get_block m x) = of_nat s" if "x \<in> set fs" for x
  proof -
    have x: "x \<in> set bs" "is_free m x" using that f by auto
    have "blk_ok m s x" using ok x by (simp add: shard_ok_def)
    then have "bh_shard (get_block m x) = of_nat s" by (auto simp: blk_ok_def)
    then show ?thesis using tiles_mem [OF t x(1)] x(2) by (auto simp: is_free_def)
  qed
  ultimately show ?thesis using validate_free_list_path [OF hi s _ p] c by simp
qed

lemma validate_shards_ok:
  assumes h: "heap_inv rg m" and "n \<le> 4" and "(\<Sum>s \<in> {n..<4}. card (free_in m s)) \<le> unat c"
  shows "allocator_validate_shards rg m [n..<4] c \<noteq> None"
  using assms(2,3)
proof (induction n arbitrary: c rule: inc_induct)
  case base
  then show ?case by simp
next
  case (step n)
  have sum: "(\<Sum>s \<in> {n..<4}. card (free_in m s)) = card (free_in m n) + (\<Sum>s \<in> {Suc n..<4}. card (free_in m s))"
    using step.hyps by (simp add: sum.atLeast_Suc_lessThan)
  then obtain c' where "allocator_validate_free_list rg m (of_nat n) (ah_head m n) c = Some c'"
    "unat c' = unat c - card (free_in m n)"
    using validate_shard [OF h step.hyps(2), of c] step.prems by auto
  moreover have "[n..<4] = n # [Suc n..<4]" using step.hyps by (simp add: upt_conv_Cons)
  ultimately show ?case using step.IH [of c'] step.prems sum by simp
qed

lemma validate_heap:
  assumes h: "heap_inv rg m"
  shows "allocator_validate (Some rg) m =
     (if unat (ah_heap_size m) mod 4 = 0 then STATUS_OK else STATUS_INVALID_STATE)"
proof -
  have hi: "header_inv rg m" using h by (simp add: heap_inv_def)
  have e: "shard_lo m 0 = unat (ah_heap_offset m)" "shard_lo m 4 = unat (ah_heap_offset m) + 4 * shard_len m"
    by (simp_all add: shard_lo_def)
  obtain bs where t: "tiles m (unat (ah_heap_offset m)) (unat (ah_heap_offset m) + 4 * shard_len m) bs"
    and k: "\<And>b. b \<in> set bs \<Longrightarrow> heap_block m b" using heap_tiles [OF h] by metis
  obtain cs where "tiles m (unat (ah_heap_offset m)) (unat (ah_heap_offset m) + 4 * shard_len m) cs"
    and fc: "(\<Sum>s < 4. card (free_in m s)) \<le> length cs" using heap_tiles_upto [OF h, of 4] e by auto
  then have "cs = bs" using tiles_unique [OF t] by auto
  have le: "unat (ah_heap_offset m) + 4 * shard_len m \<le> unat (ah_heap_offset m) + unat (ah_heap_size m)"
    by (simp add: shard_len_def)
  have t0: "tiles m (unat (ah_heap_offset m) + unat (0 :: u64)) (unat (ah_heap_offset m) + 4 * shard_len m) bs"
    using t by simp
  have e4: "unat (ah_heap_offset m) + 4 * shard_len m - unat (ah_heap_offset m) = 4 * shard_len m" by simp
  have blocks: "allocator_validate_blocks rg m 0 0 =
      (if unat (ah_heap_size m) mod 4 = 0 then Some (of_nat (length bs)) else None)"
    using validate_blocks_tiles [OF hi le t0 k, where c = 0, unfolded e4 validate_blocks_end [OF hi]] by simp
  have "length bs \<le> unat (ah_heap_size m)" using tiles_length [OF t] le by simp
  then have "length bs < 2 ^ 64" using unat_less_2p64 [of "ah_heap_size m"] by simp
  then have "unat (of_nat (length bs) :: u64) = length bs" by (simp add: unat_of_nat_small)
  then have sh: "allocator_validate_shards rg m [0..<4] (of_nat (length bs)) \<noteq> None"
    using validate_shards_ok [OF h, of 0] fc \<open>cs = bs\<close> by (simp add: atLeast0LessThan)
  show ?thesis using h blocks sh
    by (auto simp: allocator_validate_def heap_inv_def header_inv_def simp del: upt_rec_numeral)
qed

text \<open>C29: On a well-formed heap \<open>allocator_validate\<close> returns \<open>OK\<close> exactly when the heap size is a
  multiple of four; otherwise it returns \<open>INVALID_STATE\<close>, although initialization and allocation
  work on such a heap.\<close>

theorem allocator_validate_heap:
  assumes h: "heap_inv rg m"
  shows "allocator_validate (Some rg) m =
     (if unat (ah_heap_size m) mod 4 = 0 then STATUS_OK else STATUS_INVALID_STATE)"
  using validate_heap [OF assms] .

theorem allocator_validate_heap_witness:
  "allocator_validate (Some demo_region) (bytes demo_world) = STATUS_OK"
proof -
  have "unat (ah_heap_size (bytes demo_world)) = 8192 - unat (ah_heap_offset (bytes demo_world))"
    using header_invD(1) [of demo_region "bytes demo_world"] demo_facts(2) by (simp add: heap_inv_def demo_region_def)
  then have "unat (ah_heap_size (bytes demo_world)) mod 4 = 0" using demo_facts(9) by simp
  then show ?thesis using allocator_validate_heap [OF demo_facts(2)] by simp
qed

end
