(* ===== verification/ObjectStore.thy ===== *)
theory ObjectStore
  imports AllocatorQuery
begin

text \<open>
  The object store of src/store/object_store.c: every object is an allocation that starts with a
  16-byte \<open>ObjectHeader\<close>, its handle is the region offset of that header, and a handle resolves
  only when it is the start of a live allocation that holds the declared payload. The locale
  \<open>span_heap\<close> is what the object store and the containers rely on: a heap of disjoint spans whose
  owner may write inside its own span.
\<close>

section \<open>The heap as its clients use it\<close>

locale span_heap =
  fixes inv :: "mem \<Rightarrow> bool" and live :: "mem \<Rightarrow> nat \<rightharpoonup> nat"
  assumes live_disjoint: "inv m \<Longrightarrow> live m p = Some n \<Longrightarrow> live m q = Some k \<Longrightarrow> p \<noteq> q \<Longrightarrow> p + n \<le> q \<or> q + k \<le> p"
    and live_above: "inv m \<Longrightarrow> live m p = Some n \<Longrightarrow> 2768 \<le> p \<and> 16 \<le> n"
    and write_inside: "inv m \<Longrightarrow> live m p = Some n \<Longrightarrow> (\<And>x. x < p \<or> p + n \<le> x \<Longrightarrow> m' x = m x) \<Longrightarrow>
          inv m' \<and> live m' = live m"
begin

text \<open>The owner of span \<open>p\<close> changed only bytes of it.\<close>

definition own_write :: "nat \<Rightarrow> mem \<Rightarrow> mem \<Rightarrow> bool" where
  "own_write p m m' \<longleftrightarrow> (\<forall>n x. live m p = Some n \<longrightarrow> x < p \<or> p + n \<le> x \<longrightarrow> m' x = m x)"

lemma own_write_inv:
  assumes "inv m" and "live m p = Some n" and "own_write p m m'"
  shows "inv m'" and "live m' = live m" and "live m q = Some k \<Longrightarrow> q \<noteq> p \<Longrightarrow> same_on m m' q (q + k)"
proof -
  have w: "\<And>x. x < p \<or> p + n \<le> x \<Longrightarrow> m' x = m x" using assms(2,3) by (auto simp: own_write_def)
  show "inv m'" "live m' = live m" using write_inside [OF assms(1,2) w] by simp_all
  show "same_on m m' q (q + k)" if "live m q = Some k" "q \<noteq> p"
    using live_disjoint [OF assms(1) that(1) assms(2) that(2)] w by (auto simp: same_on_def)
qed

lemma own_st64: "live m p = Some n \<Longrightarrow> p \<le> a \<Longrightarrow> a + 8 \<le> p + n \<Longrightarrow> own_write p m (st64 m a v)"
  by (auto simp: own_write_def st64_def wr_def)

lemma own_st32: "live m p = Some n \<Longrightarrow> p \<le> a \<Longrightarrow> a + 4 \<le> p + n \<Longrightarrow> own_write p m (st32 m a v)"
  by (auto simp: own_write_def st32_def wr_def)

lemma own_wr: "live m p = Some n \<Longrightarrow> p \<le> a \<Longrightarrow> a + length bs \<le> p + n \<Longrightarrow> own_write p m (wr m a bs)"
  by (auto simp: own_write_def wr_def)

lemma own_write_trans:
  assumes "inv m" and "live m p = Some n" and "own_write p m m1" and "own_write p m1 m2"
  shows "own_write p m m2"
  using own_write_inv(2) [OF assms(1-3)] assms(3,4) by (simp add: own_write_def)

end

interpretation heap: span_heap "heap_inv rg" heap_abs for rg
proof unfold_locales
  fix m p n q k
  assume h: "heap_inv rg m" and p: "heap_abs m p = Some n"
  show "p + n \<le> q \<or> q + k \<le> p" if "heap_abs m q = Some k" "p \<noteq> q"
    using heap_abs_disjoint [OF h p that] .
  show "2768 \<le> p \<and> 16 \<le> n" using heap_abs_bounds(1,2) [OF h p] by simp
  fix m' assume w: "\<And>x. x < p \<or> p + n \<le> x \<Longrightarrow> m' x = m x"
  have "m' x = m x" if "\<not> outside_heap_meta m x" for x
  proof (rule w)
    show "x < p \<or> p + n \<le> x" using that p unfolding outside_heap_meta_def by (meson not_le)
  qed
  then show "heap_inv rg m' \<and> heap_abs m' = heap_abs m" using heap_write(1,2) [OF h] by blast
qed

lemma own_write_meta:
  assumes p: "heap_abs m p = Some n" and w: "heap.own_write p m m'" and x: "\<not> outside_heap_meta m x"
  shows "m' x = m x"
proof -
  have "x < p \<or> p + n \<le> x" using x p unfolding outside_heap_meta_def by (meson not_le)
  then show ?thesis using w p by (auto simp: heap.own_write_def)
qed

lemma serves_own:
  assumes h: "heap_inv rg m" and p: "heap_abs m p = Some n" and w: "heap.own_write p m m'"
  shows "serves al sz m' q = serves al sz m q"
  using serves_write [OF h own_write_meta [OF p w]] .

lemma serves_failure_count:
  assumes h: "heap_inv rg m"
  shows "serves al sz (st64 m 2720 v) q = serves al sz m q"
  by (rule serves_write [OF h]) (auto simp: outside_heap_meta_def intro: st64_outside)

section \<open>Operations\<close>

text \<open>\<open>ObjectHeader\<close>: size, type, flags, reserved.\<close>

definition OBJ_size :: nat where "OBJ_size = 0"
definition OBJ_type :: nat where "OBJ_type = 4"
definition OBJ_flags :: nat where "OBJ_flags = 8"
definition OBJ_reserved :: nat where "OBJ_reserved = 12"
definition SIZEOF_ObjectHeader :: u64 where "SIZEOF_ObjectHeader = 16"
definition OBJECT_FLAG_FREED :: u32 where "OBJECT_FLAG_FREED = 1"

lemmas object_layout [layout, simp] =
  OBJ_size_def OBJ_type_def OBJ_flags_def OBJ_reserved_def SIZEOF_ObjectHeader_def OBJECT_FLAG_FREED_def

record ObjectHeader =
  oh_size :: u32
  oh_type :: u32
  oh_flags :: u32
  oh_reserved :: u32

definition get_object :: "mem \<Rightarrow> nat \<Rightarrow> ObjectHeader" where
  "get_object m a = \<lparr>oh_size = ld32 m (a + OBJ_size), oh_type = ld32 m (a + OBJ_type),
     oh_flags = ld32 m (a + OBJ_flags), oh_reserved = ld32 m (a + OBJ_reserved)\<rparr>"

text \<open>The resolved header pointer, null on failure; the outer option is the walk of the allocator.\<close>

definition object_store_resolve_header ::
    "ShmRegion option \<Rightarrow> OffsetPtr \<Rightarrow> u64 \<Rightarrow> mem \<Rightarrow> u64 option option" where
  "object_store_resolve_header region obj payload_size m =
     (case region of
        None \<Rightarrow> Some None
      | Some rg \<Rightarrow>
          if offset_ptr_is_null obj then Some None
          else if (- 1) - SIZEOF_ObjectHeader < payload_size then Some None
          else
            let total_size = SIZEOF_ObjectHeader + payload_size in
            case offset_ptr_try_resolve (rg_base rg) (rg_size rg) obj total_size True of
              None \<Rightarrow> Some None
            | Some header \<Rightarrow> do {
                (status, allocation_size) \<leftarrow> allocator_get_allocation_span region header True m;
                if status \<noteq> STATUS_OK then Some None
                else if the allocation_size < total_size then Some None
                else if oh_flags (get_object m (roff rg header)) AND OBJECT_FLAG_FREED = 0
                then Some (Some header) else Some None
              })"

definition object_store_get_header :: "ShmRegion option \<Rightarrow> OffsetPtr \<Rightarrow> mem \<Rightarrow> u64 option option" where
  "object_store_get_header region obj m = object_store_resolve_header region obj 0 m"

definition object_store_get_header_mut :: "ShmRegion option \<Rightarrow> OffsetPtr \<Rightarrow> mem \<Rightarrow> u64 option option" where
  "object_store_get_header_mut region obj m = object_store_resolve_header region obj 0 m"

definition object_store_get_payload_const :: "ShmRegion option \<Rightarrow> OffsetPtr \<Rightarrow> mem \<Rightarrow> u64 option option" where
  "object_store_get_payload_const region obj m =
     do {
       header \<leftarrow> object_store_get_header region obj m;
       case header of
         None \<Rightarrow> Some None
       | Some h \<Rightarrow> do {
           resolved \<leftarrow> object_store_resolve_header region obj
             (ucast (oh_size (get_object m (roff (the region) h)))) m;
           Some (map_option (\<lambda>r. r + SIZEOF_ObjectHeader) resolved)
         }
     }"

definition object_store_get_payload :: "ShmRegion option \<Rightarrow> OffsetPtr \<Rightarrow> mem \<Rightarrow> u64 option option" where
  "object_store_get_payload region obj m = object_store_get_payload_const region obj m"

definition object_store_alloc ::
    "env \<Rightarrow> ShmRegion option \<Rightarrow> u32 \<Rightarrow> u64 \<Rightarrow> bool \<Rightarrow> world \<Rightarrow> (OffsetStoreStatus \<times> OffsetPtr option) result" where
  "object_store_alloc E region ty payload_size out_nonnull w =
     (if region = None \<or> \<not> out_nonnull \<or> 4294967295 < payload_size
      then Some ((STATUS_INVALID_ARGUMENT, None), w)
      else do {
        ((status, storage), w1) \<leftarrow>
          allocator_alloc E region (SIZEOF_ObjectHeader + payload_size) ALIGNOF_max_align_t True w;
        if status \<noteq> STATUS_OK then Some ((status, None), w1)
        else
          let rg = the region; header = the storage; h = roff rg header;
              m1 = st32 (bytes w1) (h + OBJ_size) (ucast payload_size);
              m2 = st32 m1 (h + OBJ_type) ty;
              m3 = st32 m2 (h + OBJ_flags) 0;
              m4 = st32 m3 (h + OBJ_reserved) 0;
              w2 = set_bytes m4 w1
          in case offset_ptr_try_from_raw (rg_base rg) (rg_size rg) header True of
               None \<Rightarrow> Some ((STATUS_INVALID_STATE, None), w2)
             | Some p \<Rightarrow> Some ((STATUS_OK, Some p), w2)
      })"

definition object_store_free ::
    "env \<Rightarrow> ShmRegion option \<Rightarrow> OffsetPtr \<Rightarrow> world \<Rightarrow> OffsetStoreStatus result" where
  "object_store_free E region obj w =
     (if region = None \<or> offset_ptr_is_null obj then Some (STATUS_INVALID_ARGUMENT, w)
      else do {
        header \<leftarrow> object_store_get_header_mut region obj (bytes w);
        case header of
          None \<Rightarrow> Some (STATUS_NOT_FOUND, w)
        | Some h0 \<Rightarrow> do {
            resolved \<leftarrow> object_store_resolve_header region obj
              (ucast (oh_size (get_object (bytes w) (roff (the region) h0)))) (bytes w);
            case resolved of
              None \<Rightarrow> Some (STATUS_NOT_FOUND, w)
            | Some hp \<Rightarrow>
                let h = roff (the region) hp;
                    payload_size = oh_size (get_object (bytes w) h);
                    m1 = st32 (bytes w) (h + OBJ_flags)
                           (oh_flags (get_object (bytes w) h) OR OBJECT_FLAG_FREED);
                    m2 = st32 m1 (h + OBJ_type) 0;
                    m3 = st32 m2 (h + OBJ_reserved) 0x46524545;
                    m4 = st32 m3 (h + OBJ_size) payload_size
                in allocator_free E region hp (set_bytes m4 w)
          }
      })"

definition object_store_validate :: "ShmRegion option \<Rightarrow> OffsetPtr \<Rightarrow> mem \<Rightarrow> OffsetStoreStatus option" where
  "object_store_validate region obj m =
     (if region = None \<or> offset_ptr_is_null obj then Some STATUS_INVALID_ARGUMENT
      else do {
        header \<leftarrow> object_store_get_header region obj m;
        case header of
          None \<Rightarrow> Some STATUS_NOT_FOUND
        | Some h \<Rightarrow> do {
            resolved \<leftarrow> object_store_resolve_header region obj
              (ucast (oh_size (get_object m (roff (the region) h)))) m;
            Some (if resolved = None then STATUS_INVALID_STATE else STATUS_OK)
          }
      })"

section \<open>Resolution\<close>

lemma unat_total: "unat (ps :: u64) + 16 < 2 ^ 64 \<Longrightarrow> unat (16 + ps) = 16 + unat ps"
  by (subst unat_add_nowrap) simp_all

lemma oversize_iff: "(- 1) - 16 < (ps :: u64) \<longleftrightarrow> \<not> unat ps + 16 < 2 ^ 64"
proof -
  have "unat ((- 1) - 16 :: u64) = 18446744073709551599" by simp
  then show ?thesis by (simp add: word_less_nat_alt) linarith
qed

text \<open>A handle resolves exactly when it is the start of a live allocation that holds header and
  payload and is not marked freed.\<close>

lemma resolve_header_run:
  assumes h: "heap_inv rg m"
  shows "object_store_resolve_header (Some rg) obj ps m =
     Some (if (\<exists>n. heap_abs m (unat obj) = Some n \<and> 16 + unat ps \<le> n) \<and>
              oh_flags (get_object m (unat obj)) AND 1 = 0
           then Some (rg_base rg + obj) else None)"
proof (cases "obj = 0 \<or> \<not> unat ps + 16 < 2 ^ 64")
  case True
  have "heap_abs m 0 = None"
    using heap_abs_bounds(1) [OF h, of 0] by (cases "heap_abs m 0") auto
  moreover have "\<not> 16 + unat ps \<le> n" if "heap_abs m (unat obj) = Some n" "\<not> unat ps + 16 < 2 ^ 64" for n
    using heap_abs_bounds(3) [OF h that(1)] that(2) unat_less_2p64 [of "rg_size rg"] by simp
  ultimately show ?thesis using True oversize_iff by (auto simp: object_store_resolve_header_def)
next
  case False
  then have o: "obj \<noteq> 0" and s: "unat ps + 16 < 2 ^ 64" by auto
  note ut = unat_total [OF s]
  have rg: "rg_base rg \<noteq> 0" using h region_okD(1) by (simp add: heap_inv_def header_inv_def)
  show ?thesis
  proof (cases "offset_ptr_try_resolve (rg_base rg) (rg_size rg) obj (16 + ps) True")
    case None
    then have "\<not> unat obj + (16 + unat ps) \<le> unat (rg_size rg)"
      using rg o ut by (auto simp: resolve_None_iff)
    then have "\<not> 16 + unat ps \<le> n" if "heap_abs m (unat obj) = Some n" for n
      using heap_abs_bounds(3) [OF h that] by simp
    then show ?thesis using None o s oversize_iff by (auto simp: object_store_resolve_header_def)
  next
    case (Some r)
    then have r: "r = rg_base rg + obj" and in_rg: "unat obj < unat (rg_size rg)" by (simp_all add: resolve_iff)
    have "unat (rg_base rg + obj) = unat (rg_base rg) + unat obj"
      using in_rg h region_okD(2) [of rg] by (subst unat_add_nowrap) (simp_all add: heap_inv_def header_inv_def)
    then have "rg_base rg + obj \<noteq> 0" using rg by (metis add_is_0 unsigned_0 word_unat_eq_iff)
    from span_lookup [OF h this]
    obtain st sp where sp: "allocator_get_allocation_span (Some rg) r True m = Some (st, sp)"
      "case heap_abs m (unat obj) of Some n \<Rightarrow> st = STATUS_OK \<and> map_option unat sp = Some n
       | None \<Rightarrow> st \<noteq> STATUS_OK" using r by (force split: option.splits)
    have "the sp < 16 + ps \<longleftrightarrow> \<not> 16 + unat ps \<le> n" if "map_option unat sp = Some n" for n
      using that ut by (auto simp: word_less_nat_alt)
    then show ?thesis using sp Some o s r oversize_iff
      by (cases "heap_abs m (unat obj)") (auto simp: object_store_resolve_header_def)
  qed
qed

section \<open>Live objects\<close>

text \<open>A live, well-formed object: the start of a live allocation, not marked freed, whose declared
  payload fits in the allocation.\<close>

definition object_at :: "mem \<Rightarrow> nat \<Rightarrow> bool" where
  "object_at m p \<longleftrightarrow>
     (\<exists>n. heap_abs m p = Some n \<and> 16 + unat (oh_size (get_object m p)) \<le> n) \<and>
     oh_flags (get_object m p) AND 1 = 0"

lemma resolved_roff [simp]: "roff rg (rg_base rg + obj) = unat obj"
  by (simp add: roff_def)

lemma object_resolves:
  assumes h: "heap_inv rg m" and o: "object_at m (unat obj)"
  shows "object_store_resolve_header (Some rg) obj 0 m = Some (Some (rg_base rg + obj))"
    and "object_store_resolve_header (Some rg) obj (ucast (oh_size (get_object m (unat obj)))) m
           = Some (Some (rg_base rg + obj))"
    and "obj \<noteq> 0"
proof -
  obtain n where n: "heap_abs m (unat obj) = Some n" "16 + unat (oh_size (get_object m (unat obj))) \<le> n"
    "oh_flags (get_object m (unat obj)) AND 1 = 0" using o by (auto simp: object_at_def)
  then show "object_store_resolve_header (Some rg) obj 0 m = Some (Some (rg_base rg + obj))"
    "object_store_resolve_header (Some rg) obj (ucast (oh_size (get_object m (unat obj)))) m
           = Some (Some (rg_base rg + obj))"
    by (simp_all add: resolve_header_run [OF h] unat_ucast_64)
  show "obj \<noteq> 0" using heap_abs_bounds(1) [OF h n(1)] by auto
qed

lemma object_gone:
  assumes h: "heap_inv rg m" and o: "heap_abs m (unat obj) = None"
  shows "object_store_resolve_header (Some rg) obj ps m = Some None"
  using o by (simp add: resolve_header_run [OF h])

text \<open>C15: Every handle, forged or stale ones included, is resolved safely: \<open>object_store_get_payload\<close>
  returns, and it returns a pointer only for the start of a live allocation that holds the
  declared payload, pointing just behind the header and inside that allocation.\<close>

theorem object_store_get_payload_safe:
  assumes h: "heap_inv rg m"
  shows "object_store_get_payload (Some rg) obj m =
     Some (if object_at m (unat obj) then Some (rg_base rg + obj + 16) else None)"
proof -
  let ?sz = "oh_size (get_object m (unat obj))"
  have "object_at m (unat obj) \<longleftrightarrow>
     (\<exists>n. heap_abs m (unat obj) = Some n \<and> 16 + unat ?sz \<le> n) \<and> oh_flags (get_object m (unat obj)) AND 1 = 0"
    by (simp add: object_at_def)
  then show ?thesis
    by (auto simp: object_store_get_payload_def object_store_get_payload_const_def object_store_get_header_def
        resolve_header_run [OF h] unat_ucast_64)
qed

section \<open>Allocation\<close>

lemma st32_outside: "x < a \<or> a + 4 \<le> x \<Longrightarrow> st32 m a v x = m x"
  by (auto simp: st32_def wr_def)

lemma object_header_written:
  assumes "m4 = st32 (st32 (st32 (st32 m p sz) (p + 4) ty) (p + 8) fl) (p + 12) rs"
  shows "get_object m4 p = \<lparr>oh_size = sz, oh_type = ty, oh_flags = fl, oh_reserved = rs\<rparr>"
    and "x < p \<or> p + 16 \<le> x \<Longrightarrow> m4 x = m x"
  using assms by (simp add: get_object_def) (auto simp: assms st32_outside)

lemma from_raw_payload:
  assumes h: "heap_inv rg m" and p: "heap_abs m p = Some n"
  shows "offset_ptr_try_from_raw (rg_base rg) (rg_size rg) (rg_base rg + of_nat p) True = Some (of_nat p)"
proof -
  have rg: "region_ok rg" using h by (simp add: heap_inv_def header_inv_def)
  note b = heap_abs_bounds [OF h p] and r = region_okD [OF rg] and pp = payload_pointer [OF h p]
  have e: "unat (rg_base rg + of_nat p) = unat (rg_base rg) + p" "unat (rg_base rg + rg_size rg) = unat (rg_base rg) + unat (rg_size rg)"
    using pp(1) b r by (subst unat_add_nowrap; simp)+
  have "\<not> rg_base rg + rg_size rg < rg_base rg" "\<not> rg_base rg + of_nat p < rg_base rg"
    "\<not> rg_base rg + rg_size rg \<le> rg_base rg + of_nat p"
    using e b by (simp_all add: word_less_nat_alt word_le_nat_alt)
  moreover have "(of_nat p :: u64) \<noteq> 0" using pp(1) b(1) by auto
  ultimately show ?thesis using r(1) pp(3) by (simp add: offset_ptr_try_from_raw_def Let_def)
qed

lemma object_alloc_grants:
  assumes h: "heap_inv rg (bytes w)" and r: "ready E w" and ps: "unat ps \<le> 4294967295"
    and b: "b \<in> free_blocks (bytes w)" "fits (bytes w) 16 (req_size (16 + ps)) b"
  shows "\<exists>p n m'. object_store_alloc E (Some rg) ty ps True w = Some ((STATUS_OK, Some (of_nat p)), set_bytes m' w) \<and>
     heap_inv rg m' \<and> heap_abs (bytes w) p = None \<and> heap_abs m' = (heap_abs (bytes w))(p \<mapsto> n) \<and>
     16 + unat ps \<le> n \<and> p mod 16 = 0 \<and>
     get_object m' p = \<lparr>oh_size = ucast ps, oh_type = ty, oh_flags = 0, oh_reserved = 0\<rparr> \<and> object_at m' p \<and>
     object_store_validate (Some rg) (of_nat p) m' = Some STATUS_OK \<and>
     (\<forall>q j. heap_abs (bytes w) q = Some j \<longrightarrow> same_on (bytes w) m' q (q + j)) \<and> same_on (bytes w) m' 0 2496 \<and>
     blocks_kept (bytes w) m' \<and> pays spare (req_size (16 + ps) + 128) (bytes w) m' \<and>
     (\<exists>b \<in> free_blocks (bytes w). p = b + payload_off 16 b)"
proof -
  have u: "unat (16 + ps) = 16 + unat ps" using ps by (intro unat_total) simp
  have v: "valid_request (16 + ps) 16" using u ps by (auto simp: valid_request_def intro: exI [of _ 4])
  have al: "req_align 16 = 16" by (simp add: req_align_def)
  obtain p n m1 where a: "allocator_alloc E (Some rg) (16 + ps) 16 True w
             = Some ((STATUS_OK, Some (rg_base rg + of_nat p)), set_bytes m1 w)"
    and g: "alloc_grants rg (16 + unat ps) 16 (bytes w) p n m1"
    using alloc_runs [OF h r v b(1)] b(2) al u by auto
  have m1: "heap_inv rg m1" "heap_abs m1 p = Some n" "heap_abs m1 = (heap_abs (bytes w))(p \<mapsto> n)" "16 + unat ps \<le> n"
    "heap_abs (bytes w) p = None" "p mod 16 = 0" "same_on (bytes w) m1 0 2688"
    and o1: "\<And>q j. heap_abs (bytes w) q = Some j \<Longrightarrow> same_on (bytes w) m1 q (q + j)"
    using g by (auto simp: alloc_grants_def)
  note pp = payload_pointer [OF m1(1,2)] and bp = heap_abs_bounds [OF m1(1,2)]
  define m' where "m' = st32 (st32 (st32 (st32 m1 p (ucast ps)) (p + 4) ty) (p + 8) 0) (p + 12) 0"
  note ow = object_header_written [OF m'_def]
  have own: "heap.own_write p m1 m'" using m1(4) ow(2) by (auto simp: heap.own_write_def m1(2))
  note oi = heap.own_write_inv [OF m1(1,2) own]
  have run: "object_store_alloc E (Some rg) ty ps True w = Some ((STATUS_OK, Some (of_nat p)), set_bytes m' w)"
    using ps a from_raw_payload [OF m1(1,2)] pp(1)
    by (simp add: object_store_alloc_def word_less_nat_alt Let_def m'_def)
  have ob: "object_at m' p"
    using oi(2) m1(2,4) ow(1) ps by (auto simp: object_at_def unat_ucast_32)
  then have val: "object_store_validate (Some rg) (of_nat p) m' = Some STATUS_OK"
    using object_resolves [OF oi(1), of "of_nat p"] pp(1)
    by (simp add: object_store_validate_def object_store_get_header_def)
  have "same_on (bytes w) m' q (q + j)" if "heap_abs (bytes w) q = Some j" for q j
  proof -
    have "q \<noteq> p" "heap_abs m1 q = Some j" using that m1(3,5) by auto
    then show ?thesis using same_on_trans [OF o1 [OF that]] oi(3) by blast
  qed
  moreover have "same_on (bytes w) m' 0 2496" using m1(7) ow(2) bp(1) by (auto simp: same_on_def)
  moreover have "blocks_kept (bytes w) m'"
    using g blocks_kept_write [OF _ m1(1) own_write_meta [OF m1(2) own]] by (simp add: alloc_grants_def)
  moreover have "pays spare (req_size (16 + ps) + 128) (bytes w) m1"
    using g u by (simp add: alloc_grants_def req_size_def add.assoc)
  then have "pays spare (req_size (16 + ps) + 128) (bytes w) m'"
    using spare_write [OF m1(1) own_write_meta [OF m1(2) own]] by (simp add: pays_def)
  moreover have "\<exists>b \<in> free_blocks (bytes w). p = b + payload_off 16 b" using g by (simp add: alloc_grants_def)
  ultimately show ?thesis using run oi(1,2) m1 ow(1) ob val by metis
qed

text \<open>C30: \<open>object_store_alloc\<close> with a payload of at most \<open>UINT32_MAX\<close> bytes and a free block that holds
  header and payload returns \<open>OK\<close> and the handle of a fresh object: its header carries the size and
  type asked for, the handle validates and resolves, every other live allocation keeps its bytes,
  and the heap stays well formed.\<close>

theorem object_store_alloc_creates:
  assumes h: "heap_inv rg (bytes w)" and r: "ready E w" and ps: "unat ps \<le> 4294967295"
    and b: "b \<in> free_blocks (bytes w)" "fits (bytes w) 16 (req_size (16 + ps)) b"
  shows "\<exists>p n m'. object_store_alloc E (Some rg) ty ps True w = Some ((STATUS_OK, Some (of_nat p)), set_bytes m' w) \<and>
     heap_inv rg m' \<and> heap_abs (bytes w) p = None \<and> heap_abs m' = (heap_abs (bytes w))(p \<mapsto> n) \<and>
     16 + unat ps \<le> n \<and> p mod 16 = 0 \<and>
     get_object m' p = \<lparr>oh_size = ucast ps, oh_type = ty, oh_flags = 0, oh_reserved = 0\<rparr> \<and> object_at m' p \<and>
     object_store_validate (Some rg) (of_nat p) m' = Some STATUS_OK \<and>
     (\<forall>q j. heap_abs (bytes w) q = Some j \<longrightarrow> same_on (bytes w) m' q (q + j)) \<and> same_on (bytes w) m' 0 2496"
  using object_alloc_grants [OF assms, of ty] by (elim exE conjE) (intro exI conjI; assumption)

lemma object_alloc_refuses:
  assumes h: "heap_inv rg (bytes w)" and r: "ready E w"
    and no: "\<forall>b \<in> free_blocks (bytes w). \<not> fits (bytes w) 16 (req_size (16 + ps)) b"
  shows "if 4294967295 < unat ps
     then object_store_alloc E (Some rg) ty ps True w = Some ((STATUS_INVALID_ARGUMENT, None), w)
     else \<exists>m'. object_store_alloc E (Some rg) ty ps True w = Some ((STATUS_OUT_OF_MEMORY, None), set_bytes m' w) \<and>
       heap_inv rg m' \<and> heap_abs m' = heap_abs (bytes w) \<and> (\<forall>x. x < 2720 \<or> 2728 \<le> x \<longrightarrow> m' x = bytes w x) \<and>
       (\<forall>al sz q. serves al sz (bytes w) q \<longrightarrow> serves al sz m' q)"
proof (cases "4294967295 < unat ps")
  case True
  then show ?thesis by (simp add: object_store_alloc_def word_less_nat_alt)
next
  case False
  have u: "unat (16 + ps) = 16 + unat ps" using False by (intro unat_total) simp
  have v: "valid_request (16 + ps) 16" using u False by (auto simp: valid_request_def intro: exI [of _ 4])
  have al: "req_align 16 = 16" by (simp add: req_align_def)
  let ?m = "st64 (bytes w) 2720 (ah_failures (bytes w) + 1)"
  have "allocator_alloc E (Some rg) (16 + ps) 16 True w = Some ((STATUS_OUT_OF_MEMORY, None), set_bytes ?m w)"
    "heap_inv rg ?m" "heap_abs ?m = heap_abs (bytes w)"
    using alloc_exhausted [OF h r v] no al by auto
  then show ?thesis using False serves_failure_count [OF h]
    by (auto simp: object_store_alloc_def word_less_nat_alt st64_outside)
qed

text \<open>When no free block holds header and payload, \<open>object_store_alloc\<close> returns \<open>OUT_OF_MEMORY\<close> and
  the heap is as before but for the failure counter; a payload above \<open>UINT32_MAX\<close> is refused with
  \<open>INVALID_ARGUMENT\<close> and changes nothing.\<close>

theorem object_store_alloc_fails:
  assumes h: "heap_inv rg (bytes w)" and r: "ready E w"
    and no: "\<forall>b \<in> free_blocks (bytes w). \<not> fits (bytes w) 16 (req_size (16 + ps)) b"
  shows "if 4294967295 < unat ps
     then object_store_alloc E (Some rg) ty ps True w = Some ((STATUS_INVALID_ARGUMENT, None), w)
     else \<exists>m'. object_store_alloc E (Some rg) ty ps True w = Some ((STATUS_OUT_OF_MEMORY, None), set_bytes m' w) \<and>
       heap_inv rg m' \<and> heap_abs m' = heap_abs (bytes w) \<and> (\<forall>x. x < 2720 \<or> 2728 \<le> x \<longrightarrow> m' x = bytes w x)"
  using object_alloc_refuses [OF assms, of ty] by (auto split: if_splits)

section \<open>Free\<close>

lemma object_free_runs:
  assumes h: "heap_inv rg (bytes w)" and r: "ready E w" and o: "object_at (bytes w) (unat obj)"
  shows "\<exists>m'. object_store_free E (Some rg) obj w = Some (STATUS_OK, set_bytes m' w) \<and>
     heap_inv rg m' \<and> heap_abs m' = (heap_abs (bytes w))(unat obj := None) \<and>
     (\<forall>q j. heap_abs (bytes w) q = Some j \<and> q \<noteq> unat obj \<longrightarrow> same_on (bytes w) m' q (q + j)) \<and>
     same_on (bytes w) m' 0 2496 \<and>
     object_store_validate (Some rg) obj m' = Some STATUS_NOT_FOUND \<and>
     object_store_free E (Some rg) obj (set_bytes m' w) = Some (STATUS_NOT_FOUND, set_bytes m' w) \<and>
     (\<forall>al sz q. serves al sz (bytes w) q \<and> q \<noteq> unat obj \<longrightarrow> serves al sz m' q) \<and> pays spare 0 (bytes w) m'"
proof -
  let ?p = "unat obj" and ?m = "bytes w"
  obtain n where n: "heap_abs ?m ?p = Some n" using o by (auto simp: object_at_def)
  note bp = heap_abs_bounds [OF h n] and rs = object_resolves [OF h o]
  let ?sz = "oh_size (get_object ?m ?p)"
  define m4 where "m4 = st32 (st32 (st32 (st32 ?m (?p + 8) (oh_flags (get_object ?m ?p) OR 1)) (?p + 4) 0)
     (?p + 12) 0x46524545) ?p ?sz"
  have out: "x < ?p \<or> ?p + 16 \<le> x \<Longrightarrow> m4 x = ?m x" for x by (auto simp: m4_def st32_outside)
  have own: "heap.own_write ?p ?m m4" using bp(2) n out by (auto simp: heap.own_write_def)
  note oi = heap.own_write_inv [OF h n own]
  have hm: "heap_inv rg (bytes (set_bytes m4 w))" "ready E (set_bytes m4 w)" "heap_abs (bytes (set_bytes m4 w)) ?p = Some n"
    using oi(1,2) r n by simp_all
  obtain m' where f: "allocator_free E (Some rg) (rg_base rg + of_nat ?p) (set_bytes m4 w) = Some (STATUS_OK, set_bytes m' w)"
    and m': "heap_inv rg m'" "heap_abs m' = (heap_abs m4)(?p := None)" "same_on m4 m' 0 2688"
    and ot: "\<And>q j. heap_abs m4 q = Some j \<Longrightarrow> q \<noteq> ?p \<Longrightarrow> same_on m4 m' q (q + j)"
    and sv: "\<And>al sz q. serves al sz m4 q \<Longrightarrow> q \<noteq> ?p \<Longrightarrow> serves al sz m' q" and py: "pays spare 0 m4 m'"
    using free_releases [OF hm] by auto
  have run: "object_store_free E (Some rg) obj w = Some (STATUS_OK, set_bytes m' w)"
    using rs f by (simp add: object_store_free_def object_store_get_header_mut_def Let_def m4_def)
  have gone: "heap_abs m' ?p = None" using m'(2) by simp
  have "object_store_validate (Some rg) obj m' = Some STATUS_NOT_FOUND"
    "object_store_free E (Some rg) obj (set_bytes m' w) = Some (STATUS_NOT_FOUND, set_bytes m' w)"
    using object_gone [OF m'(1) gone] rs(3)
    by (simp_all add: object_store_validate_def object_store_free_def object_store_get_header_def
        object_store_get_header_mut_def)
  moreover have "same_on ?m m' 0 2496"
  proof -
    have "same_on ?m m4 0 2496" using out bp(1) by (simp add: same_on_def)
    moreover have "same_on m4 m' 0 2496" using m'(3) by (rule same_on_sub) simp_all
    ultimately show ?thesis by (rule same_on_trans)
  qed
  moreover have "same_on ?m m' q (q + j)" if "heap_abs ?m q = Some j" "q \<noteq> ?p" for q j
    using same_on_trans [OF oi(3) [OF that]] ot [of q j] that oi(2) by simp
  moreover have "serves al sz m' q" if "serves al sz ?m q" "q \<noteq> ?p" for al sz q
    using sv that serves_own [OF h n own] by blast
  moreover have "pays spare 0 ?m m'" using py spare_write [OF h own_write_meta [OF n own]] by (simp add: pays_def)
  ultimately show ?thesis using run m'(1,2) oi(2) by auto
qed

text \<open>C31: \<open>object_store_free\<close> of a live object returns \<open>OK\<close>, removes exactly its span from the heap and
  keeps the bytes of every other live allocation; afterwards the stale handle is refused: it does
  not validate and freeing it again returns \<open>NOT_FOUND\<close> and changes nothing.\<close>

theorem object_store_free_removes:
  assumes h: "heap_inv rg (bytes w)" and r: "ready E w" and o: "object_at (bytes w) (unat obj)"
  shows "\<exists>m'. object_store_free E (Some rg) obj w = Some (STATUS_OK, set_bytes m' w) \<and>
     heap_inv rg m' \<and> heap_abs m' = (heap_abs (bytes w))(unat obj := None) \<and>
     (\<forall>q j. heap_abs (bytes w) q = Some j \<and> q \<noteq> unat obj \<longrightarrow> same_on (bytes w) m' q (q + j)) \<and>
     same_on (bytes w) m' 0 2496 \<and>
     object_store_validate (Some rg) obj m' = Some STATUS_NOT_FOUND \<and>
     object_store_free E (Some rg) obj (set_bytes m' w) = Some (STATUS_NOT_FOUND, set_bytes m' w)"
  using object_free_runs [OF assms] by blast

section \<open>Witnesses\<close>

lemma demo_fits: "\<exists>b \<in> free_blocks (bytes demo_world). fits (bytes demo_world) 16 (req_size (16 + 100)) b"
proof (rule bexI)
  show "(2736 :: nat) \<in> free_blocks (bytes demo_world)" by (force simp: demo_facts(5))
  show "fits (bytes demo_world) 16 (req_size (16 + 100)) 2736"
    using demo_facts(6) [of 0] by (simp add: fits_def need_def payload_off_def round_up_def req_size_def)
qed

theorem object_store_get_payload_safe_witness:
  "object_store_get_payload (Some demo_region) 4096 (bytes demo_world) = Some None"
proof -
  have "\<not> object_at (bytes demo_world) (unat (4096 :: u64))" by (simp add: object_at_def demo_facts(3))
  then show ?thesis using object_store_get_payload_safe [OF demo_facts(2), of 4096] by simp
qed

theorem object_store_alloc_creates_witness:
  "\<exists>p m'. object_store_alloc demo_env (Some demo_region) 7 100 True demo_world
      = Some ((STATUS_OK, Some (of_nat p)), set_bytes m' demo_world) \<and> object_at m' p"
proof -
  obtain b where b: "b \<in> free_blocks (bytes demo_world)" "fits (bytes demo_world) 16 (req_size (16 + 100)) b"
    using demo_fits by blast
  have "unat (100 :: u64) \<le> 4294967295" by simp
  from object_store_alloc_creates [OF demo_facts(2,4) this b] show ?thesis by blast
qed

theorem object_store_alloc_fails_witness:
  "\<exists>m'. object_store_alloc demo_env (Some demo_region) 7 4096 True demo_world
      = Some ((STATUS_OUT_OF_MEMORY, None), set_bytes m' demo_world) \<and> heap_inv demo_region m'"
proof -
  have "\<not> fits (bytes demo_world) 16 (req_size (16 + 4096)) b" if "b \<in> free_blocks (bytes demo_world)" for b
  proof -
    have "bsz (bytes demo_world) b = 1364" using that demo_facts(5,6) by auto
    moreover have "4112 \<le> need 16 (req_size (16 + 4096)) b"
      using need_bounds(1) [of 16 b "req_size (16 + 4096)"] round_up_ge [of 16 4112] by (simp add: req_size_def)
    ultimately show ?thesis by (simp add: fits_def)
  qed
  then show ?thesis using object_store_alloc_fails [OF demo_facts(2,4), of 4096 7] by auto
qed

text \<open>A live object of the concrete heap.\<close>

lemma demo_object:
  obtains w obj where "heap_inv demo_region (bytes w)" "ready demo_env w" "object_at (bytes w) (unat (obj :: OffsetPtr))"
proof (rule demo_live)
  fix w p n assume d: "heap_inv demo_region (bytes w)" "ready demo_env w" "heap_abs (bytes w) p = Some n"
  note pp = payload_pointer [OF d(1,3)] and bp = heap_abs_bounds [OF d(1,3)]
  define m where "m = st32 (st32 (st32 (st32 (bytes w) p 0) (p + 4) 0) (p + 8) 0) (p + 12) 0"
  note ow = object_header_written [OF m_def]
  have own: "heap.own_write p (bytes w) m" using bp(2) d(3) ow(2) by (auto simp: heap.own_write_def)
  note oi = heap.own_write_inv [OF d(1,3) own]
  have "object_at m p" using ow(1) oi(2) d(3) bp(2) by (simp add: object_at_def)
  then show thesis using that [of "set_bytes m w" "of_nat p"] oi(1) d(2) pp(1) by auto
qed

theorem object_store_free_removes_witness:
  "\<exists>w obj w'. object_store_free demo_env (Some demo_region) obj w = Some (STATUS_OK, w') \<and>
     object_store_free demo_env (Some demo_region) obj w' = Some (STATUS_NOT_FOUND, w')"
proof (rule demo_object)
  fix w and obj :: OffsetPtr
  assume "heap_inv demo_region (bytes w)" "ready demo_env w" "object_at (bytes w) (unat obj)"
  from object_store_free_removes [OF this] show ?thesis by blast
qed

end
