(* ===== verification/HeapClient.thy ===== *)
theory HeapClient
  imports ObjectStore
begin

text \<open>
  What the containers of src/containers rely on: a heap that grants and releases spans. The
  locale \<open>heap_service\<close> extends \<open>span_heap\<close> with the two calls and their laws; inside it, the
  steps every container repeats (allocate and initialize, write an own span, release) are proved
  once, as transitions that leave the spans of everyone else alone. The allocator's model
  interprets it. The mutex each container keeps in its header is locked and unlocked the same way
  by all four, so that is here too.
\<close>

section \<open>Private steps\<close>

text \<open>A step of an owner whose spans start at \<open>S\<close> before and at \<open>S'\<close> after: the region header and
  every span of others stay, no span is lost or left behind, and what the spans of others can serve
  when they are freed stays.\<close>

definition private_step ::
    "(mem \<Rightarrow> nat \<rightharpoonup> nat) \<Rightarrow> (u64 \<Rightarrow> mem \<Rightarrow> nat \<Rightarrow> bool) \<Rightarrow> nat set \<Rightarrow> nat set \<Rightarrow> mem \<Rightarrow> mem \<Rightarrow> bool" where
  "private_step live serve S S' m m' \<longleftrightarrow>
     same_on m m' 0 2496 \<and> live m' |` (- S') = live m |` (- S) \<and>
     (\<forall>q j. live m q = Some j \<and> q \<notin> S \<longrightarrow> same_on m m' q (q + j)) \<and>
     (\<forall>sz q. serve sz m q \<and> q \<notin> S \<longrightarrow> serve sz m' q)"

lemma private_stepI:
  assumes "live m' |` (- S') = live m |` (- S)" and "same_on m m' 0 2496"
    and "\<And>q j. live m q = Some j \<Longrightarrow> q \<notin> S \<Longrightarrow> same_on m m' q (q + j)"
    and "\<And>sz q. serve sz m q \<Longrightarrow> q \<notin> S \<Longrightarrow> serve sz m' q"
  shows "private_step live serve S S' m m'"
  using assms by (simp add: private_step_def)

lemma private_step_refl [simp]: "private_step live serve S S m m"
  by (simp add: private_step_def)

lemma private_step_live:
  assumes "private_step live serve S S' m m'" and "live m q = Some j" and "q \<notin> S"
  shows "live m' q = Some j" and "q \<notin> S'" and "same_on m m' q (q + j)"
proof -
  have "(live m' |` (- S')) q = Some j" using assms by (simp add: private_step_def)
  then show "live m' q = Some j" "q \<notin> S'" by (auto simp: restrict_map_def split: if_splits)
  show "same_on m m' q (q + j)" using assms by (simp add: private_step_def)
qed

lemma private_step_serve:
  "private_step live serve S S' m m' \<Longrightarrow> serve sz m q \<Longrightarrow> q \<notin> S \<Longrightarrow> serve sz m' q"
  by (simp add: private_step_def)

text \<open>A span an owner gained did not belong to others before.\<close>

lemma private_step_new: "private_step live serve S S' m m' \<Longrightarrow> q \<in> S' \<Longrightarrow> q \<notin> S \<Longrightarrow> live m q = None"
  by (cases "live m q") (auto dest: private_step_live)

lemma private_step_trans:
  assumes s: "private_step live serve S S1 m m1" "private_step live serve S1 S2 m1 m2"
    and own: "\<And>sz q. serve sz m q \<Longrightarrow> live m q \<noteq> None"
  shows "private_step live serve S S2 m m2"
proof (rule private_stepI)
  show "live m2 |` (- S2) = live m |` (- S)" using s by (simp add: private_step_def)
  show "same_on m m2 0 2496" using s same_on_trans by (auto simp: private_step_def)
  show "same_on m m2 q (q + j)" if "live m q = Some j" "q \<notin> S" for q j
    using private_step_live [OF s(1) that] private_step_live(3) [OF s(2)] same_on_trans by blast
  show "serve sz m2 q" if sv: "serve sz m q" "q \<notin> S" for sz q
  proof -
    obtain j where "live m q = Some j" using own [OF sv(1)] by auto
    then have "q \<notin> S1" using private_step_live(2) [OF s(1)] sv(2) by blast
    then show ?thesis using private_step_serve s sv by blast
  qed
qed

text \<open>An owner of more spans takes the same step.\<close>

lemma private_step_widen:
  assumes "private_step live serve S S' m m'"
  shows "private_step live serve (S \<union> T) (S' \<union> (T - S)) m m'"
proof (rule private_stepI)
  have "(live m' |` (- (S' \<union> (T - S)))) q = (live m |` (- (S \<union> T))) q" for q
  proof -
    have e: "(live m' |` (- S')) q = (live m |` (- S)) q" using assms by (simp add: private_step_def)
    show ?thesis
    proof (cases "q \<in> T \<and> q \<notin> S")
      case True
      then show ?thesis by simp
    next
      case False
      then have "(q \<in> S \<union> T) = (q \<in> S)" "(q \<in> S' \<union> (T - S)) = (q \<in> S')" by auto
      with e show ?thesis by (simp add: restrict_map_def)
    qed
  qed
  then show "live m' |` (- (S' \<union> (T - S))) = live m |` (- (S \<union> T))" by (rule ext)
qed (use assms in \<open>auto simp: private_step_def\<close>)

section \<open>The service\<close>

locale heap_service = span_heap inv live
  for inv :: "mem \<Rightarrow> bool" and live :: "mem \<Rightarrow> nat \<rightharpoonup> nat" +
  fixes ready :: "world \<Rightarrow> bool"
    and room :: "u64 \<Rightarrow> mem \<Rightarrow> bool"
    and serve :: "u64 \<Rightarrow> mem \<Rightarrow> nat \<Rightarrow> bool"
    and request :: "u64 \<Rightarrow> bool"
    and alloc :: "u64 \<Rightarrow> world \<Rightarrow> (OffsetStoreStatus \<times> u64 option) result"
    and release :: "u64 \<Rightarrow> world \<Rightarrow> OffsetStoreStatus result"
    and addr :: "nat \<Rightarrow> u64" and sp :: "nat \<Rightarrow> mem \<Rightarrow> bool" and cost :: "u64 \<Rightarrow> nat"
  assumes alloc_grants: "inv (bytes w) \<Longrightarrow> ready w \<Longrightarrow> request sz \<Longrightarrow> room sz (bytes w) \<Longrightarrow>
      \<exists>p n m'. alloc sz w = Some ((STATUS_OK, Some (addr p)), set_bytes m' w) \<and> inv m' \<and>
         live (bytes w) p = None \<and> live m' = (live (bytes w))(p \<mapsto> n) \<and> unat sz \<le> n \<and> serve sz m' p \<and>
         private_step live serve {} {p} (bytes w) m' \<and> pays sp (cost sz) (bytes w) m'"
    and alloc_refuses: "inv (bytes w) \<Longrightarrow> ready w \<Longrightarrow> request sz \<Longrightarrow> \<not> room sz (bytes w) \<Longrightarrow>
      \<exists>m'. alloc sz w = Some ((STATUS_OUT_OF_MEMORY, None), set_bytes m' w) \<and> inv m' \<and>
         live m' = live (bytes w) \<and> private_step live serve {} {} (bytes w) m'"
    and release_law: "inv (bytes w) \<Longrightarrow> ready w \<Longrightarrow> live (bytes w) p = Some n \<Longrightarrow>
      \<exists>m'. release (addr p) w = Some (STATUS_OK, set_bytes m' w) \<and> inv m' \<and>
         live m' = (live (bytes w))(p := None) \<and> private_step live serve {p} {} (bytes w) m' \<and>
         (\<forall>sz. serve sz (bytes w) p \<longrightarrow> room sz m') \<and> pays sp 0 (bytes w) m'"
    and write_room: "inv m \<Longrightarrow> live m p = Some n \<Longrightarrow> (\<And>x. x < p \<or> p + n \<le> x \<Longrightarrow> m' x = m x) \<Longrightarrow>
      room sz m' = room sz m \<and> serve sz m' q = serve sz m q \<and> sp N m' = sp N m"
    and serve_live: "inv m \<Longrightarrow> serve sz m q \<Longrightarrow> live m q \<noteq> None"
    and cost_room: "sp (cost sz) m \<Longrightarrow> room sz m"
begin

lemma step_trans:
  assumes "inv m" and "private_step live serve S S1 m m1" and "private_step live serve S1 S2 m1 m2"
  shows "private_step live serve S S2 m m2"
  using private_step_trans [OF assms(2,3)] serve_live [OF assms(1)] by blast

lemma own_step:
  assumes "inv m" and "live m p = Some n" and "\<And>x. x < p \<or> p + n \<le> x \<Longrightarrow> m' x = m x"
  shows "inv m'" and "live m' = live m" and "private_step live serve {p} {p} m m'"
    and "room sz m' = room sz m" and "serve sz m' q = serve sz m q" and "sp N m' = sp N m"
proof -
  show i: "inv m'" "live m' = live m" using write_inside [OF assms] by simp_all
  have s: "serve sz m' q = serve sz m q" "room sz m' = room sz m" "sp N m' = sp N m" for sz q N
    using write_room [OF assms] by blast+
  show "serve sz m' q = serve sz m q" "room sz m' = room sz m" "sp N m' = sp N m" by (fact s)+
  have "same_on m m' q (q + j)" if "live m q = Some j" "q \<noteq> p" for q j
    using live_disjoint [OF assms(1) that(1) assms(2) that(2)] assms(3) by (auto simp: same_on_def)
  moreover have "same_on m m' 0 2496" using live_above [OF assms(1,2)] assms(3) by (auto simp: same_on_def)
  ultimately show "private_step live serve {p} {p} m m'" using i(2) s by (simp add: private_step_def)
qed

text \<open>A write confined to several spans of the owner.\<close>

lemma own_steps:
  assumes "finite T" and h: "inv m" and "T \<subseteq> dom (live m)"
    and "\<And>x. (\<And>p n. p \<in> T \<Longrightarrow> live m p = Some n \<Longrightarrow> x < p \<or> p + n \<le> x) \<Longrightarrow> m' x = m x"
  shows "inv m' \<and> live m' = live m \<and> private_step live serve T T m m' \<and> room sz m' = room sz m \<and>
     serve sz m' q = serve sz m q \<and> sp N m' = sp N m"
  using assms(1,3,4)
proof (induction T arbitrary: m' rule: finite_induct)
  case empty
  then have "m' = m" by (intro ext) simp
  then show ?case using h by simp
next
  case (insert p T)
  define m1 where "m1 = (\<lambda>x. if \<exists>q \<in> T. \<exists>n. live m q = Some n \<and> q \<le> x \<and> x < q + n then m' x else m x)"
  have "m1 x = m x" if "\<And>q n. q \<in> T \<Longrightarrow> live m q = Some n \<Longrightarrow> x < q \<or> q + n \<le> x" for x
  proof -
    have "\<not> (\<exists>q \<in> T. \<exists>n. live m q = Some n \<and> q \<le> x \<and> x < q + n)" using that by (meson not_less)
    then show ?thesis unfolding m1_def by (simp only: if_False)
  qed
  moreover have "T \<subseteq> dom (live m)" using insert.prems(1) by simp
  ultimately have "inv m1 \<and> live m1 = live m \<and> private_step live serve T T m m1 \<and> room sz m1 = room sz m \<and>
      serve sz m1 q = serve sz m q \<and> sp N m1 = sp N m" by (rule insert.IH [rotated])
  then have i: "inv m1" "live m1 = live m" "private_step live serve T T m m1" "room sz m1 = room sz m"
      "serve sz m1 q = serve sz m q" "sp N m1 = sp N m" by blast+
  obtain n where n: "live m1 p = Some n" using insert.prems i(2) by auto
  have o: "m' x = m1 x" if "x < p \<or> p + n \<le> x" for x
  proof (cases "\<exists>q \<in> T. \<exists>n. live m q = Some n \<and> q \<le> x \<and> x < q + n")
    case True
    then show ?thesis by (simp add: m1_def)
  next
    case False
    then have "m' x = m x" using that n i(2) by (intro insert.prems(2)) (auto simp: not_less)
    then show ?thesis by (simp add: m1_def)
  qed
  note s = own_step [OF i(1) n o]
  have "private_step live serve (insert p T) (insert p T) m m1"
    using private_step_widen [OF i(3), of "{p}"] insert.hyps(2) by (simp add: insert_commute)
  moreover have "private_step live serve (insert p T) (insert p T) m1 m'"
    using private_step_widen [OF s(3), of T] insert.hyps(2) by simp
  ultimately have "private_step live serve (insert p T) (insert p T) m m'" by (rule step_trans [OF h])
  then show ?case using s(1,2,4-6) i by simp
qed

text \<open>Initializing a span that was just granted.\<close>

lemma init_step:
  assumes h: "inv m" and g: "inv m1" "live m p = None" "live m1 = (live m)(p \<mapsto> n)"
      "private_step live serve {} {p} m m1"
    and w: "\<And>x. x < p \<or> p + n \<le> x \<Longrightarrow> m2 x = m1 x"
  shows "inv m2" and "live m2 = (live m)(p \<mapsto> n)" and "private_step live serve {} {p} m m2"
    and "serve sz m2 q = serve sz m1 q" and "room sz m2 = room sz m1" and "sp N m2 = sp N m1"
proof -
  have l: "live m1 p = Some n" using g(3) by simp
  note o = own_step [OF g(1) l w]
  show "inv m2" "live m2 = (live m)(p \<mapsto> n)" using o(1,2) g(3) by simp_all
  show "private_step live serve {} {p} m m2" using step_trans [OF h g(4) o(3)] .
  show "serve sz m2 q = serve sz m1 q" "room sz m2 = room sz m1" "sp N m2 = sp N m1" using o(4-6) by simp_all
qed

text \<open>Freeing a span makes the request it was granted for grantable again, so allocating anew after
  freeing does not fail.\<close>

lemma realloc:
  assumes h: "inv (bytes w)" and r: "ready w" "\<And>m. ready (set_bytes m w)" and q: "request sz"
    and p: "live (bytes w) p = Some n" "serve sz (bytes w) p"
  shows "\<exists>m1 p' n' m2. release (addr p) w = Some (STATUS_OK, set_bytes m1 w) \<and>
     alloc sz (set_bytes m1 w) = Some ((STATUS_OK, Some (addr p')), set_bytes m2 w) \<and> inv m2 \<and>
     live m1 = (live (bytes w))(p := None) \<and> live m1 p' = None \<and> live m2 = (live m1)(p' \<mapsto> n') \<and> unat sz \<le> n' \<and>
     serve sz m2 p' \<and> private_step live serve {p} {p'} (bytes w) m2"
proof -
  obtain m1 where m1: "release (addr p) w = Some (STATUS_OK, set_bytes m1 w)" "inv m1"
      "live m1 = (live (bytes w))(p := None)" "private_step live serve {p} {} (bytes w) m1" "room sz m1"
    using release_law [OF h r(1) p(1)] p(2) by blast
  have i: "inv (bytes (set_bytes m1 w))" "room sz (bytes (set_bytes m1 w))" using m1 by simp_all
  from alloc_grants [OF i(1) r(2) q i(2)] obtain p' n' m2 where
    m2: "alloc sz (set_bytes m1 w) = Some ((STATUS_OK, Some (addr p')), set_bytes m2 w)" "inv m2" "live m1 p' = None"
      "live m2 = (live m1)(p' \<mapsto> n')" "unat sz \<le> n'" "serve sz m2 p'" "private_step live serve {} {p'} m1 m2" by auto
  then show ?thesis using m1 step_trans [OF h m1(4) m2(7)] by blast
qed

end

text \<open>Some free block holds a request of \<open>sz\<close> bytes at the default alignment; the block of a payload
  would hold it.\<close>

definition room :: "u64 \<Rightarrow> mem \<Rightarrow> bool" where
  "room sz m \<longleftrightarrow> (\<exists>b \<in> free_blocks m. fits m (req_align 16) (req_size sz) b)"

definition span_serves :: "u64 \<Rightarrow> mem \<Rightarrow> nat \<Rightarrow> bool" where
  "span_serves sz m p \<longleftrightarrow> serves (req_align 16) (req_size sz) m p"

text \<open>What a request takes out of the largest free block, at most.\<close>

definition alloc_cost :: "u64 \<Rightarrow> nat" where
  "alloc_cost sz = req_size sz + 128"

lemma alloc_cost_room: "spare (alloc_cost sz) m \<Longrightarrow> room sz m"
  using spare_fits [of "req_size sz" "req_align 16" m] by (simp add: alloc_cost_def room_def req_align_def add.assoc)

lemma cost_covers: "spare N m \<Longrightarrow> alloc_cost sz \<le> N \<Longrightarrow> room sz m"
  using alloc_cost_room spare_mono by blast

text \<open>No request larger than the region has room.\<close>

lemma room_bound:
  assumes h: "heap_inv rg m" and r: "room sz m"
  shows "unat sz \<le> unat (rg_size rg)"
proof -
  obtain s b where s: "s < 4" "b \<in> free_in m s" and f: "fits m (req_align 16) (req_size sz) b"
    using r by (auto simp: room_def free_blocks_def)
  obtain bs fs where ok: "shard_ok m (shard_lo m s) (shard_lo m s + shard_len m) (ah_head m s) s bs fs"
    and t: "tiles m (shard_lo m s) (shard_lo m s + shard_len m) bs" "free_in m s = set fs"
    by (rule heap_shard [OF h s(1)])
  have "b \<in> set bs" using ok s(2) t(2) by (simp add: shard_ok_def)
  note b = tiles_mem(2) [OF t(1) this]
  have "header_inv rg m" using h by (simp add: heap_inv_def)
  note shard_range(2) [OF this s(1)]
  moreover have "unat sz \<le> req_size sz" by (simp add: req_size_def round_up_ge)
  ultimately show ?thesis using f b need_bounds(1) [of "req_align 16" b "req_size sz"] by (simp add: fits_def)
qed

lemma refused_after:
  assumes p: "pays spare c m m1" and r: "\<not> room sz m1" and N: "c + alloc_cost sz \<le> N"
  shows "\<not> spare N m"
proof
  assume "spare N m"
  then have "spare (N - c) m1" using paysD [OF p, of "N - c"] N by simp
  moreover have "alloc_cost sz \<le> N - c" using N by linarith
  ultimately show False using cost_covers r by blast
qed

abbreviation owner_step :: "nat set \<Rightarrow> nat set \<Rightarrow> mem \<Rightarrow> mem \<Rightarrow> bool" where
  "owner_step \<equiv> private_step heap_abs span_serves"

text \<open>Memory in which the spans that start at \<open>T\<close> are as they were. This is all a container needs to keep
  what it stands for, whoever wrote the rest.\<close>

definition undisturbed :: "nat set \<Rightarrow> mem \<Rightarrow> mem \<Rightarrow> bool" where
  "undisturbed T m m' \<longleftrightarrow>
     (\<forall>q \<in> T. \<forall>n. heap_abs m q = Some n \<longrightarrow> heap_abs m' q = Some n \<and> same_on m m' q (q + n)) \<and>
     (\<forall>q \<in> T. \<forall>sz. span_serves sz m q \<longrightarrow> span_serves sz m' q)"

lemma undisturbedD:
  assumes "undisturbed T m m'" and "q \<in> T"
  shows "heap_abs m q = Some n \<Longrightarrow> heap_abs m' q = Some n" and "heap_abs m q = Some n \<Longrightarrow> same_on m m' q (q + n)"
    and "span_serves sz m q \<Longrightarrow> span_serves sz m' q"
  using assms by (simp_all add: undisturbed_def)

lemma undisturbed_subset: "undisturbed T m m' \<Longrightarrow> U \<subseteq> T \<Longrightarrow> undisturbed U m m'"
  unfolding undisturbed_def by blast

lemma undisturbed_step:
  assumes s: "owner_step S S' m m'" and d: "T \<inter> S = {}"
  shows "undisturbed T m m'"
proof -
  have "q \<notin> S" if "q \<in> T" for q using d that by auto
  then show ?thesis using private_step_live(1,3) [OF s] private_step_serve [OF s] by (simp add: undisturbed_def)
qed

lemma serves_abs: "heap_inv rg m \<Longrightarrow> serves al sz m q \<Longrightarrow> heap_abs m q \<noteq> None"
  unfolding serves_def by (metis heap_abs_iff option.distinct(1))

interpretation svc: heap_service "heap_inv rg" heap_abs "ready E" room span_serves "\<lambda>sz. valid_request sz 16"
    "\<lambda>sz. allocator_alloc E (Some rg) sz 16 True" "allocator_free E (Some rg)" "\<lambda>p. rg_base rg + of_nat p"
    spare alloc_cost
  for rg E
proof unfold_locales
  fix w sz
  assume h: "heap_inv rg (bytes w)" and r: "ready E w" and v: "valid_request sz 16" and "room sz (bytes w)"
  then obtain p n m' where a: "allocator_alloc E (Some rg) sz 16 True w
       = Some ((STATUS_OK, Some (rg_base rg + of_nat p)), set_bytes m' w)"
    and g: "alloc_grants rg (unat sz) (req_align 16) (bytes w) p n m'"
    unfolding room_def using alloc_runs [OF h r v] by blast
  have "owner_step {} {p} (bytes w) m'"
  proof (rule private_stepI)
    show "heap_abs m' |` (- {p}) = heap_abs (bytes w) |` (- {})"
      using g by (auto simp: alloc_grants_def restrict_map_def fun_eq_iff)
    show "same_on (bytes w) m' 0 2496" using g same_on_sub by (auto simp: alloc_grants_def)
  qed (use g serves_kept in \<open>auto simp: alloc_grants_def span_serves_def\<close>)
  moreover have "span_serves sz m' p" using g by (simp add: alloc_grants_def span_serves_def req_size_def)
  moreover have "pays spare (alloc_cost sz) (bytes w) m'"
    using g by (simp add: alloc_grants_def alloc_cost_def req_size_def req_align_def add.assoc)
  ultimately show "\<exists>p n m'. allocator_alloc E (Some rg) sz 16 True w
            = Some ((STATUS_OK, Some (rg_base rg + of_nat p)), set_bytes m' w) \<and> heap_inv rg m' \<and>
         heap_abs (bytes w) p = None \<and> heap_abs m' = (heap_abs (bytes w))(p \<mapsto> n) \<and> unat sz \<le> n \<and>
         span_serves sz m' p \<and> owner_step {} {p} (bytes w) m' \<and> pays spare (alloc_cost sz) (bytes w) m'"
    using a g by (auto simp: alloc_grants_def)
next
  fix w sz
  assume h: "heap_inv rg (bytes w)" and r: "ready E w" and v: "valid_request sz 16" and "\<not> room sz (bytes w)"
  then obtain m' where a: "allocator_alloc E (Some rg) sz 16 True w = Some ((STATUS_OUT_OF_MEMORY, None), set_bytes m' w)"
    and m': "m' = st64 (bytes w) 2720 (ah_failures (bytes w) + 1)" and i: "heap_inv rg m'" "heap_abs m' = heap_abs (bytes w)"
    unfolding room_def using alloc_exhausted [OF h r v] by blast
  have "same_on (bytes w) m' q (q + j)" if "heap_abs (bytes w) q = Some j" for q j
    using heap_abs_bounds(1) [OF h that] unfolding m' by simp
  then have "owner_step {} {} (bytes w) m'"
    using i(2) by (intro private_stepI) (simp_all add: span_serves_def m' serves_failure_count [OF h])
  then show "\<exists>m'. allocator_alloc E (Some rg) sz 16 True w = Some ((STATUS_OUT_OF_MEMORY, None), set_bytes m' w) \<and>
         heap_inv rg m' \<and> heap_abs m' = heap_abs (bytes w) \<and> owner_step {} {} (bytes w) m'"
    using a i by blast
next
  fix w p n
  assume h: "heap_inv rg (bytes w)" and r: "ready E w" and p: "heap_abs (bytes w) p = Some n"
  obtain m' where f: "allocator_free E (Some rg) (rg_base rg + of_nat p) w = Some (STATUS_OK, set_bytes m' w)"
    and i: "heap_inv rg m'" "heap_abs m' = (heap_abs (bytes w))(p := None)" "same_on (bytes w) m' 0 2688"
    and o: "\<And>q j. heap_abs (bytes w) q = Some j \<Longrightarrow> q \<noteq> p \<Longrightarrow> same_on (bytes w) m' q (q + j)"
    and sv: "\<And>al sz q. serves al sz (bytes w) q \<Longrightarrow> q \<noteq> p \<Longrightarrow> serves al sz m' q"
      "\<And>al sz. serves al sz (bytes w) p \<Longrightarrow> \<exists>b \<in> free_blocks m'. fits m' al sz b" "pays spare 0 (bytes w) m'"
    using free_releases [OF h r p] by auto
  have "owner_step {p} {} (bytes w) m'"
    using i(2) o same_on_sub [OF i(3)] sv(1)
    by (intro private_stepI) (auto simp: restrict_map_def fun_eq_iff span_serves_def)
  then show "\<exists>m'. allocator_free E (Some rg) (rg_base rg + of_nat p) w = Some (STATUS_OK, set_bytes m' w) \<and> heap_inv rg m' \<and>
         heap_abs m' = (heap_abs (bytes w))(p := None) \<and> owner_step {p} {} (bytes w) m' \<and>
         (\<forall>sz. span_serves sz (bytes w) p \<longrightarrow> room sz m') \<and> pays spare 0 (bytes w) m'"
    using f i sv(2,3) by (auto simp: span_serves_def room_def)
next
  fix m p n m' sz q N
  assume h: "heap_inv rg m" and p: "heap_abs m p = Some n" and w: "\<And>x. x < p \<or> p + n \<le> x \<Longrightarrow> m' x = m x"
  have o: "m' x = m x" if "\<not> outside_heap_meta m x" for x
  proof (rule w)
    show "x < p \<or> p + n \<le> x" using that p unfolding outside_heap_meta_def by (meson not_le)
  qed
  note hw = heap_write(4,5) [OF h o] and sv = serves_write [OF h o] and sn = spare_write [OF h o]
  show "room sz m' = room sz m \<and> span_serves sz m' q = span_serves sz m q \<and> spare N m' = spare N m"
    using hw sv sn by (auto simp: room_def fits_def span_serves_def)
next
  fix m sz q
  assume "heap_inv rg m" "span_serves sz m q"
  then show "heap_abs m q \<noteq> None" unfolding span_serves_def by (rule serves_abs)
qed (rule alloc_cost_room)

text \<open>Writing a word inside a live span takes nothing.\<close>

lemma spare_st64:
  assumes "heap_inv rg m" and "heap_abs m q = Some n" and "q \<le> a" and "a + 8 \<le> q + n"
  shows "spare N (st64 m a v) = spare N m"
  by (rule svc.own_step(6) [OF assms(1,2)]) (use assms(3,4) in \<open>auto intro: st64_outside\<close>)

section \<open>Resolving into a live span\<close>

lemma span_resolves:
  assumes h: "heap_inv rg m" and p: "heap_abs m (unat off) = Some n" and s: "unat s \<le> n"
  shows "offset_ptr_try_resolve (rg_base rg) (rg_size rg) off s True = Some (rg_base rg + off)"
    and "off \<noteq> 0"
proof -
  have "region_ok rg" using h by (simp add: heap_inv_def header_inv_def)
  note b = heap_abs_bounds [OF h p] and r = region_okD [OF this]
  show nz: "off \<noteq> 0" using b(1) by auto
  show "offset_ptr_try_resolve (rg_base rg) (rg_size rg) off s True = Some (rg_base rg + off)"
    using b r nz s by (simp add: resolve_iff)
qed

lemma span_raw:
  assumes h: "heap_inv rg m" and p: "heap_abs m (unat off) = Some n"
  shows "offset_ptr_try_from_raw (rg_base rg) (rg_size rg) (rg_base rg + off) True = Some off"
  using from_raw_payload [OF h p] by simp

section \<open>Objects as private steps\<close>

lemma object_alloc_steps:
  assumes h: "heap_inv rg (bytes w)" and r: "ready E w" and ps: "unat ps \<le> 4294967295"
  shows "room (16 + ps) (bytes w) \<Longrightarrow>
      \<exists>p n m'. object_store_alloc E (Some rg) ty ps True w = Some ((STATUS_OK, Some (of_nat p)), set_bytes m' w) \<and>
        heap_inv rg m' \<and> heap_abs (bytes w) p = None \<and> heap_abs m' = (heap_abs (bytes w))(p \<mapsto> n) \<and>
        16 + unat ps \<le> n \<and> unat (of_nat p :: OffsetPtr) = p \<and> owner_step {} {p} (bytes w) m' \<and>
        pays spare (alloc_cost (16 + ps)) (bytes w) m'"
    and "\<not> room (16 + ps) (bytes w) \<Longrightarrow>
      \<exists>m'. object_store_alloc E (Some rg) ty ps True w = Some ((STATUS_OUT_OF_MEMORY, None), set_bytes m' w) \<and>
        heap_inv rg m' \<and> heap_abs m' = heap_abs (bytes w) \<and> owner_step {} {} (bytes w) m'"
proof -
  have al: "req_align 16 = 16" by (simp add: req_align_def)
  assume "room (16 + ps) (bytes w)"
  then obtain b where b: "b \<in> free_blocks (bytes w)" "fits (bytes w) 16 (req_size (16 + ps)) b"
    by (auto simp: room_def al)
  from object_alloc_grants [OF h r ps b, of ty] obtain p n m' where
    a: "object_store_alloc E (Some rg) ty ps True w = Some ((STATUS_OK, Some (of_nat p)), set_bytes m' w)"
    and m': "heap_inv rg m'" "heap_abs (bytes w) p = None" "heap_abs m' = (heap_abs (bytes w))(p \<mapsto> n)" "16 + unat ps \<le> n"
    and o: "\<And>q j. heap_abs (bytes w) q = Some j \<Longrightarrow> same_on (bytes w) m' q (q + j)" and lo: "same_on (bytes w) m' 0 2496"
    and bk: "blocks_kept (bytes w) m'" and py: "pays spare (alloc_cost (16 + ps)) (bytes w) m'"
    by (auto simp: alloc_cost_def)
  note sv = serves_kept [OF bk]
  have l: "heap_abs m' p = Some n" using m'(3) by simp
  have "owner_step {} {p} (bytes w) m'"
    using m'(2,3) o lo sv by (intro private_stepI) (auto simp: restrict_map_def fun_eq_iff span_serves_def)
  then show "\<exists>p n m'. object_store_alloc E (Some rg) ty ps True w = Some ((STATUS_OK, Some (of_nat p)), set_bytes m' w) \<and>
        heap_inv rg m' \<and> heap_abs (bytes w) p = None \<and> heap_abs m' = (heap_abs (bytes w))(p \<mapsto> n) \<and>
        16 + unat ps \<le> n \<and> unat (of_nat p :: OffsetPtr) = p \<and> owner_step {} {p} (bytes w) m' \<and>
        pays spare (alloc_cost (16 + ps)) (bytes w) m'"
    using a m' py payload_pointer(1) [OF m'(1) l] by blast
next
  have al: "req_align 16 = 16" by (simp add: req_align_def)
  assume "\<not> room (16 + ps) (bytes w)"
  then have "\<forall>b \<in> free_blocks (bytes w). \<not> fits (bytes w) 16 (req_size (16 + ps)) b" by (auto simp: room_def al)
  from object_alloc_refuses [OF h r this, of ty] ps obtain m' where
    a: "object_store_alloc E (Some rg) ty ps True w = Some ((STATUS_OUT_OF_MEMORY, None), set_bytes m' w)"
    and m': "heap_inv rg m'" "heap_abs m' = heap_abs (bytes w)" "\<And>x. x < 2720 \<or> 2728 \<le> x \<Longrightarrow> m' x = bytes w x"
    and sv: "\<And>al sz q. serves al sz (bytes w) q \<Longrightarrow> serves al sz m' q"
    by auto
  have "same_on (bytes w) m' q (q + j)" if "heap_abs (bytes w) q = Some j" for q j
    using heap_abs_bounds(1) [OF h that] m'(3) by (simp add: same_on_def)
  then have "owner_step {} {} (bytes w) m'"
    using m'(2,3) sv by (intro private_stepI) (auto simp: same_on_def span_serves_def)
  then show "\<exists>m'. object_store_alloc E (Some rg) ty ps True w = Some ((STATUS_OUT_OF_MEMORY, None), set_bytes m' w) \<and>
        heap_inv rg m' \<and> heap_abs m' = heap_abs (bytes w) \<and> owner_step {} {} (bytes w) m'"
    using a m' by blast
qed

text \<open>Freeing a handle: exactly a live, well-formed object goes; anything else stays and is
  reported as \<open>NOT_FOUND\<close>.\<close>

lemma object_free_steps:
  assumes h: "heap_inv rg (bytes w)" and r: "ready E w" and nz: "off \<noteq> 0"
  shows "object_at (bytes w) (unat off) \<Longrightarrow>
      \<exists>m'. object_store_free E (Some rg) off w = Some (STATUS_OK, set_bytes m' w) \<and> heap_inv rg m' \<and>
        heap_abs m' = (heap_abs (bytes w))(unat off := None) \<and> owner_step {unat off} {} (bytes w) m' \<and>
        pays spare 0 (bytes w) m'"
    and "\<not> object_at (bytes w) (unat off) \<Longrightarrow> object_store_free E (Some rg) off w = Some (STATUS_NOT_FOUND, w)"
proof -
  assume "object_at (bytes w) (unat off)"
  from object_free_runs [OF h r this] obtain m' where
    a: "object_store_free E (Some rg) off w = Some (STATUS_OK, set_bytes m' w)"
    and m': "heap_inv rg m'" "heap_abs m' = (heap_abs (bytes w))(unat off := None)"
    and o: "\<And>q j. heap_abs (bytes w) q = Some j \<Longrightarrow> q \<noteq> unat off \<Longrightarrow> same_on (bytes w) m' q (q + j)"
    and lo: "same_on (bytes w) m' 0 2496"
    and sv: "\<And>al sz q. serves al sz (bytes w) q \<Longrightarrow> q \<noteq> unat off \<Longrightarrow> serves al sz m' q" "pays spare 0 (bytes w) m'" by auto
  have "owner_step {unat off} {} (bytes w) m'"
    using m'(2) o lo sv by (intro private_stepI) (auto simp: restrict_map_def fun_eq_iff span_serves_def)
  then show "\<exists>m'. object_store_free E (Some rg) off w = Some (STATUS_OK, set_bytes m' w) \<and> heap_inv rg m' \<and>
        heap_abs m' = (heap_abs (bytes w))(unat off := None) \<and> owner_step {unat off} {} (bytes w) m' \<and>
        pays spare 0 (bytes w) m'"
    using a m' sv(2) by blast
next
  assume n: "\<not> object_at (bytes w) (unat off)"
  show "object_store_free E (Some rg) off w = Some (STATUS_NOT_FOUND, w)"
    using n nz by (auto simp: object_store_free_def object_store_get_header_mut_def resolve_header_run [OF h]
        object_at_def unat_ucast_64)
qed

section \<open>The mutex in a container's header\<close>

definition container_lock :: "env \<Rightarrow> nat \<Rightarrow> world \<Rightarrow> world option" where
  "container_lock E a w =
     do {
       (rc, w1) \<leftarrow> pthread_mutex_lock E a w;
       Some (if rc = EOWNERDEAD \<and> def_ROBUST E then snd (pthread_mutex_consistent E a w1) else w1)
     }"

definition container_unlock :: "env \<Rightarrow> nat \<Rightarrow> world \<Rightarrow> world" where
  "container_unlock E a w = snd (pthread_mutex_unlock E a w)"

text \<open>The world with the container's mutex held by the caller.\<close>

abbreviation holding :: "env \<Rightarrow> nat \<Rightarrow> world \<Rightarrow> world" where
  "holding E a w \<equiv> set_mtx a (MHeld (env_tid E) False) w"

lemma container_lock_free: "mtx w a = MFree \<Longrightarrow> container_lock E a w = Some (holding E a w)"
  by (simp add: container_lock_def)

lemma container_unlock_own:
  "mtx w a = MFree \<Longrightarrow> container_unlock E a (set_bytes m (holding E a w)) = set_bytes m w"
  "mtx w a = MFree \<Longrightarrow> container_unlock E a (holding E a w) = w"
  by (simp_all add: container_unlock_def)

text \<open>A mutex above the allocator's header is none of the shard mutexes.\<close>

lemma ready_set_mtx:
  assumes "2768 \<le> a"
  shows "ready E (set_mtx a s w) = ready E w"
proof -
  have "shard_mutex_at i \<noteq> a" if "i < 4" for i using that assms by (simp add: shard_mutex_at_def metadata_offset)
  then show ?thesis by (simp add: ready_def)
qed

text \<open>The locks that someone else relies on are as they were: those of the region and the allocator, and
  whatever lies in a span that was live.\<close>

definition locks_kept :: "world \<Rightarrow> world \<Rightarrow> bool" where
  "locks_kept w w' \<longleftrightarrow>
     rwl w' = rwl w \<and> held_shard w' = held_shard w \<and> (\<forall>a < 2768. mtx w' a = mtx w a) \<and>
     (\<forall>q n a. heap_abs (bytes w) q = Some n \<longrightarrow> q \<le> a \<longrightarrow> a < q + n \<longrightarrow> mtx w' a = mtx w a)"

lemma locks_keptD:
  assumes "locks_kept w w'"
  shows "rwl w' = rwl w" and "ready E w' = ready E w"
    and "heap_abs (bytes w) q = Some n \<Longrightarrow> q \<le> a \<Longrightarrow> a < q + n \<Longrightarrow> mtx w' a = mtx w a"
proof -
  have "shard_mutex_at i < 2768" if "i < 4" for i using that by (simp add: shard_mutex_at_def metadata_offset)
  then show "ready E w' = ready E w" using assms by (simp add: ready_def locks_kept_def)
qed (use assms in \<open>simp_all add: locks_kept_def\<close>)

lemma locks_kept_bytes [simp]: "locks_kept w (set_bytes m w)"
  by (simp add: locks_kept_def)

section \<open>Room on the concrete heap\<close>

text \<open>The concrete heap has four free blocks of 1364 bytes.\<close>

lemma demo_spare: "spare 1364 (bytes demo_world)"
proof -
  have "2736 + 0 * 1364 \<in> free_blocks (bytes demo_world)" by (simp add: demo_facts(5))
  then show ?thesis using demo_facts(6) [of 0] unfolding spare_def by force
qed

lemmas cost_simps = alloc_cost_def req_size_def round_up_def

end
