(* ===== verification/Simulation.thy ===== *)
theory Simulation
  imports HeapClient
begin

text \<open>
  Sequences of operations on a container, and the interface through which a container of
  src/containers is related to its abstract data type: every operation, run on a state that
  satisfies the invariant, returns what the abstract operation returns and leaves a state that
  stands for the abstract result. The locale carries this from one operation to every sequence.
\<close>

text \<open>Running a sequence of operations and collecting what they return; \<open>None\<close> when one of them
  does not return.\<close>

fun run_ops :: "('op \<Rightarrow> 's \<Rightarrow> ('r \<times> 's) option) \<Rightarrow> 'op list \<Rightarrow> 's \<Rightarrow> ('r list \<times> 's) option" where
  "run_ops step [] s = Some ([], s)"
| "run_ops step (x # xs) s =
     do { (r, s1) \<leftarrow> step x s; (rs, s2) \<leftarrow> run_ops step xs s1; Some (r # rs, s2) }"

fun run_spec :: "('op \<Rightarrow> 'a \<Rightarrow> 'r \<times> 'a) \<Rightarrow> 'op list \<Rightarrow> 'a \<Rightarrow> 'r list \<times> 'a" where
  "run_spec spec [] a = ([], a)"
| "run_spec spec (x # xs) a =
     (let (r, a1) = spec x a; (rs, a2) = run_spec spec xs a1 in (r # rs, a2))"

text \<open>The results and the final state that an abstract operation, which may have a choice (an
  allocation can fail), allows for a sequence.\<close>

fun allowed :: "('op \<Rightarrow> 'a \<Rightarrow> 'r \<Rightarrow> 'a \<Rightarrow> bool) \<Rightarrow> 'op list \<Rightarrow> 'a \<Rightarrow> 'r list \<Rightarrow> 'a \<Rightarrow> bool" where
  "allowed spec [] a rs b \<longleftrightarrow> rs = [] \<and> b = a"
| "allowed spec (x # xs) a rs b \<longleftrightarrow>
     (case rs of [] \<Rightarrow> False | r # rs' \<Rightarrow> (\<exists>a1. spec x a r a1 \<and> allowed spec xs a1 rs' b))"

lemma allowed_Cons:
  "allowed spec (x # xs) a rs b \<longleftrightarrow> (\<exists>r rs' a1. rs = r # rs' \<and> spec x a r a1 \<and> allowed spec xs a1 rs' b)"
  by (auto split: list.splits)

locale simulation =
  fixes inv :: "'s \<Rightarrow> bool" and abs :: "'s \<Rightarrow> 'a" and ok :: "'op \<Rightarrow> bool"
    and step :: "'op \<Rightarrow> 's \<Rightarrow> ('r \<times> 's) option" and spec :: "'op \<Rightarrow> 'a \<Rightarrow> 'r \<Rightarrow> 'a \<Rightarrow> bool"
  assumes step_allowed: "inv s \<Longrightarrow> ok x \<Longrightarrow> \<exists>r s'. step x s = Some (r, s') \<and> inv s' \<and> spec x (abs s) r (abs s')"
begin

lemma run_allowed:
  assumes "inv s" and "list_all ok xs"
  shows "\<exists>rs s'. run_ops step xs s = Some (rs, s') \<and> inv s' \<and> allowed spec xs (abs s) rs (abs s')"
  using assms
proof (induction xs arbitrary: s)
  case Nil
  then show ?case by simp
next
  case (Cons x xs)
  then obtain r s1 where s1: "step x s = Some (r, s1)" "inv s1" "spec x (abs s) r (abs s1)"
    using step_allowed [of s x] by auto
  have "list_all ok xs" using Cons.prems by simp
  from Cons.IH [OF s1(2) this] obtain rs s' where "run_ops step xs s1 = Some (rs, s')" "inv s'"
    "allowed spec xs (abs s1) rs (abs s')" by blast
  with s1 have "run_ops step (x # xs) s = Some (r # rs, s')" "allowed spec (x # xs) (abs s) (r # rs) (abs s')" by auto
  with \<open>inv s'\<close> show ?case by blast
qed

end

text \<open>A run in which every step keeps a law \<open>P\<close> between the operation, the state it was called in, its result
  and the state it left. Nothing in it is chosen: the states are those the steps compute.\<close>

fun each_step :: "('op \<Rightarrow> 's \<Rightarrow> ('r \<times> 's) option) \<Rightarrow> ('op \<Rightarrow> 's \<Rightarrow> 'r \<Rightarrow> 's \<Rightarrow> bool) \<Rightarrow> 'op list \<Rightarrow> 's \<Rightarrow> bool" where
  "each_step step P [] s \<longleftrightarrow> True"
| "each_step step P (x # xs) s \<longleftrightarrow>
     (case step x s of None \<Rightarrow> False | Some (r, s1) \<Rightarrow> P x s r s1 \<and> each_step step P xs s1)"

lemma each_step_first:
  assumes "each_step step P (x # xs) s"
  obtains r t where "step x s = Some (r, t)" and "P x s r t"
  using assms by (auto split: option.splits)

text \<open>A container whose choice is settled by the state it runs in: the outcome of every operation is a
  function of the state.\<close>

locale settled_simulation = simulation inv abs ok step spec
  for inv :: "'s \<Rightarrow> bool" and abs :: "'s \<Rightarrow> 'a" and ok :: "'op \<Rightarrow> bool"
    and step :: "'op \<Rightarrow> 's \<Rightarrow> ('r \<times> 's) option" and spec :: "'op \<Rightarrow> 'a \<Rightarrow> 'r \<Rightarrow> 'a \<Rightarrow> bool" +
  fixes outcome :: "'op \<Rightarrow> 's \<Rightarrow> 'r \<times> 'a"
  assumes step_settled: "inv s \<Longrightarrow> ok x \<Longrightarrow> step x s = Some (r, s') \<Longrightarrow> (r, abs s') = outcome x s"
begin

lemma run_settled:
  assumes "inv s" and "list_all ok xs"
  shows "each_step step (\<lambda>x s r s'. (r, abs s') = outcome x s) xs s"
  using assms
proof (induction xs arbitrary: s)
  case Nil
  then show ?case by simp
next
  case (Cons x xs)
  then obtain r s1 where s1: "step x s = Some (r, s1)" "inv s1" using step_allowed [of s x] by auto
  have "ok x" "list_all ok xs" using Cons.prems by simp_all
  with Cons.IH [OF s1(2)] step_settled [OF Cons.prems(1) _ s1(1)] s1(1) show ?case by auto
qed

end

text \<open>A container whose operations have no choice.\<close>

locale exact_simulation =
  fixes inv :: "'s \<Rightarrow> bool" and abs :: "'s \<Rightarrow> 'a" and ok :: "'op \<Rightarrow> bool"
    and step :: "'op \<Rightarrow> 's \<Rightarrow> ('r \<times> 's) option" and spec :: "'op \<Rightarrow> 'a \<Rightarrow> 'r \<times> 'a"
  assumes step_refines: "inv s \<Longrightarrow> ok x \<Longrightarrow>
      \<exists>s'. step x s = Some (fst (spec x (abs s)), s') \<and> inv s' \<and> abs s' = snd (spec x (abs s))"

sublocale exact_simulation \<subseteq> simulation inv abs ok step "\<lambda>x a r b. spec x a = (r, b)"
  by unfold_locales (metis step_refines prod.collapse)

lemma allowed_exact: "allowed (\<lambda>x a r b. spec x a = (r, b)) xs a rs b \<longleftrightarrow> run_spec spec xs a = (rs, b)"
proof (induction xs arbitrary: a rs)
  case (Cons x xs)
  obtain r a1 where "spec x a = (r, a1)" by (cases "spec x a")
  then show ?case by (cases "run_spec spec xs a1") (auto simp: Cons split: list.splits)
qed auto

context exact_simulation begin

lemma run_refines:
  assumes "inv s" and "list_all ok xs"
  shows "\<exists>s'. run_ops step xs s = Some (fst (run_spec spec xs (abs s)), s') \<and> inv s' \<and>
     abs s' = snd (run_spec spec xs (abs s))"
  using run_allowed [OF assms] by (auto simp: allowed_exact)

end

text \<open>A container whose only choice is whether an allocation succeeds, on a heap with something to spare.
  Every operation has a price; while the funds cover it the operation does what \<open>exact\<close> says, and the
  rest of the funds is left. The bill of a sequence adds the prices up along the abstract states.\<close>

fun bill :: "('op \<Rightarrow> 'a \<Rightarrow> nat) \<Rightarrow> ('op \<Rightarrow> 'a \<Rightarrow> 'r \<times> 'a) \<Rightarrow> 'op list \<Rightarrow> 'a \<Rightarrow> nat" where
  "bill price exact [] a = 0"
| "bill price exact (x # xs) a = price x a + bill price exact xs (snd (exact x a))"

lemma bill_flat: "bill (\<lambda>x a. f x) exact xs a = sum_list (map f xs)"
  by (induction xs arbitrary: a) simp_all

locale funded_simulation = simulation inv abs ok step spec
  for inv :: "'s \<Rightarrow> bool" and abs :: "'s \<Rightarrow> 'a" and ok :: "'op \<Rightarrow> bool"
    and step :: "'op \<Rightarrow> 's \<Rightarrow> ('r \<times> 's) option" and spec :: "'op \<Rightarrow> 'a \<Rightarrow> 'r \<Rightarrow> 'a \<Rightarrow> bool" +
  fixes funds :: "nat \<Rightarrow> 's \<Rightarrow> bool" and price :: "'op \<Rightarrow> 'a \<Rightarrow> nat" and exact :: "'op \<Rightarrow> 'a \<Rightarrow> 'r \<times> 'a"
  assumes step_funded: "inv s \<Longrightarrow> ok x \<Longrightarrow> funds (N + price x (abs s)) s \<Longrightarrow>
      \<exists>s'. step x s = Some (fst (exact x (abs s)), s') \<and> inv s' \<and> abs s' = snd (exact x (abs s)) \<and> funds N s'"
begin

lemma run_funded:
  assumes "inv s" and "list_all ok xs" and "funds (N + bill price exact xs (abs s)) s"
  shows "\<exists>s'. run_ops step xs s = Some (fst (run_spec exact xs (abs s)), s') \<and> inv s' \<and>
     abs s' = snd (run_spec exact xs (abs s)) \<and> funds N s'"
  using assms
proof (induction xs arbitrary: s)
  case Nil
  then show ?case by simp
next
  case (Cons x xs)
  have "funds ((N + bill price exact xs (snd (exact x (abs s)))) + price x (abs s)) s" "ok x"
    using Cons.prems(2,3) by (simp_all add: ac_simps)
  from step_funded [OF Cons.prems(1) this(2,1)] obtain s1 where
    s1: "step x s = Some (fst (exact x (abs s)), s1)" "inv s1" "abs s1 = snd (exact x (abs s))"
      "funds (N + bill price exact xs (abs s1)) s1" by auto
  have "list_all ok xs" using Cons.prems(2) by simp
  from Cons.IH [OF s1(2) this s1(4)] show ?case using s1(1,3) by (auto simp: split_beta)
qed

end

section \<open>Clients\<close>

text \<open>A client is a program that picks its next operation, or stops, after reading all the results so far.
  It runs for at most \<open>n\<close> operations; \<open>None\<close> when one of them does not return.\<close>

fun run_client ::
    "('op \<Rightarrow> 's \<Rightarrow> ('r \<times> 's) option) \<Rightarrow> nat \<Rightarrow> ('r list \<Rightarrow> 'op option) \<Rightarrow> 'r list \<Rightarrow> 's \<Rightarrow> ('r list \<times> 's) option" where
  "run_client step 0 c rs s = Some (rs, s)"
| "run_client step (Suc n) c rs s =
     (case c rs of
        None \<Rightarrow> Some (rs, s)
      | Some x \<Rightarrow> do { (r, s1) \<leftarrow> step x s; run_client step n c (rs @ [r]) s1 })"

text \<open>The results and final states that an abstract type allows a client, and a client that uses the type
  properly whatever it answers.\<close>

fun allowed_client ::
    "('op \<Rightarrow> 'a \<Rightarrow> 'r \<Rightarrow> 'a \<Rightarrow> bool) \<Rightarrow> nat \<Rightarrow> ('r list \<Rightarrow> 'op option) \<Rightarrow> 'r list \<Rightarrow> 'a \<Rightarrow> 'r list \<Rightarrow> 'a \<Rightarrow> bool" where
  "allowed_client spec 0 c rs a rs' b \<longleftrightarrow> rs' = rs \<and> b = a"
| "allowed_client spec (Suc n) c rs a rs' b \<longleftrightarrow>
     (case c rs of
        None \<Rightarrow> rs' = rs \<and> b = a
      | Some x \<Rightarrow> \<exists>r a1. spec x a r a1 \<and> allowed_client spec n c (rs @ [r]) a1 rs' b)"

fun proper_client ::
    "('op \<Rightarrow> 'a \<Rightarrow> bool) \<Rightarrow> ('op \<Rightarrow> 'a \<Rightarrow> 'r \<Rightarrow> 'a \<Rightarrow> bool) \<Rightarrow> nat \<Rightarrow> ('r list \<Rightarrow> 'op option) \<Rightarrow> 'r list \<Rightarrow> 'a \<Rightarrow> bool" where
  "proper_client ok spec 0 c rs a \<longleftrightarrow> True"
| "proper_client ok spec (Suc n) c rs a \<longleftrightarrow>
     (case c rs of
        None \<Rightarrow> True
      | Some x \<Rightarrow> ok x a \<and> (\<forall>r a1. spec x a r a1 \<longrightarrow> proper_client ok spec n c (rs @ [r]) a1))"

text \<open>A client that uses an abstract type properly and gets answers with the property \<open>Q\<close>.\<close>

definition client_gets ::
    "('op \<Rightarrow> 'a \<Rightarrow> bool) \<Rightarrow> ('op \<Rightarrow> 'a \<Rightarrow> 'r \<Rightarrow> 'a \<Rightarrow> bool) \<Rightarrow> nat \<Rightarrow> ('r list \<Rightarrow> 'op option) \<Rightarrow> 'r list \<Rightarrow> 'a \<Rightarrow>
       ('r list \<Rightarrow> bool) \<Rightarrow> bool" where
  "client_gets ok spec n c rs a Q \<longleftrightarrow>
     proper_client ok spec n c rs a \<and> (\<forall>rs' b. allowed_client spec n c rs a rs' b \<longrightarrow> Q rs')"

lemma client_gets_step:
  assumes "c rs = Some x" and "ok x a" and "\<And>r b. spec x a r b \<Longrightarrow> client_gets ok spec n c (rs @ [r]) b Q"
  shows "client_gets ok spec (Suc n) c rs a Q"
  using assms by (auto simp: client_gets_def)

lemma client_gets_end: "Q rs \<Longrightarrow> client_gets ok spec 0 c rs a Q"
  by (simp add: client_gets_def)

text \<open>A state that stands for an abstract one through a relation, and whose operations have a
  precondition on the abstract state.\<close>

locale client_simulation =
  fixes rel :: "'s \<Rightarrow> 'a \<Rightarrow> bool" and ok :: "'op \<Rightarrow> 'a \<Rightarrow> bool" and step :: "'op \<Rightarrow> 's \<Rightarrow> ('r \<times> 's) option"
    and spec :: "'op \<Rightarrow> 'a \<Rightarrow> 'r \<Rightarrow> 'a \<Rightarrow> bool"
  assumes step_related: "rel s a \<Longrightarrow> ok x a \<Longrightarrow> \<exists>r s' a'. step x s = Some (r, s') \<and> rel s' a' \<and> spec x a r a'"
begin

lemma run_related:
  assumes "rel s a" and "proper_client ok spec n c rs a"
  shows "\<exists>rs' s' a'. run_client step n c rs s = Some (rs', s') \<and> rel s' a' \<and> allowed_client spec n c rs a rs' a'"
  using assms
proof (induction n arbitrary: rs s a)
  case 0
  then show ?case by auto
next
  case (Suc n)
  show ?case
  proof (cases "c rs")
    case None
    then show ?thesis using Suc.prems(1) by auto
  next
    case (Some x)
    then have "ok x a" using Suc.prems(2) by simp
    from step_related [OF Suc.prems(1) this] obtain r s1 a1 where
      s1: "step x s = Some (r, s1)" "rel s1 a1" "spec x a r a1" by blast
    then have "proper_client ok spec n c (rs @ [r]) a1" using Suc.prems(2) Some by simp
    from Suc.IH [OF s1(2) this] obtain rs' s' a' where
      "run_client step n c (rs @ [r]) s1 = Some (rs', s')" "rel s' a'" "allowed_client spec n c (rs @ [r]) a1 rs' a'" by blast
    then show ?thesis using s1 Some by auto
  qed
qed

end

text \<open>Every simulation serves every client.\<close>

sublocale simulation \<subseteq> client_simulation "\<lambda>s a. inv s \<and> abs s = a" "\<lambda>x a. ok x" step spec
  by unfold_locales (use step_allowed in blast)

end
