(* ===== verification/Family.thy ===== *)
theory Family
  imports Simulation
begin

text \<open>
  Several containers in one region. A registry says which handles name containers and of which kind;
  a family of containers is in order when each satisfies its invariant and no two own a span in
  common. The locale states what a kind of container has to promise for that: it lives in its own
  spans, and an operation on it is a step of its owner. Then an operation on one container leaves
  all others what they are.
\<close>

definition family_spans :: "('k \<Rightarrow> mem \<Rightarrow> nat \<Rightarrow> nat set) \<Rightarrow> (OffsetPtr \<rightharpoonup> 'k) \<Rightarrow> mem \<Rightarrow> nat set" where
  "family_spans spans reg m = {q. \<exists>off k. reg off = Some k \<and> q \<in> spans k m (unat off)}"

definition family_ok ::
    "('k \<Rightarrow> mem \<Rightarrow> nat \<Rightarrow> bool) \<Rightarrow> ('k \<Rightarrow> mem \<Rightarrow> nat \<Rightarrow> nat set) \<Rightarrow> (OffsetPtr \<rightharpoonup> 'k) \<Rightarrow> mem \<Rightarrow> bool" where
  "family_ok cok spans reg m \<longleftrightarrow>
     (\<forall>off k. reg off = Some k \<longrightarrow> cok k m (unat off)) \<and>
     (\<forall>off off' k k'. reg off = Some k \<longrightarrow> reg off' = Some k' \<longrightarrow> off \<noteq> off' \<longrightarrow>
        spans k m (unat off) \<inter> spans k' m (unat off') = {})"

lemma family_okD:
  assumes "family_ok cok spans reg m" and "reg off = Some k"
  shows "cok k m (unat off)"
    and "reg off' = Some k' \<Longrightarrow> off' \<noteq> off \<Longrightarrow> spans k' m (unat off') \<inter> spans k m (unat off) = {}"
  using assms by (simp_all add: family_ok_def)

lemma family_member: "reg off = Some k \<Longrightarrow> spans k m (unat off) \<subseteq> family_spans spans reg m"
  by (auto simp: family_spans_def)

text \<open>Funds: a lower bound on the largest free block. An operation that costs at most the funds is granted
  and leaves the rest; one that costs more may be refused, and leaves nothing to count on.\<close>

definition funded :: "nat \<Rightarrow> mem \<Rightarrow> bool" where
  "funded B m \<longleftrightarrow> B = 0 \<or> spare B m"

definition spend :: "nat \<Rightarrow> bool \<Rightarrow> nat \<Rightarrow> nat \<Rightarrow> bool" where
  "spend cost granted B B' \<longleftrightarrow> (if cost \<le> B then granted \<and> B' = B - cost else B' = 0)"

lemma spend_funded:
  assumes f: "funded B m" and s: "\<And>N. spare (N + c) m \<Longrightarrow> g \<and> spare N m'" and z: "c = 0 \<Longrightarrow> g"
  shows "\<exists>B'. spend c g B B' \<and> funded B' m'"
proof (cases "B = 0 \<or> B < c")
  case True
  then show ?thesis using z by (intro exI [of _ 0]) (auto simp: spend_def funded_def)
next
  case False
  then have "spare (B - c + c) m" using f by (simp add: funded_def)
  from s [OF this] show ?thesis using False by (intro exI [of _ "B - c"]) (simp add: spend_def funded_def)
qed

lemma funded_same: "funded B m \<Longrightarrow> pays spare 0 m m' \<Longrightarrow> funded B m'"
  using paysD [of spare 0 m m' B] by (auto simp: funded_def)

locale container_family =
  fixes cok :: "'k \<Rightarrow> mem \<Rightarrow> nat \<Rightarrow> bool" and spans :: "'k \<Rightarrow> mem \<Rightarrow> nat \<Rightarrow> nat set"
    and cabs :: "'k \<Rightarrow> mem \<Rightarrow> nat \<Rightarrow> 'a" and lock :: "'k \<Rightarrow> nat" and fits :: "'op \<Rightarrow> 'a \<Rightarrow> bool"
    and step :: "env \<Rightarrow> ShmRegion \<Rightarrow> OffsetPtr \<Rightarrow> 'op \<Rightarrow> world \<Rightarrow> 'r result"
    and spec :: "'op \<Rightarrow> 'a \<Rightarrow> 'r \<Rightarrow> 'a \<Rightarrow> bool"
    and price :: "'op \<Rightarrow> 'a \<Rightarrow> nat" and granted :: "'op \<Rightarrow> 'r \<Rightarrow> bool"
  assumes kept: "cok k m p \<Longrightarrow> undisturbed (spans k m p) m m' \<Longrightarrow> heap_inv rg m' \<Longrightarrow>
      cok k m' p \<and> spans k m' p = spans k m p \<and> cabs k m' p = cabs k m p"
    and live: "cok k m p \<Longrightarrow> q \<in> spans k m p \<Longrightarrow> heap_abs m q \<noteq> None"
    and header: "cok k m p \<Longrightarrow> p \<in> spans k m p \<and> (\<exists>n. heap_abs m p = Some n \<and> lock k < n)"
    and run: "heap_inv rg (bytes w) \<Longrightarrow> unat (rg_size rg) \<le> 2 ^ 61 \<Longrightarrow> ready E w \<Longrightarrow> cok k (bytes w) (unat off) \<Longrightarrow>
      mtx w (unat off + lock k) = MFree \<Longrightarrow> fits x (cabs k (bytes w) (unat off)) \<Longrightarrow>
      \<exists>r m'. step E rg off x w = Some (r, set_bytes m' w) \<and> heap_inv rg m' \<and> cok k m' (unat off) \<and>
        spec x (cabs k (bytes w) (unat off)) r (cabs k m' (unat off)) \<and>
        owner_step (spans k (bytes w) (unat off)) (spans k m' (unat off)) (bytes w) m' \<and>
        (\<forall>N. spare (N + price x (cabs k (bytes w) (unat off))) (bytes w) \<longrightarrow> granted x r \<and> spare N m')"
    and free_granted: "fits x a \<Longrightarrow> spec x a r b \<Longrightarrow> price x a = 0 \<Longrightarrow> granted x r"
begin

lemma family_undisturbed:
  assumes f: "family_ok cok spans reg m" and u: "undisturbed (family_spans spans reg m) m m'" and h: "heap_inv rg m'"
  shows "family_ok cok spans reg m'" and "family_spans spans reg m' = family_spans spans reg m"
    and "reg off = Some k \<Longrightarrow> cabs k m' (unat off) = cabs k m (unat off)"
proof -
  have k: "cok k m' (unat off) \<and> spans k m' (unat off) = spans k m (unat off) \<and> cabs k m' (unat off) = cabs k m (unat off)"
    if "reg off = Some k" for off k
    using kept [OF family_okD(1) [OF f that] undisturbed_subset [OF u family_member [of reg off k spans m, OF that]] h] .
  show "family_ok cok spans reg m'" using k f unfolding family_ok_def by simp
  show "family_spans spans reg m' = family_spans spans reg m" unfolding family_spans_def using k by blast
  show "reg off = Some k \<Longrightarrow> cabs k m' (unat off) = cabs k m (unat off)"
    using k by blast
qed

text \<open>A step of the owner of one span set disturbs no container that lives elsewhere.\<close>

lemma apart_step:
  assumes f: "family_ok cok spans reg m" and s: "owner_step S S' m m'" and h: "heap_inv rg m'"
    and d: "family_spans spans reg m \<inter> S = {}"
  shows "family_ok cok spans reg m'" and "family_spans spans reg m' = family_spans spans reg m"
    and "reg off = Some k \<Longrightarrow> cabs k m' (unat off) = cabs k m (unat off)" and "family_spans spans reg m \<inter> S' = {}"
proof -
  note u = family_undisturbed [OF f undisturbed_step [OF s d] h]
  show "family_ok cok spans reg m'" "family_spans spans reg m' = family_spans spans reg m"
    "reg off = Some k \<Longrightarrow> cabs k m' (unat off) = cabs k m (unat off)" by (fact u)+
  have "q \<notin> S'" if q: "q \<in> family_spans spans reg m" for q
  proof -
    obtain off k where "reg off = Some k" "q \<in> spans k m (unat off)" using q by (auto simp: family_spans_def)
    then obtain j where "heap_abs m q = Some j" using live [OF family_okD(1) [OF f]] by blast
    moreover have "q \<notin> S" using d q by auto
    ultimately show ?thesis by (rule private_step_live(2) [OF s])
  qed
  then show "family_spans spans reg m \<inter> S' = {}" by auto
qed

text \<open>Taking a container out of a family, and putting one in.\<close>

lemma family_minus:
  assumes f: "family_ok cok spans reg m" and o: "reg off = Some k"
  shows "family_ok cok spans (reg(off := None)) m"
    and "family_spans spans (reg(off := None)) m \<inter> spans k m (unat off) = {}"
    and "family_spans spans reg m = spans k m (unat off) \<union> family_spans spans (reg(off := None)) m"
proof -
  show "family_ok cok spans (reg(off := None)) m" using f by (auto simp: family_ok_def)
  show "family_spans spans (reg(off := None)) m \<inter> spans k m (unat off) = {}"
    using family_okD(2) [OF f o] by (fastforce simp: family_spans_def split: if_splits)
  show "family_spans spans reg m = spans k m (unat off) \<union> family_spans spans (reg(off := None)) m"
  proof (rule set_eqI)
    fix q show "q \<in> family_spans spans reg m \<longleftrightarrow> q \<in> spans k m (unat off) \<union> family_spans spans (reg(off := None)) m"
      using o by (cases "q \<in> spans k m (unat off)") (auto simp: family_spans_def, metis option.inject)
  qed
qed

lemma family_plus:
  assumes f: "family_ok cok spans reg m" and o: "reg off = None" and c: "cok k m (unat off)"
    and d: "family_spans spans reg m \<inter> spans k m (unat off) = {}"
  shows "family_ok cok spans (reg(off \<mapsto> k)) m"
    and "family_spans spans (reg(off \<mapsto> k)) m = spans k m (unat off) \<union> family_spans spans reg m"
proof -
  have dj: "spans k' m (unat off') \<inter> spans k m (unat off) = {}" if "reg off' = Some k'" for off' k'
    using d family_member [of reg off' k' spans m, OF that] by blast
  then show "family_ok cok spans (reg(off \<mapsto> k)) m" using f c unfolding family_ok_def by (auto simp: Int_commute)
  show "family_spans spans (reg(off \<mapsto> k)) m = spans k m (unat off) \<union> family_spans spans reg m"
    using family_minus(3) [OF \<open>family_ok cok spans (reg(off \<mapsto> k)) m\<close>, of off k] o by (simp add: fun_upd_idem)
qed

text \<open>An operation on one container of a family.\<close>

lemma member_step:
  assumes h: "heap_inv rg (bytes w)" "unat (rg_size rg) \<le> 2 ^ 61" "ready E w" and f: "family_ok cok spans reg (bytes w)"
    and o: "reg off = Some k" "mtx w (unat off + lock k) = MFree" "fits x (cabs k (bytes w) (unat off))"
    and b: "funded B (bytes w)"
  obtains r m' B' where "step E rg off x w = Some (r, set_bytes m' w)" "heap_inv rg m'" "family_ok cok spans reg m'"
    "spec x (cabs k (bytes w) (unat off)) r (cabs k m' (unat off))"
    "owner_step (family_spans spans reg (bytes w)) (family_spans spans reg m') (bytes w) m'"
    "\<And>off' k'. reg off' = Some k' \<Longrightarrow> off' \<noteq> off \<Longrightarrow> cabs k' m' (unat off') = cabs k' (bytes w) (unat off')"
    "spend (price x (cabs k (bytes w) (unat off))) (granted x r) B B'" "funded B' m'"
proof -
  let ?m = "bytes w" let ?S = "spans k ?m (unat off)" and ?reg = "reg(off := None)"
  obtain r m' where m': "step E rg off x w = Some (r, set_bytes m' w)" "heap_inv rg m'" "cok k m' (unat off)"
      "spec x (cabs k ?m (unat off)) r (cabs k m' (unat off))"
    and s: "owner_step ?S (spans k m' (unat off)) ?m m'"
    and c: "\<And>N. spare (N + price x (cabs k ?m (unat off))) ?m \<Longrightarrow> granted x r \<and> spare N m'"
    using run [OF h family_okD(1) [OF f o(1)] o(2,3)] by blast
  note fm = family_minus [OF f o(1)]
  note a = apart_step [OF fm(1) s m'(2) fm(2)]
  have r: "?reg off = None" "?reg(off \<mapsto> k) = reg" using o(1) by auto
  have d: "family_spans spans ?reg m' \<inter> spans k m' (unat off) = {}" using a(2,4) by simp
  note fp = family_plus [OF a(1) r(1) m'(3) d, unfolded r(2)]
  have "?S \<union> family_spans spans reg ?m = family_spans spans reg ?m" using fm(3) by blast
  moreover have "spans k m' (unat off) \<union> (family_spans spans reg ?m - ?S) = family_spans spans reg m'"
    unfolding fp(2) a(2) fm(3) using fm(2) by blast
  ultimately have "owner_step (family_spans spans reg ?m) (family_spans spans reg m') ?m m'"
    using private_step_widen [OF s, of "family_spans spans reg ?m"] by simp
  moreover obtain B' where "spend (price x (cabs k ?m (unat off))) (granted x r) B B'" "funded B' m'"
    using spend_funded [OF b c free_granted [OF o(3) m'(4)]] by blast
  moreover have "cabs k' m' (unat off') = cabs k' ?m (unat off')" if "reg off' = Some k'" "off' \<noteq> off" for off' k'
    using a(3) [of off' k'] that by simp
  ultimately show thesis using that [OF m'(1,2) fp(1) m'(4)] by blast
qed

text \<open>A container made of fresh spans joins the family; one whose owner has released it leaves.\<close>

lemma member_new:
  assumes f: "family_ok cok spans reg m" and h: "heap_inv rg m'" and c: "cok k m' (unat off)"
    and s: "owner_step {} (spans k m' (unat off)) m m'"
  shows "reg off = None" and "family_ok cok spans (reg(off \<mapsto> k)) m'"
    and "reg off' = Some k' \<Longrightarrow> cabs k' m' (unat off') = cabs k' m (unat off')"
    and "owner_step (family_spans spans reg m) (family_spans spans (reg(off \<mapsto> k)) m') m m'"
proof -
  note a = apart_step [OF f s h Int_empty_right]
  have hd: "unat off \<in> spans k m' (unat off)" using header [OF c] by blast
  show o: "reg off = None"
  proof (rule ccontr)
    assume "reg off \<noteq> None"
    then obtain k0 where k0: "reg off = Some k0" by blast
    then have "unat off \<in> family_spans spans reg m"
      using header [OF family_okD(1) [OF f k0]] family_member [of reg off k0 spans m] by blast
    then show False using a(4) hd by blast
  qed
  have d: "family_spans spans reg m' \<inter> spans k m' (unat off) = {}" using a(2,4) by simp
  note fp = family_plus [OF a(1) o c d]
  show "family_ok cok spans (reg(off \<mapsto> k)) m'" by (rule fp(1))
  show "reg off' = Some k' \<Longrightarrow> cabs k' m' (unat off') = cabs k' m (unat off')" by (rule a(3))
  show "owner_step (family_spans spans reg m) (family_spans spans (reg(off \<mapsto> k)) m') m m'"
    unfolding fp(2) a(2) using private_step_widen [OF s, of "family_spans spans reg m"] by simp
qed

lemma member_gone:
  assumes f: "family_ok cok spans reg m" and h: "heap_inv rg m'" and o: "reg off = Some k"
    and s: "owner_step (spans k m (unat off)) T m m'"
  shows "family_ok cok spans (reg(off := None)) m'"
    and "off' \<noteq> off \<Longrightarrow> reg off' = Some k' \<Longrightarrow> cabs k' m' (unat off') = cabs k' m (unat off')"
    and "owner_step (family_spans spans reg m) (T \<union> family_spans spans (reg(off := None)) m') m m'"
proof -
  note fm = family_minus [OF f o]
  note a = apart_step [OF fm(1) s h fm(2)]
  show "family_ok cok spans (reg(off := None)) m'" by (rule a(1))
  show "off' \<noteq> off \<Longrightarrow> reg off' = Some k' \<Longrightarrow> cabs k' m' (unat off') = cabs k' m (unat off')" using a(3) [of off' k'] by simp
  have "family_spans spans (reg(off := None)) m - spans k m (unat off) = family_spans spans (reg(off := None)) m"
    using fm(2) by blast
  then show "owner_step (family_spans spans reg m) (T \<union> family_spans spans (reg(off := None)) m') m m'"
    unfolding fm(3) a(2) using private_step_widen [OF s, of "family_spans spans (reg(off := None)) m"] by simp
qed

end

end
