(* ===== verification/Container.thy ===== *)
theory Container
  imports Simulation
begin

text \<open>
  What the creation and the destruction of the four containers have in common. A container is an
  object of the object store whose first bytes are the container's own header: the code resolves
  the handle itself, so the container header overlays the \<open>ObjectHeader\<close>. Here are the generic
  steps: granting and writing a header, initializing its mutex, and what the object store later
  reads out of the overlaid fields.
\<close>

section \<open>The overlaid object header\<close>

lemma le_val_take: "le_val (take k bs) = le_val bs mod 256 ^ k"
proof (induction k arbitrary: bs)
  case (Suc k)
  show ?case
  proof (cases bs)
    case (Cons b bs')
    have "unat b < 256" using unsigned_less [of b] by simp
    then have "(unat b + 256 * le_val bs') mod (256 * 256 ^ k) = unat b + 256 * (le_val bs' mod 256 ^ k)"
      by (simp add: mod_mult2_eq)
    then show ?thesis using Cons Suc by simp
  qed simp
qed simp

text \<open>The low half of a 64-bit field is the 32-bit field at the same place.\<close>

lemma ld32_low: "unat (ld32 m a) = unat (ld64 m a) mod 4294967296"
proof -
  have "rd m a 4 = take 4 (rd m a 8)" by (simp add: rd_def take_map)
  moreover have "le_val (rd m a 8) < 2 ^ 64" using le_val_less [of "rd m a 8"] by simp
  ultimately show ?thesis by (simp add: ld32_def ld64_def le_val_take unat_of_nat)
qed

lemma and_one_even: "(a :: u32) AND 1 = 0 \<longleftrightarrow> even (unat a)"
proof -
  have "unat (a AND 1) = unat a mod 2" by (simp add: and_one_eq unat_mod)
  then show ?thesis by (metis even_iff_mod_2_eq_zero unsigned_0 word_eq_iff_unat)
qed

text \<open>A handle passes for an object when the low half of the container's first field, read as the
  object's size, fits the span and its second field is even.\<close>

lemma overlaid_object_at:
  "object_at m p \<longleftrightarrow>
     (\<exists>n. heap_abs m p = Some n \<and> 16 + unat (ld64 m p) mod 4294967296 \<le> n) \<and> even (unat (ld64 m (p + 8)))"
proof -
  have "oh_flags (get_object m p) AND 1 = 0 \<longleftrightarrow> even (unat (ld32 m (p + 8)))"
    by (simp add: get_object_def and_one_even)
  moreover have "even (unat (ld32 m (p + 8))) \<longleftrightarrow> even (unat (ld64 m (p + 8)))"
    unfolding ld32_low even_iff_mod_2_eq_zero by (subst mod_mod_cancel) simp_all
  ultimately show ?thesis by (simp add: object_at_def get_object_def ld32_low)
qed

section \<open>Arrays in a span\<close>

text \<open>\<open>c\<close> elements of \<open>e\<close> bytes in a live span: the array resolves, and the address of an element does
  not wrap.\<close>

lemma array_span:
  assumes h: "heap_inv rg m" and k: "heap_abs m (unat d) = Some k" "unat c * unat e \<le> k"
  shows "offset_ptr_try_resolve (rg_base rg) (rg_size rg) d (c * e) True = Some (rg_base rg + d)"
    and "unat i < unat c \<Longrightarrow> roff rg (rg_base rg + d + i * e) = unat d + unat i * unat e"
    and "j < unat c \<Longrightarrow> j * unat e + unat e \<le> k"
    and "unat (c * e) = unat c * unat e"
proof -
  have kb: "unat d + k < 2 ^ 64" using heap_abs_bounds(3) [OF h k(1)] unat_less_2p64 [of "rg_size rg"] by simp
  then have "unat c * unat e < 2 ^ 64" using k(2) by linarith
  then show pr: "unat (c * e) = unat c * unat e" by (intro unat_mult_nowrap) simp
  then show "offset_ptr_try_resolve (rg_base rg) (rg_size rg) d (c * e) True = Some (rg_base rg + d)"
    using k by (intro span_resolves(1) [OF h]) auto
  have slot: "j * unat e + unat e \<le> k" if "j < unat c" for j
  proof -
    have "Suc j * unat e \<le> unat c * unat e" using that by (intro mult_le_mono1) simp
    then show ?thesis using k(2) by simp
  qed
  show "j < unat c \<Longrightarrow> j * unat e + unat e \<le> k" by (rule slot)
  show "roff rg (rg_base rg + d + i * e) = unat d + unat i * unat e" if i: "unat i < unat c"
  proof -
    have b: "unat d + unat i * unat e < 2 ^ 64" using slot [OF i] kb by simp
    then have "unat (i * e) = unat i * unat e" by (subst unat_mult_nowrap) simp_all
    then have "unat (d + i * e) = unat d + unat i * unat e" using b by (subst unat_add_nowrap) simp_all
    then show ?thesis by (simp add: roff_def add.assoc)
  qed
qed

text \<open>The first \<open>n\<close> elements of \<open>e\<close> bytes from \<open>d\<close> on.\<close>

definition elements :: "mem \<Rightarrow> nat \<Rightarrow> nat \<Rightarrow> nat \<Rightarrow> u8 list list" where
  "elements m d e n = map (\<lambda>i. rd m (d + i * e) e) [0..<n]"

lemma elements_length [simp]: "length (elements m d e n) = n"
  by (simp add: elements_def)

lemma elements_nth [simp]: "i < n \<Longrightarrow> elements m d e n ! i = rd m (d + i * e) e"
  by (simp add: elements_def)

lemma elements_0 [simp]: "elements m d e 0 = []"
  by (simp add: elements_def)

lemma elements_Suc: "elements m d e (Suc n) = elements m d e n @ [rd m (d + n * e) e]"
  by (simp add: elements_def)

text \<open>Copying the bytes of an array copies its elements.\<close>

lemma elements_copy:
  assumes "rd m' d' (n * e) = rd m d (n * e)"
  shows "elements m' d' e n = elements m d e n"
proof (rule nth_equalityI)
  fix i assume "i < length (elements m' d' e n)"
  then have i: "i < n" by simp
  then have "Suc i * e \<le> n * e" by (intro mult_le_mono1) simp
  then have "i * e + e \<le> n * e" by simp
  then show "elements m' d' e n ! i = elements m d e n ! i"
    using i assms rd_part [of "i * e" e "n * e"] by simp
qed simp

lemma elements_same_on: "same_on m m' d (d + n * e) \<Longrightarrow> elements m' d e n = elements m d e n"
  by (intro elements_copy rd_same_on)

section \<open>Granting a header\<close>

lemma mutex_init_runs:
  "\<forall>a. rc_mutex_init E a = 0 \<Longrightarrow> snd (pthread_mutex_init E a w) = set_mtx a MFree w"
  by (simp add: pthread_mutex_init_def)

text \<open>The header object is granted at \<open>p\<close>; whatever is then written into its first \<open>sz\<close> bytes is a
  private step.\<close>

definition header_grant :: "env \<Rightarrow> ShmRegion \<Rightarrow> u64 \<Rightarrow> world \<Rightarrow> nat \<Rightarrow> nat \<Rightarrow> mem \<Rightarrow> bool" where
  "header_grant E rg sz w p n m1 \<longleftrightarrow>
     object_store_alloc E (Some rg) 1 sz True w = Some ((STATUS_OK, Some (of_nat p)), set_bytes m1 w) \<and>
     heap_inv rg m1 \<and> heap_abs (bytes w) p = None \<and> heap_abs m1 = (heap_abs (bytes w))(p \<mapsto> n) \<and> 16 + unat sz \<le> n \<and>
     unat (of_nat p :: OffsetPtr) = p \<and> owner_step {} {p} (bytes w) m1 \<and>
     pays spare (alloc_cost (16 + sz)) (bytes w) m1"

lemma header_granted:
  assumes h: "heap_inv rg (bytes w)" and r: "ready E w" and sz: "unat sz \<le> 4294967295" and rm: "room (16 + sz) (bytes w)"
  obtains p n m1 where "header_grant E rg sz w p n m1"
  using object_alloc_steps(1) [OF h r sz rm, of 1] unfolding header_grant_def by blast

lemma header_grantD:
  assumes h: "heap_inv rg (bytes w)" and r: "ready E w" and g: "header_grant E rg sz w p n m1"
  shows "object_store_alloc E (Some rg) 1 sz True w = Some ((STATUS_OK, Some (of_nat p)), set_bytes m1 w)"
    and "heap_inv rg m1" and "heap_abs m1 p = Some n" and "16 + unat sz \<le> n"
    and "heap_abs m1 = (heap_abs (bytes w))(p \<mapsto> n)" and "unat (of_nat p :: OffsetPtr) = p"
    and "(of_nat p :: OffsetPtr) \<noteq> 0" and "2768 \<le> p" and "heap_abs (bytes w) p = None"
    and "offset_ptr_try_resolve (rg_base rg) (rg_size rg) (of_nat p) sz True = Some (rg_base rg + of_nat p)"
    and "ready E (set_mtx (p + k) s w)"
    and "pays spare (alloc_cost (16 + sz)) (bytes w) m1"
proof -
  show "object_store_alloc E (Some rg) 1 sz True w = Some ((STATUS_OK, Some (of_nat p)), set_bytes m1 w)"
    and i: "heap_inv rg m1" and n: "16 + unat sz \<le> n" and l: "heap_abs m1 = (heap_abs (bytes w))(p \<mapsto> n)"
    and u: "unat (of_nat p :: OffsetPtr) = p" and "heap_abs (bytes w) p = None"
    and "pays spare (alloc_cost (16 + sz)) (bytes w) m1"
    using g by (simp_all add: header_grant_def)
  have lp: "heap_abs m1 (unat (of_nat p :: OffsetPtr)) = Some n" using l u by simp
  have sn: "unat sz \<le> n" using n by simp
  show "heap_abs m1 p = Some n" using l by simp
  then show b: "2768 \<le> p" by (rule heap_abs_bounds(1) [OF i])
  then show "ready E (set_mtx (p + k) s w)" using r by (simp add: ready_set_mtx)
  show "(of_nat p :: OffsetPtr) \<noteq> 0" by (rule span_resolves(2) [OF i lp sn])
  show "offset_ptr_try_resolve (rg_base rg) (rg_size rg) (of_nat p) sz True = Some (rg_base rg + of_nat p)"
    by (rule span_resolves(1) [OF i lp sn])
qed

lemma header_written:
  assumes h: "heap_inv rg (bytes w)" and g: "header_grant E rg sz w p n m1"
    and o: "\<And>x. x < p \<or> p + unat sz \<le> x \<Longrightarrow> m x = m1 x"
  shows "heap_inv rg m" and "heap_abs m = heap_abs m1" and "owner_step {} {p} (bytes w) m" and "room s m = room s m1"
    and "pays spare (alloc_cost (16 + sz)) (bytes w) m"
proof -
  have i: "heap_inv rg m1" "heap_abs m1 p = Some n" "16 + unat sz \<le> n" "owner_step {} {p} (bytes w) m1"
    and py: "pays spare (alloc_cost (16 + sz)) (bytes w) m1"
    using g by (simp_all add: header_grant_def)
  have "m x = m1 x" if "x < p \<or> p + n \<le> x" for x using that i(3) by (intro o) auto
  note s = svc.own_step [OF i(1,2) this]
  show "heap_inv rg m" "heap_abs m = heap_abs m1" "room s m = room s m1" using s by simp_all
  show "owner_step {} {p} (bytes w) m" using svc.step_trans [OF h i(4) s(3)] .
  show "pays spare (alloc_cost (16 + sz)) (bytes w) m" using py s(6) by (simp add: pays_def)
qed

text \<open>A mutex in the granted header lies in no span that was live before.\<close>

lemma header_locks_kept:
  assumes h: "heap_inv rg (bytes w)" and g: "header_grant E rg sz w p n m1" and k: "k < 16 + unat sz"
  shows "locks_kept w (set_mtx (p + k) s (set_bytes m w))"
proof -
  have i: "heap_inv rg m1" "heap_abs m1 = (heap_abs (bytes w))(p \<mapsto> n)" "16 + unat sz \<le> n" "heap_abs (bytes w) p = None"
    using g by (simp_all add: header_grant_def)
  then have p1: "heap_abs m1 p = Some n" by simp
  have "p + k < q \<or> q + j \<le> p + k" if q: "heap_abs (bytes w) q = Some j" for q j
  proof -
    have "q \<noteq> p" "heap_abs m1 q = Some j" using q i(2,4) by auto
    then show ?thesis using heap_abs_disjoint [OF i(1) p1] i(3) k by fastforce
  qed
  moreover have "2768 \<le> p" by (rule heap_abs_bounds(1) [OF i(1) p1])
  ultimately show ?thesis unfolding locks_kept_def by (auto simp: set_mtx_def set_bytes_def not_less [symmetric])
qed

lemma header_refused:
  assumes h: "heap_inv rg (bytes w)" and r: "ready E w" and sz: "unat sz \<le> 4294967295" and rm: "\<not> room (16 + sz) (bytes w)"
  obtains m' where
    "object_store_alloc E (Some rg) 1 sz True w = Some ((STATUS_OUT_OF_MEMORY, None), set_bytes m' w)"
    "heap_inv rg m'" "heap_abs m' = heap_abs (bytes w)" "owner_step {} {} (bytes w) m'"
  using object_alloc_steps(2) [OF h r sz rm, of 1] by blast

end
