(* ===== verification/RingBuf.thy ===== *)
theory RingBuf
  imports Container
begin

text \<open>
  The ring buffer of src/containers/ringbuf.c, definition by definition. A buffer is named by the
  handle of an object whose first bytes are the \<open>RingBufHeader\<close>: the code resolves the handle itself
  and not the object's payload, so the ring header overlays the \<open>ObjectHeader\<close>. The region pointer
  is dereferenced without a check and is therefore a descriptor here. An element argument is the
  bytes at the pointer, \<open>None\<close> for a null pointer, of which \<open>elem_size\<close> are copied.
\<close>

section \<open>Layout\<close>

definition RB_capacity :: nat where "RB_capacity = 0"
definition RB_head :: nat where "RB_head = 8"
definition RB_tail :: nat where "RB_tail = 16"
definition RB_elem_size :: nat where "RB_elem_size = 24"
definition RB_data_offset :: nat where "RB_data_offset = 32"
definition RB_lock :: nat where "RB_lock = 40"
definition SIZEOF_RingBufHeader :: u64 where "SIZEOF_RingBufHeader = 80"

lemmas ringbuf_layout [layout, simp] =
  RB_capacity_def RB_head_def RB_tail_def RB_elem_size_def RB_data_offset_def RB_lock_def
  SIZEOF_RingBufHeader_def

record RingBufHeader =
  rb_capacity :: u64
  rb_head :: u64
  rb_tail :: u64
  rb_elem_size :: u64
  rb_data_offset :: OffsetPtr

definition get_ring :: "mem \<Rightarrow> nat \<Rightarrow> RingBufHeader" where
  "get_ring m h =
     \<lparr>rb_capacity = ld64 m (h + RB_capacity), rb_head = ld64 m (h + RB_head),
      rb_tail = ld64 m (h + RB_tail), rb_elem_size = ld64 m (h + RB_elem_size),
      rb_data_offset = ld64 m (h + RB_data_offset)\<rparr>"

section \<open>Helpers\<close>

definition ringbuf_resolve_header :: "ShmRegion \<Rightarrow> OffsetPtr \<Rightarrow> u64 option" where
  "ringbuf_resolve_header rg buf_offset =
     offset_ptr_try_resolve (rg_base rg) (rg_size rg) buf_offset SIZEOF_RingBufHeader True"

definition ringbuf_lock :: "env \<Rightarrow> nat \<Rightarrow> world \<Rightarrow> world option" where
  "ringbuf_lock E h w = container_lock E (h + RB_lock) w"

definition ringbuf_unlock :: "env \<Rightarrow> nat \<Rightarrow> world \<Rightarrow> world" where
  "ringbuf_unlock E h w = container_unlock E (h + RB_lock) w"

definition ringbuf_idx :: "RingBufHeader \<Rightarrow> u64 \<Rightarrow> u64" where
  "ringbuf_idx hdr i = i mod rb_capacity hdr"

section \<open>Creation and destruction\<close>

definition ringbuf_create :: "env \<Rightarrow> ShmRegion \<Rightarrow> u64 \<Rightarrow> u64 \<Rightarrow> world \<Rightarrow> OffsetPtr result" where
  "ringbuf_create E rg capacity elem_size w =
     (if capacity < 2 \<or> elem_size = 0 then Some (offset_ptr_null, w)
      else do {
        ((status, obj), w1) \<leftarrow> object_store_alloc E (Some rg) 1 SIZEOF_RingBufHeader True w;
        if status \<noteq> STATUS_OK then Some (offset_ptr_null, w1)
        else
          let hdr_ptr = the obj in
          case ringbuf_resolve_header rg hdr_ptr of
            None \<Rightarrow> Some (offset_ptr_null, w1)
          | Some hdr \<Rightarrow>
              let h = roff rg hdr;
                  m1 = st64 (bytes w1) (h + RB_capacity) capacity;
                  m2 = st64 m1 (h + RB_head) 0;
                  m3 = st64 m2 (h + RB_tail) 0;
                  m4 = st64 m3 (h + RB_elem_size) elem_size;
                  m5 = st64 m4 (h + RB_data_offset) offset_ptr_null;
                  w2 = snd (pthread_mutex_init E (h + RB_lock) (set_bytes m5 w1));
                  data_size = capacity * elem_size
              in do {
                ((st, data), w3) \<leftarrow> allocator_alloc E (Some rg) data_size 16 True w2;
                if st \<noteq> STATUS_OK then do {
                  (_, w4) \<leftarrow> object_store_free E (Some rg) hdr_ptr (pthread_mutex_destroy (h + RB_lock) w3);
                  Some (offset_ptr_null, w4)
                }
                else
                  let data_ptr = the data;
                      w4 = set_bytes (zero (bytes w3) (roff rg data_ptr) (unat data_size)) w3
                  in case offset_ptr_try_from_raw (rg_base rg) (rg_size rg) data_ptr True of
                       None \<Rightarrow> do {
                         (_, w5) \<leftarrow> allocator_free E (Some rg) data_ptr w4;
                         (_, w6) \<leftarrow> object_store_free E (Some rg) hdr_ptr (pthread_mutex_destroy (h + RB_lock) w5);
                         Some (offset_ptr_null, w6)
                       }
                     | Some off \<Rightarrow>
                         Some (hdr_ptr, set_bytes (st64 (bytes w4) (h + RB_data_offset) off) w4)
              }
      })"

text \<open>The element buffer, as every operation resolves it.\<close>

definition ringbuf_data :: "ShmRegion \<Rightarrow> RingBufHeader \<Rightarrow> u64 option" where
  "ringbuf_data rg hdr =
     offset_ptr_try_resolve (rg_base rg) (rg_size rg) (rb_data_offset hdr)
       (rb_capacity hdr * rb_elem_size hdr) True"

definition ringbuf_destroy :: "env \<Rightarrow> ShmRegion \<Rightarrow> OffsetPtr \<Rightarrow> world \<Rightarrow> unit result" where
  "ringbuf_destroy E rg buf_offset w =
     (case ringbuf_resolve_header rg buf_offset of
        None \<Rightarrow> Some ((), w)
      | Some hp \<Rightarrow>
          let h = roff rg hp in do {
            w1 \<leftarrow> ringbuf_lock E h w;
            let hdr = get_ring (bytes w1) h;
            w2 \<leftarrow> (if \<not> offset_ptr_is_null (rb_data_offset hdr) then
                     (case ringbuf_data rg hdr of
                        None \<Rightarrow> Some w1
                      | Some data \<Rightarrow> map_option snd (allocator_free E (Some rg) data w1))
                   else Some w1);
            let w3 = pthread_mutex_destroy (h + RB_lock) (ringbuf_unlock E h w2);
            (_, w4) \<leftarrow> object_store_free E (Some rg) buf_offset w3;
            Some ((), w4)
          })"

section \<open>Queue operations\<close>

definition ringbuf_push :: "env \<Rightarrow> ShmRegion \<Rightarrow> OffsetPtr \<Rightarrow> u8 list option \<Rightarrow> world \<Rightarrow> int result" where
  "ringbuf_push E rg buf_offset element w =
     (if element = None then Some (- 1, w)
      else case ringbuf_resolve_header rg buf_offset of
        None \<Rightarrow> Some (- 1, w)
      | Some hp \<Rightarrow>
          let h = roff rg hp in do {
            w1 \<leftarrow> ringbuf_lock E h w;
            let hdr = get_ring (bytes w1) h;
            let next_tail = ringbuf_idx hdr (rb_tail hdr + 1);
            if next_tail = rb_head hdr then Some (- 1, ringbuf_unlock E h w1)
            else case ringbuf_data rg hdr of
              None \<Rightarrow> Some (- 1, ringbuf_unlock E h w1)
            | Some data \<Rightarrow>
                let m1 = wr (bytes w1) (roff rg (data + rb_tail hdr * rb_elem_size hdr))
                           (take (unat (rb_elem_size hdr)) (the element));
                    m2 = st64 m1 (h + RB_tail) next_tail
                in Some (0, ringbuf_unlock E h (set_bytes m2 w1))
          })"

definition ringbuf_pop ::
    "env \<Rightarrow> ShmRegion \<Rightarrow> OffsetPtr \<Rightarrow> bool \<Rightarrow> world \<Rightarrow> (int \<times> u8 list option) result" where
  "ringbuf_pop E rg buf_offset out_nonnull w =
     (if \<not> out_nonnull then Some ((- 1, None), w)
      else case ringbuf_resolve_header rg buf_offset of
        None \<Rightarrow> Some ((- 1, None), w)
      | Some hp \<Rightarrow>
          let h = roff rg hp in do {
            w1 \<leftarrow> ringbuf_lock E h w;
            let hdr = get_ring (bytes w1) h;
            if rb_head hdr = rb_tail hdr then Some ((- 1, None), ringbuf_unlock E h w1)
            else case ringbuf_data rg hdr of
              None \<Rightarrow> Some ((- 1, None), ringbuf_unlock E h w1)
            | Some data \<Rightarrow>
                let out = rd (bytes w1) (roff rg (data + rb_head hdr * rb_elem_size hdr))
                            (unat (rb_elem_size hdr));
                    m1 = st64 (bytes w1) (h + RB_head) (ringbuf_idx hdr (rb_head hdr + 1))
                in Some ((0, Some out), ringbuf_unlock E h (set_bytes m1 w1))
          })"

definition ringbuf_length :: "env \<Rightarrow> ShmRegion \<Rightarrow> OffsetPtr \<Rightarrow> world \<Rightarrow> u64 result" where
  "ringbuf_length E rg buf_offset w =
     (case ringbuf_resolve_header rg buf_offset of
        None \<Rightarrow> Some (0, w)
      | Some hp \<Rightarrow>
          let h = roff rg hp in do {
            w1 \<leftarrow> ringbuf_lock E h w;
            let hdr = get_ring (bytes w1) h;
            let w2 = ringbuf_unlock E h w1;
            if rb_head hdr \<le> rb_tail hdr
            then (let hdr' = get_ring (bytes w2) h in Some (rb_tail hdr' - rb_head hdr', w2))
            else Some (rb_capacity hdr - rb_head hdr + rb_tail hdr, w2)
          })"

definition ringbuf_capacity :: "ShmRegion \<Rightarrow> OffsetPtr \<Rightarrow> mem \<Rightarrow> u64" where
  "ringbuf_capacity rg buf_offset m =
     (case ringbuf_resolve_header rg buf_offset of
        None \<Rightarrow> 0
      | Some hp \<Rightarrow> rb_capacity (get_ring m (roff rg hp)))"

definition ringbuf_is_empty :: "env \<Rightarrow> ShmRegion \<Rightarrow> OffsetPtr \<Rightarrow> world \<Rightarrow> bool result" where
  "ringbuf_is_empty E rg buf_offset w =
     (case ringbuf_resolve_header rg buf_offset of
        None \<Rightarrow> Some (True, w)
      | Some hp \<Rightarrow>
          let h = roff rg hp in do {
            w1 \<leftarrow> ringbuf_lock E h w;
            let hdr = get_ring (bytes w1) h;
            Some (rb_head hdr = rb_tail hdr, ringbuf_unlock E h w1)
          })"

definition ringbuf_is_full :: "env \<Rightarrow> ShmRegion \<Rightarrow> OffsetPtr \<Rightarrow> world \<Rightarrow> bool result" where
  "ringbuf_is_full E rg buf_offset w =
     (case ringbuf_resolve_header rg buf_offset of
        None \<Rightarrow> Some (False, w)
      | Some hp \<Rightarrow>
          let h = roff rg hp in do {
            w1 \<leftarrow> ringbuf_lock E h w;
            let hdr = get_ring (bytes w1) h;
            Some (ringbuf_idx hdr (rb_tail hdr + 1) = rb_head hdr, ringbuf_unlock E h w1)
          })"

end
