(* ===== verification/RingBufSpec.thy ===== *)
theory RingBufSpec
  imports RingBuf
begin

text \<open>
  The ring buffer implements a bounded FIFO queue of byte strings. \<open>ring_ok\<close> is the invariant of a
  buffer in the heap: header and element buffer are two live allocations, and the indices are in
  range. \<open>ring_queue\<close> reads the queue off the bytes. Every sequence of operations returns what the
  queue returns and touches no byte outside the buffer's two allocations.
\<close>

section \<open>Arithmetic of the indices\<close>

definition ring_count :: "nat \<Rightarrow> nat \<Rightarrow> nat \<Rightarrow> nat" where
  "ring_count h t c = (if h \<le> t then t - h else c - h + t)"

lemma ring_mod: "i < 2 * c \<Longrightarrow> i mod c = (if i < c then i else i - c)" for i c :: nat
  by (auto simp: le_mod_geq)

lemma ring_count_facts:
  assumes "h < c" and "t < c"
  shows "ring_count h t c < c" and "ring_count h t c = 0 \<longleftrightarrow> h = t"
    and "(h + ring_count h t c) mod c = t"
    and "i < ring_count h t c \<Longrightarrow> (h + i) mod c \<noteq> t"
    and "Suc t mod c = h \<longleftrightarrow> Suc (ring_count h t c) = c"
    and "Suc t mod c \<noteq> h \<Longrightarrow> ring_count h (Suc t mod c) c = Suc (ring_count h t c)"
    and "h \<noteq> t \<Longrightarrow> Suc (ring_count (Suc h mod c) t c) = ring_count h t c"
  using assms by (auto simp: ring_count_def ring_mod split: if_splits)

section \<open>Invariant and abstraction\<close>

definition ring_ok :: "mem \<Rightarrow> nat \<Rightarrow> bool" where
  "ring_ok m p \<longleftrightarrow>
     (let r = get_ring m p; d = unat (rb_data_offset r) in
      (\<exists>n k. heap_abs m p = Some n \<and> 80 \<le> n \<and> heap_abs m d = Some k \<and> d \<noteq> p \<and>
             unat (rb_capacity r) * unat (rb_elem_size r) \<le> k) \<and>
      2 \<le> unat (rb_capacity r) \<and> 0 < unat (rb_elem_size r) \<and>
      unat (rb_head r) < unat (rb_capacity r) \<and> unat (rb_tail r) < unat (rb_capacity r))"

definition ring_slot :: "mem \<Rightarrow> RingBufHeader \<Rightarrow> nat \<Rightarrow> u8 list" where
  "ring_slot m r i = rd m (unat (rb_data_offset r) + i * unat (rb_elem_size r)) (unat (rb_elem_size r))"

definition ring_queue :: "mem \<Rightarrow> nat \<Rightarrow> u8 list list" where
  "ring_queue m p =
     (let r = get_ring m p in
      map (\<lambda>i. ring_slot m r ((unat (rb_head r) + i) mod unat (rb_capacity r)))
        [0..<ring_count (unat (rb_head r)) (unat (rb_tail r)) (unat (rb_capacity r))])"

text \<open>The bytes of a buffer: its header object and its element buffer.\<close>

definition ring_bytes :: "mem \<Rightarrow> nat \<Rightarrow> nat set" where
  "ring_bytes m p =
     (let d = unat (rb_data_offset (get_ring m p)) in
      {x. (\<exists>n. heap_abs m p = Some n \<and> p \<le> x \<and> x < p + n) \<or>
          (\<exists>k. heap_abs m d = Some k \<and> d \<le> x \<and> x < d + k)})"

lemma ring_okD:
  assumes "ring_ok m p"
  shows "2 \<le> unat (rb_capacity (get_ring m p))" "0 < unat (rb_elem_size (get_ring m p))"
    "unat (rb_head (get_ring m p)) < unat (rb_capacity (get_ring m p))"
    "unat (rb_tail (get_ring m p)) < unat (rb_capacity (get_ring m p))"
    "unat (rb_data_offset (get_ring m p)) \<noteq> p"
  using assms by (auto simp: ring_ok_def Let_def)

lemma ring_okE:
  assumes "ring_ok m p"
  obtains n k where "heap_abs m p = Some n" "80 \<le> n" "heap_abs m (unat (rb_data_offset (get_ring m p))) = Some k"
    "unat (rb_capacity (get_ring m p)) * unat (rb_elem_size (get_ring m p)) \<le> k"
  using assms by (auto simp: ring_ok_def Let_def)

section \<open>Locking and resolution\<close>

lemma ring_lock_free: "mtx w (h + 40) = MFree \<Longrightarrow> ringbuf_lock E h w = Some (holding E (h + 40) w)"
  by (simp add: ringbuf_lock_def container_lock_free)

lemma ring_unlock_own:
  "mtx w (h + 40) = MFree \<Longrightarrow> ringbuf_unlock E h (set_bytes m (holding E (h + 40) w)) = set_bytes m w"
  "mtx w (h + 40) = MFree \<Longrightarrow> ringbuf_unlock E h (holding E (h + 40) w) = w"
  by (simp_all add: ringbuf_unlock_def container_unlock_own)

text \<open>On a buffer that satisfies the invariant the header and the element buffer resolve, and the
  address of slot \<open>i\<close> does not wrap.\<close>

lemma ring_resolves:
  assumes h: "heap_inv rg m" and o: "ring_ok m (unat off)"
  defines "r \<equiv> get_ring m (unat off)"
  shows "ringbuf_resolve_header rg off = Some (rg_base rg + off)"
    and "ringbuf_data rg r = Some (rg_base rg + rb_data_offset r)"
    and "unat i < unat (rb_capacity r) \<Longrightarrow>
       roff rg (rg_base rg + rb_data_offset r + i * rb_elem_size r)
         = unat (rb_data_offset r) + unat i * unat (rb_elem_size r)"
    and "j < unat (rb_capacity r) \<Longrightarrow> heap_abs m (unat (rb_data_offset r)) = Some k \<Longrightarrow>
       j * unat (rb_elem_size r) + unat (rb_elem_size r) \<le> k"
proof -
  obtain n k where n: "heap_abs m (unat off) = Some n" "80 \<le> n"
    and k: "heap_abs m (unat (rb_data_offset r)) = Some k"
      "unat (rb_capacity r) * unat (rb_elem_size r) \<le> k"
    using ring_okE [OF o] unfolding r_def by blast
  note a = array_span [OF h k]
  show "ringbuf_resolve_header rg off = Some (rg_base rg + off)"
    using span_resolves(1) [OF h n(1), of 80] n(2) by (simp add: ringbuf_resolve_header_def)
  show "ringbuf_data rg r = Some (rg_base rg + rb_data_offset r)" using a(1) by (simp add: ringbuf_data_def)
  show "unat i < unat (rb_capacity r) \<Longrightarrow> roff rg (rg_base rg + rb_data_offset r + i * rb_elem_size r)
         = unat (rb_data_offset r) + unat i * unat (rb_elem_size r)" by (rule a(2))
  show "j < unat (rb_capacity r) \<Longrightarrow> heap_abs m (unat (rb_data_offset r)) = Some k' \<Longrightarrow>
       j * unat (rb_elem_size r) + unat (rb_elem_size r) \<le> k'" for j k' using a(3) [of j] k(1) by simp
qed

section \<open>Frame\<close>

text \<open>A step of the buffer: the heap's spans, the fixed header fields and every byte outside the
  buffer stay.\<close>

definition ring_same :: "nat \<Rightarrow> mem \<Rightarrow> mem \<Rightarrow> bool" where
  "ring_same p m m' \<longleftrightarrow>
     heap_abs m' = heap_abs m \<and>
     rb_capacity (get_ring m' p) = rb_capacity (get_ring m p) \<and>
     rb_elem_size (get_ring m' p) = rb_elem_size (get_ring m p) \<and>
     rb_data_offset (get_ring m' p) = rb_data_offset (get_ring m p) \<and>
     (\<forall>x. x \<notin> ring_bytes m p \<longrightarrow> m' x = m x)"

lemma ring_same_refl [simp]: "ring_same p m m"
  by (simp add: ring_same_def)

lemma ring_same_trans: "ring_same p m m1 \<Longrightarrow> ring_same p m1 m2 \<Longrightarrow> ring_same p m m2"
  by (auto simp: ring_same_def ring_bytes_def Let_def)

lemma ring_write:
  assumes h: "heap_inv rg m" and o: "ring_ok m p" and w: "\<And>x. x \<notin> ring_bytes m p \<Longrightarrow> m' x = m x"
  shows "heap_inv rg m'" and "heap_abs m' = heap_abs m"
proof -
  have "m' x = m x" if "\<not> outside_heap_meta m x" for x
  proof (rule w)
    show "x \<notin> ring_bytes m p" using that by (auto simp: outside_heap_meta_def ring_bytes_def Let_def)
  qed
  then show "heap_inv rg m'" "heap_abs m' = heap_abs m" using heap_write(1,2) [OF h] by blast+
qed

lemma ring_apart:
  assumes h: "heap_inv rg m" and o: "ring_ok m p" and i: "i < unat (rb_capacity (get_ring m p))"
  defines "a \<equiv> unat (rb_data_offset (get_ring m p)) + i * unat (rb_elem_size (get_ring m p))"
    and "e \<equiv> unat (rb_elem_size (get_ring m p))"
  shows "p + 80 \<le> a \<or> a + e \<le> p"
    and "a \<le> x \<Longrightarrow> x < a + e \<Longrightarrow> x \<in> ring_bytes m p" and "p \<le> x \<Longrightarrow> x < p + 80 \<Longrightarrow> x \<in> ring_bytes m p"
proof -
  let ?r = "get_ring m p" let ?d = "unat (rb_data_offset ?r)"
  obtain n k where n: "heap_abs m p = Some n" "80 \<le> n" and k: "heap_abs m ?d = Some k"
      "unat (rb_capacity ?r) * unat (rb_elem_size ?r) \<le> k" using ring_okE [OF o] .
  have "Suc i * e \<le> unat (rb_capacity ?r) * e" using i by (intro mult_le_mono1) simp
  then have b: "i * e + e \<le> k" using k(2) by (simp add: e_def)
  have "p + n \<le> ?d \<or> ?d + k \<le> p" using heap_abs_disjoint [OF h n(1) k(1)] ring_okD(5) [OF o] by auto
  then show "p + 80 \<le> a \<or> a + e \<le> p" using b n(2) by (auto simp: a_def e_def)
  show "a \<le> x \<Longrightarrow> x < a + e \<Longrightarrow> x \<in> ring_bytes m p"
    using b k(1) by (auto simp: ring_bytes_def Let_def a_def e_def)
  show "p \<le> x \<Longrightarrow> x < p + 80 \<Longrightarrow> x \<in> ring_bytes m p"
    using n by (auto simp: ring_bytes_def Let_def)
qed

section \<open>Pushing and popping on the bytes\<close>

lemma ring_slots_apart:
  assumes "i \<noteq> j"
  shows "(a :: nat) + i * e + e \<le> a + j * e \<or> a + j * e + e \<le> a + i * e"
proof -
  have "Suc i \<le> j \<or> Suc j \<le> i" using assms by auto
  then have "Suc i * e \<le> j * e \<or> Suc j * e \<le> i * e" using mult_le_mono1 by blast
  then show ?thesis by auto
qed

lemma ring_push_state:
  assumes h: "heap_inv rg m" and o: "ring_ok m p" and r: "r = get_ring m p"
    and x: "length x = unat (rb_elem_size r)"
    and nt: "unat nt = Suc (unat (rb_tail r)) mod unat (rb_capacity r)" "unat nt \<noteq> unat (rb_head r)"
    and m': "m' = st64 (wr m (unat (rb_data_offset r) + unat (rb_tail r) * unat (rb_elem_size r)) x) (p + 16) nt"
  shows "heap_inv rg m'" and "ring_ok m' p" and "ring_queue m' p = ring_queue m p @ [x]" and "ring_same p m m'"
proof -
  let ?c = "unat (rb_capacity r)" and ?h = "unat (rb_head r)" and ?t = "unat (rb_tail r)" and ?e = "unat (rb_elem_size r)"
  let ?d = "unat (rb_data_offset r)"
  note d = ring_okD [OF o, folded r] and ap = ring_apart [OF h o, folded r]
  note rc = ring_count_facts [OF d(3,4)]
  have g: "get_ring m' p = r\<lparr>rb_tail := nt\<rparr>"
    using ap(1) [OF d(4)] x by (auto simp: m' get_ring_def r)
  have fr: "m' y = m y" if "y \<notin> ring_bytes m p" for y
    using that ap(2,3) [OF d(4), of y] x by (auto simp: m' st64_def wr_def)
  note rw = ring_write [OF h o fr]
  show "heap_inv rg m'" using rw(1) .
  show "ring_same p m m'" using rw(2) g fr by (simp add: ring_same_def r)
  have "unat nt < ?c" using nt(1) d(1) by simp
  then show "ring_ok m' p" using o rw(2) by (auto simp: ring_ok_def Let_def g r [symmetric])
  have slot: "ring_slot m' (r\<lparr>rb_tail := nt\<rparr>) i = (if i = ?t then x else ring_slot m r i)" if "i < ?c" for i
  proof -
    have out: "p + 24 \<le> ?d + i * ?e \<or> ?d + i * ?e + ?e \<le> p + 16" using ap(1) [OF that] by auto
    have "rd m' (?d + i * ?e) ?e = rd (wr m (?d + ?t * ?e) x) (?d + i * ?e) ?e"
      unfolding m' st64_def using out by (intro rd_wr_other) auto
    then show ?thesis using x ring_slots_apart [of i ?t ?d ?e] by (auto simp: ring_slot_def)
  qed
  have nf: "Suc ?t mod ?c \<noteq> ?h" using nt by simp
  show "ring_queue m' p = ring_queue m p @ [x]"
    using d(1) rc(1,3) slot by (auto simp: ring_queue_def Let_def g r [symmetric] nt(1) rc(6) [OF nf] rc(4))
qed

lemma ring_pop_state:
  assumes h: "heap_inv rg m" and o: "ring_ok m p" and r: "r = get_ring m p"
    and nh: "unat nh = Suc (unat (rb_head r)) mod unat (rb_capacity r)" and ne: "unat (rb_head r) \<noteq> unat (rb_tail r)"
    and m': "m' = st64 m (p + 8) nh"
  shows "heap_inv rg m'" and "ring_ok m' p" and "ring_same p m m'"
    and "ring_queue m p = ring_slot m r (unat (rb_head r)) # ring_queue m' p"
proof -
  let ?c = "unat (rb_capacity r)" and ?h = "unat (rb_head r)" and ?t = "unat (rb_tail r)" and ?e = "unat (rb_elem_size r)"
  let ?d = "unat (rb_data_offset r)" and ?h' = "Suc (unat (rb_head r)) mod unat (rb_capacity r)"
  note d = ring_okD [OF o, folded r] and ap = ring_apart [OF h o, folded r]
  note rc = ring_count_facts [OF d(3,4)]
  have g: "get_ring m' p = r\<lparr>rb_head := nh\<rparr>" by (simp add: m' get_ring_def r)
  have fr: "m' y = m y" if "y \<notin> ring_bytes m p" for y
    using that ap(3) [OF d(4), of y] by (auto simp: m' st64_def wr_def)
  note rw = ring_write [OF h o fr]
  show "heap_inv rg m'" using rw(1) .
  show "ring_same p m m'" using rw(2) g fr by (simp add: ring_same_def r)
  have "unat nh < ?c" using nh d(1) by simp
  then show "ring_ok m' p" using o rw(2) by (auto simp: ring_ok_def Let_def g r [symmetric])
  have slot: "ring_slot m' (r\<lparr>rb_head := nh\<rparr>) i = ring_slot m r i" if "i < ?c" for i
  proof -
    have "p + 16 \<le> ?d + i * ?e \<or> ?d + i * ?e + ?e \<le> p + 8" using ap(1) [OF that] by auto
    then show ?thesis by (auto simp: m' ring_slot_def st64_def)
  qed
  have cnt: "ring_count ?h ?t ?c = Suc (ring_count ?h' ?t ?c)" using rc(7) [OF ne] by simp
  have "ring_slot m' (r\<lparr>rb_head := nh\<rparr>) ((?h' + i) mod ?c) = ring_slot m r ((?h + Suc i) mod ?c)" for i
    using d(1) by (subst slot) (simp_all add: mod_simps)
  then show "ring_queue m p = ring_slot m r ?h # ring_queue m' p"
    using d(3) by (simp add: ring_queue_def Let_def g r [symmetric] nh cnt map_Suc_upt [symmetric] upt_rec [of 0] o_def
        del: upt_Suc)
qed

section \<open>The bounded queue and the operations that implement it\<close>

datatype ring_op = RPush "u8 list" | RPop | RLength | RCapacity | RIsEmpty | RIsFull

datatype ring_res = RCode int | RPopped int "u8 list option" | RCount u64 | RBool bool

fun ring_step :: "env \<Rightarrow> ShmRegion \<Rightarrow> OffsetPtr \<Rightarrow> ring_op \<Rightarrow> world \<Rightarrow> ring_res result" where
  "ring_step E rg off (RPush x) w = map_option (apfst RCode) (ringbuf_push E rg off (Some x) w)"
| "ring_step E rg off RPop w = map_option (apfst (\<lambda>(c, out). RPopped c out)) (ringbuf_pop E rg off True w)"
| "ring_step E rg off RLength w = map_option (apfst RCount) (ringbuf_length E rg off w)"
| "ring_step E rg off RCapacity w = Some (RCount (ringbuf_capacity rg off (bytes w)), w)"
| "ring_step E rg off RIsEmpty w = map_option (apfst RBool) (ringbuf_is_empty E rg off w)"
| "ring_step E rg off RIsFull w = map_option (apfst RBool) (ringbuf_is_full E rg off w)"

text \<open>The abstract queue: at most \<open>c - 1\<close> elements, in the order they were pushed.\<close>

fun queue_spec :: "nat \<Rightarrow> ring_op \<Rightarrow> u8 list list \<Rightarrow> ring_res \<times> u8 list list" where
  "queue_spec c (RPush x) q = (if Suc (length q) < c then (RCode 0, q @ [x]) else (RCode (- 1), q))"
| "queue_spec c RPop q = (case q of [] \<Rightarrow> (RPopped (- 1) None, []) | x # xs \<Rightarrow> (RPopped 0 (Some x), xs))"
| "queue_spec c RLength q = (RCount (of_nat (length q)), q)"
| "queue_spec c RCapacity q = (RCount (of_nat c), q)"
| "queue_spec c RIsEmpty q = (RBool (q = []), q)"
| "queue_spec c RIsFull q = (RBool (Suc (length q) = c), q)"

text \<open>What a caller passes to push is at least an element long; the queue keeps exactly an element.\<close>

fun ring_op_ok :: "nat \<Rightarrow> ring_op \<Rightarrow> bool" where
  "ring_op_ok e (RPush x) \<longleftrightarrow> length x = e"
| "ring_op_ok e _ \<longleftrightarrow> True"

text \<open>The states that operations on one buffer lead to from \<open>w0\<close>.\<close>

definition ring_inv :: "ShmRegion \<Rightarrow> OffsetPtr \<Rightarrow> world \<Rightarrow> world \<Rightarrow> bool" where
  "ring_inv rg off w0 w \<longleftrightarrow>
     (\<exists>m. w = set_bytes m w0 \<and> heap_inv rg m \<and> ring_ok m (unat off) \<and> ring_same (unat off) (bytes w0) m) \<and>
     mtx w0 (unat off + 40) = MFree"

lemma unat_Suc_word: "unat (a :: u64) < unat (b :: u64) \<Longrightarrow> unat (a + 1) = Suc (unat a)"
  using unat_less_2p64 [of b] by (subst unat_add_nowrap) simp_all

lemma ring_idx_next:
  assumes "unat i < unat (rb_capacity r)"
  shows "unat (ringbuf_idx r (i + 1)) = Suc (unat i) mod unat (rb_capacity r)"
  by (simp add: ringbuf_idx_def unat_mod unat_Suc_word [OF assms])

lemma ring_queue_length:
  "length (ring_queue m p) = ring_count (unat (rb_head (get_ring m p))) (unat (rb_tail (get_ring m p)))
     (unat (rb_capacity (get_ring m p)))"
  by (simp add: ring_queue_def Let_def)

lemma ring_run:
  assumes h: "heap_inv rg (bytes w)" and o: "ring_ok (bytes w) (unat off)" and l: "mtx w (unat off + 40) = MFree"
    and r: "r = get_ring (bytes w) (unat off)"
  shows "ringbuf_push E rg off (Some x) w =
      (if ringbuf_idx r (rb_tail r + 1) = rb_head r then Some (- 1, w)
       else Some (0, set_bytes (st64 (wr (bytes w) (unat (rb_data_offset r) + unat (rb_tail r) * unat (rb_elem_size r))
               (take (unat (rb_elem_size r)) x)) (unat off + 16) (ringbuf_idx r (rb_tail r + 1))) w))"
    and "ringbuf_pop E rg off True w =
      (if rb_head r = rb_tail r then Some ((- 1, None), w)
       else Some ((0, Some (ring_slot (bytes w) r (unat (rb_head r)))),
                  set_bytes (st64 (bytes w) (unat off + 8) (ringbuf_idx r (rb_head r + 1))) w))"
    and "ringbuf_length E rg off w =
      Some (if rb_head r \<le> rb_tail r then rb_tail r - rb_head r else rb_capacity r - rb_head r + rb_tail r, w)"
    and "ringbuf_capacity rg off (bytes w) = rb_capacity r"
    and "ringbuf_is_empty E rg off w = Some (rb_head r = rb_tail r, w)"
    and "ringbuf_is_full E rg off w = Some (ringbuf_idx r (rb_tail r + 1) = rb_head r, w)"
proof -
  note rs = ring_resolves [OF h o, folded r] and d = ring_okD [OF o, folded r]
  note lk = ring_lock_free [where E = E, OF l] ring_unlock_own [where E = E, OF l]
  note df = rs(1,2) lk rs(3) [OF d(4)] rs(3) [OF d(3)] r [symmetric] Let_def
  show "ringbuf_push E rg off (Some x) w =
      (if ringbuf_idx r (rb_tail r + 1) = rb_head r then Some (- 1, w)
       else Some (0, set_bytes (st64 (wr (bytes w) (unat (rb_data_offset r) + unat (rb_tail r) * unat (rb_elem_size r))
               (take (unat (rb_elem_size r)) x)) (unat off + 16) (ringbuf_idx r (rb_tail r + 1))) w))"
    by (simp add: ringbuf_push_def df)
  show "ringbuf_pop E rg off True w =
      (if rb_head r = rb_tail r then Some ((- 1, None), w)
       else Some ((0, Some (ring_slot (bytes w) r (unat (rb_head r)))),
                  set_bytes (st64 (bytes w) (unat off + 8) (ringbuf_idx r (rb_head r + 1))) w))"
    by (simp add: ringbuf_pop_def df ring_slot_def)
  show "ringbuf_length E rg off w =
      Some (if rb_head r \<le> rb_tail r then rb_tail r - rb_head r else rb_capacity r - rb_head r + rb_tail r, w)"
    by (simp add: ringbuf_length_def df)
  show "ringbuf_capacity rg off (bytes w) = rb_capacity r" by (simp add: ringbuf_capacity_def df)
  show "ringbuf_is_empty E rg off w = Some (rb_head r = rb_tail r, w)" by (simp add: ringbuf_is_empty_def df)
  show "ringbuf_is_full E rg off w = Some (ringbuf_idx r (rb_tail r + 1) = rb_head r, w)"
    by (simp add: ringbuf_is_full_def df)
qed

lemma ring_length_word:
  assumes "unat h < unat c" and "unat t < unat (c :: u64)"
  shows "(if h \<le> t then t - h else c - h + t) = of_nat (ring_count (unat h) (unat t) (unat c))"
  using assms by (auto simp: ring_count_def word_le_nat_alt of_nat_diff)

lemma ring_invE:
  assumes "ring_inv rg off w0 w"
  obtains "heap_inv rg (bytes w)" "ring_ok (bytes w) (unat off)" "mtx w (unat off + 40) = MFree"
    "rb_capacity (get_ring (bytes w) (unat off)) = rb_capacity (get_ring (bytes w0) (unat off))"
    "rb_elem_size (get_ring (bytes w) (unat off)) = rb_elem_size (get_ring (bytes w0) (unat off))"
  using assms by (auto simp: ring_inv_def ring_same_def)

lemma ring_inv_step:
  assumes "ring_inv rg off w0 w" and "heap_inv rg m" and "ring_ok m (unat off)" and "ring_same (unat off) (bytes w) m"
  shows "ring_inv rg off w0 (set_bytes m w)"
  using assms ring_same_trans by (fastforce simp: ring_inv_def)

lemma ring_push_refines:
  assumes i: "ring_inv rg off w0 w" and x: "length x = unat (rb_elem_size (get_ring (bytes w0) (unat off)))"
  shows "\<exists>s'. ring_step E rg off (RPush x) w
       = Some (fst (queue_spec (unat (rb_capacity (get_ring (bytes w0) (unat off)))) (RPush x) (ring_queue (bytes w) (unat off))), s') \<and>
     ring_inv rg off w0 s' \<and>
     ring_queue (bytes s') (unat off)
       = snd (queue_spec (unat (rb_capacity (get_ring (bytes w0) (unat off)))) (RPush x) (ring_queue (bytes w) (unat off)))"
proof -
  obtain h: "heap_inv rg (bytes w)" and o: "ring_ok (bytes w) (unat off)" and l: "mtx w (unat off + 40) = MFree"
    and e: "rb_capacity (get_ring (bytes w) (unat off)) = rb_capacity (get_ring (bytes w0) (unat off))"
      "rb_elem_size (get_ring (bytes w) (unat off)) = rb_elem_size (get_ring (bytes w0) (unat off))"
    using ring_invE [OF i] .
  define r where "r = get_ring (bytes w) (unat off)"
  note d = ring_okD [OF o, folded r_def] and rr = ring_run [OF h o l r_def]
  note rc = ring_count_facts(5) [OF d(3,4)] and nx = ring_idx_next [OF d(4)]
  show ?thesis
  proof (cases "ringbuf_idx r (rb_tail r + 1) = rb_head r")
    case True
    then have "\<not> Suc (length (ring_queue (bytes w) (unat off))) < unat (rb_capacity r)"
      using rc nx by (simp add: ring_queue_length r_def)
    then show ?thesis using rr(1) [where E = E and x = x] True i by (simp add: e r_def)
  next
    case False
    then have ne: "unat (ringbuf_idx r (rb_tail r + 1)) \<noteq> unat (rb_head r)" by (simp add: word_eq_iff_unat)
    have "Suc (length (ring_queue (bytes w) (unat off))) < unat (rb_capacity r)"
      using rc nx ne ring_count_facts(1) [OF d(3,4)] by (simp add: ring_queue_length r_def)
    moreover have "length x = unat (rb_elem_size r)" using x by (simp add: e r_def)
    moreover note st = ring_push_state [OF h o r_def \<open>length x = unat (rb_elem_size r)\<close> nx ne refl]
    ultimately show ?thesis
      using rr(1) [where E = E and x = x] False ring_inv_step [OF i st(1,2,4)] st(3) by (simp add: e r_def)
  qed
qed

lemma ring_pop_refines:
  assumes i: "ring_inv rg off w0 w"
  shows "\<exists>s'. ring_step E rg off RPop w = Some (fst (queue_spec c RPop (ring_queue (bytes w) (unat off))), s') \<and>
     ring_inv rg off w0 s' \<and> ring_queue (bytes s') (unat off) = snd (queue_spec c RPop (ring_queue (bytes w) (unat off)))"
proof -
  obtain h: "heap_inv rg (bytes w)" and o: "ring_ok (bytes w) (unat off)" and l: "mtx w (unat off + 40) = MFree"
    using ring_invE [OF i] .
  define r where "r = get_ring (bytes w) (unat off)"
  note d = ring_okD [OF o, folded r_def] and rr = ring_run [OF h o l r_def]
  show ?thesis
  proof (cases "rb_head r = rb_tail r")
    case True
    then have "ring_queue (bytes w) (unat off) = []"
      using ring_count_facts(2) [OF d(3,4)] by (simp add: ring_queue_def Let_def r_def)
    then show ?thesis using rr(2) [where E = E] True i by simp
  next
    case False
    then have ne: "unat (rb_head r) \<noteq> unat (rb_tail r)" by (simp add: word_eq_iff_unat)
    note st = ring_pop_state [OF h o r_def ring_idx_next [OF d(3)] ne refl]
    show ?thesis using rr(2) [where E = E] False ring_inv_step [OF i st(1-3)] st(4) by simp
  qed
qed

lemma ring_query_refines:
  assumes i: "ring_inv rg off w0 w" and q: "x = RLength \<or> x = RCapacity \<or> x = RIsEmpty \<or> x = RIsFull"
  shows "ring_step E rg off x w
       = Some (fst (queue_spec (unat (rb_capacity (get_ring (bytes w0) (unat off)))) x (ring_queue (bytes w) (unat off))), w)"
proof -
  obtain h: "heap_inv rg (bytes w)" and o: "ring_ok (bytes w) (unat off)" and l: "mtx w (unat off + 40) = MFree"
    and e: "rb_capacity (get_ring (bytes w) (unat off)) = rb_capacity (get_ring (bytes w0) (unat off))"
    using ring_invE [OF i] .
  define r where "r = get_ring (bytes w) (unat off)"
  note d = ring_okD [OF o, folded r_def] and rr = ring_run [OF h o l r_def]
  note rc = ring_count_facts [OF d(3,4)] and nx = ring_idx_next [OF d(4)]
  have "(ring_queue (bytes w) (unat off) = []) = (rb_head r = rb_tail r)"
    using rc(2) by (simp add: word_eq_iff_unat ring_queue_def Let_def r_def)
  moreover have "(ringbuf_idx r (rb_tail r + 1) = rb_head r) = (Suc (length (ring_queue (bytes w) (unat off))) = unat (rb_capacity r))"
    using rc(5) nx by (simp add: word_eq_iff_unat ring_queue_length r_def)
  moreover have "(if rb_head r \<le> rb_tail r then rb_tail r - rb_head r else rb_capacity r - rb_head r + rb_tail r)
      = of_nat (length (ring_queue (bytes w) (unat off)))"
    using ring_length_word [OF d(3,4)] by (simp add: ring_queue_length r_def)
  ultimately show "ring_step E rg off x w
       = Some (fst (queue_spec (unat (rb_capacity (get_ring (bytes w0) (unat off)))) x (ring_queue (bytes w) (unat off))), w)"
    using q rr(3,5,6) [where E = E] rr(4) by (auto simp: e [symmetric] r_def [symmetric])
qed

interpretation ring: exact_simulation "ring_inv rg off w0" "\<lambda>w. ring_queue (bytes w) (unat off)"
    "ring_op_ok (unat (rb_elem_size (get_ring (bytes w0) (unat off))))" "ring_step E rg off"
    "queue_spec (unat (rb_capacity (get_ring (bytes w0) (unat off))))"
  for E rg off w0
proof unfold_locales
  fix s x
  assume i: "ring_inv rg off w0 s" and k: "ring_op_ok (unat (rb_elem_size (get_ring (bytes w0) (unat off)))) x"
  show "\<exists>s'. ring_step E rg off x s
       = Some (fst (queue_spec (unat (rb_capacity (get_ring (bytes w0) (unat off)))) x (ring_queue (bytes s) (unat off))), s') \<and>
     ring_inv rg off w0 s' \<and>
     ring_queue (bytes s') (unat off)
       = snd (queue_spec (unat (rb_capacity (get_ring (bytes w0) (unat off)))) x (ring_queue (bytes s) (unat off)))"
  proof (cases x)
    case (RPush a)
    then show ?thesis using ring_push_refines [OF i] k by simp
  next
    case RPop
    then show ?thesis using ring_pop_refines [OF i] by blast
  next
    case RLength
    then show ?thesis using ring_query_refines(1) [OF i, of x] i by simp
  next
    case RCapacity
    then show ?thesis using ring_query_refines(1) [OF i, of x] i by simp
  next
    case RIsEmpty
    then show ?thesis using ring_query_refines(1) [OF i, of x] i by simp
  next
    case RIsFull
    then show ?thesis using ring_query_refines(1) [OF i, of x] i by simp
  qed
qed

text \<open>C5: A ring buffer is a bounded FIFO queue: any sequence of pushes, pops and queries on a buffer
  that satisfies its invariant returns, and returns exactly what a queue of capacity minus one
  elements returns, over any number of wrap-arounds of the indices. The mutex is free after every
  call, and no byte outside the buffer's own header and element storage changes.\<close>

theorem ringbuf_sequence_refines:
  assumes h: "heap_inv rg (bytes w)" and o: "ring_ok (bytes w) (unat off)" and l: "mtx w (unat off + 40) = MFree"
    and k: "list_all (ring_op_ok (unat (rb_elem_size (get_ring (bytes w) (unat off))))) ops"
  shows "\<exists>m'. run_ops (ring_step E rg off) ops w
       = Some (fst (run_spec (queue_spec (unat (rb_capacity (get_ring (bytes w) (unat off))))) ops (ring_queue (bytes w) (unat off))),
               set_bytes m' w) \<and>
     ring_queue m' (unat off)
       = snd (run_spec (queue_spec (unat (rb_capacity (get_ring (bytes w) (unat off))))) ops (ring_queue (bytes w) (unat off))) \<and>
     heap_inv rg m' \<and> ring_ok m' (unat off) \<and> (\<forall>x. x \<notin> ring_bytes (bytes w) (unat off) \<longrightarrow> m' x = bytes w x)"
proof -
  have "ring_inv rg off w w" using h o l unfolding ring_inv_def by (metis ring_same_refl set_bytes_same)
  from ring.run_refines [OF this k] show ?thesis by (fastforce simp: ring_inv_def ring_same_def)
qed

end
