(* ===== verification/RingBufLife.thy ===== *)
theory RingBufLife
  imports RingBufSpec
begin

text \<open>
  Creating and destroying a ring buffer. Creation either establishes the invariant of an empty
  queue on two fresh spans or returns the null handle. Because the ring header overlays the object
  header, \<open>object_store_free\<close> reads the low half of the capacity as the object's size and the lowest
  bit of the head index as its freed flag; the theorems state exactly when the header is released.
\<close>

section \<open>The header as an object\<close>

lemma get_ring_same: "same_on m m' p (p + 40) \<Longrightarrow> get_ring m' p = get_ring m p"
  unfolding get_ring_def by (simp add: ld64_same_on same_on_def)

lemma ring_object_at:
  "object_at m p \<longleftrightarrow>
     (\<exists>n. heap_abs m p = Some n \<and> 16 + unat (rb_capacity (get_ring m p)) mod 4294967296 \<le> n) \<and>
     even (unat (rb_head (get_ring m p)))"
  by (simp add: overlaid_object_at get_ring_def)

section \<open>Creation\<close>

definition ring_header :: "nat \<Rightarrow> u64 \<Rightarrow> u64 \<Rightarrow> mem \<Rightarrow> mem" where
  "ring_header p c e m = st64 (st64 (st64 (st64 (st64 m p c) (p + 8) 0) (p + 16) 0) (p + 24) e) (p + 32) 0"

lemma ring_header_facts:
  "get_ring (ring_header p c e m) p = \<lparr>rb_capacity = c, rb_head = 0, rb_tail = 0, rb_elem_size = e, rb_data_offset = 0\<rparr>"
  "x < p \<or> p + 40 \<le> x \<Longrightarrow> ring_header p c e m x = m x"
  by (simp_all add: ring_header_def get_ring_def) (auto simp: ring_header_def st64_outside)

text \<open>After the header object is granted: the header is written and its mutex initialized.\<close>

lemma ring_create_header:
  assumes h: "heap_inv rg (bytes w)" and r: "ready E w" and ini: "\<forall>a. rc_mutex_init E a = 0"
    and rm: "room 96 (bytes w)"
  obtains p n m1 m5 where
    "object_store_alloc E (Some rg) 1 80 True w = Some ((STATUS_OK, Some (of_nat p)), set_bytes m1 w)"
    "unat (of_nat p :: OffsetPtr) = p" "heap_abs (bytes w) p = None" "heap_abs m1 p = Some n" "96 \<le> n"
    "m5 = ring_header p c e m1" "heap_inv rg m1" "heap_inv rg m5" "heap_abs m5 = heap_abs m1"
    "owner_step {} {p} (bytes w) m5" "\<And>sz. room sz m5 = room sz m1" "pays spare (alloc_cost 96) (bytes w) m5"
    "\<And>s m. locks_kept w (set_mtx (p + 40) s (set_bytes m w))"
    "ringbuf_resolve_header rg (of_nat p) = Some (rg_base rg + of_nat p)"
    "snd (pthread_mutex_init E (p + 40) (set_bytes m5 w)) = set_mtx (p + 40) MFree (set_bytes m5 w)"
    "ready E (set_mtx (p + 40) MFree (set_bytes m5 w))" "2768 \<le> p"
proof -
  have "unat (80 :: u64) \<le> 4294967295" "room (16 + 80) (bytes w)" using rm by simp_all
  then obtain p n m1 where g: "header_grant E rg 80 w p n m1" by (rule header_granted [OF h r])
  note d = header_grantD [OF h r g]
  define m5 where "m5 = ring_header p c e m1"
  have o: "m5 x = m1 x" if "x < p \<or> p + unat (80 :: u64) \<le> x" for x
    using that ring_header_facts(2) by (auto simp: m5_def)
  note s = header_written [OF h g o]
  show thesis
    by (rule that [OF d(1,6,9,3) _ m5_def d(2) s(1-4)])
       (use d(4,8,10) s(5) header_locks_kept [OF h g, of 40] d(11) [of 40] in \<open>simp_all add: ringbuf_resolve_header_def mutex_init_runs [OF ini]\<close>)
qed

text \<open>The bytes after the element buffer is granted: zeroed, and its offset stored in the header.\<close>

lemma ring_create_data:
  assumes h: "heap_inv rg m5" and p: "heap_abs m5 p = Some n" "96 \<le> n" "m5 = ring_header p c e m1"
    and c: "2 \<le> unat c" "0 < unat e" "unat c * unat e \<le> 2 ^ 62" and up: "unat (of_nat p :: OffsetPtr) = p"
    and g: "heap_inv rg m6" "heap_abs m5 d = None" "heap_abs m6 = (heap_abs m5)(d \<mapsto> k)" "unat (c * e) \<le> k"
      "owner_step {} {d} m5 m6" "pays spare (alloc_cost (c * e)) m5 m6"
  defines "m8 \<equiv> st64 (zero m6 d (unat (c * e))) (p + 32) (of_nat d)"
  shows "heap_inv rg m8" and "ring_ok m8 p" and "ring_queue m8 p = []" and "owner_step {p} {p, d} m5 m8"
    and "get_ring m8 p = \<lparr>rb_capacity = c, rb_head = 0, rb_tail = 0, rb_elem_size = e, rb_data_offset = of_nat d\<rparr>"
    and "pays spare (alloc_cost (c * e)) m5 m8"
proof -
  have pd: "p \<noteq> d" using p(1) g(2) by auto
  have p6: "heap_abs m6 p = Some n" and d6: "heap_abs m6 d = Some k" using g(3) p(1) pd by simp_all
  have zo: "zero m6 d (unat (c * e)) x = m6 x" if "x < d \<or> d + k \<le> x" for x
    using that g(4) by (auto intro: zero_outside)
  note z = svc.own_step [OF g(1) d6 zo]
  have p7: "heap_abs (zero m6 d (unat (c * e))) p = Some n" using z(2) p6 by simp
  have so: "m8 x = zero m6 d (unat (c * e)) x" if "x < p \<or> p + n \<le> x" for x
    using that p(2) by (auto simp: m8_def intro: st64_outside)
  note s = svc.own_step [OF z(1) p7 so]
  show "heap_inv rg m8" by (rule s(1))
  show "pays spare (alloc_cost (c * e)) m5 m8" using g(6) z(6) s(6) by (simp add: pays_def)
  have ha: "heap_abs m8 = (heap_abs m5)(d \<mapsto> k)" using s(2) z(2) g(3) by simp
  have "owner_step {p} {p, d} m5 m8"
  proof -
    have "owner_step {p} {p, d} m5 m6" using private_step_widen [OF g(5), of "{p}"] by (simp add: insert_commute)
    moreover have "owner_step {p, d} {p, d} m6 (zero m6 d (unat (c * e)))"
      using private_step_widen [OF z(3), of "{p}"] pd by (simp add: insert_commute)
    moreover have "owner_step {p, d} {p, d} (zero m6 d (unat (c * e))) m8"
      using private_step_widen [OF s(3), of "{d}"] pd by (simp add: insert_commute)
    ultimately show ?thesis using svc.step_trans [OF h] svc.step_trans [OF g(1)] by blast
  qed
  then show "owner_step {p} {p, d} m5 m8" .
  have "same_on m5 m6 p (p + n)" using private_step_live(3) [OF g(5) p(1)] by simp
  moreover have "same_on m6 (zero m6 d (unat (c * e))) p (p + n)"
    using private_step_live(3) [OF z(3) p6] pd by simp
  ultimately have "same_on m5 (zero m6 d (unat (c * e))) p (p + n)" by (rule same_on_trans)
  then have "get_ring (zero m6 d (unat (c * e))) p = get_ring m5 p"
    using same_on_sub [of m5 "zero m6 d (unat (c * e))" p "p + n" p "p + 40"] p(2) by (intro get_ring_same) simp
  then show gr: "get_ring m8 p = \<lparr>rb_capacity = c, rb_head = 0, rb_tail = 0, rb_elem_size = e, rb_data_offset = of_nat d\<rparr>"
    using ring_header_facts(1) [of p c e m1] p(3) by (auto simp: m8_def get_ring_def)
  have ud: "unat (of_nat d :: OffsetPtr) = d" using payload_pointer(1) [OF g(1) d6] .
  have "unat (c * e) = unat c * unat e" using c(3) by (intro unat_mult_nowrap) simp
  then show "ring_ok m8 p" using c g(4) p(1,2) pd by (simp add: ring_ok_def Let_def gr ha ud)
  show "ring_queue m8 p = []" by (simp add: ring_queue_def Let_def gr ring_count_def)
qed

text \<open>What creation leaves behind. On success: an empty queue of the capacity and element size asked
  for, on two fresh spans. On failure: nothing, except that a header object stays allocated when the
  capacity, read as the object's size, does not fit the header's own span.\<close>

definition ring_created :: "ShmRegion \<Rightarrow> u64 \<Rightarrow> u64 \<Rightarrow> mem \<Rightarrow> OffsetPtr \<Rightarrow> mem \<Rightarrow> bool" where
  "ring_created rg c e m off m' \<longleftrightarrow>
     heap_inv rg m' \<and>
     (if off \<noteq> 0 then
        ring_ok m' (unat off) \<and> ring_queue m' (unat off) = [] \<and>
        rb_capacity (get_ring m' (unat off)) = c \<and> rb_elem_size (get_ring m' (unat off)) = e \<and>
        owner_step {} {unat off, unat (rb_data_offset (get_ring m' (unat off)))} m m'
      else \<exists>S. owner_step {} S m m' \<and>
             (S = {} \<or> (\<exists>p n. S = {p} \<and> heap_abs m' p = Some n \<and> n < 16 + unat c mod 4294967296)))"

lemma ring_create_runs:
  assumes h: "heap_inv rg (bytes w)" and r: "ready E w" and ini: "\<forall>a. rc_mutex_init E a = 0"
    and c: "2 \<le> unat c" "0 < unat e" "unat c * unat e \<le> 2 ^ 62"
  obtains off w' where "ringbuf_create E rg c e w = Some (off, w')" "ring_created rg c e (bytes w) off (bytes w')"
    "off \<noteq> 0 \<longleftrightarrow> room 96 (bytes w) \<and>
      (\<exists>obj w1. object_store_alloc E (Some rg) 1 80 True w = Some ((STATUS_OK, obj), w1) \<and> room (c * e) (bytes w1))"
    "ready E w'" "off \<noteq> 0 \<Longrightarrow> w' = set_mtx (unat off + 40) MFree (set_bytes (bytes w') w)"
    "\<And>N. spare (N + alloc_cost 96 + alloc_cost (c * e)) (bytes w) \<Longrightarrow> off \<noteq> 0 \<and> spare N (bytes w')"
    "locks_kept w w'"
proof (cases "room 96 (bytes w)")
  case False
  have "unat (80 :: u64) \<le> 4294967295" "\<not> room (16 + 80) (bytes w)" using False by simp_all
  from object_alloc_steps(2) [OF h r this, of 1] obtain m' where
    a: "object_store_alloc E (Some rg) 1 80 True w = Some ((STATUS_OUT_OF_MEMORY, None), set_bytes m' w)"
      "heap_inv rg m'" "owner_step {} {} (bytes w) m'" by blast
  have "ringbuf_create E rg c e w = Some (0, set_bytes m' w)"
    using a(1) c(1,2) by (auto simp: ringbuf_create_def offset_ptr_null_def word_less_nat_alt)
  moreover have "\<not> spare (N + alloc_cost 96 + alloc_cost (c * e)) (bytes w)" for N
    using refused_after [OF pays_refl False] by simp
  ultimately show ?thesis using that [of 0 "set_bytes m' w"] a False r by (auto simp: ring_created_def)
next
  case rm: True
  obtain p n m1 m5 where
    a: "object_store_alloc E (Some rg) 1 80 True w = Some ((STATUS_OK, Some (of_nat p)), set_bytes m1 w)"
    and p: "unat (of_nat p :: OffsetPtr) = p" "heap_abs (bytes w) p = None" "heap_abs m1 p = Some n" "96 \<le> n"
    and m5: "m5 = ring_header p c e m1" "heap_inv rg m1" "heap_inv rg m5" "heap_abs m5 = heap_abs m1"
      "owner_step {} {p} (bytes w) m5" "\<And>sz. room sz m5 = room sz m1" "pays spare (alloc_cost 96) (bytes w) m5"
    and lk: "\<And>s m. locks_kept w (set_mtx (p + 40) s (set_bytes m w))"
    and rs: "ringbuf_resolve_header rg (of_nat p) = Some (rg_base rg + of_nat p)"
    and mi: "snd (pthread_mutex_init E (p + 40) (set_bytes m5 w)) = set_mtx (p + 40) MFree (set_bytes m5 w)"
    and rd: "ready E (set_mtx (p + 40) MFree (set_bytes m5 w))" and pb: "2768 \<le> p"
    using ring_create_header [OF h r ini rm, of c e] by metis
  have p5: "heap_abs m5 p = Some n" using p(3) m5(4) by simp
  have p0: "(of_nat p :: OffsetPtr) \<noteq> 0" using p(1) pb by auto
  have "unat (c * e) = unat c * unat e" using c(3) by (intro unat_mult_nowrap) simp
  then have vr: "valid_request (c * e) 16" using c by (auto simp: valid_request_def intro: exI [of _ 4])
  have start: "\<not> c < 2" "e \<noteq> 0" using c by (auto simp: word_less_nat_alt)
  have hdr: "st64 (st64 (st64 (st64 (st64 m1 p c) (p + 8) 0) (p + 16) 0) (p + 24) e) (p + 32) 0 = m5"
    by (simp add: m5(1) ring_header_def)
  note run = ringbuf_create_def start a rs hdr mi offset_ptr_null_def Let_def p(1)
  let ?w2 = "set_mtx (p + 40) MFree (set_bytes m5 w)"
  have h2: "heap_inv rg (bytes ?w2)" using m5(3) by simp
  show ?thesis
  proof (cases "room (c * e) m1")
    case True
    then have "room (c * e) (bytes ?w2)" using m5(6) by simp
    from svc.alloc_grants [OF h2 rd vr this] obtain d k m6 where
      g: "allocator_alloc E (Some rg) (c * e) 16 True ?w2 = Some ((STATUS_OK, Some (rg_base rg + of_nat d)), set_bytes m6 ?w2)"
      and m6: "heap_inv rg m6" "heap_abs m5 d = None" "heap_abs m6 = (heap_abs m5)(d \<mapsto> k)" "unat (c * e) \<le> k"
        "owner_step {} {d} m5 m6" "pays spare (alloc_cost (c * e)) m5 m6" by auto
    have l: "heap_abs m6 d = Some k" using m6(3) by simp
    have ud: "unat (of_nat d :: OffsetPtr) = d" using payload_pointer(1) [OF m6(1) l] .
    define m8 where "m8 = st64 (zero m6 d (unat (c * e))) (p + 32) (of_nat d)"
    note f = ring_create_data [OF m5(3) p5 p(4) m5(1) c p(1) m6, folded m8_def]
    have "ringbuf_create E rg c e w = Some (of_nat p, set_mtx (p + 40) MFree (set_bytes m8 w))"
      using g from_raw_payload [OF m6(1) l] ud by (simp add: run m8_def)
    moreover have "owner_step {} {p, d} (bytes w) m8" using svc.step_trans [OF h m5(5) f(4)] .
    moreover have "spare N m8" if "spare (N + alloc_cost 96 + alloc_cost (c * e)) (bytes w)" for N
      using paysD [OF pays_trans [OF m5(7) f(6)]] that by (simp add: add.assoc)
    ultimately show ?thesis
      using that [of "of_nat p" "set_mtx (p + 40) MFree (set_bytes m8 w)"] f(1-3,5) p0 p(1) ud rm a True pb r lk
      by (simp add: ring_created_def ready_set_mtx)
  next
    case False
    then have "\<not> room (c * e) (bytes ?w2)" using m5(6) by simp
    from svc.alloc_refuses [OF h2 rd vr this] obtain m6 where
      g: "allocator_alloc E (Some rg) (c * e) 16 True ?w2 = Some ((STATUS_OUT_OF_MEMORY, None), set_bytes m6 ?w2)"
      and m6: "heap_inv rg m6" "heap_abs m6 = heap_abs m5" "owner_step {} {} m5 m6" by auto
    define w3 where "w3 = set_mtx (p + 40) MUninit (set_bytes m6 w)"
    have w3: "heap_inv rg (bytes w3)" "ready E w3" "bytes w3 = m6" using m6(1) r pb by (simp_all add: w3_def ready_set_mtx)
    have p6: "heap_abs m6 p = Some n" using p5 m6(2) by simp
    have st: "owner_step {} {p} (bytes w) m6"
      using svc.step_trans [OF h m5(5)] private_step_widen [OF m6(3), of "{p}"] by simp
    have "same_on m5 m6 p (p + 40)" using private_step_live(3) [OF m6(3) p5] p(4) by (auto intro: same_on_sub)
    then have gr: "get_ring m6 p = \<lparr>rb_capacity = c, rb_head = 0, rb_tail = 0, rb_elem_size = e, rb_data_offset = 0\<rparr>"
      using get_ring_same ring_header_facts(1) m5(1) by simp
    have few: "\<not> spare (N + alloc_cost 96 + alloc_cost (c * e)) (bytes w)" for N
      using refused_after [OF m5(7), of "c * e"] False m5(6) by simp
    have none: "\<not> (\<exists>obj w1. object_store_alloc E (Some rg) 1 80 True w = Some ((STATUS_OK, obj), w1) \<and> room (c * e) (bytes w1))"
      using a False by simp
    show ?thesis
    proof (cases "object_at m6 p")
      case True
      then have "object_at (bytes w3) (unat (of_nat p :: OffsetPtr))" using w3 p(1) by simp
      from object_free_steps(1) [OF w3(1,2) p0 this] obtain m7 where
        f: "object_store_free E (Some rg) (of_nat p) w3 = Some (STATUS_OK, set_bytes m7 w3)" "heap_inv rg m7"
          "owner_step {p} {} m6 m7" using w3 p(1) by auto
      have "ringbuf_create E rg c e w = Some (0, set_bytes m7 w3)"
        using g f(1) by (simp add: run pthread_mutex_destroy_def w3_def)
      then show ?thesis using that [of 0 "set_bytes m7 w3"] f(2) svc.step_trans [OF h st f(3)] none few w3(2) lk [of MUninit m7]
        by (auto simp: ring_created_def w3_def)
    next
      case no: False
      then have "object_store_free E (Some rg) (of_nat p) w3 = Some (STATUS_NOT_FOUND, w3)"
        using object_free_steps(2) [OF w3(1,2) p0] w3(3) p(1) by simp
      then have "ringbuf_create E rg c e w = Some (0, w3)" using g by (simp add: run pthread_mutex_destroy_def w3_def)
      moreover have "n < 16 + unat c mod 4294967296" using no p6 by (simp add: ring_object_at gr)
      ultimately show ?thesis using that [of 0 w3] m6(1) st none few w3 p6 lk [of MUninit m6, folded w3_def] by (auto simp: ring_created_def)
    qed
  qed
qed

text \<open>C34: \<open>ringbuf_create\<close> with a valid capacity and element size succeeds exactly when the allocator has
  room for the header object and then for the elements. On success the handle names an empty queue
  that satisfies the invariant, on two fresh spans, with its mutex initialized; on failure it
  returns the null handle and leaves no span behind, except the header object in the one case that
  the capacity, which overlays the object's size, exceeds the header's span.\<close>

theorem ringbuf_create_establishes:
  assumes h: "heap_inv rg (bytes w)" and r: "ready E w" and ini: "\<forall>a. rc_mutex_init E a = 0"
    and c: "2 \<le> unat c" "0 < unat e" "unat c * unat e \<le> 2 ^ 62"
  shows "\<exists>off w'. ringbuf_create E rg c e w = Some (off, w') \<and> ring_created rg c e (bytes w) off (bytes w') \<and>
     (off \<noteq> 0 \<longleftrightarrow> room 96 (bytes w) \<and>
      (\<exists>obj w1. object_store_alloc E (Some rg) 1 80 True w = Some ((STATUS_OK, obj), w1) \<and> room (c * e) (bytes w1))) \<and>
     ready E w' \<and> (off \<noteq> 0 \<longrightarrow> w' = set_mtx (unat off + 40) MFree (set_bytes (bytes w') w))"
proof (rule ring_create_runs [OF assms])
qed blast

section \<open>Destruction\<close>

text \<open>Whether the header object is released: the overlaid size fits the span and the overlaid freed
  flag is clear.\<close>

definition ring_header_released :: "mem \<Rightarrow> nat \<Rightarrow> bool" where
  "ring_header_released m p \<longleftrightarrow>
     (\<exists>n. heap_abs m p = Some n \<and> 16 + unat (rb_capacity (get_ring m p)) mod 4294967296 \<le> n) \<and>
     even (unat (rb_head (get_ring m p)))"

lemma ringbuf_destroy_runs:
  assumes h: "heap_inv rg (bytes w)" and r: "ready E w" and o: "ring_ok (bytes w) (unat off)"
    and l: "mtx w (unat off + 40) = MFree"
  defines "d \<equiv> unat (rb_data_offset (get_ring (bytes w) (unat off)))"
  shows "\<exists>m'. ringbuf_destroy E rg off w = Some ((), set_mtx (unat off + 40) MUninit (set_bytes m' w)) \<and>
     heap_inv rg m' \<and> heap_abs m' d = None \<and>
     owner_step {unat off, d} (if ring_header_released (bytes w) (unat off) then {} else {unat off}) (bytes w) m' \<and>
     (heap_abs m' (unat off) = None \<longleftrightarrow> ring_header_released (bytes w) (unat off)) \<and>
     pays spare 0 (bytes w) m'"
proof -
  let ?p = "unat off" and ?m = "bytes w"
  obtain n k where n: "heap_abs ?m ?p = Some n" "80 \<le> n" and k: "heap_abs ?m d = Some k"
    using ring_okE [OF o] unfolding d_def by metis
  have pd: "d \<noteq> ?p" using ring_okD(5) [OF o] by (simp add: d_def)
  have b: "2768 \<le> ?p" using heap_abs_bounds(1) [OF h n(1)] .
  have nz: "off \<noteq> 0" "rb_data_offset (get_ring ?m ?p) \<noteq> 0"
    using span_resolves(2) [OF h n(1), of 0] span_resolves(2) [OF h k [unfolded d_def], of 0] by simp_all
  note rs = ring_resolves(1,2) [OF h o]
  have rdy: "ready E (holding E (?p + 40) w)" using r b by (simp add: ready_set_mtx)
  have hh: "heap_inv rg (bytes (holding E (?p + 40) w))" "heap_abs (bytes (holding E (?p + 40) w)) d = Some k"
    using h k by simp_all
  from svc.release_law [OF hh(1) rdy hh(2)] obtain m1 where
    f: "allocator_free E (Some rg) (rg_base rg + rb_data_offset (get_ring ?m ?p)) (holding E (?p + 40) w)
        = Some (STATUS_OK, set_bytes m1 (holding E (?p + 40) w))"
    and m1: "heap_inv rg m1" "heap_abs m1 = (heap_abs ?m)(d := None)" "owner_step {d} {} ?m m1" "pays spare 0 ?m m1"
    by (auto simp: d_def)
  define w3 where "w3 = set_mtx (?p + 40) MUninit (set_bytes m1 w)"
  have w3: "heap_inv rg (bytes w3)" "ready E w3" "bytes w3 = m1" using m1(1) r b by (simp_all add: w3_def ready_set_mtx)
  have run: "ringbuf_destroy E rg off w = map_option (\<lambda>(_, w4). ((), w4)) (object_store_free E (Some rg) off w3)"
    using f nz l ring_unlock_own(1) [OF l, where E = E]
    by (cases "object_store_free E (Some rg) off w3")
       (auto simp: ringbuf_destroy_def rs ring_lock_free [OF l] Let_def w3_def pthread_mutex_destroy_def)
  have p1: "heap_abs m1 ?p = Some n" using m1(2) n(1) pd by simp
  have st: "owner_step {?p, d} {?p} ?m m1"
    using private_step_widen [OF m1(3), of "{?p}"] pd by (simp add: insert_commute)
  have "same_on ?m m1 ?p (?p + n)" using private_step_live(3) [OF m1(3) n(1)] pd by simp
  then have "get_ring m1 ?p = get_ring ?m ?p" using n(2) by (intro get_ring_same) (auto intro: same_on_sub)
  then have rel: "object_at m1 ?p \<longleftrightarrow> ring_header_released ?m ?p"
    using p1 n(1) by (simp add: ring_object_at ring_header_released_def)
  show ?thesis
  proof (cases "ring_header_released ?m ?p")
    case True
    then have "object_at (bytes w3) (unat off)" using rel w3 by simp
    from object_free_steps(1) [OF w3(1,2) nz(1) this] obtain m2 where
      f2: "object_store_free E (Some rg) off w3 = Some (STATUS_OK, set_bytes m2 w3)"
      and m2: "heap_inv rg m2" "heap_abs m2 = (heap_abs m1)(?p := None)" "owner_step {?p} {} m1 m2"
        "pays spare 0 m1 m2"
      using w3 by auto
    have "ringbuf_destroy E rg off w = Some ((), set_mtx (?p + 40) MUninit (set_bytes m2 w))"
      using run f2 by (simp add: w3_def)
    then show ?thesis using True m2(1,2) m1(2) svc.step_trans [OF h st m2(3)] pays_trans [OF m1(4) m2(4)] by auto
  next
    case False
    then have "object_store_free E (Some rg) off w3 = Some (STATUS_NOT_FOUND, w3)"
      using rel w3 object_free_steps(2) [OF w3(1,2) nz(1)] by simp
    then have "ringbuf_destroy E rg off w = Some ((), set_mtx (?p + 40) MUninit (set_bytes m1 w))"
      using run by (simp add: w3_def)
    then show ?thesis using False m1(1,2,4) p1 st by auto
  qed
qed

text \<open>C35: \<open>ringbuf_destroy\<close> on a buffer that satisfies the invariant returns, releases the element
  storage, uninitializes the mutex and touches no other span. The header object is released exactly
  when the head index is even and the low half of the capacity, read as the object's size, fits the
  header's span; otherwise it leaks.\<close>

theorem ringbuf_destroy_releases:
  assumes h: "heap_inv rg (bytes w)" and r: "ready E w" and o: "ring_ok (bytes w) (unat off)"
    and l: "mtx w (unat off + 40) = MFree"
  defines "d \<equiv> unat (rb_data_offset (get_ring (bytes w) (unat off)))"
  shows "\<exists>m'. ringbuf_destroy E rg off w = Some ((), set_mtx (unat off + 40) MUninit (set_bytes m' w)) \<and>
     heap_inv rg m' \<and> heap_abs m' d = None \<and>
     owner_step {unat off, d} (if ring_header_released (bytes w) (unat off) then {} else {unat off}) (bytes w) m' \<and>
     (heap_abs m' (unat off) = None \<longleftrightarrow> ring_header_released (bytes w) (unat off))"
  using ringbuf_destroy_runs [OF h r o l] unfolding d_def by (elim exE conjE) (intro exI conjI; assumption)

section \<open>Witnesses\<close>

lemma demo_init_rc: "\<forall>a. rc_mutex_init demo_env a = 0"
  by (simp add: demo_env_def)

text \<open>A buffer of four 8-byte slots, created on the concrete heap.\<close>

lemma demo_ring:
  obtains w :: world and off where "ringbuf_create demo_env demo_region 4 8 demo_world = Some (off, w)" "off \<noteq> 0"
    "heap_inv demo_region (bytes w)" "ready demo_env w" "ring_ok (bytes w) (unat off)" "ring_queue (bytes w) (unat off) = []"
    "rb_capacity (get_ring (bytes w) (unat off)) = 4" "rb_elem_size (get_ring (bytes w) (unat off)) = 8"
    "mtx w (unat off + 40) = MFree" "spare 980 (bytes w)"
proof -
  have c: "2 \<le> unat (4 :: u64)" "0 < unat (8 :: u64)" "unat (4 :: u64) * unat (8 :: u64) \<le> 2 ^ 62" by simp_all
  show thesis
  proof (rule ring_create_runs [OF demo_facts(2,4) demo_init_rc c])
    fix off w' assume r: "ringbuf_create demo_env demo_region 4 8 demo_world = Some (off, w')"
      "ring_created demo_region 4 8 (bytes demo_world) off (bytes w')"
      "ready demo_env w'" "off \<noteq> 0 \<Longrightarrow> w' = set_mtx (unat off + 40) MFree (set_bytes (bytes w') demo_world)"
      and f: "\<And>N. spare (N + alloc_cost 96 + alloc_cost (4 * 8)) (bytes demo_world) \<Longrightarrow> off \<noteq> 0 \<and> spare N (bytes w')"
    have nz: "off \<noteq> 0" "spare 980 (bytes w')" using f [of 980] demo_spare by (simp_all add: cost_simps)
    then have "mtx w' (unat off + 40) = MFree" using arg_cong [OF r(4) [OF nz(1)], of mtx] by (simp add: fun_eq_iff)
    with that [OF r(1) nz(1)] r(2,3) nz show thesis by (simp add: ring_created_def)
  qed
qed

theorem ringbuf_create_establishes_witness:
  "\<exists>off w'. ringbuf_create demo_env demo_region 4 8 demo_world = Some (off, w') \<and>
     ring_created demo_region 4 8 (bytes demo_world) off (bytes w')"
proof -
  have c: "2 \<le> unat (4 :: u64)" "0 < unat (8 :: u64)" "unat (4 :: u64) * unat (8 :: u64) \<le> 2 ^ 62" by simp_all
  from ringbuf_create_establishes [OF demo_facts(2,4) demo_init_rc c] show ?thesis by blast
qed

theorem ringbuf_destroy_releases_witness:
  "\<exists>w off m'. ringbuf_destroy demo_env demo_region off w = Some ((), set_mtx (unat off + 40) MUninit (set_bytes m' w)) \<and>
     heap_abs m' (unat (rb_data_offset (get_ring (bytes w) (unat off)))) = None"
proof (rule demo_ring)
  fix w :: world and off :: OffsetPtr assume d: "heap_inv demo_region (bytes w)" "ready demo_env w" "ring_ok (bytes w) (unat off)"
    "mtx w (unat off + 40) = MFree"
  from ringbuf_destroy_releases [OF d] show ?thesis by blast
qed

theorem ringbuf_sequence_refines_witness:
  "\<exists>w off w'. run_ops (ring_step demo_env demo_region off)
      [RPush [1,2,3,4,5,6,7,8], RPush [9,9,9,9,9,9,9,9], RLength, RPop, RIsEmpty, RPop, RPop] w
    = Some ([RCode 0, RCode 0, RCount 2, RPopped 0 (Some [1,2,3,4,5,6,7,8]), RBool False,
             RPopped 0 (Some [9,9,9,9,9,9,9,9]), RPopped (- 1) None], w')"
proof (rule demo_ring)
  fix w :: world and off :: OffsetPtr assume d: "heap_inv demo_region (bytes w)" "ring_ok (bytes w) (unat off)" "mtx w (unat off + 40) = MFree"
    and q: "ring_queue (bytes w) (unat off) = []" and c: "rb_capacity (get_ring (bytes w) (unat off)) = 4"
      "rb_elem_size (get_ring (bytes w) (unat off)) = 8"
  let ?ops = "[RPush [1,2,3,4,5,6,7,8], RPush [9,9,9,9,9,9,9,9], RLength, RPop, RIsEmpty, RPop, RPop]"
  have "list_all (ring_op_ok (unat (rb_elem_size (get_ring (bytes w) (unat off))))) ?ops" by (simp add: c)
  from ringbuf_sequence_refines [OF d this, of demo_env] show ?thesis by (auto simp: c q)
qed

end
