(* ===== verification/DynArray.thy ===== *)
theory DynArray
  imports Container
begin

text \<open>
  The dynamic array of src/containers/dynarray.c, definition by definition. As for the ring buffer
  the region pointer is dereferenced without a check and is a descriptor here, an element argument
  is the bytes at the pointer (\<open>None\<close> for a null pointer), of which \<open>elem_size\<close> are copied, and an
  out parameter is a result. The header fields are read again from the bytes wherever the code reads
  them through its header pointer after another write.
\<close>

section \<open>Layout\<close>

definition DA_capacity :: nat where "DA_capacity = 0"
definition DA_length :: nat where "DA_length = 8"
definition DA_elem_size :: nat where "DA_elem_size = 16"
definition DA_data_offset :: nat where "DA_data_offset = 24"
definition DA_lock :: nat where "DA_lock = 32"
definition SIZEOF_DynArrayHeader :: u64 where "SIZEOF_DynArrayHeader = 72"

lemmas dynarray_layout [layout, simp] =
  DA_capacity_def DA_length_def DA_elem_size_def DA_data_offset_def DA_lock_def SIZEOF_DynArrayHeader_def

record DynArrayHeader =
  da_capacity :: u64
  da_length :: u64
  da_elem_size :: u64
  da_data_offset :: OffsetPtr

definition get_dynarray :: "mem \<Rightarrow> nat \<Rightarrow> DynArrayHeader" where
  "get_dynarray m h =
     \<lparr>da_capacity = ld64 m (h + DA_capacity), da_length = ld64 m (h + DA_length),
      da_elem_size = ld64 m (h + DA_elem_size), da_data_offset = ld64 m (h + DA_data_offset)\<rparr>"

section \<open>Helpers\<close>

definition dynarray_resolve_header :: "ShmRegion \<Rightarrow> OffsetPtr \<Rightarrow> u64 option" where
  "dynarray_resolve_header rg arr_offset =
     offset_ptr_try_resolve (rg_base rg) (rg_size rg) arr_offset SIZEOF_DynArrayHeader True"

definition dynarray_lock :: "env \<Rightarrow> nat \<Rightarrow> world \<Rightarrow> world option" where
  "dynarray_lock E h w = container_lock E (h + DA_lock) w"

definition dynarray_unlock :: "env \<Rightarrow> nat \<Rightarrow> world \<Rightarrow> world" where
  "dynarray_unlock E h w = container_unlock E (h + DA_lock) w"

text \<open>The first \<open>count\<close> elements of the element buffer, as the operations resolve them.\<close>

definition dynarray_data :: "ShmRegion \<Rightarrow> DynArrayHeader \<Rightarrow> u64 \<Rightarrow> u64 option" where
  "dynarray_data rg hdr count =
     offset_ptr_try_resolve (rg_base rg) (rg_size rg) (da_data_offset hdr) (count * da_elem_size hdr) True"

section \<open>Creation and destruction\<close>

definition dynarray_create :: "env \<Rightarrow> ShmRegion \<Rightarrow> u64 \<Rightarrow> world \<Rightarrow> OffsetPtr result" where
  "dynarray_create E rg elem_size w =
     (if elem_size = 0 then Some (offset_ptr_null, w)
      else do {
        ((status, obj), w1) \<leftarrow> object_store_alloc E (Some rg) 1 SIZEOF_DynArrayHeader True w;
        if status \<noteq> STATUS_OK then Some (offset_ptr_null, w1)
        else
          let hdr_ptr = the obj in
          case dynarray_resolve_header rg hdr_ptr of
            None \<Rightarrow> Some (offset_ptr_null, w1)
          | Some hdr \<Rightarrow>
              let h = roff rg hdr;
                  m1 = st64 (bytes w1) (h + DA_capacity) 0;
                  m2 = st64 m1 (h + DA_length) 0;
                  m3 = st64 m2 (h + DA_elem_size) elem_size;
                  m4 = st64 m3 (h + DA_data_offset) offset_ptr_null
              in Some (hdr_ptr, snd (pthread_mutex_init E (h + DA_lock) (set_bytes m4 w1)))
      })"

definition dynarray_destroy :: "env \<Rightarrow> ShmRegion \<Rightarrow> OffsetPtr \<Rightarrow> world \<Rightarrow> unit result" where
  "dynarray_destroy E rg arr_offset w =
     (case dynarray_resolve_header rg arr_offset of
        None \<Rightarrow> Some ((), w)
      | Some hp \<Rightarrow>
          let h = roff rg hp in do {
            w1 \<leftarrow> dynarray_lock E h w;
            let hdr = get_dynarray (bytes w1) h;
            w2 \<leftarrow> (if \<not> offset_ptr_is_null (da_data_offset hdr) then
                     (case dynarray_data rg hdr (da_capacity hdr) of
                        None \<Rightarrow> Some w1
                      | Some payload \<Rightarrow> map_option snd (allocator_free E (Some rg) payload w1))
                   else Some w1);
            let w3 = pthread_mutex_destroy (h + DA_lock) (dynarray_unlock E h w2);
            (_, w4) \<leftarrow> object_store_free E (Some rg) arr_offset w3;
            Some ((), w4)
          })"

section \<open>Growing\<close>

text \<open>The copy of the old elements into the new buffer, and the release of the old buffer.\<close>

definition dynarray_grow_copy :: "ShmRegion \<Rightarrow> nat \<Rightarrow> u64 \<Rightarrow> world \<Rightarrow> world" where
  "dynarray_grow_copy rg h new_buf w =
     (let hdr = get_dynarray (bytes w) h in
      if 0 < da_length hdr \<and> \<not> offset_ptr_is_null (da_data_offset hdr) then
        (case dynarray_data rg hdr (da_length hdr) of
           None \<Rightarrow> w
         | Some old_buf \<Rightarrow>
             set_bytes (wr (bytes w) (roff rg new_buf)
               (rd (bytes w) (roff rg old_buf) (unat (da_length hdr * da_elem_size hdr)))) w)
      else w)"

definition dynarray_grow_free :: "env \<Rightarrow> ShmRegion \<Rightarrow> nat \<Rightarrow> world \<Rightarrow> world option" where
  "dynarray_grow_free E rg h w =
     (let hdr = get_dynarray (bytes w) h in
      if \<not> offset_ptr_is_null (da_data_offset hdr) then
        (case dynarray_data rg hdr (da_capacity hdr) of
           None \<Rightarrow> Some w
         | Some old_buf \<Rightarrow> map_option snd (allocator_free E (Some rg) old_buf w))
      else Some w)"

definition dynarray_grow :: "env \<Rightarrow> ShmRegion \<Rightarrow> nat \<Rightarrow> u64 \<Rightarrow> world \<Rightarrow> int result" where
  "dynarray_grow E rg h new_cap w =
     (let new_size = new_cap * da_elem_size (get_dynarray (bytes w) h) in
      do {
        ((status, buf), w1) \<leftarrow> allocator_alloc E (Some rg) new_size 16 True w;
        if status \<noteq> STATUS_OK then Some (- 1, w1)
        else
          let new_buf = the buf in do {
            w2 \<leftarrow> dynarray_grow_free E rg h (dynarray_grow_copy rg h new_buf w1);
            case offset_ptr_try_from_raw (rg_base rg) (rg_size rg) new_buf True of
              None \<Rightarrow> do {
                (_, w3) \<leftarrow> allocator_free E (Some rg) new_buf w2;
                Some (- 1, w3)
              }
            | Some new_offset \<Rightarrow>
                let m1 = st64 (bytes w2) (h + DA_data_offset) new_offset;
                    m2 = st64 m1 (h + DA_capacity) new_cap
                in Some (0, set_bytes m2 w2)
          }
      })"

definition dynarray_reserve :: "env \<Rightarrow> ShmRegion \<Rightarrow> OffsetPtr \<Rightarrow> u64 \<Rightarrow> world \<Rightarrow> int result" where
  "dynarray_reserve E rg arr_offset new_cap w =
     (case dynarray_resolve_header rg arr_offset of
        None \<Rightarrow> Some (- 1, w)
      | Some hp \<Rightarrow>
          let h = roff rg hp in do {
            w1 \<leftarrow> dynarray_lock E h w;
            if new_cap \<le> da_capacity (get_dynarray (bytes w1) h) then Some (0, dynarray_unlock E h w1)
            else do {
              (res, w2) \<leftarrow> dynarray_grow E rg h new_cap w1;
              Some (res, dynarray_unlock E h w2)
            }
          })"

section \<open>Element access\<close>

definition dynarray_push :: "env \<Rightarrow> ShmRegion \<Rightarrow> OffsetPtr \<Rightarrow> u8 list option \<Rightarrow> world \<Rightarrow> int result" where
  "dynarray_push E rg arr_offset elem w =
     (if elem = None then Some (- 1, w)
      else case dynarray_resolve_header rg arr_offset of
        None \<Rightarrow> Some (- 1, w)
      | Some hp \<Rightarrow>
          let h = roff rg hp in do {
            w1 \<leftarrow> dynarray_lock E h w;
            let hdr = get_dynarray (bytes w1) h;
            (rc, w2) \<leftarrow> (if da_length hdr = da_capacity hdr then
                          (let new_cap = (if da_capacity hdr \<noteq> 0 then da_capacity hdr * 2 else 4)
                           in dynarray_grow E rg h new_cap w1)
                        else Some (0, w1));
            if rc \<noteq> 0 then Some (- 1, dynarray_unlock E h w2)
            else
              let hdr2 = get_dynarray (bytes w2) h in
              case dynarray_data rg hdr2 (da_length hdr2 + 1) of
                None \<Rightarrow> Some (- 1, dynarray_unlock E h w2)
              | Some buf \<Rightarrow>
                  let m1 = wr (bytes w2) (roff rg (buf + da_length hdr2 * da_elem_size hdr2))
                             (take (unat (da_elem_size hdr2)) (the elem));
                      m2 = st64 m1 (h + DA_length) (ld64 m1 (h + DA_length) + 1)
                  in Some (0, dynarray_unlock E h (set_bytes m2 w2))
          })"

definition dynarray_get ::
    "env \<Rightarrow> ShmRegion \<Rightarrow> OffsetPtr \<Rightarrow> u64 \<Rightarrow> bool \<Rightarrow> world \<Rightarrow> (int \<times> u8 list option) result" where
  "dynarray_get E rg arr_offset index out_nonnull w =
     (if \<not> out_nonnull then Some ((- 1, None), w)
      else case dynarray_resolve_header rg arr_offset of
        None \<Rightarrow> Some ((- 1, None), w)
      | Some hp \<Rightarrow>
          let h = roff rg hp in do {
            w1 \<leftarrow> dynarray_lock E h w;
            let hdr = get_dynarray (bytes w1) h;
            if da_length hdr \<le> index then Some ((- 1, None), dynarray_unlock E h w1)
            else case dynarray_data rg hdr (da_length hdr) of
              None \<Rightarrow> Some ((- 1, None), dynarray_unlock E h w1)
            | Some buf \<Rightarrow>
                let out = rd (bytes w1) (roff rg (buf + index * da_elem_size hdr)) (unat (da_elem_size hdr))
                in Some ((0, Some out), dynarray_unlock E h w1)
          })"

definition dynarray_length :: "env \<Rightarrow> ShmRegion \<Rightarrow> OffsetPtr \<Rightarrow> world \<Rightarrow> u64 result" where
  "dynarray_length E rg arr_offset w =
     (case dynarray_resolve_header rg arr_offset of
        None \<Rightarrow> Some (0, w)
      | Some hp \<Rightarrow>
          let h = roff rg hp in do {
            w1 \<leftarrow> dynarray_lock E h w;
            Some (da_length (get_dynarray (bytes w1) h), dynarray_unlock E h w1)
          })"

end
