(* ===== verification/DynArraySpec.thy ===== *)
theory DynArraySpec
  imports DynArray
begin

text \<open>
  The dynamic array implements a list of byte strings with a capacity. \<open>dyn_ok\<close> is the invariant of
  an array in the heap: the header and, once something was pushed or reserved, the element buffer
  are two live allocations. \<open>dyn_list\<close> reads the list off the bytes. Growing moves the elements to a
  fresh allocation and releases the old one; no span of another owner changes.
\<close>

section \<open>Invariant and abstraction\<close>

definition dyn_ok :: "mem \<Rightarrow> nat \<Rightarrow> bool" where
  "dyn_ok m p \<longleftrightarrow>
     (let a = get_dynarray m p; d = unat (da_data_offset a) in
      (\<exists>n. heap_abs m p = Some n \<and> 72 \<le> n) \<and> 0 < unat (da_elem_size a) \<and>
      unat (da_length a) \<le> unat (da_capacity a) \<and>
      (if da_data_offset a = 0 then da_capacity a = 0
       else da_capacity a \<noteq> 0 \<and> d \<noteq> p \<and>
            (\<exists>k. heap_abs m d = Some k \<and> unat (da_capacity a) * unat (da_elem_size a) \<le> k)))"

definition dyn_list :: "mem \<Rightarrow> nat \<Rightarrow> u8 list list" where
  "dyn_list m p =
     (let a = get_dynarray m p in elements m (unat (da_data_offset a)) (unat (da_elem_size a)) (unat (da_length a)))"

definition dyn_buffer :: "mem \<Rightarrow> nat \<Rightarrow> nat set" where
  "dyn_buffer m p =
     (let a = get_dynarray m p in if da_data_offset a = 0 then {} else {unat (da_data_offset a)})"

text \<open>The spans an array owns.\<close>

definition dyn_spans :: "mem \<Rightarrow> nat \<Rightarrow> nat set" where
  "dyn_spans m p = insert p (dyn_buffer m p)"

lemma dyn_okE:
  assumes "dyn_ok m p"
  obtains n where "heap_abs m p = Some n" "72 \<le> n" "0 < unat (da_elem_size (get_dynarray m p))"
    "unat (da_length (get_dynarray m p)) \<le> unat (da_capacity (get_dynarray m p))" "p \<notin> dyn_buffer m p"
  using assms by (auto simp: dyn_ok_def Let_def dyn_buffer_def split: if_splits)

lemma dyn_ok_buffer:
  assumes "dyn_ok m p" and "da_capacity (get_dynarray m p) \<noteq> 0 \<or> da_data_offset (get_dynarray m p) \<noteq> 0"
  obtains k where "heap_abs m (unat (da_data_offset (get_dynarray m p))) = Some k"
    "unat (da_capacity (get_dynarray m p)) * unat (da_elem_size (get_dynarray m p)) \<le> k"
    "da_capacity (get_dynarray m p) \<noteq> 0" "da_data_offset (get_dynarray m p) \<noteq> 0"
    "dyn_buffer m p = {unat (da_data_offset (get_dynarray m p))}" "unat (da_data_offset (get_dynarray m p)) \<noteq> p"
proof -
  have "da_capacity (get_dynarray m p) = 0" if "da_data_offset (get_dynarray m p) = 0"
    using assms(1) that by (simp add: dyn_ok_def Let_def)
  with assms(2) have nz: "da_data_offset (get_dynarray m p) \<noteq> 0" by blast
  then obtain k where "heap_abs m (unat (da_data_offset (get_dynarray m p))) = Some k"
    "unat (da_capacity (get_dynarray m p)) * unat (da_elem_size (get_dynarray m p)) \<le> k"
    using assms(1) by (auto simp: dyn_ok_def Let_def)
  moreover have "da_capacity (get_dynarray m p) \<noteq> 0" "unat (da_data_offset (get_dynarray m p)) \<noteq> p"
    using assms(1) nz by (simp_all add: dyn_ok_def Let_def)
  ultimately show thesis using that nz by (simp add: dyn_buffer_def)
qed

lemma dyn_spans_live:
  assumes "dyn_ok m p" and "q \<in> dyn_spans m p"
  shows "heap_abs m q \<noteq> None"
  using assms by (auto simp: dyn_ok_def Let_def dyn_spans_def dyn_buffer_def split: if_splits)

lemma get_dynarray_same: "same_on m m' p (p + 32) \<Longrightarrow> get_dynarray m' p = get_dynarray m p"
  unfolding get_dynarray_def by (simp add: ld64_same_on same_on_def)

text \<open>A step of another owner keeps the array.\<close>

lemma dyn_undisturbed:
  assumes o: "dyn_ok m p" and u: "undisturbed (dyn_spans m p) m m'"
  shows "get_dynarray m' p = get_dynarray m p" and "dyn_ok m' p" and "dyn_list m' p = dyn_list m p"
    and "dyn_buffer m' p = dyn_buffer m p"
proof -
  obtain n where n: "heap_abs m p = Some n" "72 \<le> n" using dyn_okE [OF o] by metis
  have pS: "p \<in> dyn_spans m p" by (simp add: dyn_spans_def)
  have "same_on m m' p (p + 32)" using undisturbedD(2) [OF u pS n(1)] n(2) by (auto intro: same_on_sub)
  then show g: "get_dynarray m' p = get_dynarray m p" by (rule get_dynarray_same)
  then show "dyn_buffer m' p = dyn_buffer m p" by (simp add: dyn_buffer_def)
  have k: "heap_abs m' q = Some j \<and> same_on m m' q (q + j)"
    if "q \<in> dyn_spans m p" "heap_abs m q = Some j" for q j using undisturbedD [OF u that(1)] that(2) by blast
  have hp: "heap_abs m' q = heap_abs m q" if "q \<in> dyn_spans m p" for q
    using k [OF that] dyn_spans_live [OF o that] by fastforce
  show "dyn_ok m' p"
    using o hp [of p] hp [of "unat (da_data_offset (get_dynarray m p))"]
    by (auto simp: dyn_ok_def Let_def g dyn_spans_def dyn_buffer_def split: if_splits)
  show "dyn_list m' p = dyn_list m p"
  proof (cases "da_data_offset (get_dynarray m p) = 0")
    case True
    then have "unat (da_length (get_dynarray m p)) = 0" using o by (auto simp: dyn_ok_def Let_def)
    then show ?thesis by (simp add: dyn_list_def Let_def g)
  next
    case False
    then have cn: "da_capacity (get_dynarray m p) \<noteq> 0 \<or> da_data_offset (get_dynarray m p) \<noteq> 0" by simp
    let ?a = "get_dynarray m p"
    obtain j where j: "heap_abs m (unat (da_data_offset ?a)) = Some j" "unat (da_capacity ?a) * unat (da_elem_size ?a) \<le> j"
      "dyn_buffer m p = {unat (da_data_offset ?a)}" using dyn_ok_buffer [OF o cn] by metis
    have "unat (da_length ?a) * unat (da_elem_size ?a) \<le> unat (da_capacity ?a) * unat (da_elem_size ?a)"
      using dyn_okE [OF o] mult_le_mono1 by metis
    from this j(2) have le: "unat (da_length ?a) * unat (da_elem_size ?a) \<le> j" by (rule order_trans)
    have "same_on m m' (unat (da_data_offset ?a)) (unat (da_data_offset ?a) + unat (da_length ?a) * unat (da_elem_size ?a))"
      using k [OF _ j(1)] j(3) le by (auto simp: dyn_spans_def intro: same_on_sub)
    then show ?thesis by (simp add: dyn_list_def Let_def g elements_same_on)
  qed
qed

lemma dyn_kept:
  assumes o: "dyn_ok m p" and s: "owner_step S S' m m'" and d: "dyn_spans m p \<inter> S = {}"
  shows "get_dynarray m' p = get_dynarray m p" and "dyn_ok m' p" and "dyn_list m' p = dyn_list m p"
    and "dyn_buffer m' p = dyn_buffer m p" and "dyn_spans m p \<inter> S' = {}"
  using dyn_undisturbed [OF o undisturbed_step [OF s d]] d dyn_spans_live [OF o] private_step_live(2) [OF s]
  by (fastforce simp: disjoint_iff)+

section \<open>Growing\<close>

text \<open>The elements of the array resolve: as many of them as fit the capacity.\<close>

lemma dyn_data:
  assumes h: "heap_inv rg m" and o: "dyn_ok m p" and c: "unat c \<le> unat (da_capacity (get_dynarray m p))" "c \<noteq> 0"
  defines "a \<equiv> get_dynarray m p"
  shows "dynarray_data rg a c = Some (rg_base rg + da_data_offset a)"
    and "unat i < unat c \<Longrightarrow> roff rg (rg_base rg + da_data_offset a + i * da_elem_size a)
           = unat (da_data_offset a) + unat i * unat (da_elem_size a)"
    and "unat (c * da_elem_size a) = unat c * unat (da_elem_size a)"
proof -
  have "da_capacity a \<noteq> 0" using c by (auto simp: a_def word_eq_iff_unat)
  then obtain k where k: "heap_abs m (unat (da_data_offset a)) = Some k" "unat (da_capacity a) * unat (da_elem_size a) \<le> k"
    using dyn_ok_buffer [OF o] unfolding a_def by metis
  have "unat c * unat (da_elem_size a) \<le> k" using mult_le_mono1 [OF c(1)] k(2) unfolding a_def by (rule order_trans)
  note s = array_span [OF h k(1) this]
  show "dynarray_data rg a c = Some (rg_base rg + da_data_offset a)" using s(1) by (simp add: dynarray_data_def)
  show "unat (c * da_elem_size a) = unat c * unat (da_elem_size a)" by (rule s(4))
  show "roff rg (rg_base rg + da_data_offset a + i * da_elem_size a) = unat (da_data_offset a) + unat i * unat (da_elem_size a)"
    if "unat i < unat c" using s(2) [OF that] .
qed

text \<open>The copy writes the old elements to the front of the new buffer at \<open>q\<close>.\<close>

lemma dyn_copy_run:
  assumes h: "heap_inv rg (bytes w)" and o: "dyn_ok (bytes w) p" and q: "unat (of_nat q :: u64) = q"
  defines "a \<equiv> get_dynarray (bytes w) p"
  defines "len \<equiv> unat (da_length a) * unat (da_elem_size a)"
  shows "dynarray_grow_copy rg p (rg_base rg + of_nat q) w
     = set_bytes (wr (bytes w) q (rd (bytes w) (unat (da_data_offset a)) len)) w"
proof (cases "da_length a = 0")
  case True
  then show ?thesis
    by (simp add: dynarray_grow_copy_def Let_def a_def [symmetric] len_def)
next
  case False
  obtain n where le: "unat (da_length a) \<le> unat (da_capacity a)" using dyn_okE [OF o] unfolding a_def by metis
  with False have "da_capacity a \<noteq> 0" by (auto simp: word_eq_iff_unat)
  then have nz: "da_data_offset a \<noteq> 0" using dyn_ok_buffer [OF o] unfolding a_def by metis
  note d = dyn_data [OF h o le [unfolded a_def] False [unfolded a_def], folded a_def]
  show ?thesis
    using False nz d(1,3) q by (simp add: dynarray_grow_copy_def Let_def a_def [symmetric] len_def roff_def word_gt_0)
qed

lemma dyn_free_run:
  assumes h: "heap_inv rg (bytes w)" and r: "ready E w" and o: "dyn_ok (bytes w) p"
  obtains m' where "dynarray_grow_free E rg p w = Some (set_bytes m' w)" "heap_inv rg m'"
    "heap_abs m' = heap_abs (bytes w) |` (- dyn_buffer (bytes w) p)" "owner_step (dyn_buffer (bytes w) p) {} (bytes w) m'"
    "pays spare 0 (bytes w) m'"
proof (cases "da_data_offset (get_dynarray (bytes w) p) = 0")
  case True
  then have "dyn_buffer (bytes w) p = {}" "dynarray_grow_free E rg p w = Some w"
    by (simp_all add: dyn_buffer_def Let_def dynarray_grow_free_def)
  then show ?thesis using that [of "bytes w"] h by (simp add: restrict_map_def)
next
  case False
  let ?a = "get_dynarray (bytes w) p" let ?d = "unat (da_data_offset ?a)"
  from False have nz: "da_capacity ?a \<noteq> 0 \<or> da_data_offset ?a \<noteq> 0" by simp
  obtain k where k: "heap_abs (bytes w) ?d = Some k" "da_capacity ?a \<noteq> 0" "dyn_buffer (bytes w) p = {?d}"
    using dyn_ok_buffer [OF o nz] by metis
  from svc.release_law [OF h r k(1)] obtain m' where
    f: "allocator_free E (Some rg) (rg_base rg + da_data_offset ?a) w = Some (STATUS_OK, set_bytes m' w)"
    and m': "heap_inv rg m'" "heap_abs m' = (heap_abs (bytes w))(?d := None)" "owner_step {?d} {} (bytes w) m'" "pays spare 0 (bytes w) m'" by auto
  have "dynarray_grow_free E rg p w = Some (set_bytes m' w)"
    using False f dyn_data(1) [OF h o le_refl k(2)] by (simp add: dynarray_grow_free_def Let_def)
  then show ?thesis using that [of m'] m' k(3) by (simp add: restrict_map_def fun_eq_iff fun_upd_def)
qed

text \<open>The state after a successful grow to \<open>nc\<close> elements: the same list, in a new buffer.\<close>

definition dyn_grown :: "ShmRegion \<Rightarrow> nat \<Rightarrow> u64 \<Rightarrow> mem \<Rightarrow> mem \<Rightarrow> bool" where
  "dyn_grown rg p nc m m' \<longleftrightarrow>
     heap_inv rg m' \<and> dyn_ok m' p \<and> dyn_list m' p = dyn_list m p \<and>
     da_capacity (get_dynarray m' p) = nc \<and> da_length (get_dynarray m' p) = da_length (get_dynarray m p) \<and>
     da_elem_size (get_dynarray m' p) = da_elem_size (get_dynarray m p) \<and>
     owner_step (dyn_spans m p) (dyn_spans m' p) m m' \<and>
     pays spare (alloc_cost (nc * da_elem_size (get_dynarray m p))) m m'"

lemma dyn_grow_header:
  assumes h: "heap_inv rg m" and o: "dyn_ok m p" and nc: "unat (da_capacity (get_dynarray m p)) < unat nc"
    and m3: "heap_inv rg m3" "heap_abs m3 p = heap_abs m p" "heap_abs m3 q = Some k" "q \<noteq> p"
      "unat nc * unat (da_elem_size (get_dynarray m p)) \<le> k" "get_dynarray m3 p = get_dynarray m p"
    and st: "owner_step (dyn_spans m p) {p, q} m m3"
    and el: "elements m3 q (unat (da_elem_size (get_dynarray m p))) (unat (da_length (get_dynarray m p))) = dyn_list m p"
    and py: "pays spare (alloc_cost (nc * da_elem_size (get_dynarray m p))) m m3"
  shows "dyn_grown rg p nc m (st64 (st64 m3 (p + 24) (of_nat q)) p nc)"
proof -
  let ?a = "get_dynarray m p" and ?m4 = "st64 (st64 m3 (p + 24) (of_nat q)) p nc"
  obtain n where n: "heap_abs m p = Some n" "72 \<le> n" "0 < unat (da_elem_size ?a)" "unat (da_length ?a) \<le> unat (da_capacity ?a)"
    using dyn_okE [OF o] by metis
  have p3: "heap_abs m3 p = Some n" using m3(2) n(1) by simp
  have uq: "unat (of_nat q :: u64) = q" using payload_pointer(1) [OF m3(1,3)] .
  have nz: "(of_nat q :: u64) \<noteq> 0" using uq heap_abs_bounds(1) [OF m3(1,3)] by auto
  have w: "?m4 x = m3 x" if "x < p \<or> p + n \<le> x" for x using that n(2) by (auto simp: st64_outside)
  note s = svc.own_step [OF m3(1) p3 w]
  have g: "get_dynarray ?m4 p = ?a\<lparr>da_capacity := nc, da_data_offset := of_nat q\<rparr>"
    using m3(6) by (auto simp: get_dynarray_def)
  have "owner_step {p, q} {p, q} m3 ?m4" using private_step_widen [OF s(3), of "{q}"] m3(4) by (simp add: insert_commute)
  with svc.step_trans [OF h st] have st4: "owner_step (dyn_spans m p) {p, q} m ?m4" by blast
  have sp: "dyn_spans ?m4 p = {p, q}" using nz by (simp add: dyn_spans_def dyn_buffer_def Let_def g uq)
  have ok4: "dyn_ok ?m4 p"
    using n nc m3(3-5) p3 s(2) nz by (auto simp: dyn_ok_def Let_def g uq)
  have "same_on m3 ?m4 q (q + k)"
    using private_step_live(3) [OF s(3) m3(3)] m3(4) by simp
  moreover have "unat (da_length ?a) * unat (da_elem_size ?a) \<le> k"
  proof -
    have "unat (da_length ?a) \<le> unat nc" using n(4) nc by simp
    from mult_le_mono1 [OF this] m3(5) show ?thesis by (rule order_trans)
  qed
  ultimately have "same_on m3 ?m4 q (q + unat (da_length ?a) * unat (da_elem_size ?a))" by (auto intro: same_on_sub)
  from elements_same_on [OF this] el have "dyn_list ?m4 p = dyn_list m p" by (simp add: dyn_list_def Let_def g uq)
  moreover have "pays spare (alloc_cost (nc * da_elem_size ?a)) m ?m4" using py s(6) by (simp add: pays_def)
  ultimately show ?thesis using s(1) st4 ok4 sp by (simp add: dyn_grown_def g)
qed

lemma dyn_grow_runs:
  assumes h: "heap_inv rg (bytes w)" and r: "ready E w" and o: "dyn_ok (bytes w) p"
    and nc: "unat (da_capacity (get_dynarray (bytes w) p)) < unat nc"
      "unat nc * unat (da_elem_size (get_dynarray (bytes w) p)) \<le> 2 ^ 62"
  shows "if room (nc * da_elem_size (get_dynarray (bytes w) p)) (bytes w)
     then \<exists>m'. dynarray_grow E rg p nc w = Some (0, set_bytes m' w) \<and> dyn_grown rg p nc (bytes w) m'
     else \<exists>m'. dynarray_grow E rg p nc w = Some (- 1, set_bytes m' w) \<and> heap_inv rg m' \<and> owner_step {} {} (bytes w) m'"
proof -
  let ?m = "bytes w" let ?a = "get_dynarray ?m p"
  let ?e = "unat (da_elem_size ?a)" and ?n = "unat (da_length ?a)" and ?d = "unat (da_data_offset ?a)"
  obtain n where n: "heap_abs ?m p = Some n" "72 \<le> n" "0 < ?e" "?n \<le> unat (da_capacity ?a)" "p \<notin> dyn_buffer ?m p"
    using dyn_okE [OF o] by metis
  have ps: "p \<in> dyn_spans ?m p" by (simp add: dyn_spans_def)
  have un: "unat (nc * da_elem_size ?a) = unat nc * ?e" using nc(2) by (intro unat_mult_nowrap) simp
  have v: "valid_request (nc * da_elem_size ?a) 16"
    using nc n(3) by (auto simp: valid_request_def un intro: exI [of _ 4])
  show ?thesis
  proof (cases "room (nc * da_elem_size ?a) ?m")
    case True
    from svc.alloc_grants [OF h r v True] obtain q k m1 where
      a: "allocator_alloc E (Some rg) (nc * da_elem_size ?a) 16 True w = Some ((STATUS_OK, Some (rg_base rg + of_nat q)), set_bytes m1 w)"
      and m1: "heap_inv rg m1" "heap_abs ?m q = None" "heap_abs m1 = (heap_abs ?m)(q \<mapsto> k)" "unat nc * ?e \<le> k"
        "owner_step {} {q} ?m m1" "pays spare (alloc_cost (nc * da_elem_size ?a)) ?m m1" by (auto simp: un)
    note k1 = dyn_kept [OF o m1(5)]
    have q1: "heap_abs m1 q = Some k" using m1(3) by simp
    have uq: "unat (of_nat q :: u64) = q" using payload_pointer(1) [OF m1(1) q1] .
    define m2 where "m2 = wr m1 q (rd m1 ?d (?n * ?e))"
    have "?n \<le> unat nc" using n(4) nc(1) by simp
    from mult_le_mono1 [OF this] m1(4) have le: "?n * ?e \<le> k" by (rule order_trans)
    have c: "dynarray_grow_copy rg p (rg_base rg + of_nat q) (set_bytes m1 w) = set_bytes m2 w"
      using dyn_copy_run [where w = "set_bytes m1 w" and p = p, OF _ _ uq] m1(1) k1(1,2) by (simp add: m2_def)
    have "m2 x = m1 x" if "x < q \<or> q + k \<le> x" for x using that le by (auto simp: m2_def wr_outside)
    note i2 = svc.init_step [OF h m1(1-3,5) this]
    note k2 = dyn_kept [OF o i2(3)]
    have r2: "ready E (set_bytes m2 w)" using r by simp
    obtain m3 where f: "dynarray_grow_free E rg p (set_bytes m2 w) = Some (set_bytes m3 w)"
      and m3: "heap_inv rg m3" "heap_abs m3 = heap_abs m2 |` (- dyn_buffer ?m p)" "owner_step (dyn_buffer ?m p) {} m2 m3"
        "pays spare 0 m2 m3"
      using dyn_free_run [where w = "set_bytes m2 w" and p = p, OF _ r2] i2(1) k2(2,4) by auto
    have qS: "q \<notin> dyn_spans ?m p" using k1(5) by auto
    then have qb: "q \<notin> dyn_buffer ?m p" and qp: "q \<noteq> p" by (auto simp: dyn_spans_def)
    have p2: "heap_abs m2 p = Some n" using i2(2) n(1) qp by simp
    note p3 = private_step_live [OF m3(3) p2 n(5)]
    have q2: "heap_abs m2 q = Some k" using i2(2) by simp
    note q3 = private_step_live [OF m3(3) q2 qb]
    have "same_on m2 m3 p (p + 32)" using p3(3) n(2) by (auto intro: same_on_sub)
    then have g3: "get_dynarray m3 p = ?a" using get_dynarray_same k2(1) by simp
    have el: "elements m3 q ?e ?n = dyn_list ?m p"
    proof -
      have "elements m3 q ?e ?n = elements m2 q ?e ?n"
        using q3(3) le by (intro elements_same_on) (auto intro: same_on_sub)
      also have "\<dots> = elements m1 ?d ?e ?n" by (intro elements_copy) (simp add: m2_def)
      also have "\<dots> = dyn_list m1 p" using k1(1) by (simp add: dyn_list_def Let_def)
      finally show ?thesis using k1(3) by simp
    qed
    have "owner_step (dyn_spans ?m p) ({q} \<union> dyn_spans ?m p) ?m m2"
      using private_step_widen [OF i2(3), of "dyn_spans ?m p"] by simp
    moreover have "owner_step ({q} \<union> dyn_spans ?m p) {p, q} m2 m3"
    proof -
      have "dyn_buffer ?m p \<union> {p, q} = {q} \<union> dyn_spans ?m p" "{p, q} - dyn_buffer ?m p = {p, q}"
        using n(5) qb by (auto simp: dyn_spans_def)
      then show ?thesis using private_step_widen [OF m3(3), of "{p, q}"] by simp
    qed
    ultimately have st: "owner_step (dyn_spans ?m p) {p, q} ?m m3" by (rule svc.step_trans [OF h])
    have py: "pays spare (alloc_cost (nc * da_elem_size ?a)) ?m m3"
      using m1(6) i2(6) m3(4) by (simp add: pays_def)
    have "dyn_grown rg p nc ?m (st64 (st64 m3 (p + 24) (of_nat q)) p nc)"
      using dyn_grow_header [OF h o nc(1) m3(1) _ q3(1) qp m1(4) g3 st el py] p3(1) n(1) by simp
    moreover have "dynarray_grow E rg p nc w = Some (0, set_bytes (st64 (st64 m3 (p + 24) (of_nat q)) p nc) w)"
      using a c f from_raw_payload [OF m3(1) q3(1)] by (simp add: dynarray_grow_def Let_def)
    ultimately show ?thesis using True by auto
  next
    case False
    from svc.alloc_refuses [OF h r v False] obtain m' where
      "allocator_alloc E (Some rg) (nc * da_elem_size ?a) 16 True w = Some ((STATUS_OUT_OF_MEMORY, None), set_bytes m' w)"
      "heap_inv rg m'" "owner_step {} {} ?m m'" by auto
    then show ?thesis using False by (auto simp: dynarray_grow_def Let_def)
  qed
qed

section \<open>Pushing into the buffer\<close>

definition dyn_pushed :: "mem \<Rightarrow> nat \<Rightarrow> u8 list \<Rightarrow> mem" where
  "dyn_pushed m p x =
     (let a = get_dynarray m p in
      st64 (wr m (unat (da_data_offset a) + unat (da_length a) * unat (da_elem_size a)) x) (p + 8) (da_length a + 1))"

lemma dyn_push_state:
  assumes h: "heap_inv rg m" and o: "dyn_ok m p"
    and l: "unat (da_length (get_dynarray m p)) < unat (da_capacity (get_dynarray m p))"
    and x: "length x = unat (da_elem_size (get_dynarray m p))"
  shows "heap_inv rg (dyn_pushed m p x)" and "dyn_ok (dyn_pushed m p x) p"
    and "dyn_list (dyn_pushed m p x) p = dyn_list m p @ [x]"
    and "da_capacity (get_dynarray (dyn_pushed m p x) p) = da_capacity (get_dynarray m p)"
    and "da_elem_size (get_dynarray (dyn_pushed m p x) p) = da_elem_size (get_dynarray m p)"
    and "owner_step (dyn_spans m p) (dyn_spans (dyn_pushed m p x) p) m (dyn_pushed m p x)"
    and "ld64 (wr m (unat (da_data_offset (get_dynarray m p)) + unat (da_length (get_dynarray m p)) * length x) x) (p + 8)
           = da_length (get_dynarray m p)"
    and "spare N (dyn_pushed m p x) = spare N m"
proof -
  let ?a = "get_dynarray m p" and ?m' = "dyn_pushed m p x"
  let ?e = "unat (da_elem_size ?a)" and ?n = "unat (da_length ?a)" and ?d = "unat (da_data_offset ?a)"
  let ?m1 = "wr m (?d + ?n * ?e) x"
  obtain n where n: "heap_abs m p = Some n" "72 \<le> n" "0 < ?e" using dyn_okE [OF o] by metis
  have "da_capacity ?a \<noteq> 0" using l by auto
  then obtain k where k: "heap_abs m ?d = Some k" "unat (da_capacity ?a) * ?e \<le> k" "da_data_offset ?a \<noteq> 0"
      "dyn_buffer m p = {?d}" "?d \<noteq> p" using dyn_ok_buffer [OF o] by metis
  have b: "?n * ?e + ?e \<le> k" using array_span(3) [OF h k(1,2) l] .
  have dj: "p + n \<le> ?d \<or> ?d + k \<le> p" using heap_abs_disjoint [OF h n(1) k(1)] k(5) by auto
  have g1: "get_dynarray ?m1 p = ?a" using dj b n(2) x by (auto simp: get_dynarray_def)
  show "ld64 (wr m (?d + ?n * length x) x) (p + 8) = da_length ?a"
    using arg_cong [OF g1, of da_length] x by (simp add: get_dynarray_def)
  have m': "?m' = st64 ?m1 (p + 8) (da_length ?a + 1)" by (simp add: dyn_pushed_def Let_def)
  have "get_dynarray (st64 ?m1 (p + 8) (da_length ?a + 1)) p = (get_dynarray ?m1 p)\<lparr>da_length := da_length ?a + 1\<rparr>"
    by (simp add: get_dynarray_def)
  then have g: "get_dynarray ?m' p = ?a\<lparr>da_length := da_length ?a + 1\<rparr>" using g1 m' by simp
  have w: "?m' y = m y" if "\<And>q j. q \<in> dyn_spans m p \<Longrightarrow> heap_abs m q = Some j \<Longrightarrow> y < q \<or> q + j \<le> y" for y
  proof -
    have "y < p \<or> p + n \<le> y" "y < ?d \<or> ?d + k \<le> y" using that n(1) k(1,4) by (auto simp: dyn_spans_def)
    then show ?thesis using b n(2) x by (auto simp: m' st64_outside wr_outside)
  qed
  have "finite (dyn_spans m p)" "dyn_spans m p \<subseteq> dom (heap_abs m)"
    using dyn_spans_live [OF o] by (auto simp: dyn_spans_def dyn_buffer_def Let_def)
  note s = svc.own_steps [OF this(1) h this(2) w]
  show "heap_inv rg ?m'" using s by blast
  show "spare N ?m' = spare N m" using s [where N = N] by blast
  have sp: "dyn_spans ?m' p = dyn_spans m p" by (simp add: dyn_spans_def dyn_buffer_def Let_def g)
  show "owner_step (dyn_spans m p) (dyn_spans ?m' p) m ?m'" using s sp by simp
  show "da_capacity (get_dynarray ?m' p) = da_capacity ?a" "da_elem_size (get_dynarray ?m' p) = da_elem_size ?a" by (simp_all add: g)
  have un: "unat (da_length ?a + 1) = Suc ?n" using l unat_less_2p64 [of "da_capacity ?a"] by (subst unat_add_nowrap) simp_all
  have "heap_abs ?m' = heap_abs m" using s by blast
  then show "dyn_ok ?m' p" using o l by (auto simp: dyn_ok_def Let_def g un)
  have "dyn_list ?m' p = elements ?m' ?d ?e (Suc ?n)" by (simp add: dyn_list_def Let_def g un)
  also have "elements ?m' ?d ?e ?n = elements m ?d ?e ?n"
    using dj b n(2) x by (intro elements_same_on) (auto simp: m' same_on_def st64_outside wr_outside)
  then have "elements ?m' ?d ?e (Suc ?n) = dyn_list m p @ [rd ?m' (?d + ?n * ?e) ?e]"
    by (simp add: elements_Suc dyn_list_def Let_def)
  also have "rd ?m' (?d + ?n * ?e) ?e = x"
  proof -
    have "rd ?m' (?d + ?n * ?e) ?e = rd ?m1 (?d + ?n * ?e) ?e"
      using dj b n(2) unfolding m' st64_def by (intro rd_wr_other) auto
    then show ?thesis using x by simp
  qed
  finally show "dyn_list ?m' p = dyn_list m p @ [x]" .
qed

end
