(* ===== verification/DynArrayRefine.thy ===== *)
theory DynArrayRefine
  imports DynArraySpec
begin

text \<open>
  Every operation of the dynamic array refines an operation on a list with a capacity, in which an
  allocation may be refused. The simulation interface carries this to every sequence of operations,
  and gives the guarantee of \<open>dynarray_reserve\<close>: pushes up to the reserved capacity do not fail.
\<close>

section \<open>What the operations compute\<close>

lemma dyn_header_resolves:
  assumes h: "heap_inv rg m" and o: "dyn_ok m (unat off)"
  shows "dynarray_resolve_header rg off = Some (rg_base rg + off)"
proof -
  obtain n where n: "heap_abs m (unat off) = Some n" "72 \<le> n" using dyn_okE [OF o] by metis
  then show ?thesis using span_resolves(1) [OF h n(1), of 72] by (simp add: dynarray_resolve_header_def)
qed

lemma dyn_lock_free: "mtx w (h + 32) = MFree \<Longrightarrow> dynarray_lock E h w = Some (holding E (h + 32) w)"
  by (simp add: dynarray_lock_def container_lock_free)

lemma dyn_unlock_own:
  "mtx w (h + 32) = MFree \<Longrightarrow> dynarray_unlock E h (set_bytes m (holding E (h + 32) w)) = set_bytes m w"
  "mtx w (h + 32) = MFree \<Longrightarrow> dynarray_unlock E h (holding E (h + 32) w) = w"
  by (simp_all add: dynarray_unlock_def container_unlock_own)

lemma dyn_query_runs:
  assumes h: "heap_inv rg (bytes w)" and o: "dyn_ok (bytes w) (unat off)" and l: "mtx w (unat off + 32) = MFree"
  shows "dynarray_length E rg off w = Some (of_nat (length (dyn_list (bytes w) (unat off))), w)"
    and "dynarray_get E rg off i True w =
      Some (if unat i < length (dyn_list (bytes w) (unat off)) then (0, Some (dyn_list (bytes w) (unat off) ! unat i))
            else (- 1, None), w)"
proof -
  let ?a = "get_dynarray (bytes w) (unat off)"
  note df = dyn_header_resolves [OF h o] dyn_lock_free [where E = E, OF l] dyn_unlock_own [where E = E, OF l]
  have len: "length (dyn_list (bytes w) (unat off)) = unat (da_length ?a)" by (simp add: dyn_list_def Let_def)
  show "dynarray_length E rg off w = Some (of_nat (length (dyn_list (bytes w) (unat off))), w)"
    by (simp add: dynarray_length_def df Let_def len)
  show "dynarray_get E rg off i True w =
      Some (if unat i < length (dyn_list (bytes w) (unat off)) then (0, Some (dyn_list (bytes w) (unat off) ! unat i))
            else (- 1, None), w)"
  proof (cases "unat i < unat (da_length ?a)")
    case True
    have le: "unat (da_length ?a) \<le> unat (da_capacity ?a)" using dyn_okE [OF o] by metis
    have nz: "da_length ?a \<noteq> 0" using True by auto
    note d = dyn_data [OF h o le nz]
    have "\<not> da_length ?a \<le> i" using True by (simp add: word_le_nat_alt)
    then show ?thesis using True d(1) d(2) [OF True]
      by (simp add: dynarray_get_def df Let_def len) (simp add: dyn_list_def Let_def)
  next
    case False
    then show ?thesis by (simp add: dynarray_get_def df Let_def len word_le_nat_alt)
  qed
qed

text \<open>Growing under the array's own lock.\<close>

lemma dyn_grow_locked:
  assumes h: "heap_inv rg (bytes w)" and r: "ready E w" and o: "dyn_ok (bytes w) p"
    and nc: "unat (da_capacity (get_dynarray (bytes w) p)) < unat nc"
      "unat nc * unat (da_elem_size (get_dynarray (bytes w) p)) \<le> 2 ^ 62"
  obtains (grown) m' where "room (nc * da_elem_size (get_dynarray (bytes w) p)) (bytes w)"
      "dynarray_grow E rg p nc (holding E (p + 32) w) = Some (0, set_bytes m' (holding E (p + 32) w))"
      "dyn_grown rg p nc (bytes w) m'"
    | (refused) m' where "\<not> room (nc * da_elem_size (get_dynarray (bytes w) p)) (bytes w)"
      "dynarray_grow E rg p nc (holding E (p + 32) w) = Some (- 1, set_bytes m' (holding E (p + 32) w))"
      "heap_inv rg m'" "owner_step {} {} (bytes w) m'"
proof -
  obtain n where "heap_abs (bytes w) p = Some n" using dyn_okE [OF o] by metis
  then have "2768 \<le> p" by (rule heap_abs_bounds(1) [OF h])
  then have "ready E (holding E (p + 32) w)" using r by (simp add: ready_set_mtx)
  from dyn_grow_runs [where w = "holding E (p + 32) w" and p = p, OF _ this, of rg nc] h o nc show thesis
    using grown refused by (simp split: if_splits) blast+
qed

text \<open>Storing an element where the capacity allows it.\<close>

lemma dyn_store_runs:
  assumes h: "heap_inv rg m" and o: "dyn_ok m p"
    and l: "unat (da_length (get_dynarray m p)) < unat (da_capacity (get_dynarray m p))"
    and x: "length x = unat (da_elem_size (get_dynarray m p))"
  defines "a \<equiv> get_dynarray m p"
  shows "dynarray_data rg a (da_length a + 1) = Some (rg_base rg + da_data_offset a)"
    and "st64 (wr m (roff rg (rg_base rg + da_data_offset a + da_length a * da_elem_size a)) (take (unat (da_elem_size a)) x))
           (p + 8)
           (ld64 (wr m (roff rg (rg_base rg + da_data_offset a + da_length a * da_elem_size a))
             (take (unat (da_elem_size a)) x)) (p + 8) + 1) = dyn_pushed m p x"
proof -
  have un: "unat (da_length a + 1) = Suc (unat (da_length a))"
    using l unat_less_2p64 [of "da_capacity a"] unfolding a_def by (subst unat_add_nowrap) simp_all
  then have c: "unat (da_length a + 1) \<le> unat (da_capacity (get_dynarray m p))" "da_length a + 1 \<noteq> 0"
    using l by (auto simp: a_def)
  note d = dyn_data [OF h o c, folded a_def]
  show "dynarray_data rg a (da_length a + 1) = Some (rg_base rg + da_data_offset a)" by (rule d(1))
  have r: "roff rg (rg_base rg + da_data_offset a + da_length a * da_elem_size a)
      = unat (da_data_offset a) + unat (da_length a) * unat (da_elem_size a)" using un by (intro d(2)) simp
  show "st64 (wr m (roff rg (rg_base rg + da_data_offset a + da_length a * da_elem_size a)) (take (unat (da_elem_size a)) x))
           (p + 8)
           (ld64 (wr m (roff rg (rg_base rg + da_data_offset a + da_length a * da_elem_size a))
             (take (unat (da_elem_size a)) x)) (p + 8) + 1) = dyn_pushed m p x"
    unfolding r using dyn_push_state(7) [OF h o l x] x by (simp add: dyn_pushed_def Let_def a_def)
qed

text \<open>What a push leaves behind: the list one longer, in a capacity that was kept or grown.\<close>

definition dyn_next_cap :: "nat \<Rightarrow> nat \<Rightarrow> nat" where
  "dyn_next_cap c n = (if n < c then c else if c = 0 then 4 else 2 * c)"

text \<open>The capacity an exhausted array grows to, at most twice the region's size in bytes.\<close>

definition dyn_target :: "DynArrayHeader \<Rightarrow> u64" where
  "dyn_target a = (if da_capacity a \<noteq> 0 then da_capacity a * 2 else 4)"

text \<open>What a push takes from the heap.\<close>

definition dyn_push_cost :: "DynArrayHeader \<Rightarrow> nat" where
  "dyn_push_cost a = (if da_length a < da_capacity a then 0 else alloc_cost (dyn_target a * da_elem_size a))"

definition dyn_appended :: "ShmRegion \<Rightarrow> nat \<Rightarrow> u8 list \<Rightarrow> mem \<Rightarrow> mem \<Rightarrow> bool" where
  "dyn_appended rg p x m m' \<longleftrightarrow>
     heap_inv rg m' \<and> dyn_ok m' p \<and> dyn_list m' p = dyn_list m p @ [x] \<and>
     unat (da_capacity (get_dynarray m' p)) = dyn_next_cap (unat (da_capacity (get_dynarray m p))) (length (dyn_list m p)) \<and>
     da_elem_size (get_dynarray m' p) = da_elem_size (get_dynarray m p) \<and>
     owner_step (dyn_spans m p) (dyn_spans m' p) m m' \<and> pays spare (dyn_push_cost (get_dynarray m p)) m m'"

lemma dyn_list_length: "length (dyn_list m p) = unat (da_length (get_dynarray m p))"
  by (simp add: dyn_list_def Let_def)

lemma dyn_store_appended:
  assumes h: "heap_inv rg m" and o: "dyn_ok m p"
    and l: "unat (da_length (get_dynarray m p)) < unat (da_capacity (get_dynarray m p))"
    and x: "length x = unat (da_elem_size (get_dynarray m p))"
  shows "dyn_appended rg p x m (dyn_pushed m p x)"
  using dyn_push_state(1-6,8) [OF h o l x] l
  by (simp add: dyn_appended_def dyn_next_cap_def dyn_list_length dyn_push_cost_def word_less_nat_alt pays_def)

lemma dyn_target_fits:
  assumes h: "heap_inv rg m" and o: "dyn_ok m p" and s: "unat (rg_size rg) \<le> 2 ^ 61"
    and e: "unat (da_elem_size (get_dynarray m p)) \<le> 2 ^ 60"
  defines "a \<equiv> get_dynarray m p"
  shows "unat (dyn_target a) = dyn_next_cap (unat (da_capacity a)) (unat (da_capacity a))"
    and "unat (da_capacity a) < unat (dyn_target a)"
    and "unat (dyn_target a) * unat (da_elem_size a) \<le> 2 ^ 62"
proof -
  have ez: "0 < unat (da_elem_size a)" using dyn_okE [OF o] unfolding a_def by metis
  have c: "unat (da_capacity a) * unat (da_elem_size a) \<le> 2 ^ 61" if nz: "da_capacity a \<noteq> 0"
  proof -
    obtain k where "heap_abs m (unat (da_data_offset a)) = Some k" "unat (da_capacity a) * unat (da_elem_size a) \<le> k"
      using dyn_ok_buffer [OF o] nz unfolding a_def by metis
    then show ?thesis using heap_abs_bounds(3) [OF h] s by fastforce
  qed
  have "unat (da_capacity a) \<le> unat (da_capacity a) * unat (da_elem_size a)" using ez by simp
  then have "unat (da_capacity a) \<le> 2 ^ 61" if "da_capacity a \<noteq> 0" using c [OF that] by linarith
  then have u: "unat (da_capacity a * 2) = 2 * unat (da_capacity a)" if "da_capacity a \<noteq> 0"
    using that by (subst unat_mult_nowrap) simp_all
  have z: "unat (da_capacity a) = 0 \<longleftrightarrow> da_capacity a = 0" by (simp add: word_eq_iff_unat)
  show t: "unat (dyn_target a) = dyn_next_cap (unat (da_capacity a)) (unat (da_capacity a))"
    using u z by (simp add: dyn_target_def dyn_next_cap_def)
  show "unat (da_capacity a) < unat (dyn_target a)" unfolding t by (simp add: dyn_next_cap_def)
  show "unat (dyn_target a) * unat (da_elem_size a) \<le> 2 ^ 62"
    unfolding t using c z e by (auto simp: dyn_next_cap_def a_def)
qed

lemma dyn_push_runs:
  assumes h: "heap_inv rg (bytes w)" and r: "ready E w" and o: "dyn_ok (bytes w) (unat off)"
    and l: "mtx w (unat off + 32) = MFree" and s: "unat (rg_size rg) \<le> 2 ^ 61"
    and e: "unat (da_elem_size (get_dynarray (bytes w) (unat off))) \<le> 2 ^ 60"
    and x: "length x = unat (da_elem_size (get_dynarray (bytes w) (unat off)))"
  defines "a \<equiv> get_dynarray (bytes w) (unat off)"
  obtains (pushed) m' where "dynarray_push E rg off (Some x) w = Some (0, set_bytes m' w)"
      "dyn_appended rg (unat off) x (bytes w) m'"
      "da_length a < da_capacity a \<or> room (dyn_target a * da_elem_size a) (bytes w)"
    | (refused) m' where "dynarray_push E rg off (Some x) w = Some (- 1, set_bytes m' w)" "heap_inv rg m'"
      "owner_step {} {} (bytes w) m'" "da_length a = da_capacity a" "\<not> room (dyn_target a * da_elem_size a) (bytes w)"
proof -
  let ?p = "unat off"
  note df = dyn_header_resolves [OF h o] dyn_lock_free [where E = E, OF l] dyn_unlock_own [where E = E, OF l] Let_def
  obtain n where le: "unat (da_length a) \<le> unat (da_capacity a)" using dyn_okE [OF o] unfolding a_def by metis
  note st = dyn_store_runs [OF h o _ x, folded a_def] and sa = dyn_store_appended [OF h o _ x, folded a_def]
  show thesis
  proof (cases "da_length a = da_capacity a")
    case False
    then have lt: "unat (da_length a) < unat (da_capacity a)" using le by (simp add: word_eq_iff_unat)
    have "dynarray_push E rg off (Some x) w = Some (0, set_bytes (dyn_pushed (bytes w) ?p x) w)"
      using False st [OF lt] by (simp add: dynarray_push_def df a_def [symmetric])
    moreover have "da_length a < da_capacity a" using lt by (simp add: word_less_nat_alt)
    ultimately show thesis using pushed sa [OF lt] by blast
  next
    case True
    note t = dyn_target_fits [OF h o s e, folded a_def]
    show thesis
    proof (cases rule: dyn_grow_locked [OF h r o t(2,3) [unfolded a_def]])
      case (1 m1)
      note g = 1(3) [unfolded dyn_grown_def]
      have h1: "heap_inv rg m1" and o1: "dyn_ok m1 ?p" using g by simp_all
      have x1: "length x = unat (da_elem_size (get_dynarray m1 ?p))" using g x by simp
      have lt: "unat (da_length (get_dynarray m1 ?p)) < unat (da_capacity (get_dynarray m1 ?p))"
        using g t(2) True by (simp add: a_def)
      note st1 = dyn_store_runs [OF h1 o1 lt x1] and sa1 = dyn_store_appended [OF h1 o1 lt x1]
      have "dynarray_push E rg off (Some x) w = Some (0, set_bytes (dyn_pushed m1 ?p x) w)"
        using True 1(2) [folded a_def] st1
        by (cases "da_capacity a = 0") (simp_all add: dynarray_push_def df a_def [symmetric] dyn_target_def)
      moreover have "dyn_appended rg ?p x (bytes w) (dyn_pushed m1 ?p x)"
      proof -
        have "owner_step (dyn_spans (bytes w) ?p) (dyn_spans (dyn_pushed m1 ?p x) ?p) (bytes w) (dyn_pushed m1 ?p x)"
          using svc.step_trans [OF h] g sa1 by (auto simp: dyn_appended_def)
        moreover have "dyn_next_cap (unat (da_capacity (get_dynarray m1 ?p))) (length (dyn_list m1 ?p))
            = dyn_next_cap (unat (da_capacity a)) (length (dyn_list (bytes w) ?p))"
          using lt True t(1) g by (simp add: dyn_next_cap_def dyn_list_length a_def)
        moreover have "pays spare (dyn_push_cost a) (bytes w) (dyn_pushed m1 ?p x)"
        proof -
          have "dyn_push_cost (get_dynarray m1 ?p) = 0" "dyn_push_cost a = alloc_cost (dyn_target a * da_elem_size a)"
            using lt True by (simp_all add: dyn_push_cost_def word_less_nat_alt)
          then show ?thesis using g sa1 by (simp add: dyn_appended_def pays_def a_def)
        qed
        ultimately show ?thesis using sa1 g by (simp add: dyn_appended_def a_def)
      qed
      ultimately show thesis using pushed 1(1) by (simp add: a_def)
    next
      case (2 m1)
      have "dynarray_push E rg off (Some x) w = Some (- 1, set_bytes m1 w)"
        using True 2(2) [folded a_def]
        by (cases "da_capacity a = 0") (simp_all add: dynarray_push_def df a_def [symmetric] dyn_target_def)
      then show thesis using refused 2(1,3,4) True by (simp add: a_def)
    qed
  qed
qed

lemma dyn_reserve_runs:
  assumes h: "heap_inv rg (bytes w)" and r: "ready E w" and o: "dyn_ok (bytes w) (unat off)"
    and l: "mtx w (unat off + 32) = MFree"
    and n: "unat nc * unat (da_elem_size (get_dynarray (bytes w) (unat off))) \<le> 2 ^ 62"
  obtains (enough) "dynarray_reserve E rg off nc w = Some (0, w)" "nc \<le> da_capacity (get_dynarray (bytes w) (unat off))"
    | (grown) m' where "dynarray_reserve E rg off nc w = Some (0, set_bytes m' w)"
      "da_capacity (get_dynarray (bytes w) (unat off)) < nc" "dyn_grown rg (unat off) nc (bytes w) m'"
      "room (nc * da_elem_size (get_dynarray (bytes w) (unat off))) (bytes w)"
    | (refused) m' where "dynarray_reserve E rg off nc w = Some (- 1, set_bytes m' w)" "heap_inv rg m'"
      "da_capacity (get_dynarray (bytes w) (unat off)) < nc" "owner_step {} {} (bytes w) m'"
      "\<not> room (nc * da_elem_size (get_dynarray (bytes w) (unat off))) (bytes w)"
proof -
  note df = dyn_header_resolves [OF h o] dyn_lock_free [where E = E, OF l] dyn_unlock_own [where E = E, OF l] Let_def
  show thesis
  proof (cases "nc \<le> da_capacity (get_dynarray (bytes w) (unat off))")
    case True
    then show thesis using enough by (simp add: dynarray_reserve_def df)
  next
    case False
    then have lt: "unat (da_capacity (get_dynarray (bytes w) (unat off))) < unat nc" by (simp add: word_le_nat_alt)
    show thesis
    proof (cases rule: dyn_grow_locked [OF h r o lt n])
      case (1 m1)
      then show thesis using grown [of m1] False by (simp add: dynarray_reserve_def df)
    next
      case (2 m1)
      then show thesis using refused [of m1] False by (simp add: dynarray_reserve_def df)
    qed
  qed
qed

section \<open>Sequences of operations\<close>

datatype dyn_op = DPush "u8 list" | DGet u64 | DReserve u64 | DLength

datatype dyn_res = DCode int | DGot int "u8 list option" | DCount u64

fun dyn_step :: "env \<Rightarrow> ShmRegion \<Rightarrow> OffsetPtr \<Rightarrow> dyn_op \<Rightarrow> world \<Rightarrow> dyn_res result" where
  "dyn_step E rg off (DPush x) w = map_option (apfst DCode) (dynarray_push E rg off (Some x) w)"
| "dyn_step E rg off (DGet i) w = map_option (apfst (\<lambda>(c, out). DGot c out)) (dynarray_get E rg off i True w)"
| "dyn_step E rg off (DReserve n) w = map_option (apfst DCode) (dynarray_reserve E rg off n w)"
| "dyn_step E rg off DLength w = map_option (apfst DCount) (dynarray_length E rg off w)"

text \<open>The abstract array: a capacity and a list. A push needs an allocation only when the list fills
  the capacity, and fails only then; a failure changes nothing. The capacity doubles.\<close>

fun dyn_spec :: "dyn_op \<Rightarrow> nat \<times> u8 list list \<Rightarrow> dyn_res \<Rightarrow> nat \<times> u8 list list \<Rightarrow> bool" where
  "dyn_spec (DPush x) (c, xs) r s \<longleftrightarrow>
     r = DCode 0 \<and> s = (dyn_next_cap c (length xs), xs @ [x]) \<or> length xs = c \<and> r = DCode (- 1) \<and> s = (c, xs)"
| "dyn_spec (DGet i) (c, xs) r s \<longleftrightarrow>
     r = (if unat i < length xs then DGot 0 (Some (xs ! unat i)) else DGot (- 1) None) \<and> s = (c, xs)"
| "dyn_spec (DReserve n) (c, xs) r s \<longleftrightarrow>
     r = DCode 0 \<and> s = (max c (unat n), xs) \<or> c < unat n \<and> r = DCode (- 1) \<and> s = (c, xs)"
| "dyn_spec DLength (c, xs) r s \<longleftrightarrow> r = DCount (of_nat (length xs)) \<and> s = (c, xs)"

text \<open>What the operations do when no allocation is refused.\<close>

fun dyn_exact :: "dyn_op \<Rightarrow> nat \<times> u8 list list \<Rightarrow> dyn_res \<times> (nat \<times> u8 list list)" where
  "dyn_exact (DPush x) (c, xs) = (DCode 0, dyn_next_cap c (length xs), xs @ [x])"
| "dyn_exact (DGet i) (c, xs) = (if unat i < length xs then DGot 0 (Some (xs ! unat i)) else DGot (- 1) None, c, xs)"
| "dyn_exact (DReserve n) (c, xs) = (DCode 0, max c (unat n), xs)"
| "dyn_exact DLength (c, xs) = (DCount (of_nat (length xs)), c, xs)"

text \<open>The size of the buffer an operation asks the allocator for, if it asks at all, and what the operation
  then does in a memory: it fails, and changes nothing, exactly when no free block can hold that buffer.\<close>

fun dyn_request :: "u64 \<Rightarrow> dyn_op \<Rightarrow> nat \<times> u8 list list \<Rightarrow> u64 option" where
  "dyn_request e (DPush x) (c, xs) = (if length xs < c then None else Some (of_nat (dyn_next_cap c (length xs)) * e))"
| "dyn_request e (DReserve n) (c, xs) = (if unat n \<le> c then None else Some (n * e))"
| "dyn_request e _ _ = None"

definition dyn_outcome :: "u64 \<Rightarrow> dyn_op \<Rightarrow> mem \<Rightarrow> nat \<times> u8 list list \<Rightarrow> dyn_res \<times> (nat \<times> u8 list list)" where
  "dyn_outcome e x m s =
     (case dyn_request e x s of
        None \<Rightarrow> dyn_exact x s
      | Some sz \<Rightarrow> if room sz m then dyn_exact x s else (DCode (- 1), s))"

definition dyn_abs :: "mem \<Rightarrow> nat \<Rightarrow> nat \<times> u8 list list" where
  "dyn_abs m p = (unat (da_capacity (get_dynarray m p)), dyn_list m p)"

text \<open>An element argument is one element long, and the size of a reservation does not wrap.\<close>

fun dyn_op_ok :: "nat \<Rightarrow> dyn_op \<Rightarrow> bool" where
  "dyn_op_ok e (DPush x) \<longleftrightarrow> length x = e"
| "dyn_op_ok e (DReserve n) \<longleftrightarrow> unat n * e \<le> 2 ^ 62"
| "dyn_op_ok e _ \<longleftrightarrow> True"

text \<open>The states that operations on one array lead to from \<open>w0\<close>.\<close>

definition dyn_inv :: "env \<Rightarrow> ShmRegion \<Rightarrow> OffsetPtr \<Rightarrow> world \<Rightarrow> world \<Rightarrow> bool" where
  "dyn_inv E rg off w0 w \<longleftrightarrow>
     (\<exists>m. w = set_bytes m w0 \<and> heap_inv rg m \<and> dyn_ok m (unat off) \<and>
       da_elem_size (get_dynarray m (unat off)) = da_elem_size (get_dynarray (bytes w0) (unat off)) \<and>
       owner_step (dyn_spans (bytes w0) (unat off)) (dyn_spans m (unat off)) (bytes w0) m) \<and>
     heap_inv rg (bytes w0) \<and> ready E w0 \<and> mtx w0 (unat off + 32) = MFree \<and> unat (rg_size rg) \<le> 2 ^ 61 \<and>
     unat (da_elem_size (get_dynarray (bytes w0) (unat off))) \<le> 2 ^ 60"

lemma dyn_invE:
  assumes "dyn_inv E rg off w0 w"
  obtains "heap_inv rg (bytes w)" "ready E w" "dyn_ok (bytes w) (unat off)" "mtx w (unat off + 32) = MFree"
    "unat (rg_size rg) \<le> 2 ^ 61" "unat (da_elem_size (get_dynarray (bytes w) (unat off))) \<le> 2 ^ 60"
    "da_elem_size (get_dynarray (bytes w) (unat off)) = da_elem_size (get_dynarray (bytes w0) (unat off))"
  using assms by (auto simp: dyn_inv_def)

lemma dyn_inv_step:
  assumes "dyn_inv E rg off w0 w" and "heap_inv rg m" and "dyn_ok m (unat off)"
    and "da_elem_size (get_dynarray m (unat off)) = da_elem_size (get_dynarray (bytes w) (unat off))"
    and "owner_step (dyn_spans (bytes w) (unat off)) (dyn_spans m (unat off)) (bytes w) m"
  shows "dyn_inv E rg off w0 (set_bytes m w)"
  using assms svc.step_trans [of rg "bytes w0"] by (fastforce simp: dyn_inv_def)

text \<open>A refused allocation is a step of nobody: the array stays.\<close>

lemma dyn_refused:
  assumes i: "dyn_inv E rg off w0 w" and m: "heap_inv rg m" "owner_step {} {} (bytes w) m"
  shows "dyn_inv E rg off w0 (set_bytes m w)" and "dyn_abs m (unat off) = dyn_abs (bytes w) (unat off)"
proof -
  have o: "dyn_ok (bytes w) (unat off)" using dyn_invE [OF i] by metis
  note k = dyn_kept [OF o m(2)]
  have s: "dyn_spans m (unat off) = dyn_spans (bytes w) (unat off)" using k(4) by (simp add: dyn_spans_def)
  have "owner_step (dyn_spans (bytes w) (unat off)) (dyn_spans m (unat off)) (bytes w) m"
    using private_step_widen [OF m(2), of "dyn_spans (bytes w) (unat off)"] s by simp
  then show "dyn_inv E rg off w0 (set_bytes m w)" using k by (intro dyn_inv_step [OF i m(1)]) simp_all
  show "dyn_abs m (unat off) = dyn_abs (bytes w) (unat off)" using k by (simp add: dyn_abs_def)
qed

lemma dyn_push_refines:
  assumes i: "dyn_inv E rg off w0 w" and x: "length x = unat (da_elem_size (get_dynarray (bytes w0) (unat off)))"
  shows "\<exists>r s'. dyn_step E rg off (DPush x) w = Some (r, s') \<and> dyn_inv E rg off w0 s' \<and>
     dyn_spec (DPush x) (dyn_abs (bytes w) (unat off)) r (dyn_abs (bytes s') (unat off))"
proof -
  obtain h: "heap_inv rg (bytes w)" and r: "ready E w" and o: "dyn_ok (bytes w) (unat off)" and l: "mtx w (unat off + 32) = MFree"
    and b: "unat (rg_size rg) \<le> 2 ^ 61" "unat (da_elem_size (get_dynarray (bytes w) (unat off))) \<le> 2 ^ 60"
    and e: "da_elem_size (get_dynarray (bytes w) (unat off)) = da_elem_size (get_dynarray (bytes w0) (unat off))"
    using dyn_invE [OF i] .
  have x': "length x = unat (da_elem_size (get_dynarray (bytes w) (unat off)))" using x e by simp
  show ?thesis
  proof (cases rule: dyn_push_runs [OF h r o l b x'])
    case (1 m)
    then show ?thesis using dyn_inv_step [OF i, of m] by (simp add: dyn_appended_def dyn_abs_def)
  next
    case (2 m)
    have "length (dyn_list (bytes w) (unat off)) = unat (da_capacity (get_dynarray (bytes w) (unat off)))"
      using 2(4) by (simp add: dyn_list_length)
    then show ?thesis using 2(1) dyn_refused [OF i 2(2,3)] by (simp add: dyn_abs_def)
  qed
qed

lemma dyn_reserve_refines:
  assumes i: "dyn_inv E rg off w0 w" and n: "unat nc * unat (da_elem_size (get_dynarray (bytes w0) (unat off))) \<le> 2 ^ 62"
  shows "\<exists>r s'. dyn_step E rg off (DReserve nc) w = Some (r, s') \<and> dyn_inv E rg off w0 s' \<and>
     dyn_spec (DReserve nc) (dyn_abs (bytes w) (unat off)) r (dyn_abs (bytes s') (unat off))"
proof -
  obtain h: "heap_inv rg (bytes w)" and r: "ready E w" and o: "dyn_ok (bytes w) (unat off)" and l: "mtx w (unat off + 32) = MFree"
    and e: "da_elem_size (get_dynarray (bytes w) (unat off)) = da_elem_size (get_dynarray (bytes w0) (unat off))"
    using dyn_invE [OF i] .
  have n': "unat nc * unat (da_elem_size (get_dynarray (bytes w) (unat off))) \<le> 2 ^ 62" using n e by simp
  show ?thesis
  proof (cases rule: dyn_reserve_runs [OF h r o l n'])
    case 1
    then show ?thesis using i by (simp add: dyn_abs_def word_le_nat_alt max_def)
  next
    case (2 m)
    then show ?thesis using dyn_inv_step [OF i, of m] by (simp add: dyn_grown_def dyn_abs_def word_less_nat_alt max_def)
  next
    case (3 m)
    then show ?thesis using dyn_refused [OF i 3(2,4)] by (simp add: dyn_abs_def word_less_nat_alt)
  qed
qed

lemma dyn_query_refines:
  assumes i: "dyn_inv E rg off w0 w"
  shows "\<exists>r. dyn_step E rg off (DGet j) w = Some (r, w) \<and>
      dyn_spec (DGet j) (dyn_abs (bytes w) (unat off)) r (dyn_abs (bytes w) (unat off))"
    and "\<exists>r. dyn_step E rg off DLength w = Some (r, w) \<and>
      dyn_spec DLength (dyn_abs (bytes w) (unat off)) r (dyn_abs (bytes w) (unat off))"
proof -
  obtain h: "heap_inv rg (bytes w)" and o: "dyn_ok (bytes w) (unat off)" and l: "mtx w (unat off + 32) = MFree"
    using dyn_invE [OF i] .
  note q = dyn_query_runs [where E = E, OF h o l]
  show "\<exists>r. dyn_step E rg off (DGet j) w = Some (r, w) \<and>
      dyn_spec (DGet j) (dyn_abs (bytes w) (unat off)) r (dyn_abs (bytes w) (unat off))"
    using q(2) by (simp add: dyn_abs_def)
  show "\<exists>r. dyn_step E rg off DLength w = Some (r, w) \<and>
      dyn_spec DLength (dyn_abs (bytes w) (unat off)) r (dyn_abs (bytes w) (unat off))"
    using q(1) by (simp add: dyn_abs_def)
qed

interpretation dyn: simulation "dyn_inv E rg off w0" "\<lambda>w. dyn_abs (bytes w) (unat off)"
    "dyn_op_ok (unat (da_elem_size (get_dynarray (bytes w0) (unat off))))" "dyn_step E rg off" dyn_spec
  for E rg off w0
proof unfold_locales
  fix s x
  assume i: "dyn_inv E rg off w0 s" and k: "dyn_op_ok (unat (da_elem_size (get_dynarray (bytes w0) (unat off)))) x"
  show "\<exists>r s'. dyn_step E rg off x s = Some (r, s') \<and> dyn_inv E rg off w0 s' \<and>
     dyn_spec x (dyn_abs (bytes s) (unat off)) r (dyn_abs (bytes s') (unat off))"
  proof (cases x)
    case (DPush a)
    then show ?thesis using dyn_push_refines [OF i] k by simp
  next
    case (DReserve n)
    then show ?thesis using dyn_reserve_refines [OF i] k by simp
  next
    case (DGet j)
    then show ?thesis using dyn_query_refines(1) [OF i] i by blast
  next
    case DLength
    then show ?thesis using dyn_query_refines(2) [OF i] i by blast
  qed
qed

lemma dyn_inv_start:
  assumes "heap_inv rg (bytes w)" and "ready E w" and "dyn_ok (bytes w) (unat off)" and "mtx w (unat off + 32) = MFree"
    and "unat (rg_size rg) \<le> 2 ^ 61" and "unat (da_elem_size (get_dynarray (bytes w) (unat off))) \<le> 2 ^ 60"
  shows "dyn_inv E rg off w w"
  using assms unfolding dyn_inv_def by (metis private_step_refl set_bytes_same)

text \<open>The buffer an exhausted array asks for.\<close>

lemma dyn_push_request:
  assumes h: "heap_inv rg m" and o: "dyn_ok m p" and s: "unat (rg_size rg) \<le> 2 ^ 61"
    and e: "unat (da_elem_size (get_dynarray m p)) \<le> 2 ^ 60"
  shows "dyn_request (da_elem_size (get_dynarray m p)) (DPush x) (dyn_abs m p) =
     (if da_length (get_dynarray m p) < da_capacity (get_dynarray m p) then None
      else Some (dyn_target (get_dynarray m p) * da_elem_size (get_dynarray m p)))"
proof -
  let ?a = "get_dynarray m p"
  have le: "unat (da_length ?a) \<le> unat (da_capacity ?a)" using dyn_okE [OF o] by metis
  have "of_nat (unat (dyn_target ?a)) = dyn_target ?a" by simp
  then have "of_nat (dyn_next_cap (unat (da_capacity ?a)) (unat (da_capacity ?a))) = dyn_target ?a"
    using dyn_target_fits(1) [OF h o s e] by simp
  then show ?thesis using le
    by (cases "unat (da_length ?a) = unat (da_capacity ?a)")
       (simp_all add: dyn_abs_def dyn_list_length word_less_nat_alt)
qed

lemma dyn_settled:
  assumes i: "dyn_inv E rg off w0 w"
    and k: "dyn_op_ok (unat (da_elem_size (get_dynarray (bytes w0) (unat off)))) x"
    and run: "dyn_step E rg off x w = Some (r, w1)"
  shows "(r, dyn_abs (bytes w1) (unat off)) =
     dyn_outcome (da_elem_size (get_dynarray (bytes w0) (unat off))) x (bytes w) (dyn_abs (bytes w) (unat off))"
proof -
  let ?p = "unat off" and ?m = "bytes w"
  obtain h: "heap_inv rg ?m" and rd: "ready E w" and o: "dyn_ok ?m ?p" and l: "mtx w (?p + 32) = MFree"
    and b: "unat (rg_size rg) \<le> 2 ^ 61" "unat (da_elem_size (get_dynarray ?m ?p)) \<le> 2 ^ 60"
    and e: "da_elem_size (get_dynarray (bytes w0) ?p) = da_elem_size (get_dynarray ?m ?p)"
    using dyn_invE [OF i] by metis
  note q = dyn_query_runs [where E = E, OF h o l]
  show ?thesis
  proof (cases x)
    case (DPush a)
    then have xa: "length a = unat (da_elem_size (get_dynarray ?m ?p))" using k e by simp
    show ?thesis
    proof (cases rule: dyn_push_runs [OF h rd o l b xa])
      case (1 m)
      then show ?thesis using run dyn_push_request [OF h o b, of a] DPush e
        by (auto simp: dyn_outcome_def dyn_appended_def dyn_abs_def)
    next
      case (2 m)
      then show ?thesis using run dyn_push_request [OF h o b, of a] dyn_refused(2) [OF i 2(2,3)] DPush e
        by (auto simp: dyn_outcome_def)
    qed
  next
    case (DReserve n)
    then have n: "unat n * unat (da_elem_size (get_dynarray ?m ?p)) \<le> 2 ^ 62" using k e by simp
    show ?thesis
    proof (cases rule: dyn_reserve_runs [OF h rd o l n])
      case 1
      then show ?thesis using run DReserve by (auto simp: dyn_outcome_def dyn_abs_def word_le_nat_alt max_def)
    next
      case (2 m)
      then show ?thesis using run DReserve e
        by (auto simp: dyn_outcome_def dyn_grown_def dyn_abs_def word_less_nat_alt max_def)
    next
      case (3 m)
      then show ?thesis using run dyn_refused(2) [OF i 3(2,4)] DReserve e
        by (auto simp: dyn_outcome_def dyn_abs_def word_less_nat_alt)
    qed
  next
    case (DGet j)
    then show ?thesis using q(2) run by (auto simp: dyn_outcome_def dyn_abs_def)
  next
    case DLength
    then show ?thesis using q(1) run by (auto simp: dyn_outcome_def dyn_abs_def)
  qed
qed

interpretation dyns: settled_simulation "dyn_inv E rg off w0" "\<lambda>w. dyn_abs (bytes w) (unat off)"
    "dyn_op_ok (unat (da_elem_size (get_dynarray (bytes w0) (unat off))))" "dyn_step E rg off" dyn_spec
    "\<lambda>x w. dyn_outcome (da_elem_size (get_dynarray (bytes w0) (unat off))) x (bytes w) (dyn_abs (bytes w) (unat off))"
  for E rg off w0
  by unfold_locales (rule dyn_settled)

text \<open>C6: A dynamic array is a list: any sequence of pushes, reads, reservations and length queries on
  an array that satisfies its invariant returns, and its results are those of the abstract list. Every
  step of the run has exactly the outcome of \<open>dyn_outcome\<close> in the memory it was called in: a push fails
  if and only if the list fills the capacity and no free block can hold a buffer of twice the capacity
  (four elements for an empty one), a reservation if and only if it asks for more than the capacity
  and no free block can hold that much; a failure leaves the array as it was, and over any number of moves of the
  element buffer the elements stay. The mutex is free after every call, no span is leaked and no span
  of another owner changes. Regions have at most \<open>2 ^ 61\<close> bytes and elements at most \<open>2 ^ 60\<close>; an
  element argument is one element long and the size of a reservation does not exceed \<open>2 ^ 62\<close>.\<close>

theorem dynarray_sequence_refines:
  assumes h: "heap_inv rg (bytes w)" and r: "ready E w" and o: "dyn_ok (bytes w) (unat off)"
    and l: "mtx w (unat off + 32) = MFree" and s: "unat (rg_size rg) \<le> 2 ^ 61"
    and e: "unat (da_elem_size (get_dynarray (bytes w) (unat off))) \<le> 2 ^ 60"
    and k: "list_all (dyn_op_ok (unat (da_elem_size (get_dynarray (bytes w) (unat off))))) ops"
  shows "\<exists>rs m'. run_ops (dyn_step E rg off) ops w = Some (rs, set_bytes m' w) \<and>
     allowed dyn_spec ops (dyn_abs (bytes w) (unat off)) rs (dyn_abs m' (unat off)) \<and>
     each_step (dyn_step E rg off)
       (\<lambda>x u res v. (res, dyn_abs (bytes v) (unat off)) =
          dyn_outcome (da_elem_size (get_dynarray (bytes w) (unat off))) x (bytes u) (dyn_abs (bytes u) (unat off))) ops w \<and>
     heap_inv rg m' \<and> dyn_ok m' (unat off) \<and>
     owner_step (dyn_spans (bytes w) (unat off)) (dyn_spans m' (unat off)) (bytes w) m'"
proof -
  note i = dyn_inv_start [OF h r o l s e]
  from dyn.run_allowed [OF i k] obtain rs w' where
    "run_ops (dyn_step E rg off) ops w = Some (rs, w')" "dyn_inv E rg off w w'"
    "allowed dyn_spec ops (dyn_abs (bytes w) (unat off)) rs (dyn_abs (bytes w') (unat off))" by blast
  moreover note dyns.run_settled [OF i k]
  ultimately show ?thesis by (auto simp: dyn_inv_def)
qed

section \<open>The guarantee of a reservation\<close>

lemma dyn_spec_pushes:
  assumes "allowed dyn_spec (map DPush xs) (c, ys) rs s" and "length ys + length xs \<le> c"
  shows "rs = replicate (length xs) (DCode 0)" and "s = (c, ys @ xs)"
  using assms by (induction xs arbitrary: ys rs) (fastforce simp: dyn_next_cap_def split: list.splits)+

text \<open>A successful \<open>dynarray_reserve\<close> is a guarantee: as many pushes as fit the reserved capacity
  all succeed afterwards, whatever room the allocator has left, and append their elements in order.\<close>

theorem dynarray_reserve_guarantees:
  assumes h: "heap_inv rg (bytes w)" and r: "ready E w" and o: "dyn_ok (bytes w) (unat off)"
    and l: "mtx w (unat off + 32) = MFree" and s: "unat (rg_size rg) \<le> 2 ^ 61"
    and e: "unat (da_elem_size (get_dynarray (bytes w) (unat off))) \<le> 2 ^ 60"
    and n: "unat nc * unat (da_elem_size (get_dynarray (bytes w) (unat off))) \<le> 2 ^ 62"
    and res: "dynarray_reserve E rg off nc w = Some (0, w1)"
    and xs: "list_all (\<lambda>x. length x = unat (da_elem_size (get_dynarray (bytes w) (unat off)))) xs"
    and fit: "length (dyn_list (bytes w) (unat off)) + length xs \<le> unat nc"
  shows "\<exists>w2. run_ops (dyn_step E rg off) (map DPush xs) w1 = Some (replicate (length xs) (DCode 0), w2) \<and>
     dyn_list (bytes w2) (unat off) = dyn_list (bytes w) (unat off) @ xs"
proof -
  from dyn_reserve_refines [OF dyn_inv_start [OF h r o l s e] n] res have
    i1: "dyn_inv E rg off w w1" and s1: "dyn_abs (bytes w1) (unat off)
      = (max (unat (da_capacity (get_dynarray (bytes w) (unat off)))) (unat nc), dyn_list (bytes w) (unat off))"
    by (auto simp: dyn_abs_def [of "bytes w"])
  have "list_all (dyn_op_ok (unat (da_elem_size (get_dynarray (bytes w) (unat off))))) (map DPush xs)"
    using xs by (simp add: list_all_length)
  from dyn.run_allowed [OF i1 this] obtain rs w2 where
    w2: "run_ops (dyn_step E rg off) (map DPush xs) w1 = Some (rs, w2)"
      "allowed dyn_spec (map DPush xs) (dyn_abs (bytes w1) (unat off)) rs (dyn_abs (bytes w2) (unat off))" by blast
  show ?thesis using w2(1) dyn_spec_pushes [OF w2(2) [unfolded s1]] fit by (auto simp: dyn_abs_def)
qed

section \<open>Funded operations\<close>

text \<open>What each operation takes from the heap: nothing while the capacity suffices, and the new buffer
  otherwise.\<close>

fun dyn_price :: "u64 \<Rightarrow> dyn_op \<Rightarrow> nat \<times> u8 list list \<Rightarrow> nat" where
  "dyn_price e (DPush x) (c, xs) = (if length xs < c then 0 else alloc_cost (of_nat (dyn_next_cap c (length xs)) * e))"
| "dyn_price e (DReserve n) (c, xs) = (if unat n \<le> c then 0 else alloc_cost (n * e))"
| "dyn_price e _ (c, xs) = 0"

lemma dyn_price_request:
  "dyn_price e x s = (case dyn_request e x s of None \<Rightarrow> 0 | Some sz \<Rightarrow> alloc_cost sz)"
  by (cases x; cases s) simp_all

lemma dyn_push_price:
  assumes "heap_inv rg m" and "dyn_ok m p" and "unat (rg_size rg) \<le> 2 ^ 61"
    and "unat (da_elem_size (get_dynarray m p)) \<le> 2 ^ 60"
  shows "dyn_price (da_elem_size (get_dynarray m p)) (DPush x) (dyn_abs m p) = dyn_push_cost (get_dynarray m p)"
  using dyn_push_request [OF assms, of x] by (simp add: dyn_price_request dyn_push_cost_def del: dyn_price.simps)

interpretation dynf: funded_simulation "dyn_inv E rg off w0" "\<lambda>w. dyn_abs (bytes w) (unat off)"
    "dyn_op_ok (unat (da_elem_size (get_dynarray (bytes w0) (unat off))))" "dyn_step E rg off" dyn_spec
    "\<lambda>N w. spare N (bytes w)" "dyn_price (da_elem_size (get_dynarray (bytes w0) (unat off)))" dyn_exact
  for E rg off w0
proof unfold_locales
  fix s :: world and x N
  let ?p = "unat off" and ?m = "bytes s" let ?e = "da_elem_size (get_dynarray (bytes w0) ?p)"
  assume i: "dyn_inv E rg off w0 s" and k: "dyn_op_ok (unat ?e) x" and f: "spare (N + dyn_price ?e x (dyn_abs ?m ?p)) ?m"
  obtain h: "heap_inv rg ?m" and r: "ready E s" and o: "dyn_ok ?m ?p" and l: "mtx s (?p + 32) = MFree"
    and b: "unat (rg_size rg) \<le> 2 ^ 61" "unat (da_elem_size (get_dynarray ?m ?p)) \<le> 2 ^ 60"
    and e: "da_elem_size (get_dynarray ?m ?p) = ?e"
    using dyn_invE [OF i] .
  note q = dyn_query_runs [where E = E, OF h o l]
  show "\<exists>s'. dyn_step E rg off x s = Some (fst (dyn_exact x (dyn_abs ?m ?p)), s') \<and> dyn_inv E rg off w0 s' \<and>
     dyn_abs (bytes s') ?p = snd (dyn_exact x (dyn_abs ?m ?p)) \<and> spare N (bytes s')"
  proof (cases x)
    case (DPush a)
    then have xa: "length a = unat (da_elem_size (get_dynarray ?m ?p))" using k e by simp
    have f': "spare (N + dyn_push_cost (get_dynarray ?m ?p)) ?m"
      using f dyn_push_price [OF h o b, of a] e DPush by simp
    show ?thesis
    proof (cases rule: dyn_push_runs [OF h r o l b xa])
      case (1 m)
      have "pays spare (dyn_push_cost (get_dynarray ?m ?p)) ?m m" using 1(2) by (simp add: dyn_appended_def)
      then have "spare N m" using f' by (rule paysD)
      then show ?thesis using dyn_inv_step [OF i, of m] 1(1,2) DPush by (simp add: dyn_appended_def dyn_abs_def)
    next
      case (2 m)
      then have "dyn_push_cost (get_dynarray ?m ?p) = alloc_cost (dyn_target (get_dynarray ?m ?p) * da_elem_size (get_dynarray ?m ?p))"
        by (simp add: dyn_push_cost_def)
      then show ?thesis using cost_covers [OF f'] 2(5) by simp
    qed
  next
    case (DReserve n)
    then have n: "unat n * unat (da_elem_size (get_dynarray ?m ?p)) \<le> 2 ^ 62" using k e by simp
    have f': "spare (N + (if n \<le> da_capacity (get_dynarray ?m ?p) then 0 else alloc_cost (n * da_elem_size (get_dynarray ?m ?p)))) ?m"
      using f DReserve e by (simp add: dyn_abs_def word_le_nat_alt split: if_splits)
    show ?thesis
    proof (cases rule: dyn_reserve_runs [OF h r o l n])
      case 1
      then show ?thesis using i f' DReserve by (simp add: dyn_abs_def word_le_nat_alt max_def)
    next
      case (2 m)
      have "spare N m" using f' 2(2,3) by (simp add: dyn_grown_def pays_def not_le [symmetric])
      then show ?thesis using 2 dyn_inv_step [OF i, of m] DReserve
        by (simp add: dyn_grown_def dyn_abs_def word_less_nat_alt max_def)
    next
      case (3 m)
      then show ?thesis using cost_covers [OF f'] by (simp add: not_le [symmetric])
    qed
  next
    case (DGet j)
    then show ?thesis using q(2) i f by (simp add: dyn_abs_def)
  next
    case DLength
    then show ?thesis using q(1) i f by (simp add: dyn_abs_def)
  qed
qed

text \<open>C13: While the largest free block covers the bill, no push and no reservation is refused: on an
  array that satisfies its invariant, a sequence of operations whose growths are paid for returns
  exactly the results of the list without refusals, with the capacities of doubling, and leaves the
  rest of that block. Only the operations that outgrow the capacity cost anything.\<close>

theorem dynarray_sequence_funded:
  assumes h: "heap_inv rg (bytes w)" and r: "ready E w" and o: "dyn_ok (bytes w) (unat off)"
    and l: "mtx w (unat off + 32) = MFree" and s: "unat (rg_size rg) \<le> 2 ^ 61"
    and e: "unat (da_elem_size (get_dynarray (bytes w) (unat off))) \<le> 2 ^ 60"
    and k: "list_all (dyn_op_ok (unat (da_elem_size (get_dynarray (bytes w) (unat off))))) ops"
    and f: "spare (N + bill (dyn_price (da_elem_size (get_dynarray (bytes w) (unat off)))) dyn_exact ops
              (dyn_abs (bytes w) (unat off))) (bytes w)"
  shows "\<exists>m'. run_ops (dyn_step E rg off) ops w
       = Some (fst (run_spec dyn_exact ops (dyn_abs (bytes w) (unat off))), set_bytes m' w) \<and>
     dyn_abs m' (unat off) = snd (run_spec dyn_exact ops (dyn_abs (bytes w) (unat off))) \<and>
     heap_inv rg m' \<and> dyn_ok m' (unat off) \<and> spare N m'"
  using dynf.run_funded [OF dyn_inv_start [OF h r o l s e] k f] by (fastforce simp: dyn_inv_def)

end
