(* ===== verification/DynArrayLife.thy ===== *)
theory DynArrayLife
  imports DynArrayRefine
begin

text \<open>
  Creating and destroying a dynamic array. Creation establishes the invariant of an empty array
  without an element buffer. The array header overlays the object header, so destruction releases
  the header exactly when the low half of the capacity fits the header's span and the length is
  even; the element buffer always goes.
\<close>

section \<open>Creation\<close>

definition dyn_header :: "nat \<Rightarrow> u64 \<Rightarrow> mem \<Rightarrow> mem" where
  "dyn_header p e m = st64 (st64 (st64 (st64 m p 0) (p + 8) 0) (p + 16) e) (p + 24) 0"

lemma dyn_header_facts:
  "get_dynarray (dyn_header p e m) p = \<lparr>da_capacity = 0, da_length = 0, da_elem_size = e, da_data_offset = 0\<rparr>"
  "x < p \<or> p + 32 \<le> x \<Longrightarrow> dyn_header p e m x = m x"
  by (simp_all add: dyn_header_def get_dynarray_def) (auto simp: dyn_header_def st64_outside)

lemma dyn_create_runs:
  assumes h: "heap_inv rg (bytes w)" and r: "ready E w" and ini: "\<forall>a. rc_mutex_init E a = 0" and e: "0 < unat e"
  obtains (created) off m' where "dynarray_create E rg e w = Some (off, set_mtx (unat off + 32) MFree (set_bytes m' w))"
      "room 88 (bytes w)" "off \<noteq> 0" "heap_inv rg m'" "dyn_ok m' (unat off)" "dyn_abs m' (unat off) = (0, [])"
      "da_elem_size (get_dynarray m' (unat off)) = e" "dyn_spans m' (unat off) = {unat off}"
      "owner_step {} {unat off} (bytes w) m'" "ready E (set_mtx (unat off + 32) MFree (set_bytes m' w))"
      "pays spare (alloc_cost 88) (bytes w) m'"
      "locks_kept w (set_mtx (unat off + 32) MFree (set_bytes m' w))"
    | (refused) m' where "dynarray_create E rg e w = Some (0, set_bytes m' w)" "\<not> room 88 (bytes w)"
      "heap_inv rg m'" "owner_step {} {} (bytes w) m'"
proof -
  have sz: "unat (72 :: u64) \<le> 4294967295" "16 + 72 = (88 :: u64)" by simp_all
  have e0: "e \<noteq> 0" using e by auto
  show thesis
  proof (cases "room (16 + 72) (bytes w)")
    case True
    obtain p n m1 where g: "header_grant E rg 72 w p n m1" by (rule header_granted [OF h r sz(1) True])
    note d = header_grantD [OF h r g]
    have "dyn_header p e m1 x = m1 x" if "x < p \<or> p + unat (72 :: u64) \<le> x" for x
      using that by (intro dyn_header_facts(2)) auto
    note s = header_written [OF h g this]
    have "dynarray_create E rg e w = Some (of_nat p, set_mtx (p + 32) MFree (set_bytes (dyn_header p e m1) w))"
      using e0 d(1,6,10) by (simp add: dynarray_create_def dynarray_resolve_header_def Let_def offset_ptr_null_def
          mutex_init_runs [OF ini] dyn_header_def)
    moreover have "dyn_ok (dyn_header p e m1) p" "dyn_abs (dyn_header p e m1) p = (0, [])" "dyn_spans (dyn_header p e m1) p = {p}"
      using d(3,4) s(2) e by (simp_all add: dyn_ok_def dyn_abs_def dyn_spans_def dyn_buffer_def dyn_list_def Let_def dyn_header_facts(1))
    moreover have "ready E (set_mtx (p + 32) MFree (set_bytes (dyn_header p e m1) w))" using d(11) [of 32] by simp
    ultimately show thesis
      using created [of "of_nat p" "dyn_header p e m1"] True sz(2) d(6,7) s header_locks_kept [OF h g, of 32] dyn_header_facts(1) by simp
  next
    case False
    obtain m' where "object_store_alloc E (Some rg) 1 72 True w = Some ((STATUS_OUT_OF_MEMORY, None), set_bytes m' w)"
      "heap_inv rg m'" "heap_abs m' = heap_abs (bytes w)" "owner_step {} {} (bytes w) m'"
      by (rule header_refused [OF h r sz(1) False])
    then show thesis using refused [of m'] False sz(2) e0 by (simp add: dynarray_create_def offset_ptr_null_def)
  qed
qed

section \<open>Destruction\<close>

text \<open>Whether the header object is released: the capacity overlays the object's size and the length its
  flags.\<close>

definition dyn_header_released :: "mem \<Rightarrow> nat \<Rightarrow> bool" where
  "dyn_header_released m p \<longleftrightarrow>
     (\<exists>n. heap_abs m p = Some n \<and> 16 + unat (da_capacity (get_dynarray m p)) mod 4294967296 \<le> n) \<and>
     even (unat (da_length (get_dynarray m p)))"

lemma dyn_object_at: "object_at m p \<longleftrightarrow> dyn_header_released m p"
  by (simp add: dyn_header_released_def overlaid_object_at get_dynarray_def)

lemma dyn_destroy_unfold:
  "dynarray_destroy E rg arr_offset w =
     (case dynarray_resolve_header rg arr_offset of
        None \<Rightarrow> Some ((), w)
      | Some hp \<Rightarrow>
          let h = roff rg hp in do {
            w1 \<leftarrow> dynarray_lock E h w;
            w2 \<leftarrow> dynarray_grow_free E rg h w1;
            let w3 = pthread_mutex_destroy (h + DA_lock) (dynarray_unlock E h w2);
            (_, w4) \<leftarrow> object_store_free E (Some rg) arr_offset w3;
            Some ((), w4)
          })"
  unfolding dynarray_destroy_def dynarray_grow_free_def Let_def by (rule refl)

lemma dynarray_destroy_runs:
  assumes h: "heap_inv rg (bytes w)" and r: "ready E w" and o: "dyn_ok (bytes w) (unat off)"
    and l: "mtx w (unat off + 32) = MFree"
  shows "\<exists>m'. dynarray_destroy E rg off w = Some ((), set_mtx (unat off + 32) MUninit (set_bytes m' w)) \<and>
     heap_inv rg m' \<and>
     owner_step (dyn_spans (bytes w) (unat off))
       (if dyn_header_released (bytes w) (unat off) then {} else {unat off}) (bytes w) m' \<and>
     heap_abs m' = heap_abs (bytes w) |` (- (if dyn_header_released (bytes w) (unat off)
       then dyn_spans (bytes w) (unat off) else dyn_buffer (bytes w) (unat off))) \<and>
     pays spare 0 (bytes w) m'"
proof -
  let ?p = "unat off" and ?m = "bytes w"
  let ?w1 = "holding E (?p + 32) w"
  obtain n where n: "heap_abs ?m ?p = Some n" "72 \<le> n" "?p \<notin> dyn_buffer ?m ?p" using dyn_okE [OF o] by metis
  have b: "2768 \<le> ?p" using heap_abs_bounds(1) [OF h n(1)] .
  have nz: "off \<noteq> 0" using span_resolves(2) [OF h n(1), of 0] by simp
  have rdy: "ready E ?w1" using r b by (simp add: ready_set_mtx)
  obtain m1 where f: "dynarray_grow_free E rg ?p ?w1 = Some (set_bytes m1 ?w1)"
    and m1: "heap_inv rg m1" "heap_abs m1 = heap_abs ?m |` (- dyn_buffer ?m ?p)" "owner_step (dyn_buffer ?m ?p) {} ?m m1"
      "pays spare 0 ?m m1"
    using dyn_free_run [where w = ?w1 and p = ?p, OF _ rdy] h o by auto
  define w3 where "w3 = set_mtx (?p + 32) MUninit (set_bytes m1 w)"
  have w3: "heap_inv rg (bytes w3)" "ready E w3" "bytes w3 = m1" using m1(1) r b by (simp_all add: w3_def ready_set_mtx)
  have run: "dynarray_destroy E rg off w = map_option (\<lambda>(_, w4). ((), w4)) (object_store_free E (Some rg) off w3)"
    using f dyn_header_resolves [OF h o] dyn_lock_free [where E = E, OF l] dyn_unlock_own(1) [OF l, where E = E]
    by (cases "object_store_free E (Some rg) off w3")
       (auto simp: dyn_destroy_unfold Let_def w3_def pthread_mutex_destroy_def)
  have p1: "heap_abs m1 ?p = Some n" using m1(2) n(1,3) by simp
  have "{?p} - dyn_buffer ?m ?p = {?p}" using n(3) by auto
  then have st: "owner_step (dyn_spans ?m ?p) {?p} ?m m1"
    using private_step_widen [OF m1(3), of "{?p}"] by (simp add: dyn_spans_def)
  have "same_on ?m m1 ?p (?p + 32)"
    using private_step_live(3) [OF m1(3) n(1,3)] n(2) by (auto intro: same_on_sub)
  then have "get_dynarray m1 ?p = get_dynarray ?m ?p" by (rule get_dynarray_same)
  then have rel: "object_at m1 ?p \<longleftrightarrow> dyn_header_released ?m ?p"
    using p1 n(1) by (simp add: dyn_object_at dyn_header_released_def)
  show ?thesis
  proof (cases "dyn_header_released ?m ?p")
    case True
    then have "object_at (bytes w3) (unat off)" using rel w3 by simp
    from object_free_steps(1) [OF w3(1,2) nz this] obtain m2 where
      f2: "object_store_free E (Some rg) off w3 = Some (STATUS_OK, set_bytes m2 w3)"
      and m2: "heap_inv rg m2" "heap_abs m2 = (heap_abs m1)(?p := None)" "owner_step {?p} {} m1 m2"
        "pays spare 0 m1 m2"
      using w3 by auto
    have "dynarray_destroy E rg off w = Some ((), set_mtx (?p + 32) MUninit (set_bytes m2 w))"
      using run f2 by (simp add: w3_def)
    moreover have "heap_abs m2 = heap_abs ?m |` (- dyn_spans ?m ?p)"
      using m1(2) m2(2) by (auto simp: dyn_spans_def restrict_map_def fun_eq_iff)
    ultimately show ?thesis using True m2(1) svc.step_trans [OF h st m2(3)] pays_trans [OF m1(4) m2(4)] by auto
  next
    case False
    then have "object_store_free E (Some rg) off w3 = Some (STATUS_NOT_FOUND, w3)"
      using rel w3 object_free_steps(2) [OF w3(1,2) nz] by simp
    then have "dynarray_destroy E rg off w = Some ((), set_mtx (?p + 32) MUninit (set_bytes m1 w))"
      using run by (simp add: w3_def)
    then show ?thesis using False m1(1,2,4) st by auto
  qed
qed

text \<open>C36: \<open>dynarray_destroy\<close> on an array that satisfies the invariant returns, always releases the element
  buffer, uninitializes the mutex and touches no span of another owner. The header object is
  released exactly when the length is even and the low half of the capacity, read as the object's
  size, fits the header's span; otherwise it leaks. Nothing else of the heap changes hands.\<close>

theorem dynarray_destroy_releases:
  assumes h: "heap_inv rg (bytes w)" and r: "ready E w" and o: "dyn_ok (bytes w) (unat off)"
    and l: "mtx w (unat off + 32) = MFree"
  shows "\<exists>m'. dynarray_destroy E rg off w = Some ((), set_mtx (unat off + 32) MUninit (set_bytes m' w)) \<and>
     heap_inv rg m' \<and>
     owner_step (dyn_spans (bytes w) (unat off))
       (if dyn_header_released (bytes w) (unat off) then {} else {unat off}) (bytes w) m' \<and>
     heap_abs m' = heap_abs (bytes w) |` (- (if dyn_header_released (bytes w) (unat off)
       then dyn_spans (bytes w) (unat off) else dyn_buffer (bytes w) (unat off)))"
  using dynarray_destroy_runs [OF h r o l] by (elim exE conjE) (intro exI conjI; assumption)

section \<open>Witnesses\<close>

lemma demo_bounds: "unat (rg_size demo_region) \<le> 2 ^ 61"
  by (simp add: demo_region_def)

text \<open>An array of 8-byte elements, created on the concrete heap, for which six elements are reserved.\<close>

lemma demo_dynarray:
  obtains w w1 :: world and off where "dynarray_create demo_env demo_region 8 demo_world = Some (off, w)"
    "heap_inv demo_region (bytes w)" "ready demo_env w" "dyn_ok (bytes w) (unat off)" "dyn_abs (bytes w) (unat off) = (0, [])"
    "da_elem_size (get_dynarray (bytes w) (unat off)) = 8" "mtx w (unat off + 32) = MFree"
    "dynarray_reserve demo_env demo_region off 6 w = Some (0, w1)" "dyn_inv demo_env demo_region off w w1"
    "dyn_abs (bytes w1) (unat off) = (6, [])" "spare 1140 (bytes w)"
proof -
  have e: "0 < unat (8 :: u64)" and rm: "room 88 (bytes demo_world)" using cost_covers [OF demo_spare, of 88] by (simp_all add: cost_simps)
  have ini: "\<forall>a. rc_mutex_init demo_env a = 0" by (simp add: demo_env_def)
  show thesis
  proof (cases rule: dyn_create_runs [OF demo_facts(2,4) ini e])
    case (1 off m')
    define w where "w = set_mtx (unat off + 32) MFree (set_bytes m' demo_world)"
    have w: "heap_inv demo_region (bytes w)" "ready demo_env w" "dyn_ok (bytes w) (unat off)"
      "dyn_abs (bytes w) (unat off) = (0, [])" "da_elem_size (get_dynarray (bytes w) (unat off)) = 8"
      "mtx w (unat off + 32) = MFree" "dynarray_create demo_env demo_region 8 demo_world = Some (off, w)"
      using 1 by (simp_all add: w_def)
    have sp: "spare 1140 (bytes w)" using paysD [OF 1(11), of 1140] demo_spare by (simp add: w_def cost_simps)
    have rm6: "room (6 * 8) (bytes w)" using cost_covers [OF sp, of 48] by (simp add: cost_simps)
    have es: "unat (da_elem_size (get_dynarray (bytes w) (unat off))) \<le> 2 ^ 60" by (simp add: w(5))
    have n: "unat (6 :: u64) * unat (da_elem_size (get_dynarray (bytes w) (unat off))) \<le> 2 ^ 62" by (simp add: w(5))
    have c0: "da_capacity (get_dynarray (bytes w) (unat off)) = 0" using w(4) by (simp add: dyn_abs_def word_eq_iff_unat)
    have i: "dyn_inv demo_env demo_region off w w" using dyn_inv_start [OF w(1-3,6) demo_bounds es] .
    obtain w1 where "dynarray_reserve demo_env demo_region off 6 w = Some (0, w1)"
    proof (cases rule: dyn_reserve_runs [OF w(1-3,6) n])
      case 1
      then show thesis using c0 by simp
    next
      case (2 m)
      then show thesis using that by blast
    next
      case (3 m)
      then show thesis using rm6 w(5) by simp
    qed
    moreover from this dyn_reserve_refines [OF i n] have "dyn_inv demo_env demo_region off w w1"
        "dyn_abs (bytes w1) (unat off) = (6, [])" by (auto simp: w(4))
    ultimately show thesis using that w sp by blast
  next
    case (2 m')
    then show thesis using rm by blast
  qed
qed

text \<open>Two pushes into the reserved buffer, and before them a reservation no region of this size can hold:
  it is refused, and nothing else is.\<close>

theorem dynarray_sequence_refines_witness:
  "\<exists>w off m'. run_ops (dyn_step demo_env demo_region off)
      [DReserve 288230376151711744, DPush [1,2,3,4,5,6,7,8], DPush [9,9,9,9,9,9,9,9], DGet 0, DGet 2, DLength] w
    = Some ([DCode (- 1), DCode 0, DCode 0, DGot 0 (Some [1,2,3,4,5,6,7,8]), DGot (- 1) None, DCount 2], m')"
proof (rule demo_dynarray)
  fix w0 w :: world and off :: OffsetPtr
  assume i: "dyn_inv demo_env demo_region off w0 w" and a: "dyn_abs (bytes w) (unat off) = (6, [])"
    and e: "da_elem_size (get_dynarray (bytes w0) (unat off)) = 8"
  let ?n = "288230376151711744 :: u64"
  let ?ops = "[DPush [1,2,3,4,5,6,7,8], DPush [9,9,9,9,9,9,9,9], DGet 0, DGet 2, DLength]"
  obtain d: "heap_inv demo_region (bytes w)" "ready demo_env w" "dyn_ok (bytes w) (unat off)" "mtx w (unat off + 32) = MFree"
    "unat (rg_size demo_region) \<le> 2 ^ 61" "unat (da_elem_size (get_dynarray (bytes w) (unat off))) \<le> 2 ^ 60"
    and e8: "da_elem_size (get_dynarray (bytes w) (unat off)) = 8"
    using dyn_invE [OF i] e by metis
  have "\<not> room (?n * 8) (bytes w)" using room_bound [OF d(1), of "?n * 8"] by (auto simp: demo_region_def)
  then have o: "dyn_outcome 8 (DReserve ?n) (bytes w) (6, []) = (DCode (- 1), 6, [])" by (simp add: dyn_outcome_def)
  have "list_all (dyn_op_ok (unat (da_elem_size (get_dynarray (bytes w) (unat off))))) (DReserve ?n # ?ops)" by (simp add: e8)
  from dynarray_sequence_refines [OF d this] obtain rs m' where
    r: "run_ops (dyn_step demo_env demo_region off) (DReserve ?n # ?ops) w = Some (rs, set_bytes m' w)"
      "allowed dyn_spec (DReserve ?n # ?ops) (6, []) rs (dyn_abs m' (unat off))"
      "each_step (dyn_step demo_env demo_region off) (\<lambda>x u res v. (res, dyn_abs (bytes v) (unat off)) =
          dyn_outcome 8 x (bytes u) (dyn_abs (bytes u) (unat off))) (DReserve ?n # ?ops) w"
    by (auto simp only: a e8)
  obtain w1 where "dyn_step demo_env demo_region off (DReserve ?n) w = Some (DCode (- 1), w1)"
    using each_step_first [OF r(3)] o a by (metis prod.inject)
  then obtain rs' where rs: "rs = DCode (- 1) # rs'" using r(1) by (auto simp del: dyn_step.simps split: bind_splits)
  have "rs = [DCode (- 1), DCode 0, DCode 0, DGot 0 (Some [1,2,3,4,5,6,7,8]), DGot (- 1) None, DCount 2]"
    using r(2) unfolding rs by (auto simp: dyn_next_cap_def split: list.splits)
  with r(1) show ?thesis by blast
qed

theorem dynarray_reserve_guarantees_witness:
  "\<exists>w off w2. run_ops (dyn_step demo_env demo_region off) (map DPush [[1,2,3,4,5,6,7,8], [9,9,9,9,9,9,9,9]]) w
      = Some ([DCode 0, DCode 0], w2) \<and> dyn_list (bytes w2) (unat off) = [[1,2,3,4,5,6,7,8], [9,9,9,9,9,9,9,9]]"
proof (rule demo_dynarray)
  fix w w1 :: world and off :: OffsetPtr
  assume d: "heap_inv demo_region (bytes w)" "ready demo_env w" "dyn_ok (bytes w) (unat off)" "mtx w (unat off + 32) = MFree"
    and a: "dyn_abs (bytes w) (unat off) = (0, [])" and e: "da_elem_size (get_dynarray (bytes w) (unat off)) = 8"
    and r: "dynarray_reserve demo_env demo_region off 6 w = Some (0, w1)"
  let ?xs = "[[1,2,3,4,5,6,7,8], [9,9,9,9,9,9,9,9]] :: u8 list list"
  have l: "dyn_list (bytes w) (unat off) = []" using a by (simp add: dyn_abs_def)
  have c: "unat (da_elem_size (get_dynarray (bytes w) (unat off))) \<le> 2 ^ 60"
    "unat (6 :: u64) * unat (da_elem_size (get_dynarray (bytes w) (unat off))) \<le> 2 ^ 62"
    "list_all (\<lambda>x. length x = unat (da_elem_size (get_dynarray (bytes w) (unat off)))) ?xs"
    "length (dyn_list (bytes w) (unat off)) + length ?xs \<le> unat (6 :: u64)" by (simp_all add: e l)
  from dynarray_reserve_guarantees [OF d demo_bounds c(1,2) r c(3,4)] show ?thesis by (auto simp: l)
qed

text \<open>Destroying the array of the reservation releases its buffer and, as its length is even and its capacity
  small, its header.\<close>

theorem dynarray_destroy_releases_witness:
  "\<exists>w off m'. dyn_abs (bytes w) (unat off) = (6, []) \<and>
     dynarray_destroy demo_env demo_region off w = Some ((), set_mtx (unat off + 32) MUninit (set_bytes m' w)) \<and>
     heap_inv demo_region m' \<and> heap_abs m' (unat off) = None \<and> heap_abs m' = heap_abs (bytes w) |` (- dyn_spans (bytes w) (unat off))"
proof (rule demo_dynarray)
  fix w0 w :: world and off :: OffsetPtr
  assume i: "dyn_inv demo_env demo_region off w0 w" and a: "dyn_abs (bytes w) (unat off) = (6, [])"
  obtain d: "heap_inv demo_region (bytes w)" "ready demo_env w" "dyn_ok (bytes w) (unat off)" "mtx w (unat off + 32) = MFree"
    using dyn_invE [OF i] by metis
  obtain n where "heap_abs (bytes w) (unat off) = Some n" "72 \<le> n" using dyn_okE [OF d(3)] by metis
  moreover have "unat (da_capacity (get_dynarray (bytes w) (unat off))) = 6"
    "unat (da_length (get_dynarray (bytes w) (unat off))) = 0"
    using a dyn_list_length [of "bytes w" "unat off"] by (simp_all add: dyn_abs_def)
  ultimately have "dyn_header_released (bytes w) (unat off)" by (simp add: dyn_header_released_def)
  with dynarray_destroy_releases [OF d] obtain m' where
    "dynarray_destroy demo_env demo_region off w = Some ((), set_mtx (unat off + 32) MUninit (set_bytes m' w))"
    "heap_inv demo_region m'" "heap_abs m' = heap_abs (bytes w) |` (- dyn_spans (bytes w) (unat off))" by auto
  moreover from this(3) have "heap_abs m' (unat off) = None" by (simp add: dyn_spans_def)
  ultimately show ?thesis using a by blast
qed

text \<open>Five pushes on the empty array: the first takes a buffer of four elements, the last one of eight.\<close>

theorem dynarray_sequence_funded_witness:
  "\<exists>w off w'. run_ops (dyn_step demo_env demo_region off) (map (\<lambda>i. DPush [i,2,3,4,5,6,7,8]) [1,2,3,4,5] @ [DGet 4, DLength]) w
    = Some ([DCode 0, DCode 0, DCode 0, DCode 0, DCode 0, DGot 0 (Some [5,2,3,4,5,6,7,8]), DCount 5], w')"
proof (rule demo_dynarray)
  fix w :: world and off :: OffsetPtr
  assume d: "heap_inv demo_region (bytes w)" "ready demo_env w" "dyn_ok (bytes w) (unat off)" "mtx w (unat off + 32) = MFree"
    and a: "dyn_abs (bytes w) (unat off) = (0, [])" and e: "da_elem_size (get_dynarray (bytes w) (unat off)) = 8"
    and sp: "spare 1140 (bytes w)"
  let ?ops = "map (\<lambda>i. DPush [i,2,3,4,5,6,7,8]) [1,2,3,4,5] @ [DGet 4, DLength]"
  have c: "unat (da_elem_size (get_dynarray (bytes w) (unat off))) \<le> 2 ^ 60"
    "list_all (dyn_op_ok (unat (da_elem_size (get_dynarray (bytes w) (unat off))))) ?ops"
    "spare (788 + bill (dyn_price (da_elem_size (get_dynarray (bytes w) (unat off)))) dyn_exact ?ops (dyn_abs (bytes w) (unat off))) (bytes w)"
    using sp by (simp_all add: e a dyn_next_cap_def cost_simps)
  from dynarray_sequence_funded [OF d demo_bounds c] show ?thesis by (auto simp: a dyn_next_cap_def)
qed

end
