(* ===== verification/DynList.thy ===== *)
theory DynList
  imports Container
begin

text \<open>
  The linked list of src/containers/dynlist.c, definition by definition. A node is an allocation of
  its own: the links, then the element. The element arguments of the two pushes are passed to
  \<open>memcpy\<close> without a null check and are the bytes at the pointer. Nodes are freed in
  \<open>dynlist_destroy\<close> by the address behind their header, as the code does it; its loop follows links
  in memory the frees may have changed and need not end, so it is a partial function.
\<close>

section \<open>Layout\<close>

definition DL_length :: nat where "DL_length = 0"
definition DL_elem_size :: nat where "DL_elem_size = 8"
definition DL_head :: nat where "DL_head = 16"
definition DL_tail :: nat where "DL_tail = 24"
definition DL_lock :: nat where "DL_lock = 32"
definition SIZEOF_DynListHeader :: u64 where "SIZEOF_DynListHeader = 72"
definition DLN_next :: nat where "DLN_next = 0"
definition DLN_prev :: nat where "DLN_prev = 8"
definition SIZEOF_DynListNodeHeader :: u64 where "SIZEOF_DynListNodeHeader = 16"

lemmas dynlist_layout [layout, simp] =
  DL_length_def DL_elem_size_def DL_head_def DL_tail_def DL_lock_def SIZEOF_DynListHeader_def
  DLN_next_def DLN_prev_def SIZEOF_DynListNodeHeader_def

record DynListHeader =
  dl_length :: u64
  dl_elem_size :: u64
  dl_head :: OffsetPtr
  dl_tail :: OffsetPtr

record DynListNodeHeader =
  dn_next :: OffsetPtr
  dn_prev :: OffsetPtr

definition get_dynlist :: "mem \<Rightarrow> nat \<Rightarrow> DynListHeader" where
  "get_dynlist m h =
     \<lparr>dl_length = ld64 m (h + DL_length), dl_elem_size = ld64 m (h + DL_elem_size),
      dl_head = ld64 m (h + DL_head), dl_tail = ld64 m (h + DL_tail)\<rparr>"

definition get_node :: "mem \<Rightarrow> nat \<Rightarrow> DynListNodeHeader" where
  "get_node m a = \<lparr>dn_next = ld64 m (a + DLN_next), dn_prev = ld64 m (a + DLN_prev)\<rparr>"

section \<open>Helpers\<close>

definition dynlist_resolve_header :: "ShmRegion \<Rightarrow> OffsetPtr \<Rightarrow> u64 option" where
  "dynlist_resolve_header rg list_offset =
     offset_ptr_try_resolve (rg_base rg) (rg_size rg) list_offset SIZEOF_DynListHeader True"

definition dynlist_resolve_node :: "ShmRegion \<Rightarrow> OffsetPtr \<Rightarrow> u64 option" where
  "dynlist_resolve_node rg node_offset =
     offset_ptr_try_resolve (rg_base rg) (rg_size rg) node_offset SIZEOF_DynListNodeHeader True"

definition dynlist_lock :: "env \<Rightarrow> nat \<Rightarrow> world \<Rightarrow> world option" where
  "dynlist_lock E h w = container_lock E (h + DL_lock) w"

definition dynlist_unlock :: "env \<Rightarrow> nat \<Rightarrow> world \<Rightarrow> world" where
  "dynlist_unlock E h w = container_unlock E (h + DL_lock) w"

text \<open>\<open>hdr->length++\<close>\<close>

definition dynlist_count_up :: "nat \<Rightarrow> mem \<Rightarrow> mem" where
  "dynlist_count_up h m = st64 m (h + DL_length) (ld64 m (h + DL_length) + 1)"

section \<open>Creation and destruction\<close>

definition dynlist_create :: "env \<Rightarrow> ShmRegion \<Rightarrow> u64 \<Rightarrow> world \<Rightarrow> OffsetPtr result" where
  "dynlist_create E rg elem_size w =
     (if elem_size = 0 then Some (offset_ptr_null, w)
      else do {
        ((status, obj), w1) \<leftarrow> object_store_alloc E (Some rg) 1 SIZEOF_DynListHeader True w;
        if status \<noteq> STATUS_OK then Some (offset_ptr_null, w1)
        else
          let hdr_ptr = the obj in
          case dynlist_resolve_header rg hdr_ptr of
            None \<Rightarrow> Some (offset_ptr_null, w1)
          | Some hdr \<Rightarrow>
              let h = roff rg hdr;
                  m1 = st64 (bytes w1) (h + DL_length) 0;
                  m2 = st64 m1 (h + DL_elem_size) elem_size;
                  m3 = st64 m2 (h + DL_head) offset_ptr_null;
                  m4 = st64 m3 (h + DL_tail) offset_ptr_null
              in Some (hdr_ptr, snd (pthread_mutex_init E (h + DL_lock) (set_bytes m4 w1)))
      })"

partial_function (option) dynlist_destroy_loop ::
    "env \<Rightarrow> ShmRegion \<Rightarrow> OffsetPtr \<Rightarrow> world \<Rightarrow> world option" where
  "dynlist_destroy_loop E rg cur w =
     (if offset_ptr_is_null cur then Some w
      else case dynlist_resolve_node rg cur of
        None \<Rightarrow> Some w
      | Some node \<Rightarrow> do {
          (_, w1) \<leftarrow> allocator_free E (Some rg) (node + SIZEOF_DynListNodeHeader) w;
          dynlist_destroy_loop E rg (dn_next (get_node (bytes w1) (roff rg node))) w1
        })"

definition dynlist_destroy :: "env \<Rightarrow> ShmRegion \<Rightarrow> OffsetPtr \<Rightarrow> world \<Rightarrow> unit result" where
  "dynlist_destroy E rg list_offset w =
     (case dynlist_resolve_header rg list_offset of
        None \<Rightarrow> Some ((), w)
      | Some hp \<Rightarrow>
          let h = roff rg hp in do {
            w1 \<leftarrow> dynlist_lock E h w;
            w2 \<leftarrow> dynlist_destroy_loop E rg (dl_head (get_dynlist (bytes w1) h)) w1;
            let w3 = pthread_mutex_destroy (h + DL_lock) (dynlist_unlock E h w2);
            (_, w4) \<leftarrow> object_store_free E (Some rg) list_offset w3;
            Some ((), w4)
          })"

section \<open>Insertion\<close>

definition dynlist_insert_node ::
    "env \<Rightarrow> ShmRegion \<Rightarrow> nat \<Rightarrow> OffsetPtr \<Rightarrow> u8 list \<Rightarrow> world \<Rightarrow> int result" where
  "dynlist_insert_node E rg h after elem w =
     (let node_total = SIZEOF_DynListNodeHeader + dl_elem_size (get_dynlist (bytes w) h) in
      do {
        ((status, ptr), w1) \<leftarrow> allocator_alloc E (Some rg) node_total 16 True w;
        if status \<noteq> STATUS_OK then Some (- 1, w1)
        else
          let buf = the ptr in
          case offset_ptr_try_from_raw (rg_base rg) (rg_size rg) buf True of
            None \<Rightarrow> do { (_, w2) \<leftarrow> allocator_free E (Some rg) buf w1; Some (- 1, w2) }
          | Some node_offset \<Rightarrow>
              let n = roff rg buf;
                  m1 = st64 (bytes w1) (n + DLN_next) offset_ptr_null;
                  m2 = st64 m1 (n + DLN_prev) offset_ptr_null;
                  m3 = wr m2 (roff rg (buf + SIZEOF_DynListNodeHeader))
                         (take (unat (dl_elem_size (get_dynlist m2 h))) elem)
              in
              if offset_ptr_is_null after then
                let m4 = st64 m3 (h + DL_head) node_offset;
                    m5 = st64 m4 (h + DL_tail) node_offset
                in Some (0, set_bytes (dynlist_count_up h m5) w1)
              else case dynlist_resolve_node rg after of
                None \<Rightarrow> do { (_, w2) \<leftarrow> allocator_free E (Some rg) buf (set_bytes m3 w1); Some (- 1, w2) }
              | Some after_node \<Rightarrow>
                  let a = roff rg after_node;
                      m4 = st64 m3 (n + DLN_prev) after;
                      m5 = st64 m4 (n + DLN_next) (dn_next (get_node m4 a));
                      m6 = st64 m5 (a + DLN_next) node_offset;
                      next = dn_next (get_node m6 n);
                      m7 = (if \<not> offset_ptr_is_null next then
                              (case dynlist_resolve_node rg next of
                                 None \<Rightarrow> m6
                               | Some next_node \<Rightarrow> st64 m6 (roff rg next_node + DLN_prev) node_offset)
                            else st64 m6 (h + DL_tail) node_offset)
                  in Some (0, set_bytes (dynlist_count_up h m7) w1)
      })"

definition dynlist_push_back :: "env \<Rightarrow> ShmRegion \<Rightarrow> OffsetPtr \<Rightarrow> u8 list \<Rightarrow> world \<Rightarrow> int result" where
  "dynlist_push_back E rg list_offset elem w =
     (case dynlist_resolve_header rg list_offset of
        None \<Rightarrow> Some (- 1, w)
      | Some hp \<Rightarrow>
          let h = roff rg hp in do {
            w1 \<leftarrow> dynlist_lock E h w;
            (rc, w2) \<leftarrow> dynlist_insert_node E rg h (dl_tail (get_dynlist (bytes w1) h)) elem w1;
            Some (rc, dynlist_unlock E h w2)
          })"

definition dynlist_push_front :: "env \<Rightarrow> ShmRegion \<Rightarrow> OffsetPtr \<Rightarrow> u8 list \<Rightarrow> world \<Rightarrow> int result" where
  "dynlist_push_front E rg list_offset elem w =
     (case dynlist_resolve_header rg list_offset of
        None \<Rightarrow> Some (- 1, w)
      | Some hp \<Rightarrow>
          let h = roff rg hp in do {
            w1 \<leftarrow> dynlist_lock E h w;
            let hdr = get_dynlist (bytes w1) h;
            if offset_ptr_is_null (dl_head hdr) then do {
              (rc, w2) \<leftarrow> dynlist_insert_node E rg h offset_ptr_null elem w1;
              Some (rc, dynlist_unlock E h w2)
            }
            else do {
              ((status, ptr), w2) \<leftarrow>
                allocator_alloc E (Some rg) (SIZEOF_DynListNodeHeader + dl_elem_size hdr) 16 True w1;
              if status \<noteq> STATUS_OK then Some (- 1, dynlist_unlock E h w2)
              else
                let buf = the ptr in
                case offset_ptr_try_from_raw (rg_base rg) (rg_size rg) buf True of
                  None \<Rightarrow> do {
                    (_, w3) \<leftarrow> allocator_free E (Some rg) buf w2;
                    Some (- 1, dynlist_unlock E h w3)
                  }
                | Some node_offset \<Rightarrow>
                    let n = roff rg buf;
                        m1 = st64 (bytes w2) (n + DLN_prev) offset_ptr_null;
                        m2 = st64 m1 (n + DLN_next) (dl_head (get_dynlist m1 h));
                        m3 = wr m2 (roff rg (buf + SIZEOF_DynListNodeHeader))
                               (take (unat (dl_elem_size (get_dynlist m2 h))) elem);
                        m4 = (case dynlist_resolve_node rg (dl_head (get_dynlist m3 h)) of
                                None \<Rightarrow> m3
                              | Some old_head \<Rightarrow> st64 m3 (roff rg old_head + DLN_prev) node_offset);
                        m5 = st64 m4 (h + DL_head) node_offset;
                        m6 = (if offset_ptr_is_null (dl_tail (get_dynlist m5 h))
                              then st64 m5 (h + DL_tail) node_offset else m5)
                    in Some (0, dynlist_unlock E h (set_bytes (dynlist_count_up h m6) w2))
            }
          })"

section \<open>Access\<close>

text \<open>The loop of \<open>dynlist_get\<close>: \<open>k\<close> steps along the next links from \<open>cur\<close>.\<close>

fun dynlist_walk :: "ShmRegion \<Rightarrow> mem \<Rightarrow> OffsetPtr \<Rightarrow> nat \<Rightarrow> OffsetPtr option" where
  "dynlist_walk rg m cur 0 = Some cur"
| "dynlist_walk rg m cur (Suc k) =
     (case dynlist_resolve_node rg cur of
        None \<Rightarrow> None
      | Some node \<Rightarrow> dynlist_walk rg m (dn_next (get_node m (roff rg node))) k)"

definition dynlist_get ::
    "env \<Rightarrow> ShmRegion \<Rightarrow> OffsetPtr \<Rightarrow> u64 \<Rightarrow> bool \<Rightarrow> world \<Rightarrow> (int \<times> u8 list option) result" where
  "dynlist_get E rg list_offset index out_nonnull w =
     (if \<not> out_nonnull then Some ((- 1, None), w)
      else case dynlist_resolve_header rg list_offset of
        None \<Rightarrow> Some ((- 1, None), w)
      | Some hp \<Rightarrow>
          let h = roff rg hp in do {
            w1 \<leftarrow> dynlist_lock E h w;
            let hdr = get_dynlist (bytes w1) h;
            if dl_length hdr \<le> index then Some ((- 1, None), dynlist_unlock E h w1)
            else case dynlist_walk rg (bytes w1) (dl_head hdr) (unat index) of
              None \<Rightarrow> Some ((- 1, None), dynlist_unlock E h w1)
            | Some cur \<Rightarrow>
                (case dynlist_resolve_node rg cur of
                   None \<Rightarrow> Some ((- 1, None), dynlist_unlock E h w1)
                 | Some target \<Rightarrow>
                     let out = rd (bytes w1) (roff rg (target + SIZEOF_DynListNodeHeader)) (unat (dl_elem_size hdr))
                     in Some ((0, Some out), dynlist_unlock E h w1))
          })"

definition dynlist_length :: "env \<Rightarrow> ShmRegion \<Rightarrow> OffsetPtr \<Rightarrow> world \<Rightarrow> u64 result" where
  "dynlist_length E rg list_offset w =
     (case dynlist_resolve_header rg list_offset of
        None \<Rightarrow> Some (0, w)
      | Some hp \<Rightarrow>
          let h = roff rg hp in do {
            w1 \<leftarrow> dynlist_lock E h w;
            Some (dl_length (get_dynlist (bytes w1) h), dynlist_unlock E h w1)
          })"

end
