(* ===== verification/DynListSpec.thy ===== *)
theory DynListSpec
  imports DynList
begin

text \<open>
  The linked list implements a list of byte strings. \<open>dl_repr m p ps\<close> says that the list at \<open>p\<close> is
  well linked in both directions through the nodes \<open>ps\<close>, each an allocation of its own; the node
  list is a function of the bytes (\<open>dl_nodes\<close>). A push allocates one node and changes only the
  links of its neighbour and the header.
\<close>

section \<open>Representation\<close>

fun dl_chain :: "mem \<Rightarrow> nat \<Rightarrow> nat \<Rightarrow> nat list" where
  "dl_chain m 0 c = []"
| "dl_chain m (Suc k) c = c # dl_chain m k (unat (ld64 m c))"

definition dl_nodes :: "mem \<Rightarrow> nat \<Rightarrow> nat list" where
  "dl_nodes m p = dl_chain m (unat (dl_length (get_dynlist m p))) (unat (dl_head (get_dynlist m p)))"

text \<open>The offset of the \<open>i\<close>-th node, null behind the end.\<close>

definition node_at :: "nat list \<Rightarrow> nat \<Rightarrow> nat" where
  "node_at ps i = (if i < length ps then ps ! i else 0)"

definition dl_links :: "mem \<Rightarrow> nat list \<Rightarrow> bool" where
  "dl_links m ps \<longleftrightarrow>
     (\<forall>i < length ps. unat (ld64 m (ps ! i)) = node_at ps (Suc i) \<and>
        unat (ld64 m (ps ! i + 8)) = (if i = 0 then 0 else ps ! (i - 1)))"

definition dl_repr :: "mem \<Rightarrow> nat \<Rightarrow> nat list \<Rightarrow> bool" where
  "dl_repr m p ps \<longleftrightarrow>
     (let l = get_dynlist m p in
      (\<exists>n. heap_abs m p = Some n \<and> 72 \<le> n) \<and> 0 < unat (dl_elem_size l) \<and> distinct (p # ps) \<and>
      (\<forall>q \<in> set ps. \<exists>k. heap_abs m q = Some k \<and> 16 + unat (dl_elem_size l) \<le> k) \<and>
      unat (dl_length l) = length ps \<and> unat (dl_head l) = node_at ps 0 \<and>
      unat (dl_tail l) = (if ps = [] then 0 else last ps) \<and> dl_links m ps)"

definition list_ok :: "mem \<Rightarrow> nat \<Rightarrow> bool" where
  "list_ok m p \<longleftrightarrow> dl_repr m p (dl_nodes m p)"

definition node_data :: "mem \<Rightarrow> nat \<Rightarrow> nat list \<Rightarrow> u8 list list" where
  "node_data m e ps = map (\<lambda>q. rd m (q + 16) e) ps"

definition dl_list :: "mem \<Rightarrow> nat \<Rightarrow> u8 list list" where
  "dl_list m p = node_data m (unat (dl_elem_size (get_dynlist m p))) (dl_nodes m p)"

text \<open>The spans a list owns.\<close>

definition dl_spans :: "mem \<Rightarrow> nat \<Rightarrow> nat set" where
  "dl_spans m p = insert p (set (dl_nodes m p))"

lemma dl_chain_nodes:
  assumes "dl_links m ps" and "i + k \<le> length ps" and "c = node_at ps i"
  shows "dl_chain m k c = take k (drop i ps)"
  using assms(2,3)
proof (induction k arbitrary: i c)
  case (Suc k)
  then have i: "i < length ps" by simp
  then have "dl_chain m k (unat (ld64 m c)) = take k (drop (Suc i) ps)"
    using Suc assms(1) by (intro Suc.IH) (simp_all add: dl_links_def node_at_def)
  then show ?case using Suc.prems(2) i by (simp add: node_at_def Cons_nth_drop_Suc [symmetric])
qed simp

text \<open>The nodes of a well-linked list are determined by the bytes.\<close>

lemma dl_repr_nodes: "dl_repr m p ps \<Longrightarrow> dl_nodes m p = ps"
  unfolding dl_repr_def dl_nodes_def Let_def using dl_chain_nodes [of m ps 0 "length ps"] by simp

lemma list_okI: "dl_repr m p ps \<Longrightarrow> list_ok m p"
  by (simp add: list_ok_def dl_repr_nodes)

lemma dl_reprD:
  assumes "dl_repr m p ps"
  shows "\<exists>n. heap_abs m p = Some n \<and> 72 \<le> n" and "0 < unat (dl_elem_size (get_dynlist m p))"
    and "distinct ps" and "p \<notin> set ps"
    and "q \<in> set ps \<Longrightarrow> \<exists>k. heap_abs m q = Some k \<and> 16 + unat (dl_elem_size (get_dynlist m p)) \<le> k"
    and "unat (dl_length (get_dynlist m p)) = length ps" and "unat (dl_head (get_dynlist m p)) = node_at ps 0"
    and "unat (dl_tail (get_dynlist m p)) = (if ps = [] then 0 else last ps)" and "dl_links m ps"
  using assms by (simp_all add: dl_repr_def Let_def)

lemma dl_spans_live:
  assumes "dl_repr m p ps" and "q \<in> insert p (set ps)"
  shows "heap_abs m q \<noteq> None"
  using dl_reprD(1) [OF assms(1)] dl_reprD(5) [OF assms(1)] assms(2) by auto

lemma get_dynlist_same: "same_on m m' p (p + 32) \<Longrightarrow> get_dynlist m' p = get_dynlist m p"
  unfolding get_dynlist_def by (simp add: ld64_same_on same_on_def)

text \<open>There are fewer nodes than bytes, so the length does not wrap.\<close>

lemma dl_length_bound:
  assumes h: "heap_inv rg m" and r: "dl_repr m p ps"
  shows "length ps < 2 ^ 63"
proof -
  have "set ps \<subseteq> {..<unat (rg_size rg)}"
  proof
    fix q assume "q \<in> set ps"
    then obtain k where k: "heap_abs m q = Some k" using dl_reprD(5) [OF r] by blast
    show "q \<in> {..<unat (rg_size rg)}" using heap_abs_bounds(2,3) [OF h k] by simp
  qed
  then have "card (set ps) \<le> unat (rg_size rg)" using card_mono [of "{..<unat (rg_size rg)}"] by fastforce
  moreover have "region_ok rg" using h by (simp add: heap_inv_def header_inv_def)
  ultimately show ?thesis using distinct_card [OF dl_reprD(3) [OF r]] region_okD(3) [of rg] by simp
qed

text \<open>A step of another owner keeps the list.\<close>

lemma dl_undisturbed:
  assumes r: "dl_repr m p ps" and u: "undisturbed (insert p (set ps)) m m'"
  shows "get_dynlist m' p = get_dynlist m p" and "dl_repr m' p ps"
    and "node_data m' (unat (dl_elem_size (get_dynlist m p))) ps = node_data m (unat (dl_elem_size (get_dynlist m p))) ps"
proof -
  let ?e = "unat (dl_elem_size (get_dynlist m p))"
  obtain n where n: "heap_abs m p = Some n" "72 \<le> n" using dl_reprD(1) [OF r] by blast
  note pu = undisturbedD [OF u insertI1]
  show g: "get_dynlist m' p = get_dynlist m p"
    using pu(2) [OF n(1)] n(2) by (intro get_dynlist_same) (auto intro: same_on_sub)
  have k: "\<exists>k. heap_abs m' q = Some k \<and> 16 + ?e \<le> k \<and> same_on m m' q (q + 16 + ?e)" if qps: "q \<in> set ps" for q
  proof -
    obtain j where j: "heap_abs m q = Some j" "16 + ?e \<le> j" using dl_reprD(5) [OF r qps] by blast
    show ?thesis using undisturbedD(1,2) [OF u insertI2 [OF qps] j(1)] j(2) by (auto intro: same_on_sub)
  qed
  have ld: "ld64 m' q = ld64 m q" "ld64 m' (q + 8) = ld64 m (q + 8)" if "q \<in> set ps" for q
    using k [OF that] by (auto intro!: ld64_same_on intro: same_on_sub)
  have "dl_links m' ps" using dl_reprD(9) [OF r] ld by (simp add: dl_links_def)
  moreover have "heap_abs m' p = Some n" using pu(1) [OF n(1)] .
  ultimately show "dl_repr m' p ps" using r n(2) k by (fastforce simp: dl_repr_def Let_def g)
  have "rd m' (q + 16) ?e = rd m (q + 16) ?e" if "q \<in> set ps" for q
    using k [OF that] by (auto intro!: rd_same_on intro: same_on_sub)
  then show "node_data m' ?e ps = node_data m ?e ps" by (simp add: node_data_def)
qed

lemma dl_kept:
  assumes r: "dl_repr m p ps" and s: "owner_step S S' m m'" and d: "insert p (set ps) \<inter> S = {}"
  shows "get_dynlist m' p = get_dynlist m p" and "dl_repr m' p ps"
    and "node_data m' (unat (dl_elem_size (get_dynlist m p))) ps = node_data m (unat (dl_elem_size (get_dynlist m p))) ps"
    and "insert p (set ps) \<inter> S' = {}"
proof -
  note u = dl_undisturbed [OF r undisturbed_step [OF s d]]
  show "get_dynlist m' p = get_dynlist m p" "dl_repr m' p ps"
    "node_data m' (unat (dl_elem_size (get_dynlist m p))) ps = node_data m (unat (dl_elem_size (get_dynlist m p))) ps" by (fact u)+
  show "insert p (set ps) \<inter> S' = {}"
    using d dl_spans_live [OF r] private_step_live(2) [OF s] by (fastforce simp: disjoint_iff)
qed

section \<open>Linking a node\<close>

lemma dl_links_snoc:
  assumes l: "dl_links m ps" and ne: "ps \<noteq> []" and d: "distinct ps"
    and b: "\<And>r. r \<in> set ps \<Longrightarrow> ld64 m' (r + 8) = ld64 m (r + 8)"
    and n: "\<And>r. r \<in> set ps \<Longrightarrow> r \<noteq> last ps \<Longrightarrow> ld64 m' r = ld64 m r"
    and q: "unat (ld64 m' (last ps)) = q" "unat (ld64 m' q) = 0" "unat (ld64 m' (q + 8)) = last ps"
  shows "dl_links m' (ps @ [q])"
  unfolding dl_links_def
proof (intro allI impI)
  fix i assume "i < length (ps @ [q])"
  then consider "Suc i < length ps" | "Suc i = length ps" | "i = length ps" by fastforce
  then show "unat (ld64 m' ((ps @ [q]) ! i)) = node_at (ps @ [q]) (Suc i) \<and>
      unat (ld64 m' ((ps @ [q]) ! i + 8)) = (if i = 0 then 0 else (ps @ [q]) ! (i - 1))"
  proof cases
    case 1
    then have "ps ! i \<noteq> last ps" using d ne by (simp add: last_conv_nth nth_eq_iff_index_eq)
    then show ?thesis using 1 l b [of "ps ! i"] n [of "ps ! i"]
      by (auto simp: dl_links_def node_at_def nth_append)
  next
    case 2
    then have "ps ! i = last ps" using ne by (metis last_conv_nth diff_Suc_1)
    have il: "i < length ps" using 2 by simp
    then have "unat (ld64 m (ps ! i + 8)) = (if i = 0 then 0 else ps ! (i - 1))"
      using l unfolding dl_links_def by blast
    then have "unat (ld64 m' (ps ! i + 8)) = (if i = 0 then 0 else ps ! (i - 1))"
      using b [OF nth_mem [OF il]] by simp
    then show ?thesis using 2 q(1) \<open>ps ! i = last ps\<close> by (auto simp: node_at_def nth_append)
  next
    case 3
    then show ?thesis using q(2,3) ne by (auto simp: node_at_def nth_append last_conv_nth)
  qed
qed

lemma dl_links_cons:
  assumes l: "dl_links m ps" and ne: "ps \<noteq> []" and d: "distinct ps"
    and b: "\<And>r. r \<in> set ps \<Longrightarrow> r \<noteq> hd ps \<Longrightarrow> ld64 m' (r + 8) = ld64 m (r + 8)"
    and n: "\<And>r. r \<in> set ps \<Longrightarrow> ld64 m' r = ld64 m r"
    and q: "unat (ld64 m' (hd ps + 8)) = q" "unat (ld64 m' q) = hd ps" "unat (ld64 m' (q + 8)) = 0"
  shows "dl_links m' (q # ps)"
  unfolding dl_links_def
proof (intro allI impI)
  fix i assume i: "i < length (q # ps)"
  show "unat (ld64 m' ((q # ps) ! i)) = node_at (q # ps) (Suc i) \<and>
      unat (ld64 m' ((q # ps) ! i + 8)) = (if i = 0 then 0 else (q # ps) ! (i - 1))"
  proof (cases i)
    case 0
    then show ?thesis using q(2,3) ne by (simp add: node_at_def hd_conv_nth)
  next
    case (Suc j)
    then have j: "j < length ps" using i by simp
    then have nx: "unat (ld64 m' (ps ! j)) = node_at ps (Suc j)" using l n by (simp add: dl_links_def)
    have pv: "unat (ld64 m' (ps ! j + 8)) = (if j = 0 then q else ps ! (j - 1))"
    proof (cases "j = 0")
      case True
      then show ?thesis using q(1) ne by (simp add: hd_conv_nth)
    next
      case False
      then have "ps ! j \<noteq> hd ps" using j d ne by (simp add: hd_conv_nth nth_eq_iff_index_eq)
      then show ?thesis using False j l b by (simp add: dl_links_def)
    qed
    show ?thesis using nx pv Suc by (auto simp: node_at_def nth_Cons')
  qed
qed

text \<open>A node has been granted at \<open>q\<close>: how the spans lie, and that writing into the list's own spans is
  a step of its owner.\<close>

definition dl_granted :: "ShmRegion \<Rightarrow> nat \<Rightarrow> nat list \<Rightarrow> mem \<Rightarrow> nat \<Rightarrow> nat \<Rightarrow> mem \<Rightarrow> bool" where
  "dl_granted rg p ps m q k m1 \<longleftrightarrow>
     heap_inv rg m \<and> dl_repr m p ps \<and> heap_inv rg m1 \<and> heap_abs m q = None \<and> heap_abs m1 = (heap_abs m)(q \<mapsto> k) \<and>
     16 + unat (dl_elem_size (get_dynlist m p)) \<le> k \<and> owner_step {} {q} m m1 \<and>
     pays spare (alloc_cost (16 + dl_elem_size (get_dynlist m p))) m m1"

lemma dl_grantedD:
  assumes g: "dl_granted rg p ps m q k m1"
  defines "e \<equiv> unat (dl_elem_size (get_dynlist m p))"
  shows "q \<notin> insert p (set ps)" and "get_dynlist m1 p = get_dynlist m p" and "dl_repr m1 p ps"
    and "node_data m1 e ps = node_data m e ps" and "unat (of_nat q :: u64) = q" and "(of_nat q :: u64) \<noteq> 0"
    and "u \<in> insert q (set ps) \<Longrightarrow> u + (16 + e) \<le> p \<or> p + 72 \<le> u"
    and "u \<in> insert q (set ps) \<Longrightarrow> v \<in> insert q (set ps) \<Longrightarrow> u \<noteq> v \<Longrightarrow> u + (16 + e) \<le> v \<or> v + (16 + e) \<le> u"
proof -
  have h: "heap_inv rg m" "dl_repr m p ps" "heap_inv rg m1" "heap_abs m q = None" "heap_abs m1 = (heap_abs m)(q \<mapsto> k)"
    "16 + e \<le> k" "owner_step {} {q} m m1" using g by (simp_all add: dl_granted_def e_def)
  note kp = dl_kept [OF h(2,7)]
  show q: "q \<notin> insert p (set ps)" using kp(4) by auto
  show "get_dynlist m1 p = get_dynlist m p" "dl_repr m1 p ps" "node_data m1 e ps = node_data m e ps"
    using kp(1-3) by (simp_all add: e_def)
  have q1: "heap_abs m1 q = Some k" using h(5) by simp
  show uq: "unat (of_nat q :: u64) = q" by (rule payload_pointer(1) [OF h(3) q1])
  then show "(of_nat q :: u64) \<noteq> 0" using heap_abs_bounds(1) [OF h(3) q1] by auto
  obtain n where n: "heap_abs m1 p = Some n" "72 \<le> n" using dl_reprD(1) [OF kp(2)] by auto
  have sp: "\<exists>j. heap_abs m1 u = Some j \<and> 16 + e \<le> j" if "u \<in> insert q (set ps)" for u
    using that q1 h(6) dl_reprD(5) [OF kp(2), of u] kp(1) by (auto simp: e_def)
  show "u + (16 + e) \<le> p \<or> p + 72 \<le> u" if u: "u \<in> insert q (set ps)"
  proof -
    obtain j where j: "heap_abs m1 u = Some j" "16 + e \<le> j" using sp [OF u] by blast
    have "u \<noteq> p" using u q dl_reprD(4) [OF h(2)] by auto
    then show ?thesis using heap_abs_disjoint [OF h(3) j(1) n(1)] j(2) n(2) by linarith
  qed
  show "u + (16 + e) \<le> v \<or> v + (16 + e) \<le> u" if uv: "u \<in> insert q (set ps)" "v \<in> insert q (set ps)" "u \<noteq> v"
  proof -
    obtain j i where j: "heap_abs m1 u = Some j" "16 + e \<le> j" "heap_abs m1 v = Some i" "16 + e \<le> i"
      using sp [OF uv(1)] sp [OF uv(2)] by blast
    then show ?thesis using heap_abs_disjoint [OF h(3) j(1,3) uv(3)] by linarith
  qed
qed

lemma dl_granted_step:
  assumes g: "dl_granted rg p ps m q k m1"
    and w: "\<And>x. (x < p \<or> p + 72 \<le> x) \<Longrightarrow>
      (\<And>u. u \<in> insert q (set ps) \<Longrightarrow> x < u \<or> u + (16 + unat (dl_elem_size (get_dynlist m p))) \<le> x) \<Longrightarrow> m' x = m1 x"
  shows "heap_inv rg m'" and "heap_abs m' = (heap_abs m)(q \<mapsto> k)"
    and "owner_step (insert p (set ps)) (insert p (insert q (set ps))) m m'"
    and "pays spare (alloc_cost (16 + dl_elem_size (get_dynlist m p))) m m'"
proof -
  let ?T = "insert p (insert q (set ps))" and ?e = "unat (dl_elem_size (get_dynlist m p))"
  have h: "heap_inv rg m" "dl_repr m p ps" "heap_inv rg m1" "heap_abs m1 = (heap_abs m)(q \<mapsto> k)"
    "16 + ?e \<le> k" "owner_step {} {q} m m1" "pays spare (alloc_cost (16 + dl_elem_size (get_dynlist m p))) m m1"
    using g by (simp_all add: dl_granted_def)
  note d = dl_grantedD [OF g]
  have "insert p (set ps) \<subseteq> dom (heap_abs m)" using dl_spans_live [OF h(2)] by (auto simp: domIff)
  then have sub: "?T \<subseteq> dom (heap_abs m1)" using h(4) by auto
  have o: "m' x = m1 x" if x: "\<And>u n. u \<in> ?T \<Longrightarrow> heap_abs m1 u = Some n \<Longrightarrow> x < u \<or> u + n \<le> x" for x
  proof (rule w)
    obtain n where "heap_abs m1 p = Some n" "72 \<le> n" using dl_reprD(1) [OF d(3)] by auto
    then show "x < p \<or> p + 72 \<le> x" using x [of p n] by auto
    fix u assume u: "u \<in> insert q (set ps)"
    obtain j where "heap_abs m1 u = Some j" "16 + ?e \<le> j"
      using u h(4,5) dl_reprD(5) [OF d(3), of u] d(2) by fastforce
    then show "x < u \<or> u + (16 + ?e) \<le> x" using x [of u j] u by auto
  qed
  have f: "finite ?T" by simp
  note s = svc.own_steps [OF f h(3) sub o]
  show "heap_inv rg m'" "heap_abs m' = (heap_abs m)(q \<mapsto> k)" using s h(4) by simp_all
  have "spare N m' = spare N m1" for N using svc.own_steps [OF f h(3) sub o, where N = N] by blast
  then show "pays spare (alloc_cost (16 + dl_elem_size (get_dynlist m p))) m m'" using h(7) by (simp add: pays_def)
  have "owner_step (insert p (set ps)) ?T m m1"
    using private_step_widen [OF h(6), of "insert p (set ps)"] by (simp add: insert_commute)
  then show "owner_step (insert p (set ps)) ?T m m'" using s svc.step_trans [OF h(1)] by blast
qed

section \<open>The bytes after an insertion\<close>

text \<open>The node's first contents, as \<open>dynlist_insert_node\<close> writes them.\<close>

definition node_init :: "nat \<Rightarrow> u8 list \<Rightarrow> mem \<Rightarrow> mem" where
  "node_init q x m = wr (st64 (st64 m q 0) (q + 8) 0) (q + 16) x"

text \<open>What every insertion achieves: the node list \<open>qs\<close> with the new element where the node is.\<close>

definition dl_added :: "ShmRegion \<Rightarrow> nat \<Rightarrow> nat list \<Rightarrow> nat list \<Rightarrow> mem \<Rightarrow> mem \<Rightarrow> bool" where
  "dl_added rg p ps qs m m' \<longleftrightarrow>
     heap_inv rg m' \<and> dl_repr m' p qs \<and> dl_elem_size (get_dynlist m' p) = dl_elem_size (get_dynlist m p) \<and>
     owner_step (insert p (set ps)) (insert p (set qs)) m m' \<and>
     pays spare (alloc_cost (16 + dl_elem_size (get_dynlist m p))) m m'"

lemma dl_addedI:
  assumes g: "dl_granted rg p ps m q k m1"
    and w: "\<And>x. (x < p \<or> p + 72 \<le> x) \<Longrightarrow>
      (\<And>u. u \<in> insert q (set ps) \<Longrightarrow> x < u \<or> u + (16 + unat (dl_elem_size (get_dynlist m p))) \<le> x) \<Longrightarrow> m' x = m1 x"
    and qs: "set qs = insert q (set ps)" "distinct qs" "length qs = Suc (length ps)"
    and l: "dl_links m' qs"
    and hd: "dl_length (get_dynlist m' p) = dl_length (get_dynlist m p) + 1"
      "dl_elem_size (get_dynlist m' p) = dl_elem_size (get_dynlist m p)"
      "unat (dl_head (get_dynlist m' p)) = hd qs" "unat (dl_tail (get_dynlist m' p)) = last qs"
  shows "dl_added rg p ps qs m m'"
proof -
  have h: "heap_inv rg m" "dl_repr m p ps" "16 + unat (dl_elem_size (get_dynlist m p)) \<le> k"
    using g by (simp_all add: dl_granted_def)
  note st = dl_granted_step [OF g w] and d = dl_grantedD [OF g]
  have "unat (dl_length (get_dynlist m p) + 1) = Suc (length ps)"
    using dl_length_bound [OF h(1,2)] dl_reprD(6) [OF h(2)] by (subst unat_add_nowrap) simp_all
  moreover have "qs \<noteq> []" using qs(3) by auto
  moreover have "\<exists>n. heap_abs m' p = Some n \<and> 72 \<le> n" using dl_reprD(1) [OF h(2)] d(1) st(2) by simp
  moreover have "\<forall>u \<in> set qs. \<exists>j. heap_abs m' u = Some j \<and> 16 + unat (dl_elem_size (get_dynlist m p)) \<le> j"
    using dl_reprD(5) [OF h(2)] h(3) qs(1) st(2) by auto
  moreover have "p \<notin> set qs" using dl_reprD(4) [OF h(2)] d(1) qs(1) by auto
  ultimately have "dl_repr m' p qs"
    using qs dl_reprD(2) [OF h(2)] l hd by (simp add: dl_repr_def Let_def node_at_def hd_conv_nth)
  then show ?thesis using st hd(2) qs(1) by (simp add: dl_added_def)
qed

lemma dl_first_mem:
  assumes g: "dl_granted rg p [] m q k m1" and x: "length x = unat (dl_elem_size (get_dynlist m p))"
  defines "m' \<equiv> dynlist_count_up p (st64 (st64 (node_init q x m1) (p + 16) (of_nat q)) (p + 24) (of_nat q))"
  shows "dl_added rg p [] [q] m m'" and "node_data m' (length x) [q] = [x]"
    and "get_dynlist (st64 (st64 m1 q 0) (q + 8) 0) p = get_dynlist m p"
proof -
  note d = dl_grantedD [OF g]
  have ap: "q + (16 + length x) \<le> p \<or> p + 72 \<le> q" using d(7) [of q] x by simp
  have g1: "get_dynlist m1 p = get_dynlist m p" by (rule d(2))
  show "get_dynlist (st64 (st64 m1 q 0) (q + 8) 0) p = get_dynlist m p"
    using ap g1 by (auto simp: get_dynlist_def)
  have hd: "get_dynlist m' p = (get_dynlist m p)\<lparr>dl_length := dl_length (get_dynlist m p) + 1, dl_head := of_nat q, dl_tail := of_nat q\<rparr>"
    using ap g1 by (auto simp: m'_def get_dynlist_def dynlist_count_up_def node_init_def)
  have nd: "ld64 m' q = 0" "ld64 m' (q + 8) = 0"
    using ap by (auto simp: m'_def dynlist_count_up_def node_init_def)
  have data: "rd m' (q + 16) (length x) = x"
    using ap by (auto simp: m'_def dynlist_count_up_def node_init_def st64_def [of _ p] st64_def [of _ "p + 16"] st64_def [of _ "p + 24"])
  show "node_data m' (length x) [q] = [x]" using data by (simp add: node_data_def)
  show "dl_added rg p [] [q] m m'"
  proof (rule dl_addedI [OF g])
    fix y assume "y < p \<or> p + 72 \<le> y"
      "\<And>u. u \<in> insert q (set []) \<Longrightarrow> y < u \<or> u + (16 + unat (dl_elem_size (get_dynlist m p))) \<le> y"
    then show "m' y = m1 y" using x
      by (auto simp: m'_def dynlist_count_up_def node_init_def st64_outside wr_outside)
  qed (use hd nd d(5) in \<open>simp_all add: dl_links_def node_at_def\<close>)
qed

lemma dl_back_mem:
  assumes g: "dl_granted rg p ps m q k m1" and ne: "ps \<noteq> []" and x: "length x = unat (dl_elem_size (get_dynlist m p))"
  defines "t \<equiv> last ps"
  defines "m' \<equiv> dynlist_count_up p (st64 (st64 (st64 (st64 (node_init q x m1) (q + 8) (of_nat t)) q 0) t (of_nat q)) (p + 24) (of_nat q))"
  shows "dl_added rg p ps (ps @ [q]) m m'" and "node_data m' (length x) (ps @ [q]) = node_data m (length x) ps @ [x]"
    and "ld64 (st64 (node_init q x m1) (q + 8) (of_nat t)) t = 0"
    and "ld64 (st64 (st64 (st64 (node_init q x m1) (q + 8) (of_nat t)) q 0) t (of_nat q)) q = 0"
proof -
  have h: "heap_inv rg m" "dl_repr m p ps" using g by (simp_all add: dl_granted_def)
  note d = dl_grantedD [OF g] and r1 = dl_grantedD(3) [OF g]
  have tin: "t \<in> set ps" using ne by (simp add: t_def)
  have ut: "unat (of_nat t :: u64) = t"
  proof -
    have "t = unat (dl_tail (get_dynlist m p))" using dl_reprD(8) [OF h(2)] ne by (simp add: t_def)
    then show ?thesis by simp
  qed
  have apq: "q + (16 + length x) \<le> p \<or> p + 72 \<le> q" using d(7) [of q] x by simp
  have apu: "u + (16 + length x) \<le> p \<or> p + 72 \<le> u" if "u \<in> set ps" for u using d(7) [of u] that x by simp
  have apuq: "u + (16 + length x) \<le> q \<or> q + (16 + length x) \<le> u" if "u \<in> set ps" for u
    using d(8) [of u q] that x d(1) by auto
  have apt: "u + (16 + length x) \<le> t \<or> t + (16 + length x) \<le> u" if "u \<in> set ps" "u \<noteq> t" for u
    using d(8) [of u t] that x tin by auto
  note dfs = dynlist_count_up_def node_init_def
  have tl: "unat (ld64 m1 t) = 0"
  proof -
    have i: "length ps - 1 < length ps" "ps ! (length ps - 1) = t" using ne by (simp_all add: t_def last_conv_nth)
    then show ?thesis using dl_reprD(9) [OF r1] ne unfolding dl_links_def node_at_def by fastforce
  qed
  then have "ld64 m1 t = 0" by (simp add: word_eq_iff_unat)
  then show "ld64 (st64 (node_init q x m1) (q + 8) (of_nat t)) t = 0"
    using apuq [OF tin] by (auto simp: dfs)
  show "ld64 (st64 (st64 (st64 (node_init q x m1) (q + 8) (of_nat t)) q 0) t (of_nat q)) q = 0"
    using apuq [OF tin] by auto
  have "get_dynlist m' p = (get_dynlist m1 p)\<lparr>dl_length := dl_length (get_dynlist m1 p) + 1, dl_tail := of_nat q\<rparr>"
    using apq apu [OF tin] by (auto simp: m'_def get_dynlist_def dfs)
  then have hd: "get_dynlist m' p = (get_dynlist m p)\<lparr>dl_length := dl_length (get_dynlist m p) + 1, dl_tail := of_nat q\<rparr>"
    using d(2) by simp
  have out: "m' y = m1 y" if "y < p \<or> p + 32 \<le> y" "y < q \<or> q + (16 + length x) \<le> y" "y < t \<or> t + 8 \<le> y" for y
    using that by (auto simp: m'_def dfs st64_outside wr_outside)
  have b: "ld64 m' (u + 8) = ld64 m1 (u + 8)" and da: "rd m' (u + 16) (length x) = rd m1 (u + 16) (length x)" if "u \<in> set ps" for u
  proof -
    have "m' y = m1 y" if y: "u + 8 \<le> y" "y < u + 16 + length x" for y
      using apu [OF \<open>u \<in> set ps\<close>] apuq [OF \<open>u \<in> set ps\<close>] apt [OF \<open>u \<in> set ps\<close>] y by (intro out) fastforce+
    then have "same_on m1 m' (u + 8) (u + 16 + length x)" by (simp add: same_on_def)
    then show "ld64 m' (u + 8) = ld64 m1 (u + 8)" "rd m' (u + 16) (length x) = rd m1 (u + 16) (length x)"
      by (auto intro!: ld64_same_on rd_same_on intro: same_on_sub)
  qed
  have n: "ld64 m' u = ld64 m1 u" if u: "u \<in> set ps" "u \<noteq> t" for u
  proof -
    have "m' y = m1 y" if y: "u \<le> y" "y < u + 8" for y
      using apu [OF u(1)] apuq [OF u(1)] apt [OF u] y by (intro out) fastforce+
    then have "same_on m1 m' u (u + 8)" by (simp add: same_on_def)
    then show ?thesis by (rule ld64_same_on)
  qed
  have nd: "ld64 m' t = of_nat q" "ld64 m' q = 0" "ld64 m' (q + 8) = of_nat t"
    using apq apu [OF tin] apuq [OF tin] by (auto simp: m'_def dfs)
  have data: "rd m' (q + 16) (length x) = x"
    using apq apuq [OF tin] by (auto simp: m'_def dfs st64_def [of _ p] st64_def [of _ "p + 24"] st64_def [of _ t]
        st64_def [of _ q] st64_def [of _ "q + 8"])
  have "node_data m' (length x) ps = node_data m1 (length x) ps" using da by (simp add: node_data_def)
  then show "node_data m' (length x) (ps @ [q]) = node_data m (length x) ps @ [x]"
    using d(4) x data by (simp add: node_data_def)
  show "dl_added rg p ps (ps @ [q]) m m'"
  proof (rule dl_addedI [OF g])
    fix y assume y: "y < p \<or> p + 72 \<le> y"
      "\<And>u. u \<in> insert q (set ps) \<Longrightarrow> y < u \<or> u + (16 + unat (dl_elem_size (get_dynlist m p))) \<le> y"
    show "m' y = m1 y" using y(1) y(2) [of q] y(2) [of t] tin x by (intro out) auto
  next
    show "dl_links m' (ps @ [q])"
      using dl_links_snoc [OF dl_reprD(9) [OF r1] ne dl_reprD(3) [OF r1] b n] nd d(5) ut by (simp add: t_def)
  qed (use hd d(1,5) dl_reprD(3,7) [OF h(2)] ne in \<open>simp_all add: node_at_def hd_conv_nth nth_append\<close>)
qed

lemma dl_front_mem:
  assumes g: "dl_granted rg p ps m q k m1" and ne: "ps \<noteq> []" and x: "length x = unat (dl_elem_size (get_dynlist m p))"
  defines "t \<equiv> hd ps"
  defines "m2 \<equiv> st64 (st64 m1 (q + 8) 0) q (of_nat t)"
  defines "m' \<equiv> dynlist_count_up p (st64 (st64 (wr m2 (q + 16) x) (t + 8) (of_nat q)) (p + 16) (of_nat q))"
  shows "dl_added rg p ps (q # ps) m m'" and "node_data m' (length x) (q # ps) = x # node_data m (length x) ps"
    and "get_dynlist (st64 m1 (q + 8) 0) p = get_dynlist m p" and "get_dynlist m2 p = get_dynlist m p"
    and "get_dynlist (wr m2 (q + 16) x) p = get_dynlist m p"
    and "dl_tail (get_dynlist (st64 (st64 (wr m2 (q + 16) x) (t + 8) (of_nat q)) (p + 16) (of_nat q)) p) = dl_tail (get_dynlist m p)"
    and "dl_head (get_dynlist m p) = of_nat t"
proof -
  have h: "heap_inv rg m" "dl_repr m p ps" using g by (simp_all add: dl_granted_def)
  note d = dl_grantedD [OF g] and r1 = dl_grantedD(3) [OF g]
  have tin: "t \<in> set ps" using ne by (simp add: t_def)
  have hw: "unat (dl_head (get_dynlist m p)) = t" using dl_reprD(7) [OF h(2)] ne by (simp add: t_def node_at_def hd_conv_nth)
  then show "dl_head (get_dynlist m p) = of_nat t" by (metis of_nat_unat ucast_id)
  then have ut: "unat (of_nat t :: u64) = t" using hw by simp
  have apq: "q + (16 + length x) \<le> p \<or> p + 72 \<le> q" using d(7) [of q] x by simp
  have apu: "u + (16 + length x) \<le> p \<or> p + 72 \<le> u" if "u \<in> set ps" for u using d(7) [of u] that x by simp
  have apuq: "u + (16 + length x) \<le> q \<or> q + (16 + length x) \<le> u" if "u \<in> set ps" for u
    using d(8) [of u q] that x d(1) by auto
  have apt: "u + (16 + length x) \<le> t \<or> t + (16 + length x) \<le> u" if "u \<in> set ps" "u \<noteq> t" for u
    using d(8) [of u t] that x tin by auto
  note dfs = dynlist_count_up_def m2_def
  show "get_dynlist (st64 m1 (q + 8) 0) p = get_dynlist m p" using apq d(2) by (auto simp: get_dynlist_def)
  show "get_dynlist m2 p = get_dynlist m p" using apq d(2) by (auto simp: get_dynlist_def dfs)
  show g3: "get_dynlist (wr m2 (q + 16) x) p = get_dynlist m p" using apq d(2) by (auto simp: get_dynlist_def dfs)
  then show "dl_tail (get_dynlist (st64 (st64 (wr m2 (q + 16) x) (t + 8) (of_nat q)) (p + 16) (of_nat q)) p) = dl_tail (get_dynlist m p)"
    using apu [OF tin] by (auto simp: get_dynlist_def)
  have "get_dynlist m' p = (get_dynlist m1 p)\<lparr>dl_length := dl_length (get_dynlist m1 p) + 1, dl_head := of_nat q\<rparr>"
    using apq apu [OF tin] by (auto simp: m'_def get_dynlist_def dfs)
  then have hd: "get_dynlist m' p = (get_dynlist m p)\<lparr>dl_length := dl_length (get_dynlist m p) + 1, dl_head := of_nat q\<rparr>"
    using d(2) by simp
  have out: "m' y = m1 y" if "y < p \<or> p + 32 \<le> y" "y < q \<or> q + (16 + length x) \<le> y" "y < t + 8 \<or> t + 16 \<le> y" for y
    using that by (auto simp: m'_def dfs st64_outside wr_outside)
  have n: "ld64 m' u = ld64 m1 u" and da: "rd m' (u + 16) (length x) = rd m1 (u + 16) (length x)" if "u \<in> set ps" for u
  proof -
    have "m' y = m1 y" if y: "u \<le> y \<and> y < u + 8 \<or> u + 16 \<le> y \<and> y < u + 16 + length x" for y
      using apu [OF \<open>u \<in> set ps\<close>] apuq [OF \<open>u \<in> set ps\<close>] apt [OF \<open>u \<in> set ps\<close>] y by (intro out) fastforce+
    then have "same_on m1 m' u (u + 8)" "same_on m1 m' (u + 16) (u + 16 + length x)" by (simp_all add: same_on_def)
    then show "ld64 m' u = ld64 m1 u" "rd m' (u + 16) (length x) = rd m1 (u + 16) (length x)"
      by (auto intro!: ld64_same_on rd_same_on intro: same_on_sub)
  qed
  have b: "ld64 m' (u + 8) = ld64 m1 (u + 8)" if u: "u \<in> set ps" "u \<noteq> t" for u
  proof -
    have "m' y = m1 y" if y: "u + 8 \<le> y" "y < u + 16" for y
      using apu [OF u(1)] apuq [OF u(1)] apt [OF u] y by (intro out) fastforce+
    then have "same_on m1 m' (u + 8) (u + 8 + 8)" by (simp add: same_on_def)
    then show ?thesis by (rule ld64_same_on)
  qed
  have nd: "ld64 m' (t + 8) = of_nat q" "ld64 m' q = of_nat t" "ld64 m' (q + 8) = 0"
    using apq apu [OF tin] apuq [OF tin] by (auto simp: m'_def dfs)
  have data: "rd m' (q + 16) (length x) = x"
    using apq apuq [OF tin] by (auto simp: m'_def dfs st64_def [of _ p] st64_def [of _ "p + 16"] st64_def [of _ "t + 8"])
  have "node_data m' (length x) ps = node_data m1 (length x) ps" using da by (simp add: node_data_def)
  then show "node_data m' (length x) (q # ps) = x # node_data m (length x) ps"
    using d(4) x data by (simp add: node_data_def)
  show "dl_added rg p ps (q # ps) m m'"
  proof (rule dl_addedI [OF g])
    fix y assume y: "y < p \<or> p + 72 \<le> y"
      "\<And>u. u \<in> insert q (set ps) \<Longrightarrow> y < u \<or> u + (16 + unat (dl_elem_size (get_dynlist m p))) \<le> y"
    show "m' y = m1 y" using y(1) y(2) [of q] y(2) [of t] tin x by (intro out) auto
  next
    show "dl_links m' (q # ps)"
      using dl_links_cons [OF dl_reprD(9) [OF r1] ne dl_reprD(3) [OF r1] b n] nd d(5) ut by (simp add: t_def)
  qed (use hd d(1,5) dl_reprD(3,8) [OF h(2)] ne in \<open>simp_all\<close>)
qed

end
