(* ===== verification/DynListRefine.thy ===== *)
theory DynListRefine
  imports DynListSpec
begin

text \<open>
  Every operation of the linked list refines an operation on a list in which the allocation of a
  node may be refused, and the simulation interface carries this to every sequence of operations.
\<close>

section \<open>What the operations compute\<close>

lemma dl_header_resolves:
  assumes h: "heap_inv rg m" and r: "dl_repr m (unat off) ps"
  shows "dynlist_resolve_header rg off = Some (rg_base rg + off)"
proof -
  obtain n where n: "heap_abs m (unat off) = Some n" "72 \<le> n" using dl_reprD(1) [OF r] by blast
  then show ?thesis using span_resolves(1) [OF h n(1), of 72] by (simp add: dynlist_resolve_header_def)
qed

lemma dl_node_resolves:
  assumes h: "heap_inv rg m" and k: "heap_abs m q = Some k" "16 \<le> k"
  shows "dynlist_resolve_node rg (of_nat q) = Some (rg_base rg + of_nat q)"
    and "unat (of_nat q :: u64) = q" and "(of_nat q :: u64) \<noteq> 0" and "roff rg (rg_base rg + of_nat q + 16) = q + 16"
proof -
  show u: "unat (of_nat q :: u64) = q" by (rule payload_pointer(1) [OF h k(1)])
  have l: "heap_abs m (unat (of_nat q :: u64)) = Some k" using k(1) u by simp
  show "dynlist_resolve_node rg (of_nat q) = Some (rg_base rg + of_nat q)"
    using span_resolves(1) [OF h l, of 16] k(2) by (simp add: dynlist_resolve_node_def)
  show "(of_nat q :: u64) \<noteq> 0" using span_resolves(2) [OF h l, of 16] k(2) by simp
  have "q + 16 < 2 ^ 64" using heap_abs_bounds(3) [OF h k(1)] k(2) unat_less_2p64 [of "rg_size rg"] by simp
  then have "unat (of_nat q + 16 :: u64) = q + 16" using u by (subst unat_add_nowrap) simp_all
  then show "roff rg (rg_base rg + of_nat q + 16) = q + 16" by (simp add: roff_def add.assoc)
qed

lemma dl_lock_free: "mtx w (h + 32) = MFree \<Longrightarrow> dynlist_lock E h w = Some (holding E (h + 32) w)"
  by (simp add: dynlist_lock_def container_lock_free)

lemma dl_unlock_own:
  "mtx w (h + 32) = MFree \<Longrightarrow> dynlist_unlock E h (set_bytes m (holding E (h + 32) w)) = set_bytes m w"
  "mtx w (h + 32) = MFree \<Longrightarrow> dynlist_unlock E h (holding E (h + 32) w) = w"
  by (simp_all add: dynlist_unlock_def container_unlock_own)

text \<open>Walking \<open>k\<close> links along a well-linked list.\<close>

lemma dl_walk:
  assumes h: "heap_inv rg m" and r: "dl_repr m p ps" and "i + k < length ps"
  shows "dynlist_walk rg m (of_nat (ps ! i)) k = Some (of_nat (ps ! (i + k)))"
  using assms(3)
proof (induction k arbitrary: i)
  case (Suc k)
  then have i: "Suc i < length ps" by simp
  then have "ps ! i \<in> set ps" by simp
  then obtain j where j: "heap_abs m (ps ! i) = Some j" "16 \<le> j" using dl_reprD(5) [OF r] by fastforce
  have "unat (ld64 m (ps ! i)) = ps ! Suc i" using dl_reprD(9) [OF r] i by (simp add: dl_links_def node_at_def)
  then have "ld64 m (ps ! i) = of_nat (ps ! Suc i)" by (metis of_nat_unat ucast_id)
  then show ?case using Suc dl_node_resolves(1,2) [OF h j] by (simp add: get_node_def)
qed simp

lemma dl_query_runs:
  assumes h: "heap_inv rg (bytes w)" and o: "list_ok (bytes w) (unat off)" and l: "mtx w (unat off + 32) = MFree"
  shows "dynlist_length E rg off w = Some (of_nat (length (dl_list (bytes w) (unat off))), w)"
    and "dynlist_get E rg off i True w =
      Some (if unat i < length (dl_list (bytes w) (unat off)) then (0, Some (dl_list (bytes w) (unat off) ! unat i))
            else (- 1, None), w)"
proof -
  let ?m = "bytes w" and ?p = "unat off"
  define ps where "ps = dl_nodes ?m ?p"
  have r: "dl_repr ?m ?p ps" using o by (simp add: list_ok_def ps_def)
  note df = dl_header_resolves [OF h r] dl_lock_free [where E = E, OF l] dl_unlock_own [where E = E, OF l]
  have len: "length (dl_list ?m ?p) = length ps" by (simp add: dl_list_def node_data_def ps_def)
  have n: "unat (dl_length (get_dynlist ?m ?p)) = length ps" using dl_reprD(6) [OF r] .
  then have "dl_length (get_dynlist ?m ?p) = of_nat (length ps)" by (metis of_nat_unat ucast_id)
  then show "dynlist_length E rg off w = Some (of_nat (length (dl_list ?m ?p)), w)"
    by (simp add: dynlist_length_def df Let_def len)
  show "dynlist_get E rg off i True w =
      Some (if unat i < length (dl_list ?m ?p) then (0, Some (dl_list ?m ?p ! unat i)) else (- 1, None), w)"
  proof (cases "unat i < length ps")
    case True
    then have "unat (dl_head (get_dynlist ?m ?p)) = ps ! 0" using dl_reprD(7) [OF r] by (cases ps) (auto simp: node_at_def)
    then have hd: "dl_head (get_dynlist ?m ?p) = of_nat (ps ! 0)" by (metis of_nat_unat ucast_id)
    have wk: "dynlist_walk rg ?m (dl_head (get_dynlist ?m ?p)) (unat i) = Some (of_nat (ps ! unat i))"
      unfolding hd using dl_walk [OF h r, of 0 "unat i"] True by simp
    have "ps ! unat i \<in> set ps" using True by simp
    then obtain j where j: "heap_abs ?m (ps ! unat i) = Some j" "16 \<le> j" using dl_reprD(5) [OF r] by fastforce
    have "\<not> dl_length (get_dynlist ?m ?p) \<le> i" using True n by (simp add: word_le_nat_alt)
    then show ?thesis using True wk dl_node_resolves(1,4) [OF h j]
      by (simp add: dynlist_get_def df Let_def len) (simp add: dl_list_def node_data_def ps_def)
  next
    case False
    then show ?thesis using n by (simp add: dynlist_get_def df Let_def len word_le_nat_alt)
  qed
qed

section \<open>Insertion\<close>

lemma dl_grant:
  assumes h: "heap_inv rg (bytes w)" and r: "ready E w" and p: "dl_repr (bytes w) p ps"
    and e: "unat (dl_elem_size (get_dynlist (bytes w) p)) \<le> 2 ^ 61"
  defines "sz \<equiv> 16 + dl_elem_size (get_dynlist (bytes w) p)"
  obtains (granted) q k m1 where "room sz (bytes w)"
      "allocator_alloc E (Some rg) sz 16 True w = Some ((STATUS_OK, Some (rg_base rg + of_nat q)), set_bytes m1 w)"
      "dl_granted rg p ps (bytes w) q k m1"
      "offset_ptr_try_from_raw (rg_base rg) (rg_size rg) (rg_base rg + of_nat q) True = Some (of_nat q)"
      "unat (of_nat q :: u64) = q" "roff rg (rg_base rg + of_nat q + 16) = q + 16"
    | (refused) m' where "\<not> room sz (bytes w)"
      "allocator_alloc E (Some rg) sz 16 True w = Some ((STATUS_OUT_OF_MEMORY, None), set_bytes m' w)"
      "heap_inv rg m'" "owner_step {} {} (bytes w) m'"
proof -
  have u: "unat sz = 16 + unat (dl_elem_size (get_dynlist (bytes w) p))"
    using e unfolding sz_def by (subst unat_add_nowrap) simp_all
  have v: "valid_request sz 16" using e u by (auto simp: valid_request_def intro: exI [of _ 4])
  show thesis
  proof (cases "room sz (bytes w)")
    case True
    from svc.alloc_grants [OF h r v True] obtain q k m1 where
      a: "allocator_alloc E (Some rg) sz 16 True w = Some ((STATUS_OK, Some (rg_base rg + of_nat q)), set_bytes m1 w)"
      and g: "heap_inv rg m1" "heap_abs (bytes w) q = None" "heap_abs m1 = (heap_abs (bytes w))(q \<mapsto> k)" "unat sz \<le> k"
        "owner_step {} {q} (bytes w) m1" "pays spare (alloc_cost sz) (bytes w) m1" by blast
    have q1: "heap_abs m1 q = Some k" "16 \<le> k" using g(3,4) u by simp_all
    note nr = dl_node_resolves [OF g(1) q1]
    show thesis
      using granted [OF True a _ from_raw_payload [OF g(1) q1(1)] nr(2,4)] h p g u by (simp add: dl_granted_def sz_def)
  next
    case False
    from svc.alloc_refuses [OF h r v False] show thesis using refused False by blast
  qed
qed

text \<open>Appending a node behind the tail; on an empty list this is the first node.\<close>

lemma dl_insert_runs:
  assumes h: "heap_inv rg (bytes w)" and r: "ready E w" and p: "dl_repr (bytes w) p ps"
    and e: "unat (dl_elem_size (get_dynlist (bytes w) p)) \<le> 2 ^ 61"
    and x: "length x = unat (dl_elem_size (get_dynlist (bytes w) p))"
  obtains (granted) q m' where "room (16 + dl_elem_size (get_dynlist (bytes w) p)) (bytes w)"
      "dynlist_insert_node E rg p (dl_tail (get_dynlist (bytes w) p)) x w = Some (0, set_bytes m' w)"
      "dl_added rg p ps (ps @ [q]) (bytes w) m'" "node_data m' (length x) (ps @ [q]) = node_data (bytes w) (length x) ps @ [x]"
    | (refused) m' where "\<not> room (16 + dl_elem_size (get_dynlist (bytes w) p)) (bytes w)"
      "dynlist_insert_node E rg p (dl_tail (get_dynlist (bytes w) p)) x w = Some (- 1, set_bytes m' w)"
      "heap_inv rg m'" "owner_step {} {} (bytes w) m'"
proof (cases rule: dl_grant [OF h r p e])
  case (1 q k m1)
  note d = dl_grantedD [OF 1(3)]
  have tk: "take (unat (dl_elem_size (get_dynlist (bytes w) p))) x = x" using x by simp
  have g2: "get_dynlist (st64 (st64 m1 q 0) (q + 8) 0) p = get_dynlist (bytes w) p"
    using d(7) [of q] d(2) by (auto simp: get_dynlist_def)
  note run = dynlist_insert_node_def Let_def 1(2,4,5,6) offset_ptr_null_def g2 tk
  show thesis
  proof (cases "ps = []")
    case True
    have "dl_tail (get_dynlist (bytes w) p) = 0" using dl_reprD(8) [OF p] True by (simp add: word_eq_iff_unat)
    then have "dynlist_insert_node E rg p (dl_tail (get_dynlist (bytes w) p)) x w
        = Some (0, set_bytes (dynlist_count_up p (st64 (st64 (node_init q x m1) (p + 16) (of_nat q)) (p + 24) (of_nat q))) w)"
      by (simp add: run node_init_def)
    then show thesis using granted [OF 1(1)] dl_first_mem [OF 1(3) [unfolded True] x] True by (simp add: node_data_def)
  next
    case False
    let ?t = "last ps"
    have tl: "unat (dl_tail (get_dynlist (bytes w) p)) = ?t" using dl_reprD(8) [OF p] False by simp
    then have tw: "dl_tail (get_dynlist (bytes w) p) = of_nat ?t" by (metis of_nat_unat ucast_id)
    obtain j where j: "heap_abs m1 ?t = Some j" "16 \<le> j" using dl_reprD(5) [OF d(3), of ?t] False by fastforce
    have h1: "heap_inv rg m1" using 1(3) by (simp add: dl_granted_def)
    note nr = dl_node_resolves [OF h1 j] and bm = dl_back_mem [OF 1(3) False x]
    have "dynlist_insert_node E rg p (dl_tail (get_dynlist (bytes w) p)) x w = Some (0, set_bytes (dynlist_count_up p
       (st64 (st64 (st64 (st64 (node_init q x m1) (q + 8) (of_nat ?t)) q 0) ?t (of_nat q)) (p + 24) (of_nat q))) w)"
      using nr(1-3) bm(3,4) unfolding tw by (simp add: run node_init_def [symmetric] get_node_def)
    then show thesis using granted [OF 1(1)] bm(1,2) by blast
  qed
next
  case (2 m')
  then show thesis using refused [of m'] by (simp add: dynlist_insert_node_def Let_def)
qed

text \<open>What a push leaves behind: the list \<open>xs\<close>, in the list's spans and one fresh one.\<close>

definition dl_pushed :: "ShmRegion \<Rightarrow> nat \<Rightarrow> u8 list list \<Rightarrow> mem \<Rightarrow> mem \<Rightarrow> bool" where
  "dl_pushed rg p xs m m' \<longleftrightarrow>
     heap_inv rg m' \<and> list_ok m' p \<and> dl_list m' p = xs \<and>
     dl_elem_size (get_dynlist m' p) = dl_elem_size (get_dynlist m p) \<and>
     owner_step (dl_spans m p) (dl_spans m' p) m m'"

lemma dl_added_pushed:
  assumes "dl_added rg p (dl_nodes m p) qs m m'" and "node_data m' (unat (dl_elem_size (get_dynlist m p))) qs = xs"
  shows "dl_pushed rg p xs m m'"
proof -
  have "dl_repr m' p qs" using assms(1) by (simp add: dl_added_def)
  then have "dl_nodes m' p = qs" "list_ok m' p" by (simp_all add: dl_repr_nodes list_okI)
  then show ?thesis using assms by (simp add: dl_pushed_def dl_added_def dl_list_def dl_spans_def)
qed

lemma dl_list_data: "node_data m (unat (dl_elem_size (get_dynlist m p))) (dl_nodes m p) = dl_list m p"
  by (simp add: dl_list_def)

text \<open>The list's lock is held while a node is granted.\<close>

lemma dl_holding:
  assumes h: "heap_inv rg (bytes w)" and r: "ready E w" and o: "list_ok (bytes w) p"
  shows "heap_inv rg (bytes (holding E (p + 32) w))" and "ready E (holding E (p + 32) w)"
    and "dl_repr (bytes (holding E (p + 32) w)) p (dl_nodes (bytes w) p)"
proof -
  have d: "dl_repr (bytes w) p (dl_nodes (bytes w) p)" using o by (simp add: list_ok_def)
  then obtain n where "heap_abs (bytes w) p = Some n" using dl_reprD(1) by blast
  then have "2768 \<le> p" by (rule heap_abs_bounds(1) [OF h])
  then show "ready E (holding E (p + 32) w)" using r by (simp add: ready_set_mtx)
  show "heap_inv rg (bytes (holding E (p + 32) w))" "dl_repr (bytes (holding E (p + 32) w)) p (dl_nodes (bytes w) p)"
    using h d by simp_all
qed

lemma dl_push_back_runs:
  assumes h: "heap_inv rg (bytes w)" and r: "ready E w" and o: "list_ok (bytes w) (unat off)" and l: "mtx w (unat off + 32) = MFree"
    and e: "unat (dl_elem_size (get_dynlist (bytes w) (unat off))) \<le> 2 ^ 61"
    and x: "length x = unat (dl_elem_size (get_dynlist (bytes w) (unat off)))"
  obtains (pushed) m' where "room (16 + dl_elem_size (get_dynlist (bytes w) (unat off))) (bytes w)"
      "dynlist_push_back E rg off x w = Some (0, set_bytes m' w)"
      "dl_pushed rg (unat off) (dl_list (bytes w) (unat off) @ [x]) (bytes w) m'"
      "pays spare (alloc_cost (16 + dl_elem_size (get_dynlist (bytes w) (unat off)))) (bytes w) m'"
    | (refused) m' where "\<not> room (16 + dl_elem_size (get_dynlist (bytes w) (unat off))) (bytes w)"
      "dynlist_push_back E rg off x w = Some (- 1, set_bytes m' w)" "heap_inv rg m'" "owner_step {} {} (bytes w) m'"
proof -
  let ?p = "unat off" let ?w1 = "holding E (?p + 32) w"
  note hold = dl_holding [OF h r o]
  have d: "dl_repr (bytes w) ?p (dl_nodes (bytes w) ?p)" using o by (simp add: list_ok_def)
  note df = dynlist_push_back_def dl_header_resolves [OF h d] dl_lock_free [where E = E, OF l] dl_unlock_own [where E = E, OF l] Let_def
  have e1: "unat (dl_elem_size (get_dynlist (bytes ?w1) ?p)) \<le> 2 ^ 61" and x1: "length x = unat (dl_elem_size (get_dynlist (bytes ?w1) ?p))"
    using e x by simp_all
  show thesis
  proof (cases rule: dl_insert_runs [OF hold e1 x1])
    case (1 q m')
    then have nd: "node_data m' (unat (dl_elem_size (get_dynlist (bytes w) ?p))) (dl_nodes (bytes w) ?p @ [q])
        = dl_list (bytes w) ?p @ [x]" using x by (simp add: dl_list_data)
    have a: "dl_added rg ?p (dl_nodes (bytes w) ?p) (dl_nodes (bytes w) ?p @ [q]) (bytes w) m'" using 1(3) by simp
    show thesis using pushed [of m'] 1(1,2) dl_added_pushed [OF a nd] a by (simp add: df dl_added_def)
  next
    case (2 m')
    then show thesis using refused [of m'] by (simp add: df)
  qed
qed

lemma dl_push_front_runs:
  assumes h: "heap_inv rg (bytes w)" and r: "ready E w" and o: "list_ok (bytes w) (unat off)" and l: "mtx w (unat off + 32) = MFree"
    and e: "unat (dl_elem_size (get_dynlist (bytes w) (unat off))) \<le> 2 ^ 61"
    and x: "length x = unat (dl_elem_size (get_dynlist (bytes w) (unat off)))"
  obtains (pushed) m' where "room (16 + dl_elem_size (get_dynlist (bytes w) (unat off))) (bytes w)"
      "dynlist_push_front E rg off x w = Some (0, set_bytes m' w)"
      "dl_pushed rg (unat off) (x # dl_list (bytes w) (unat off)) (bytes w) m'"
      "pays spare (alloc_cost (16 + dl_elem_size (get_dynlist (bytes w) (unat off)))) (bytes w) m'"
    | (refused) m' where "\<not> room (16 + dl_elem_size (get_dynlist (bytes w) (unat off))) (bytes w)"
      "dynlist_push_front E rg off x w = Some (- 1, set_bytes m' w)" "heap_inv rg m'" "owner_step {} {} (bytes w) m'"
proof -
  let ?m = "bytes w" and ?p = "unat off" let ?w1 = "holding E (?p + 32) w"
  define ps where "ps = dl_nodes ?m ?p"
  note hold = dl_holding [OF h r o]
  have d: "dl_repr ?m ?p ps" using o by (simp add: list_ok_def ps_def)
  note df = dynlist_push_front_def dl_header_resolves [OF h d] dl_lock_free [where E = E, OF l] dl_unlock_own [where E = E, OF l]
    Let_def offset_ptr_null_def
  have e1: "unat (dl_elem_size (get_dynlist (bytes ?w1) ?p)) \<le> 2 ^ 61" and x1: "length x = unat (dl_elem_size (get_dynlist (bytes ?w1) ?p))"
    using e x by simp_all
  show thesis
  proof (cases "ps = []")
    case True
    have "unat (dl_head (get_dynlist ?m ?p)) = 0" "unat (dl_tail (get_dynlist ?m ?p)) = 0"
      using dl_reprD(7,8) [OF d] True by (simp_all add: node_at_def)
    then have z: "dl_head (get_dynlist ?m ?p) = 0" "dl_tail (get_dynlist ?m ?p) = 0" by (simp_all add: word_eq_iff_unat)
    have em: "dl_list ?m ?p = []" using True by (simp add: dl_list_def node_data_def ps_def)
    show thesis
    proof (cases rule: dl_insert_runs [OF hold e1 x1])
      case (1 q m')
      then have nd: "node_data m' (unat (dl_elem_size (get_dynlist ?m ?p))) [q] = [x]"
        and a: "dl_added rg ?p (dl_nodes ?m ?p) [q] ?m m'" using x True by (simp_all add: ps_def node_data_def)
      show thesis using pushed [of m'] 1(1,2) dl_added_pushed [OF a nd] a em z by (simp add: df dl_added_def)
    next
      case (2 m')
      then show thesis using refused [of m'] z by (simp add: df)
    qed
  next
    case False
    have hz: "dl_head (get_dynlist ?m ?p) \<noteq> 0" "dl_tail (get_dynlist ?m ?p) \<noteq> 0"
    proof -
      have "\<And>q. q \<in> set ps \<Longrightarrow> q \<noteq> 0" using dl_reprD(5) [OF d] heap_abs_bounds(1) [OF h] by fastforce
      then have "node_at ps 0 \<noteq> 0" "last ps \<noteq> 0" using False by (simp_all add: node_at_def)
      then show "dl_head (get_dynlist ?m ?p) \<noteq> 0" "dl_tail (get_dynlist ?m ?p) \<noteq> 0"
        using dl_reprD(7,8) [OF d] False by auto
    qed
    show thesis
    proof (cases rule: dl_grant [OF hold(1,2) hold(3) [folded ps_def] e1])
      case (1 q k m1)
      have g: "dl_granted rg ?p ps ?m q k m1" using 1(3) by simp
      let ?t = "hd ps"
      note fm = dl_front_mem [OF g False x] and gd = dl_grantedD [OF g]
      have tk: "take (unat (dl_elem_size (get_dynlist ?m ?p))) x = x" using x by simp
      obtain j where j: "heap_abs m1 ?t = Some j" "16 \<le> j" using dl_reprD(5) [OF gd(3), of ?t] False by fastforce
      have h1: "heap_inv rg m1" using g by (simp add: dl_granted_def)
      note nr = dl_node_resolves [OF h1 j]
      define m' where "m' = dynlist_count_up ?p (st64 (st64 (wr (st64 (st64 m1 (q + 8) 0) q (of_nat ?t)) (q + 16) x) (?t + 8) (of_nat q)) (?p + 16) (of_nat q))"
      have "dynlist_push_front E rg off x w = Some (0, set_bytes m' w)"
        using 1(2,4,5,6) hz nr(1,2) fm(3-7) tk by (simp add: df m'_def)
      moreover have "dl_pushed rg ?p (x # dl_list ?m ?p) ?m m'"
        using fm(1,2) dl_added_pushed [of rg ?p ?m "q # ps" m'] x by (simp add: m'_def ps_def dl_list_data)
      moreover have "pays spare (alloc_cost (16 + dl_elem_size (get_dynlist ?m ?p))) ?m m'"
        using fm(1) by (simp add: m'_def dl_added_def)
      ultimately show thesis using pushed 1(1) by simp
    next
      case (2 m')
      then show thesis using refused [of m'] hz by (simp add: df)
    qed
  qed
qed

section \<open>Sequences of operations\<close>

datatype list_op = LPushBack "u8 list" | LPushFront "u8 list" | LGet u64 | LLength

datatype list_res = LCode int | LGot int "u8 list option" | LCount u64

fun list_step :: "env \<Rightarrow> ShmRegion \<Rightarrow> OffsetPtr \<Rightarrow> list_op \<Rightarrow> world \<Rightarrow> list_res result" where
  "list_step E rg off (LPushBack x) w = map_option (apfst LCode) (dynlist_push_back E rg off x w)"
| "list_step E rg off (LPushFront x) w = map_option (apfst LCode) (dynlist_push_front E rg off x w)"
| "list_step E rg off (LGet i) w = map_option (apfst (\<lambda>(c, out). LGot c out)) (dynlist_get E rg off i True w)"
| "list_step E rg off LLength w = map_option (apfst LCount) (dynlist_length E rg off w)"

text \<open>The abstract list. A push may be refused, and then changes nothing.\<close>

fun list_spec :: "list_op \<Rightarrow> u8 list list \<Rightarrow> list_res \<Rightarrow> u8 list list \<Rightarrow> bool" where
  "list_spec (LPushBack x) xs r ys \<longleftrightarrow> r = LCode 0 \<and> ys = xs @ [x] \<or> r = LCode (- 1) \<and> ys = xs"
| "list_spec (LPushFront x) xs r ys \<longleftrightarrow> r = LCode 0 \<and> ys = x # xs \<or> r = LCode (- 1) \<and> ys = xs"
| "list_spec (LGet i) xs r ys \<longleftrightarrow>
     r = (if unat i < length xs then LGot 0 (Some (xs ! unat i)) else LGot (- 1) None) \<and> ys = xs"
| "list_spec LLength xs r ys \<longleftrightarrow> r = LCount (of_nat (length xs)) \<and> ys = xs"

fun list_op_ok :: "nat \<Rightarrow> list_op \<Rightarrow> bool" where
  "list_op_ok e (LPushBack x) \<longleftrightarrow> length x = e"
| "list_op_ok e (LPushFront x) \<longleftrightarrow> length x = e"
| "list_op_ok e _ \<longleftrightarrow> True"

text \<open>The states that operations on one list lead to from \<open>w0\<close>.\<close>

definition list_inv :: "env \<Rightarrow> ShmRegion \<Rightarrow> OffsetPtr \<Rightarrow> world \<Rightarrow> world \<Rightarrow> bool" where
  "list_inv E rg off w0 w \<longleftrightarrow>
     (\<exists>m. w = set_bytes m w0 \<and> heap_inv rg m \<and> list_ok m (unat off) \<and>
       dl_elem_size (get_dynlist m (unat off)) = dl_elem_size (get_dynlist (bytes w0) (unat off)) \<and>
       owner_step (dl_spans (bytes w0) (unat off)) (dl_spans m (unat off)) (bytes w0) m) \<and>
     heap_inv rg (bytes w0) \<and> ready E w0 \<and> mtx w0 (unat off + 32) = MFree \<and>
     unat (dl_elem_size (get_dynlist (bytes w0) (unat off))) \<le> 2 ^ 61"

lemma list_invE:
  assumes "list_inv E rg off w0 w"
  obtains "heap_inv rg (bytes w)" "ready E w" "list_ok (bytes w) (unat off)" "mtx w (unat off + 32) = MFree"
    "unat (dl_elem_size (get_dynlist (bytes w) (unat off))) \<le> 2 ^ 61"
    "dl_elem_size (get_dynlist (bytes w) (unat off)) = dl_elem_size (get_dynlist (bytes w0) (unat off))"
  using assms by (auto simp: list_inv_def)

lemma list_inv_step:
  assumes "list_inv E rg off w0 w" and "dl_pushed rg (unat off) xs (bytes w) m"
  shows "list_inv E rg off w0 (set_bytes m w)"
  using assms svc.step_trans [of rg "bytes w0"] by (fastforce simp: list_inv_def dl_pushed_def)

lemma list_refused:
  assumes i: "list_inv E rg off w0 w" and m: "heap_inv rg m" "owner_step {} {} (bytes w) m"
  shows "list_inv E rg off w0 (set_bytes m w)" and "dl_list m (unat off) = dl_list (bytes w) (unat off)"
proof -
  have r: "dl_repr (bytes w) (unat off) (dl_nodes (bytes w) (unat off))" using list_invE [OF i] unfolding list_ok_def by metis
  note k = dl_kept [OF r m(2)]
  have n: "dl_nodes m (unat off) = dl_nodes (bytes w) (unat off)" using dl_repr_nodes k(2) by simp
  show l: "dl_list m (unat off) = dl_list (bytes w) (unat off)" using k(1,3) n by (simp add: dl_list_def)
  have "owner_step (dl_spans (bytes w) (unat off)) (dl_spans m (unat off)) (bytes w) m"
    using private_step_widen [OF m(2), of "dl_spans (bytes w) (unat off)"] n by (simp add: dl_spans_def)
  then have "dl_pushed rg (unat off) (dl_list (bytes w) (unat off)) (bytes w) m"
    using m(1) k l list_okI by (simp add: dl_pushed_def)
  then show "list_inv E rg off w0 (set_bytes m w)" by (rule list_inv_step [OF i])
qed

lemma list_push_refines:
  assumes i: "list_inv E rg off w0 w" and x: "length x = unat (dl_elem_size (get_dynlist (bytes w0) (unat off)))"
    and o: "op = LPushBack x \<or> op = LPushFront x"
  shows "\<exists>r s'. list_step E rg off op w = Some (r, s') \<and> list_inv E rg off w0 s' \<and>
     list_spec op (dl_list (bytes w) (unat off)) r (dl_list (bytes s') (unat off))"
proof -
  obtain hr: "heap_inv rg (bytes w)" "ready E w" "list_ok (bytes w) (unat off)" "mtx w (unat off + 32) = MFree"
    "unat (dl_elem_size (get_dynlist (bytes w) (unat off))) \<le> 2 ^ 61"
    and e: "dl_elem_size (get_dynlist (bytes w) (unat off)) = dl_elem_size (get_dynlist (bytes w0) (unat off))"
    using list_invE [OF i] .
  have x': "length x = unat (dl_elem_size (get_dynlist (bytes w) (unat off)))" using x e by simp
  from o show ?thesis
  proof
    assume op: "op = LPushBack x"
    show ?thesis
    proof (cases rule: dl_push_back_runs [OF hr x'])
      case (1 m)
      then show ?thesis using list_inv_step [OF i 1(3)] op by (simp add: dl_pushed_def)
    next
      case (2 m)
      then show ?thesis using list_refused [OF i 2(3,4)] op by simp
    qed
  next
    assume op: "op = LPushFront x"
    show ?thesis
    proof (cases rule: dl_push_front_runs [OF hr x'])
      case (1 m)
      then show ?thesis using list_inv_step [OF i 1(3)] op by (simp add: dl_pushed_def)
    next
      case (2 m)
      then show ?thesis using list_refused [OF i 2(3,4)] op by simp
    qed
  qed
qed

interpretation lst: simulation "list_inv E rg off w0" "\<lambda>w. dl_list (bytes w) (unat off)"
    "list_op_ok (unat (dl_elem_size (get_dynlist (bytes w0) (unat off))))" "list_step E rg off" list_spec
  for E rg off w0
proof unfold_locales
  fix s x
  assume i: "list_inv E rg off w0 s" and k: "list_op_ok (unat (dl_elem_size (get_dynlist (bytes w0) (unat off)))) x"
  obtain h: "heap_inv rg (bytes s)" "list_ok (bytes s) (unat off)" "mtx s (unat off + 32) = MFree" using list_invE [OF i] .
  note q = dl_query_runs [where E = E, OF h]
  show "\<exists>r s'. list_step E rg off x s = Some (r, s') \<and> list_inv E rg off w0 s' \<and>
     list_spec x (dl_list (bytes s) (unat off)) r (dl_list (bytes s') (unat off))"
  proof (cases x)
    case (LPushBack a)
    then show ?thesis using k by (intro list_push_refines [OF i, of a]) simp_all
  next
    case (LPushFront a)
    then show ?thesis using k by (intro list_push_refines [OF i, of a]) simp_all
  next
    case (LGet j)
    then show ?thesis using q(2) i by simp
  next
    case LLength
    then show ?thesis using q(1) i by simp
  qed
qed

text \<open>C7: A linked list is a list: any sequence of pushes at either end, reads and length queries on a
  list that satisfies its invariant returns, and its results are those of the abstract list. A push
  may be refused for lack of memory and then changes nothing. Afterwards the list is well linked in
  both directions, the mutex is free, and no span of another owner has changed.\<close>

theorem dynlist_sequence_refines:
  assumes h: "heap_inv rg (bytes w)" and r: "ready E w" and o: "list_ok (bytes w) (unat off)"
    and l: "mtx w (unat off + 32) = MFree" and e: "unat (dl_elem_size (get_dynlist (bytes w) (unat off))) \<le> 2 ^ 61"
    and k: "list_all (list_op_ok (unat (dl_elem_size (get_dynlist (bytes w) (unat off))))) ops"
  shows "\<exists>rs m'. run_ops (list_step E rg off) ops w = Some (rs, set_bytes m' w) \<and>
     allowed list_spec ops (dl_list (bytes w) (unat off)) rs (dl_list m' (unat off)) \<and>
     heap_inv rg m' \<and> list_ok m' (unat off) \<and>
     owner_step (dl_spans (bytes w) (unat off)) (dl_spans m' (unat off)) (bytes w) m'"
proof -
  have "list_inv E rg off w w" using h r o l e unfolding list_inv_def by (metis private_step_refl set_bytes_same)
  from lst.run_allowed [OF this k] obtain rs w' where
    "run_ops (list_step E rg off) ops w = Some (rs, w')" "list_inv E rg off w w'"
    "allowed list_spec ops (dl_list (bytes w) (unat off)) rs (dl_list (bytes w') (unat off))" by blast
  then show ?thesis by (auto simp: list_inv_def)
qed

section \<open>Funded operations\<close>

text \<open>What the operations do when no allocation is refused, and what a push takes from the heap.\<close>

fun list_exact :: "list_op \<Rightarrow> u8 list list \<Rightarrow> list_res \<times> u8 list list" where
  "list_exact (LPushBack x) xs = (LCode 0, xs @ [x])"
| "list_exact (LPushFront x) xs = (LCode 0, x # xs)"
| "list_exact (LGet i) xs = (if unat i < length xs then LGot 0 (Some (xs ! unat i)) else LGot (- 1) None, xs)"
| "list_exact LLength xs = (LCount (of_nat (length xs)), xs)"

fun list_price :: "u64 \<Rightarrow> list_op \<Rightarrow> nat" where
  "list_price e (LPushBack x) = alloc_cost (16 + e)"
| "list_price e (LPushFront x) = alloc_cost (16 + e)"
| "list_price e (LGet i) = 0"
| "list_price e LLength = 0"

lemma list_push_funded:
  assumes i: "list_inv E rg off w0 w" and x: "length x = unat (dl_elem_size (get_dynlist (bytes w0) (unat off)))"
    and o: "op = LPushBack x \<or> op = LPushFront x"
    and f: "spare (N + alloc_cost (16 + dl_elem_size (get_dynlist (bytes w0) (unat off)))) (bytes w)"
  shows "\<exists>s'. list_step E rg off op w = Some (fst (list_exact op (dl_list (bytes w) (unat off))), s') \<and>
     list_inv E rg off w0 s' \<and> dl_list (bytes s') (unat off) = snd (list_exact op (dl_list (bytes w) (unat off))) \<and>
     spare N (bytes s')"
proof -
  obtain hr: "heap_inv rg (bytes w)" "ready E w" "list_ok (bytes w) (unat off)" "mtx w (unat off + 32) = MFree"
    "unat (dl_elem_size (get_dynlist (bytes w) (unat off))) \<le> 2 ^ 61"
    and e: "dl_elem_size (get_dynlist (bytes w) (unat off)) = dl_elem_size (get_dynlist (bytes w0) (unat off))"
    using list_invE [OF i] .
  have x': "length x = unat (dl_elem_size (get_dynlist (bytes w) (unat off)))" using x e by simp
  have f': "spare (N + alloc_cost (16 + dl_elem_size (get_dynlist (bytes w) (unat off)))) (bytes w)" using f e by simp
  then have rm: "room (16 + dl_elem_size (get_dynlist (bytes w) (unat off))) (bytes w)" by (rule cost_covers) simp
  from o show ?thesis
  proof
    assume op: "op = LPushBack x"
    show ?thesis
    proof (cases rule: dl_push_back_runs [OF hr x'])
      case (1 m)
      then show ?thesis using list_inv_step [OF i 1(3)] paysD [OF 1(4) f'] op by (simp add: dl_pushed_def)
    next
      case 2
      then show ?thesis using rm by simp
    qed
  next
    assume op: "op = LPushFront x"
    show ?thesis
    proof (cases rule: dl_push_front_runs [OF hr x'])
      case (1 m)
      then show ?thesis using list_inv_step [OF i 1(3)] paysD [OF 1(4) f'] op by (simp add: dl_pushed_def)
    next
      case 2
      then show ?thesis using rm by simp
    qed
  qed
qed

interpretation lstf: funded_simulation "list_inv E rg off w0" "\<lambda>w. dl_list (bytes w) (unat off)"
    "list_op_ok (unat (dl_elem_size (get_dynlist (bytes w0) (unat off))))" "list_step E rg off" list_spec
    "\<lambda>N w. spare N (bytes w)" "\<lambda>x a. list_price (dl_elem_size (get_dynlist (bytes w0) (unat off))) x" list_exact
  for E rg off w0
proof unfold_locales
  fix s x N
  assume i: "list_inv E rg off w0 s" and k: "list_op_ok (unat (dl_elem_size (get_dynlist (bytes w0) (unat off)))) x"
    and f: "spare (N + list_price (dl_elem_size (get_dynlist (bytes w0) (unat off))) x) (bytes s)"
  obtain h: "heap_inv rg (bytes s)" "list_ok (bytes s) (unat off)" "mtx s (unat off + 32) = MFree" using list_invE [OF i] .
  note q = dl_query_runs [where E = E, OF h]
  show "\<exists>s'. list_step E rg off x s = Some (fst (list_exact x (dl_list (bytes s) (unat off))), s') \<and>
     list_inv E rg off w0 s' \<and> dl_list (bytes s') (unat off) = snd (list_exact x (dl_list (bytes s) (unat off))) \<and>
     spare N (bytes s')"
  proof (cases x)
    case (LPushBack a)
    then show ?thesis using k f by (intro list_push_funded [OF i, of a]) simp_all
  next
    case (LPushFront a)
    then show ?thesis using k f by (intro list_push_funded [OF i, of a]) simp_all
  next
    case (LGet j)
    then show ?thesis using q(2) i f by simp
  next
    case LLength
    then show ?thesis using q(1) i f by simp
  qed
qed

text \<open>C14: While the heap has a free block that covers the bill, no push is refused: on a list that
  satisfies its invariant, a sequence of operations whose pushes are paid for by the largest free
  block returns exactly the results of the list without refusals, and leaves the rest of that block.\<close>

theorem dynlist_sequence_funded:
  assumes h: "heap_inv rg (bytes w)" and r: "ready E w" and o: "list_ok (bytes w) (unat off)"
    and l: "mtx w (unat off + 32) = MFree" and e: "unat (dl_elem_size (get_dynlist (bytes w) (unat off))) \<le> 2 ^ 61"
    and k: "list_all (list_op_ok (unat (dl_elem_size (get_dynlist (bytes w) (unat off))))) ops"
    and f: "spare (N + sum_list (map (list_price (dl_elem_size (get_dynlist (bytes w) (unat off)))) ops)) (bytes w)"
  shows "\<exists>m'. run_ops (list_step E rg off) ops w
       = Some (fst (run_spec list_exact ops (dl_list (bytes w) (unat off))), set_bytes m' w) \<and>
     dl_list m' (unat off) = snd (run_spec list_exact ops (dl_list (bytes w) (unat off))) \<and>
     heap_inv rg m' \<and> list_ok m' (unat off) \<and> spare N m'"
proof -
  have "list_inv E rg off w w" using h r o l e unfolding list_inv_def by (metis private_step_refl set_bytes_same)
  from lstf.run_funded [OF this k] f show ?thesis by (fastforce simp: bill_flat list_inv_def)
qed

end
