(* ===== verification/DynListLife.thy ===== *)
theory DynListLife
  imports DynListRefine
begin

text \<open>
  Creating and destroying a linked list. Destruction passes the address behind each node's header to
  \<open>allocator_free\<close>, which reads the node's own \<open>prev\<close> link as the allocation prefix and the element of the
  node before as part of a block header; so no node is released, provided that no element forges such a
  header. The header object is released exactly when the overlaid fields allow it.
\<close>

section \<open>Creation\<close>

definition dl_header :: "nat \<Rightarrow> u64 \<Rightarrow> mem \<Rightarrow> mem" where
  "dl_header p e m = st64 (st64 (st64 (st64 m p 0) (p + 8) e) (p + 16) 0) (p + 24) 0"

lemma dl_header_facts:
  "get_dynlist (dl_header p e m) p = \<lparr>dl_length = 0, dl_elem_size = e, dl_head = 0, dl_tail = 0\<rparr>"
  "x < p \<or> p + 32 \<le> x \<Longrightarrow> dl_header p e m x = m x"
  by (simp_all add: dl_header_def get_dynlist_def) (auto simp: dl_header_def st64_outside)

lemma dl_create_runs:
  assumes h: "heap_inv rg (bytes w)" and r: "ready E w" and ini: "\<forall>a. rc_mutex_init E a = 0" and e: "0 < unat e"
  obtains (created) off m' where "dynlist_create E rg e w = Some (off, set_mtx (unat off + 32) MFree (set_bytes m' w))"
      "room 88 (bytes w)" "off \<noteq> 0" "heap_inv rg m'" "list_ok m' (unat off)" "dl_list m' (unat off) = []"
      "dl_elem_size (get_dynlist m' (unat off)) = e" "dl_spans m' (unat off) = {unat off}"
      "owner_step {} {unat off} (bytes w) m'" "ready E (set_mtx (unat off + 32) MFree (set_bytes m' w))"
      "pays spare (alloc_cost 88) (bytes w) m'"
      "locks_kept w (set_mtx (unat off + 32) MFree (set_bytes m' w))"
    | (refused) m' where "dynlist_create E rg e w = Some (0, set_bytes m' w)" "\<not> room 88 (bytes w)"
      "heap_inv rg m'" "owner_step {} {} (bytes w) m'"
proof -
  have sz: "unat (72 :: u64) \<le> 4294967295" "16 + 72 = (88 :: u64)" by simp_all
  have e0: "e \<noteq> 0" using e by auto
  show thesis
  proof (cases "room (16 + 72) (bytes w)")
    case True
    obtain p n m1 where g: "header_grant E rg 72 w p n m1" by (rule header_granted [OF h r sz(1) True])
    note d = header_grantD [OF h r g]
    have "dl_header p e m1 x = m1 x" if "x < p \<or> p + unat (72 :: u64) \<le> x" for x
      using that by (intro dl_header_facts(2)) auto
    note s = header_written [OF h g this]
    have "dynlist_create E rg e w = Some (of_nat p, set_mtx (p + 32) MFree (set_bytes (dl_header p e m1) w))"
      using e0 d(1,6,10) by (simp add: dynlist_create_def dynlist_resolve_header_def Let_def offset_ptr_null_def
          mutex_init_runs [OF ini] dl_header_def)
    moreover have rp: "dl_repr (dl_header p e m1) p []"
      using d(3,4) s(2) e by (simp add: dl_repr_def Let_def dl_header_facts(1) node_at_def dl_links_def)
    have nd: "dl_nodes (dl_header p e m1) p = []" by (rule dl_repr_nodes [OF rp])
    moreover have "list_ok (dl_header p e m1) p" "dl_list (dl_header p e m1) p = []" "dl_spans (dl_header p e m1) p = {p}"
      using rp nd by (simp_all add: list_okI dl_list_def node_data_def dl_spans_def)
    moreover have "ready E (set_mtx (p + 32) MFree (set_bytes (dl_header p e m1) w))" using d(11) [of 32] by simp
    ultimately show thesis
      using created [of "of_nat p" "dl_header p e m1"] True sz(2) d(6,7) s header_locks_kept [OF h g, of 32] dl_header_facts(1) by simp
  next
    case False
    obtain m' where "object_store_alloc E (Some rg) 1 72 True w = Some ((STATUS_OUT_OF_MEMORY, None), set_bytes m' w)"
      "heap_inv rg m'" "heap_abs m' = heap_abs (bytes w)" "owner_step {} {} (bytes w) m'"
      by (rule header_refused [OF h r sz(1) False])
    then show thesis using refused [of m'] False sz(2) e0 by (simp add: dynlist_create_def offset_ptr_null_def)
  qed
qed

section \<open>Destruction\<close>

text \<open>When the first eight bytes of every element but the last, which \<open>allocator_free\<close> takes for the
  flags and the shard of a block, say that the block is free or its shard does not exist, each free
  is refused before it locks anything.\<close>

definition list_quiet :: "mem \<Rightarrow> nat list \<Rightarrow> bool" where
  "list_quiet m ps \<longleftrightarrow>
     (\<forall>q \<in> set (butlast ps). bh_flags (get_block m q) AND BLOCK_FREE \<noteq> 0 \<or> SHARD_COUNT \<le> bh_shard (get_block m q))"

text \<open>What \<open>allocator_free\<close> reads when it is given the address behind a node's header: the node's \<open>prev\<close>
  link, where the offset of a block should be.\<close>

lemma node_free_reads:
  assumes h: "heap_inv rg (bytes w)" and k: "heap_abs (bytes w) q = Some k" "16 \<le> k"
  shows "allocator_header_valid (Some rg) (allocator_header (Some rg)) (bytes w)" "allocator_header (Some rg) \<noteq> None"
    and "roff rg (rg_base rg + of_nat q + 16 - 8) = q + 8"
proof -
  have hv: "header_inv rg (bytes w)" using h by (simp add: heap_inv_def)
  then show "allocator_header_valid (Some rg) (allocator_header (Some rg)) (bytes w)" "allocator_header (Some rg) \<noteq> None"
    using header_invD(3) by (simp_all add: header_inv_def)
  have "q + 8 < 2 ^ 64" using heap_abs_bounds(3) [OF h k(1)] k(2) unat_less_2p64 [of "rg_size rg"] by simp
  then have "unat (8 + of_nat q :: u64) = q + 8"
    using dl_node_resolves(2) [OF h k] by (subst unat_add_nowrap) simp_all
  moreover have "rg_base rg + of_nat q + 16 - 8 - rg_base rg = 8 + of_nat q" by simp
  ultimately show "roff rg (rg_base rg + of_nat q + 16 - 8) = q + 8" by (simp add: roff_def)
qed

lemma node_free_refused:
  assumes h: "heap_inv rg (bytes w)" and k: "heap_abs (bytes w) q = Some k" "16 \<le> k"
    and v: "ld64 (bytes w) (q + 8) = 0 \<or> (\<exists>u. ld64 (bytes w) (q + 8) = of_nat u \<and> unat (of_nat u :: u64) = u \<and>
       (bh_flags (get_block (bytes w) u) AND BLOCK_FREE \<noteq> 0 \<or> SHARD_COUNT \<le> bh_shard (get_block (bytes w) u)))"
  shows "\<exists>st. allocator_free E (Some rg) (rg_base rg + of_nat q + 16) w = Some (st, w)"
proof -
  note ok = node_free_reads(1,2) [OF h k] and r = node_free_reads(3) [OF h k]
  show ?thesis
  proof (cases "allocator_block_from_offset rg (ld64 (bytes w) (q + 8))")
    case None
    then show ?thesis using ok r by (simp add: allocator_free_def header_mut_eq Let_def)
  next
    case (Some b)
    then have nz: "ld64 (bytes w) (q + 8) \<noteq> 0" and b: "b = rg_base rg + ld64 (bytes w) (q + 8)"
      by (auto simp: allocator_block_from_offset_def resolve_iff)
    then obtain u where "ld64 (bytes w) (q + 8) = of_nat u" "unat (of_nat u :: u64) = u"
      "bh_flags (get_block (bytes w) u) AND BLOCK_FREE \<noteq> 0 \<or> SHARD_COUNT \<le> bh_shard (get_block (bytes w) u)"
      using v by blast
    then show ?thesis using Some ok r b by (auto simp: allocator_free_def header_mut_eq Let_def)
  qed
qed

text \<open>The loop visits the nodes in order and ends, when every free returns and keeps the bytes.\<close>

lemma dl_destroy_loop_steps:
  assumes h: "heap_inv rg m" and r: "dl_repr m p ps" and b: "\<And>v. R v \<Longrightarrow> bytes v = m"
    and f: "\<And>i v. i < length ps \<Longrightarrow> R v \<Longrightarrow>
        \<exists>st v1. allocator_free E (Some rg) (rg_base rg + of_nat (ps ! i) + 16) v = Some (st, v1) \<and> R v1"
  shows "R w \<Longrightarrow> i \<le> length ps \<Longrightarrow> \<exists>v. dynlist_destroy_loop E rg (of_nat (node_at ps i)) w = Some v \<and> R v"
proof (induction "length ps - i" arbitrary: i w)
  case 0
  then show ?case by (subst dynlist_destroy_loop.simps) (simp add: node_at_def)
next
  case (Suc k)
  then have i: "i < length ps" by simp
  then have at: "node_at ps i = ps ! i" by (simp add: node_at_def)
  have "ps ! i \<in> set ps" using i by simp
  then obtain j where j: "heap_abs m (ps ! i) = Some j" "16 \<le> j" using dl_reprD(5) [OF r] by fastforce
  note nr = dl_node_resolves [OF h j]
  have "unat (ld64 m (ps ! i)) = node_at ps (Suc i)" using dl_reprD(9) [OF r] i unfolding dl_links_def by blast
  then have nw: "ld64 m (ps ! i) = of_nat (node_at ps (Suc i))" by (metis of_nat_unat ucast_id)
  obtain st v where v: "allocator_free E (Some rg) (rg_base rg + of_nat (ps ! i) + 16) w = Some (st, v)" "R v"
    using f [OF i Suc.prems(1)] by blast
  then show ?case using Suc.hyps(1) [of "Suc i" v] Suc.hyps(2) i at nr(1-3) nw b [OF v(2)]
    by (subst dynlist_destroy_loop.simps) (simp add: get_node_def)
qed

text \<open>What a free finds in the place of a block offset: nothing for the first node, and for any other node
  its predecessor.\<close>

lemma dl_prev_word:
  assumes h: "heap_inv rg m" and r: "dl_repr m p ps" and i: "i < length ps"
  shows "ld64 m (ps ! i + 8) = (if i = 0 then 0 else of_nat (ps ! (i - 1)))"
    and "i \<noteq> 0 \<Longrightarrow> unat (of_nat (ps ! (i - 1)) :: u64) = ps ! (i - 1)"
proof -
  have pv: "unat (ld64 m (ps ! i + 8)) = (if i = 0 then 0 else ps ! (i - 1))"
    using dl_reprD(9) [OF r] i unfolding dl_links_def by blast
  have "of_nat (unat (ld64 m (ps ! i + 8))) = (of_nat (if i = 0 then 0 else ps ! (i - 1)) :: u64)" by (simp only: pv)
  then show e: "ld64 m (ps ! i + 8) = (if i = 0 then 0 else of_nat (ps ! (i - 1)))" by (simp split: if_splits)
  show "unat (of_nat (ps ! (i - 1)) :: u64) = ps ! (i - 1)" if "i \<noteq> 0" using pv e that by simp
qed

lemma dl_node_live:
  assumes r: "dl_repr m p ps" and i: "i < length ps"
  obtains k where "heap_abs m (ps ! i) = Some k" "16 \<le> k"
  using dl_reprD(5) [OF r, of "ps ! i"] i by fastforce

definition dl_header_released :: "mem \<Rightarrow> nat \<Rightarrow> bool" where
  "dl_header_released m p \<longleftrightarrow>
     (\<exists>n. heap_abs m p = Some n \<and> 16 + unat (dl_length (get_dynlist m p)) mod 4294967296 \<le> n) \<and>
     even (unat (dl_elem_size (get_dynlist m p)))"

text \<open>The rest of the destruction: the mutex goes, and the object of the header is freed when the fields
  that overlay its object header let it.\<close>

lemma dl_header_freed:
  assumes h: "heap_inv rg (bytes w)" and r: "ready E w" and o: "list_ok (bytes w) (unat off)"
  obtains st m' where
    "object_store_free E (Some rg) off (set_mtx (unat off + 32) MUninit w)
       = Some (st, set_mtx (unat off + 32) MUninit (set_bytes m' w))" "heap_inv rg m'"
    "heap_abs m' = (if dl_header_released (bytes w) (unat off)
                    then (heap_abs (bytes w))(unat off := None) else heap_abs (bytes w))"
    "owner_step {unat off} (if dl_header_released (bytes w) (unat off) then {} else {unat off}) (bytes w) m'"
    "pays spare 0 (bytes w) m'"
proof -
  let ?p = "unat off" and ?m = "bytes w"
  have d: "dl_repr ?m ?p (dl_nodes ?m ?p)" using o by (simp add: list_ok_def)
  obtain n where n: "heap_abs ?m ?p = Some n" using dl_reprD(1) [OF d] by blast
  have nz: "off \<noteq> 0" using span_resolves(2) [OF h n, of 0] by simp
  have b: "2768 \<le> ?p" by (rule heap_abs_bounds(1) [OF h n])
  define w3 where "w3 = set_mtx (?p + 32) MUninit w"
  have w3: "heap_inv rg (bytes w3)" "ready E w3" "bytes w3 = ?m" using h r b by (simp_all add: w3_def ready_set_mtx)
  have rel: "object_at ?m ?p \<longleftrightarrow> dl_header_released ?m ?p"
    by (simp add: dl_header_released_def overlaid_object_at get_dynlist_def)
  show thesis
  proof (cases "dl_header_released ?m ?p")
    case True
    then have "object_at (bytes w3) (unat off)" using rel w3 by simp
    from object_free_steps(1) [OF w3(1,2) nz this] obtain m2 where
      "object_store_free E (Some rg) off w3 = Some (STATUS_OK, set_bytes m2 w3)"
      "heap_inv rg m2" "heap_abs m2 = (heap_abs ?m)(?p := None)" "owner_step {?p} {} ?m m2" "pays spare 0 ?m m2"
      using w3 by auto
    then show thesis using True that [of STATUS_OK m2] by (simp add: w3_def)
  next
    case False
    then have "object_store_free E (Some rg) off w3 = Some (STATUS_NOT_FOUND, w3)"
      using rel w3 object_free_steps(2) [OF w3(1,2) nz] by simp
    then show thesis using False h that [of STATUS_NOT_FOUND ?m] by (simp add: w3_def pays_def)
  qed
qed

lemma dynlist_destroy_runs:
  assumes h: "heap_inv rg (bytes w)" and r: "ready E w" and o: "list_ok (bytes w) (unat off)"
    and l: "mtx w (unat off + 32) = MFree" and q: "list_quiet (bytes w) (dl_nodes (bytes w) (unat off))"
  shows "\<exists>m'. dynlist_destroy E rg off w = Some ((), set_mtx (unat off + 32) MUninit (set_bytes m' w)) \<and>
     heap_inv rg m' \<and>
     heap_abs m' = (if dl_header_released (bytes w) (unat off)
                    then (heap_abs (bytes w))(unat off := None) else heap_abs (bytes w)) \<and>
     owner_step {unat off} (if dl_header_released (bytes w) (unat off) then {} else {unat off}) (bytes w) m' \<and>
     pays spare 0 (bytes w) m'"
proof -
  let ?p = "unat off" and ?m = "bytes w"
  define ps where "ps = dl_nodes ?m ?p"
  have d: "dl_repr ?m ?p ps" using o by (simp add: list_ok_def ps_def)
  have hd: "dl_head (get_dynlist ?m ?p) = of_nat (node_at ps 0)" using dl_reprD(7) [OF d] by (metis of_nat_unat ucast_id)
  let ?w1 = "holding E (?p + 32) w"
  have free: "\<exists>st v1. allocator_free E (Some rg) (rg_base rg + of_nat (ps ! i) + 16) v = Some (st, v1) \<and> v1 = ?w1"
    if i: "i < length ps" and v: "v = ?w1" for i v
  proof -
    obtain k where k: "heap_abs ?m (ps ! i) = Some k" "16 \<le> k" by (rule dl_node_live [OF d i])
    have "i - 1 < length (butlast ps)" if "i \<noteq> 0" using i that by simp
    then have "ps ! (i - 1) \<in> set (butlast ps)" if "i \<noteq> 0"
      using that nth_butlast [of "i - 1" ps] nth_mem [of "i - 1" "butlast ps"] by simp
    then have "ld64 (bytes v) (ps ! i + 8) = 0 \<or> (\<exists>u. ld64 (bytes v) (ps ! i + 8) = of_nat u \<and> unat (of_nat u :: u64) = u \<and>
       (bh_flags (get_block (bytes v) u) AND BLOCK_FREE \<noteq> 0 \<or> SHARD_COUNT \<le> bh_shard (get_block (bytes v) u)))"
      using dl_prev_word [OF h d i] q v unfolding list_quiet_def ps_def [symmetric] by (cases "i = 0") auto
    from node_free_refused [OF _ _ k(2) this, of rg E] show ?thesis using h k(1) v by auto
  qed
  have "\<exists>v. dynlist_destroy_loop E rg (of_nat (node_at ps 0)) ?w1 = Some v \<and> v = ?w1"
    by (rule dl_destroy_loop_steps [OF h d, where R = "\<lambda>v. v = ?w1"]) (use free in auto)
  then have lp: "dynlist_destroy_loop E rg (dl_head (get_dynlist ?m ?p)) ?w1 = Some ?w1" by (simp add: hd)
  obtain st m' where "object_store_free E (Some rg) off (set_mtx (?p + 32) MUninit w)
       = Some (st, set_mtx (?p + 32) MUninit (set_bytes m' w))" and m': "heap_inv rg m'"
    "heap_abs m' = (if dl_header_released ?m ?p then (heap_abs ?m)(?p := None) else heap_abs ?m)"
    "owner_step {?p} (if dl_header_released ?m ?p then {} else {?p}) ?m m'" "pays spare 0 ?m m'"
    by (rule dl_header_freed [OF h r o])
  then have "dynlist_destroy E rg off w = Some ((), set_mtx (?p + 32) MUninit (set_bytes m' w))"
    using lp dl_header_resolves [OF h d] dl_lock_free [where E = E, OF l] dl_unlock_own(2) [OF l, where E = E]
    by (simp add: dynlist_destroy_def Let_def pthread_mutex_destroy_def)
  then show ?thesis using m' by blast
qed

text \<open>Worlds that differ only in what each thread keeps for its deadlock diagnostics: the shard it last
  locked and the log. The allocator's results and its writes depend on neither.\<close>

definition same_shared :: "world \<Rightarrow> world \<Rightarrow> bool" where
  "same_shared w w' \<longleftrightarrow> bytes w' = bytes w \<and> mtx w' = mtx w \<and> rwl w' = rwl w"

lemma same_shared_noted:
  "same_shared w w' \<Longrightarrow> same_shared w (note_shard_lock E act s w')"
  "same_shared w w' \<Longrightarrow> same_shared (note_shard_lock E act s w) (note_shard_lock E act' s' w')"
  by (simp_all add: same_shared_def note_shard_lock_def log_deadlock_warning_def Let_def)

lemma same_shared_step:
  assumes s: "same_shared w w'"
  shows "pthread_mutex_lock E a w = Some (r, w1) \<Longrightarrow> \<exists>w1'. pthread_mutex_lock E a w' = Some (r, w1') \<and> same_shared w1 w1'"
    and "same_shared (snd (pthread_mutex_consistent E a w)) (snd (pthread_mutex_consistent E a w'))"
    and "same_shared (snd (pthread_mutex_unlock E a w)) (snd (pthread_mutex_unlock E a w'))"
    and "same_shared (set_bytes m w) (set_bytes m w')" and "same_shared (set_held t v w) (set_held t' v' w')"
  using s by (auto simp: same_shared_def pthread_mutex_lock_def pthread_mutex_consistent_def pthread_mutex_unlock_def
      split: mutex_state.splits)

lemma allocator_free_shared:
  assumes s: "same_shared w w'" and f: "allocator_free E r ptr w = Some (st, w1)"
  shows "\<exists>w1'. allocator_free E r ptr w' = Some (st, w1') \<and> same_shared w1 w1'"
proof -
  have b: "bytes w' = bytes w" using s by (simp add: same_shared_def)
  show ?thesis
  proof (cases "\<exists>rg block. r = Some rg \<and> ptr \<noteq> 0 \<and> allocator_header_mut r \<noteq> None \<and>
      allocator_header_valid r (allocator_header_mut r) (bytes w) \<and>
      allocator_block_from_offset rg (ld64 (bytes w) (roff rg (ptr - SIZEOF_AllocationPrefix))) = Some block \<and>
      bh_flags (get_block (bytes w) (roff rg block)) AND BLOCK_FREE = 0 \<and>
      \<not> SHARD_COUNT \<le> bh_shard (get_block (bytes w) (roff rg block))")
    case False
    then show ?thesis using f s b
      by (auto simp: allocator_free_def Let_def split: option.splits if_splits)
  next
    case True
    then obtain rg block where c: "r = Some rg" "ptr \<noteq> 0" "allocator_header_mut r \<noteq> None"
      "allocator_header_valid r (allocator_header_mut r) (bytes w)"
      "allocator_block_from_offset rg (ld64 (bytes w) (roff rg (ptr - SIZEOF_AllocationPrefix))) = Some block"
      "bh_flags (get_block (bytes w) (roff rg block)) AND BLOCK_FREE = 0"
      "\<not> SHARD_COUNT \<le> bh_shard (get_block (bytes w) (roff rg block))" by blast
    let ?s = "bh_shard (get_block (bytes w) (roff rg block))" let ?a = "shard_mutex_at (unat ?s)"
    obtain lr wl where l: "pthread_mutex_lock E ?a w = Some (lr, wl)"
      using f c by (auto simp: allocator_free_def Let_def split: bind_splits)
    from same_shared_step(1) [OF s l] obtain wl' where l': "pthread_mutex_lock E ?a w' = Some (lr, wl')" "same_shared wl wl'"
      by blast
    note n = same_shared_noted(2) [OF l'(2), of E "''allocator_free_lock''" ?s "''allocator_free_lock''" ?s]
    note n' = n same_shared_step(2) [OF n, of E ?a]
    have nb: "bytes (note_shard_lock E ''allocator_free_lock'' ?s wl') = bytes (note_shard_lock E ''allocator_free_lock'' ?s wl)"
      using n by (simp add: same_shared_def)
    note k = n' same_shared_step(3) [OF n, of E ?a] same_shared_step(3-5)
    show ?thesis
    proof (cases "lr = 0")
      case True
      then show ?thesis using f c l l'(1) b nb
        by (auto simp: allocator_free_def Let_def simp del: setters_commute split: option.splits if_splits intro!: k)
    next
      case False
      then show ?thesis using f c l l'(1) b n'
        by (cases "def_EOWNERDEAD E \<and> lr = EOWNERDEAD") (auto simp: allocator_free_def Let_def)
    qed
  qed
qed

lemma object_store_free_shared:
  assumes s: "same_shared w w'" and f: "object_store_free E r obj w = Some (st, w1)"
  shows "\<exists>w1'. object_store_free E r obj w' = Some (st, w1') \<and> same_shared w1 w1'"
proof -
  have b: "bytes w' = bytes w" using s by (simp add: same_shared_def)
  show ?thesis using f s allocator_free_shared [OF same_shared_step(4) [OF s]]
    unfolding object_store_free_def b by (fastforce simp: Let_def split: if_splits bind_splits option.splits)
qed

text \<open>The bytes behind the node at \<open>u\<close> forge the header of the block that a free of the node at \<open>q\<close> would
  release: not marked free, of a shard that exists, and with exactly the payload offset that leads to
  the address behind the header of \<open>q\<close>.\<close>

definition forges :: "mem \<Rightarrow> nat \<Rightarrow> nat \<Rightarrow> bool" where
  "forges m u q \<longleftrightarrow>
     bh_flags (get_block m u) AND BLOCK_FREE = 0 \<and> \<not> SHARD_COUNT \<le> bh_shard (get_block m u) \<and>
     of_nat u + ucast (bh_payload_offset (get_block m u)) = (of_nat q + 16 :: u64)"

definition list_unforged :: "mem \<Rightarrow> nat list \<Rightarrow> bool" where
  "list_unforged m ps \<longleftrightarrow> (\<forall>i. Suc i < length ps \<longrightarrow> \<not> forges m (ps ! i) (ps ! Suc i))"

lemma node_free_unforged:
  assumes h: "heap_inv rg (bytes w)" and k: "heap_abs (bytes w) q = Some k" "16 \<le> k"
    and fr: "\<forall>s < 4. mtx w (shard_mutex_at s) = MFree"
    and v: "ld64 (bytes w) (q + 8) = 0 \<or>
       (\<exists>u. ld64 (bytes w) (q + 8) = of_nat u \<and> unat (of_nat u :: u64) = u \<and> \<not> forges (bytes w) u q)"
  shows "\<exists>st w1. allocator_free E (Some rg) (rg_base rg + of_nat q + 16) w = Some (st, w1) \<and> same_shared w w1"
proof (cases "ld64 (bytes w) (q + 8) = 0 \<or> (\<exists>u. ld64 (bytes w) (q + 8) = of_nat u \<and> unat (of_nat u :: u64) = u \<and>
       (bh_flags (get_block (bytes w) u) AND BLOCK_FREE \<noteq> 0 \<or> SHARD_COUNT \<le> bh_shard (get_block (bytes w) u)))")
  case True
  from node_free_refused [OF h k this] show ?thesis by (fastforce simp: same_shared_def)
next
  case False
  note ok = node_free_reads(1,2) [OF h k] and r = node_free_reads(3) [OF h k]
  obtain u where u: "ld64 (bytes w) (q + 8) = of_nat u" "unat (of_nat u :: u64) = u"
    and g: "bh_flags (get_block (bytes w) u) AND BLOCK_FREE = 0" "\<not> SHARD_COUNT \<le> bh_shard (get_block (bytes w) u)"
    and po: "of_nat u + ucast (bh_payload_offset (get_block (bytes w) u)) \<noteq> (of_nat q + 16 :: u64)"
    using v False by (auto simp: forges_def)
  let ?s = "bh_shard (get_block (bytes w) u)" let ?a = "shard_mutex_at (unat ?s)"
  have "unat ?s < 4" using g(2) by (simp add: word_le_nat_alt)
  then have l: "mtx w ?a = MFree" using fr by blast
  let ?n = "\<lambda>v. note_shard_lock E ''allocator_free_lock'' ?s v"
  have same: "same_shared w (snd (pthread_mutex_unlock E ?a (?n (set_mtx ?a (MHeld (env_tid E) False) w))))"
    using l by (simp add: same_shared_def note_shard_lock_def log_deadlock_warning_def Let_def pthread_mutex_unlock_def fun_upd_idem)
  have nb: "bytes (?n (set_mtx ?a (MHeld (env_tid E) False) w)) = bytes w"
    using same_shared_noted(1) [of "set_mtx ?a (MHeld (env_tid E) False) w"] by (simp add: same_shared_def)
  have ne: "rg_base rg + of_nat u + ucast (bh_payload_offset (get_block (bytes w) u)) \<noteq> rg_base rg + of_nat q + 16"
    using po by (simp add: add.assoc)
  show ?thesis
  proof (cases "allocator_block_from_offset rg (of_nat u)")
    case None
    then show ?thesis using ok r u by (simp add: allocator_free_def header_mut_eq Let_def same_shared_def)
  next
    case (Some b)
    then have b: "roff rg b = u" "b = rg_base rg + of_nat u"
      using u(2) by (auto simp: allocator_block_from_offset_def resolve_iff roff_def)
    show ?thesis
    proof (cases "rg_base rg + of_nat q + 16 = 0")
      case True
      then show ?thesis by (simp add: allocator_free_def same_shared_def)
    next
      case False
      then have "allocator_free E (Some rg) (rg_base rg + of_nat q + 16) w = Some (STATUS_INVALID_ARGUMENT,
          snd (pthread_mutex_unlock E ?a (?n (set_mtx ?a (MHeld (env_tid E) False) w))))"
        using ok r u(1) Some b g l nb ne
        by (simp add: allocator_free_def header_mut_eq Let_def)
      then show ?thesis using same by blast
    qed
  qed
qed

text \<open>The condition is sharp: a free of a node behind a forged header is accepted.\<close>

lemma node_free_forged:
  assumes h: "heap_inv rg (bytes w)" and k: "heap_abs (bytes w) q = Some k" "16 \<le> k"
    and fr: "\<forall>s < 4. mtx w (shard_mutex_at s) = MFree" and nz: "rg_base rg + of_nat q + 16 \<noteq> 0"
    and u: "ld64 (bytes w) (q + 8) = of_nat u" "unat (of_nat u :: u64) = u" "u \<noteq> 0" "u + 40 \<le> unat (rg_size rg)"
    and f: "forges (bytes w) u q"
  shows "\<exists>w1. allocator_free E (Some rg) (rg_base rg + of_nat q + 16) w = Some (STATUS_OK, w1)"
proof -
  note ok = node_free_reads(1,2) [OF h k] and r = node_free_reads(3) [OF h k]
  let ?s = "bh_shard (get_block (bytes w) u)" let ?a = "shard_mutex_at (unat ?s)"
  have g: "bh_flags (get_block (bytes w) u) AND BLOCK_FREE = 0" "\<not> SHARD_COUNT \<le> ?s"
    "of_nat u + ucast (bh_payload_offset (get_block (bytes w) u)) = (of_nat q + 16 :: u64)"
    using f by (simp_all add: forges_def)
  have "unat ?s < 4" using g(2) by (simp add: word_le_nat_alt)
  then have l: "mtx w ?a = MFree" using fr by blast
  have nb: "bytes (note_shard_lock E ''allocator_free_lock'' ?s (set_mtx ?a (MHeld (env_tid E) False) w)) = bytes w"
    using same_shared_noted(1) [of "set_mtx ?a (MHeld (env_tid E) False) w"] by (simp add: same_shared_def)
  have "header_inv rg (bytes w)" using h by (simp add: heap_inv_def)
  then have "rg_base rg \<noteq> 0" using region_okD(1) by (simp add: header_inv_def)
  moreover have "(of_nat u :: u64) \<noteq> 0" using u(2,3) by (metis unat_0)
  ultimately have b: "allocator_block_from_offset rg (of_nat u) = Some (rg_base rg + of_nat u)"
    using u(2,4) by (simp add: allocator_block_from_offset_def resolve_iff)
  have "roff rg (rg_base rg + of_nat u) = u" using u(2) by (simp add: roff_def)
  moreover have "rg_base rg + of_nat u + ucast (bh_payload_offset (get_block (bytes w) u)) = rg_base rg + of_nat q + 16"
    using g(3) by (simp add: add.assoc)
  ultimately show ?thesis using ok r u(1) b g(1,2) l nb nz
    by (simp add: allocator_free_def header_mut_eq Let_def)
qed

text \<open>Elements whose bytes cannot forge such a header, whatever lies around them. Nodes are at least a node's
  size apart, so an element whose third word is smaller than that, like one of zeros, forges nothing.\<close>

definition elem_word :: "nat \<Rightarrow> u8 list \<Rightarrow> u32" where
  "elem_word k x = of_nat (le_val (take 4 (drop k x)))"

definition quiet_elem :: "u8 list \<Rightarrow> bool" where
  "quiet_elem x \<longleftrightarrow> 8 \<le> length x \<and> (elem_word 0 x AND BLOCK_FREE \<noteq> 0 \<or> SHARD_COUNT \<le> elem_word 4 x)"

definition plain_elem :: "u8 list \<Rightarrow> bool" where
  "plain_elem x \<longleftrightarrow> quiet_elem x \<or> 12 \<le> length x \<and> unat (elem_word 8 x) < 32 + length x"

lemma node_elem:
  assumes "i < length ps"
  shows "k + 4 \<le> e \<Longrightarrow> ld32 m (ps ! i + 16 + k) = elem_word k (node_data m e ps ! i)"
    and "length (node_data m e ps ! i) = e"
  using assms rd_part [of k 4 e m "ps ! i + 16"] by (simp_all add: ld32_def elem_word_def node_data_def)

lemma node_quiet_elem:
  assumes "i < length ps" and "quiet_elem (node_data m e ps ! i)"
  shows "bh_flags (get_block m (ps ! i)) AND BLOCK_FREE \<noteq> 0 \<or> SHARD_COUNT \<le> bh_shard (get_block m (ps ! i))"
  using assms(2) node_elem(1) [OF assms(1), of 0 e m] node_elem(1) [OF assms(1), of 4 e m] node_elem(2) [OF assms(1), of m e]
  by (simp add: quiet_elem_def get_block_def add.assoc)

lemma butlast_all_nth: "(\<forall>x \<in> set (butlast xs). P x) \<longleftrightarrow> (\<forall>i. Suc i < length xs \<longrightarrow> P (xs ! i))"
proof -
  have "(\<forall>x \<in> set (butlast xs). P x) \<longleftrightarrow> (\<forall>i < length (butlast xs). P (butlast xs ! i))" by (metis in_set_conv_nth)
  then show ?thesis by (auto simp: nth_butlast less_diff_conv)
qed

lemma list_quiet_elems:
  assumes q: "\<forall>x \<in> set (butlast (dl_list m p)). quiet_elem x"
  shows "list_quiet m (dl_nodes m p)"
proof -
  let ?e = "unat (dl_elem_size (get_dynlist m p))" and ?ps = "dl_nodes m p"
  have "quiet_elem (node_data m ?e ?ps ! i)" if "Suc i < length ?ps" for i
    using q that unfolding butlast_all_nth dl_list_def by (simp add: node_data_def)
  then show ?thesis unfolding list_quiet_def butlast_all_nth using node_quiet_elem by (metis Suc_lessD)
qed

lemma list_unforged_elems:
  assumes h: "heap_inv rg m" and o: "list_ok m p" and q: "\<forall>x \<in> set (butlast (dl_list m p)). plain_elem x"
  shows "list_unforged m (dl_nodes m p)"
  unfolding list_unforged_def
proof (intro allI impI notI)
  fix i
  let ?e = "unat (dl_elem_size (get_dynlist m p))" let ?ps = "dl_nodes m p"
  let ?u = "?ps ! i" and ?q = "?ps ! Suc i" and ?x = "node_data m ?e ?ps ! i"
  assume i: "Suc i < length ?ps" and f: "forges m ?u ?q"
  have d: "dl_repr m p ?ps" using o by (simp add: list_ok_def)
  have i': "i < length ?ps" using i by simp
  have "plain_elem ?x" using q i unfolding butlast_all_nth dl_list_def by (simp add: node_data_def)
  moreover have "\<not> quiet_elem ?x" using node_quiet_elem [OF i'] f by (auto simp: forges_def)
  ultimately have x: "12 \<le> ?e" "unat (elem_word 8 ?x) < 32 + ?e" by (simp_all add: plain_elem_def node_elem(2) [OF i'])
  let ?w = "bh_payload_offset (get_block m ?u)"
  have w: "unat ?w < 32 + ?e" using node_elem(1) [OF i', of 8 ?e m] x by (simp add: get_block_def add.assoc)
  obtain k where k: "heap_abs m ?u = Some k" "16 + ?e \<le> k" using dl_reprD(5) [OF d] i' by (meson nth_mem)
  obtain j where j: "heap_abs m ?q = Some j" "16 + ?e \<le> j" using dl_reprD(5) [OF d] i by (meson nth_mem)
  have ne: "?u \<noteq> ?q" using dl_reprD(3) [OF d] i by (simp add: nth_eq_iff_index_eq)
  have b: "?u + k \<le> unat (rg_size rg)" "?q + j \<le> unat (rg_size rg)"
    using heap_abs_bounds(3) [OF h k(1)] heap_abs_bounds(3) [OF h j(1)] .
  have z: "unat (rg_size rg) < 2 ^ 64" using unat_less_2p64 [of "rg_size rg"] by simp
  have "of_nat (?u + unat ?w) = (of_nat (?q + 16) :: u64)" using f by (simp add: forges_def of_nat_unat)
  from arg_cong [OF this, of unat] have c: "(?u + unat ?w) mod 2 ^ 64 = (?q + 16) mod 2 ^ 64"
    by (simp only: unat_of_nat) simp
  have "?q + 16 < 2 ^ 64" using b(2) j(2) z x(1) by linarith
  then have "?u + unat ?w = ?q + 16 \<or> 2 ^ 64 \<le> ?u + unat ?w" using c by (cases "?u + unat ?w < 2 ^ 64") simp_all
  then show False
  proof
    assume e: "?u + unat ?w = ?q + 16"
    show False using heap_abs_disjoint [OF h k(1) j(1) ne] k(2) j(2) w e x(1) by linarith
  next
    assume g: "2 ^ 64 \<le> ?u + unat ?w"
    then have "?u + unat ?w - 2 ^ 64 < 16" using w b(1) k(2) z by linarith
    moreover have "(?u + unat ?w) mod 2 ^ 64 = ?u + unat ?w - 2 ^ 64"
      using g calculation by (simp add: le_mod_geq)
    moreover have "(?q + 16) mod 2 ^ 64 = ?q + 16" using \<open>?q + 16 < 2 ^ 64\<close> by simp
    ultimately show False using c by linarith
  qed
qed

text \<open>C37: \<open>dynlist_destroy\<close> releases no node. On a well-linked list in which no node forges, with its
  element bytes, the header of the block a free of the next node would release, every free is refused,
  because it is given the address behind the node's header and takes the node's \<open>prev\<close> link for the
  offset of a block; so all nodes stay allocated with no handle left to reach them. Elements of at
  least 12 bytes whose third word is smaller than the size of two node headers and an element, such
  as zeros, forge nothing (\<open>list_unforged_elems\<close>); behind a forged header a free is accepted
  (\<open>node_free_forged\<close>). The call returns, the list's mutex is uninitialized and no other lock changes,
  and the header object is released exactly when the element size is even and the length, read as the
  object's size, fits the header's span. Only the thread's deadlock diagnostics may change besides.\<close>

theorem dynlist_destroy_leaks:
  assumes h: "heap_inv rg (bytes w)" and r: "ready E w" and o: "list_ok (bytes w) (unat off)"
    and l: "mtx w (unat off + 32) = MFree" and q: "list_unforged (bytes w) (dl_nodes (bytes w) (unat off))"
  shows "\<exists>w' m'. dynlist_destroy E rg off w = Some ((), w') \<and>
     same_shared (set_mtx (unat off + 32) MUninit (set_bytes m' w)) w' \<and> heap_inv rg m' \<and>
     heap_abs m' = (if dl_header_released (bytes w) (unat off)
                    then (heap_abs (bytes w))(unat off := None) else heap_abs (bytes w)) \<and>
     (\<forall>u \<in> set (dl_nodes (bytes w) (unat off)). heap_abs m' u = heap_abs (bytes w) u \<and> heap_abs m' u \<noteq> None)"
proof -
  let ?p = "unat off" and ?m = "bytes w"
  define ps where "ps = dl_nodes ?m ?p"
  have d: "dl_repr ?m ?p ps" using o by (simp add: list_ok_def ps_def)
  obtain n where "heap_abs ?m ?p = Some n" using dl_reprD(1) [OF d] by blast
  then have b: "2768 \<le> ?p" by (rule heap_abs_bounds(1) [OF h])
  have hd: "dl_head (get_dynlist ?m ?p) = of_nat (node_at ps 0)" using dl_reprD(7) [OF d] by (metis of_nat_unat ucast_id)
  let ?w1 = "holding E (?p + 32) w"
  have fr: "\<forall>s < 4. mtx ?w1 (shard_mutex_at s) = MFree"
    using ready_set_mtx [of "?p + 32" E "MHeld (env_tid E) False" w] b r unfolding ready_def by simp
  have free: "\<exists>st v1. allocator_free E (Some rg) (rg_base rg + of_nat (ps ! i) + 16) v = Some (st, v1) \<and> same_shared ?w1 v1"
    if i: "i < length ps" and v: "same_shared ?w1 v" for i v
  proof -
    obtain k where k: "heap_abs ?m (ps ! i) = Some k" "16 \<le> k" by (rule dl_node_live [OF d i])
    have vb: "bytes v = ?m" "mtx v = mtx ?w1" "rwl v = rwl w" using v by (simp_all add: same_shared_def)
    have "\<not> forges ?m (ps ! (i - 1)) (ps ! i)" if "i \<noteq> 0"
      using q i that unfolding list_unforged_def ps_def [symmetric] by (metis Suc_pred' not_gr_zero)
    then have "ld64 (bytes v) (ps ! i + 8) = 0 \<or> (\<exists>u. ld64 (bytes v) (ps ! i + 8) = of_nat u \<and> unat (of_nat u :: u64) = u \<and>
       \<not> forges (bytes v) u (ps ! i))"
      using dl_prev_word [OF h d i] vb(1) by (cases "i = 0") auto
    from node_free_unforged [OF _ _ k(2) _ this, of rg E] show ?thesis
      using h k(1) fr vb by (auto simp: same_shared_def)
  qed
  have "\<exists>v. dynlist_destroy_loop E rg (of_nat (node_at ps 0)) ?w1 = Some v \<and> same_shared ?w1 v"
    by (rule dl_destroy_loop_steps [OF h d, where R = "same_shared ?w1"])
       (use free in \<open>auto simp: same_shared_def\<close>)
  then obtain v where v: "dynlist_destroy_loop E rg (dl_head (get_dynlist ?m ?p)) ?w1 = Some v" "same_shared ?w1 v"
    unfolding hd by blast
  let ?v3 = "set_mtx (?p + 32) MUninit (dynlist_unlock E ?p v)"
  have s3: "same_shared (set_mtx (?p + 32) MUninit w) ?v3"
    using v(2) by (simp add: same_shared_def dynlist_unlock_def container_unlock_def pthread_mutex_unlock_def)
  obtain st m' where f: "object_store_free E (Some rg) off (set_mtx (?p + 32) MUninit w)
       = Some (st, set_mtx (?p + 32) MUninit (set_bytes m' w))" and m': "heap_inv rg m'"
    "heap_abs m' = (if dl_header_released ?m ?p then (heap_abs ?m)(?p := None) else heap_abs ?m)"
    by (rule dl_header_freed [OF h r o])
  obtain w' where w': "object_store_free E (Some rg) off ?v3 = Some (st, w')"
    "same_shared (set_mtx (?p + 32) MUninit (set_bytes m' w)) w'"
    using object_store_free_shared [OF s3 f] by blast
  have "dynlist_destroy E rg off w = Some ((), w')"
    using v(1) w'(1) dl_header_resolves [OF h d] dl_lock_free [where E = E, OF l]
    by (simp add: dynlist_destroy_def Let_def pthread_mutex_destroy_def)
  moreover have "heap_abs m' u = heap_abs ?m u \<and> heap_abs m' u \<noteq> None" if "u \<in> set ps" for u
    using dl_reprD(5) [OF d that] dl_reprD(4) [OF d] that m'(2) by auto
  ultimately show ?thesis using w'(2) m' unfolding ps_def by blast
qed

section \<open>Witnesses\<close>

text \<open>A list of elements of any size, created on the concrete heap, which can pay for seven pushes of short ones.\<close>

lemma demo_list_sized:
  assumes e: "0 < unat e"
  obtains w :: world and off where "dynlist_create demo_env demo_region e demo_world = Some (off, w)"
    "heap_inv demo_region (bytes w)" "ready demo_env w" "list_ok (bytes w) (unat off)" "dl_list (bytes w) (unat off) = []"
    "dl_elem_size (get_dynlist (bytes w) (unat off)) = e" "mtx w (unat off + 32) = MFree" "spare 1140 (bytes w)"
proof -
  have rm: "room 88 (bytes demo_world)" using cost_covers [OF demo_spare, of 88] by (simp_all add: cost_simps)
  have ini: "\<forall>a. rc_mutex_init demo_env a = 0" by (simp add: demo_env_def)
  show thesis
  proof (cases rule: dl_create_runs [OF demo_facts(2,4) ini e])
    case (1 off m')
    have "spare 1140 m'" using paysD [OF 1(11), of 1140] demo_spare by (simp add: cost_simps)
    then show thesis using that [of off "set_mtx (unat off + 32) MFree (set_bytes m' demo_world)"] 1 by simp
  next
    case (2 m')
    then show thesis using rm by blast
  qed
qed

lemmas demo_list = demo_list_sized [of 8, simplified]

theorem dynlist_sequence_refines_witness:
  "\<exists>w off w'. run_ops (list_step demo_env demo_region off) [LPushFront [1,2,3,4,5,6,7,8], LGet 0, LGet 1, LLength] w
    = Some ([LCode 0, LGot 0 (Some [1,2,3,4,5,6,7,8]), LGot (- 1) None, LCount 1], w')"
proof (rule demo_list)
  fix w :: world and off :: OffsetPtr
  assume d: "heap_inv demo_region (bytes w)" "ready demo_env w" "list_ok (bytes w) (unat off)" "mtx w (unat off + 32) = MFree"
    and m: "dl_list (bytes w) (unat off) = []" and e: "dl_elem_size (get_dynlist (bytes w) (unat off)) = 8"
    and sp: "spare 1140 (bytes w)"
  let ?x = "[1,2,3,4,5,6,7,8] :: u8 list"
  let ?ops = "[LPushFront ?x, LGet 0, LGet 1, LLength]"
  have c: "unat (dl_elem_size (get_dynlist (bytes w) (unat off))) \<le> 2 ^ 61"
    "list_all (list_op_ok (unat (dl_elem_size (get_dynlist (bytes w) (unat off))))) ?ops"
    "length ?x = unat (dl_elem_size (get_dynlist (bytes w) (unat off)))" by (simp_all add: e)
  obtain w1 where p: "list_step demo_env demo_region off (LPushFront ?x) w = Some (LCode 0, w1)"
    using cost_covers [OF sp, of 24] e by (cases rule: dl_push_front_runs [OF d c(1,3)]) (simp_all add: cost_simps)
  from dynlist_sequence_refines [OF d c(1,2)] obtain rs m' where
    r: "run_ops (list_step demo_env demo_region off) ?ops w = Some (rs, set_bytes m' w)"
      "allowed list_spec ?ops [] rs (dl_list m' (unat off))" by (auto simp only: m)
  obtain rs' where rs: "rs = LCode 0 # rs'" using r(1) p by (auto simp del: list_step.simps split: bind_splits)
  have "rs = [LCode 0, LGot 0 (Some ?x), LGot (- 1) None, LCount 1]"
    using r(2) unfolding rs by (auto split: list.splits)
  with r(1) show ?thesis by blast
qed

text \<open>A list of two elements of sixteen zero bytes: both nodes are leaked.\<close>

lemma demo_zeros:
  obtains w :: world and off :: OffsetPtr where "heap_inv demo_region (bytes w)" "ready demo_env w" "list_ok (bytes w) (unat off)"
    "mtx w (unat off + 32) = MFree" "dl_list (bytes w) (unat off) = [replicate 16 0, replicate 16 0]"
proof (rule demo_list_sized [of 16])
  fix w :: world and off :: OffsetPtr
  assume d: "heap_inv demo_region (bytes w)" "ready demo_env w" "list_ok (bytes w) (unat off)" "mtx w (unat off + 32) = MFree"
    and m: "dl_list (bytes w) (unat off) = []" and e: "dl_elem_size (get_dynlist (bytes w) (unat off)) = 16"
    and sp: "spare 1140 (bytes w)"
  let ?x = "replicate 16 0 :: u8 list"
  have c: "unat (dl_elem_size (get_dynlist (bytes w) (unat off))) \<le> 2 ^ 61"
    "length ?x = unat (dl_elem_size (get_dynlist (bytes w) (unat off)))" by (simp_all add: e)
  obtain m1 where p: "dl_pushed demo_region (unat off) [?x] (bytes w) m1" and f1: "spare 980 m1"
  proof (cases rule: dl_push_front_runs [OF d c])
    case (1 m1)
    have "spare 980 m1" using paysD [OF 1(4), of 980] sp e by (simp add: cost_simps)
    then show thesis using that 1(3) m by simp
  next
    case (2 m1)
    then show thesis using cost_covers [OF sp, of 32] e by (simp add: cost_simps)
  qed
  let ?w1 = "set_bytes m1 w"
  have d1: "heap_inv demo_region (bytes ?w1)" "ready demo_env ?w1" "list_ok (bytes ?w1) (unat off)" "mtx ?w1 (unat off + 32) = MFree"
    and e1: "dl_elem_size (get_dynlist (bytes ?w1) (unat off)) = 16" and m1: "dl_list (bytes ?w1) (unat off) = [?x]"
    using p d e by (simp_all add: dl_pushed_def)
  have c1: "unat (dl_elem_size (get_dynlist (bytes ?w1) (unat off))) \<le> 2 ^ 61"
    "length ?x = unat (dl_elem_size (get_dynlist (bytes ?w1) (unat off)))" using e1 by simp_all
  show thesis
  proof (cases rule: dl_push_front_runs [OF d1 c1])
    case (1 m2)
    then show thesis using that [of "set_bytes m2 w" off] d m1 by (simp add: dl_pushed_def)
  next
    case (2 m2)
    then show thesis using cost_covers [of 980 "bytes ?w1" 32] f1 e1 by (simp add: cost_simps)
  qed
qed simp

theorem dynlist_destroy_leaks_witness:
  "\<exists>w off w' m' u q. dl_list (bytes w) (unat off) = [replicate 16 0, replicate 16 0] \<and>
     dynlist_destroy demo_env demo_region off w = Some ((), w') \<and> bytes w' = m' \<and> dl_nodes (bytes w) (unat off) = [u, q] \<and>
     u \<noteq> q \<and> heap_abs m' u \<noteq> None \<and> heap_abs m' q \<noteq> None"
proof (rule demo_zeros)
  fix w :: world and off :: OffsetPtr
  assume d: "heap_inv demo_region (bytes w)" "ready demo_env w" "list_ok (bytes w) (unat off)" "mtx w (unat off + 32) = MFree"
    and m: "dl_list (bytes w) (unat off) = [replicate 16 0, replicate 16 0]"
  have "plain_elem (replicate 16 0)" by (simp add: plain_elem_def elem_word_def eval_nat_numeral)
  then have q: "list_unforged (bytes w) (dl_nodes (bytes w) (unat off))"
    using list_unforged_elems [OF d(1,3)] m by simp
  have "length (dl_nodes (bytes w) (unat off)) = 2"
    using arg_cong [OF m, of length] by (simp add: dl_list_def node_data_def)
  then obtain u v where n: "dl_nodes (bytes w) (unat off) = [u, v]"
    by (auto simp: numeral_2_eq_2 length_Suc_conv)
  have "dl_repr (bytes w) (unat off) [u, v]" using d(3) n by (simp add: list_ok_def)
  then have "u \<noteq> v" using dl_reprD(3) by fastforce
  with dynlist_destroy_leaks [OF d q] n m show ?thesis by (fastforce simp: same_shared_def)
qed

theorem dynlist_sequence_funded_witness:
  "\<exists>w off w'. run_ops (list_step demo_env demo_region off)
      [LPushBack [1,2,3,4,5,6,7,8], LPushFront [9,9,9,9,9,9,9,9], LLength, LGet 1] w
    = Some ([LCode 0, LCode 0, LCount 2, LGot 0 (Some [1,2,3,4,5,6,7,8])], w')"
proof (rule demo_list)
  fix w :: world and off :: OffsetPtr
  assume d: "heap_inv demo_region (bytes w)" "ready demo_env w" "list_ok (bytes w) (unat off)" "mtx w (unat off + 32) = MFree"
    and m: "dl_list (bytes w) (unat off) = []" and e: "dl_elem_size (get_dynlist (bytes w) (unat off)) = 8"
    and sp: "spare 1140 (bytes w)"
  let ?ops = "[LPushBack [1,2,3,4,5,6,7,8], LPushFront [9,9,9,9,9,9,9,9], LLength, LGet 1]"
  have c: "unat (dl_elem_size (get_dynlist (bytes w) (unat off))) \<le> 2 ^ 61"
    "list_all (list_op_ok (unat (dl_elem_size (get_dynlist (bytes w) (unat off))))) ?ops"
    "spare (820 + sum_list (map (list_price (dl_elem_size (get_dynlist (bytes w) (unat off)))) ?ops)) (bytes w)"
    using sp by (simp_all add: e cost_simps)
  from dynlist_sequence_funded [OF d c] show ?thesis by (auto simp: m)
qed

end
