(* ===== verification/HashTable.thy ===== *)
theory HashTable
  imports Container
begin

text \<open>
  The hash table of src/containers/hashtable.c, definition by definition. A key is a C string without
  its terminator, \<open>None\<close> for a null pointer; \<open>char\<close> is signed. The three search loops of put, get and
  delete are one definition, which remembers the previous entry as delete does; it reads memory only.
  The loops follow links in shared memory and need not end on a corrupt table, so they are partial
  functions.
\<close>

section \<open>Layout\<close>

definition HT_num_buckets :: nat where "HT_num_buckets = 0"
definition HT_key_size :: nat where "HT_key_size = 8"
definition HT_val_size :: nat where "HT_val_size = 16"
definition HT_buckets :: nat where "HT_buckets = 24"
definition HT_lock :: nat where "HT_lock = 32"
definition SIZEOF_HashTableHeader :: u64 where "SIZEOF_HashTableHeader = 72"
definition HE_key_offset :: nat where "HE_key_offset = 0"
definition HE_value_offset :: nat where "HE_value_offset = 8"
definition HE_next :: nat where "HE_next = 16"
definition SIZEOF_HashTableEntry :: u64 where "SIZEOF_HashTableEntry = 24"

lemmas hashtable_layout [layout, simp] =
  HT_num_buckets_def HT_key_size_def HT_val_size_def HT_buckets_def HT_lock_def SIZEOF_HashTableHeader_def
  HE_key_offset_def HE_value_offset_def HE_next_def SIZEOF_HashTableEntry_def

record HashTableHeader =
  ht_num_buckets :: u64
  ht_key_size :: u64
  ht_val_size :: u64
  ht_buckets :: OffsetPtr

record HashTableEntry =
  he_key_offset :: OffsetPtr
  he_value_offset :: OffsetPtr
  he_next :: OffsetPtr

definition get_table :: "mem \<Rightarrow> nat \<Rightarrow> HashTableHeader" where
  "get_table m h =
     \<lparr>ht_num_buckets = ld64 m (h + HT_num_buckets), ht_key_size = ld64 m (h + HT_key_size),
      ht_val_size = ld64 m (h + HT_val_size), ht_buckets = ld64 m (h + HT_buckets)\<rparr>"

definition get_hentry :: "mem \<Rightarrow> nat \<Rightarrow> HashTableEntry" where
  "get_hentry m a =
     \<lparr>he_key_offset = ld64 m (a + HE_key_offset), he_value_offset = ld64 m (a + HE_value_offset),
      he_next = ld64 m (a + HE_next)\<rparr>"

section \<open>Helpers\<close>

definition hashtable_resolve_header :: "ShmRegion \<Rightarrow> OffsetPtr \<Rightarrow> u64 option" where
  "hashtable_resolve_header rg tbl_offset =
     offset_ptr_try_resolve (rg_base rg) (rg_size rg) tbl_offset SIZEOF_HashTableHeader True"

definition hashtable_lock :: "env \<Rightarrow> nat \<Rightarrow> world \<Rightarrow> world option" where
  "hashtable_lock E h w = container_lock E (h + HT_lock) w"

definition hashtable_unlock :: "env \<Rightarrow> nat \<Rightarrow> world \<Rightarrow> world" where
  "hashtable_unlock E h w = container_unlock E (h + HT_lock) w"

text \<open>djb2: \<open>h = ((h << 5) + h) + c\<close> for every character, which is an \<open>int\<close> made from a signed \<open>char\<close>.\<close>

definition hashtable_hash :: "cstr \<Rightarrow> u64 \<Rightarrow> u64" where
  "hashtable_hash key num_buckets =
     fold (\<lambda>c h. (push_bit 5 h + h) + scast c) key 5381 mod num_buckets"

definition hashtable_alloc_string :: "env \<Rightarrow> ShmRegion \<Rightarrow> cstr \<Rightarrow> u64 \<Rightarrow> world \<Rightarrow> OffsetPtr result" where
  "hashtable_alloc_string E rg str max_len w =
     (let len = (if max_len < of_nat (length str) then max_len else of_nat (length str));
          total = 4 + len + 1
      in do {
        ((status, ptr), w1) \<leftarrow> allocator_alloc E (Some rg) total 16 True w;
        if status \<noteq> STATUS_OK then Some (offset_ptr_null, w1)
        else
          let p = roff rg (the ptr);
              m1 = st32 (bytes w1) p (ucast len);
              m2 = wr m1 (p + 4) (take (unat len) str);
              m3 = wr m2 (p + 4 + unat len) [0];
              w2 = set_bytes m3 w1
          in case offset_ptr_try_from_raw (rg_base rg) (rg_size rg) (the ptr) True of
               None \<Rightarrow> do { (_, w3) \<leftarrow> allocator_free E (Some rg) (the ptr) w2; Some (offset_ptr_null, w3) }
             | Some off \<Rightarrow> Some (off, w2)
      })"

definition hashtable_resolve_string :: "ShmRegion \<Rightarrow> OffsetPtr \<Rightarrow> mem \<Rightarrow> u64 option" where
  "hashtable_resolve_string rg str_off m =
     (case offset_ptr_try_resolve (rg_base rg) (rg_size rg) str_off 4 True of
        None \<Rightarrow> None
      | Some raw \<Rightarrow>
          (case offset_ptr_try_resolve (rg_base rg) (rg_size rg) str_off (4 + ucast (ld32 m (roff rg raw)) + 1) True of
             None \<Rightarrow> None
           | Some raw' \<Rightarrow> Some (raw' + 4)))"

text \<open>\<open>strncmp(a, b, n) == 0\<close> on the characters at the two pointers, terminators included.\<close>

fun strncmp_eq :: "u8 list \<Rightarrow> u8 list \<Rightarrow> nat \<Rightarrow> bool" where
  "strncmp_eq a b 0 \<longleftrightarrow> True"
| "strncmp_eq (x # a) (y # b) (Suc n) \<longleftrightarrow> x = y \<and> (x = 0 \<or> strncmp_eq a b n)"
| "strncmp_eq _ _ (Suc n) \<longleftrightarrow> False"

definition hashtable_keys_equal :: "ShmRegion \<Rightarrow> OffsetPtr \<Rightarrow> cstr \<Rightarrow> mem \<Rightarrow> bool" where
  "hashtable_keys_equal rg key1_off key2 m =
     (case hashtable_resolve_string rg key1_off m of
        None \<Rightarrow> False
      | Some key1 \<Rightarrow>
          let len1 = ld32 m (roff rg (key1 - 4)); len2 = of_nat (length key2) :: u64 in
          if ucast len1 \<noteq> len2 then False
          else strncmp_eq (rd m (roff rg key1) (unat len1)) (key2 @ [0]) (unat len1))"

definition hashtable_free_string :: "env \<Rightarrow> ShmRegion \<Rightarrow> OffsetPtr \<Rightarrow> world \<Rightarrow> world option" where
  "hashtable_free_string E rg str_off w =
     (case offset_ptr_try_resolve (rg_base rg) (rg_size rg) str_off 4 True of
        None \<Rightarrow> Some w
      | Some raw \<Rightarrow> map_option snd (allocator_free E (Some rg) raw w))"

definition hashtable_alloc_entry ::
    "env \<Rightarrow> ShmRegion \<Rightarrow> OffsetPtr \<Rightarrow> OffsetPtr \<Rightarrow> OffsetPtr \<Rightarrow> world \<Rightarrow> OffsetPtr result" where
  "hashtable_alloc_entry E rg key_off val_off next_off w =
     do {
       ((status, ptr), w1) \<leftarrow> allocator_alloc E (Some rg) SIZEOF_HashTableEntry 16 True w;
       if status \<noteq> STATUS_OK then Some (offset_ptr_null, w1)
       else
         let e = roff rg (the ptr);
             m1 = st64 (bytes w1) (e + HE_key_offset) key_off;
             m2 = st64 m1 (e + HE_value_offset) val_off;
             m3 = st64 m2 (e + HE_next) next_off;
             w2 = set_bytes m3 w1
         in case offset_ptr_try_from_raw (rg_base rg) (rg_size rg) (the ptr) True of
              None \<Rightarrow> do { (_, w3) \<leftarrow> allocator_free E (Some rg) (the ptr) w2; Some (offset_ptr_null, w3) }
            | Some off \<Rightarrow> Some (off, w2)
     }"

text \<open>The bucket array, as every operation resolves it, and the address of bucket \<open>i\<close> in it.\<close>

definition hashtable_bucket_array :: "ShmRegion \<Rightarrow> HashTableHeader \<Rightarrow> u64 option" where
  "hashtable_bucket_array rg hdr =
     offset_ptr_try_resolve (rg_base rg) (rg_size rg) (ht_buckets hdr) (ht_num_buckets hdr * 8) True"

definition bucket_at :: "ShmRegion \<Rightarrow> u64 \<Rightarrow> u64 \<Rightarrow> nat" where
  "bucket_at rg buckets i = roff rg (buckets + i * 8)"

definition hashtable_resolve_entry :: "ShmRegion \<Rightarrow> OffsetPtr \<Rightarrow> u64 option" where
  "hashtable_resolve_entry rg entry_off =
     offset_ptr_try_resolve (rg_base rg) (rg_size rg) entry_off SIZEOF_HashTableEntry True"

text \<open>Releasing the value buffer of an entry, where it resolves.\<close>

definition hashtable_free_value :: "env \<Rightarrow> ShmRegion \<Rightarrow> OffsetPtr \<Rightarrow> u64 \<Rightarrow> world \<Rightarrow> world option" where
  "hashtable_free_value E rg value_offset val_size w =
     (if \<not> offset_ptr_is_null value_offset then
        (case offset_ptr_try_resolve (rg_base rg) (rg_size rg) value_offset val_size True of
           None \<Rightarrow> Some w
         | Some val \<Rightarrow> map_option snd (allocator_free E (Some rg) val w))
      else Some w)"

section \<open>Searching a chain\<close>

text \<open>The loop ends at a null or unresolvable offset (\<open>Some None\<close>) or at an entry with the key, given
  with the offset of the entry before it.\<close>

partial_function (option) hashtable_find ::
    "ShmRegion \<Rightarrow> cstr \<Rightarrow> mem \<Rightarrow> OffsetPtr \<Rightarrow> OffsetPtr \<Rightarrow> (OffsetPtr \<times> u64) option option" where
  "hashtable_find rg key m prev_off entry_off =
     (if offset_ptr_is_null entry_off then Some None
      else case hashtable_resolve_entry rg entry_off of
        None \<Rightarrow> Some None
      | Some entry \<Rightarrow>
          if hashtable_keys_equal rg (he_key_offset (get_hentry m (roff rg entry))) key m
          then Some (Some (prev_off, entry))
          else hashtable_find rg key m entry_off (he_next (get_hentry m (roff rg entry))))"

section \<open>Creation and destruction\<close>

definition hashtable_create ::
    "env \<Rightarrow> ShmRegion \<Rightarrow> u64 \<Rightarrow> u64 \<Rightarrow> u64 \<Rightarrow> world \<Rightarrow> OffsetPtr result" where
  "hashtable_create E rg num_buckets key_size val_size w =
     (if num_buckets = 0 \<or> key_size = 0 \<or> val_size = 0 then Some (offset_ptr_null, w)
      else do {
        ((status, obj), w1) \<leftarrow> object_store_alloc E (Some rg) 1 SIZEOF_HashTableHeader True w;
        if status \<noteq> STATUS_OK then Some (offset_ptr_null, w1)
        else
          let hdr_ptr = the obj in
          case hashtable_resolve_header rg hdr_ptr of
            None \<Rightarrow> Some (offset_ptr_null, w1)
          | Some hdr \<Rightarrow>
              let h = roff rg hdr;
                  m1 = st64 (bytes w1) (h + HT_num_buckets) num_buckets;
                  m2 = st64 m1 (h + HT_key_size) key_size;
                  m3 = st64 m2 (h + HT_val_size) val_size;
                  m4 = st64 m3 (h + HT_buckets) offset_ptr_null;
                  w2 = snd (pthread_mutex_init E (h + HT_lock) (set_bytes m4 w1));
                  bucket_arr_size = num_buckets * 8
              in do {
                ((st, data), w3) \<leftarrow> allocator_alloc E (Some rg) bucket_arr_size 16 True w2;
                if st \<noteq> STATUS_OK then do {
                  (_, w4) \<leftarrow> object_store_free E (Some rg) hdr_ptr (pthread_mutex_destroy (h + HT_lock) w3);
                  Some (offset_ptr_null, w4)
                }
                else
                  let bucket_ptr = the data;
                      w4 = set_bytes (zero (bytes w3) (roff rg bucket_ptr) (unat bucket_arr_size)) w3
                  in case offset_ptr_try_from_raw (rg_base rg) (rg_size rg) bucket_ptr True of
                       None \<Rightarrow> do {
                         (_, w5) \<leftarrow> allocator_free E (Some rg) bucket_ptr w4;
                         (_, w6) \<leftarrow> object_store_free E (Some rg) hdr_ptr (pthread_mutex_destroy (h + HT_lock) w5);
                         Some (offset_ptr_null, w6)
                       }
                     | Some off \<Rightarrow>
                         Some (hdr_ptr, set_bytes (st64 (bytes w4) (h + HT_buckets) off) w4)
              }
      })"

text \<open>Releasing the key, the value and the node of an entry, as delete and destroy do it.\<close>

definition hashtable_free_entry :: "env \<Rightarrow> ShmRegion \<Rightarrow> nat \<Rightarrow> u64 \<Rightarrow> world \<Rightarrow> world option" where
  "hashtable_free_entry E rg h entry w =
     (let e = roff rg entry; key_offset = he_key_offset (get_hentry (bytes w) e) in
      do {
        w1 \<leftarrow> (if \<not> offset_ptr_is_null key_offset then hashtable_free_string E rg key_offset w else Some w);
        w2 \<leftarrow> hashtable_free_value E rg (he_value_offset (get_hentry (bytes w1) e))
                 (ht_val_size (get_table (bytes w1) h)) w1;
        map_option snd (allocator_free E (Some rg) entry w2)
      })"

text \<open>The inner loop of \<open>hashtable_destroy\<close>; the next link is read before the entry is released.\<close>

partial_function (option) hashtable_free_chain ::
    "env \<Rightarrow> ShmRegion \<Rightarrow> nat \<Rightarrow> OffsetPtr \<Rightarrow> world \<Rightarrow> world option" where
  "hashtable_free_chain E rg h entry_off w =
     (if offset_ptr_is_null entry_off then Some w
      else case hashtable_resolve_entry rg entry_off of
        None \<Rightarrow> Some w
      | Some entry \<Rightarrow>
          let next = he_next (get_hentry (bytes w) (roff rg entry)) in do {
            w1 \<leftarrow> hashtable_free_entry E rg h entry w;
            hashtable_free_chain E rg h next w1
          })"

partial_function (option) hashtable_free_buckets ::
    "env \<Rightarrow> ShmRegion \<Rightarrow> nat \<Rightarrow> u64 \<Rightarrow> u64 \<Rightarrow> world \<Rightarrow> world option" where
  "hashtable_free_buckets E rg h buckets i w =
     (if i < ht_num_buckets (get_table (bytes w) h) then do {
        w1 \<leftarrow> hashtable_free_chain E rg h (ld64 (bytes w) (bucket_at rg buckets i)) w;
        hashtable_free_buckets E rg h buckets (i + 1) w1
      }
      else Some w)"

definition hashtable_destroy :: "env \<Rightarrow> ShmRegion \<Rightarrow> OffsetPtr \<Rightarrow> world \<Rightarrow> unit result" where
  "hashtable_destroy E rg table_offset w =
     (case hashtable_resolve_header rg table_offset of
        None \<Rightarrow> Some ((), w)
      | Some hp \<Rightarrow>
          let h = roff rg hp in do {
            w1 \<leftarrow> hashtable_lock E h w;
            case hashtable_bucket_array rg (get_table (bytes w1) h) of
              None \<Rightarrow> Some ((), hashtable_unlock E h w1)
            | Some buckets \<Rightarrow> do {
                w2 \<leftarrow> hashtable_free_buckets E rg h buckets 0 w1;
                (_, w3) \<leftarrow> allocator_free E (Some rg) buckets w2;
                let w4 = pthread_mutex_destroy (h + HT_lock) (hashtable_unlock E h w3);
                (_, w5) \<leftarrow> object_store_free E (Some rg) table_offset w4;
                Some ((), w5)
              }
          })"

section \<open>Inserting and updating\<close>

text \<open>The body of put for an entry that has the key: its value buffer is released and a new one
  allocated.\<close>

definition hashtable_update ::
    "env \<Rightarrow> ShmRegion \<Rightarrow> nat \<Rightarrow> nat \<Rightarrow> u8 list \<Rightarrow> world \<Rightarrow> int result" where
  "hashtable_update E rg h e val w =
     do {
       w1 \<leftarrow> hashtable_free_value E rg (he_value_offset (get_hentry (bytes w) e)) (ht_val_size (get_table (bytes w) h)) w;
       let val_size = ht_val_size (get_table (bytes w1) h);
       ((status, ptr), w2) \<leftarrow> allocator_alloc E (Some rg) val_size 16 True w1;
       if status \<noteq> STATUS_OK then Some (- 1, w2)
       else
         let new_val = the ptr;
             w3 = set_bytes (wr (bytes w2) (roff rg new_val)
                    (take (unat (ht_val_size (get_table (bytes w2) h))) val)) w2
         in case offset_ptr_try_from_raw (rg_base rg) (rg_size rg) new_val True of
              None \<Rightarrow> do { (_, w4) \<leftarrow> allocator_free E (Some rg) new_val w3; Some (- 1, w4) }
            | Some off \<Rightarrow> Some (0, set_bytes (st64 (bytes w3) (e + HE_value_offset) off) w3)
     }"

text \<open>The body of put for a key that is not in the table: key string, value buffer and entry are
  allocated, and the entry is put at the head of the bucket at \<open>b\<close>.\<close>

definition hashtable_insert ::
    "env \<Rightarrow> ShmRegion \<Rightarrow> nat \<Rightarrow> nat \<Rightarrow> cstr \<Rightarrow> u8 list \<Rightarrow> world \<Rightarrow> int result" where
  "hashtable_insert E rg h b key val w =
     do {
       (key_off, w1) \<leftarrow> hashtable_alloc_string E rg key (ht_key_size (get_table (bytes w) h)) w;
       if offset_ptr_is_null key_off then Some (- 1, w1)
       else do {
         ((status, ptr), w2) \<leftarrow> allocator_alloc E (Some rg) (ht_val_size (get_table (bytes w1) h)) 16 True w1;
         if status \<noteq> STATUS_OK then do { w3 \<leftarrow> hashtable_free_string E rg key_off w2; Some (- 1, w3) }
         else
           let val_ptr = the ptr;
               w3 = set_bytes (wr (bytes w2) (roff rg val_ptr)
                      (take (unat (ht_val_size (get_table (bytes w2) h))) val)) w2
           in case offset_ptr_try_from_raw (rg_base rg) (rg_size rg) val_ptr True of
                None \<Rightarrow> do {
                  (_, w4) \<leftarrow> allocator_free E (Some rg) val_ptr w3;
                  w5 \<leftarrow> hashtable_free_string E rg key_off w4;
                  Some (- 1, w5)
                }
              | Some val_off \<Rightarrow> do {
                  (new_entry_off, w4) \<leftarrow> hashtable_alloc_entry E rg key_off val_off (ld64 (bytes w3) b) w3;
                  if offset_ptr_is_null new_entry_off then do {
                    (_, w5) \<leftarrow> allocator_free E (Some rg) val_ptr w4;
                    w6 \<leftarrow> hashtable_free_string E rg key_off w5;
                    Some (- 1, w6)
                  }
                  else Some (0, set_bytes (st64 (bytes w4) b new_entry_off) w4)
                }
       }
     }"

definition hashtable_put ::
    "env \<Rightarrow> ShmRegion \<Rightarrow> OffsetPtr \<Rightarrow> cstr option \<Rightarrow> u8 list option \<Rightarrow> world \<Rightarrow> int result" where
  "hashtable_put E rg table_offset key val w =
     (if key = None \<or> val = None then Some (- 1, w)
      else case hashtable_resolve_header rg table_offset of
        None \<Rightarrow> Some (- 1, w)
      | Some hp \<Rightarrow>
          let h = roff rg hp in do {
            w1 \<leftarrow> hashtable_lock E h w;
            let hdr = get_table (bytes w1) h;
            let idx = hashtable_hash (the key) (ht_num_buckets hdr);
            case hashtable_bucket_array rg hdr of
              None \<Rightarrow> Some (- 1, hashtable_unlock E h w1)
            | Some buckets \<Rightarrow> do {
                found \<leftarrow> hashtable_find rg (the key) (bytes w1) offset_ptr_null (ld64 (bytes w1) (bucket_at rg buckets idx));
                (rc, w2) \<leftarrow> (case found of
                    Some (_, entry) \<Rightarrow> hashtable_update E rg h (roff rg entry) (the val) w1
                  | None \<Rightarrow> hashtable_insert E rg h (bucket_at rg buckets idx) (the key) (the val) w1);
                Some (rc, hashtable_unlock E h w2)
              }
          })"

section \<open>Lookup, deletion and length\<close>

definition hashtable_get ::
    "env \<Rightarrow> ShmRegion \<Rightarrow> OffsetPtr \<Rightarrow> cstr option \<Rightarrow> bool \<Rightarrow> world \<Rightarrow> (int \<times> u8 list option) result" where
  "hashtable_get E rg table_offset key out_nonnull w =
     (if key = None \<or> \<not> out_nonnull then Some ((- 1, None), w)
      else case hashtable_resolve_header rg table_offset of
        None \<Rightarrow> Some ((- 1, None), w)
      | Some hp \<Rightarrow>
          let h = roff rg hp in do {
            w1 \<leftarrow> hashtable_lock E h w;
            let hdr = get_table (bytes w1) h;
            let idx = hashtable_hash (the key) (ht_num_buckets hdr);
            case hashtable_bucket_array rg hdr of
              None \<Rightarrow> Some ((- 1, None), hashtable_unlock E h w1)
            | Some buckets \<Rightarrow> do {
                found \<leftarrow> hashtable_find rg (the key) (bytes w1) offset_ptr_null (ld64 (bytes w1) (bucket_at rg buckets idx));
                case found of
                  None \<Rightarrow> Some ((- 1, None), hashtable_unlock E h w1)
                | Some (_, entry) \<Rightarrow>
                    (case offset_ptr_try_resolve (rg_base rg) (rg_size rg)
                            (he_value_offset (get_hentry (bytes w1) (roff rg entry))) (ht_val_size hdr) True of
                       None \<Rightarrow> Some ((- 1, None), hashtable_unlock E h w1)
                     | Some v \<Rightarrow>
                         Some ((0, Some (rd (bytes w1) (roff rg v) (unat (ht_val_size hdr)))), hashtable_unlock E h w1))
              }
          })"

text \<open>The body of delete for the entry that has the key: it is taken out of its chain, then its key,
  its value and itself are released.\<close>

definition hashtable_unlink :: "ShmRegion \<Rightarrow> nat \<Rightarrow> OffsetPtr \<Rightarrow> nat \<Rightarrow> mem \<Rightarrow> mem" where
  "hashtable_unlink rg b prev_off e m =
     (if offset_ptr_is_null prev_off then st64 m b (he_next (get_hentry m e))
      else case hashtable_resolve_entry rg prev_off of
        None \<Rightarrow> m
      | Some prev_entry \<Rightarrow> st64 m (roff rg prev_entry + HE_next) (he_next (get_hentry m e)))"

definition hashtable_delete :: "env \<Rightarrow> ShmRegion \<Rightarrow> OffsetPtr \<Rightarrow> cstr option \<Rightarrow> world \<Rightarrow> int result" where
  "hashtable_delete E rg table_offset key w =
     (if key = None then Some (- 1, w)
      else case hashtable_resolve_header rg table_offset of
        None \<Rightarrow> Some (- 1, w)
      | Some hp \<Rightarrow>
          let h = roff rg hp in do {
            w1 \<leftarrow> hashtable_lock E h w;
            let hdr = get_table (bytes w1) h;
            let idx = hashtable_hash (the key) (ht_num_buckets hdr);
            case hashtable_bucket_array rg hdr of
              None \<Rightarrow> Some (- 1, hashtable_unlock E h w1)
            | Some buckets \<Rightarrow> do {
                let b = bucket_at rg buckets idx;
                found \<leftarrow> hashtable_find rg (the key) (bytes w1) offset_ptr_null (ld64 (bytes w1) b);
                case found of
                  None \<Rightarrow> Some (- 1, hashtable_unlock E h w1)
                | Some (prev_off, entry) \<Rightarrow> do {
                    w2 \<leftarrow> hashtable_free_entry E rg h entry
                            (set_bytes (hashtable_unlink rg b prev_off (roff rg entry) (bytes w1)) w1);
                    Some (0, hashtable_unlock E h w2)
                  }
              }
          })"

partial_function (option) hashtable_chain_length :: "ShmRegion \<Rightarrow> mem \<Rightarrow> OffsetPtr \<Rightarrow> u64 \<Rightarrow> u64 option" where
  "hashtable_chain_length rg m entry_off count =
     (if offset_ptr_is_null entry_off then Some count
      else case hashtable_resolve_entry rg entry_off of
        None \<Rightarrow> Some count
      | Some entry \<Rightarrow> hashtable_chain_length rg m (he_next (get_hentry m (roff rg entry))) (count + 1))"

partial_function (option) hashtable_count_buckets ::
    "ShmRegion \<Rightarrow> mem \<Rightarrow> nat \<Rightarrow> u64 \<Rightarrow> u64 \<Rightarrow> u64 \<Rightarrow> u64 option" where
  "hashtable_count_buckets rg m h buckets i count =
     (if i < ht_num_buckets (get_table m h) then do {
        count' \<leftarrow> hashtable_chain_length rg m (ld64 m (bucket_at rg buckets i)) count;
        hashtable_count_buckets rg m h buckets (i + 1) count'
      }
      else Some count)"

definition hashtable_length :: "env \<Rightarrow> ShmRegion \<Rightarrow> OffsetPtr \<Rightarrow> world \<Rightarrow> u64 result" where
  "hashtable_length E rg table_offset w =
     (case hashtable_resolve_header rg table_offset of
        None \<Rightarrow> Some (0, w)
      | Some hp \<Rightarrow>
          let h = roff rg hp in do {
            w1 \<leftarrow> hashtable_lock E h w;
            case hashtable_bucket_array rg (get_table (bytes w1) h) of
              None \<Rightarrow> Some (0, hashtable_unlock E h w1)
            | Some buckets \<Rightarrow> do {
                count \<leftarrow> hashtable_count_buckets rg (bytes w1) h buckets 0 0;
                Some (count, hashtable_unlock E h w1)
              }
          })"

end
