(* ===== verification/HashTableSpec.thy ===== *)
theory HashTableSpec
  imports HashTable
begin

text \<open>
  The hash table as data: an entry is a node, a key string and a value buffer, three allocations;
  a bucket is a chain of nodes. \<open>ht_repr m p cs\<close> says that the table at \<open>p\<close> holds the chains \<open>cs\<close>,
  with all spans distinct, every key in the bucket of its hash and no key twice. The chains are a
  function of the bytes (\<open>ht_read\<close>), and the finite map the table stands for is read off them.
\<close>

section \<open>Entries\<close>

record hent =
  node_pos :: nat
  key_pos :: nat
  val_pos :: nat
  ent_key :: cstr
  ent_val :: "u8 list"

definition read_ent :: "mem \<Rightarrow> nat \<Rightarrow> nat \<Rightarrow> hent" where
  "read_ent m vs e =
     (let k = unat (ld64 m e); v = unat (ld64 m (e + 8)) in
      \<lparr>node_pos = e, key_pos = k, val_pos = v, ent_key = rd m (k + 4) (unat (ld32 m k)), ent_val = rd m v vs\<rparr>)"

definition ent_spans :: "hent \<Rightarrow> nat list" where
  "ent_spans x = [node_pos x, key_pos x, val_pos x]"

text \<open>An entry in the heap. Its value buffer would serve the request it was granted for again.\<close>

definition ent_ok :: "mem \<Rightarrow> u64 \<Rightarrow> hent \<Rightarrow> bool" where
  "ent_ok m vs x \<longleftrightarrow>
     (\<exists>n. heap_abs m (node_pos x) = Some n \<and> 24 \<le> n) \<and>
     (\<exists>n. heap_abs m (key_pos x) = Some n \<and> 5 + length (ent_key x) \<le> n) \<and>
     (\<exists>n. heap_abs m (val_pos x) = Some n \<and> unat vs \<le> n) \<and> span_serves vs m (val_pos x) \<and>
     0 \<notin> set (ent_key x) \<and> x = read_ent m (unat vs) (node_pos x)"

lemma ent_okD:
  assumes "ent_ok m vs x"
  obtains i j n where "heap_abs m (node_pos x) = Some i" "24 \<le> i"
    "heap_abs m (key_pos x) = Some j" "5 + length (ent_key x) \<le> j"
    "heap_abs m (val_pos x) = Some n" "unat vs \<le> n" "span_serves vs m (val_pos x)" "0 \<notin> set (ent_key x)"
    "unat (ld64 m (node_pos x)) = key_pos x" "unat (ld64 m (node_pos x + 8)) = val_pos x"
    "unat (ld32 m (key_pos x)) = length (ent_key x)" "rd m (key_pos x + 4) (length (ent_key x)) = ent_key x"
    "rd m (val_pos x) (unat vs) = ent_val x"
proof -
  have r: "x = read_ent m (unat vs) (node_pos x)" using assms by (simp add: ent_ok_def)
  have k: "key_pos x = unat (ld64 m (node_pos x))" and v: "val_pos x = unat (ld64 m (node_pos x + 8))"
    using arg_cong [OF r, of key_pos] arg_cong [OF r, of val_pos] by (simp_all add: read_ent_def Let_def)
  have ek: "ent_key x = rd m (key_pos x + 4) (unat (ld32 m (key_pos x)))" and ev: "ent_val x = rd m (val_pos x) (unat vs)"
    using arg_cong [OF r, of ent_key] arg_cong [OF r, of ent_val] by (simp_all add: read_ent_def Let_def k v)
  have l: "length (ent_key x) = unat (ld32 m (key_pos x))" by (subst ek) simp
  obtain i j n where "heap_abs m (node_pos x) = Some i" "24 \<le> i" "heap_abs m (key_pos x) = Some j"
    "5 + length (ent_key x) \<le> j" "heap_abs m (val_pos x) = Some n" "unat vs \<le> n" "span_serves vs m (val_pos x)" "0 \<notin> set (ent_key x)"
    using assms unfolding ent_ok_def by blast
  from that [OF this k [symmetric] v [symmetric] l [symmetric] _ ev [symmetric]] show thesis using ek l by simp
qed

text \<open>What an entry needs of the memory: the node and the two spans.\<close>

lemma ent_ok_cong:
  assumes o: "ent_ok m vs x"
    and h: "\<And>q n. q \<in> set (ent_spans x) \<Longrightarrow> heap_abs m q = Some n \<Longrightarrow> heap_abs m' q = Some n \<and> same_on m m' q (q + n)"
    and s: "span_serves vs m (val_pos x) \<Longrightarrow> span_serves vs m' (val_pos x)"
  shows "ent_ok m' vs x" and "ld64 m' (node_pos x + 16) = ld64 m (node_pos x + 16)"
proof -
  obtain i j n where d: "heap_abs m (node_pos x) = Some i" "24 \<le> i"
    "heap_abs m (key_pos x) = Some j" "5 + length (ent_key x) \<le> j"
    "heap_abs m (val_pos x) = Some n" "unat vs \<le> n" "span_serves vs m (val_pos x)" "0 \<notin> set (ent_key x)"
    "unat (ld64 m (node_pos x)) = key_pos x" "unat (ld64 m (node_pos x + 8)) = val_pos x"
    "unat (ld32 m (key_pos x)) = length (ent_key x)" "rd m (key_pos x + 4) (length (ent_key x)) = ent_key x"
    "rd m (val_pos x) (unat vs) = ent_val x" using ent_okD [OF o] .
  have sp: "node_pos x \<in> set (ent_spans x)" "key_pos x \<in> set (ent_spans x)" "val_pos x \<in> set (ent_spans x)"
    by (simp_all add: ent_spans_def)
  note hn = h [OF sp(1) d(1)] and hk = h [OF sp(2) d(3)] and hv = h [OF sp(3) d(5)]
  have so: "same_on m m' (node_pos x) (node_pos x + 24)" "same_on m m' (key_pos x) (key_pos x + 4 + length (ent_key x))"
    "same_on m m' (val_pos x) (val_pos x + unat vs)"
    using hn hk hv d(2,4,6) by (auto intro: same_on_sub)
  show "ld64 m' (node_pos x + 16) = ld64 m (node_pos x + 16)"
    using so(1) by (intro ld64_same_on) (auto intro: same_on_sub)
  have l: "ld64 m' (node_pos x) = ld64 m (node_pos x)" "ld64 m' (node_pos x + 8) = ld64 m (node_pos x + 8)"
    using so(1) by (auto intro!: ld64_same_on intro: same_on_sub)
  have k: "ld32 m' (key_pos x) = ld32 m (key_pos x)" using so(2) by (intro ld32_same_on) (auto intro: same_on_sub)
  have r: "rd m' (key_pos x + 4) (length (ent_key x)) = rd m (key_pos x + 4) (length (ent_key x))"
    using so(2) by (intro rd_same_on) (auto intro: same_on_sub)
  have v: "rd m' (val_pos x) (unat vs) = rd m (val_pos x) (unat vs)" using so(3) by (rule rd_same_on)
  have "read_ent m' (unat vs) (node_pos x) = x" using d l k r v by (simp add: read_ent_def Let_def)
  then show "ent_ok m' vs x" using hn hk hv d s by (auto simp: ent_ok_def)
qed

lemma ent_undisturbed:
  assumes o: "ent_ok m vs x" and u: "undisturbed (set (ent_spans x)) m m'"
  shows "ent_ok m' vs x" and "ld64 m' (node_pos x + 16) = ld64 m (node_pos x + 16)"
proof -
  have "val_pos x \<in> set (ent_spans x)" by (simp add: ent_spans_def)
  note c = ent_ok_cong [OF o _ undisturbedD(3) [OF u this]]
  show "ent_ok m' vs x" by (rule c(1)) (use undisturbedD [OF u] in blast)
  show "ld64 m' (node_pos x + 16) = ld64 m (node_pos x + 16)" by (rule c(2)) (use undisturbedD [OF u] in blast)
qed

lemma ent_ok_kept:
  assumes "ent_ok m vs x" and "owner_step S S' m m'" and "set (ent_spans x) \<inter> S = {}"
  shows "ent_ok m' vs x" and "ld64 m' (node_pos x + 16) = ld64 m (node_pos x + 16)"
  using ent_undisturbed [OF assms(1) undisturbed_step [OF assms(2,3)]] by simp_all

lemma ent_ok_live: "ent_ok m vs x \<Longrightarrow> q \<in> set (ent_spans x) \<Longrightarrow> heap_abs m q \<noteq> None"
  by (auto simp: ent_ok_def ent_spans_def)

section \<open>Chains\<close>

fun chain :: "mem \<Rightarrow> nat \<Rightarrow> hent list \<Rightarrow> bool" where
  "chain m c [] \<longleftrightarrow> c = 0"
| "chain m c (x # xs) \<longleftrightarrow> c = node_pos x \<and> chain m (unat (ld64 m (node_pos x + 16))) xs"

lemma chain_cong:
  assumes "\<And>x. x \<in> set xs \<Longrightarrow> ld64 m' (node_pos x + 16) = ld64 m (node_pos x + 16)"
  shows "chain m' c xs = chain m c xs"
  using assms by (induction xs arbitrary: c) auto

text \<open>Reading a chain, with fuel that no chain of distinct nodes in a region exhausts.\<close>

fun ht_walk :: "mem \<Rightarrow> nat \<Rightarrow> nat \<Rightarrow> nat \<Rightarrow> hent list" where
  "ht_walk m vs 0 c = []"
| "ht_walk m vs (Suc n) c = (if c = 0 then [] else read_ent m vs c # ht_walk m vs n (unat (ld64 m (c + 16))))"

lemma chain_walk:
  assumes "chain m c xs" and "\<And>x. x \<in> set xs \<Longrightarrow> x = read_ent m vs (node_pos x) \<and> node_pos x \<noteq> 0" and "length xs \<le> n"
  shows "ht_walk m vs n c = xs"
  using assms
proof (induction xs arbitrary: c n)
  case Nil
  then show ?case by (cases n) simp_all
next
  case (Cons x xs)
  then obtain k where n: "n = Suc k" by (cases n) auto
  have "ht_walk m vs k (unat (ld64 m (node_pos x + 16))) = xs" using Cons n by (intro Cons.IH) auto
  then show ?case using Cons.prems(1) Cons.prems(2) [of x] n by simp
qed

section \<open>Tables\<close>

definition all_spans :: "hent list \<Rightarrow> nat list" where
  "all_spans xs = concat (map ent_spans xs)"

definition ht_repr :: "mem \<Rightarrow> nat \<Rightarrow> hent list list \<Rightarrow> bool" where
  "ht_repr m p cs \<longleftrightarrow>
     (let t = get_table m p; b = unat (ht_buckets t); n = unat (ht_num_buckets t) in
      (\<exists>k. heap_abs m p = Some k \<and> 72 \<le> k) \<and> (\<exists>k. heap_abs m b = Some k \<and> n * 8 \<le> k) \<and>
      0 < n \<and> 0 < unat (ht_key_size t) \<and> 0 < unat (ht_val_size t) \<and> length cs = n \<and>
      distinct (p # b # all_spans (concat cs)) \<and>
      (\<forall>x \<in> set (concat cs). ent_ok m (ht_val_size t) x) \<and>
      (\<forall>i < n. chain m (unat (ld64 m (b + i * 8))) (cs ! i)) \<and>
      (\<forall>i < n. \<forall>x \<in> set (cs ! i). unat (hashtable_hash (ent_key x) (ht_num_buckets t)) = i) \<and>
      distinct (map ent_key (concat cs)))"

definition ht_read :: "mem \<Rightarrow> nat \<Rightarrow> hent list list" where
  "ht_read m p =
     (let t = get_table m p in
      map (\<lambda>i. ht_walk m (unat (ht_val_size t)) (2 ^ 64) (unat (ld64 m (unat (ht_buckets t) + i * 8))))
        [0..<unat (ht_num_buckets t)])"

definition table_ok :: "mem \<Rightarrow> nat \<Rightarrow> bool" where
  "table_ok m p \<longleftrightarrow> ht_repr m p (ht_read m p)"

definition ht_map :: "hent list list \<Rightarrow> cstr \<rightharpoonup> u8 list" where
  "ht_map cs = map_of (map (\<lambda>x. (ent_key x, ent_val x)) (concat cs))"

definition table_abs :: "mem \<Rightarrow> nat \<Rightarrow> cstr \<rightharpoonup> u8 list" where
  "table_abs m p = ht_map (ht_read m p)"

definition ht_spans :: "mem \<Rightarrow> nat \<Rightarrow> hent list list \<Rightarrow> nat set" where
  "ht_spans m p cs = {p, unat (ht_buckets (get_table m p))} \<union> set (all_spans (concat cs))"

definition table_spans :: "mem \<Rightarrow> nat \<Rightarrow> nat set" where
  "table_spans m p = ht_spans m p (ht_read m p)"

lemma ht_reprD:
  assumes "ht_repr m p cs"
  defines "t \<equiv> get_table m p"
  shows "\<exists>k. heap_abs m p = Some k \<and> 72 \<le> k"
    and "\<exists>k. heap_abs m (unat (ht_buckets t)) = Some k \<and> unat (ht_num_buckets t) * 8 \<le> k"
    and "0 < unat (ht_num_buckets t)" and "0 < unat (ht_key_size t)" and "0 < unat (ht_val_size t)"
    and "length cs = unat (ht_num_buckets t)"
    and "distinct (p # unat (ht_buckets t) # all_spans (concat cs))"
    and "x \<in> set (concat cs) \<Longrightarrow> ent_ok m (ht_val_size t) x"
    and "i < unat (ht_num_buckets t) \<Longrightarrow> chain m (unat (ld64 m (unat (ht_buckets t) + i * 8))) (cs ! i)"
    and "i < unat (ht_num_buckets t) \<Longrightarrow> y \<in> set (cs ! i) \<Longrightarrow> unat (hashtable_hash (ent_key y) (ht_num_buckets t)) = i"
    and "distinct (map ent_key (concat cs))"
  using assms unfolding ht_repr_def Let_def t_def by blast+

lemma all_spans_mem: "q \<in> set (all_spans xs) \<longleftrightarrow> (\<exists>x \<in> set xs. q \<in> set (ent_spans x))"
  by (auto simp: all_spans_def)

lemma ht_spans_live:
  assumes r: "ht_repr m p cs" and q: "q \<in> ht_spans m p cs"
  shows "heap_abs m q \<noteq> None"
proof -
  have "\<exists>x \<in> set (concat cs). q \<in> set (ent_spans x)" if "q \<noteq> p" "q \<noteq> unat (ht_buckets (get_table m p))"
    using q that by (auto simp: ht_spans_def all_spans_mem)
  then show ?thesis using ht_reprD(1,2) [OF r] ht_reprD(8) [OF r] ent_ok_live by (cases "q = p") fastforce+
qed

lemma get_table_same: "same_on m m' p (p + 32) \<Longrightarrow> get_table m' p = get_table m p"
  unfolding get_table_def by (simp add: ld64_same_on same_on_def)

text \<open>The chains are determined by the bytes.\<close>

lemma all_spans_length: "length (all_spans xs) = 3 * length xs"
  by (induction xs) (simp_all add: all_spans_def ent_spans_def)

lemma ht_entries_bound:
  assumes h: "heap_inv rg m" and r: "ht_repr m p cs"
  shows "length (concat cs) < 2 ^ 63"
proof -
  have "set (all_spans (concat cs)) \<subseteq> {..<unat (rg_size rg)}"
  proof
    fix q assume "q \<in> set (all_spans (concat cs))"
    then have "heap_abs m q \<noteq> None" by (intro ht_spans_live [OF r]) (simp add: ht_spans_def)
    then obtain k where k: "heap_abs m q = Some k" by blast
    show "q \<in> {..<unat (rg_size rg)}" using heap_abs_bounds(2,3) [OF h k] by simp
  qed
  then have "card (set (all_spans (concat cs))) \<le> unat (rg_size rg)" using card_mono [of "{..<unat (rg_size rg)}"] by fastforce
  moreover have "card (set (all_spans (concat cs))) = 3 * length (concat cs)"
    using ht_reprD(7) [OF r] distinct_card [of "all_spans (concat cs)"] by (simp add: all_spans_length)
  moreover have "region_ok rg" using h by (simp add: heap_inv_def header_inv_def)
  ultimately show ?thesis using region_okD(3) [of rg] by simp
qed

lemma ht_repr_read:
  assumes h: "heap_inv rg m" and r: "ht_repr m p cs"
  shows "ht_read m p = cs"
proof (rule nth_equalityI)
  show "length (ht_read m p) = length cs" using ht_reprD(6) [OF r] by (simp add: ht_read_def Let_def)
  fix i assume "i < length (ht_read m p)"
  then have i: "i < unat (ht_num_buckets (get_table m p))" "i < length cs"
    using ht_reprD(6) [OF r] by (simp_all add: ht_read_def Let_def)
  have sub: "set (cs ! i) \<subseteq> set (concat cs)" using nth_mem [OF i(2)] by auto
  have "x = read_ent m (unat (ht_val_size (get_table m p))) (node_pos x) \<and> node_pos x \<noteq> 0" if "x \<in> set (cs ! i)" for x
  proof -
    have o: "ent_ok m (ht_val_size (get_table m p)) x" using ht_reprD(8) [OF r] sub that by blast
    then obtain k where "heap_abs m (node_pos x) = Some k" by (auto simp: ent_ok_def)
    then have "node_pos x \<noteq> 0" using heap_abs_bounds(1) [OF h] by fastforce
    then show ?thesis using o by (simp add: ent_ok_def)
  qed
  moreover have "length (cs ! i) \<le> length (concat cs)"
    using i(2) by (simp add: length_concat) (metis elem_le_sum_list length_map nth_map)
  then have "length (cs ! i) \<le> 2 ^ 64" using ht_entries_bound [OF h r] by simp
  ultimately show "ht_read m p ! i = cs ! i"
    using chain_walk [OF ht_reprD(9) [OF r i(1)]] i(1) by (simp add: ht_read_def Let_def)
qed

lemma table_okI: "heap_inv rg m \<Longrightarrow> ht_repr m p cs \<Longrightarrow> table_ok m p"
  by (simp add: table_ok_def ht_repr_read)

section \<open>Steps of other owners\<close>

lemma ht_undisturbed:
  assumes r: "ht_repr m p cs" and u: "undisturbed (ht_spans m p cs) m m'"
  shows "get_table m' p = get_table m p" and "ht_repr m' p cs" and "ht_spans m' p cs = ht_spans m p cs"
proof -
  let ?t = "get_table m p" let ?b = "unat (ht_buckets ?t)" and ?n = "unat (ht_num_buckets ?t)"
  note rd = ht_reprD [OF r]
  have pb: "p \<in> ht_spans m p cs" "?b \<in> ht_spans m p cs" by (simp_all add: ht_spans_def)
  obtain k where k: "heap_abs m p = Some k" "72 \<le> k" using rd(1) by blast
  obtain j where j: "heap_abs m ?b = Some j" "?n * 8 \<le> j" using rd(2) by blast
  note pk = undisturbedD [OF u pb(1)] and bk = undisturbedD [OF u pb(2)]
  show g: "get_table m' p = ?t" using pk(2) [OF k(1)] k(2) by (intro get_table_same) (auto intro: same_on_sub)
  then show "ht_spans m' p cs = ht_spans m p cs" by (simp add: ht_spans_def)
  have e: "ent_ok m' (ht_val_size ?t) x \<and> ld64 m' (node_pos x + 16) = ld64 m (node_pos x + 16)" if x: "x \<in> set (concat cs)" for x
  proof -
    have "set (ent_spans x) \<subseteq> ht_spans m p cs" using x unfolding ht_spans_def by (auto simp only: all_spans_mem)
    then show ?thesis using ent_undisturbed [OF rd(8) [OF x] undisturbed_subset [OF u]] by blast
  qed
  have ch: "chain m' (unat (ld64 m' (?b + i * 8))) (cs ! i)" if i: "i < ?n" for i
  proof -
    have "i * 8 + 8 \<le> j" using i j(2) by linarith
    then have "ld64 m' (?b + i * 8) = ld64 m (?b + i * 8)"
      using bk(2) [OF j(1)] by (intro ld64_same_on) (auto intro: same_on_sub)
    moreover have "cs ! i \<in> set cs" using i rd(6) by simp
    then have "set (cs ! i) \<subseteq> set (concat cs)" by auto
    then have "chain m' c (cs ! i) = chain m c (cs ! i)" for c using e by (intro chain_cong) blast
    ultimately show ?thesis using rd(9) [OF i] by simp
  qed
  show "ht_repr m' p cs"
    unfolding ht_repr_def Let_def g using pk(1) [OF k(1)] k(2) bk(1) [OF j(1)] j(2) rd(3-7,10,11) e ch by auto
qed

lemma ht_kept:
  assumes r: "ht_repr m p cs" and s: "owner_step S S' m m'" and d: "ht_spans m p cs \<inter> S = {}"
  shows "get_table m' p = get_table m p" and "ht_repr m' p cs" and "ht_spans m' p cs = ht_spans m p cs"
    and "ht_spans m p cs \<inter> S' = {}"
proof -
  note u = ht_undisturbed [OF r undisturbed_step [OF s d]]
  show "get_table m' p = get_table m p" "ht_repr m' p cs" "ht_spans m' p cs = ht_spans m p cs" by (fact u)+
  have "q \<notin> S'" if q: "q \<in> ht_spans m p cs" for q
  proof -
    obtain i where "heap_abs m q = Some i" using ht_spans_live [OF r q] by blast
    moreover have "q \<notin> S" using d q by auto
    ultimately show ?thesis using private_step_live(2) [OF s] by blast
  qed
  then show "ht_spans m p cs \<inter> S' = {}" by auto
qed

section \<open>Searching\<close>

lemma strncmp_eq_iff: "length a = length b \<Longrightarrow> 0 \<notin> set a \<Longrightarrow> strncmp_eq a (b @ c) (length a) \<longleftrightarrow> a = b"
  by (induction a b rule: list_induct2) auto

lemma span_word:
  assumes h: "heap_inv rg m" and k: "heap_abs m (unat off) = Some n" and d: "d \<le> n" "d < 2 ^ 32"
  shows "roff rg (rg_base rg + off + of_nat d) = unat off + d"
proof -
  have "unat off + d < 2 ^ 64" using heap_abs_bounds(3) [OF h k] d unat_less_2p64 [of "rg_size rg"] by simp
  moreover have "unat (of_nat d :: u64) = d" using d(2) by (intro unat_of_nat_small) simp
  ultimately have "unat (off + of_nat d) = unat off + d" by (subst unat_add_nowrap) simp_all
  then show ?thesis by (simp add: roff_def add.assoc)
qed

lemma keys_equal_iff:
  assumes h: "heap_inv rg m" and o: "ent_ok m vs x" and n: "length key < 2 ^ 64"
  shows "hashtable_keys_equal rg (ld64 m (node_pos x)) key m \<longleftrightarrow> ent_key x = key"
proof -
  obtain j where k: "heap_abs m (key_pos x) = Some j" "5 + length (ent_key x) \<le> j" "0 \<notin> set (ent_key x)"
    "unat (ld64 m (node_pos x)) = key_pos x" "unat (ld32 m (key_pos x)) = length (ent_key x)"
    "rd m (key_pos x + 4) (length (ent_key x)) = ent_key x" using ent_okD [OF o] by metis
  let ?o = "ld64 m (node_pos x)" and ?l = "ld32 m (key_pos x)"
  have ko: "heap_abs m (unat ?o) = Some j" using k(1,4) by simp
  have r4: "offset_ptr_try_resolve (rg_base rg) (rg_size rg) ?o 4 True = Some (rg_base rg + ?o)"
    using k(2) by (intro span_resolves(1) [OF h ko]) simp
  have ul: "unat (ucast ?l :: u64) = length (ent_key x)" using k(5) by (simp add: unat_ucast_64)
  have lb: "length (ent_key x) < 2 ^ 32" using k(5) unat_less_2p32 [of ?l] by simp
  have "unat (4 + ucast ?l + 1 :: u64) = 5 + length (ent_key x)"
    using ul lb by (simp add: unat_word_ariths)
  then have rl: "offset_ptr_try_resolve (rg_base rg) (rg_size rg) ?o (4 + ucast ?l + 1) True = Some (rg_base rg + ?o)"
    using k(2) by (intro span_resolves(1) [OF h ko]) simp
  have rs: "hashtable_resolve_string rg ?o m = Some (rg_base rg + ?o + 4)"
    using r4 rl k(4) by (simp add: hashtable_resolve_string_def)
  have k4: "roff rg (rg_base rg + ?o + 4) = key_pos x + 4" using span_word [OF h ko, of 4] k(2,4) by simp
  have sz: "ucast ?l = (of_nat (length key) :: u64) \<longleftrightarrow> length (ent_key x) = length key"
    using ul n by (simp add: word_eq_iff_unat unat_of_nat_small)
  have "hashtable_keys_equal rg ?o key m \<longleftrightarrow>
      length (ent_key x) = length key \<and> strncmp_eq (ent_key x) (key @ [0]) (length (ent_key x))"
    using rs k4 k(4-6) sz by (auto simp: hashtable_keys_equal_def Let_def)
  then show ?thesis using strncmp_eq_iff [OF _ k(3)] by auto
qed

lemma entry_resolves:
  assumes h: "heap_inv rg m" and o: "ent_ok m vs x" and e: "unat off = node_pos x"
  shows "hashtable_resolve_entry rg off = Some (rg_base rg + off)" and "off \<noteq> 0"
proof -
  obtain i where i: "heap_abs m (unat off) = Some i" "24 \<le> i" using ent_okD [OF o] e by metis
  show "hashtable_resolve_entry rg off = Some (rg_base rg + off)" "off \<noteq> 0"
    using span_resolves [OF h i(1), of 24] i(2) by (simp_all add: hashtable_resolve_entry_def)
qed

lemma find_none:
  assumes h: "heap_inv rg m" and n: "length key < 2 ^ 64"
    and c: "chain m (unat off) xs" and o: "\<And>x. x \<in> set xs \<Longrightarrow> ent_ok m vs x \<and> ent_key x \<noteq> key"
  shows "hashtable_find rg key m prev off = Some None"
  using c o
proof (induction xs arbitrary: off prev)
  case Nil
  then show ?case by (subst hashtable_find.simps) (simp add: word_eq_iff_unat offset_ptr_is_null_def)
next
  case (Cons x xs)
  have x: "ent_ok m vs x" "ent_key x \<noteq> key" using Cons.prems(2) by simp_all
  have e: "unat off = node_pos x" using Cons.prems(1) by simp
  note er = entry_resolves [OF h x(1) e]
  have "hashtable_find rg key m off (ld64 m (node_pos x + 16)) = Some None"
    using Cons.prems by (intro Cons.IH) simp_all
  then show ?case using er e x keys_equal_iff [OF h x(1) n]
    by (subst hashtable_find.simps) (simp add: get_hentry_def)
qed

lemma find_some:
  assumes h: "heap_inv rg m" and n: "length key < 2 ^ 64"
    and c: "chain m (unat off) (ys @ x # zs)" and y: "\<And>y. y \<in> set ys \<Longrightarrow> ent_ok m vs y \<and> ent_key y \<noteq> key"
    and x: "ent_ok m vs x" "ent_key x = key"
  shows "\<exists>prev' off'. hashtable_find rg key m prev off = Some (Some (prev', rg_base rg + off')) \<and> unat off' = node_pos x \<and>
     (if ys = [] then prev' = prev else unat prev' = node_pos (last ys))"
  using c y
proof (induction ys arbitrary: off prev)
  case Nil
  then have e: "unat off = node_pos x" by simp
  note er = entry_resolves [OF h x(1) e]
  have "hashtable_find rg key m prev off = Some (Some (prev, rg_base rg + off))"
    using er e x keys_equal_iff [OF h x(1) n] by (subst hashtable_find.simps) (simp add: get_hentry_def)
  then show ?case using e by auto
next
  case (Cons y ys)
  have y: "ent_ok m vs y" "ent_key y \<noteq> key" using Cons.prems(2) by simp_all
  have e: "unat off = node_pos y" using Cons.prems(1) by simp
  note er = entry_resolves [OF h y(1) e]
  have st: "hashtable_find rg key m prev off = hashtable_find rg key m off (ld64 m (node_pos y + 16))"
    using er e y keys_equal_iff [OF h y(1) n] by (subst hashtable_find.simps) (simp add: get_hentry_def)
  obtain prev' off' where "hashtable_find rg key m off (ld64 m (node_pos y + 16)) = Some (Some (prev', rg_base rg + off'))"
    "unat off' = node_pos x" "if ys = [] then prev' = off else unat prev' = node_pos (last ys)"
    using Cons.IH [of "ld64 m (node_pos y + 16)" off] Cons.prems by auto
  then show ?case using st e by (auto split: if_splits)
qed

end
