(* ===== verification/HashTableSteps.thy ===== *)
theory HashTableSteps
  imports HashTableSpec
begin

text \<open>
  What the memory operations of the hash table do to a represented table: putting an entry at the
  head of a bucket, replacing the value of an entry, and taking an entry out of its chain. Each
  replaces one chain and keeps everything else.
\<close>

section \<open>Replacing one chain\<close>

lemma concat_split:
  assumes "i < length cs"
  shows "concat cs = concat (take i cs) @ cs ! i @ concat (drop (Suc i) cs)"
    and "concat (cs[i := l]) = concat (take i cs) @ l @ concat (drop (Suc i) cs)"
proof -
  show "concat cs = concat (take i cs) @ cs ! i @ concat (drop (Suc i) cs)"
    using id_take_nth_drop [OF assms] by (metis concat.simps(2) concat_append)
  show "concat (cs[i := l]) = concat (take i cs) @ l @ concat (drop (Suc i) cs)"
    using upd_conv_take_nth_drop [OF assms] by simp
qed

lemma all_spans_append [simp]: "all_spans (xs @ ys) = all_spans xs @ all_spans ys"
  by (simp add: all_spans_def)

lemma all_spans_Cons [simp]: "all_spans (x # xs) = ent_spans x @ all_spans xs"
  by (simp add: all_spans_def)

lemma all_spans_Nil [simp]: "all_spans [] = []"
  by (simp add: all_spans_def)

lemma distinct_mid_insert:
  "distinct (ps @ as @ ls @ bs) \<Longrightarrow> distinct xs \<Longrightarrow> set xs \<inter> set (ps @ as @ ls @ bs) = {} \<Longrightarrow>
     distinct (ps @ as @ (xs @ ls) @ bs)"
  by auto

lemma distinct_mid_replace:
  "distinct (ps @ as @ (ys @ xs @ zs) @ bs) \<Longrightarrow> distinct us \<Longrightarrow> set us \<inter> set (ps @ as @ ys @ zs @ bs) = {} \<Longrightarrow>
     distinct (ps @ as @ (ys @ us @ zs) @ bs)"
  by auto

lemma ht_rebuild:
  assumes r: "ht_repr m p cs" and i: "i < length cs"
    and g: "get_table m' p = get_table m p" and hp: "heap_abs m' p = heap_abs m p"
    and hb: "heap_abs m' (unat (ht_buckets (get_table m p))) = heap_abs m (unat (ht_buckets (get_table m p)))"
    and e: "\<And>x. x \<in> set (concat (cs[i := l])) \<Longrightarrow> ent_ok m' (ht_val_size (get_table m p)) x"
    and n: "\<And>j x. j < length cs \<Longrightarrow> j \<noteq> i \<Longrightarrow> x \<in> set (cs ! j) \<Longrightarrow> ld64 m' (node_pos x + 16) = ld64 m (node_pos x + 16)"
    and b: "\<And>j. j < length cs \<Longrightarrow> j \<noteq> i \<Longrightarrow>
      ld64 m' (unat (ht_buckets (get_table m p)) + j * 8) = ld64 m (unat (ht_buckets (get_table m p)) + j * 8)"
    and c: "chain m' (unat (ld64 m' (unat (ht_buckets (get_table m p)) + i * 8))) l"
    and k: "\<And>x. x \<in> set l \<Longrightarrow> unat (hashtable_hash (ent_key x) (ht_num_buckets (get_table m p))) = i"
    and d: "distinct (p # unat (ht_buckets (get_table m p)) # all_spans (concat (cs[i := l])))"
      "distinct (map ent_key (concat (cs[i := l])))"
  shows "ht_repr m' p (cs[i := l])"
proof -
  note rd = ht_reprD [OF r]
  have ch: "chain m' (unat (ld64 m' (unat (ht_buckets (get_table m p)) + j * 8))) (cs[i := l] ! j)"
    if j: "j < length cs" for j
  proof (cases "j = i")
    case True
    then show ?thesis using c i by simp
  next
    case False
    then have "chain m' z (cs ! j) = chain m z (cs ! j)" for z using n [OF j] by (intro chain_cong) blast
    then show ?thesis using False j b [OF j False] rd(6,9) by simp
  qed
  have hs: "unat (hashtable_hash (ent_key x) (ht_num_buckets (get_table m p))) = j"
    if "j < length cs" "x \<in> set (cs[i := l] ! j)" for j x
    using that k rd(6,10) i by (cases "j = i") auto
  show ?thesis
    unfolding ht_repr_def Let_def g hp hb using rd(1-6) d e ch hs by auto
qed

section \<open>Where the spans lie\<close>

text \<open>The bucket word of bucket \<open>i\<close> lies in the bucket array, which no entry and not the header touches.\<close>

lemma ht_apart:
  assumes h: "heap_inv rg m" and r: "ht_repr m p cs"
  obtains n where "heap_abs m (unat (ht_buckets (get_table m p))) = Some n"
    "\<And>i. i < length cs \<Longrightarrow> i * 8 + 8 \<le> n"
    "unat (ht_buckets (get_table m p)) \<noteq> p"
    "\<And>x. x \<in> set (concat cs) \<Longrightarrow> unat (ht_buckets (get_table m p)) \<notin> set (ent_spans x) \<and> p \<notin> set (ent_spans x)"
    "\<And>x. x \<in> set (concat cs) \<Longrightarrow> distinct (ent_spans x)"
    "\<And>x y. x \<in> set (concat cs) \<Longrightarrow> y \<in> set (concat cs) \<Longrightarrow> x \<noteq> y \<Longrightarrow> set (ent_spans x) \<inter> set (ent_spans y) = {}"
proof -
  note rd = ht_reprD [OF r]
  let ?b = "unat (ht_buckets (get_table m p))"
  obtain n where n: "heap_abs m ?b = Some n" "unat (ht_num_buckets (get_table m p)) * 8 \<le> n" using rd(2) by blast
  have 1: "i * 8 + 8 \<le> n" if "i < length cs" for i using that n(2) rd(6) by linarith
  have 2: "?b \<notin> set (ent_spans x) \<and> p \<notin> set (ent_spans x) \<and> distinct (ent_spans x)" if x: "x \<in> set (concat cs)" for x
  proof -
    obtain us vs where s: "concat cs = us @ x # vs" using x by (meson split_list)
    then show ?thesis using rd(7) by auto
  qed
  have 3: "set (ent_spans x) \<inter> set (ent_spans y) = {}" if x: "x \<in> set (concat cs)" and y: "y \<in> set (concat cs)" and ne: "x \<noteq> y" for x y
  proof -
    obtain us vs where s: "concat cs = us @ x # vs" using x by (meson split_list)
    then have "y \<in> set us \<or> y \<in> set vs" using y ne by auto
    then have "set (ent_spans y) \<subseteq> set (all_spans us) \<union> set (all_spans vs)" by (auto simp: all_spans_mem)
    then show ?thesis using rd(7) unfolding s by auto
  qed
  show thesis using that [OF n(1) 1] rd(7) 2 3 by auto
qed

lemma bucket_words_apart: "i \<noteq> j \<Longrightarrow> b + i * 8 + 8 \<le> b + j * 8 \<or> b + j * 8 + 8 \<le> b + i * (8 :: nat)"
  by (metis Suc_leI add.commute add_le_cancel_left mult.commute mult_Suc_right mult_le_mono2 nat_neq_iff add.assoc)

section \<open>Putting an entry at the head of a bucket\<close>

lemma ht_link_repr:
  assumes h: "heap_inv rg m" and r: "ht_repr m p cs" and i: "i < length cs"
    and o: "ent_ok m (ht_val_size (get_table m p)) x" and s: "set (ent_spans x) \<inter> ht_spans m p cs = {}" "distinct (ent_spans x)"
    and nx: "ld64 m (node_pos x + 16) = ld64 m (unat (ht_buckets (get_table m p)) + i * 8)"
    and k: "unat (hashtable_hash (ent_key x) (ht_num_buckets (get_table m p))) = i" "ent_key x \<notin> ent_key ` set (concat cs)"
    and q: "unat q = node_pos x"
  defines "m' \<equiv> st64 m (unat (ht_buckets (get_table m p)) + i * 8) q"
  shows "heap_inv rg m'" and "ht_repr m' p (cs[i := x # cs ! i])" and "get_table m' p = get_table m p"
    and "owner_step {unat (ht_buckets (get_table m p))} {unat (ht_buckets (get_table m p))} m m'"
proof -
  let ?t = "get_table m p" let ?b = "unat (ht_buckets ?t)"
  note rd = ht_reprD [OF r]
  obtain n where ap: "heap_abs m ?b = Some n" "\<And>i. i < length cs \<Longrightarrow> i * 8 + 8 \<le> n" "?b \<noteq> p"
    "\<And>x. x \<in> set (concat cs) \<Longrightarrow> ?b \<notin> set (ent_spans x) \<and> p \<notin> set (ent_spans x)"
    using ht_apart [OF h r] by metis
  have w: "m' y = m y" if "y < ?b \<or> ?b + n \<le> y" for y
    using that ap(2) [OF i] by (auto simp: m'_def st64_outside)
  note st = svc.own_step [OF h ap(1) w]
  show "heap_inv rg m'" "owner_step {?b} {?b} m m'" using st(1,3) by simp_all
  obtain j where j: "heap_abs m p = Some j" "72 \<le> j" using rd(1) by blast
  have "same_on m m' p (p + j)" using private_step_live(3) [OF st(3) j(1)] ap(3) by simp
  then show g: "get_table m' p = ?t" using j(2) by (intro get_table_same) (auto intro: same_on_sub)
  have sx: "set (ent_spans x) \<inter> {?b} = {}" using s(1) by (auto simp: ht_spans_def)
  note ex = ent_ok_kept [OF o st(3) sx]
  have ey: "ent_ok m' (ht_val_size ?t) y" "ld64 m' (node_pos y + 16) = ld64 m (node_pos y + 16)"
    if "y \<in> set (concat cs)" for y
    using ent_ok_kept [OF rd(8) [OF that] st(3)] ap(4) [OF that] by auto
  have sub: "set (cs ! j) \<subseteq> set (concat cs)" if "j < length cs" for j using nth_mem [OF that] by auto
  note sp = concat_split [OF i]
  show "ht_repr m' p (cs[i := x # cs ! i])"
  proof (rule ht_rebuild [OF r i g])
    show "heap_abs m' p = heap_abs m p" "heap_abs m' ?b = heap_abs m ?b" using st(2) by simp_all
    show "ent_ok m' (ht_val_size ?t) y" if "y \<in> set (concat (cs[i := x # cs ! i]))" for y
    proof -
      have "y = x \<or> y \<in> set (concat cs)" using that unfolding sp(2) by (subst sp(1)) auto
      then show ?thesis using ex(1) ey(1) by blast
    qed
    show "ld64 m' (node_pos y + 16) = ld64 m (node_pos y + 16)" if "j < length cs" "j \<noteq> i" "y \<in> set (cs ! j)" for j y
      using ey(2) sub that by blast
    show "ld64 m' (?b + j * 8) = ld64 m (?b + j * 8)" if "j \<noteq> i" for j
      using bucket_words_apart [OF that, of ?b] unfolding m'_def by (intro ld64_st64_other) auto
    have "chain m' z (cs ! i) = chain m z (cs ! i)" for z using ey(2) sub [OF i] by (intro chain_cong) blast
    then show "chain m' (unat (ld64 m' (?b + i * 8))) (x # cs ! i)"
      using q ex(2) nx rd(9) i rd(6) by (simp add: m'_def)
    show "unat (hashtable_hash (ent_key y) (ht_num_buckets ?t)) = i" if "y \<in> set (x # cs ! i)" for y
      using that k(1) rd(6,10) i by auto
    let ?A = "concat (take i cs)" and ?B = "concat (drop (Suc i) cs)"
    have "distinct ([p, ?b] @ all_spans ?A @ (ent_spans x @ all_spans (cs ! i)) @ all_spans ?B)"
    proof (rule distinct_mid_insert)
      show "distinct ([p, ?b] @ all_spans ?A @ all_spans (cs ! i) @ all_spans ?B)" using rd(7) sp(1) by simp
      show "set (ent_spans x) \<inter> set ([p, ?b] @ all_spans ?A @ all_spans (cs ! i) @ all_spans ?B) = {}"
        using s(1) sp(1) by (simp add: ht_spans_def)
    qed (rule s(2))
    then show "distinct (p # ?b # all_spans (concat (cs[i := x # cs ! i])))" using sp(2) by simp
    have "distinct ([] @ map ent_key ?A @ ([ent_key x] @ map ent_key (cs ! i)) @ map ent_key ?B)"
    proof (rule distinct_mid_insert)
      show "distinct ([] @ map ent_key ?A @ map ent_key (cs ! i) @ map ent_key ?B)" using rd(11) sp(1) by simp
      have "ent_key ` set (concat cs) = ent_key ` set ?A \<union> ent_key ` set (cs ! i) \<union> ent_key ` set ?B"
        by (subst sp(1)) (simp add: image_Un Un_assoc)
      then show "set [ent_key x] \<inter> set ([] @ map ent_key ?A @ map ent_key (cs ! i) @ map ent_key ?B) = {}"
        using k(2) by simp
    qed simp
    then show "distinct (map ent_key (concat (cs[i := x # cs ! i])))" using sp(2) by simp
  qed
qed

section \<open>Taking an entry out of its chain\<close>

lemma chain_unlink:
  assumes "chain m c (ys @ x # zs)" and "ys \<noteq> []" and "distinct (map node_pos (ys @ zs))"
    and "\<And>y. y \<in> set (ys @ zs) \<Longrightarrow> y \<noteq> last ys \<Longrightarrow> ld64 m' (node_pos y + 16) = ld64 m (node_pos y + 16)"
    and "ld64 m' (node_pos (last ys) + 16) = ld64 m (node_pos x + 16)"
  shows "chain m' c (ys @ zs)"
  using assms
proof (induction ys arbitrary: c)
  case (Cons y ys)
  show ?case
  proof (cases "ys = []")
    case True
    have "chain m' d zs = chain m d zs" for d using Cons.prems(3,4) True by (intro chain_cong) auto
    then show ?thesis using Cons.prems(1,5) True by simp
  next
    case False
    have "last ys \<in> set ys" using False by simp
    then have "y \<noteq> last ys" using Cons.prems(3) by auto
    moreover have "chain m' (unat (ld64 m (node_pos y + 16))) (ys @ zs)"
      using Cons.prems False by (intro Cons.IH) auto
    ultimately show ?thesis using Cons.prems(1,4) False by simp
  qed
qed simp

lemma chain_replace: "node_pos x' = node_pos x \<Longrightarrow> chain m c (ys @ x' # zs) = chain m c (ys @ x # zs)"
  by (induction ys arbitrary: c) auto

text \<open>A new link in a node keeps its entry.\<close>

lemma ent_ok_relink:
  assumes h: "heap_inv rg m" and o: "ent_ok m vs y" and d: "distinct (ent_spans y)"
  shows "heap_inv rg (st64 m (node_pos y + 16) v)" and "ent_ok (st64 m (node_pos y + 16) v) vs y"
    and "owner_step {node_pos y} {node_pos y} m (st64 m (node_pos y + 16) v)"
    and "heap_abs (st64 m (node_pos y + 16) v) = heap_abs m"
proof -
  let ?m' = "st64 m (node_pos y + 16) v"
  obtain i j n where e: "heap_abs m (node_pos y) = Some i" "24 \<le> i"
    "heap_abs m (key_pos y) = Some j" "5 + length (ent_key y) \<le> j"
    "heap_abs m (val_pos y) = Some n" "unat vs \<le> n" "span_serves vs m (val_pos y)" "0 \<notin> set (ent_key y)"
    "unat (ld64 m (node_pos y)) = key_pos y" "unat (ld64 m (node_pos y + 8)) = val_pos y"
    "unat (ld32 m (key_pos y)) = length (ent_key y)" "rd m (key_pos y + 4) (length (ent_key y)) = ent_key y"
    "rd m (val_pos y) (unat vs) = ent_val y" using ent_okD [OF o] .
  have w: "?m' x = m x" if "x < node_pos y \<or> node_pos y + i \<le> x" for x
    using that e(2) by (auto simp: st64_outside)
  note st = svc.own_step [OF h e(1) w]
  show "heap_inv rg ?m'" using st(1) .
  show "owner_step {node_pos y} {node_pos y} m ?m'" using st(3) .
  show "heap_abs ?m' = heap_abs m" using st(2) .
  have ne: "key_pos y \<noteq> node_pos y" "val_pos y \<noteq> node_pos y" using d by (auto simp: ent_spans_def)
  have sk: "same_on m ?m' (key_pos y) (key_pos y + j)" using private_step_live(3) [OF st(3) e(3)] ne(1) by simp
  have sv: "same_on m ?m' (val_pos y) (val_pos y + n)" using private_step_live(3) [OF st(3) e(5)] ne(2) by simp
  have "ld32 ?m' (key_pos y) = ld32 m (key_pos y)" using sk e(4) by (intro ld32_same_on) (auto intro: same_on_sub)
  moreover have "rd ?m' (key_pos y + 4) (length (ent_key y)) = rd m (key_pos y + 4) (length (ent_key y))"
    using sk e(4) by (intro rd_same_on) (auto intro: same_on_sub)
  moreover have "rd ?m' (val_pos y) (unat vs) = rd m (val_pos y) (unat vs)"
    using sv e(6) by (intro rd_same_on) (auto intro: same_on_sub)
  moreover have "ld64 ?m' (node_pos y) = ld64 m (node_pos y)" "ld64 ?m' (node_pos y + 8) = ld64 m (node_pos y + 8)" by simp_all
  ultimately have "read_ent ?m' (unat vs) (node_pos y) = y" using e by (simp add: read_ent_def Let_def)
  then show "ent_ok ?m' vs y" using e st(2) st(5) by (auto simp: ent_ok_def)
qed

lemma set_without:
  assumes "i < length cs" and "cs ! i = ys @ x # zs"
  shows "set (concat (cs[i := ys @ zs])) \<subseteq> set (concat cs)" and "x \<in> set (concat cs)"
    and "set ys \<subseteq> set (concat cs)" and "set zs \<subseteq> set (concat cs)"
proof -
  have "set (concat cs) = set (concat (take i cs)) \<union> set (cs ! i) \<union> set (concat (drop (Suc i) cs))"
    by (subst concat_split(1) [OF assms(1)]) (simp add: Un_assoc)
  then show "set (concat (cs[i := ys @ zs])) \<subseteq> set (concat cs)" "x \<in> set (concat cs)"
    "set ys \<subseteq> set (concat cs)" "set zs \<subseteq> set (concat cs)"
    unfolding concat_split(2) [OF assms(1)] assms(2) by auto
qed

lemma distinct_mid_drop:
  "distinct (ps @ as @ (ys @ xs @ zs) @ bs) \<Longrightarrow> distinct (ps @ as @ (ys @ zs) @ bs)"
  by auto

lemma distinct_mid: "distinct (as @ ls @ bs) \<Longrightarrow> distinct ls"
  by simp

lemma distinct_nodes: "distinct (all_spans xs) \<Longrightarrow> distinct (map node_pos xs)"
proof (induction xs)
  case (Cons x xs)
  have "node_pos x \<notin> set (all_spans xs)" using Cons.prems by (simp add: ent_spans_def)
  then show ?case using Cons by (auto simp: all_spans_mem ent_spans_def)
qed simp

lemma chain_distinct:
  assumes r: "ht_repr m p cs" and i: "i < length cs"
  shows "distinct (map ent_key (cs ! i))" and "distinct (all_spans (cs ! i))" and "distinct (map node_pos (cs ! i))"
    and "distinct (cs ! i)"
proof -
  note sp = concat_split(1) [OF i] and rd = ht_reprD [OF r]
  have "distinct (map ent_key (concat (take i cs)) @ map ent_key (cs ! i) @ map ent_key (concat (drop (Suc i) cs)))"
    using rd(11) sp by (metis map_append)
  then show k: "distinct (map ent_key (cs ! i))" by (rule distinct_mid)
  have "distinct (all_spans (concat cs))" using rd(7) by simp
  then have "distinct (all_spans (concat (take i cs)) @ all_spans (cs ! i) @ all_spans (concat (drop (Suc i) cs)))"
    using sp by (metis all_spans_append)
  then show "distinct (all_spans (cs ! i))" by (rule distinct_mid)
  then show "distinct (map node_pos (cs ! i))" by (rule distinct_nodes)
  show "distinct (cs ! i)" using k distinct_map by blast
qed

text \<open>The state without the entry \<open>x\<close>: the table's invariant holds for the other entries, and \<open>x\<close> is
  still an intact entry outside the table.\<close>

lemma ht_unlink_repr:
  assumes h: "heap_inv rg m" and r: "ht_repr m p cs" and i: "i < length cs" and c: "cs ! i = ys @ x # zs"
  defines "m' \<equiv> (if ys = [] then st64 m (unat (ht_buckets (get_table m p)) + i * 8) (ld64 m (node_pos x + 16))
                  else st64 m (node_pos (last ys) + 16) (ld64 m (node_pos x + 16)))"
  shows "heap_inv rg m'" and "ht_repr m' p (cs[i := ys @ zs])" and "get_table m' p = get_table m p"
    and "ent_ok m' (ht_val_size (get_table m p)) x" and "get_hentry m' (node_pos x) = get_hentry m (node_pos x)"
    and "owner_step (ht_spans m p cs) (ht_spans m p cs) m m'"
proof -
  let ?t = "get_table m p" let ?b = "unat (ht_buckets ?t)" and ?vs = "ht_val_size (get_table m p)"
  note rd = ht_reprD [OF r] and sw = set_without [OF i c] and sp = concat_split [OF i]
  obtain n where ap: "heap_abs m ?b = Some n" "\<And>i. i < length cs \<Longrightarrow> i * 8 + 8 \<le> n" "?b \<noteq> p"
    "\<And>x. x \<in> set (concat cs) \<Longrightarrow> ?b \<notin> set (ent_spans x) \<and> p \<notin> set (ent_spans x)"
    "\<And>x. x \<in> set (concat cs) \<Longrightarrow> distinct (ent_spans x)"
    "\<And>x y. x \<in> set (concat cs) \<Longrightarrow> y \<in> set (concat cs) \<Longrightarrow> x \<noteq> y \<Longrightarrow> set (ent_spans x) \<inter> set (ent_spans y) = {}"
    using ht_apart [OF h r] by metis
  define s where "s = (if ys = [] then ?b else node_pos (last ys))"
  have ly: "ys \<noteq> [] \<Longrightarrow> last ys \<in> set (concat cs)" using sw(3) by (auto intro: last_in_set)
  have "x \<notin> set ys" using chain_distinct(4) [OF r i] c by simp
  then have xl: "ys \<noteq> [] \<Longrightarrow> x \<noteq> last ys" by (metis last_in_set)
  have st: "heap_inv rg m'" "owner_step {s} {s} m m'" "heap_abs m' = heap_abs m"
  proof -
    have "m' y = m y" if "y < ?b \<or> ?b + n \<le> y" "ys = []" for y
      using that ap(2) [OF i] by (auto simp: m'_def st64_outside)
    note b = svc.own_step [OF h ap(1) this]
    note l = ent_ok_relink [OF h rd(8) [OF ly] ap(5) [OF ly]]
    show "heap_inv rg m'" "owner_step {s} {s} m m'" "heap_abs m' = heap_abs m"
      using b(1-3) l(1,3,4) by (cases "ys = []"; simp add: s_def m'_def)+
  qed
  show "heap_inv rg m'" using st(1) .
  have ss: "s \<in> ht_spans m p cs"
    using ly by (auto simp: s_def ht_spans_def all_spans_mem ent_spans_def)
  have "ht_spans m p cs = {s} \<union> (ht_spans m p cs - {s})" using ss by auto
  then show "owner_step (ht_spans m p cs) (ht_spans m p cs) m m'"
    using private_step_widen [OF st(2), of "ht_spans m p cs"] by (metis Un_insert_left insert_absorb ss sup_bot_left Un_Diff_cancel)
  obtain j where j: "heap_abs m p = Some j" "72 \<le> j" using rd(1) by blast
  have "p \<noteq> s" using ap(3,4) ly by (auto simp: s_def ent_spans_def)
  then have "same_on m m' p (p + j)" using private_step_live(3) [OF st(2) j(1)] by simp
  then show g: "get_table m' p = ?t" using j(2) by (intro get_table_same) (auto intro: same_on_sub)
  have kept: "ent_ok m' ?vs y \<and> ld64 m' (node_pos y + 16) = ld64 m (node_pos y + 16)"
    if y: "y \<in> set (concat cs)" "ys = [] \<or> y \<noteq> last ys" for y
  proof -
    have "s \<notin> set (ent_spans y)"
      using ap(4) [OF y(1)] ap(6) [OF y(1) ly] y(2) by (cases "ys = []") (auto simp: s_def ent_spans_def)
    then show ?thesis using ent_ok_kept [OF rd(8) [OF y(1)] st(2)] by auto
  qed
  have xk: "ent_ok m' ?vs x" using kept [OF sw(2)] xl by blast
  then show "ent_ok m' ?vs x" .
  show "get_hentry m' (node_pos x) = get_hentry m (node_pos x)"
  proof -
    obtain k where k: "heap_abs m (node_pos x) = Some k" "24 \<le> k" using ent_okD [OF rd(8) [OF sw(2)]] by metis
    have "node_pos x \<noteq> s"
      using ap(4) [OF sw(2)] ap(6) [OF sw(2) ly] xl by (cases "ys = []") (auto simp: s_def ent_spans_def)
    then have "same_on m m' (node_pos x) (node_pos x + 24)"
      using private_step_live(3) [OF st(2) k(1)] k(2) by (auto intro: same_on_sub)
    then show ?thesis by (auto simp: get_hentry_def intro!: ld64_same_on intro: same_on_sub)
  qed
  have last: "ys \<noteq> [] \<Longrightarrow> ent_ok m' ?vs (last ys)"
    using ent_ok_relink(2) [OF h rd(8) [OF ly] ap(5) [OF ly]] by (simp add: m'_def)
  have other: "y \<noteq> last ys \<or> ys = []" if "j < length cs" "j \<noteq> i" "y \<in> set (cs ! j)" for j y
  proof (rule ccontr)
    assume a: "\<not> (y \<noteq> last ys \<or> ys = [])"
    then have "y \<in> set (cs ! i)" using c by simp
    then show False using rd(6,10) that i by metis
  qed
  show "ht_repr m' p (cs[i := ys @ zs])"
  proof (rule ht_rebuild [OF r i g])
    show "heap_abs m' p = heap_abs m p" "heap_abs m' ?b = heap_abs m ?b" using st(3) by simp_all
    show "ent_ok m' ?vs y" if "y \<in> set (concat (cs[i := ys @ zs]))" for y
      using kept [of y] last sw(1) that by blast
    show "ld64 m' (node_pos y + 16) = ld64 m (node_pos y + 16)" if "j < length cs" "j \<noteq> i" "y \<in> set (cs ! j)" for j y
      using kept [of y] other [OF that] that(1,3) nth_mem by (metis concat_split(1) in_set_conv_decomp set_without(2))
    show "ld64 m' (?b + j * 8) = ld64 m (?b + j * 8)" if j: "j < length cs" "j \<noteq> i" for j
    proof (cases "ys = []")
      case True
      then have "m' = st64 m (?b + i * 8) (ld64 m (node_pos x + 16))" by (simp add: m'_def)
      then show ?thesis using bucket_words_apart [OF j(2), of ?b] by (simp only:, intro ld64_st64_other) auto
    next
      case False
      then have "s \<noteq> ?b" using ap(4) [OF ly] by (simp add: s_def ent_spans_def)
      then have "same_on m m' ?b (?b + n)" using private_step_live(3) [OF st(2) ap(1)] by simp
      then show ?thesis using ap(2) [OF j(1)] by (intro ld64_same_on) (auto intro: same_on_sub)
    qed
    show "unat (hashtable_hash (ent_key y) (ht_num_buckets ?t)) = i" if "y \<in> set (ys @ zs)" for y
      using that rd(6,10) i c by auto
    have "distinct ([p, ?b] @ all_spans (concat (take i cs)) @ (all_spans ys @ ent_spans x @ all_spans zs) @
        all_spans (concat (drop (Suc i) cs)))"
      using rd(7) sp(1) c by simp
    from distinct_mid_drop [OF this]
    show "distinct (p # ?b # all_spans (concat (cs[i := ys @ zs])))" unfolding sp(2) by simp
    have "distinct ([] @ map ent_key (concat (take i cs)) @ (map ent_key ys @ [ent_key x] @ map ent_key zs) @
        map ent_key (concat (drop (Suc i) cs)))"
      using rd(11) sp(1) c by simp
    from distinct_mid_drop [OF this]
    show "distinct (map ent_key (concat (cs[i := ys @ zs])))" unfolding sp(2) by simp
    have ch: "chain m (unat (ld64 m (?b + i * 8))) (ys @ x # zs)" using rd(6,9) i c by metis
    show "chain m' (unat (ld64 m' (?b + i * 8))) (ys @ zs)"
    proof (cases "ys = []")
      case True
      have "chain m' d zs = chain m d zs" for d using kept sw(4) True by (intro chain_cong) blast
      then show ?thesis using ch True by (simp add: m'_def)
    next
      case False
      then have "s \<noteq> ?b" using ap(4) [OF ly] by (simp add: s_def ent_spans_def)
      then have "same_on m m' ?b (?b + n)" using private_step_live(3) [OF st(2) ap(1)] by simp
      then have w: "ld64 m' (?b + i * 8) = ld64 m (?b + i * 8)"
        using ap(2) [OF i] by (intro ld64_same_on) (auto intro: same_on_sub)
      have dn: "distinct (map node_pos (ys @ zs))" using chain_distinct(3) [OF r i] c by auto
      have ln: "ld64 m' (node_pos (last ys) + 16) = ld64 m (node_pos x + 16)" using False by (simp add: m'_def)
      have kn: "ld64 m' (node_pos y + 16) = ld64 m (node_pos y + 16)" if "y \<in> set (ys @ zs)" "y \<noteq> last ys" for y
      proof -
        have "y \<in> set (concat cs)" using that(1) sw(3,4) by auto
        then show ?thesis using kept that(2) by blast
      qed
      show ?thesis unfolding w by (rule chain_unlink [OF ch False dn kn ln])
    qed
  qed
qed

section \<open>Replacing the value of an entry\<close>

text \<open>The spans of the table, around the entry \<open>x\<close>.\<close>

lemma ht_spans_split:
  assumes i: "i < length cs" and c: "cs ! i = ys @ x # zs"
  shows "ht_spans m p cs = ht_spans m p (cs[i := ys @ zs]) \<union> set (ent_spans x)"
    and "ht_spans m p (cs[i := ys @ x' # zs]) = ht_spans m p (cs[i := ys @ zs]) \<union> set (ent_spans x')"
  unfolding ht_spans_def by (subst concat_split(1) [OF i], auto simp: concat_split(2) [OF i] c)

lemma ht_spans_minus:
  assumes r: "ht_repr m p cs" and i: "i < length cs" and c: "cs ! i = ys @ x # zs"
  shows "ht_spans m p (cs[i := ys @ zs]) \<inter> set (ent_spans x) = {}"
proof -
  have "distinct (p # unat (ht_buckets (get_table m p)) # all_spans (concat (take i cs)) @ (all_spans ys @ ent_spans x @ all_spans zs) @
      all_spans (concat (drop (Suc i) cs)))"
    using ht_reprD(7) [OF r] concat_split(1) [OF i] c by simp
  then show ?thesis unfolding ht_spans_def concat_split(2) [OF i] by auto
qed

text \<open>The value of \<open>x\<close> has moved from its buffer to the buffer at \<open>v\<close>; the entry is made to point there.\<close>

lemma ent_revalue:
  assumes h2: "heap_inv rg m2" and o: "ent_ok m vs x" and d: "distinct (ent_spans x)"
    and s: "owner_step {val_pos x} {unat v} m m2"
    and v: "heap_abs m2 (unat v) = Some n" "unat vs \<le> n" "span_serves vs m2 (unat v)" "rd m2 (unat v) (unat vs) = val"
  defines "m' \<equiv> st64 m2 (node_pos x + 8) v"
  shows "heap_inv rg m'" and "owner_step {node_pos x} {node_pos x} m2 m'"
    and "ent_ok m' vs (x\<lparr>val_pos := unat v, ent_val := val\<rparr>)" and "ld64 m' (node_pos x + 16) = ld64 m (node_pos x + 16)"
proof -
  obtain i j where e: "heap_abs m (node_pos x) = Some i" "24 \<le> i"
    "heap_abs m (key_pos x) = Some j" "5 + length (ent_key x) \<le> j" "0 \<notin> set (ent_key x)"
    "unat (ld64 m (node_pos x)) = key_pos x" "unat (ld32 m (key_pos x)) = length (ent_key x)"
    "rd m (key_pos x + 4) (length (ent_key x)) = ent_key x" using ent_okD [OF o] by metis
  have ne: "node_pos x \<notin> {val_pos x}" "key_pos x \<notin> {val_pos x}" "node_pos x \<noteq> key_pos x" using d by (auto simp: ent_spans_def)
  note pn = private_step_live [OF s e(1) ne(1)] and pk = private_step_live [OF s e(3) ne(2)]
  have w: "m' y = m2 y" if "y < node_pos x \<or> node_pos x + i \<le> y" for y
    using that e(2) by (auto simp: m'_def st64_outside)
  note st = svc.own_step [OF h2 pn(1) w]
  show "heap_inv rg m'" "owner_step {node_pos x} {node_pos x} m2 m'" using st(1,3) by simp_all
  have ne2: "key_pos x \<notin> {node_pos x}" "unat v \<notin> {node_pos x}" using ne(3) pn(2) by auto
  note kk = private_step_live [OF st(3) pk(1) ne2(1)] and vv = private_step_live [OF st(3) v(1) ne2(2)]
  have sk: "same_on m m' (key_pos x) (key_pos x + j)" using same_on_trans [OF pk(3) kk(3)] .
  have k: "ld32 m' (key_pos x) = ld32 m (key_pos x)" using sk e(4) by (intro ld32_same_on) (auto intro: same_on_sub)
  have r: "rd m' (key_pos x + 4) (length (ent_key x)) = rd m (key_pos x + 4) (length (ent_key x))"
    using sk e(4) by (intro rd_same_on) (auto intro: same_on_sub)
  have vr: "rd m' (unat v) (unat vs) = val" using vv(3) v(2,4) by (subst rd_same_on [of m2]) (auto intro: same_on_sub)
  have l: "ld64 m2 (node_pos x) = ld64 m (node_pos x)" "ld64 m2 (node_pos x + 16) = ld64 m (node_pos x + 16)"
    using pn(3) e(2) by (auto intro!: ld64_same_on intro: same_on_sub)
  have n: "ld64 m' (node_pos x) = ld64 m (node_pos x)" "ld64 m' (node_pos x + 8) = v"
    using l(1) by (simp_all add: m'_def)
  show "ld64 m' (node_pos x + 16) = ld64 m (node_pos x + 16)" using l(2) by (simp add: m'_def)
  have "read_ent m' (unat vs) (node_pos x) = x\<lparr>val_pos := unat v, ent_val := val\<rparr>"
    using n k r vr e by (simp add: read_ent_def Let_def)
  then show "ent_ok m' vs (x\<lparr>val_pos := unat v, ent_val := val\<rparr>)"
    using e kk(1) vv(1) v(2,3) st(2,5) pn(1) by (simp add: ent_ok_def)
qed

lemma ht_update_repr:
  assumes h: "heap_inv rg m" "heap_inv rg m2" and r: "ht_repr m p cs" and i: "i < length cs" and c: "cs ! i = ys @ x # zs"
    and s: "owner_step {val_pos x} {unat v} m m2"
    and v: "heap_abs m2 (unat v) = Some n" "unat (ht_val_size (get_table m p)) \<le> n"
      "span_serves (ht_val_size (get_table m p)) m2 (unat v)" "rd m2 (unat v) (unat (ht_val_size (get_table m p))) = val"
  defines "m' \<equiv> st64 m2 (node_pos x + 8) v" and "x' \<equiv> x\<lparr>val_pos := unat v, ent_val := val\<rparr>"
  shows "heap_inv rg m'" and "ht_repr m' p (cs[i := ys @ x' # zs])" and "get_table m' p = get_table m p"
    and "owner_step (ht_spans m p cs) (ht_spans m p (cs[i := ys @ x' # zs])) m m'"
proof -
  let ?t = "get_table m p" let ?b = "unat (ht_buckets ?t)" and ?vs = "ht_val_size (get_table m p)"
  let ?R = "ht_spans m p (cs[i := ys @ zs])"
  note rd = ht_reprD [OF r] and sw = set_without [OF i c] and sp = concat_split [OF i]
  have xo: "ent_ok m ?vs x" using rd(8) sw(2) .
  have xd: "distinct (ent_spans x)" and ap: "\<And>y. y \<in> set (concat cs) \<Longrightarrow> y \<noteq> x \<Longrightarrow> set (ent_spans y) \<inter> set (ent_spans x) = {}"
    using ht_apart [OF h(1) r] sw(2) by metis+
  note rv = ent_revalue [OF h(2) xo xd s v, folded m'_def x'_def]
  show "heap_inv rg m'" using rv(1) .
  let ?S = "{val_pos x, node_pos x}"
  have s1: "owner_step ?S {unat v, node_pos x} m m2"
    using private_step_widen [OF s, of "{node_pos x}"] xd by (simp add: ent_spans_def insert_commute)
  have nv: "node_pos x \<noteq> unat v"
  proof -
    obtain k where k: "heap_abs m (node_pos x) = Some k" using ent_okD [OF xo] by metis
    have "node_pos x \<notin> {val_pos x}" using xd by (simp add: ent_spans_def)
    then show ?thesis using private_step_live(2) [OF s k] by simp
  qed
  have s2: "owner_step {unat v, node_pos x} {unat v, node_pos x} m2 m'"
    using private_step_widen [OF rv(2), of "{unat v}"] nv by (simp add: insert_commute)
  have st: "owner_step ?S {unat v, node_pos x} m m'" by (rule svc.step_trans [OF h(1) s1 s2])
  have rs: "?R \<inter> set (ent_spans x) = {}" by (rule ht_spans_minus [OF r i c])
  note ss = ht_spans_split [OF i c]
  have xs: "?S \<subseteq> set (ent_spans x)" by (simp add: ent_spans_def)
  have live: "q \<noteq> unat v" if q: "q \<in> ht_spans m p cs" "q \<notin> ?S" for q
  proof -
    obtain k where "heap_abs m q = Some k" using ht_spans_live [OF r q(1)] by blast
    then show ?thesis using private_step_live(2) [OF st _ q(2)] by auto
  qed
  have "ht_spans m p cs = ?S \<union> ht_spans m p cs"
    unfolding ss(1) [of m p] by (auto simp: ent_spans_def)
  moreover have "ht_spans m p (cs[i := ys @ x' # zs]) = {unat v, node_pos x} \<union> (ht_spans m p cs - ?S)"
    unfolding ss(1) [of m p] ss(2) using rs xd by (auto simp: x'_def ent_spans_def)
  ultimately show "owner_step (ht_spans m p cs) (ht_spans m p (cs[i := ys @ x' # zs])) m m'"
    using private_step_widen [OF st, of "ht_spans m p cs"] by simp
  have pb: "p \<in> ht_spans m p cs" "p \<notin> ?S" "?b \<in> ht_spans m p cs" "?b \<notin> ?S"
    using rs by (auto simp: ht_spans_def ent_spans_def)
  obtain j where j: "heap_abs m p = Some j" "72 \<le> j" using rd(1) by blast
  obtain k where k: "heap_abs m ?b = Some k" "unat (ht_num_buckets ?t) * 8 \<le> k" using rd(2) by blast
  note pk = private_step_live [OF st j(1) pb(2)] and bk = private_step_live [OF st k(1) pb(4)]
  show g: "get_table m' p = ?t" using pk(3) j(2) by (intro get_table_same) (auto intro: same_on_sub)
  have kept: "ent_ok m' ?vs y \<and> ld64 m' (node_pos y + 16) = ld64 m (node_pos y + 16)"
    if y: "y \<in> set (concat cs)" "y \<noteq> x" for y
  proof -
    have "set (ent_spans y) \<inter> ?S = {}" using ap [OF y] xs by blast
    then show ?thesis using ent_ok_kept [OF rd(8) [OF y(1)] st] by blast
  qed
  have link: "ld64 m' (node_pos y + 16) = ld64 m (node_pos y + 16)" if "y \<in> set (concat cs)" for y
    using kept [OF that] rv(4) by (cases "y = x") auto
  have xr: "x \<notin> set ys \<union> set zs" using chain_distinct(4) [OF r i] c by simp
  have bw: "ld64 m' (?b + l * 8) = ld64 m (?b + l * 8)" if "l < length cs" for l
  proof -
    have "l * 8 + 8 \<le> k" using that k(2) rd(6) by linarith
    then show ?thesis using bk(3) by (intro ld64_same_on) (auto intro: same_on_sub)
  qed
  have sub: "set (cs ! l) \<subseteq> set (concat cs)" if "l < length cs" for l using nth_mem [OF that] by auto
  show "ht_repr m' p (cs[i := ys @ x' # zs])"
  proof (rule ht_rebuild [OF r i g])
    show "heap_abs m' p = heap_abs m p" "heap_abs m' ?b = heap_abs m ?b" using pk(1) bk(1) j k by simp_all
    show "ld64 m' (node_pos y + 16) = ld64 m (node_pos y + 16)" if "l < length cs" "l \<noteq> i" "y \<in> set (cs ! l)" for l y
      using link sub that by blast
    show "ld64 m' (?b + l * 8) = ld64 m (?b + l * 8)" if "l < length cs" "l \<noteq> i" for l using bw that by blast
    have "chain m' d (ys @ x' # zs) = chain m d (ys @ x # zs)" for d
    proof -
      have "chain m' d (ys @ x' # zs) = chain m' d (ys @ x # zs)" by (rule chain_replace) (simp add: x'_def)
      also have "\<dots> = chain m d (ys @ x # zs)"
      proof (rule chain_cong)
        fix y assume "y \<in> set (ys @ x # zs)"
        then have "y \<in> set (concat cs)" using sub [OF i] c by (simp only:) blast
        then show "ld64 m' (node_pos y + 16) = ld64 m (node_pos y + 16)" by (rule link)
      qed
      finally show ?thesis .
    qed
    then show "chain m' (unat (ld64 m' (?b + i * 8))) (ys @ x' # zs)" using bw [OF i] rd(6,9) i c by metis
    show "unat (hashtable_hash (ent_key y) (ht_num_buckets ?t)) = i" if y: "y \<in> set (ys @ x' # zs)" for y
    proof -
      have "\<exists>z \<in> set (cs ! i). ent_key z = ent_key y" using y c by (auto simp: x'_def)
      then show ?thesis using rd(6,10) i by metis
    qed
    show "ent_ok m' ?vs y" if y: "y \<in> set (concat (cs[i := ys @ x' # zs]))" for y
    proof (cases "y = x'")
      case False
      have "y \<in> set (concat cs) \<and> y \<noteq> x"
      proof
        have a: "set (concat (cs[i := ys @ x' # zs])) \<subseteq> insert x' (set (concat (cs[i := ys @ zs])))"
          unfolding sp(2) by auto
        then have yz: "y \<in> set (concat (cs[i := ys @ zs]))" using y False by blast
        then show "y \<in> set (concat cs)" using sw(1) by blast
        have "set (ent_spans y) \<subseteq> ?R" using yz unfolding ht_spans_def by (auto simp only: all_spans_mem)
        then show "y \<noteq> x" using rs by (auto simp: ent_spans_def)
      qed
      then show ?thesis using kept by blast
    qed (use rv(3) in simp)
    let ?A = "concat (take i cs)" and ?B = "concat (drop (Suc i) cs)"
    have d: "distinct ([p, ?b] @ all_spans ?A @ (all_spans ys @ ent_spans x @ all_spans zs) @ all_spans ?B)"
      using rd(7) sp(1) c by simp
    have ul: "unat v \<notin> ?R"
    proof
      assume a: "unat v \<in> ?R"
      then have "unat v \<in> ht_spans m p cs" "unat v \<notin> ?S" using ss(1) rs xs by blast+
      then show False using live by blast
    qed
    have rr: "?R = set ([p, ?b] @ all_spans ?A @ all_spans ys @ all_spans zs @ all_spans ?B)"
      unfolding ht_spans_def sp(2) by auto
    have kx: "key_pos x \<noteq> unat v" using live [of "key_pos x"] xd unfolding ss(1) by (auto simp: ent_spans_def)
    have "distinct ([p, ?b] @ all_spans ?A @ (all_spans ys @ ent_spans x' @ all_spans zs) @ all_spans ?B)"
    proof (rule distinct_mid_replace [OF d])
      show "distinct (ent_spans x')" using xd nv kx by (auto simp: x'_def ent_spans_def)
      show "set (ent_spans x') \<inter> set ([p, ?b] @ all_spans ?A @ all_spans ys @ all_spans zs @ all_spans ?B) = {}"
        unfolding rr [symmetric] using rs ul by (auto simp: x'_def ent_spans_def)
    qed
    then show "distinct (p # ?b # all_spans (concat (cs[i := ys @ x' # zs])))" unfolding sp(2) by simp
    have "map ent_key (concat (cs[i := ys @ x' # zs])) = map ent_key (concat cs)"
      unfolding sp(2) by (subst sp(1)) (simp add: c x'_def)
    then show "distinct (map ent_key (concat (cs[i := ys @ x' # zs])))" using rd(11) by simp
  qed
qed

end
