(* ===== verification/HashTableRefine.thy ===== *)
theory HashTableRefine
  imports HashTableSteps
begin

text \<open>
  Every operation of the hash table refines an operation on a finite map from keys to values, in
  which putting a new key may be refused for lack of memory. Replacing the value of a key is never
  refused, because the buffer that is released first serves the new request.
\<close>

section \<open>Granting a buffer and filling it\<close>

text \<open>The bytes \<open>m'\<close> hold a fresh span \<open>q\<close> of at least \<open>sz\<close> bytes that nobody else has noticed.\<close>

definition grants :: "ShmRegion \<Rightarrow> u64 \<Rightarrow> mem \<Rightarrow> u64 \<Rightarrow> mem \<Rightarrow> bool" where
  "grants rg sz m q m' \<longleftrightarrow>
     heap_inv rg m' \<and> heap_abs m (unat q) = None \<and> (\<exists>n. heap_abs m' = (heap_abs m)(unat q \<mapsto> n) \<and> unat sz \<le> n) \<and>
     span_serves sz m' (unat q) \<and> q \<noteq> 0 \<and> owner_step {} {unat q} m m' \<and>
     pays spare (alloc_cost sz) m m'"

lemma grantsD:
  assumes g: "grants rg sz m q m'"
  shows "heap_inv rg m'" and "heap_abs m (unat q) = None" and "\<exists>n. heap_abs m' (unat q) = Some n \<and> unat sz \<le> n"
    and "span_serves sz m' (unat q)" and "q \<noteq> 0" and "owner_step {} {unat q} m m'"
    and "heap_abs m u = Some k \<Longrightarrow> heap_abs m' u = Some k" and "heap_abs m u = Some k \<Longrightarrow> u \<noteq> unat q"
    and "pays spare (alloc_cost sz) m m'"
  using assms unfolding grants_def by auto

lemma buffer_grant:
  assumes h: "heap_inv rg (bytes w)" and r: "ready E w" and v: "valid_request sz 16"
  obtains (granted) q m1 where
      "allocator_alloc E (Some rg) sz 16 True w = Some ((STATUS_OK, Some (rg_base rg + q)), set_bytes m1 w)"
      "\<And>m'. (\<And>x. x < unat q \<or> unat q + unat sz \<le> x \<Longrightarrow> m' x = m1 x) \<Longrightarrow> grants rg sz (bytes w) q m'"
      "\<And>m'. (\<And>x. x < unat q \<or> unat q + unat sz \<le> x \<Longrightarrow> m' x = m1 x) \<Longrightarrow>
        offset_ptr_try_from_raw (rg_base rg) (rg_size rg) (rg_base rg + q) True = Some q"
      "room sz (bytes w)"
    | (refused) m1 where "\<not> room sz (bytes w)"
      "allocator_alloc E (Some rg) sz 16 True w = Some ((STATUS_OUT_OF_MEMORY, None), set_bytes m1 w)"
      "heap_inv rg m1" "owner_step {} {} (bytes w) m1"
proof (cases "room sz (bytes w)")
  case True
  from svc.alloc_grants [OF h r v True] obtain p n m1 where
    a: "allocator_alloc E (Some rg) sz 16 True w = Some ((STATUS_OK, Some (rg_base rg + of_nat p)), set_bytes m1 w)"
    and g: "heap_inv rg m1" "heap_abs (bytes w) p = None" "heap_abs m1 = (heap_abs (bytes w))(p \<mapsto> n)"
      "unat sz \<le> n" "span_serves sz m1 p" "owner_step {} {p} (bytes w) m1" "pays spare (alloc_cost sz) (bytes w) m1" by blast
  have l: "heap_abs m1 p = Some n" using g(3) by simp
  have u: "unat (of_nat p :: u64) = p" by (rule payload_pointer(1) [OF g(1) l])
  have nz: "(of_nat p :: u64) \<noteq> 0" using u heap_abs_bounds(1) [OF g(1) l] by auto
  have gr: "grants rg sz (bytes w) (of_nat p) m'"
    if o: "\<And>x. x < unat (of_nat p :: u64) \<or> unat (of_nat p :: u64) + unat sz \<le> x \<Longrightarrow> m' x = m1 x" for m'
  proof -
    have "m' x = m1 x" if "x < p \<or> p + n \<le> x" for x using that g(4) u by (intro o) auto
    note s = svc.init_step [OF h g(1-3,6) this]
    have "\<exists>j. heap_abs m' = (heap_abs (bytes w))(p \<mapsto> j) \<and> unat sz \<le> j" using s(2) g(4) by blast
    then show ?thesis unfolding grants_def u using s(1,3,4,6) g(2,5,7) nz by (simp add: pays_def)
  qed
  show thesis using granted [OF a gr _ True] from_raw_payload [OF g(1) l] by simp
next
  case False
  from svc.alloc_refuses [OF h r v False] show thesis using refused False by blast
qed

text \<open>Releasing a span that was granted before takes the grant back.\<close>

lemma release_runs:
  assumes h: "heap_inv rg (bytes w)" and r: "ready E w" and l: "heap_abs (bytes w) (unat q) = Some n"
  obtains m' where "allocator_free E (Some rg) (rg_base rg + q) w = Some (STATUS_OK, set_bytes m' w)"
    "heap_inv rg m'" "heap_abs m' = (heap_abs (bytes w))(unat q := None)" "owner_step {unat q} {} (bytes w) m'"
    "\<And>sz. span_serves sz (bytes w) (unat q) \<Longrightarrow> room sz m'" "pays spare 0 (bytes w) m'"
  using svc.release_law [OF h r l] by auto

lemma free_string_runs:
  assumes h: "heap_inv rg (bytes w)" and r: "ready E w" and l: "heap_abs (bytes w) (unat q) = Some n" "4 \<le> n"
  obtains m' where "hashtable_free_string E rg q w = Some (set_bytes m' w)"
    "heap_inv rg m'" "heap_abs m' = (heap_abs (bytes w))(unat q := None)" "owner_step {unat q} {} (bytes w) m'"
    "pays spare 0 (bytes w) m'"
proof -
  obtain m' where m': "allocator_free E (Some rg) (rg_base rg + q) w = Some (STATUS_OK, set_bytes m' w)"
    "heap_inv rg m'" "heap_abs m' = (heap_abs (bytes w))(unat q := None)" "owner_step {unat q} {} (bytes w) m'"
    "pays spare 0 (bytes w) m'"
    by (rule release_runs [OF h r l(1)])
  have "offset_ptr_try_resolve (rg_base rg) (rg_size rg) q 4 True = Some (rg_base rg + q)"
    using span_resolves(1) [OF h l(1), of 4] l(2) by simp
  then show thesis using that [of m'] m' by (simp add: hashtable_free_string_def)
qed

text \<open>What is stored of a key: its first \<open>ks\<close> characters, with their length and a terminator.\<close>

abbreviation stored_key :: "u64 \<Rightarrow> cstr \<Rightarrow> cstr" where
  "stored_key ks key \<equiv> take (unat ks) key"

lemma alloc_string_runs:
  assumes h: "heap_inv rg (bytes w)" and r: "ready E w" and k: "length key < 2 ^ 64" "length (stored_key ks key) < 2 ^ 32"
  obtains (granted) q m' where "hashtable_alloc_string E rg key ks w = Some (q, set_bytes m' w)"
      "grants rg (5 + of_nat (length (stored_key ks key))) (bytes w) q m'"
      "unat (ld32 m' (unat q)) = length (stored_key ks key)" "rd m' (unat q + 4) (length (stored_key ks key)) = stored_key ks key"
    | (refused) m' where "hashtable_alloc_string E rg key ks w = Some (0, set_bytes m' w)"
      "heap_inv rg m'" "owner_step {} {} (bytes w) m'" "\<not> room (5 + of_nat (length (stored_key ks key))) (bytes w)"
proof -
  let ?n = "length (stored_key ks key)"
  let ?l = "of_nat ?n :: u64" let ?sz = "5 + of_nat ?n :: u64"
  have ul: "unat ?l = ?n" using k(2) by (intro unat_of_nat_small) simp
  have uk: "unat (of_nat (length key) :: u64) = length key" using k(1) by (intro unat_of_nat_small) simp
  have us: "unat ?sz = 5 + ?n" using ul k(2) by (subst unat_add_nowrap) simp_all
  have ln: "(if ks < of_nat (length key) then ks else of_nat (length key)) = ?l"
    using uk by (simp add: word_less_nat_alt min_def)
  have tk: "take ?n key = stored_key ks key" by (simp add: min_def)
  have tot: "4 + ?l + 1 = ?sz" by simp
  have v: "valid_request ?sz 16" using us k(2) by (auto simp: valid_request_def intro: exI [of _ 4])
  show thesis
  proof (cases rule: buffer_grant [OF h r v])
    case (1 q m1)
    define m2 where "m2 = wr (wr (st32 m1 (unat q) (ucast ?l)) (unat q + 4) (stored_key ks key)) (unat q + 4 + ?n) [0]"
    have o: "m2 x = m1 x" if "x < unat q \<or> unat q + unat ?sz \<le> x" for x
      using that us by (auto simp: m2_def wr_outside st32_def)
    have "hashtable_alloc_string E rg key ks w = Some (q, set_bytes m2 w)"
      unfolding hashtable_alloc_string_def ln tot Let_def using 1(1) 1(3) [OF o]
      by (simp only: ul tk) (simp add: m2_def)
    moreover have "unat (ld32 m2 (unat q)) = ?n"
      using k(2) ul by (simp add: m2_def unsigned_ucast_eq take_bit_eq_mod del: length_take)
    moreover have "rd m2 (unat q + 4) ?n = stored_key ks key" by (simp add: m2_def del: length_take)
    ultimately show thesis using granted 1(2) [OF o] by blast
  next
    case (2 m1)
    then show thesis using refused [of m1] unfolding hashtable_alloc_string_def ln tot Let_def by (simp add: offset_ptr_null_def)
  qed
qed

text \<open>An entry holds the two offsets and the link.\<close>

lemma alloc_entry_runs:
  assumes h: "heap_inv rg (bytes w)" and r: "ready E w"
  obtains (granted) q m' where "hashtable_alloc_entry E rg a b c w = Some (q, set_bytes m' w)"
      "grants rg 24 (bytes w) q m'"
      "ld64 m' (unat q) = a" "ld64 m' (unat q + 8) = b" "ld64 m' (unat q + 16) = c"
    | (refused) m' where "hashtable_alloc_entry E rg a b c w = Some (0, set_bytes m' w)"
      "heap_inv rg m'" "owner_step {} {} (bytes w) m'" "\<not> room 24 (bytes w)"
proof -
  have v: "valid_request 24 16" by (auto simp: valid_request_def intro: exI [of _ 4])
  show thesis
  proof (cases rule: buffer_grant [OF h r v])
    case (1 q m1)
    define m2 where "m2 = st64 (st64 (st64 m1 (unat q) a) (unat q + 8) b) (unat q + 16) c"
    have o: "m2 x = m1 x" if "x < unat q \<or> unat q + unat (24 :: u64) \<le> x" for x
      using that by (auto simp: m2_def st64_outside)
    have "hashtable_alloc_entry E rg a b c w = Some (q, set_bytes m2 w)"
      using 1(1) 1(3) [OF o] by (simp add: hashtable_alloc_entry_def Let_def m2_def)
    moreover have "ld64 m2 (unat q) = a" "ld64 m2 (unat q + 8) = b" "ld64 m2 (unat q + 16) = c" by (simp_all add: m2_def)
    ultimately show thesis using granted 1(2) [OF o] by blast
  next
    case (2 m1)
    then show thesis using refused [of m1] by (simp add: hashtable_alloc_entry_def Let_def offset_ptr_null_def)
  qed
qed

text \<open>The step of a grant, next to spans the owner has already.\<close>

lemma grants_step:
  assumes "heap_inv rg m0" and "owner_step {} T m0 m" and "grants rg sz m q m'"
  shows "owner_step {} (insert (unat q) T) m0 m'"
  using svc.step_trans [OF assms(1,2)] private_step_widen [OF grantsD(6) [OF assms(3)], of T] by simp

lemma free_step:
  assumes "heap_inv rg m0" and "owner_step {} (insert q T) m0 m" and "owner_step {q} {} m m'" and "q \<notin> T"
  shows "owner_step {} T m0 m'"
  using svc.step_trans [OF assms(1,2)] private_step_widen [OF assms(3), of T] assms(4) by simp

text \<open>A key, a value and a node, granted one after the other, make an entry.\<close>

lemma new_entry:
  assumes h: "heap_inv rg m" and key: "0 \<notin> set key" "length key < 2 ^ 32"
    and gk: "grants rg (5 + of_nat (length key)) m qk m1" "unat (ld32 m1 (unat qk)) = length key" "rd m1 (unat qk + 4) (length key) = key"
    and gv: "grants rg vs m1 qv m2" "rd m2 (unat qv) (unat vs) = val"
    and gn: "grants rg 24 m2 qn m3" "ld64 m3 (unat qn) = qk" "ld64 m3 (unat qn + 8) = qv"
  defines "x \<equiv> \<lparr>node_pos = unat qn, key_pos = unat qk, val_pos = unat qv, ent_key = key, ent_val = val\<rparr>"
  shows "ent_ok m3 vs x" and "distinct (ent_spans x)" and "owner_step {} (set (ent_spans x)) m m3"
proof -
  note dk = grantsD [OF gk(1)] and dv = grantsD [OF gv(1)] and dn = grantsD [OF gn(1)]
  have us: "unat (5 + of_nat (length key) :: u64) = 5 + length key"
    using key(2) by (subst unat_add_nowrap) (simp_all add: unat_of_nat_small)
  obtain i where i: "heap_abs m3 (unat qn) = Some i" "24 \<le> i" using dn(3) by auto
  obtain j where j: "heap_abs m1 (unat qk) = Some j" "5 + length key \<le> j" using dk(3) us by auto
  obtain n where n: "heap_abs m2 (unat qv) = Some n" "unat vs \<le> n" using dv(3) by auto
  note j2 = dv(7) [OF j(1)]
  show "distinct (ent_spans x)" using dv(8) [OF j(1)] dn(8) [OF j2] dn(8) [OF n(1)] by (auto simp: x_def ent_spans_def)
  show "owner_step {} (set (ent_spans x)) m m3"
    using grants_step [OF h grants_step [OF h dk(6) gv(1)] gn(1)] by (simp add: x_def ent_spans_def insert_commute)
  have sk: "same_on m1 m3 (unat qk) (unat qk + j)"
    using private_step_live(3) [OF dv(6) j(1)] private_step_live(3) [OF dn(6) j2] same_on_trans by blast
  have sv: "same_on m2 m3 (unat qv) (unat qv + n)" using private_step_live(3) [OF dn(6) n(1)] by simp
  have "ld32 m3 (unat qk) = ld32 m1 (unat qk)" using sk j(2) by (intro ld32_same_on) (auto intro: same_on_sub)
  moreover have "rd m3 (unat qk + 4) (length key) = key"
    using sk j(2) gk(3) by (subst rd_same_on [of m1]) (auto intro: same_on_sub)
  moreover have "rd m3 (unat qv) (unat vs) = val" using sv n(2) gv(2) by (subst rd_same_on [of m2]) (auto intro: same_on_sub)
  ultimately have "read_ent m3 (unat vs) (unat qn) = x" using gn gk(2) by (simp add: read_ent_def Let_def x_def)
  moreover have "span_serves vs m3 (unat qv)" using private_step_serve [OF dn(6) dv(4)] by simp
  ultimately show "ent_ok m3 vs x"
    using i j(2) n(2) dn(7) [OF j2] dn(7) [OF n(1)] key(1) by (simp add: ent_ok_def x_def)
qed

text \<open>The word of a bucket, and what a fresh span does not change.\<close>

lemma bucket_word_kept:
  assumes r: "ht_repr m p cs" and i: "i < length cs" and s: "owner_step {} T m m'"
  defines "b \<equiv> unat (ht_buckets (get_table m p)) + i * 8"
  shows "ld64 m' b = ld64 m b"
proof -
  obtain k where k: "heap_abs m (unat (ht_buckets (get_table m p))) = Some k" "unat (ht_num_buckets (get_table m p)) * 8 \<le> k"
    using ht_reprD(2) [OF r] by blast
  have "i * 8 + 8 \<le> k" using i k(2) ht_reprD(6) [OF r] by linarith
  then show ?thesis using private_step_live(3) [OF s k(1)] by (auto simp: b_def intro!: ld64_same_on intro: same_on_sub)
qed

text \<open>What an operation on the table leaves behind: the chains \<open>cs'\<close>, in the table's spans.\<close>

definition ht_step :: "ShmRegion \<Rightarrow> nat \<Rightarrow> hent list list \<Rightarrow> hent list list \<Rightarrow> mem \<Rightarrow> mem \<Rightarrow> bool" where
  "ht_step rg p cs cs' m m' \<longleftrightarrow>
     heap_inv rg m' \<and> ht_repr m' p cs' \<and> get_table m' p = get_table m p \<and>
     owner_step (ht_spans m p cs) (ht_spans m p cs') m m'"

text \<open>Linking an entry made of fresh spans.\<close>

lemma ht_link_step:
  assumes h: "heap_inv rg m" "heap_inv rg m3" and r: "ht_repr m p cs" and i: "i < length cs"
    and x: "ent_ok m3 (ht_val_size (get_table m p)) x" "distinct (ent_spans x)" "owner_step {} (set (ent_spans x)) m m3"
    and nx: "ld64 m3 (node_pos x + 16) = ld64 m (unat (ht_buckets (get_table m p)) + i * 8)"
    and k: "unat (hashtable_hash (ent_key x) (ht_num_buckets (get_table m p))) = i" "ent_key x \<notin> ent_key ` set (concat cs)"
    and q: "unat q = node_pos x"
  shows "ht_step rg p cs (cs[i := x # cs ! i]) m (st64 m3 (unat (ht_buckets (get_table m p)) + i * 8) q)"
proof -
  have "ht_spans m p cs \<inter> {} = {}" by simp
  note k3 = ht_kept [OF r x(3) this]
  have o: "ent_ok m3 (ht_val_size (get_table m3 p)) x" and sx: "set (ent_spans x) \<inter> ht_spans m3 p cs = {}"
    and nx3: "ld64 m3 (node_pos x + 16) = ld64 m3 (unat (ht_buckets (get_table m3 p)) + i * 8)"
    and hk: "unat (hashtable_hash (ent_key x) (ht_num_buckets (get_table m3 p))) = i"
    using x(1) k3 nx bucket_word_kept [OF r i x(3)] k(1) by auto
  note l = ht_link_repr [OF h(2) k3(2) i o sx x(2) nx3 hk k(2) q]
  have "cs ! i = [] @ cs ! i" by simp
  have sp: "ht_spans m p (cs[i := x # cs ! i]) = ht_spans m p cs \<union> set (ent_spans x)"
    unfolding ht_spans_def concat_split(2) [OF i] by (subst concat_split(1) [OF i], auto)
  have "owner_step (ht_spans m p cs) (ht_spans m p cs \<union> set (ent_spans x)) m m3"
    using private_step_widen [OF x(3), of "ht_spans m p cs"] by (simp add: Un_commute)
  moreover have "owner_step (ht_spans m p cs \<union> set (ent_spans x)) (ht_spans m p cs \<union> set (ent_spans x)) m3
      (st64 m3 (unat (ht_buckets (get_table m3 p)) + i * 8) q)"
    using private_step_widen [OF l(4), of "ht_spans m p cs \<union> set (ent_spans x)"] k3(1)
    by (simp add: ht_spans_def insert_absorb insert_commute)
  ultimately have "owner_step (ht_spans m p cs) (ht_spans m p cs \<union> set (ent_spans x)) m
      (st64 m3 (unat (ht_buckets (get_table m3 p)) + i * 8) q)" by (rule svc.step_trans [OF h(1)])
  then show ?thesis using l(1-3) k3(1) by (simp add: ht_step_def sp)
qed

section \<open>Inserting\<close>

lemma ht_kept_fresh:
  assumes "ht_repr m p cs" and "owner_step {} S m m'"
  shows "get_table m' p = get_table m p" and "ht_repr m' p cs" and "ht_spans m' p cs = ht_spans m p cs"
  using ht_kept [OF assms] by simp_all

text \<open>Giving a granted key string back, and a granted value buffer before it.\<close>

lemma undo_key:
  assumes h: "heap_inv rg m0" "heap_inv rg (bytes w)" and r: "ready E w" and s: "owner_step {} {unat qk} m0 (bytes w)"
    and l: "heap_abs (bytes w) (unat qk) = Some j" "4 \<le> j"
  obtains m' where "hashtable_free_string E rg qk w = Some (set_bytes m' w)" "heap_inv rg m'" "owner_step {} {} m0 m'"
proof -
  obtain m' where m': "hashtable_free_string E rg qk w = Some (set_bytes m' w)" "heap_inv rg m'" "owner_step {unat qk} {} (bytes w) m'"
    using free_string_runs [OF h(2) r l] by auto
  then show thesis using that free_step [OF h(1) s m'(3)] by simp
qed

lemma undo_value_key:
  assumes h: "heap_inv rg m0" "heap_inv rg (bytes w)" and r: "ready E w" and s: "owner_step {} {unat qv, unat qk} m0 (bytes w)"
    and l: "heap_abs (bytes w) (unat qv) = Some n" "heap_abs (bytes w) (unat qk) = Some j" "4 \<le> j" and ne: "unat qv \<noteq> unat qk"
  obtains m1 m' where "allocator_free E (Some rg) (rg_base rg + qv) w = Some (STATUS_OK, set_bytes m1 w)"
    "hashtable_free_string E rg qk (set_bytes m1 w) = Some (set_bytes m' w)" "heap_inv rg m'" "owner_step {} {} m0 m'"
proof -
  obtain m1 where m1: "allocator_free E (Some rg) (rg_base rg + qv) w = Some (STATUS_OK, set_bytes m1 w)"
    "heap_inv rg m1" "heap_abs m1 = (heap_abs (bytes w))(unat qv := None)" "owner_step {unat qv} {} (bytes w) m1"
    using release_runs [OF h(2) r l(1)] by auto
  have s1: "owner_step {} {unat qk} m0 (bytes (set_bytes m1 w))" using free_step [OF h(1) s m1(4)] ne by simp
  have w1: "heap_inv rg (bytes (set_bytes m1 w))" "ready E (set_bytes m1 w)" "heap_abs (bytes (set_bytes m1 w)) (unat qk) = Some j"
    using m1 r l(2) ne by simp_all
  show thesis
  proof (rule undo_key [OF h(1) w1(1,2) s1 w1(3) l(3)])
    fix m' assume "hashtable_free_string E rg qk (set_bytes m1 w) = Some (set_bytes m' (set_bytes m1 w))"
      "heap_inv rg m'" "owner_step {} {} m0 m'"
    then show thesis using that [OF m1(1), of m'] by simp
  qed
qed

text \<open>What putting a key takes from the heap, at most.\<close>

definition put_cost :: "u64 \<Rightarrow> cstr \<Rightarrow> nat" where
  "put_cost vs key = alloc_cost (5 + of_nat (length key)) + alloc_cost vs + alloc_cost 24"

text \<open>The insertion up to the write of the bucket word: three fresh spans make an entry for the stored
  part of the key whose link is the bucket's old head.\<close>

lemma hashtable_insert_mem:
  assumes h: "heap_inv rg (bytes w)" and r: "ready E w" and t: "ht_repr (bytes w) p cs" and i: "i < length cs"
    and key: "0 \<notin> set key" "length key < 2 ^ 64" "length (stored_key (ht_key_size (get_table (bytes w) p)) key) < 2 ^ 32"
    and val: "length val = unat (ht_val_size (get_table (bytes w) p))" "valid_request (ht_val_size (get_table (bytes w) p)) 16"
  defines "b \<equiv> unat (ht_buckets (get_table (bytes w) p)) + i * 8"
  obtains (inserted) x q m4 where "hashtable_insert E rg p b key val w = Some (0, set_bytes (st64 m4 b q) w)" "heap_inv rg m4"
      "ent_ok m4 (ht_val_size (get_table (bytes w) p)) x" "distinct (ent_spans x)" "owner_step {} (set (ent_spans x)) (bytes w) m4"
      "ld64 m4 (node_pos x + 16) = ld64 (bytes w) b" "unat q = node_pos x"
      "ent_key x = stored_key (ht_key_size (get_table (bytes w) p)) key" "ent_val x = val"
      "pays spare (put_cost (ht_val_size (get_table (bytes w) p)) (ent_key x)) (bytes w) m4"
    | (refused) m' where "hashtable_insert E rg p b key val w = Some (- 1, set_bytes m' w)"
      "heap_inv rg m'" "owner_step {} {} (bytes w) m'"
      "\<not> spare (N + put_cost (ht_val_size (get_table (bytes w) p)) (stored_key (ht_key_size (get_table (bytes w) p)) key)) (bytes w)"
proof (cases rule: alloc_string_runs [OF h r key(2,3)])
  case (1 qk m1)
  let ?t = "get_table (bytes w) p"
  define sk where "sk = stored_key (ht_key_size ?t) key"
  note gs = 1(2-4) [folded sk_def] and gk = grantsD [OF 1(2)]
  note k1 = ht_kept_fresh [OF t gk(6)]
  have sk: "0 \<notin> set sk" "length sk < 2 ^ 32" using key(1,3) in_set_takeD [of 0] by (auto simp: sk_def)
  let ?w1 = "set_bytes m1 w"
  have h1: "heap_inv rg (bytes ?w1)" "ready E ?w1" using gk(1) r by simp_all
  have "unat (5 + of_nat (length sk) :: u64) = 5 + length sk"
    using sk(2) by (subst unat_add_nowrap) (simp_all add: unat_of_nat_small)
  then obtain jk where jk: "heap_abs m1 (unat qk) = Some jk" "4 \<le> jk" using grantsD(3) [OF gs(1)] by auto
  note run = hashtable_insert_def Let_def 1(1) offset_ptr_is_null_def gk(5) k1(1)
  show thesis
  proof (cases rule: buffer_grant [OF h1 val(2)])
    case v: (1 qv m2)
    define m3 where "m3 = wr m2 (unat qv) val"
    have o3: "m3 x = m2 x" if "x < unat qv \<or> unat qv + unat (ht_val_size ?t) \<le> x" for x
      using that val(1) by (auto simp: m3_def wr_outside)
    have g2: "grants rg (ht_val_size ?t) m1 qv m2" and gv: "grants rg (ht_val_size ?t) m1 qv m3"
      using v(2) [of m2] v(2) [OF o3] by simp_all
    have rv: "rd m3 (unat qv) (unat (ht_val_size ?t)) = val" and tk: "take (unat (ht_val_size ?t)) val = val"
      using val(1) by (simp_all add: m3_def)
    note dv = grantsD [OF gv] and k2 = ht_kept_fresh [OF k1(2) grantsD(6) [OF g2]]
    let ?w3 = "set_bytes m3 w"
    have h3: "heap_inv rg (bytes ?w3)" "ready E ?w3" using dv(1) r by simp_all
    obtain nv where nv: "heap_abs m3 (unat qv) = Some nv" using dv(3) by blast
    have s3: "owner_step {} {unat qv, unat qk} (bytes w) m3" using grants_step [OF h gk(6) gv] .
    note run3 = run v(1) v(3) [OF o3] k2(1) tk m3_def [symmetric]
    show thesis
    proof (cases rule: alloc_entry_runs [where E = E and w = ?w3 and a = qk and b = qv and c = "ld64 m3 b", OF h3])
      case n: (1 qn m4)
      have gn: "grants rg 24 m3 qn m4" using n(2) by simp
      define x where "x = \<lparr>node_pos = unat qn, key_pos = unat qk, val_pos = unat qv, ent_key = sk, ent_val = val\<rparr>"
      note ne = new_entry [OF h sk gs gv rv gn n(3,4), folded x_def]
      have "ld64 m3 b = ld64 (bytes w) b" unfolding b_def by (rule bucket_word_kept [OF t i s3])
      moreover have "hashtable_insert E rg p b key val w = Some (0, set_bytes (st64 m4 b qn) w)"
        using n(1) grantsD(5) [OF gn] by (simp add: run3)
      moreover have "pays spare (put_cost (ht_val_size ?t) sk) (bytes w) m4"
        using pays_trans [OF pays_trans [OF grantsD(9) [OF gs(1)] dv(9)] grantsD(9) [OF gn]] by (simp add: put_cost_def)
      ultimately show thesis using inserted [OF _ grantsD(1) [OF gn] ne] n(5) by (simp add: x_def sk_def)
    next
      case n: (2 m4)
      let ?w4 = "set_bytes m4 w"
      have h4: "heap_inv rg (bytes ?w4)" "ready E ?w4" using n(2) r by simp_all
      have s4: "owner_step {} {unat qv, unat qk} (bytes w) (bytes ?w4)"
        using svc.step_trans [OF h s3] private_step_widen [OF n(3), of "{unat qv, unat qk}"] by simp
      have l4: "heap_abs (bytes ?w4) (unat qv) = Some nv" "heap_abs (bytes ?w4) (unat qk) = Some jk"
        using private_step_live(1) [OF n(3)] nv dv(7) [OF jk(1)] by simp_all
      have "unat qv \<noteq> unat qk" using dv(8) [OF jk(1)] by simp
      from undo_value_key [OF h h4 s4 l4 jk(2) this] obtain m5 m6 where
        "allocator_free E (Some rg) (rg_base rg + qv) ?w4 = Some (STATUS_OK, set_bytes m5 w)"
        "hashtable_free_string E rg qk (set_bytes m5 w) = Some (set_bytes m6 w)" "heap_inv rg m6" "owner_step {} {} (bytes w) m6"
        by auto
      moreover have "\<not> spare (N + put_cost (ht_val_size ?t) sk) (bytes w)"
        using refused_after [OF pays_trans [OF grantsD(9) [OF gs(1)] dv(9)], of 24] n(4) by (simp add: put_cost_def)
      ultimately show thesis using refused [of m6] n(1) by (simp add: run3 sk_def)
    qed
  next
    case v: (2 m2)
    let ?w2 = "set_bytes m2 w"
    have h2: "heap_inv rg (bytes ?w2)" "ready E ?w2" using v(3) r by simp_all
    have s: "owner_step {} {} m1 m2" using v(4) by simp
    have s2: "owner_step {} {unat qk} (bytes w) (bytes ?w2)" and l: "heap_abs (bytes ?w2) (unat qk) = Some jk"
      using svc.step_trans [OF h gk(6)] private_step_widen [OF s, of "{unat qk}"] private_step_live(1) [OF s jk(1)] by simp_all
    obtain m3 where "hashtable_free_string E rg qk ?w2 = Some (set_bytes m3 ?w2)" "heap_inv rg m3" "owner_step {} {} (bytes w) m3"
      by (rule undo_key [OF h h2 s2 l jk(2)])
    moreover have "\<not> spare (N + put_cost (ht_val_size ?t) sk) (bytes w)"
      using refused_after [OF grantsD(9) [OF gs(1)], of "ht_val_size ?t"] v(1) by (simp add: put_cost_def)
    ultimately show thesis using refused [of m3] v(2) by (simp add: run sk_def)
  qed
next
  case (2 m1)
  have "\<not> spare (N + put_cost (ht_val_size (get_table (bytes w) p)) (stored_key (ht_key_size (get_table (bytes w) p)) key)) (bytes w)"
    using refused_after [OF pays_refl 2(4)] by (simp add: put_cost_def del: length_take)
  then show thesis using refused [of m1] 2(1-3) by (simp add: hashtable_insert_def offset_ptr_is_null_def)
qed

lemma hashtable_insert_runs:
  assumes h: "heap_inv rg (bytes w)" and r: "ready E w" and t: "ht_repr (bytes w) p cs" and i: "i < length cs"
    and key: "0 \<notin> set key" "length key \<le> unat (ht_key_size (get_table (bytes w) p))" "length key < 2 ^ 32"
    and val: "length val = unat (ht_val_size (get_table (bytes w) p))" "valid_request (ht_val_size (get_table (bytes w) p)) 16"
    and hs: "unat (hashtable_hash key (ht_num_buckets (get_table (bytes w) p))) = i" and new: "key \<notin> ent_key ` set (concat cs)"
  defines "b \<equiv> unat (ht_buckets (get_table (bytes w) p)) + i * 8"
  obtains (inserted) x m' where "hashtable_insert E rg p b key val w = Some (0, set_bytes m' w)"
      "ht_step rg p cs (cs[i := x # cs ! i]) (bytes w) m'" "ent_key x = key" "ent_val x = val"
      "pays spare (put_cost (ht_val_size (get_table (bytes w) p)) key) (bytes w) m'"
    | (refused) m' where "hashtable_insert E rg p b key val w = Some (- 1, set_bytes m' w)"
      "heap_inv rg m'" "owner_step {} {} (bytes w) m'"
      "\<not> spare (N + put_cost (ht_val_size (get_table (bytes w) p)) key) (bytes w)"
proof -
  have sk: "stored_key (ht_key_size (get_table (bytes w) p)) key = key" using key(2) by simp
  then have kl: "length key < 2 ^ 64" "length (stored_key (ht_key_size (get_table (bytes w) p)) key) < 2 ^ 32" using key(3) by simp_all
  show thesis
  proof (cases rule: hashtable_insert_mem [OF h r t i key(1) kl val, where N = N])
    case (1 x q m4)
    then have k: "unat (hashtable_hash (ent_key x) (ht_num_buckets (get_table (bytes w) p))) = i" "ent_key x \<notin> ent_key ` set (concat cs)"
      using hs new sk by simp_all
    have "ht_step rg p cs (cs[i := x # cs ! i]) (bytes w) (st64 m4 b q)"
      unfolding b_def by (rule ht_link_step [OF h 1(2) t i 1(3-5) _ k 1(7)]) (rule 1(6))
    moreover have "spare n (st64 m4 b q) = spare n m4" for n
    proof -
      obtain k where k: "heap_abs m4 (unat (ht_buckets (get_table (bytes w) p))) = Some k" "i * 8 + 8 \<le> k"
        using ht_apart [OF h t] private_step_live(1) [OF 1(5)] i by (metis empty_iff)
      then show ?thesis unfolding b_def by (intro spare_st64 [OF 1(2) k(1)]) simp_all
    qed
    then have "pays spare (put_cost (ht_val_size (get_table (bytes w) p)) key) (bytes w) (st64 m4 b q)"
      using 1(8,10) sk by (simp add: pays_def)
    ultimately show thesis using inserted [of "st64 m4 b q" x] 1(1,8,9) sk by (simp add: b_def)
  next
    case (2 m')
    then show thesis using refused [of m'] sk by (simp add: b_def)
  qed
qed

section \<open>Updating\<close>

lemma get_table_kept:
  assumes "owner_step S S' m m'" and "heap_abs m p = Some k" and "72 \<le> k" and "p \<notin> S"
  shows "get_table m' p = get_table m p"
  using private_step_live(3) [OF assms(1,2,4)] assms(3) by (intro get_table_same) (auto intro: same_on_sub)

lemma hashtable_update_runs:
  assumes h: "heap_inv rg (bytes w)" and r: "ready E w" and t: "ht_repr (bytes w) p cs" and i: "i < length cs"
    and c: "cs ! i = ys @ x # zs"
    and val: "length val = unat (ht_val_size (get_table (bytes w) p))" "valid_request (ht_val_size (get_table (bytes w) p)) 16"
  obtains v m' where "hashtable_update E rg p (node_pos x) val w = Some (0, set_bytes m' w)"
    "ht_step rg p cs (cs[i := ys @ x\<lparr>val_pos := v, ent_val := val\<rparr> # zs]) (bytes w) m'"
    "pays spare (alloc_cost (ht_val_size (get_table (bytes w) p))) (bytes w) m'"
proof -
  let ?t = "get_table (bytes w) p" let ?vs = "ht_val_size (get_table (bytes w) p)"
  have xm: "x \<in> set (concat cs)" using set_without [OF i c] by blast
  note xo = ht_reprD(8) [OF t xm]
  obtain nv where xv: "heap_abs (bytes w) (val_pos x) = Some nv" "unat ?vs \<le> nv" "span_serves ?vs (bytes w) (val_pos x)"
    "unat (ld64 (bytes w) (node_pos x + 8)) = val_pos x" using ent_okD [OF xo] by metis
  define q where "q = ld64 (bytes w) (node_pos x + 8)"
  have q: "unat q = val_pos x" using xv(4) by (simp add: q_def)
  have ql: "heap_abs (bytes w) (unat q) = Some nv" using xv(1) q by simp
  note rs = span_resolves [OF h ql xv(2)]
  obtain m1 where m1: "allocator_free E (Some rg) (rg_base rg + q) w = Some (STATUS_OK, set_bytes m1 w)"
    "heap_inv rg m1" "owner_step {unat q} {} (bytes w) m1" "room ?vs m1" "pays spare 0 (bytes w) m1"
    using release_runs [OF h r ql] xv(3) q by metis
  let ?w1 = "set_bytes m1 w"
  have h1: "heap_inv rg (bytes ?w1)" "ready E ?w1" using m1(2) r by simp_all
  obtain k where k: "heap_abs (bytes w) p = Some k" "72 \<le> k" using ht_reprD(1) [OF t] by blast
  have pq: "p \<notin> {unat q}" using ht_apart [OF h t] xm q by (auto simp: ent_spans_def)
  note pk = private_step_live [OF m1(3) k(1) pq]
  have g1: "get_table m1 p = ?t" by (rule get_table_kept [OF m1(3) k pq])
  have fv: "hashtable_free_value E rg q ?vs w = Some ?w1" using m1(1) rs by (simp add: hashtable_free_value_def offset_ptr_is_null_def)
  show thesis
  proof (cases rule: buffer_grant [OF h1 val(2)])
    case (1 v m2)
    define m3 where "m3 = wr m2 (unat v) val"
    have o: "m3 y = m2 y" if "y < unat v \<or> unat v + unat ?vs \<le> y" for y
      using that val(1) by (auto simp: m3_def wr_outside)
    have gv: "grants rg ?vs m1 v m3" and g2: "grants rg ?vs m1 v m2" using 1(2) [OF o] 1(2) [of m2] by simp_all
    note dv = grantsD [OF gv]
    have tb: "get_table m2 p = ?t" using get_table_kept [OF grantsD(6) [OF g2] pk(1) k(2)] g1 by simp
    have st: "owner_step {val_pos x} {unat v} (bytes w) m3" using svc.step_trans [OF h m1(3) dv(6)] q by simp
    obtain n where n: "heap_abs m3 (unat v) = Some n" "unat ?vs \<le> n" using dv(3) by blast
    have rv: "rd m3 (unat v) (unat ?vs) = val" using val(1) by (simp add: m3_def)
    note u = ht_update_repr [OF h dv(1) t i c st n dv(4) rv]
    have "hashtable_update E rg p (node_pos x) val w = Some (0, set_bytes (st64 m3 (node_pos x + 8) v) w)"
      using fv 1(1) 1(3) [OF o] g1 tb val(1) by (simp add: hashtable_update_def Let_def get_hentry_def q_def [symmetric] m3_def)
    moreover have "spare N (st64 m3 (node_pos x + 8) v) = spare N m3" for N
    proof -
      obtain j where j: "heap_abs (bytes w) (node_pos x) = Some j" "24 \<le> j" using ent_okD [OF xo] by metis
      have "node_pos x \<notin> {val_pos x}" using ht_apart [OF h t] xm by (auto simp: ent_spans_def)
      then have l: "heap_abs m3 (node_pos x) = Some j" using private_step_live(1) [OF st j(1)] by simp
      then show ?thesis using j(2) by (intro spare_st64 [OF dv(1) l]) simp_all
    qed
    then have "pays spare (alloc_cost ?vs) (bytes w) (st64 m3 (node_pos x + 8) v)"
      using pays_trans [OF m1(5) dv(9)] by (simp add: pays_def)
    ultimately show thesis using that [of "st64 m3 (node_pos x + 8) v" "unat v"] u by (simp add: ht_step_def)
  next
    case (2 m2)
    then show thesis using m1(4) by simp
  qed
qed

section \<open>Releasing an entry\<close>

lemma free_entry_runs:
  assumes h: "heap_inv rg (bytes w)" and r: "ready E w" and x: "ent_ok (bytes w) (ht_val_size (get_table (bytes w) p)) x"
    and d: "distinct (ent_spans x)" and p: "heap_abs (bytes w) p = Some k" "72 \<le> k" "p \<notin> set (ent_spans x)"
    and e: "unat off = node_pos x"
  obtains m' where "hashtable_free_entry E rg p (rg_base rg + off) w = Some (set_bytes m' w)"
    "heap_inv rg m'" "heap_abs m' = heap_abs (bytes w) |` (- set (ent_spans x))" "owner_step (set (ent_spans x)) {} (bytes w) m'"
    "pays spare 0 (bytes w) m'"
proof -
  let ?vs = "ht_val_size (get_table (bytes w) p)" and ?n = "node_pos x" and ?k = "key_pos x" and ?v = "val_pos x"
  obtain i j n where o: "heap_abs (bytes w) ?n = Some i" "24 \<le> i" "heap_abs (bytes w) ?k = Some j" "5 + length (ent_key x) \<le> j"
    "heap_abs (bytes w) ?v = Some n" "unat ?vs \<le> n"
    "unat (ld64 (bytes w) ?n) = ?k" "unat (ld64 (bytes w) (?n + 8)) = ?v" using ent_okD [OF x] by metis
  have ne: "?n \<noteq> ?k" "?n \<noteq> ?v" "?k \<noteq> ?v" "p \<noteq> ?n" "p \<noteq> ?k" "p \<noteq> ?v" using d p(3) by (auto simp: ent_spans_def)
  define a where "a = ld64 (bytes w) ?n"
  define c where "c = ld64 (bytes w) (?n + 8)"
  have u: "unat a = ?k" "unat c = ?v" using o(7,8) by (simp_all add: a_def c_def)
  have la: "heap_abs (bytes w) (unat a) = Some j" "4 \<le> j" using o(3,4) u by simp_all
  have nz: "a \<noteq> 0" using span_resolves(2) [OF h la(1), of 4] la(2) by simp
  obtain m1 where m1: "hashtable_free_string E rg a w = Some (set_bytes m1 w)" "heap_inv rg m1"
    "heap_abs m1 = (heap_abs (bytes w))(?k := None)" "owner_step {?k} {} (bytes w) m1" "pays spare 0 (bytes w) m1"
    using free_string_runs [OF h r la] u by metis
  have h1: "heap_inv rg (bytes (set_bytes m1 w))" "ready E (set_bytes m1 w)" using m1(2) r by simp_all
  have "?n \<notin> {?k}" "p \<notin> {?k}" using ne by simp_all
  note n1 = private_step_live [OF m1(4) o(1) this(1)] and g1 = get_table_kept [OF m1(4) p(1,2) this(2)]
  have c1: "ld64 m1 (?n + 8) = c" unfolding c_def using n1(3) o(2) by (intro ld64_same_on) (auto intro: same_on_sub)
  have lc: "heap_abs (bytes (set_bytes m1 w)) (unat c) = Some n" using m1(3) o(5) u ne by simp
  note rs = span_resolves [OF h1(1) lc o(6)]
  obtain m2 where m2: "allocator_free E (Some rg) (rg_base rg + c) (set_bytes m1 w) = Some (STATUS_OK, set_bytes m2 w)"
    "heap_inv rg m2" "heap_abs m2 = (heap_abs m1)(?v := None)" "owner_step {?v} {} m1 m2" "pays spare 0 m1 m2"
    using release_runs [OF h1 lc] u by auto
  have h2: "heap_inv rg (bytes (set_bytes m2 w))" "ready E (set_bytes m2 w)" using m2(2) r by simp_all
  have ln: "heap_abs (bytes (set_bytes m2 w)) (unat off) = Some i" using m1(3) m2(3) o(1) e ne by simp
  obtain m3 where m3: "allocator_free E (Some rg) (rg_base rg + off) (set_bytes m2 w) = Some (STATUS_OK, set_bytes m3 w)"
    "heap_inv rg m3" "heap_abs m3 = (heap_abs m2)(?n := None)" "owner_step {?n} {} m2 m3" "pays spare 0 m2 m3"
    using release_runs [OF h2 ln] e by auto
  have "owner_step (set (ent_spans x)) {?n, ?v} (bytes w) m1" "owner_step {?n, ?v} {?n} m1 m2"
    using private_step_widen [OF m1(4), of "{?n, ?v}"] private_step_widen [OF m2(4), of "{?n}"] ne
    by (simp_all add: ent_spans_def insert_commute insert_Diff_if)
  then have "owner_step (set (ent_spans x)) {?n} (bytes w) m2" by (rule svc.step_trans [OF h])
  then have "owner_step (set (ent_spans x)) {} (bytes w) m3" using m3(4) by (rule svc.step_trans [OF h])
  moreover have "heap_abs m3 = heap_abs (bytes w) |` (- set (ent_spans x))"
    unfolding m3(3) m2(3) m1(3) by (auto simp: ent_spans_def restrict_map_def fun_eq_iff)
  moreover have "hashtable_free_entry E rg p (rg_base rg + off) w = Some (set_bytes m3 w)"
    using m1(1) m2(1) m3(1) rs nz e c1 g1
    by (simp add: hashtable_free_entry_def hashtable_free_value_def Let_def get_hentry_def a_def [symmetric] offset_ptr_is_null_def)
  moreover have "pays spare 0 (bytes w) m3" using m1(5) m2(5) m3(5) by (simp add: pays_def)
  ultimately show thesis using that m3(2) by blast
qed

section \<open>Deleting\<close>

lemma hashtable_unlink_mem:
  assumes h: "heap_inv rg m" and o: "\<And>y. y \<in> set ys \<Longrightarrow> ent_ok m vs y"
    and prev: "if ys = [] then prev = 0 else unat prev = node_pos (last ys)"
  shows "hashtable_unlink rg b prev (node_pos x) m =
    (if ys = [] then st64 m b (ld64 m (node_pos x + 16)) else st64 m (node_pos (last ys) + 16) (ld64 m (node_pos x + 16)))"
proof (cases "ys = []")
  case True
  then show ?thesis using prev by (simp add: hashtable_unlink_def offset_ptr_is_null_def get_hentry_def)
next
  case False
  then have u: "unat prev = node_pos (last ys)" and lo: "ent_ok m vs (last ys)" using prev o by simp_all
  note er = entry_resolves [OF h lo u]
  show ?thesis using False er u by (simp add: hashtable_unlink_def offset_ptr_is_null_def get_hentry_def)
qed

lemma delete_entry_runs:
  assumes h: "heap_inv rg (bytes w)" and r: "ready E w" and t: "ht_repr (bytes w) p cs" and i: "i < length cs"
    and c: "cs ! i = ys @ x # zs" and off: "unat off = node_pos x"
    and prev: "if ys = [] then prev = 0 else unat prev = node_pos (last ys)"
  defines "b \<equiv> unat (ht_buckets (get_table (bytes w) p)) + i * 8"
  obtains m' where "hashtable_free_entry E rg p (rg_base rg + off)
      (set_bytes (hashtable_unlink rg b prev (node_pos x) (bytes w)) w) = Some (set_bytes m' w)"
    "ht_step rg p cs (cs[i := ys @ zs]) (bytes w) m'" "pays spare 0 (bytes w) m'"
proof -
  let ?vs = "ht_val_size (get_table (bytes w) p)"
  note sw = set_without [OF i c]
  have ys: "ent_ok (bytes w) ?vs y" if "y \<in> set ys" for y using ht_reprD(8) [OF t] sw(3) that by blast
  define m1 where "m1 = hashtable_unlink rg b prev (node_pos x) (bytes w)"
  have m1: "m1 = (if ys = [] then st64 (bytes w) (unat (ht_buckets (get_table (bytes w) p)) + i * 8) (ld64 (bytes w) (node_pos x + 16))
      else st64 (bytes w) (node_pos (last ys) + 16) (ld64 (bytes w) (node_pos x + 16)))"
    using hashtable_unlink_mem [OF h ys prev, where b = b and x = x] by (simp add: m1_def b_def)
  note u = ht_unlink_repr [OF h t i c, folded m1]
  have h1: "heap_inv rg (bytes (set_bytes m1 w))" "ready E (set_bytes m1 w)" using u(1) r by simp_all
  have xo: "ent_ok (bytes (set_bytes m1 w)) (ht_val_size (get_table (bytes (set_bytes m1 w)) p)) x" using u(3,4) by simp
  have xd: "distinct (ent_spans x)" and px: "p \<notin> set (ent_spans x)" using ht_apart [OF h t] sw(2) by metis+
  obtain k where k: "heap_abs (bytes (set_bytes m1 w)) p = Some k" "72 \<le> k" using ht_reprD(1) [OF u(2)] by auto
  obtain m2 where m2: "hashtable_free_entry E rg p (rg_base rg + off) (set_bytes m1 w) = Some (set_bytes m2 w)"
    "heap_inv rg m2" "owner_step (set (ent_spans x)) {} m1 m2" "pays spare 0 m1 m2"
    using free_entry_runs [OF h1 xo xd k px off] by auto
  note ss = ht_spans_split(1) [OF i c, of "bytes w" p]
  have dj: "ht_spans m1 p (cs[i := ys @ zs]) \<inter> set (ent_spans x) = {}"
    using ht_spans_minus [OF t i c] u(3) by (simp add: ht_spans_def)
  note k2 = ht_kept [OF u(2) m2(3) dj]
  have "owner_step (ht_spans (bytes w) p cs) (ht_spans (bytes w) p (cs[i := ys @ zs])) m1 m2"
    using private_step_widen [OF m2(3), of "ht_spans (bytes w) p (cs[i := ys @ zs])"] dj u(3) ss
    by (simp add: ht_spans_def Un_commute Diff_triv)
  then have "owner_step (ht_spans (bytes w) p cs) (ht_spans (bytes w) p (cs[i := ys @ zs])) (bytes w) m2"
    by (rule svc.step_trans [OF h u(6)])
  then have "ht_step rg p cs (cs[i := ys @ zs]) (bytes w) m2" using m2(2) k2(1,2) u(3) by (simp add: ht_step_def)
  moreover have "spare N m1 = spare N (bytes w)" for N
  proof (cases "ys = []")
    case True
    obtain k where "heap_abs (bytes w) (unat (ht_buckets (get_table (bytes w) p))) = Some k" "i * 8 + 8 \<le> k"
      using ht_apart [OF h t] i by metis
    then show ?thesis using True m1 by (simp add: spare_st64 [OF h])
  next
    case False
    then obtain k where "heap_abs (bytes w) (node_pos (last ys)) = Some k" "24 \<le> k"
      using ent_okD [OF ys [OF last_in_set]] by metis
    then show ?thesis using False m1 by (simp add: spare_st64 [OF h])
  qed
  then have "pays spare 0 (bytes w) m2" using m2(4) by (simp add: pays_def)
  ultimately show thesis using that [of m2] m2(1) by (simp add: m1_def)
qed

end
