(* ===== verification/HashTableMap.thy ===== *)
theory HashTableMap
  imports HashTableRefine
begin

text \<open>
  The hash table as a finite map. The chains of a represented table are read as one association
  list without duplicate keys; the memory steps of put and delete are the update and the removal of
  a key. The searches, the query operations and the sequence of operations are related to that map.
\<close>

section \<open>The map of the chains\<close>

lemma map_of_mid:
  "fst p \<notin> fst ` set as \<Longrightarrow> map_of (as @ p # bs) = (map_of (as @ bs))(fst p \<mapsto> snd p)"
  by (induction as) (auto simp: fun_upd_twist)

lemma map_of_mid_remove:
  assumes "fst p \<notin> fst ` set as" and "fst p \<notin> fst ` set bs"
  shows "map_of (as @ bs) = (map_of (as @ p # bs))(fst p := None)"
proof -
  have "map_of (as @ bs) (fst p) = None" using assms by (simp add: map_of_eq_None_iff image_Un)
  then show ?thesis unfolding map_of_mid [OF assms(1)] by (simp add: fun_upd_idem)
qed

definition ent_pair :: "hent \<Rightarrow> cstr \<times> u8 list" where
  "ent_pair x = (ent_key x, ent_val x)"

lemma fst_ent_pair [simp]: "fst (ent_pair x) = ent_key x" "snd (ent_pair x) = ent_val x"
  by (simp_all add: ent_pair_def)

lemma ht_map_pairs: "ht_map cs = map_of (map ent_pair (concat cs))"
  unfolding ht_map_def ent_pair_def ..

lemma ht_map_dom: "dom (ht_map cs) = ent_key ` set (concat cs)"
  by (simp add: ht_map_pairs dom_map_of_conv_image_fst image_image)

lemma ht_map_length:
  assumes "ht_repr m p cs"
  shows "card (dom (ht_map cs)) = length (concat cs)"
  unfolding ht_map_dom using ht_reprD(11) [OF assms] distinct_card [of "map ent_key (concat cs)"] by simp

text \<open>The pairs around one entry.\<close>

lemma ht_pairs_at:
  assumes r: "ht_repr m p cs" and i: "i < length cs" and c: "cs ! i = ys @ x # zs"
  obtains as bs where "map ent_pair (concat cs) = as @ ent_pair x # bs"
    "\<And>us. map ent_pair (concat (cs[i := ys @ us @ zs])) = as @ map ent_pair us @ bs"
    "ent_key x \<notin> fst ` set as" "ent_key x \<notin> fst ` set bs"
proof -
  let ?as = "map ent_pair (concat (take i cs) @ ys)" and ?bs = "map ent_pair (zs @ concat (drop (Suc i) cs))"
  have e: "concat cs = (concat (take i cs) @ ys) @ x # (zs @ concat (drop (Suc i) cs))"
    using concat_split(1) [OF i] c by simp
  have "distinct (map ent_key ((concat (take i cs) @ ys) @ x # (zs @ concat (drop (Suc i) cs))))"
    using ht_reprD(11) [OF r] unfolding e .
  then have k: "ent_key x \<notin> ent_key ` set (concat (take i cs) @ ys)" "ent_key x \<notin> ent_key ` set (zs @ concat (drop (Suc i) cs))"
    by (simp_all only: map_append list.map distinct_append distinct.simps set_map list.set_map set_append list.set) blast+
  have f: "fst ` set (map ent_pair l) = ent_key ` set l" for l by (simp add: image_image)
  have a: "map ent_pair (concat cs) = ?as @ ent_pair x # ?bs" unfolding e by simp
  have b: "map ent_pair (concat (cs[i := ys @ us @ zs])) = ?as @ map ent_pair us @ ?bs" for us
    unfolding concat_split(2) [OF i] by simp
  show thesis using that [OF a b] k unfolding f by blast
qed

lemma ht_map_remove:
  assumes "ht_repr m p cs" and "i < length cs" and "cs ! i = ys @ x # zs"
  shows "ht_map (cs[i := ys @ zs]) = (ht_map cs)(ent_key x := None)"
proof -
  obtain as bs where a: "map ent_pair (concat cs) = as @ ent_pair x # bs"
    "\<And>us. map ent_pair (concat (cs[i := ys @ us @ zs])) = as @ map ent_pair us @ bs"
    "ent_key x \<notin> fst ` set as" "ent_key x \<notin> fst ` set bs" using ht_pairs_at [OF assms] by metis
  show ?thesis using map_of_mid_remove [of "ent_pair x" as bs] a(1,3,4) a(2) [of "[]"] by (simp add: ht_map_pairs)
qed

lemma ht_map_replace:
  assumes "ht_repr m p cs" and "i < length cs" and "cs ! i = ys @ x # zs" and k: "ent_key x' = ent_key x"
  shows "ht_map (cs[i := ys @ x' # zs]) = (ht_map cs)(ent_key x \<mapsto> ent_val x')"
proof -
  obtain as bs where a: "map ent_pair (concat cs) = as @ ent_pair x # bs"
    "\<And>us. map ent_pair (concat (cs[i := ys @ us @ zs])) = as @ map ent_pair us @ bs"
    "ent_key x \<notin> fst ` set as" "ent_key x \<notin> fst ` set bs" using ht_pairs_at [OF assms(1-3)] by metis
  show ?thesis using map_of_mid [of "ent_pair x" as bs] map_of_mid [of "ent_pair x'" as bs] a(1,3) a(2) [of "[x']"] k
    by (simp add: ht_map_pairs)
qed

lemma ht_map_insert:
  assumes i: "i < length cs" and k: "ent_key x \<notin> ent_key ` set (concat cs)"
  shows "ht_map (cs[i := x # cs ! i]) = (ht_map cs)(ent_key x \<mapsto> ent_val x)"
proof -
  let ?as = "map ent_pair (concat (take i cs))" and ?bs = "map ent_pair (cs ! i @ concat (drop (Suc i) cs))"
  have f: "fst ` set (map ent_pair l) = ent_key ` set l" for l by (simp add: image_image)
  have e: "concat cs = concat (take i cs) @ cs ! i @ concat (drop (Suc i) cs)" by (rule concat_split(1) [OF i])
  have "set (concat (take i cs)) \<subseteq> set (concat cs)" by (metis e set_append Un_upper1)
  then have "fst (ent_pair x) \<notin> fst ` set ?as" unfolding f using k by auto
  from map_of_mid [OF this, of ?bs] show ?thesis
    unfolding ht_map_pairs concat_split(2) [OF i] by (subst e) simp
qed

text \<open>Looking a key up in the map is looking for it in the chain of its hash.\<close>

lemma ht_map_None:
  assumes r: "ht_repr m p cs" and i: "unat (hashtable_hash key (ht_num_buckets (get_table m p))) = i" "i < length cs"
  shows "ht_map cs key = None \<longleftrightarrow> (\<forall>x \<in> set (cs ! i). ent_key x \<noteq> key)"
proof -
  have "key \<in> ent_key ` set (concat cs) \<longleftrightarrow> (\<exists>x \<in> set (cs ! i). ent_key x = key)"
  proof
    assume "key \<in> ent_key ` set (concat cs)"
    then obtain c x where "c \<in> set cs" "x \<in> set c" "ent_key x = key" by auto
    then obtain j where "j < length cs" "x \<in> set (cs ! j)" "ent_key x = key" by (metis in_set_conv_nth)
    then show "\<exists>x \<in> set (cs ! i). ent_key x = key" using ht_reprD(6,10) [OF r] i by metis
  next
    assume "\<exists>x \<in> set (cs ! i). ent_key x = key"
    moreover have "set (cs ! i) \<subseteq> set (concat cs)" using nth_mem [OF i(2)] by auto
    ultimately show "key \<in> ent_key ` set (concat cs)" by blast
  qed
  then show ?thesis using ht_map_dom [of cs] by (auto simp: domIff)
qed

lemma ht_map_Some:
  assumes r: "ht_repr m p cs" and i: "i < length cs" and c: "cs ! i = ys @ x # zs"
  shows "ht_map cs (ent_key x) = Some (ent_val x)"
proof -
  obtain as bs where "map ent_pair (concat cs) = as @ ent_pair x # bs" "ent_key x \<notin> fst ` set as"
    using ht_pairs_at [OF r i c] by metis
  then show ?thesis using map_of_mid [of "ent_pair x" as bs] by (simp add: ht_map_pairs)
qed

section \<open>Where the operations look\<close>

lemma buckets_resolve:
  assumes h: "heap_inv rg m" and r: "ht_repr m p cs"
  shows "hashtable_bucket_array rg (get_table m p) = Some (rg_base rg + ht_buckets (get_table m p))"
    and "unat j < length cs \<Longrightarrow> bucket_at rg (rg_base rg + ht_buckets (get_table m p)) j
      = unat (ht_buckets (get_table m p)) + unat j * 8"
proof -
  obtain k where k: "heap_abs m (unat (ht_buckets (get_table m p))) = Some k" "unat (ht_num_buckets (get_table m p)) * unat (8 :: u64) \<le> k"
    using ht_reprD(2) [OF r] by auto
  note a = array_span [OF h k]
  show "hashtable_bucket_array rg (get_table m p) = Some (rg_base rg + ht_buckets (get_table m p))"
    using a(1) by (simp add: hashtable_bucket_array_def)
  show "unat j < length cs \<Longrightarrow> bucket_at rg (rg_base rg + ht_buckets (get_table m p)) j
      = unat (ht_buckets (get_table m p)) + unat j * 8"
    using a(2) [of j] ht_reprD(6) [OF r] by (simp add: bucket_at_def)
qed

lemma hash_bound:
  assumes "ht_repr m p cs"
  shows "unat (hashtable_hash key (ht_num_buckets (get_table m p))) < length cs"
  using ht_reprD(3,6) [OF assms] by (simp add: hashtable_hash_def unat_mod)

lemma ht_header_resolves:
  assumes h: "heap_inv rg m" and r: "ht_repr m (unat off) cs"
  shows "hashtable_resolve_header rg off = Some (rg_base rg + off)"
proof -
  obtain n where n: "heap_abs m (unat off) = Some n" "72 \<le> n" using ht_reprD(1) [OF r] by blast
  then show ?thesis using span_resolves(1) [OF h n(1), of 72] by (simp add: hashtable_resolve_header_def)
qed

lemma ht_lock_free: "mtx w (h + 32) = MFree \<Longrightarrow> hashtable_lock E h w = Some (holding E (h + 32) w)"
  by (simp add: hashtable_lock_def container_lock_free)

lemma ht_unlock_own:
  "mtx w (h + 32) = MFree \<Longrightarrow> hashtable_unlock E h (set_bytes m (holding E (h + 32) w)) = set_bytes m w"
  "mtx w (h + 32) = MFree \<Longrightarrow> hashtable_unlock E h (holding E (h + 32) w) = w"
  by (simp_all add: hashtable_unlock_def container_unlock_own)

text \<open>The search ends on every represented table: at the entry with the key and its predecessor, or
  without one.\<close>

lemma ht_search:
  assumes h: "heap_inv rg m" and r: "ht_repr m p cs" and n: "length key < 2 ^ 64"
  defines "idx \<equiv> hashtable_hash key (ht_num_buckets (get_table m p))"
  defines "res \<equiv> hashtable_find rg key m 0 (ld64 m (bucket_at rg (rg_base rg + ht_buckets (get_table m p)) idx))"
  obtains (absent) "res = Some None" "ht_map cs key = None" "\<And>x. x \<in> set (concat cs) \<Longrightarrow> ent_key x \<noteq> key"
    | (present) ys x zs prev off where "res = Some (Some (prev, rg_base rg + off))" "cs ! unat idx = ys @ x # zs" "ent_key x = key"
      "unat off = node_pos x" "if ys = [] then prev = 0 else unat prev = node_pos (last ys)"
      "x \<in> set (concat cs)" "ht_map cs key = Some (ent_val x)"
proof -
  have i: "unat idx < length cs" unfolding idx_def by (rule hash_bound [OF r])
  let ?w = "ld64 m (bucket_at rg (rg_base rg + ht_buckets (get_table m p)) idx)" and ?vs = "ht_val_size (get_table m p)"
  have ch: "chain m (unat ?w) (cs ! unat idx)"
    using ht_reprD(6,9) [OF r] buckets_resolve(2) [OF h r i] i by simp
  have sub: "set (cs ! unat idx) \<subseteq> set (concat cs)" using nth_mem [OF i] by auto
  have ok: "ent_ok m ?vs x" if "x \<in> set (cs ! unat idx)" for x using ht_reprD(8) [OF r] sub that by blast
  show thesis
  proof (cases "\<exists>x \<in> set (cs ! unat idx). ent_key x = key")
    case False
    then have "\<And>x. x \<in> set (cs ! unat idx) \<Longrightarrow> ent_ok m ?vs x \<and> ent_key x \<noteq> key" using ok by blast
    then have a: "res = Some None" unfolding res_def by (rule find_none [OF h n ch])
    have b: "ht_map cs key = None" using ht_map_None [OF r _ i] False by (simp add: idx_def)
    then have "key \<notin> ent_key ` set (concat cs)" using ht_map_dom [of cs] by auto
    then show thesis using absent [OF a b] by blast
  next
    case True
    then obtain x where x: "x \<in> set (cs ! unat idx)" "ent_key x = key" by blast
    then obtain ys zs where c: "cs ! unat idx = ys @ x # zs" by (meson split_list)
    have nx: "key \<notin> ent_key ` set ys" using chain_distinct(1) [OF r i] x(2) unfolding c by simp
    have ys: "ent_ok m ?vs y \<and> ent_key y \<noteq> key" if "y \<in> set ys" for y
      using ok [of y] that imageI [OF that, of ent_key] nx unfolding c by auto
    have ch': "chain m (unat ?w) (ys @ x # zs)" using ch c by simp
    obtain prev off where f: "res = Some (Some (prev, rg_base rg + off))" "unat off = node_pos x"
      "if ys = [] then prev = 0 else unat prev = node_pos (last ys)"
      using find_some [OF h n ch' ys ok [OF x(1)] x(2), of 0] unfolding res_def by blast
    show thesis using present [OF f(1) c x(2) f(2,3)] ht_map_Some [OF r i c] x sub by blast
  qed
qed

section \<open>What the operations compute\<close>

lemma chain_length_runs:
  assumes h: "heap_inv rg m" and c: "chain m (unat off) xs" and o: "\<And>x. x \<in> set xs \<Longrightarrow> ent_ok m vs x"
  shows "hashtable_chain_length rg m off count = Some (count + of_nat (length xs))"
  using c o
proof (induction xs arbitrary: off count)
  case Nil
  then show ?case by (subst hashtable_chain_length.simps) (simp add: word_eq_iff_unat offset_ptr_is_null_def)
next
  case (Cons x xs)
  have x: "ent_ok m vs x" and e: "unat off = node_pos x" using Cons.prems by simp_all
  note er = entry_resolves [OF h x e]
  have "hashtable_chain_length rg m (ld64 m (node_pos x + 16)) (count + 1) = Some (count + 1 + of_nat (length xs))"
    using Cons.prems by (intro Cons.IH) simp_all
  then show ?case using er e by (subst hashtable_chain_length.simps) (simp add: get_hentry_def offset_ptr_is_null_def)
qed

lemma count_buckets_runs:
  assumes h: "heap_inv rg m" and r: "ht_repr m p cs" and i: "unat i \<le> length cs"
  shows "hashtable_count_buckets rg m p (rg_base rg + ht_buckets (get_table m p)) i count
    = Some (count + of_nat (length (concat (drop (unat i) cs))))"
  using i
proof (induction "length cs - unat i" arbitrary: i count)
  case 0
  then have "\<not> i < ht_num_buckets (get_table m p)" using ht_reprD(6) [OF r] by (simp add: word_less_nat_alt)
  then show ?case using 0 by (subst hashtable_count_buckets.simps) simp
next
  case (Suc n)
  then have i: "unat i < length cs" by simp
  then have lt: "i < ht_num_buckets (get_table m p)" using ht_reprD(6) [OF r] by (simp add: word_less_nat_alt)
  have u: "unat (i + 1) = Suc (unat i)"
    using i unat_less_2p64 [of "ht_num_buckets (get_table m p)"] ht_reprD(6) [OF r] by (subst unat_add_nowrap) simp_all
  have ch: "chain m (unat (ld64 m (unat (ht_buckets (get_table m p)) + unat i * 8))) (cs ! unat i)"
    using ht_reprD(6,9) [OF r] i by simp
  have "set (cs ! unat i) \<subseteq> set (concat cs)" using nth_mem [OF i] by auto
  then have "ent_ok m (ht_val_size (get_table m p)) x" if "x \<in> set (cs ! unat i)" for x using ht_reprD(8) [OF r] that by blast
  note cl = chain_length_runs [OF h ch this]
  have d: "drop (unat i) cs = cs ! unat i # drop (Suc (unat i)) cs" using i by (simp add: Cons_nth_drop_Suc)
  show ?case
    using Suc.hyps(1) [of "i + 1" "count + of_nat (length (cs ! unat i))"] Suc.hyps(2) u i lt cl buckets_resolve(2) [OF h r i]
    by (subst hashtable_count_buckets.simps) (simp add: d add.assoc)
qed

lemma ht_query_runs:
  assumes h: "heap_inv rg (bytes w)" and o: "table_ok (bytes w) (unat off)" and l: "mtx w (unat off + 32) = MFree"
  shows "hashtable_length E rg off w = Some (of_nat (card (dom (table_abs (bytes w) (unat off)))), w)"
    and "length key < 2 ^ 64 \<Longrightarrow> hashtable_get E rg off (Some key) True w =
      Some (case table_abs (bytes w) (unat off) key of None \<Rightarrow> (- 1, None) | Some v \<Rightarrow> (0, Some v), w)"
proof -
  let ?m = "bytes w" and ?p = "unat off"
  define cs where "cs = ht_read ?m ?p"
  have r: "ht_repr ?m ?p cs" using o by (simp add: table_ok_def cs_def)
  have ab: "table_abs ?m ?p = ht_map cs" by (simp add: table_abs_def cs_def)
  note br = buckets_resolve [OF h r]
  note df = ht_header_resolves [OF h r] ht_lock_free [where E = E, OF l] ht_unlock_own [where E = E, OF l] br(1) Let_def
  show "hashtable_length E rg off w = Some (of_nat (card (dom (table_abs ?m ?p))), w)"
    using count_buckets_runs [OF h r, of 0 0] by (simp add: hashtable_length_def df ab ht_map_length [OF r])
  assume n: "length key < 2 ^ 64"
  show "hashtable_get E rg off (Some key) True w =
      Some (case table_abs ?m ?p key of None \<Rightarrow> (- 1, None) | Some v \<Rightarrow> (0, Some v), w)"
  proof (cases rule: ht_search [OF h r n])
    case 1
    then show ?thesis by (simp add: hashtable_get_def df ab offset_ptr_null_def)
  next
    case (2 ys x zs prev eoff)
    obtain nv where v: "heap_abs ?m (val_pos x) = Some nv" "unat (ht_val_size (get_table ?m ?p)) \<le> nv"
      "unat (ld64 ?m (node_pos x + 8)) = val_pos x" "rd ?m (val_pos x) (unat (ht_val_size (get_table ?m ?p))) = ent_val x"
      using ent_okD [OF ht_reprD(8) [OF r 2(6)]] by metis
    have "heap_abs ?m (unat (ld64 ?m (node_pos x + 8))) = Some nv" using v(1,3) by simp
    from span_resolves(1) [OF h this v(2)] show ?thesis using 2(1,4,7) v(3,4)
      by (simp add: hashtable_get_def df ab offset_ptr_null_def get_hentry_def)
  qed
qed

end
