(* ===== verification/HashTableOps.thy ===== *)
theory HashTableOps
  imports HashTableMap
begin

text \<open>
  Put and delete as steps on the finite map, and sequences of operations on one table.
\<close>

section \<open>Put and delete\<close>

text \<open>What an operation leaves behind: a table that stands for \<open>M\<close>, with the same sizes.\<close>

definition table_step :: "ShmRegion \<Rightarrow> nat \<Rightarrow> (cstr \<rightharpoonup> u8 list) \<Rightarrow> mem \<Rightarrow> mem \<Rightarrow> bool" where
  "table_step rg p M m m' \<longleftrightarrow>
     heap_inv rg m' \<and> table_ok m' p \<and> table_abs m' p = M \<and> get_table m' p = get_table m p \<and>
     owner_step (table_spans m p) (table_spans m' p) m m'"

lemma ht_step_table:
  assumes "ht_step rg p (ht_read m p) cs m m'"
  shows "table_step rg p (ht_map cs) m m'"
proof -
  have h: "heap_inv rg m'" and r: "ht_repr m' p cs" and g: "get_table m' p = get_table m p"
    using assms by (simp_all add: ht_step_def)
  have "ht_read m' p = cs" by (rule ht_repr_read [OF h r])
  then show ?thesis using assms r g by (simp add: table_step_def ht_step_def table_ok_def table_abs_def table_spans_def ht_spans_def)
qed

lemma table_kept:
  assumes h: "heap_inv rg m'" and o: "table_ok m p" and s: "owner_step {} {} m m'"
  shows "table_step rg p (table_abs m p) m m'"
proof -
  have r: "ht_repr m p (ht_read m p)" using o by (simp add: table_ok_def)
  note k = ht_kept_fresh [OF r s]
  have "owner_step (ht_spans m p (ht_read m p)) (ht_spans m p (ht_read m p)) m m'"
    using private_step_widen [OF s, of "ht_spans m p (ht_read m p)"] by simp
  then show ?thesis using h k ht_step_table [of rg p m "ht_read m p" m'] by (simp add: ht_step_def table_abs_def)
qed

text \<open>The table's lock is held while it is changed.\<close>

lemma ht_holding:
  assumes h: "heap_inv rg (bytes w)" and r: "ready E w" and o: "table_ok (bytes w) p"
  shows "heap_inv rg (bytes (holding E (p + 32) w))" and "ready E (holding E (p + 32) w)"
    and "ht_repr (bytes (holding E (p + 32) w)) p (ht_read (bytes w) p)"
proof -
  have d: "ht_repr (bytes w) p (ht_read (bytes w) p)" using o by (simp add: table_ok_def)
  then obtain n where "heap_abs (bytes w) p = Some n" using ht_reprD(1) by blast
  then have "2768 \<le> p" by (rule heap_abs_bounds(1) [OF h])
  then show "ready E (holding E (p + 32) w)" using r by (simp add: ready_set_mtx)
  show "heap_inv rg (bytes (holding E (p + 32) w))" "ht_repr (bytes (holding E (p + 32) w)) p (ht_read (bytes w) p)"
    using h d by simp_all
qed

lemma hashtable_put_runs:
  assumes h: "heap_inv rg (bytes w)" and r: "ready E w" and o: "table_ok (bytes w) (unat off)" and l: "mtx w (unat off + 32) = MFree"
    and key: "0 \<notin> set key" "length key \<le> unat (ht_key_size (get_table (bytes w) (unat off)))" "length key < 2 ^ 32"
    and val: "length val = unat (ht_val_size (get_table (bytes w) (unat off)))"
      "unat (ht_val_size (get_table (bytes w) (unat off))) \<le> 2 ^ 62"
  obtains (put) m' where "hashtable_put E rg off (Some key) (Some val) w = Some (0, set_bytes m' w)"
      "table_step rg (unat off) ((table_abs (bytes w) (unat off))(key \<mapsto> val)) (bytes w) m'"
      "pays spare (put_cost (ht_val_size (get_table (bytes w) (unat off))) key) (bytes w) m'"
    | (refused) m' where "hashtable_put E rg off (Some key) (Some val) w = Some (- 1, set_bytes m' w)"
      "table_abs (bytes w) (unat off) key = None" "heap_inv rg m'" "owner_step {} {} (bytes w) m'"
      "\<not> spare (N + put_cost (ht_val_size (get_table (bytes w) (unat off))) key) (bytes w)"
proof -
  let ?m = "bytes w" and ?p = "unat off" let ?w1 = "holding E (?p + 32) w" and ?t = "get_table ?m ?p"
  define cs where "cs = ht_read ?m ?p"
  have t: "ht_repr ?m ?p cs" using o by (simp add: table_ok_def cs_def)
  have ab: "table_abs ?m ?p = ht_map cs" by (simp add: table_abs_def cs_def)
  note hold = ht_holding [OF h r o, folded cs_def] and br = buckets_resolve [OF h t]
  define idx where "idx = hashtable_hash key (ht_num_buckets ?t)"
  have i: "unat idx < length cs" unfolding idx_def by (rule hash_bound [OF t])
  have vr: "valid_request (ht_val_size ?t) 16" using val(2) ht_reprD(5) [OF t] by (auto simp: valid_request_def intro: exI [of _ 4])
  have k64: "length key < 2 ^ 64" using key(3) by simp
  note df = hashtable_put_def ht_header_resolves [OF h t] ht_lock_free [where E = E, OF l] ht_unlock_own [where E = E, OF l]
    br(1) Let_def idx_def [symmetric] br(2) [OF i] offset_ptr_null_def
  show thesis
  proof (cases rule: ht_search [OF h t k64])
    case 1
    have f: "hashtable_find rg key ?m 0 (ld64 ?m (unat (ht_buckets ?t) + unat idx * 8)) = Some None"
      using 1(1) br(2) [OF i] by (simp add: idx_def)
    have new: "key \<notin> ent_key ` set (concat cs)" using 1(3) by blast
    have args: "length key \<le> unat (ht_key_size (get_table (bytes ?w1) ?p))" "length val = unat (ht_val_size (get_table (bytes ?w1) ?p))"
      "valid_request (ht_val_size (get_table (bytes ?w1) ?p)) 16"
      "unat (hashtable_hash key (ht_num_buckets (get_table (bytes ?w1) ?p))) = unat idx"
      using key(2) val(1) vr by (simp_all add: idx_def)
    show thesis
    proof (cases rule: hashtable_insert_runs [OF hold i key(1) args(1) key(3) args(2-4) new, where N = N])
      case a: (1 x m')
      have "table_step rg ?p (ht_map (cs[unat idx := x # cs ! unat idx])) ?m m'"
        using a(2) ht_step_table [of rg ?p ?m _ m'] by (simp add: cs_def)
      moreover have "ht_map (cs[unat idx := x # cs ! unat idx]) = (ht_map cs)(key \<mapsto> val)"
        using ht_map_insert [OF i, of x] new a(3,4) by simp
      ultimately show thesis using put [of m'] a(1,5) f by (simp add: df ab)
    next
      case a: (2 m')
      then show thesis using refused [of m'] f 1(2) by (simp add: df ab)
    qed
  next
    case (2 ys x zs prev eoff)
    have c: "cs ! unat idx = ys @ x # zs" using 2(2) by (simp add: idx_def)
    have f: "hashtable_find rg key ?m 0 (ld64 ?m (unat (ht_buckets ?t) + unat idx * 8)) = Some (Some (prev, rg_base rg + eoff))"
      using 2(1) br(2) [OF i] by (simp add: idx_def)
    have args: "length val = unat (ht_val_size (get_table (bytes ?w1) ?p))" "valid_request (ht_val_size (get_table (bytes ?w1) ?p)) 16"
      using val(1) vr by simp_all
    obtain v m' where u: "hashtable_update E rg ?p (node_pos x) val ?w1 = Some (0, set_bytes m' ?w1)"
      "ht_step rg ?p cs (cs[unat idx := ys @ x\<lparr>val_pos := v, ent_val := val\<rparr> # zs]) (bytes ?w1) m'"
      "pays spare (alloc_cost (ht_val_size (get_table (bytes ?w1) ?p))) (bytes ?w1) m'"
      by (rule hashtable_update_runs [OF hold i c args])
    have "table_step rg ?p (ht_map (cs[unat idx := ys @ x\<lparr>val_pos := v, ent_val := val\<rparr> # zs])) ?m m'"
      using u(2) ht_step_table [of rg ?p ?m _ m'] by (simp add: cs_def)
    moreover have "pays spare (put_cost (ht_val_size ?t) key) ?m m'"
      using pays_mono [OF u(3), of "put_cost (ht_val_size ?t) key"] by (simp add: put_cost_def)
    ultimately show thesis using put [of m'] u(1) f 2(3,4) ht_map_replace [OF t i c, of "x\<lparr>val_pos := v, ent_val := val\<rparr>"]
      by (simp add: df ab)
  qed
qed

lemma hashtable_delete_runs:
  assumes h: "heap_inv rg (bytes w)" and r: "ready E w" and o: "table_ok (bytes w) (unat off)" and l: "mtx w (unat off + 32) = MFree"
    and n: "length key < 2 ^ 64"
  obtains m' where "hashtable_delete E rg off (Some key) w
      = Some (if table_abs (bytes w) (unat off) key = None then - 1 else 0, set_bytes m' w)"
    "table_step rg (unat off) ((table_abs (bytes w) (unat off))(key := None)) (bytes w) m'" "pays spare 0 (bytes w) m'"
proof -
  let ?m = "bytes w" and ?p = "unat off" let ?w1 = "holding E (?p + 32) w" and ?t = "get_table ?m ?p"
  define cs where "cs = ht_read ?m ?p"
  have t: "ht_repr ?m ?p cs" using o by (simp add: table_ok_def cs_def)
  have ab: "table_abs ?m ?p = ht_map cs" by (simp add: table_abs_def cs_def)
  note hold = ht_holding [OF h r o, folded cs_def] and br = buckets_resolve [OF h t]
  define idx where "idx = hashtable_hash key (ht_num_buckets ?t)"
  have i: "unat idx < length cs" unfolding idx_def by (rule hash_bound [OF t])
  note df = hashtable_delete_def ht_header_resolves [OF h t] ht_lock_free [where E = E, OF l] ht_unlock_own [where E = E, OF l]
    br(1) Let_def idx_def [symmetric] br(2) [OF i] offset_ptr_null_def
  show thesis
  proof (cases rule: ht_search [OF h t n])
    case 1
    have "hashtable_find rg key ?m 0 (ld64 ?m (unat (ht_buckets ?t) + unat idx * 8)) = Some None"
      using 1(1) br(2) [OF i] by (simp add: idx_def)
    moreover have "(ht_map cs)(key := None) = ht_map cs" using 1(2) by (simp add: fun_upd_idem)
    ultimately show thesis using that [of ?m] 1(2) table_kept [OF h o] by (simp add: df ab)
  next
    case (2 ys x zs prev eoff)
    have c: "cs ! unat idx = ys @ x # zs" using 2(2) by (simp add: idx_def)
    have f: "hashtable_find rg key ?m 0 (ld64 ?m (unat (ht_buckets ?t) + unat idx * 8)) = Some (Some (prev, rg_base rg + eoff))"
      using 2(1) br(2) [OF i] by (simp add: idx_def)
    obtain m' where d: "hashtable_free_entry E rg ?p (rg_base rg + eoff) (set_bytes
        (hashtable_unlink rg (unat (ht_buckets (get_table (bytes ?w1) ?p)) + unat idx * 8) prev (node_pos x) (bytes ?w1)) ?w1)
        = Some (set_bytes m' ?w1)"
      "ht_step rg ?p cs (cs[unat idx := ys @ zs]) (bytes ?w1) m'" "pays spare 0 (bytes ?w1) m'"
      by (rule delete_entry_runs [OF hold i c 2(4,5)])
    have "table_step rg ?p (ht_map (cs[unat idx := ys @ zs])) ?m m'"
      using d(2) ht_step_table [of rg ?p ?m _ m'] by (simp add: cs_def)
    then show thesis using that [of m'] d(1,3) f 2(3,4,7) ht_map_remove [OF t i c] by (simp add: df ab)
  qed
qed

section \<open>Sequences of operations\<close>

datatype table_op = TPut cstr "u8 list" | TGet cstr | TDelete cstr | TLength

datatype table_res = TCode int | TGot int "u8 list option" | TCount u64

fun table_run :: "env \<Rightarrow> ShmRegion \<Rightarrow> OffsetPtr \<Rightarrow> table_op \<Rightarrow> world \<Rightarrow> table_res result" where
  "table_run E rg off (TPut k v) w = map_option (apfst TCode) (hashtable_put E rg off (Some k) (Some v) w)"
| "table_run E rg off (TGet k) w = map_option (apfst (\<lambda>(c, out). TGot c out)) (hashtable_get E rg off (Some k) True w)"
| "table_run E rg off (TDelete k) w = map_option (apfst TCode) (hashtable_delete E rg off (Some k) w)"
| "table_run E rg off TLength w = map_option (apfst TCount) (hashtable_length E rg off w)"

text \<open>The abstract map. Only the put of a new key may be refused, and then changes nothing.\<close>

fun table_spec :: "table_op \<Rightarrow> (cstr \<rightharpoonup> u8 list) \<Rightarrow> table_res \<Rightarrow> (cstr \<rightharpoonup> u8 list) \<Rightarrow> bool" where
  "table_spec (TPut k v) M r M' \<longleftrightarrow> r = TCode 0 \<and> M' = M(k \<mapsto> v) \<or> r = TCode (- 1) \<and> M k = None \<and> M' = M"
| "table_spec (TGet k) M r M' \<longleftrightarrow> r = (case M k of None \<Rightarrow> TGot (- 1) None | Some v \<Rightarrow> TGot 0 (Some v)) \<and> M' = M"
| "table_spec (TDelete k) M r M' \<longleftrightarrow> r = TCode (if M k = None then - 1 else 0) \<and> M' = M(k := None)"
| "table_spec TLength M r M' \<longleftrightarrow> r = TCount (of_nat (card (dom M))) \<and> M' = M"

fun table_op_ok :: "HashTableHeader \<Rightarrow> table_op \<Rightarrow> bool" where
  "table_op_ok t (TPut k v) \<longleftrightarrow>
     0 \<notin> set k \<and> length k \<le> unat (ht_key_size t) \<and> length k < 2 ^ 32 \<and> length v = unat (ht_val_size t)"
| "table_op_ok t (TGet k) \<longleftrightarrow> length k < 2 ^ 64"
| "table_op_ok t (TDelete k) \<longleftrightarrow> length k < 2 ^ 64"
| "table_op_ok t TLength \<longleftrightarrow> True"

text \<open>The states that operations on one table lead to from \<open>w0\<close>.\<close>

definition table_inv :: "env \<Rightarrow> ShmRegion \<Rightarrow> OffsetPtr \<Rightarrow> world \<Rightarrow> world \<Rightarrow> bool" where
  "table_inv E rg off w0 w \<longleftrightarrow>
     (\<exists>m. w = set_bytes m w0 \<and> heap_inv rg m \<and> table_ok m (unat off) \<and>
       get_table m (unat off) = get_table (bytes w0) (unat off) \<and>
       owner_step (table_spans (bytes w0) (unat off)) (table_spans m (unat off)) (bytes w0) m) \<and>
     heap_inv rg (bytes w0) \<and> ready E w0 \<and> mtx w0 (unat off + 32) = MFree \<and>
     unat (ht_val_size (get_table (bytes w0) (unat off))) \<le> 2 ^ 62"

lemma table_invE:
  assumes "table_inv E rg off w0 w"
  obtains "heap_inv rg (bytes w)" "ready E w" "table_ok (bytes w) (unat off)" "mtx w (unat off + 32) = MFree"
    "unat (ht_val_size (get_table (bytes w) (unat off))) \<le> 2 ^ 62"
    "get_table (bytes w) (unat off) = get_table (bytes w0) (unat off)"
  using assms by (auto simp: table_inv_def)

lemma table_inv_step:
  assumes "table_inv E rg off w0 w" and "table_step rg (unat off) M (bytes w) m"
  shows "table_inv E rg off w0 (set_bytes m w)" and "table_abs m (unat off) = M"
  using assms svc.step_trans [of rg "bytes w0"] by (fastforce simp: table_inv_def table_step_def)+

interpretation tbl: simulation "table_inv E rg off w0" "\<lambda>w. table_abs (bytes w) (unat off)"
    "table_op_ok (get_table (bytes w0) (unat off))" "table_run E rg off" table_spec
  for E rg off w0
proof unfold_locales
  fix s x
  assume i: "table_inv E rg off w0 s" and k: "table_op_ok (get_table (bytes w0) (unat off)) x"
  obtain h: "heap_inv rg (bytes s)" "ready E s" "table_ok (bytes s) (unat off)" "mtx s (unat off + 32) = MFree"
    and v: "unat (ht_val_size (get_table (bytes s) (unat off))) \<le> 2 ^ 62"
    and g: "get_table (bytes s) (unat off) = get_table (bytes w0) (unat off)" using table_invE [OF i] .
  note q = ht_query_runs [where E = E, OF h(1,3,4)]
  show "\<exists>r s'. table_run E rg off x s = Some (r, s') \<and> table_inv E rg off w0 s' \<and>
     table_spec x (table_abs (bytes s) (unat off)) r (table_abs (bytes s') (unat off))"
  proof (cases x)
    case (TPut key val)
    then have a: "0 \<notin> set key" "length key \<le> unat (ht_key_size (get_table (bytes s) (unat off)))" "length key < 2 ^ 32"
      "length val = unat (ht_val_size (get_table (bytes s) (unat off)))" using k g by simp_all
    show ?thesis
    proof (cases rule: hashtable_put_runs [OF h a v, where N = 0])
      case (1 m)
      then show ?thesis using table_inv_step [OF i 1(2)] TPut by simp
    next
      case (2 m)
      then show ?thesis using table_inv_step [OF i table_kept [OF 2(3) h(3) 2(4)]] TPut by simp
    qed
  next
    case (TGet key)
    then show ?thesis using q(2) [of key] i k by (cases "table_abs (bytes s) (unat off) key") simp_all
  next
    case (TDelete key)
    then have n: "length key < 2 ^ 64" using k by simp
    obtain m where "hashtable_delete E rg off (Some key) s = Some (if table_abs (bytes s) (unat off) key = None then - 1 else 0, set_bytes m s)"
      "table_step rg (unat off) ((table_abs (bytes s) (unat off))(key := None)) (bytes s) m"
      by (rule hashtable_delete_runs [OF h n])
    then show ?thesis using table_inv_step [OF i] TDelete by simp
  next
    case TLength
    then show ?thesis using q(1) i by simp
  qed
qed

text \<open>C4: A hash table is a finite map from keys to values: any sequence of puts, lookups, deletions and
  length queries on a table that satisfies its invariant returns, and its results are those of the
  abstract map. Only the put of a new key may be refused, and then changes nothing; replacing the
  value of a key and deleting a key never fail. Afterwards the invariant holds, the mutex is free, no
  span is lost and no span of another owner has changed.\<close>

theorem hashtable_sequence_refines:
  assumes h: "heap_inv rg (bytes w)" and r: "ready E w" and o: "table_ok (bytes w) (unat off)"
    and l: "mtx w (unat off + 32) = MFree" and v: "unat (ht_val_size (get_table (bytes w) (unat off))) \<le> 2 ^ 62"
    and k: "list_all (table_op_ok (get_table (bytes w) (unat off))) ops"
  shows "\<exists>rs m'. run_ops (table_run E rg off) ops w = Some (rs, set_bytes m' w) \<and>
     allowed table_spec ops (table_abs (bytes w) (unat off)) rs (table_abs m' (unat off)) \<and>
     heap_inv rg m' \<and> table_ok m' (unat off) \<and>
     owner_step (table_spans (bytes w) (unat off)) (table_spans m' (unat off)) (bytes w) m'"
proof -
  have "table_inv E rg off w w" using h r o l v unfolding table_inv_def by (metis private_step_refl set_bytes_same)
  from tbl.run_allowed [OF this k] obtain rs w' where
    "run_ops (table_run E rg off) ops w = Some (rs, w')" "table_inv E rg off w w'"
    "allowed table_spec ops (table_abs (bytes w) (unat off)) rs (table_abs (bytes w') (unat off))" by blast
  then show ?thesis by (auto simp: table_inv_def)
qed

section \<open>Funded operations\<close>

text \<open>What the operations do when no allocation is refused, and what a put takes from the heap.\<close>

fun table_exact :: "table_op \<Rightarrow> (cstr \<rightharpoonup> u8 list) \<Rightarrow> table_res \<times> (cstr \<rightharpoonup> u8 list)" where
  "table_exact (TPut k v) M = (TCode 0, M(k \<mapsto> v))"
| "table_exact (TGet k) M = (case M k of None \<Rightarrow> TGot (- 1) None | Some v \<Rightarrow> TGot 0 (Some v), M)"
| "table_exact (TDelete k) M = (TCode (if M k = None then - 1 else 0), M(k := None))"
| "table_exact TLength M = (TCount (of_nat (card (dom M))), M)"

fun table_price :: "u64 \<Rightarrow> table_op \<Rightarrow> nat" where
  "table_price vs (TPut k v) = put_cost vs k"
| "table_price vs (TGet k) = 0"
| "table_price vs (TDelete k) = 0"
| "table_price vs TLength = 0"

interpretation tblf: funded_simulation "table_inv E rg off w0" "\<lambda>w. table_abs (bytes w) (unat off)"
    "table_op_ok (get_table (bytes w0) (unat off))" "table_run E rg off" table_spec
    "\<lambda>N w. spare N (bytes w)" "\<lambda>x a. table_price (ht_val_size (get_table (bytes w0) (unat off))) x" table_exact
  for E rg off w0
proof unfold_locales
  fix s :: world and x N
  assume i: "table_inv E rg off w0 s" and k: "table_op_ok (get_table (bytes w0) (unat off)) x"
    and f: "spare (N + table_price (ht_val_size (get_table (bytes w0) (unat off))) x) (bytes s)"
  obtain h: "heap_inv rg (bytes s)" "ready E s" "table_ok (bytes s) (unat off)" "mtx s (unat off + 32) = MFree"
    and v: "unat (ht_val_size (get_table (bytes s) (unat off))) \<le> 2 ^ 62"
    and g: "get_table (bytes s) (unat off) = get_table (bytes w0) (unat off)" using table_invE [OF i] .
  note q = ht_query_runs [where E = E, OF h(1,3,4)]
  show "\<exists>s'. table_run E rg off x s = Some (fst (table_exact x (table_abs (bytes s) (unat off))), s') \<and>
     table_inv E rg off w0 s' \<and> table_abs (bytes s') (unat off) = snd (table_exact x (table_abs (bytes s) (unat off))) \<and>
     spare N (bytes s')"
  proof (cases x)
    case (TPut key val)
    then have a: "0 \<notin> set key" "length key \<le> unat (ht_key_size (get_table (bytes s) (unat off)))" "length key < 2 ^ 32"
      "length val = unat (ht_val_size (get_table (bytes s) (unat off)))" using k g by simp_all
    have f': "spare (N + put_cost (ht_val_size (get_table (bytes s) (unat off))) key) (bytes s)" using f g TPut by simp
    show ?thesis
    proof (cases rule: hashtable_put_runs [OF h a v, where N = N])
      case (1 m)
      then show ?thesis using table_inv_step [OF i 1(2)] paysD [OF 1(3) f'] TPut by simp
    next
      case 2
      then show ?thesis using f' by simp
    qed
  next
    case (TGet key)
    then show ?thesis using q(2) [of key] i k f by (cases "table_abs (bytes s) (unat off) key") simp_all
  next
    case (TDelete key)
    then have n: "length key < 2 ^ 64" using k by simp
    obtain m where m: "hashtable_delete E rg off (Some key) s = Some (if table_abs (bytes s) (unat off) key = None then - 1 else 0, set_bytes m s)"
      "table_step rg (unat off) ((table_abs (bytes s) (unat off))(key := None)) (bytes s) m" "pays spare 0 (bytes s) m"
      by (rule hashtable_delete_runs [OF h n])
    have "spare (N + 0) (bytes s)" using f TDelete by simp
    from paysD [OF m(3) this] show ?thesis using table_inv_step [OF i m(2)] m(1) TDelete by simp
  next
    case TLength
    then show ?thesis using q(1) i f by simp
  qed
qed

text \<open>C12: While the heap has a free block that covers the bill, no put is refused: on a table that
  satisfies its invariant, a sequence of operations whose puts are paid for by the largest free block
  returns exactly the results of a finite map, and leaves the rest of that block. Lookups and
  deletions cost nothing.\<close>

theorem hashtable_sequence_funded:
  assumes h: "heap_inv rg (bytes w)" and r: "ready E w" and o: "table_ok (bytes w) (unat off)"
    and l: "mtx w (unat off + 32) = MFree" and v: "unat (ht_val_size (get_table (bytes w) (unat off))) \<le> 2 ^ 62"
    and k: "list_all (table_op_ok (get_table (bytes w) (unat off))) ops"
    and f: "spare (N + sum_list (map (table_price (ht_val_size (get_table (bytes w) (unat off)))) ops)) (bytes w)"
  shows "\<exists>m'. run_ops (table_run E rg off) ops w
       = Some (fst (run_spec table_exact ops (table_abs (bytes w) (unat off))), set_bytes m' w) \<and>
     table_abs m' (unat off) = snd (run_spec table_exact ops (table_abs (bytes w) (unat off))) \<and>
     heap_inv rg m' \<and> table_ok m' (unat off) \<and> spare N m'"
proof -
  have "table_inv E rg off w w" using h r o l v unfolding table_inv_def by (metis private_step_refl set_bytes_same)
  from tblf.run_funded [OF this k] f show ?thesis by (fastforce simp: bill_flat table_inv_def)
qed

end
