(* ===== verification/HashTableLife.thy ===== *)
theory HashTableLife
  imports HashTableOps
begin

text \<open>
  Creating and destroying a hash table. Creation establishes the empty map on two fresh spans;
  destruction walks every chain and releases the spans of every entry and the bucket array. The
  header object is released exactly when the fields that overlay the object header allow it.
\<close>

section \<open>Creation\<close>

definition table_header :: "nat \<Rightarrow> u64 \<Rightarrow> u64 \<Rightarrow> u64 \<Rightarrow> mem \<Rightarrow> mem" where
  "table_header p nb ks vs m = st64 (st64 (st64 (st64 m p nb) (p + 8) ks) (p + 16) vs) (p + 24) 0"

lemma table_header_facts:
  "get_table (table_header p nb ks vs m) p = \<lparr>ht_num_buckets = nb, ht_key_size = ks, ht_val_size = vs, ht_buckets = 0\<rparr>"
  "x < p \<or> p + 32 \<le> x \<Longrightarrow> table_header p nb ks vs m x = m x"
  by (simp_all add: table_header_def get_table_def) (auto simp: table_header_def st64_outside)

lemma all_spans_empty [simp]: "all_spans (concat (replicate n [])) = []" "concat (replicate n []) = []"
  by (induction n) simp_all

lemma ld64_zeroed: "a \<le> x \<Longrightarrow> x + 8 \<le> a + n \<Longrightarrow> ld64 (zero m a n) x = 0"
  using ld64_same_on [of "\<lambda>_. 0" "zero m a n" x] by (simp add: same_on_def zero_def ld64_zeros)

text \<open>The bytes after the bucket array is granted: zeroed, and its offset stored in the header.\<close>

lemma table_create_buckets:
  assumes h: "heap_inv rg m5" and p: "heap_abs m5 p = Some n" "72 \<le> n"
    and g5: "get_table m5 p = \<lparr>ht_num_buckets = nb, ht_key_size = ks, ht_val_size = vs, ht_buckets = 0\<rparr>"
    and c: "0 < unat nb" "unat nb \<le> 2 ^ 59" "0 < unat ks" "0 < unat vs"
    and z: "grants rg (nb * 8) m5 d (zero m6 (unat d) (unat (nb * 8)))"
  defines "m8 \<equiv> st64 (zero m6 (unat d) (unat (nb * 8))) (p + 24) d"
  shows "heap_inv rg m8" and "ht_repr m8 p (replicate (unat nb) [])"
    and "get_table m8 p = \<lparr>ht_num_buckets = nb, ht_key_size = ks, ht_val_size = vs, ht_buckets = d\<rparr>"
    and "owner_step {p} {p, unat d} m5 m8" and "pays spare (alloc_cost (nb * 8)) m5 m8"
proof -
  let ?m7 = "zero m6 (unat d) (unat (nb * 8))"
  note dz = grantsD [OF z]
  have u: "unat (nb * 8) = unat nb * 8" using c(2) by (subst unat_mult_nowrap) simp_all
  obtain k where k: "heap_abs ?m7 (unat d) = Some k" "unat nb * 8 \<le> k" using dz(3) u by auto
  have pd: "p \<noteq> unat d" using dz(8) [OF p(1)] .
  note p7 = dz(7) [OF p(1)]
  have so: "m8 x = ?m7 x" if "x < p \<or> p + n \<le> x" for x
    using that p(2) by (auto simp: m8_def intro: st64_outside)
  note s = svc.own_step [OF dz(1) p7 so]
  show "heap_inv rg m8" by (rule s(1))
  show "pays spare (alloc_cost (nb * 8)) m5 m8" using dz(9) s(6) by (simp add: pays_def)
  have "same_on m5 ?m7 p (p + n)" using private_step_live(3) [OF dz(6) p(1)] by simp
  then have "get_table ?m7 p = get_table m5 p" using p(2) by (intro get_table_same) (auto intro: same_on_sub)
  then show g: "get_table m8 p = \<lparr>ht_num_buckets = nb, ht_key_size = ks, ht_val_size = vs, ht_buckets = d\<rparr>"
    using g5 by (auto simp: m8_def get_table_def)
  have d8: "same_on ?m7 m8 (unat d) (unat d + k)" using private_step_live(3) [OF s(3) k(1)] pd by simp
  have "ld64 m8 (unat d + i * 8) = 0" if i: "i < unat nb" for i
  proof -
    have b: "i * 8 + 8 \<le> unat nb * 8" using i by linarith
    then have "ld64 m8 (unat d + i * 8) = ld64 ?m7 (unat d + i * 8)"
      using d8 k(2) by (intro ld64_same_on) (auto intro: same_on_sub)
    also have "\<dots> = 0" using b u by (intro ld64_zeroed) simp_all
    finally show ?thesis .
  qed
  then show "ht_repr m8 p (replicate (unat nb) [])"
    using c p k pd s(2) p7 by (simp add: ht_repr_def Let_def g)
  have "owner_step {p} {p, unat d} m5 ?m7" using private_step_widen [OF dz(6), of "{p}"] by (simp add: insert_commute)
  moreover have "owner_step {p, unat d} {p, unat d} ?m7 m8"
    using private_step_widen [OF s(3), of "{unat d}"] pd by (simp add: insert_commute)
  ultimately show "owner_step {p} {p, unat d} m5 m8" by (rule svc.step_trans [OF h])
qed

text \<open>What creation leaves behind. On success: the empty map, on two fresh spans. On failure: nothing,
  except that a header object stays allocated when the overlaid fields do not pass for an object.\<close>

definition table_created :: "ShmRegion \<Rightarrow> u64 \<Rightarrow> u64 \<Rightarrow> u64 \<Rightarrow> mem \<Rightarrow> OffsetPtr \<Rightarrow> mem \<Rightarrow> bool" where
  "table_created rg nb ks vs m off m' \<longleftrightarrow>
     heap_inv rg m' \<and>
     (if off \<noteq> 0 then
        table_ok m' (unat off) \<and> table_abs m' (unat off) = Map.empty \<and>
        (\<exists>d. get_table m' (unat off) = \<lparr>ht_num_buckets = nb, ht_key_size = ks, ht_val_size = vs, ht_buckets = d\<rparr> \<and>
           table_spans m' (unat off) = {unat off, unat d}) \<and>
        owner_step {} (table_spans m' (unat off)) m m'
      else \<exists>S. owner_step {} S m m' \<and>
             (S = {} \<or> (\<exists>p n. S = {p} \<and> heap_abs m' p = Some n \<and> (n < 16 + unat nb mod 4294967296 \<or> odd (unat ks)))))"

lemma table_createdI:
  assumes h: "heap_inv rg m'" and r: "ht_repr m' (unat off) (replicate n [])" and nz: "off \<noteq> 0"
    and g: "get_table m' (unat off) = \<lparr>ht_num_buckets = nb, ht_key_size = ks, ht_val_size = vs, ht_buckets = d\<rparr>"
    and s: "owner_step {} {unat off, unat d} m m'"
  shows "table_created rg nb ks vs m off m'"
proof -
  have rd: "ht_read m' (unat off) = replicate n []" by (rule ht_repr_read [OF h r])
  then have "table_spans m' (unat off) = {unat off, unat d}" by (simp add: table_spans_def ht_spans_def g)
  moreover have "table_abs m' (unat off) = Map.empty" by (simp add: table_abs_def rd ht_map_pairs)
  ultimately show ?thesis using h r nz g s by (simp add: table_created_def table_ok_def rd)
qed

text \<open>Whether the header object is released: the overlaid size, the low half of the bucket count, fits
  the span and the overlaid freed flag, bit 0 of the key size, is clear.\<close>

definition table_header_released :: "mem \<Rightarrow> nat \<Rightarrow> bool" where
  "table_header_released m p \<longleftrightarrow>
     (\<exists>n. heap_abs m p = Some n \<and> 16 + unat (ht_num_buckets (get_table m p)) mod 4294967296 \<le> n) \<and>
     even (unat (ht_key_size (get_table m p)))"

lemma table_object_at: "object_at m p \<longleftrightarrow> table_header_released m p"
  by (simp add: table_header_released_def overlaid_object_at get_table_def)

text \<open>When the bucket array is refused, the header object is given back if it passes for an object.\<close>

lemma table_create_undo:
  assumes h: "heap_inv rg m" and w: "heap_inv rg (bytes w)" "ready E w" and s: "owner_step {} {unat off} m (bytes w)"
    and l: "heap_abs (bytes w) (unat off) = Some n" and nz: "off \<noteq> 0"
    and g: "ht_num_buckets (get_table (bytes w) (unat off)) = nb" "ht_key_size (get_table (bytes w) (unat off)) = ks"
  obtains st m' where "object_store_free E (Some rg) off w = Some (st, set_bytes m' w)" "table_created rg nb ks vs m 0 m'"
proof (cases "object_at (bytes w) (unat off)")
  case True
  from object_free_steps(1) [OF w nz this] obtain m' where
    f: "object_store_free E (Some rg) off w = Some (STATUS_OK, set_bytes m' w)" "heap_inv rg m'"
      "owner_step {unat off} {} (bytes w) m'" by auto
  have "owner_step {} {} m m'" using svc.step_trans [OF h s f(3)] .
  then have "table_created rg nb ks vs m 0 m'" using f(2) by (auto simp: table_created_def)
  then show thesis using that f(1) by blast
next
  case False
  then have "object_store_free E (Some rg) off w = Some (STATUS_NOT_FOUND, set_bytes (bytes w) w)"
    using object_free_steps(2) [OF w nz] by simp
  moreover have "n < 16 + unat nb mod 4294967296 \<or> odd (unat ks)"
    using False l g by (auto simp: table_object_at table_header_released_def)
  then have "table_created rg nb ks vs m 0 (bytes w)" using w(1) s l by (auto simp: table_created_def)
  ultimately show thesis using that by blast
qed

lemma table_create_runs:
  assumes h: "heap_inv rg (bytes w)" and r: "ready E w" and ini: "\<forall>a. rc_mutex_init E a = 0"
    and c: "0 < unat nb" "unat nb \<le> 2 ^ 59" "0 < unat ks" "0 < unat vs"
  obtains off w' where "hashtable_create E rg nb ks vs w = Some (off, w')" "table_created rg nb ks vs (bytes w) off (bytes w')"
    "off \<noteq> 0 \<longleftrightarrow> room 88 (bytes w) \<and>
      (\<exists>obj w1. object_store_alloc E (Some rg) 1 72 True w = Some ((STATUS_OK, obj), w1) \<and> room (nb * 8) (bytes w1))"
    "ready E w'" "off \<noteq> 0 \<Longrightarrow> w' = set_mtx (unat off + 32) MFree (set_bytes (bytes w') w)"
    "off \<noteq> 0 \<Longrightarrow> mtx w' (unat off + 32) = MFree"
    "\<And>N. spare (N + alloc_cost 88 + alloc_cost (nb * 8)) (bytes w) \<Longrightarrow> off \<noteq> 0 \<and> spare N (bytes w')"
    "locks_kept w w'"
proof -
  have sz: "unat (72 :: u64) \<le> 4294967295" "16 + 72 = (88 :: u64)" by simp_all
  have start: "nb \<noteq> 0" "ks \<noteq> 0" "vs \<noteq> 0" using c by auto
  show thesis
  proof (cases "room (16 + 72) (bytes w)")
    case False
    obtain m' where a: "object_store_alloc E (Some rg) 1 72 True w = Some ((STATUS_OUT_OF_MEMORY, None), set_bytes m' w)"
      "heap_inv rg m'" "owner_step {} {} (bytes w) m'"
      by (rule header_refused [OF h r sz(1) False])
    have "hashtable_create E rg nb ks vs w = Some (0, set_bytes m' w)"
      using a(1) start by (simp add: hashtable_create_def offset_ptr_null_def)
    moreover have "\<not> spare (N + alloc_cost 88 + alloc_cost (nb * 8)) (bytes w)" for N
      using refused_after [OF pays_refl False] sz(2) by simp
    ultimately show thesis using that [of 0 "set_bytes m' w"] a False sz(2) r by (auto simp: table_created_def)
  next
    case rm: True
    obtain p n m1 where hg: "header_grant E rg 72 w p n m1" by (rule header_granted [OF h r sz(1) rm])
    note d = header_grantD [OF h r hg]
    define m5 where "m5 = table_header p nb ks vs m1"
    have o: "m5 x = m1 x" if "x < p \<or> p + unat (72 :: u64) \<le> x" for x
      using that table_header_facts(2) by (auto simp: m5_def)
    note s = header_written [OF h hg o]
    have p5: "heap_abs m5 p = Some n" "72 \<le> n" using s(2) d(3,4) by simp_all
    have g5: "get_table m5 p = \<lparr>ht_num_buckets = nb, ht_key_size = ks, ht_val_size = vs, ht_buckets = 0\<rparr>"
      unfolding m5_def by (rule table_header_facts(1))
    have hdr: "st64 (st64 (st64 (st64 m1 p nb) (p + 8) ks) (p + 16) vs) (p + 24) 0 = m5" by (simp add: m5_def table_header_def)
    have u: "unat (nb * 8) = unat nb * 8" using c(2) by (subst unat_mult_nowrap) simp_all
    have vr: "valid_request (nb * 8) 16" using c(1,2) u by (auto simp: valid_request_def intro: exI [of _ 4])
    let ?w2 = "set_mtx (p + 32) MFree (set_bytes m5 w)"
    have h2: "heap_inv rg (bytes ?w2)" "ready E ?w2" using s(1) d(11) [of 32] by simp_all
    note run = hashtable_create_def start d(1,6,10) hashtable_resolve_header_def hdr mutex_init_runs [OF ini] offset_ptr_null_def Let_def
    show thesis
    proof (cases rule: buffer_grant [OF h2 vr])
      case (1 q m6)
      let ?m7 = "zero m6 (unat q) (unat (nb * 8))"
      have z: "?m7 x = m6 x" if "x < unat q \<or> unat q + unat (nb * 8) \<le> x" for x
        using that by (intro zero_outside)
      have gz: "grants rg (nb * 8) m5 q ?m7" using 1(2) [OF z] by simp
      note f = table_create_buckets [OF s(1) p5 g5 c gz]
      define m8 where "m8 = st64 ?m7 (p + 24) q"
      have "hashtable_create E rg nb ks vs w = Some (of_nat p, set_mtx (p + 32) MFree (set_bytes m8 w))"
        using 1(1) 1(3) [OF z] by (simp add: run m8_def)
      moreover have "owner_step {} {p, unat q} (bytes w) m8" unfolding m8_def by (rule svc.step_trans [OF h s(3) f(4)])
      then have "table_created rg nb ks vs (bytes w) (of_nat p) m8"
        using table_createdI [of rg m8 "of_nat p"] f(1-3) d(6,7) by (simp add: m8_def)
      moreover have "room (nb * 8) m1" using 1(4) s(4) by simp
      moreover have "spare N m8" if "spare (N + alloc_cost 88 + alloc_cost (nb * 8)) (bytes w)" for N
        using paysD [OF pays_trans [OF s(5) f(5)], of N] that sz(2) by (simp add: m8_def add.assoc)
      ultimately show thesis using that [of "of_nat p" "set_mtx (p + 32) MFree (set_bytes m8 w)"] d(1,6,7) d(11) [of 32] rm sz(2)
          header_locks_kept [OF h hg, of 32 MFree m8] by auto
    next
      case (2 m6)
      let ?w3 = "set_mtx (p + 32) MUninit (set_bytes m6 w)"
      have w3: "heap_inv rg (bytes ?w3)" "ready E ?w3" using 2(3) r d(8) by (simp_all add: ready_set_mtx)
      have st: "owner_step {} {unat (of_nat p :: OffsetPtr)} (bytes w) (bytes ?w3)"
        using svc.step_trans [OF h s(3)] private_step_widen [OF 2(4), of "{p}"] d(6) by simp
      have p6: "heap_abs (bytes ?w3) (unat (of_nat p :: OffsetPtr)) = Some n" using private_step_live(1) [OF 2(4)] p5(1) d(6) by simp
      have "p \<notin> ({} :: nat set)" by simp
      then have "get_table m6 p = get_table m5 p" using get_table_kept [OF 2(4)] p5 by simp
      then have g6: "ht_num_buckets (get_table (bytes ?w3) (unat (of_nat p :: OffsetPtr))) = nb"
        "ht_key_size (get_table (bytes ?w3) (unat (of_nat p :: OffsetPtr))) = ks" using g5 d(6) by simp_all
      obtain st' m' where f: "object_store_free E (Some rg) (of_nat p) ?w3 = Some (st', set_bytes m' ?w3)"
        "table_created rg nb ks vs (bytes w) 0 m'" by (rule table_create_undo [OF h w3 st p6 d(7) g6])
      have "hashtable_create E rg nb ks vs w = Some (0, set_bytes m' ?w3)"
        using 2(2) f(1) by (simp add: run pthread_mutex_destroy_def)
      moreover have "\<not> room (nb * 8) m1" using 2(1) s(4) by simp
      moreover have "\<not> spare (N + alloc_cost 88 + alloc_cost (nb * 8)) (bytes w)" for N
        using refused_after [OF s(5), of "nb * 8"] 2(1) sz(2) by simp
      ultimately show thesis using that [of 0 "set_bytes m' ?w3"] f(2) w3(2) d(1) header_locks_kept [OF h hg, of 32 MUninit m'] by simp
    qed
  qed
qed

text \<open>\<open>hashtable_create\<close> with a bucket count that does not wrap and non-zero sizes succeeds exactly
  when the allocator has room for the header object and then for the bucket array. On success the
  handle names an empty map that satisfies the invariant, on two fresh spans, with its mutex
  initialized; on failure it returns the null handle and leaves no span behind, except the header
  object when the fields that overlay its object header do not pass for an object.\<close>

theorem hashtable_create_establishes:
  assumes h: "heap_inv rg (bytes w)" and r: "ready E w" and ini: "\<forall>a. rc_mutex_init E a = 0"
    and c: "0 < unat nb" "unat nb \<le> 2 ^ 59" "0 < unat ks" "0 < unat vs"
  shows "\<exists>off w'. hashtable_create E rg nb ks vs w = Some (off, w') \<and> table_created rg nb ks vs (bytes w) off (bytes w') \<and>
     (off \<noteq> 0 \<longleftrightarrow> room 88 (bytes w) \<and>
      (\<exists>obj w1. object_store_alloc E (Some rg) 1 72 True w = Some ((STATUS_OK, obj), w1) \<and> room (nb * 8) (bytes w1))) \<and>
     ready E w' \<and> (off \<noteq> 0 \<longrightarrow> w' = set_mtx (unat off + 32) MFree (set_bytes (bytes w') w))"
proof (rule table_create_runs [OF assms])
qed blast

section \<open>Releasing the chains\<close>

text \<open>A step that releases the first of two groups of spans, next to the second.\<close>

lemma release_next:
  assumes h: "heap_inv rg m" and s: "owner_step S {} m m1" "owner_step T {} m1 m2" and d: "S \<inter> T = {}"
  shows "owner_step (S \<union> T) {} m m2"
proof -
  have "T - S = T" using d by auto
  then have "owner_step (S \<union> T) T m m1" using private_step_widen [OF s(1), of T] by simp
  then show ?thesis using s(2) by (rule svc.step_trans [OF h])
qed

lemma free_chain_runs:
  assumes "heap_inv rg (bytes w)" and "ready E w" and "chain (bytes w) (unat off) xs"
    and "\<And>x. x \<in> set xs \<Longrightarrow> ent_ok (bytes w) (ht_val_size (get_table (bytes w) p)) x" and "distinct (all_spans xs)"
    and "heap_abs (bytes w) p = Some k" and "72 \<le> k" and "p \<notin> set (all_spans xs)"
  shows "\<exists>m'. hashtable_free_chain E rg p off w = Some (set_bytes m' w) \<and> heap_inv rg m' \<and>
     heap_abs m' = heap_abs (bytes w) |` (- set (all_spans xs)) \<and> owner_step (set (all_spans xs)) {} (bytes w) m' \<and>
     pays spare 0 (bytes w) m'"
  using assms
proof (induction xs arbitrary: off w)
  case Nil
  then show ?case
    by (subst hashtable_free_chain.simps) (auto simp: word_eq_iff_unat offset_ptr_is_null_def intro!: exI [of _ "bytes w"])
next
  case (Cons x xs)
  let ?vs = "ht_val_size (get_table (bytes w) p)"
  have x: "ent_ok (bytes w) ?vs x" and e: "unat off = node_pos x" and dx: "distinct (ent_spans x)"
    and px: "p \<notin> set (ent_spans x)" and dj: "set (ent_spans x) \<inter> set (all_spans xs) = {}"
    using Cons.prems(3,4,5,8) by auto
  note er = entry_resolves [OF Cons.prems(1) x e]
  obtain m1 where m1: "hashtable_free_entry E rg p (rg_base rg + off) w = Some (set_bytes m1 w)"
    "heap_inv rg m1" "heap_abs m1 = heap_abs (bytes w) |` (- set (ent_spans x))" "owner_step (set (ent_spans x)) {} (bytes w) m1"
    "pays spare 0 (bytes w) m1"
    by (rule free_entry_runs [OF Cons.prems(1,2) x dx Cons.prems(6,7) px e])
  have g1: "get_table m1 p = get_table (bytes w) p" by (rule get_table_kept [OF m1(4) Cons.prems(6,7) px])
  have kept: "ent_ok m1 ?vs y" "ld64 m1 (node_pos y + 16) = ld64 (bytes w) (node_pos y + 16)" if y: "y \<in> set xs" for y
  proof -
    have "set (ent_spans y) \<subseteq> set (all_spans xs)" using y by (auto simp: all_spans_mem)
    then have "set (ent_spans y) \<inter> set (ent_spans x) = {}" using dj by blast
    then show "ent_ok m1 ?vs y" "ld64 m1 (node_pos y + 16) = ld64 (bytes w) (node_pos y + 16)"
      using ent_ok_kept [OF Cons.prems(4) m1(4)] y by simp_all
  qed
  let ?nx = "ld64 (bytes w) (node_pos x + 16)"
  have ch: "chain (bytes (set_bytes m1 w)) (unat ?nx) xs" using Cons.prems(3) kept(2) chain_cong [of xs m1 "bytes w"] by simp
  have p1: "heap_abs (bytes (set_bytes m1 w)) p = Some k" using m1(3) Cons.prems(6) px by simp
  obtain m2 where m2: "hashtable_free_chain E rg p ?nx (set_bytes m1 w) = Some (set_bytes m2 w)" "heap_inv rg m2"
    "heap_abs m2 = heap_abs m1 |` (- set (all_spans xs))" "owner_step (set (all_spans xs)) {} m1 m2" "pays spare 0 m1 m2"
    using Cons.IH [OF _ _ ch _ _ p1 Cons.prems(7)] m1(2) Cons.prems(2,5,8) kept(1) g1 by auto
  have "hashtable_free_chain E rg p off w = Some (set_bytes m2 w)"
    using m1(1) m2(1) er e by (subst hashtable_free_chain.simps) (simp add: offset_ptr_is_null_def get_hentry_def Let_def)
  moreover have "heap_abs m2 = heap_abs (bytes w) |` (- set (all_spans (x # xs)))"
    unfolding m2(3) m1(3) by (auto simp: restrict_map_def fun_eq_iff)
  moreover have "owner_step (set (all_spans (x # xs))) {} (bytes w) m2"
    using release_next [OF Cons.prems(1) m1(4) m2(4) dj] by simp
  moreover have "pays spare 0 (bytes w) m2" using pays_trans [OF m1(5) m2(5)] by simp
  ultimately show ?case using m2(2) by blast
qed

text \<open>The buckets from \<open>i\<close> on still hold their chains.\<close>

definition buckets_hold :: "mem \<Rightarrow> nat \<Rightarrow> nat \<Rightarrow> hent list list \<Rightarrow> nat \<Rightarrow> bool" where
  "buckets_hold m p b cs i \<longleftrightarrow>
     (\<exists>k. heap_abs m p = Some k \<and> 72 \<le> k) \<and> (\<exists>k. heap_abs m b = Some k \<and> length cs * 8 \<le> k) \<and>
     distinct (p # b # all_spans (concat (drop i cs))) \<and> unat (ht_num_buckets (get_table m p)) = length cs \<and>
     (\<forall>x \<in> set (concat (drop i cs)). ent_ok m (ht_val_size (get_table m p)) x) \<and>
     (\<forall>j < length cs. i \<le> j \<longrightarrow> chain m (unat (ld64 m (b + j * 8))) (cs ! j))"

lemma buckets_hold_kept:
  assumes b: "buckets_hold m p b cs i" and i: "i < length cs" and s: "owner_step (set (all_spans (cs ! i))) {} m m'"
  shows "buckets_hold m' p b cs (Suc i)" and "get_table m' p = get_table m p"
proof -
  have d: "drop i cs = cs ! i # drop (Suc i) cs" using i by (simp add: Cons_nth_drop_Suc)
  obtain k where k: "heap_abs m p = Some k" "72 \<le> k" using b by (auto simp: buckets_hold_def)
  obtain j where j: "heap_abs m b = Some j" "length cs * 8 \<le> j" using b by (auto simp: buckets_hold_def)
  have dist: "distinct (p # b # all_spans (cs ! i) @ all_spans (concat (drop (Suc i) cs)))"
    using b by (simp add: buckets_hold_def d)
  then have ns: "p \<notin> set (all_spans (cs ! i))" "b \<notin> set (all_spans (cs ! i))" by auto
  note pk = private_step_live [OF s k(1) ns(1)] and bk = private_step_live [OF s j(1) ns(2)]
  show g: "get_table m' p = get_table m p" by (rule get_table_kept [OF s k ns(1)])
  have e: "ent_ok m' (ht_val_size (get_table m p)) x \<and> ld64 m' (node_pos x + 16) = ld64 m (node_pos x + 16)"
    if x: "x \<in> set (concat (drop (Suc i) cs))" for x
  proof -
    have "ent_ok m (ht_val_size (get_table m p)) x" using b x by (simp add: buckets_hold_def d)
    moreover have "set (ent_spans x) \<subseteq> set (all_spans (concat (drop (Suc i) cs)))" using x by (auto simp only: all_spans_mem)
    then have "set (ent_spans x) \<inter> set (all_spans (cs ! i)) = {}" using dist by auto
    ultimately show ?thesis using ent_ok_kept [OF _ s] by blast
  qed
  have ch: "chain m' (unat (ld64 m' (b + l * 8))) (cs ! l)" if l: "l < length cs" "Suc i \<le> l" for l
  proof -
    have "l * 8 + 8 \<le> j" using l(1) j(2) by linarith
    then have w: "ld64 m' (b + l * 8) = ld64 m (b + l * 8)" using bk(3) by (intro ld64_same_on) (auto intro: same_on_sub)
    have "cs ! l = drop (Suc i) cs ! (l - Suc i)" "l - Suc i < length (drop (Suc i) cs)" using l by simp_all
    then have "cs ! l \<in> set (drop (Suc i) cs)" using nth_mem by metis
    then have "set (cs ! l) \<subseteq> set (concat (drop (Suc i) cs))" by auto
    then have "chain m' c (cs ! l) = chain m c (cs ! l)" for c using e by (intro chain_cong) blast
    moreover have "chain m (unat (ld64 m (b + l * 8))) (cs ! l)" using b l by (simp add: buckets_hold_def)
    ultimately show ?thesis using w by simp
  qed
  show "buckets_hold m' p b cs (Suc i)"
    unfolding buckets_hold_def g using pk(1) k(2) bk(1) j(2) b dist e ch by (auto simp: buckets_hold_def)
qed

lemma free_buckets_runs:
  assumes "heap_inv rg (bytes w)" and "ready E w" and "buckets_hold (bytes w) p b cs (unat i)" and "unat i \<le> length cs"
    and "\<And>j. unat j < length cs \<Longrightarrow> bucket_at rg bs j = b + unat j * 8"
  shows "\<exists>m'. hashtable_free_buckets E rg p bs i w = Some (set_bytes m' w) \<and> heap_inv rg m' \<and>
     heap_abs m' = heap_abs (bytes w) |` (- set (all_spans (concat (drop (unat i) cs)))) \<and>
     owner_step (set (all_spans (concat (drop (unat i) cs)))) {} (bytes w) m' \<and> pays spare 0 (bytes w) m'"
  using assms
proof (induction "length cs - unat i" arbitrary: i w)
  case 0
  then have "\<not> i < ht_num_buckets (get_table (bytes w) p)" by (simp add: buckets_hold_def word_less_nat_alt)
  then show ?case using 0 by (subst hashtable_free_buckets.simps) (auto intro!: exI [of _ "bytes w"])
next
  case (Suc n)
  note b = Suc.prems(3)
  have i: "unat i < length cs" using Suc.hyps(2) by simp
  have lt: "i < ht_num_buckets (get_table (bytes w) p)" using i b by (simp add: buckets_hold_def word_less_nat_alt)
  have u: "unat (i + 1) = Suc (unat i)"
    using i b unat_less_2p64 [of "ht_num_buckets (get_table (bytes w) p)"] by (subst unat_add_nowrap) (simp_all add: buckets_hold_def)
  have d: "drop (unat i) cs = cs ! unat i # drop (Suc (unat i)) cs" using i by (simp add: Cons_nth_drop_Suc)
  obtain k where k: "heap_abs (bytes w) p = Some k" "72 \<le> k" using b by (auto simp: buckets_hold_def)
  let ?o = "ld64 (bytes w) (b + unat i * 8)"
  have c: "chain (bytes w) (unat ?o) (cs ! unat i)" "p \<notin> set (all_spans (cs ! unat i))" "distinct (all_spans (cs ! unat i))"
    "set (all_spans (cs ! unat i)) \<inter> set (all_spans (concat (drop (Suc (unat i)) cs))) = {}"
    using b i by (simp_all add: buckets_hold_def d)
  have eo: "ent_ok (bytes w) (ht_val_size (get_table (bytes w) p)) x" if "x \<in> set (cs ! unat i)" for x
    using b that by (simp add: buckets_hold_def d)
  obtain m1 where m1: "hashtable_free_chain E rg p ?o w = Some (set_bytes m1 w)" "heap_inv rg m1"
    "heap_abs m1 = heap_abs (bytes w) |` (- set (all_spans (cs ! unat i)))" "owner_step (set (all_spans (cs ! unat i))) {} (bytes w) m1"
    "pays spare 0 (bytes w) m1"
    using free_chain_runs [OF Suc.prems(1,2) c(1) eo c(3) k c(2)] by blast
  note bh = buckets_hold_kept [OF b i m1(4)]
  obtain m2 where m2: "hashtable_free_buckets E rg p bs (i + 1) (set_bytes m1 w) = Some (set_bytes m2 w)" "heap_inv rg m2"
    "heap_abs m2 = heap_abs m1 |` (- set (all_spans (concat (drop (Suc (unat i)) cs))))"
    "owner_step (set (all_spans (concat (drop (Suc (unat i)) cs)))) {} m1 m2" "pays spare 0 m1 m2"
  proof -
    have "n = length cs - unat (i + 1)" using Suc.hyps(2) u by simp
    from Suc.hyps(1) [OF this, of "set_bytes m1 w"] show thesis
      using that Suc.prems(2,5) m1(2) bh(1) i u by auto
  qed
  have "hashtable_free_buckets E rg p bs i w = Some (set_bytes m2 w)"
    using lt m1(1) m2(1) Suc.prems(5) [OF i] by (subst hashtable_free_buckets.simps) simp
  moreover have "heap_abs m2 = heap_abs (bytes w) |` (- set (all_spans (concat (drop (unat i) cs))))"
    unfolding m2(3) m1(3) d by (auto simp: restrict_map_def fun_eq_iff)
  moreover have "owner_step (set (all_spans (concat (drop (unat i) cs)))) {} (bytes w) m2"
    using release_next [OF Suc.prems(1) m1(4) m2(4) c(4)] by (simp add: d)
  moreover have "pays spare 0 (bytes w) m2" using pays_trans [OF m1(5) m2(5)] by simp
  ultimately show ?case using m2(2) by blast
qed

section \<open>Destruction\<close>

lemma table_buckets_hold:
  assumes "ht_repr m p cs"
  shows "buckets_hold m p (unat (ht_buckets (get_table m p))) cs 0"
  using ht_reprD(1,2,6,7,9) [OF assms] ht_reprD(8) [OF assms] by (simp add: buckets_hold_def)

text \<open>The part of destroy before the header object is freed.\<close>

lemma destroy_contents:
  assumes h: "heap_inv rg (bytes w)" and r: "ready E w" and t: "ht_repr (bytes w) p cs"
  defines "b \<equiv> ht_buckets (get_table (bytes w) p)"
  obtains m1 m2 where "hashtable_free_buckets E rg p (rg_base rg + b) 0 w = Some (set_bytes m1 w)"
    "allocator_free E (Some rg) (rg_base rg + b) (set_bytes m1 w) = Some (STATUS_OK, set_bytes m2 w)"
    "heap_inv rg m2" "heap_abs m2 = heap_abs (bytes w) |` (- (ht_spans (bytes w) p cs - {p}))"
    "owner_step (ht_spans (bytes w) p cs - {p}) {} (bytes w) m2" "pays spare 0 (bytes w) m2"
proof -
  note br = buckets_resolve(2) [OF h t, folded b_def] and rd = ht_reprD [OF t]
  note hold = table_buckets_hold [OF t, folded b_def]
  have bh: "buckets_hold (bytes w) p (unat b) cs (unat (0 :: u64))" "unat (0 :: u64) \<le> length cs" using hold by simp_all
  obtain m1 where m1: "hashtable_free_buckets E rg p (rg_base rg + b) 0 w = Some (set_bytes m1 w)" "heap_inv rg m1"
    "heap_abs m1 = heap_abs (bytes w) |` (- set (all_spans (concat cs)))" "owner_step (set (all_spans (concat cs))) {} (bytes w) m1"
    "pays spare 0 (bytes w) m1"
    using free_buckets_runs [OF h r bh br] by auto
  obtain k where k: "heap_abs (bytes w) (unat b) = Some k" using rd(2) by (auto simp: b_def)
  have d: "unat b \<notin> set (all_spans (concat cs))" "unat b \<noteq> p" "p \<notin> set (all_spans (concat cs))" using rd(7) by (auto simp: b_def)
  have h1: "heap_inv rg (bytes (set_bytes m1 w))" "ready E (set_bytes m1 w)" "heap_abs (bytes (set_bytes m1 w)) (unat b) = Some k"
    using m1 r k d(1) by simp_all
  obtain m2 where m2: "allocator_free E (Some rg) (rg_base rg + b) (set_bytes m1 w) = Some (STATUS_OK, set_bytes m2 w)"
    "heap_inv rg m2" "heap_abs m2 = (heap_abs m1)(unat b := None)" "owner_step {unat b} {} m1 m2" "pays spare 0 m1 m2"
    using release_runs [OF h1] by auto
  have s: "ht_spans (bytes w) p cs - {p} = set (all_spans (concat cs)) \<union> {unat b}"
    using d by (auto simp: ht_spans_def b_def)
  have dj: "set (all_spans (concat cs)) \<inter> {unat b} = {}" using d(1) by simp
  have "heap_abs m2 = heap_abs (bytes w) |` (- (ht_spans (bytes w) p cs - {p}))"
    unfolding m2(3) m1(3) s by (auto simp: restrict_map_def fun_eq_iff)
  moreover have "owner_step (ht_spans (bytes w) p cs - {p}) {} (bytes w) m2"
    unfolding s by (rule release_next [OF h m1(4) m2(4) dj])
  moreover have "pays spare 0 (bytes w) m2" using pays_trans [OF m1(5) m2(5)] by simp
  ultimately show thesis using that m1(1) m2(1,2) by blast
qed

lemma hashtable_destroy_runs:
  assumes h: "heap_inv rg (bytes w)" and r: "ready E w" and o: "table_ok (bytes w) (unat off)"
    and l: "mtx w (unat off + 32) = MFree"
  shows "\<exists>m'. hashtable_destroy E rg off w = Some ((), set_mtx (unat off + 32) MUninit (set_bytes m' w)) \<and>
     heap_inv rg m' \<and> (\<forall>q \<in> table_spans (bytes w) (unat off) - {unat off}. heap_abs m' q = None) \<and>
     owner_step (table_spans (bytes w) (unat off))
       (if table_header_released (bytes w) (unat off) then {} else {unat off}) (bytes w) m' \<and>
     (heap_abs m' (unat off) = None \<longleftrightarrow> table_header_released (bytes w) (unat off)) \<and>
     pays spare 0 (bytes w) m'"
proof -
  let ?m = "bytes w" and ?p = "unat off" let ?w1 = "holding E (?p + 32) w"
  define cs where "cs = ht_read ?m ?p"
  have t: "ht_repr ?m ?p cs" using o by (simp add: table_ok_def cs_def)
  define S where "S = table_spans ?m ?p - {?p}"
  have S: "ht_spans ?m ?p cs - {?p} = S" "?p \<in> table_spans ?m ?p" by (simp_all add: S_def table_spans_def cs_def ht_spans_def)
  obtain n where n: "heap_abs ?m ?p = Some n" "72 \<le> n" using ht_reprD(1) [OF t] by blast
  have b: "2768 \<le> ?p" by (rule heap_abs_bounds(1) [OF h n(1)])
  have nz: "off \<noteq> 0" using span_resolves(2) [OF h n(1), of 0] by simp
  note hold = ht_holding [OF h r o, folded cs_def]
  obtain m1 m2 where d: "hashtable_free_buckets E rg ?p (rg_base rg + ht_buckets (get_table ?m ?p)) 0 ?w1 = Some (set_bytes m1 ?w1)"
    "allocator_free E (Some rg) (rg_base rg + ht_buckets (get_table ?m ?p)) (set_bytes m1 ?w1) = Some (STATUS_OK, set_bytes m2 ?w1)"
    "heap_inv rg m2" "heap_abs m2 = heap_abs ?m |` (- S)" "owner_step S {} ?m m2" "pays spare 0 ?m m2"
    using destroy_contents [OF hold] S by auto
  define w3 where "w3 = set_mtx (?p + 32) MUninit (set_bytes m2 w)"
  have w3: "heap_inv rg (bytes w3)" "ready E w3" "bytes w3 = m2" using d(3) r b by (simp_all add: w3_def ready_set_mtx)
  have run: "hashtable_destroy E rg off w = map_option (\<lambda>(_, w4). ((), w4)) (object_store_free E (Some rg) off w3)"
    using d(1,2) ht_header_resolves [OF h t] ht_lock_free [where E = E, OF l] ht_unlock_own(1) [OF l, where E = E] buckets_resolve(1) [OF h t]
    by (cases "object_store_free E (Some rg) off w3") (auto simp: hashtable_destroy_def Let_def w3_def pthread_mutex_destroy_def)
  have ps: "?p \<notin> S" by (simp add: S_def)
  note pk = private_step_live [OF d(5) n(1) ps]
  have "get_table m2 ?p = get_table ?m ?p" by (rule get_table_kept [OF d(5) n ps])
  then have rel: "object_at m2 ?p \<longleftrightarrow> table_header_released ?m ?p"
    using pk(1) n(1) by (simp add: table_object_at table_header_released_def)
  have "table_spans ?m ?p = S \<union> {?p}" using S(2) by (auto simp: S_def)
  then have st: "owner_step (table_spans ?m ?p) {?p} ?m m2"
    using private_step_widen [OF d(5), of "{?p}"] ps by (simp add: insert_Diff_if)
  have gone: "\<forall>q \<in> S. heap_abs m2 q = None" using d(4) by simp
  show ?thesis
  proof (cases "table_header_released ?m ?p")
    case True
    then have "object_at (bytes w3) (unat off)" using rel w3 by simp
    from object_free_steps(1) [OF w3(1,2) nz this] obtain m3 where
      f: "object_store_free E (Some rg) off w3 = Some (STATUS_OK, set_bytes m3 w3)"
      and m3: "heap_inv rg m3" "heap_abs m3 = (heap_abs m2)(?p := None)" "owner_step {?p} {} m2 m3"
        "pays spare 0 m2 m3"
      using w3 by auto
    have "hashtable_destroy E rg off w = Some ((), set_mtx (?p + 32) MUninit (set_bytes m3 w))"
      using run f by (simp add: w3_def)
    with True m3(1,2) gone svc.step_trans [OF h st m3(3)] pays_trans [OF d(6) m3(4)] show ?thesis
      by (intro exI [of _ m3]) (simp add: S_def)
  next
    case False
    then have "object_store_free E (Some rg) off w3 = Some (STATUS_NOT_FOUND, w3)"
      using rel w3 object_free_steps(2) [OF w3(1,2) nz] by simp
    then have "hashtable_destroy E rg off w = Some ((), set_mtx (?p + 32) MUninit (set_bytes m2 w))"
      using run by (simp add: w3_def)
    with False d(3,6) gone pk(1) st show ?thesis by (intro exI [of _ m2]) (simp add: S_def)
  qed
qed

text \<open>C38: \<open>hashtable_destroy\<close> on a table that satisfies its invariant returns, whatever the length of its
  chains; it releases the key, the value and the node of every entry and the bucket array,
  uninitializes the mutex and touches no other span. The header object is released exactly when the
  key size is even and the low half of the bucket count, read as the object's size, fits the
  header's span; otherwise it leaks.\<close>

theorem hashtable_destroy_releases:
  assumes h: "heap_inv rg (bytes w)" and r: "ready E w" and o: "table_ok (bytes w) (unat off)"
    and l: "mtx w (unat off + 32) = MFree"
  shows "\<exists>m'. hashtable_destroy E rg off w = Some ((), set_mtx (unat off + 32) MUninit (set_bytes m' w)) \<and>
     heap_inv rg m' \<and> (\<forall>q \<in> table_spans (bytes w) (unat off) - {unat off}. heap_abs m' q = None) \<and>
     owner_step (table_spans (bytes w) (unat off))
       (if table_header_released (bytes w) (unat off) then {} else {unat off}) (bytes w) m' \<and>
     (heap_abs m' (unat off) = None \<longleftrightarrow> table_header_released (bytes w) (unat off))"
  using hashtable_destroy_runs [OF h r o l] by (elim exE conjE) (intro exI conjI; assumption)

section \<open>Witnesses\<close>

text \<open>A table of two buckets for keys of up to eight characters and values of four bytes, created on the
  concrete heap.\<close>

lemma demo_table:
  obtains w :: world and off where "hashtable_create demo_env demo_region 2 8 4 demo_world = Some (off, w)" "off \<noteq> 0"
    "heap_inv demo_region (bytes w)" "ready demo_env w" "table_ok (bytes w) (unat off)" "mtx w (unat off + 32) = MFree"
    "table_abs (bytes w) (unat off) = Map.empty"
    "ht_key_size (get_table (bytes w) (unat off)) = 8" "ht_val_size (get_table (bytes w) (unat off)) = 4"
    "table_header_released (bytes w) (unat off)" "spare 996 (bytes w)"
proof -
  have ini: "\<forall>a. rc_mutex_init demo_env a = 0" by (simp add: demo_env_def)
  have c: "0 < unat (2 :: u64)" "unat (2 :: u64) \<le> 2 ^ 59" "0 < unat (8 :: u64)" "0 < unat (4 :: u64)" by simp_all
  show thesis
  proof (rule table_create_runs [OF demo_facts(2,4) ini c])
    fix off w' assume r: "hashtable_create demo_env demo_region 2 8 4 demo_world = Some (off, w')"
      "table_created demo_region 2 8 4 (bytes demo_world) off (bytes w')"
      "ready demo_env w'" "off \<noteq> 0 \<Longrightarrow> mtx w' (unat off + 32) = MFree"
      and f: "\<And>N. spare (N + alloc_cost 88 + alloc_cost (2 * 8)) (bytes demo_world) \<Longrightarrow> off \<noteq> 0 \<and> spare N (bytes w')"
    have nz: "off \<noteq> 0" and sp: "spare 996 (bytes w')" using f [of 996] demo_spare by (simp_all add: cost_simps)
    then have t: "heap_inv demo_region (bytes w')" "table_ok (bytes w') (unat off)" "table_abs (bytes w') (unat off) = Map.empty"
      "ht_num_buckets (get_table (bytes w') (unat off)) = 2" "ht_key_size (get_table (bytes w') (unat off)) = 8"
      "ht_val_size (get_table (bytes w') (unat off)) = 4"
      using r(2) by (auto simp: table_created_def)
    obtain n where "heap_abs (bytes w') (unat off) = Some n" "72 \<le> n" using ht_reprD(1) t(2) unfolding table_ok_def by blast
    then have "table_header_released (bytes w') (unat off)" using t(4,5) by (simp add: table_header_released_def)
    with that [OF r(1) nz t(1) r(3) t(2) r(4) [OF nz] t(3,5,6)] sp show thesis by blast
  qed
qed

theorem hashtable_create_establishes_witness:
  "\<exists>off w'. hashtable_create demo_env demo_region 2 8 4 demo_world = Some (off, w') \<and>
     table_created demo_region 2 8 4 (bytes demo_world) off (bytes w')"
proof -
  have ini: "\<forall>a. rc_mutex_init demo_env a = 0" by (simp add: demo_env_def)
  have c: "0 < unat (2 :: u64)" "unat (2 :: u64) \<le> 2 ^ 59" "0 < unat (8 :: u64)" "0 < unat (4 :: u64)" by simp_all
  from hashtable_create_establishes [OF demo_facts(2,4) ini c] show ?thesis by blast
qed

text \<open>Put, get, delete and count on the fresh table: either every operation succeeds, or the put is
  refused and the key is absent throughout.\<close>

theorem hashtable_sequence_refines_witness:
  "\<exists>w off w' rs. run_ops (table_run demo_env demo_region off)
      [TPut [107, 49] [1, 2, 3, 4], TGet [107, 49], TDelete [107, 49], TLength] w = Some (rs, w') \<and>
     (rs = [TCode 0, TGot 0 (Some [1, 2, 3, 4]), TCode 0, TCount 0] \<or>
      rs = [TCode (- 1), TGot (- 1) None, TCode (- 1), TCount 0])"
proof (rule demo_table)
  fix w :: world and off :: OffsetPtr
  assume d: "heap_inv demo_region (bytes w)" "ready demo_env w" "table_ok (bytes w) (unat off)" "mtx w (unat off + 32) = MFree"
    and m: "table_abs (bytes w) (unat off) = Map.empty"
    and e: "ht_key_size (get_table (bytes w) (unat off)) = 8" "ht_val_size (get_table (bytes w) (unat off)) = 4"
  let ?ops = "[TPut [107, 49] [1, 2, 3, 4], TGet [107, 49], TDelete [107, 49], TLength]"
  have c: "unat (ht_val_size (get_table (bytes w) (unat off))) \<le> 2 ^ 62"
    "list_all (table_op_ok (get_table (bytes w) (unat off))) ?ops" by (simp_all add: e)
  from hashtable_sequence_refines [OF d c] obtain rs m' where
    r: "run_ops (table_run demo_env demo_region off) ?ops w = Some (rs, set_bytes m' w)"
      "allowed table_spec ?ops Map.empty rs (table_abs m' (unat off))" by (auto simp only: m)
  have "rs = [TCode 0, TGot 0 (Some [1, 2, 3, 4]), TCode 0, TCount 0] \<or>
      rs = [TCode (- 1), TGot (- 1) None, TCode (- 1), TCount 0]"
    using r(2) by (auto simp: allowed_Cons simp del: allowed.simps(2))
  with r(1) show ?thesis by blast
qed

theorem hashtable_destroy_releases_witness:
  "\<exists>w off m'. hashtable_destroy demo_env demo_region off w = Some ((), set_mtx (unat off + 32) MUninit (set_bytes m' w)) \<and>
     heap_abs m' (unat off) = None \<and> owner_step (table_spans (bytes w) (unat off)) {} (bytes w) m'"
proof (rule demo_table)
  fix w :: world and off :: OffsetPtr
  assume d: "heap_inv demo_region (bytes w)" "ready demo_env w" "table_ok (bytes w) (unat off)" "mtx w (unat off + 32) = MFree"
    and rl: "table_header_released (bytes w) (unat off)"
  from hashtable_destroy_releases [OF d] rl show ?thesis by auto
qed

theorem hashtable_sequence_funded_witness:
  "\<exists>w off w'. run_ops (table_run demo_env demo_region off)
      [TPut [107] [1, 2, 3, 4], TPut [108] [5, 6, 7, 8], TGet [107], TDelete [107], TGet [107], TLength] w
    = Some ([TCode 0, TCode 0, TGot 0 (Some [1, 2, 3, 4]), TCode 0, TGot (- 1) None, TCount 1], w')"
proof (rule demo_table)
  fix w :: world and off :: OffsetPtr
  assume d: "heap_inv demo_region (bytes w)" "ready demo_env w" "table_ok (bytes w) (unat off)" "mtx w (unat off + 32) = MFree"
    and m: "table_abs (bytes w) (unat off) = Map.empty"
    and e: "ht_key_size (get_table (bytes w) (unat off)) = 8" "ht_val_size (get_table (bytes w) (unat off)) = 4"
    and sp: "spare 996 (bytes w)"
  let ?ops = "[TPut [107] [1, 2, 3, 4], TPut [108] [5, 6, 7, 8], TGet [107], TDelete [107], TGet [107], TLength]"
  have c: "unat (ht_val_size (get_table (bytes w) (unat off))) \<le> 2 ^ 62"
    "list_all (table_op_ok (get_table (bytes w) (unat off))) ?ops"
    "spare (100 + sum_list (map (table_price (ht_val_size (get_table (bytes w) (unat off)))) ?ops)) (bytes w)"
    using sp by (simp_all add: e put_cost_def cost_simps)
  from hashtable_sequence_funded [OF d c] show ?thesis by (auto simp: m)
qed

end
