(* ===== verification/Containers.thy ===== *)
theory Containers
  imports Family RingBufLife DynArrayLife DynListLife HashTableLife
begin

text \<open>
  The four kinds of container as one family: calls on containers of any kind, the answers, and the
  abstract contents they stand for. The family's laws hold for the code's model, so calls on any
  number of ring buffers, arrays, lists and tables in one region do not interfere.
\<close>

section \<open>Kinds, calls and contents\<close>

datatype kind = KRing | KArray | KList | KTable

datatype call = RingCall ring_op | ArrayCall dyn_op | ListCall list_op | TableCall table_op

datatype answer = RingAns ring_res | ArrayAns dyn_res | ListAns list_res | TableAns table_res

text \<open>What a container stands for, with the element size, the capacity or the sizes of keys and values.\<close>

datatype content = CQueue u64 nat "u8 list list" | CArray u64 nat "u8 list list" | CList u64 "u8 list list"
  | CMap u64 u64 "cstr \<rightharpoonup> u8 list"

fun container_ok :: "kind \<Rightarrow> mem \<Rightarrow> nat \<Rightarrow> bool" where
  "container_ok KRing m p \<longleftrightarrow> ring_ok m p"
| "container_ok KArray m p \<longleftrightarrow> dyn_ok m p \<and> unat (da_elem_size (get_dynarray m p)) \<le> 2 ^ 60"
| "container_ok KList m p \<longleftrightarrow> list_ok m p \<and> unat (dl_elem_size (get_dynlist m p)) \<le> 2 ^ 61"
| "container_ok KTable m p \<longleftrightarrow> table_ok m p \<and> unat (ht_val_size (get_table m p)) \<le> 2 ^ 62"

definition ring_spans :: "mem \<Rightarrow> nat \<Rightarrow> nat set" where
  "ring_spans m p = {p, unat (rb_data_offset (get_ring m p))}"

fun container_spans :: "kind \<Rightarrow> mem \<Rightarrow> nat \<Rightarrow> nat set" where
  "container_spans KRing m p = ring_spans m p"
| "container_spans KArray m p = dyn_spans m p"
| "container_spans KList m p = dl_spans m p"
| "container_spans KTable m p = table_spans m p"

fun container_content :: "kind \<Rightarrow> mem \<Rightarrow> nat \<Rightarrow> content" where
  "container_content KRing m p =
     CQueue (rb_elem_size (get_ring m p)) (unat (rb_capacity (get_ring m p))) (ring_queue m p)"
| "container_content KArray m p = (case dyn_abs m p of (c, xs) \<Rightarrow> CArray (da_elem_size (get_dynarray m p)) c xs)"
| "container_content KList m p = CList (dl_elem_size (get_dynlist m p)) (dl_list m p)"
| "container_content KTable m p = CMap (ht_key_size (get_table m p)) (ht_val_size (get_table m p)) (table_abs m p)"

fun content_kind :: "content \<Rightarrow> kind" where
  "content_kind (CQueue e c q) = KRing"
| "content_kind (CArray e c xs) = KArray"
| "content_kind (CList e xs) = KList"
| "content_kind (CMap ks vs M) = KTable"

lemma content_kind [simp]: "content_kind (container_content k m p) = k"
  by (cases k) (simp_all split: prod.splits)

fun container_lock_at :: "kind \<Rightarrow> nat" where
  "container_lock_at KRing = 40"
| "container_lock_at _ = 32"

text \<open>A call fits a container of its kind when its arguments have the container's sizes.\<close>

fun call_fits :: "call \<Rightarrow> content \<Rightarrow> bool" where
  "call_fits (RingCall x) (CQueue e c q) \<longleftrightarrow> ring_op_ok (unat e) x"
| "call_fits (ArrayCall x) (CArray e c xs) \<longleftrightarrow> dyn_op_ok (unat e) x"
| "call_fits (ListCall x) (CList e xs) \<longleftrightarrow> list_op_ok (unat e) x"
| "call_fits (TableCall x) (CMap ks vs M) \<longleftrightarrow>
     table_op_ok \<lparr>ht_num_buckets = 0, ht_key_size = ks, ht_val_size = vs, ht_buckets = 0\<rparr> x"
| "call_fits _ _ \<longleftrightarrow> False"

text \<open>What a call takes from the heap at most, and whether an answer says that an allocation was granted.\<close>

fun call_price :: "call \<Rightarrow> content \<Rightarrow> nat" where
  "call_price (ArrayCall x) (CArray e c xs) = dyn_price e x (c, xs)"
| "call_price (ListCall x) (CList e xs) = list_price e x"
| "call_price (TableCall x) (CMap ks vs M) = table_price vs x"
| "call_price _ _ = 0"

fun call_granted :: "call \<Rightarrow> answer \<Rightarrow> bool" where
  "call_granted (ArrayCall (DPush x)) a \<longleftrightarrow> a = ArrayAns (DCode 0)"
| "call_granted (ArrayCall (DReserve n)) a \<longleftrightarrow> a = ArrayAns (DCode 0)"
| "call_granted (ListCall (LPushBack x)) a \<longleftrightarrow> a = ListAns (LCode 0)"
| "call_granted (ListCall (LPushFront x)) a \<longleftrightarrow> a = ListAns (LCode 0)"
| "call_granted (TableCall (TPut k v)) a \<longleftrightarrow> a = TableAns (TCode 0)"
| "call_granted _ _ \<longleftrightarrow> True"

fun container_run :: "env \<Rightarrow> ShmRegion \<Rightarrow> OffsetPtr \<Rightarrow> call \<Rightarrow> world \<Rightarrow> answer result" where
  "container_run E rg off (RingCall x) w = map_option (apfst RingAns) (ring_step E rg off x w)"
| "container_run E rg off (ArrayCall x) w = map_option (apfst ArrayAns) (dyn_step E rg off x w)"
| "container_run E rg off (ListCall x) w = map_option (apfst ListAns) (list_step E rg off x w)"
| "container_run E rg off (TableCall x) w = map_option (apfst TableAns) (table_run E rg off x w)"

text \<open>What a call does to the contents of a container of its kind.\<close>

fun content_spec :: "call \<Rightarrow> content \<Rightarrow> answer \<Rightarrow> content \<Rightarrow> bool" where
  "content_spec (RingCall x) (CQueue e c q) (RingAns r) b \<longleftrightarrow> (\<exists>q'. queue_spec c x q = (r, q') \<and> b = CQueue e c q')"
| "content_spec (ArrayCall x) (CArray e c xs) (ArrayAns r) b \<longleftrightarrow>
     (\<exists>c' ys. dyn_spec x (c, xs) r (c', ys) \<and> b = CArray e c' ys)"
| "content_spec (ListCall x) (CList e xs) (ListAns r) b \<longleftrightarrow> (\<exists>ys. list_spec x xs r ys \<and> b = CList e ys)"
| "content_spec (TableCall x) (CMap ks vs M) (TableAns r) b \<longleftrightarrow> (\<exists>M'. table_spec x M r M' \<and> b = CMap ks vs M')"
| "content_spec _ _ _ _ \<longleftrightarrow> False"

text \<open>An allocation that costs nothing is not refused.\<close>

lemma alloc_cost_pos [simp]: "alloc_cost z \<noteq> 0"
  by (simp add: alloc_cost_def)

lemma free_call_granted:
  assumes "call_fits x a" and "content_spec x a r b" and "call_price x a = 0"
  shows "call_granted x r"
proof -
  show ?thesis
  proof (cases x)
    case (RingCall y)
    then show ?thesis by simp
  next
    case (ArrayCall y)
    then obtain e c xs q where "a = CArray e c xs" "r = ArrayAns q" using assms(2) by (cases a; cases r) simp_all
    then show ?thesis using assms(2,3) ArrayCall by (cases y) (auto split: if_splits)
  next
    case (ListCall y)
    then obtain e xs q where "a = CList e xs" "r = ListAns q" using assms(2) by (cases a; cases r) simp_all
    then show ?thesis using assms(3) ListCall by (cases y) simp_all
  next
    case (TableCall y)
    then obtain ks vs M q where "a = CMap ks vs M" "r = TableAns q" using assms(2) by (cases a; cases r) simp_all
    then show ?thesis using assms(3) TableCall by (cases y) (simp_all add: put_cost_def)
  qed
qed

section \<open>Undisturbed containers\<close>

lemma ring_undisturbed:
  assumes o: "ring_ok m p" and u: "undisturbed (ring_spans m p) m m'"
  shows "get_ring m' p = get_ring m p" and "ring_ok m' p" and "ring_queue m' p = ring_queue m p"
proof -
  let ?r = "get_ring m p" let ?d = "unat (rb_data_offset ?r)" let ?e = "unat (rb_elem_size ?r)"
  obtain n k where n: "heap_abs m p = Some n" "80 \<le> n" and k: "heap_abs m ?d = Some k" "unat (rb_capacity ?r) * ?e \<le> k"
    using ring_okE [OF o] .
  have "p \<in> ring_spans m p" "?d \<in> ring_spans m p" by (simp_all add: ring_spans_def)
  note pu = undisturbedD [OF u this(1)] and du = undisturbedD [OF u this(2)]
  show g: "get_ring m' p = ?r" using pu(2) [OF n(1)] n(2) by (intro get_ring_same) (auto intro: same_on_sub)
  show "ring_ok m' p" using o pu(1) [OF n(1)] du(1) [OF k(1)] n k by (auto simp: ring_ok_def Let_def g)
  have "ring_slot m' ?r j = ring_slot m ?r j" if "j < unat (rb_capacity ?r)" for j
  proof -
    have "Suc j * ?e \<le> unat (rb_capacity ?r) * ?e" using that by (intro mult_le_mono1) simp
    then have "j * ?e + ?e \<le> k" using k(2) by simp
    then show ?thesis using du(2) [OF k(1)] unfolding ring_slot_def by (intro rd_same_on) (auto intro: same_on_sub)
  qed
  moreover have "0 < unat (rb_capacity ?r)" using ring_okD(1) [OF o] by simp
  ultimately show "ring_queue m' p = ring_queue m p" unfolding ring_queue_def Let_def g by simp
qed

lemma list_undisturbed:
  assumes o: "list_ok m p" and u: "undisturbed (dl_spans m p) m m'"
  shows "get_dynlist m' p = get_dynlist m p" and "list_ok m' p" and "dl_spans m' p = dl_spans m p" and "dl_list m' p = dl_list m p"
proof -
  have r: "dl_repr m p (dl_nodes m p)" using o by (simp add: list_ok_def)
  note k = dl_undisturbed [OF r u [unfolded dl_spans_def]]
  have n: "dl_nodes m' p = dl_nodes m p" by (rule dl_repr_nodes [OF k(2)])
  show "get_dynlist m' p = get_dynlist m p" "list_ok m' p" "dl_spans m' p = dl_spans m p" "dl_list m' p = dl_list m p"
    using k n by (simp_all add: list_ok_def dl_spans_def dl_list_def)
qed

lemma table_undisturbed:
  assumes h: "heap_inv rg m'" and o: "table_ok m p" and u: "undisturbed (table_spans m p) m m'"
  shows "get_table m' p = get_table m p" and "table_ok m' p" and "table_spans m' p = table_spans m p"
    and "table_abs m' p = table_abs m p"
proof -
  have r: "ht_repr m p (ht_read m p)" using o by (simp add: table_ok_def)
  note k = ht_undisturbed [OF r u [unfolded table_spans_def]]
  have n: "ht_read m' p = ht_read m p" by (rule ht_repr_read [OF h k(2)])
  show "get_table m' p = get_table m p" "table_ok m' p" "table_spans m' p = table_spans m p" "table_abs m' p = table_abs m p"
    using k n by (simp_all add: table_ok_def table_spans_def table_abs_def)
qed

lemma container_kept:
  assumes o: "container_ok k m p" and u: "undisturbed (container_spans k m p) m m'" and h: "heap_inv rg m'"
  shows "container_ok k m' p \<and> container_spans k m' p = container_spans k m p \<and>
     container_content k m' p = container_content k m p"
proof (cases k)
  case KRing
  with o u have "ring_ok m p" "undisturbed (ring_spans m p) m m'" by simp_all
  then show ?thesis using ring_undisturbed [of m p m'] KRing by (simp add: ring_spans_def)
next
  case KArray
  with o u have "dyn_ok m p" "undisturbed (dyn_spans m p) m m'" by simp_all
  then show ?thesis using dyn_undisturbed [of m p m'] KArray o
    by (simp add: dyn_spans_def dyn_abs_def)
next
  case KList
  with o u have "list_ok m p" "undisturbed (dl_spans m p) m m'" by simp_all
  then show ?thesis using list_undisturbed [of m p m'] KList o by simp
next
  case KTable
  with o u have "table_ok m p" "undisturbed (table_spans m p) m m'" by simp_all
  then show ?thesis using table_undisturbed [OF h, of m p] KTable o by simp
qed

lemma container_live: "container_ok k m p \<Longrightarrow> q \<in> container_spans k m p \<Longrightarrow> heap_abs m q \<noteq> None"
proof (cases k)
  case KRing
  then show "container_ok k m p \<Longrightarrow> q \<in> container_spans k m p \<Longrightarrow> heap_abs m q \<noteq> None"
    by (auto simp: ring_spans_def ring_ok_def Let_def)
next
  case KArray
  then show "container_ok k m p \<Longrightarrow> q \<in> container_spans k m p \<Longrightarrow> heap_abs m q \<noteq> None"
    using dyn_spans_live [of m p q] by simp
next
  case KList
  then show "container_ok k m p \<Longrightarrow> q \<in> container_spans k m p \<Longrightarrow> heap_abs m q \<noteq> None"
    using dl_spans_live [of m p "dl_nodes m p" q] by (simp add: list_ok_def dl_spans_def)
next
  case KTable
  then show "container_ok k m p \<Longrightarrow> q \<in> container_spans k m p \<Longrightarrow> heap_abs m q \<noteq> None"
    using ht_spans_live [of m p "ht_read m p" q] by (fastforce simp: table_ok_def table_spans_def)
qed

lemma container_header:
  assumes "container_ok k m p"
  shows "p \<in> container_spans k m p \<and> (\<exists>n. heap_abs m p = Some n \<and> container_lock_at k < n)"
proof (cases k)
  case KRing
  then show ?thesis using assms by (auto simp: ring_spans_def ring_ok_def Let_def)
next
  case KArray
  then obtain n where "heap_abs m p = Some n" "72 \<le> n" using assms dyn_okE [of m p] by auto
  then show ?thesis using KArray by (simp add: dyn_spans_def)
next
  case KList
  then obtain n where "heap_abs m p = Some n" "72 \<le> n" using assms dl_reprD(1) [of m p] by (auto simp: list_ok_def)
  then show ?thesis using KList by (simp add: dl_spans_def)
next
  case KTable
  then obtain n where "heap_abs m p = Some n" "72 \<le> n" using assms ht_reprD(1) [of m p] by (auto simp: table_ok_def)
  then show ?thesis using KTable by (simp add: table_spans_def ht_spans_def)
qed

section \<open>The family\<close>

text \<open>An operation of each kind, from a state in which the container's mutex is free, is a step of the
  container's owner.\<close>

lemma ring_call:
  assumes h: "heap_inv rg (bytes w)" and o: "ring_ok (bytes w) (unat off)" and l: "mtx w (unat off + 40) = MFree"
    and k: "ring_op_ok (unat (rb_elem_size (get_ring (bytes w) (unat off)))) x"
  shows "\<exists>r m'. ring_step E rg off x w = Some (r, set_bytes m' w) \<and> heap_inv rg m' \<and> ring_ok m' (unat off) \<and>
     rb_capacity (get_ring m' (unat off)) = rb_capacity (get_ring (bytes w) (unat off)) \<and>
     rb_elem_size (get_ring m' (unat off)) = rb_elem_size (get_ring (bytes w) (unat off)) \<and>
     queue_spec (unat (rb_capacity (get_ring (bytes w) (unat off)))) x (ring_queue (bytes w) (unat off))
       = (r, ring_queue m' (unat off)) \<and>
     owner_step (ring_spans (bytes w) (unat off)) (ring_spans m' (unat off)) (bytes w) m' \<and>
     pays spare 0 (bytes w) m'"
proof -
  have "ring_inv rg off w w" using h o l unfolding ring_inv_def by (metis ring_same_refl set_bytes_same)
  from ring.step_allowed [OF this k, of E] obtain r w' where
    r: "ring_step E rg off x w = Some (r, w')" "ring_inv rg off w w'"
      "queue_spec (unat (rb_capacity (get_ring (bytes w) (unat off)))) x (ring_queue (bytes w) (unat off))
       = (r, ring_queue (bytes w') (unat off))" by blast
  then obtain m where m: "w' = set_bytes m w" "heap_inv rg m" "ring_ok m (unat off)" "ring_same (unat off) (bytes w) m"
    by (auto simp: ring_inv_def)
  have s: "ring_spans m (unat off) = ring_spans (bytes w) (unat off)" using m(4) by (simp add: ring_same_def ring_spans_def)
  have fin: "finite (ring_spans (bytes w) (unat off))" by (simp add: ring_spans_def)
  have sub: "ring_spans (bytes w) (unat off) \<subseteq> dom (heap_abs (bytes w))" using o by (auto simp: ring_spans_def ring_ok_def Let_def)
  have out: "m x = bytes w x"
    if "\<And>p n. p \<in> ring_spans (bytes w) (unat off) \<Longrightarrow> heap_abs (bytes w) p = Some n \<Longrightarrow> x < p \<or> p + n \<le> x" for x
  proof -
    have "x \<notin> ring_bytes (bytes w) (unat off)" using that unfolding ring_bytes_def ring_spans_def Let_def by fastforce
    then show ?thesis using m(4) by (simp add: ring_same_def)
  qed
  note os = svc.own_steps [OF fin h sub out]
  have "owner_step (ring_spans (bytes w) (unat off)) (ring_spans (bytes w) (unat off)) (bytes w) m" using os by blast
  moreover have "pays spare 0 (bytes w) m" using os by (intro pays_same) blast
  ultimately show ?thesis using r(1,3) m s by (auto simp: ring_same_def)
qed

lemma set_bytes_eq_iff [simp]: "set_bytes m w = set_bytes m' w \<longleftrightarrow> m = m'"
  by (auto dest: arg_cong [where f = bytes])

text \<open>A call that is allowed to be refused, and is not while the heap can pay for it.\<close>

lemma container_step:
  assumes h: "heap_inv rg (bytes w)" "unat (rg_size rg) \<le> 2 ^ 61" "ready E w" and o: "container_ok k (bytes w) (unat off)"
    and l: "mtx w (unat off + container_lock_at k) = MFree" and c: "call_fits x (container_content k (bytes w) (unat off))"
  shows "\<exists>r m'. container_run E rg off x w = Some (r, set_bytes m' w) \<and> heap_inv rg m' \<and> container_ok k m' (unat off) \<and>
     content_spec x (container_content k (bytes w) (unat off)) r (container_content k m' (unat off)) \<and>
     owner_step (container_spans k (bytes w) (unat off)) (container_spans k m' (unat off)) (bytes w) m' \<and>
     (\<forall>N. spare (N + call_price x (container_content k (bytes w) (unat off))) (bytes w) \<longrightarrow> call_granted x r \<and> spare N m')"
proof (cases k)
  case KRing
  then obtain y where y: "x = RingCall y" using c by (cases x) simp_all
  have "ring_ok (bytes w) (unat off)" "mtx w (unat off + 40) = MFree"
    "ring_op_ok (unat (rb_elem_size (get_ring (bytes w) (unat off)))) y" using o l c KRing y by simp_all
  from ring_call [OF h(1) this, of E] obtain r m' where
    m: "ring_step E rg off y w = Some (r, set_bytes m' w)" "heap_inv rg m'" "ring_ok m' (unat off)"
     "rb_capacity (get_ring m' (unat off)) = rb_capacity (get_ring (bytes w) (unat off))"
     "rb_elem_size (get_ring m' (unat off)) = rb_elem_size (get_ring (bytes w) (unat off))"
     "queue_spec (unat (rb_capacity (get_ring (bytes w) (unat off)))) y (ring_queue (bytes w) (unat off))
       = (r, ring_queue m' (unat off))"
     "owner_step (ring_spans (bytes w) (unat off)) (ring_spans m' (unat off)) (bytes w) m'" "pays spare 0 (bytes w) m'" by blast
  then show ?thesis using KRing y by (simp add: pays_def)
next
  case KArray
  let ?e = "da_elem_size (get_dynarray (bytes w) (unat off))" and ?a = "dyn_abs (bytes w) (unat off)"
  obtain y where y: "x = ArrayCall y" using c KArray by (cases x) (simp_all split: prod.splits)
  have k: "dyn_ok (bytes w) (unat off)" "mtx w (unat off + 32) = MFree" and e: "unat ?e \<le> 2 ^ 60"
    and cy: "dyn_op_ok (unat ?e) y" using o l c KArray y by (simp_all split: prod.splits)
  note i = dyn_inv_start [OF h(1,3) k h(2) e]
  from dyn.step_allowed [OF i cy] obtain r w' where
    r: "dyn_step E rg off y w = Some (r, w')" "dyn_inv E rg off w w'" "dyn_spec y ?a r (dyn_abs (bytes w') (unat off))" by blast
  then obtain m where m: "w' = set_bytes m w" "heap_inv rg m" "dyn_ok m (unat off)" "da_elem_size (get_dynarray m (unat off)) = ?e"
     "owner_step (dyn_spans (bytes w) (unat off)) (dyn_spans m (unat off)) (bytes w) m" by (auto simp: dyn_inv_def)
  have "call_granted x (ArrayAns r) \<and> spare N m" if f: "spare (N + dyn_price ?e y ?a) (bytes w)" for N
  proof -
    have "r = fst (dyn_exact y ?a)" "spare N m" using dynf.step_funded [OF i cy f] r(1) m(1) by auto
    then show ?thesis using y by (cases y; cases ?a) simp_all
  qed
  then show ?thesis using r m e KArray y by (cases ?a; cases "dyn_abs m (unat off)") auto
next
  case KList
  let ?e = "dl_elem_size (get_dynlist (bytes w) (unat off))" and ?a = "dl_list (bytes w) (unat off)"
  obtain y where y: "x = ListCall y" using c KList by (cases x) simp_all
  have k: "list_ok (bytes w) (unat off)" "mtx w (unat off + 32) = MFree" and e: "unat ?e \<le> 2 ^ 61"
    and cy: "list_op_ok (unat ?e) y" using o l c KList y by simp_all
  have i: "list_inv E rg off w w" using h k e unfolding list_inv_def by (metis private_step_refl set_bytes_same)
  from lst.step_allowed [OF i cy] obtain r w' where
    r: "list_step E rg off y w = Some (r, w')" "list_inv E rg off w w'" "list_spec y ?a r (dl_list (bytes w') (unat off))" by blast
  then obtain m where m: "w' = set_bytes m w" "heap_inv rg m" "list_ok m (unat off)" "dl_elem_size (get_dynlist m (unat off)) = ?e"
     "owner_step (dl_spans (bytes w) (unat off)) (dl_spans m (unat off)) (bytes w) m" by (auto simp: list_inv_def)
  have "call_granted x (ListAns r) \<and> spare N m" if f: "spare (N + list_price ?e y) (bytes w)" for N
  proof -
    have "r = fst (list_exact y ?a)" "spare N m" using lstf.step_funded [OF i cy f] r(1) m(1) by auto
    then show ?thesis using y by (cases y) simp_all
  qed
  then show ?thesis using r m e KList y by auto
next
  case KTable
  let ?t = "get_table (bytes w) (unat off)" and ?a = "table_abs (bytes w) (unat off)"
  obtain y where y: "x = TableCall y" using c KTable by (cases x) simp_all
  have k: "table_ok (bytes w) (unat off)" "mtx w (unat off + 32) = MFree" and e: "unat (ht_val_size ?t) \<le> 2 ^ 62"
    and cy: "table_op_ok ?t y" using o l c KTable y by (simp_all, cases y, simp_all)
  have i: "table_inv E rg off w w" using h k e unfolding table_inv_def by (metis private_step_refl set_bytes_same)
  from tbl.step_allowed [OF i cy] obtain r w' where
    r: "table_run E rg off y w = Some (r, w')" "table_inv E rg off w w'" "table_spec y ?a r (table_abs (bytes w') (unat off))" by blast
  then obtain m where m: "w' = set_bytes m w" "heap_inv rg m" "table_ok m (unat off)" "get_table m (unat off) = ?t"
     "owner_step (table_spans (bytes w) (unat off)) (table_spans m (unat off)) (bytes w) m" by (auto simp: table_inv_def)
  have "call_granted x (TableAns r) \<and> spare N m" if f: "spare (N + table_price (ht_val_size ?t) y) (bytes w)" for N
  proof -
    have "r = fst (table_exact y ?a)" "spare N m" using tblf.step_funded [OF i cy f] r(1) m(1) by auto
    then show ?thesis using y by (cases y) simp_all
  qed
  then show ?thesis using r m e KTable y by auto
qed

interpretation fam: container_family container_ok container_spans container_content container_lock_at call_fits
    container_run content_spec call_price call_granted
  by unfold_locales (fact container_kept container_live container_header container_step free_call_granted)+

end
