(* ===== verification/Lifecycle.thy ===== *)
theory Lifecycle
  imports Containers
begin

text \<open>
  Creating and destroying containers of any kind. A recipe says what to create; creation hands out a
  handle on fresh spans or the null handle, and destruction gives up the spans of one container. Both
  leave the locks that others use and the containers of others alone.
\<close>

section \<open>Creation\<close>

datatype recipe = MakeRing u64 u64 | MakeArray u64 | MakeList u64 | MakeTable u64 u64 u64

fun create_run :: "env \<Rightarrow> ShmRegion \<Rightarrow> recipe \<Rightarrow> world \<Rightarrow> OffsetPtr result" where
  "create_run E rg (MakeRing c e) w = ringbuf_create E rg c e w"
| "create_run E rg (MakeArray e) w = dynarray_create E rg e w"
| "create_run E rg (MakeList e) w = dynlist_create E rg e w"
| "create_run E rg (MakeTable nb ks vs) w = hashtable_create E rg nb ks vs w"

text \<open>What a recipe makes: an empty container of its sizes.\<close>

fun recipe_content :: "recipe \<Rightarrow> content" where
  "recipe_content (MakeRing c e) = CQueue e (unat c) []"
| "recipe_content (MakeArray e) = CArray e 0 []"
| "recipe_content (MakeList e) = CList e []"
| "recipe_content (MakeTable nb ks vs) = CMap ks vs Map.empty"

abbreviation recipe_kind :: "recipe \<Rightarrow> kind" where
  "recipe_kind rc \<equiv> content_kind (recipe_content rc)"

text \<open>The sizes that are not rejected, do not wrap and keep later sizes from wrapping.\<close>

fun recipe_ok :: "recipe \<Rightarrow> bool" where
  "recipe_ok (MakeRing c e) \<longleftrightarrow> 2 \<le> unat c \<and> 0 < unat e \<and> unat c * unat e \<le> 2 ^ 62"
| "recipe_ok (MakeArray e) \<longleftrightarrow> 0 < unat e \<and> unat e \<le> 2 ^ 60"
| "recipe_ok (MakeList e) \<longleftrightarrow> 0 < unat e \<and> unat e \<le> 2 ^ 61"
| "recipe_ok (MakeTable nb ks vs) \<longleftrightarrow>
     0 < unat nb \<and> unat nb \<le> 2 ^ 59 \<and> 0 < unat ks \<and> 0 < unat vs \<and> unat vs \<le> 2 ^ 62"

text \<open>What the recipe takes from the heap: the header object, and the slots or the buckets.\<close>

fun recipe_cost :: "recipe \<Rightarrow> nat" where
  "recipe_cost (MakeRing c e) = alloc_cost 96 + alloc_cost (c * e)"
| "recipe_cost (MakeArray e) = alloc_cost 88"
| "recipe_cost (MakeList e) = alloc_cost 88"
| "recipe_cost (MakeTable nb ks vs) = alloc_cost 88 + alloc_cost (nb * 8)"

lemma recipe_cost_pos [simp]: "recipe_cost rc \<noteq> 0"
  by (cases rc) simp_all

text \<open>A container that was just made at \<open>off\<close> on fresh spans.\<close>

definition made :: "recipe \<Rightarrow> OffsetPtr \<Rightarrow> world \<Rightarrow> world \<Rightarrow> bool" where
  "made rc off w w' \<longleftrightarrow>
     container_ok (recipe_kind rc) (bytes w') (unat off) \<and>
     container_content (recipe_kind rc) (bytes w') (unat off) = recipe_content rc \<and>
     owner_step {} (container_spans (recipe_kind rc) (bytes w') (unat off)) (bytes w) (bytes w') \<and>
     mtx w' (unat off + container_lock_at (recipe_kind rc)) = MFree"

lemma create_step:
  assumes h: "heap_inv rg (bytes w)" and r: "ready E w" and ini: "\<forall>a. rc_mutex_init E a = 0" and rc: "recipe_ok rc"
  obtains off w' where "create_run E rg rc w = Some (off, w')" "heap_inv rg (bytes w')" "locks_kept w w'"
    "off \<noteq> 0 \<Longrightarrow> made rc off w w'" "off = 0 \<Longrightarrow> \<exists>S. owner_step {} S (bytes w) (bytes w')"
    "\<And>N. spare (N + recipe_cost rc) (bytes w) \<Longrightarrow> off \<noteq> 0 \<and> spare N (bytes w')"
proof (cases rc)
  case (MakeRing c e)
  then have k: "2 \<le> unat c" "0 < unat e" "unat c * unat e \<le> 2 ^ 62" using rc by simp_all
  show thesis
  proof (rule ring_create_runs [OF h r ini k])
    fix off w'
    assume a: "ringbuf_create E rg c e w = Some (off, w')" "ring_created rg c e (bytes w) off (bytes w')"
      "off \<noteq> 0 \<Longrightarrow> w' = set_mtx (unat off + 40) MFree (set_bytes (bytes w') w)" "locks_kept w w'"
      and f: "\<And>N. spare (N + alloc_cost 96 + alloc_cost (c * e)) (bytes w) \<Longrightarrow> off \<noteq> 0 \<and> spare N (bytes w')"
    have "mtx w' (unat off + 40) = MFree" if "off \<noteq> 0"
      using arg_cong [OF a(3) [OF that], of mtx] by (simp add: fun_eq_iff)
    note mx = this
    show thesis
    proof (rule that [of off w'])
      show "made rc off w w'" if "off \<noteq> 0" using that a(2) mx MakeRing by (simp add: ring_created_def made_def ring_spans_def)
      show "\<exists>S. owner_step {} S (bytes w) (bytes w')" if "off = 0" using that a(2) by (auto simp: ring_created_def)
      show "off \<noteq> 0 \<and> spare N (bytes w')" if "spare (N + recipe_cost rc) (bytes w)" for N
        using that f [of N] MakeRing by (simp add: add.assoc)
    qed (use a MakeRing in \<open>simp_all add: ring_created_def\<close>)
  qed
next
  case (MakeArray e)
  then have k: "0 < unat e" "unat e \<le> 2 ^ 60" using rc by simp_all
  show thesis
  proof (cases rule: dyn_create_runs [OF h r ini k(1)])
    case (1 off m)
    then show thesis using that [of off "set_mtx (unat off + 32) MFree (set_bytes m w)"] MakeArray k(2)
      by (simp add: made_def pays_def)
  next
    case (2 m)
    then show thesis using that [of 0 "set_bytes m w"] MakeArray cost_covers [of _ "bytes w" 88] by fastforce
  qed
next
  case (MakeList e)
  then have k: "0 < unat e" "unat e \<le> 2 ^ 61" using rc by simp_all
  show thesis
  proof (cases rule: dl_create_runs [OF h r ini k(1)])
    case (1 off m)
    then show thesis using that [of off "set_mtx (unat off + 32) MFree (set_bytes m w)"] MakeList k(2)
      by (simp add: made_def pays_def)
  next
    case (2 m)
    then show thesis using that [of 0 "set_bytes m w"] MakeList cost_covers [of _ "bytes w" 88] by fastforce
  qed
next
  case (MakeTable nb ks vs)
  then have k: "0 < unat nb" "unat nb \<le> 2 ^ 59" "0 < unat ks" "0 < unat vs" and v: "unat vs \<le> 2 ^ 62" using rc by simp_all
  show thesis
  proof (rule table_create_runs [OF h r ini k])
    fix off w'
    assume a: "hashtable_create E rg nb ks vs w = Some (off, w')" "table_created rg nb ks vs (bytes w) off (bytes w')"
      "off \<noteq> 0 \<Longrightarrow> mtx w' (unat off + 32) = MFree" "locks_kept w w'"
      and f: "\<And>N. spare (N + alloc_cost 88 + alloc_cost (nb * 8)) (bytes w) \<Longrightarrow> off \<noteq> 0 \<and> spare N (bytes w')"
    show thesis
    proof (rule that [of off w'])
      show "made rc off w w'" if "off \<noteq> 0" using that a(2,3) v MakeTable by (auto simp: table_created_def made_def)
      show "\<exists>S. owner_step {} S (bytes w) (bytes w')" if "off = 0" using that a(2) by (auto simp: table_created_def)
      show "off \<noteq> 0 \<and> spare N (bytes w')" if "spare (N + recipe_cost rc) (bytes w)" for N
        using that f [of N] MakeTable by (simp add: add.assoc)
    qed (use a MakeTable in \<open>simp_all add: table_created_def\<close>)
  qed
qed

section \<open>Destruction\<close>

fun destroy_run :: "env \<Rightarrow> ShmRegion \<Rightarrow> kind \<Rightarrow> OffsetPtr \<Rightarrow> world \<Rightarrow> unit result" where
  "destroy_run E rg KRing off w = ringbuf_destroy E rg off w"
| "destroy_run E rg KArray off w = dynarray_destroy E rg off w"
| "destroy_run E rg KList off w = dynlist_destroy E rg off w"
| "destroy_run E rg KTable off w = hashtable_destroy E rg off w"

text \<open>What may be destroyed: any ring buffer, array and table, and a list whose elements but the last are
  quiet, in particular a list of at most one element. Destroying a list frees at addresses that are
  not allocations, where \<open>allocator_free\<close> takes each element but the last for part of a block header;
  a quiet element (\<open>quiet_elem\<close>: at least eight bytes, marked free or of no shard) makes it refuse
  before it locks anything. Lists of other elements are outside the requests; what becomes of their
  nodes is \<open>dynlist_destroy_leaks\<close>.\<close>

fun droppable :: "content \<Rightarrow> bool" where
  "droppable (CList e xs) \<longleftrightarrow> (\<forall>x \<in> set (butlast xs). quiet_elem x)"
| "droppable _ \<longleftrightarrow> True"

lemma destroy_step:
  assumes h: "heap_inv rg (bytes w)" and r: "ready E w" and o: "container_ok k (bytes w) (unat off)"
    and l: "mtx w (unat off + container_lock_at k) = MFree" and d: "droppable (container_content k (bytes w) (unat off))"
  obtains m' T where
    "destroy_run E rg k off w = Some ((), set_mtx (unat off + container_lock_at k) MUninit (set_bytes m' w))"
    "heap_inv rg m'" "owner_step (container_spans k (bytes w) (unat off)) T (bytes w) m'" "pays spare 0 (bytes w) m'"
proof (cases k)
  case KRing
  then have "ring_ok (bytes w) (unat off)" "mtx w (unat off + 40) = MFree" using o l by simp_all
  from ringbuf_destroy_runs [OF h r this] obtain m' T where
    "ringbuf_destroy E rg off w = Some ((), set_mtx (unat off + 40) MUninit (set_bytes m' w))" "heap_inv rg m'"
    "owner_step (ring_spans (bytes w) (unat off)) T (bytes w) m'" "pays spare 0 (bytes w) m'"
    unfolding ring_spans_def by blast
  then show thesis using that [of m' T] KRing by simp
next
  case KArray
  then have "dyn_ok (bytes w) (unat off)" "mtx w (unat off + 32) = MFree" using o l by simp_all
  from dynarray_destroy_runs [OF h r this] obtain m' T where
    "dynarray_destroy E rg off w = Some ((), set_mtx (unat off + 32) MUninit (set_bytes m' w))" "heap_inv rg m'"
    "owner_step (dyn_spans (bytes w) (unat off)) T (bytes w) m'" "pays spare 0 (bytes w) m'"
    by blast
  then show thesis using that [of m' T] KArray by simp
next
  case KList
  then have k: "list_ok (bytes w) (unat off)" "mtx w (unat off + 32) = MFree" using o l by simp_all
  have q: "list_quiet (bytes w) (dl_nodes (bytes w) (unat off))" using d KList by (intro list_quiet_elems) simp
  let ?S = "dl_spans (bytes w) (unat off)"
  have "{unat off} \<union> ?S = ?S" by (auto simp: dl_spans_def)
  then have w: "owner_step ?S (T \<union> (?S - {unat off})) (bytes w) m" if "owner_step {unat off} T (bytes w) m" for T m
    using private_step_widen [OF that, of ?S] by simp
  from dynlist_destroy_runs [OF h r k q] obtain m' T where
    "dynlist_destroy E rg off w = Some ((), set_mtx (unat off + 32) MUninit (set_bytes m' w))" "heap_inv rg m'"
    "owner_step {unat off} T (bytes w) m'" "pays spare 0 (bytes w) m'"
    by blast
  then show thesis using that [of m' "T \<union> (?S - {unat off})"] w KList by simp
next
  case KTable
  then have "table_ok (bytes w) (unat off)" "mtx w (unat off + 32) = MFree" using o l by simp_all
  from hashtable_destroy_runs [OF h r this] obtain m' T where
    "hashtable_destroy E rg off w = Some ((), set_mtx (unat off + 32) MUninit (set_bytes m' w))" "heap_inv rg m'"
    "owner_step (table_spans (bytes w) (unat off)) T (bytes w) m'" "pays spare 0 (bytes w) m'"
    by blast
  then show thesis using that [of m' T] KTable by simp
qed

end
