(* ===== verification/RegionLife.thy ===== *)
theory RegionLife
  imports RegionSpec
begin

text \<open>
  The lifecycle calls of src/core/shm_region.c: create, open, close and unlink, and the
  initialization of the synchronization primitives. The kernel's answers to the system calls are
  the fields of \<open>kernel\<close>; the resources they hand out are the state \<open>os\<close>: the open file
  descriptors, the mapped ranges and whether the object's name is in the namespace. The
  \<open>world\<close> is the shared object the name denotes.
\<close>

section \<open>System calls\<close>

definition ENOENT :: int where "ENOENT = 2"
definition EEXIST :: int where "EEXIST = 17"

text \<open>\<open>k_open\<close> is the descriptor or a negative number, \<open>k_mmap\<close> is \<open>None\<close> for \<open>MAP_FAILED\<close>,
  \<open>k_fstat\<close> the return code and \<open>st_size\<close>.\<close>

record kernel =
  k_open :: int
  k_errno :: int
  k_ftruncate :: int
  k_mmap :: "u64 option"
  k_fstat :: "int \<times> int"
  k_munmap :: int
  k_close :: int
  k_unlink :: "int \<times> int"

record os =
  os_fds :: "int list"
  os_maps :: "(u64 \<times> u64) list"
  os_linked :: bool

definition sys_shm_open :: "kernel \<Rightarrow> bool \<Rightarrow> os \<Rightarrow> int \<times> os" where
  "sys_shm_open K creating s =
     (if k_open K < 0 then (k_open K, s)
      else (k_open K, s\<lparr>os_fds := k_open K # os_fds s, os_linked := creating \<or> os_linked s\<rparr>))"

definition sys_mmap :: "kernel \<Rightarrow> u64 \<Rightarrow> os \<Rightarrow> u64 option \<times> os" where
  "sys_mmap K sz s =
     (case k_mmap K of
        None \<Rightarrow> (None, s)
      | Some a \<Rightarrow> (Some a, s\<lparr>os_maps := (a, sz) # os_maps s\<rparr>))"

definition sys_munmap :: "kernel \<Rightarrow> u64 \<Rightarrow> u64 \<Rightarrow> os \<Rightarrow> int \<times> os" where
  "sys_munmap K a sz s =
     (k_munmap K, if k_munmap K = 0 then s\<lparr>os_maps := remove1 (a, sz) (os_maps s)\<rparr> else s)"

definition sys_close :: "kernel \<Rightarrow> int \<Rightarrow> os \<Rightarrow> int \<times> os" where
  "sys_close K fd s =
     (k_close K, if k_close K = 0 then s\<lparr>os_fds := remove1 fd (os_fds s)\<rparr> else s)"

definition sys_shm_unlink :: "kernel \<Rightarrow> os \<Rightarrow> int \<times> os" where
  "sys_shm_unlink K s =
     (fst (k_unlink K), if fst (k_unlink K) = 0 then s\<lparr>os_linked := False\<rparr> else s)"

section \<open>Synchronization primitives\<close>

definition shm_region_init_one_mutex :: "env \<Rightarrow> nat \<Rightarrow> world \<Rightarrow> OffsetStoreStatus \<times> world" where
  "shm_region_init_one_mutex E mutex w =
     (if rc_mutexattr_init E \<noteq> 0 then (STATUS_SYSTEM_ERROR, w)
      else if rc_mutexattr_setpshared E \<noteq> 0 then (STATUS_SYSTEM_ERROR, w)
      else if def_ROBUST E \<and> rc_mutexattr_setrobust E \<noteq> 0 then (STATUS_SYSTEM_ERROR, w)
      else let (rc, w1) = pthread_mutex_init E mutex w in
        if rc \<noteq> 0 then (STATUS_SYSTEM_ERROR, w1) else (STATUS_OK, w1))"

definition shm_region_init_one_rwlock :: "env \<Rightarrow> nat \<Rightarrow> world \<Rightarrow> OffsetStoreStatus \<times> world" where
  "shm_region_init_one_rwlock E rwlock w =
     (if rc_rwlockattr_init E \<noteq> 0 then (STATUS_SYSTEM_ERROR, w)
      else if rc_rwlockattr_setpshared E \<noteq> 0 then (STATUS_SYSTEM_ERROR, w)
      else let (rc, w1) = pthread_rwlock_init E rwlock w in
        if rc \<noteq> 0 then (STATUS_SYSTEM_ERROR, w1) else (STATUS_OK, w1))"

definition shm_region_init_mutexes :: "env \<Rightarrow> world \<Rightarrow> OffsetStoreStatus \<times> world" where
  "shm_region_init_mutexes E w =
     (let (st1, w1) = shm_region_init_one_mutex E HDR_allocator_mutex w in
      if st1 \<noteq> STATUS_OK then (st1, w1)
      else let (st2, w2) = shm_region_init_one_rwlock E HDR_roots_rwlock w1 in
        if st2 \<noteq> STATUS_OK then (st2, w2)
        else shm_region_init_one_rwlock E HDR_index_rwlock w2)"

section \<open>Lifecycle\<close>

definition shm_region_map_fd ::
    "kernel \<Rightarrow> ShmRegion \<Rightarrow> int \<Rightarrow> u64 \<Rightarrow> bool \<Rightarrow> os \<Rightarrow> bool \<times> ShmRegion \<times> os" where
  "shm_region_map_fd K region fd sz creator s =
     (if \<not> shm_region_is_size_valid sz then (False, region, s)
      else let (mapping, s1) = sys_mmap K sz s in
        case mapping of
          None \<Rightarrow> (False, region, s1)
        | Some a \<Rightarrow>
            (True, region\<lparr>rg_fd := fd, rg_base := a, rg_size := sz, rg_creator := creator\<rparr>, s1))"

definition shm_region_close ::
    "kernel \<Rightarrow> ShmRegion option \<Rightarrow> os \<Rightarrow> OffsetStoreStatus \<times> ShmRegion option \<times> os" where
  "shm_region_close K region s =
     (case region of
        None \<Rightarrow> (STATUS_INVALID_ARGUMENT, region, s)
      | Some rg \<Rightarrow>
          let (u, s1) = (if rg_base rg \<noteq> 0 then sys_munmap K (rg_base rg) (rg_size rg) s else (0, s)) in
          if rg_base rg \<noteq> 0 \<and> u \<noteq> 0 then (STATUS_SYSTEM_ERROR, region, s1)
          else
            let (c, s2) = (if 0 \<le> rg_fd rg then sys_close K (rg_fd rg) s1 else (0, s1)) in
            if 0 \<le> rg_fd rg \<and> c \<noteq> 0 then (STATUS_SYSTEM_ERROR, region, s2)
            else (STATUS_OK, shm_region_reset region, s2))"

text \<open>The header the creator writes before the primitives are initialized.\<close>

definition shm_region_write_header :: "u64 \<Rightarrow> mem \<Rightarrow> mem" where
  "shm_region_write_header total_size m =
     (let m1 = zero m 0 SIZEOF_ShmRegionHeader;
          m2 = st64 m1 HDR_magic REGION_MAGIC;
          m3 = st32 m2 HDR_version REGION_VERSION;
          m4 = st32 m3 HDR_state_flags REGION_STATE_INITIALIZING;
          m5 = st64 m4 HDR_generation 1;
          m6 = st64 m5 HDR_total_size total_size;
          m7 = shm_region_init_roots m6
      in shm_region_init_index m7)"

definition shm_region_create ::
    "kernel \<Rightarrow> env \<Rightarrow> ShmRegion option \<Rightarrow> cstr option \<Rightarrow> u64 \<Rightarrow> os \<Rightarrow> world
       \<Rightarrow> OffsetStoreStatus \<times> ShmRegion option \<times> os \<times> world" where
  "shm_region_create K E out_region name sz s w =
     (if out_region = None \<or> name = None \<or> \<not> shm_region_is_size_valid sz
      then (STATUS_INVALID_ARGUMENT, out_region, s, w)
      else
        let region = the (shm_region_reset out_region);
            (fd, s1) = sys_shm_open K True s
        in if fd < 0
           then (if k_errno K = EEXIST then STATUS_ALREADY_EXISTS else STATUS_SYSTEM_ERROR,
                 Some region, s1, w)
           else if k_ftruncate K \<noteq> 0
           then (STATUS_SYSTEM_ERROR, Some region, snd (sys_shm_unlink K (snd (sys_close K fd s1))), w)
           else
             let (ok, region1, s2) = shm_region_map_fd K region fd sz True s1 in
             if \<not> ok
             then (STATUS_SYSTEM_ERROR, Some region1, snd (sys_shm_unlink K (snd (sys_close K fd s2))), w)
             else
               let w1 = set_bytes (shm_region_write_header (rg_size region1) (bytes w)) w;
                   (status, w2) = shm_region_init_mutexes E w1
               in if status \<noteq> STATUS_OK
                  then let (_, region2, s3) = shm_region_close K (Some region1) s2
                       in (status, region2, snd (sys_shm_unlink K s3), w2)
                  else
                    let m1 = st32 (bytes w2) HDR_state_flags REGION_STATE_READY
                    in (STATUS_OK, Some region1, s2,
                        set_bytes (shm_region_refresh_header_checksum m1) w2))"

definition shm_region_open ::
    "kernel \<Rightarrow> ShmRegion option \<Rightarrow> cstr option \<Rightarrow> os \<Rightarrow> mem
       \<Rightarrow> OffsetStoreStatus \<times> ShmRegion option \<times> os" where
  "shm_region_open K out_region name s m =
     (if out_region = None \<or> name = None then (STATUS_INVALID_ARGUMENT, out_region, s)
      else
        let region = the (shm_region_reset out_region);
            (fd, s1) = sys_shm_open K False s
        in if fd < 0
           then (if k_errno K = ENOENT then STATUS_NOT_FOUND else STATUS_SYSTEM_ERROR, Some region, s1)
           else if fst (k_fstat K) \<noteq> 0 \<or> snd (k_fstat K) \<le> 0
           then (STATUS_SYSTEM_ERROR, Some region, snd (sys_close K fd s1))
           else
             let (ok, region1, s2) = shm_region_map_fd K region fd (of_int (snd (k_fstat K))) False s1 in
             if \<not> ok then (STATUS_SYSTEM_ERROR, Some region1, snd (sys_close K fd s2))
             else if \<not> shm_region_validate_header (Some region1) m
             then let (_, region2, s3) = shm_region_close K (Some region1) s2
                  in (STATUS_INVALID_STATE, region2, s3)
             else (STATUS_OK, Some region1, s2))"

definition shm_region_unlink :: "kernel \<Rightarrow> cstr option \<Rightarrow> os \<Rightarrow> OffsetStoreStatus \<times> os" where
  "shm_region_unlink K name s =
     (if name = None then (STATUS_INVALID_ARGUMENT, s)
      else
        let (rc, s1) = sys_shm_unlink K s in
        if rc \<noteq> 0
        then (if snd (k_unlink K) = ENOENT then STATUS_NOT_FOUND else STATUS_SYSTEM_ERROR, s1)
        else (STATUS_OK, s1))"

section \<open>What create establishes\<close>

text \<open>The calls \<open>create\<close> makes succeed; a mapping is never at address zero.\<close>

definition create_calls_ok :: "kernel \<Rightarrow> env \<Rightarrow> bool" where
  "create_calls_ok K E \<longleftrightarrow>
     0 \<le> k_open K \<and> k_ftruncate K = 0 \<and> k_mmap K \<noteq> None \<and> k_mmap K \<noteq> Some 0 \<and>
     rc_mutexattr_init E = 0 \<and> rc_mutexattr_setpshared E = 0 \<and> rc_mutexattr_setrobust E = 0 \<and>
     (\<forall>a. rc_mutex_init E a = 0) \<and> rc_rwlockattr_init E = 0 \<and> rc_rwlockattr_setpshared E = 0 \<and>
     (\<forall>a. rc_rwlock_init E a = 0)"

lemma init_mutexes_run:
  assumes "create_calls_ok K E"
  shows "shm_region_init_mutexes E w =
     (STATUS_OK, set_rwl HDR_index_rwlock RWFree (set_rwl HDR_roots_rwlock RWFree (set_mtx HDR_allocator_mutex MFree w)))"
  using assms by (simp add: create_calls_ok_def shm_region_init_mutexes_def shm_region_init_one_mutex_def
      shm_region_init_one_rwlock_def pthread_mutex_init_def pthread_rwlock_init_def)

text \<open>The finished header: the scalar fields, empty tables, and nothing written behind it.\<close>

definition fresh_header :: "u64 \<Rightarrow> mem \<Rightarrow> mem" where
  "fresh_header sz m =
     shm_region_refresh_header_checksum (st32 (shm_region_write_header sz m) HDR_state_flags REGION_STATE_READY)"

lemma write_header_low:
  assumes "x < 192"
  shows "shm_region_write_header sz m x =
     st64 (st64 (st32 (st32 (st64 (zero m 0 2496) 0 REGION_MAGIC) 8 REGION_VERSION) 12 REGION_STATE_INITIALIZING) 16 1)
       24 sz x"
  using assms by (simp add: shm_region_write_header_def Let_def shm_region_init_index_def shm_region_init_roots_def
      table_clear_outside)

lemma fresh_header_fields:
  "ld64 (fresh_header sz m) 0 = REGION_MAGIC" "ld32 (fresh_header sz m) 8 = REGION_VERSION"
  "ld32 (fresh_header sz m) 12 = REGION_STATE_READY" "ld64 (fresh_header sz m) 16 = 1"
  "ld64 (fresh_header sz m) 24 = sz"
proof -
  let ?h = "st64 (st64 (st32 (st32 (st64 (zero m 0 2496) 0 REGION_MAGIC) 8 REGION_VERSION) 12 REGION_STATE_INITIALIZING) 16 1)
       24 sz"
  have so: "same_on (st32 ?h 12 REGION_STATE_READY) (fresh_header sz m) 0 32"
  proof (rule same_onI)
    fix x :: nat assume "x < 32"
    then show "fresh_header sz m x = st32 ?h 12 REGION_STATE_READY x"
      using write_header_low [of x sz m] by (simp add: fresh_header_def refresh_outside) (simp add: st32_def wr_def)
  qed
  have "ld64 (fresh_header sz m) a = ld64 (st32 ?h 12 REGION_STATE_READY) a" if "a + 8 \<le> 32" for a
    using that by (intro ld64_same_on same_on_sub [OF so]) simp_all
  then show "ld64 (fresh_header sz m) 0 = REGION_MAGIC" "ld64 (fresh_header sz m) 16 = 1" "ld64 (fresh_header sz m) 24 = sz"
    by simp_all
  have "ld32 (fresh_header sz m) a = ld32 (st32 ?h 12 REGION_STATE_READY) a" if "a + 4 \<le> 32" for a
    using that by (intro ld32_same_on same_on_sub [OF so]) simp_all
  then show "ld32 (fresh_header sz m) 8 = REGION_VERSION" "ld32 (fresh_header sz m) 12 = REGION_STATE_READY"
    by simp_all
qed

lemma fresh_header_valid:
  assumes "rg_base rg \<noteq> 0" and "rg_size rg = sz"
  shows "shm_region_validate_header (Some rg) (fresh_header sz m)"
  using assms fresh_header_fields refresh_checksum by (simp add: shm_region_validate_header_def fresh_header_def)

lemma fresh_header_tables:
  shows "roots_map (fresh_header sz m) = Map.empty" "index_map (fresh_header sz m) = Map.empty"
    and "tables_ok (fresh_header sz m)" and "2496 \<le> x \<Longrightarrow> fresh_header sz m x = m x" and "tables_exact (fresh_header sz m)"
proof -
  let ?t = "\<lambda>m6. table_clear (table_clear m6 192 16) 960 32"
  have hi: "fresh_header sz m x = ?t (st64 (st64 (st32 (st32 (st64 (zero m 0 2496) 0 REGION_MAGIC) 8 REGION_VERSION)
      12 REGION_STATE_INITIALIZING) 16 1) 24 sz) x" if "192 \<le> x" for x
    using that by (simp add: fresh_header_def refresh_outside shm_region_write_header_def Let_def
        shm_region_init_index_def shm_region_init_roots_def) (simp add: st32_def wr_def)
  have r: "fresh_header sz m (entry_at HDR_roots i) = 0" if "i < ROOT_CAPACITY" for i
  proof -
    have "fresh_header sz m (entry_at 192 i) = 0"
      using that by (subst hi) (simp_all add: entry_at_def table_clear_outside,
          simp add: table_clear_unused [of i 16 _ 192, simplified entry_at_def entry_layout])
    then show ?thesis by simp
  qed
  have ix: "fresh_header sz m (entry_at HDR_index i) = 0" if "i < INDEX_CAPACITY" for i
    using that hi [of "entry_at 960 i"] table_clear_unused [of i 32 _ 960] by (simp add: entry_at_def)
  show "roots_map (fresh_header sz m) = Map.empty"
    using roots.unused_empty(1) [of "fresh_header sz m", OF r] by (auto simp: roots_map_def named_def)
  show "index_map (fresh_header sz m) = Map.empty"
    using index.unused_empty(1) [of "fresh_header sz m", OF ix] by (auto simp: index_map_def named_def)
  show "tables_ok (fresh_header sz m)"
    unfolding tables_ok_def using roots.unused_empty(2) [of "fresh_header sz m", OF r]
      index.unused_empty(2) [of "fresh_header sz m", OF ix] by simp
  show "tables_exact (fresh_header sz m)"
    unfolding tables_exact_def using roots.unused_empty(3) [of "fresh_header sz m", OF r]
      index.unused_empty(3) [of "fresh_header sz m", OF ix] by simp
  show "fresh_header sz m x = m x" if "2496 \<le> x"
    using that hi [of x] by (simp add: table_clear_outside st64_def st32_def wr_def zero_def)
qed

lemma create_runs:
  assumes k: "create_calls_ok K E" and sz: "2496 \<le> unat sz"
  shows "\<exists>a s' w'. shm_region_create K E (Some old) (Some name) sz s w =
       (STATUS_OK, Some \<lparr>rg_fd = k_open K, rg_base = a, rg_size = sz, rg_creator = True\<rparr>, s', w') \<and>
     k_mmap K = Some a \<and>
     shm_region_validate_header (Some \<lparr>rg_fd = k_open K, rg_base = a, rg_size = sz, rg_creator = True\<rparr>) (bytes w') \<and>
     roots_map (bytes w') = Map.empty \<and> index_map (bytes w') = Map.empty \<and> tables_ok (bytes w') \<and> tables_exact (bytes w') \<and>
     mtx w' HDR_allocator_mutex = MFree \<and> rwl w' HDR_roots_rwlock = RWFree \<and> rwl w' HDR_index_rwlock = RWFree \<and>
     (\<forall>x \<ge> 2496. bytes w' x = bytes w x) \<and> held_shard w' = held_shard w \<and>
     os_fds s' = k_open K # os_fds s \<and> os_maps s' = (a, sz) # os_maps s \<and> os_linked s'"
proof -
  obtain a where a: "k_mmap K = Some a" "a \<noteq> 0" using k by (auto simp: create_calls_ok_def)
  let ?rg = "\<lparr>rg_fd = k_open K, rg_base = a, rg_size = sz, rg_creator = True\<rparr>"
  define s' where "s' = s\<lparr>os_fds := k_open K # os_fds s, os_linked := True, os_maps := (a, sz) # os_maps s\<rparr>"
  define w' where "w' = set_bytes (fresh_header sz (bytes w))
     (set_rwl HDR_index_rwlock RWFree (set_rwl HDR_roots_rwlock RWFree (set_mtx HDR_allocator_mutex MFree w)))"
  have "shm_region_create K E (Some old) (Some name) sz s w = (STATUS_OK, Some ?rg, s', w')"
    using k sz a init_mutexes_run [OF k]
    by (cases old) (simp add: shm_region_create_def shm_region_is_size_valid_def shm_region_reset_def sys_shm_open_def
        create_calls_ok_def shm_region_map_fd_def sys_mmap_def s'_def w'_def fresh_header_def)
  moreover have "shm_region_validate_header (Some ?rg) (bytes w')"
    using fresh_header_valid [of ?rg sz "bytes w"] a by (simp add: w'_def)
  ultimately show ?thesis using a fresh_header_tables [where sz = sz and m = "bytes w"] by (auto simp: w'_def s'_def)
qed

text \<open>C23: When the system calls succeed, \<open>shm_region_create\<close> returns \<open>OK\<close> and a descriptor of the
  mapping; the header validates, both name tables are empty, the three primitives are initialized
  and free, and nothing behind the header is written.\<close>

theorem shm_region_create_establishes:
  assumes k: "create_calls_ok K E" and sz: "2496 \<le> unat sz"
  shows "\<exists>a s' w'. shm_region_create K E (Some old) (Some name) sz s w =
       (STATUS_OK, Some \<lparr>rg_fd = k_open K, rg_base = a, rg_size = sz, rg_creator = True\<rparr>, s', w') \<and>
     k_mmap K = Some a \<and>
     shm_region_validate_header (Some \<lparr>rg_fd = k_open K, rg_base = a, rg_size = sz, rg_creator = True\<rparr>) (bytes w') \<and>
     roots_map (bytes w') = Map.empty \<and> index_map (bytes w') = Map.empty \<and> tables_ok (bytes w') \<and> tables_exact (bytes w') \<and>
     mtx w' HDR_allocator_mutex = MFree \<and> rwl w' HDR_roots_rwlock = RWFree \<and> rwl w' HDR_index_rwlock = RWFree \<and>
     (\<forall>x \<ge> 2496. bytes w' x = bytes w x) \<and> held_shard w' = held_shard w \<and>
     os_fds s' = k_open K # os_fds s \<and> os_maps s' = (a, sz) # os_maps s \<and> os_linked s'"
  using create_runs [OF assms] .

section \<open>No leak on failure\<close>

text \<open>The cleanup calls succeed.\<close>

definition cleanup_ok :: "kernel \<Rightarrow> bool" where
  "cleanup_ok K \<longleftrightarrow> k_munmap K = 0 \<and> k_close K = 0 \<and> fst (k_unlink K) = 0 \<and> k_mmap K \<noteq> Some 0"

lemma create_outcome:
  assumes c: "cleanup_ok K" and sz: "2496 \<le> unat sz"
    and r: "shm_region_create K E (Some old) (Some name) sz s w = (st, rg, s', w')"
  shows "if st = STATUS_OK
     then \<exists>a. rg = Some \<lparr>rg_fd = k_open K, rg_base = a, rg_size = sz, rg_creator = True\<rparr> \<and> 0 \<le> k_open K \<and> a \<noteq> 0 \<and>
       os_fds s' = k_open K # os_fds s \<and> os_maps s' = (a, sz) # os_maps s
     else os_fds s' = os_fds s \<and> os_maps s' = os_maps s \<and> rg = shm_region_reset (Some old) \<and>
       os_linked s' = (if k_open K < 0 then os_linked s else False)"
  using r c sz
  by (cases old) (auto simp: shm_region_create_def shm_region_is_size_valid_def shm_region_reset_def sys_shm_open_def
      shm_region_map_fd_def sys_mmap_def sys_close_def sys_shm_unlink_def sys_munmap_def shm_region_close_def
      cleanup_ok_def Let_def split: if_splits option.splits prod.splits)

lemma open_outcome_region:
  assumes c: "cleanup_ok K" and r: "shm_region_open K (Some old) (Some name) s m = (st, rg, s')"
  shows "if st = STATUS_OK
     then \<exists>a. rg = Some \<lparr>rg_fd = k_open K, rg_base = a, rg_size = of_int (snd (k_fstat K)), rg_creator = False\<rparr> \<and>
       k_mmap K = Some a \<and> 0 \<le> k_open K \<and> a \<noteq> 0 \<and> shm_region_validate_header rg m \<and>
       os_fds s' = k_open K # os_fds s \<and> os_maps s' = (a, of_int (snd (k_fstat K))) # os_maps s
     else os_fds s' = os_fds s \<and> os_maps s' = os_maps s \<and> rg = shm_region_reset (Some old)"
  using r c
  by (cases old) (auto simp: shm_region_open_def shm_region_is_size_valid_def shm_region_reset_def sys_shm_open_def
      shm_region_map_fd_def sys_mmap_def sys_close_def sys_munmap_def shm_region_close_def
      cleanup_ok_def Let_def split: if_splits option.splits prod.splits)

text \<open>C24: A failed \<open>shm_region_create\<close> leaves nothing behind: whatever call fails, no descriptor and
  no mapping stays, the caller's descriptor is reset, and the name it created is removed again
  (when the open itself fails the namespace is as before).\<close>

theorem shm_region_create_failure_clean:
  assumes c: "cleanup_ok K" and sz: "2496 \<le> unat sz"
    and r: "shm_region_create K E (Some old) (Some name) sz s w = (st, rg, s', w')" and f: "st \<noteq> STATUS_OK"
  shows "os_fds s' = os_fds s \<and> os_maps s' = os_maps s \<and> rg = shm_region_reset (Some old) \<and>
     os_linked s' = (if k_open K < 0 then os_linked s else False)"
  using create_outcome [OF c sz r] f by simp

text \<open>C25: \<open>shm_region_open\<close> attaches exactly the objects whose header validates for the size the kernel
  reports: then it returns \<open>OK\<close> and a descriptor of that mapping; otherwise it returns an error,
  and neither a descriptor nor a mapping stays.\<close>

theorem shm_region_open_validates:
  assumes c: "cleanup_ok K" and r: "shm_region_open K (Some old) (Some name) s m = (st, rg, s')"
  shows "if st = STATUS_OK
     then \<exists>a. rg = Some \<lparr>rg_fd = k_open K, rg_base = a, rg_size = of_int (snd (k_fstat K)), rg_creator = False\<rparr> \<and>
       k_mmap K = Some a \<and> shm_region_validate_header rg m \<and>
       os_fds s' = k_open K # os_fds s \<and> os_maps s' = (a, of_int (snd (k_fstat K))) # os_maps s
     else os_fds s' = os_fds s \<and> os_maps s' = os_maps s \<and> rg = shm_region_reset (Some old)"
  using open_outcome_region [OF c r] by (auto split: if_splits)

definition demo_kernel :: kernel where
  "demo_kernel = \<lparr>k_open = 3, k_errno = 0, k_ftruncate = 0, k_mmap = Some 65536, k_fstat = (0, 8192),
     k_munmap = 0, k_close = 0, k_unlink = (0, 0)\<rparr>"

definition demo_os :: os where
  "demo_os = \<lparr>os_fds = [], os_maps = [], os_linked = False\<rparr>"

theorem shm_region_create_establishes_witness:
  "\<exists>rg s' w'. shm_region_create demo_kernel demo_env (Some demo_region) (Some [47]) 8192 demo_os demo_blank
     = (STATUS_OK, Some rg, s', w') \<and> shm_region_validate_header (Some rg) (bytes w')"
proof -
  have "create_calls_ok demo_kernel demo_env" by (simp add: create_calls_ok_def demo_kernel_def demo_env_def)
  from shm_region_create_establishes [OF this, of 8192 demo_region "[47]" demo_os demo_blank] show ?thesis
    by auto
qed

theorem shm_region_create_failure_clean_witness:
  "\<exists>st rg s' w'. shm_region_create (demo_kernel\<lparr>k_ftruncate := - 1\<rparr>) demo_env (Some demo_region) (Some [47]) 8192 demo_os demo_blank
     = (st, rg, s', w') \<and> st = STATUS_SYSTEM_ERROR \<and> os_fds s' = os_fds demo_os \<and> os_linked s' = False"
proof -
  let ?K = "demo_kernel\<lparr>k_ftruncate := - 1\<rparr>"
  obtain st rg s' w' where r: "shm_region_create ?K demo_env (Some demo_region) (Some [47]) 8192 demo_os demo_blank
     = (st, rg, s', w')" by (metis surj_pair)
  have st: "st = STATUS_SYSTEM_ERROR"
    using r by (simp add: shm_region_create_def demo_kernel_def shm_region_is_size_valid_def shm_region_reset_def
        sys_shm_open_def demo_os_def Let_def)
  have "cleanup_ok ?K" by (simp add: cleanup_ok_def demo_kernel_def)
  from shm_region_create_failure_clean [OF this _ r] st r show ?thesis by (simp add: demo_kernel_def)
qed

theorem shm_region_open_validates_witness:
  "\<exists>rg s'. shm_region_open demo_kernel (Some demo_region) (Some [47]) demo_os (bytes demo_blank)
     = (STATUS_INVALID_STATE, rg, s') \<and> os_fds s' = [] \<and> os_maps s' = []"
proof -
  obtain st rg s' where r: "shm_region_open demo_kernel (Some demo_region) (Some [47]) demo_os (bytes demo_blank) = (st, rg, s')"
    by (metis surj_pair)
  have "ld64 (bytes demo_blank) 0 \<noteq> REGION_MAGIC" by (simp add: demo_blank_def ld64_zeros REGION_MAGIC_def)
  then have v: "\<not> shm_region_validate_header (Some q) (bytes demo_blank)" for q
    by (simp add: shm_region_validate_header_def)
  have st: "st = STATUS_INVALID_STATE"
    using r v by (simp add: shm_region_open_def demo_kernel_def shm_region_is_size_valid_def shm_region_reset_def
        sys_shm_open_def shm_region_map_fd_def sys_mmap_def shm_region_close_def sys_munmap_def sys_close_def
        demo_region_def Let_def)
  have "cleanup_ok demo_kernel" by (simp add: cleanup_ok_def demo_kernel_def)
  from shm_region_open_validates [OF this r] st r show ?thesis by (simp add: demo_os_def)
qed

end
