(* ===== verification/RegionChecksum.thy ===== *)
theory RegionChecksum
  imports RegionLife
begin

text \<open>
  The header checksum detects corruption: the multiplier is odd, so each FNV step is injective in
  the running value and in the byte, and a header that validates stops validating when any one
  byte of its scalar fields, its stored checksum or its tables changes.
\<close>

definition fnv_step :: "u8 \<Rightarrow> u64 \<Rightarrow> u64" where
  "fnv_step b c = (c XOR ucast b) * REGION_CHECKSUM_MULTIPLIER"

lemma multiplier_cancel:
  assumes "a * REGION_CHECKSUM_MULTIPLIER = b * REGION_CHECKSUM_MULTIPLIER"
  shows "a = b"
proof -
  have inv: "REGION_CHECKSUM_MULTIPLIER * 14886173955864302971 = (1 :: u64)"
    by (simp add: REGION_CHECKSUM_MULTIPLIER_def)
  have "a * (REGION_CHECKSUM_MULTIPLIER * 14886173955864302971) = b * (REGION_CHECKSUM_MULTIPLIER * 14886173955864302971)"
    using assms by (simp only: mult.assoc [symmetric])
  then show ?thesis by (simp only: inv mult_1_right)
qed

lemma unat_ucast_u8: "unat (ucast (b :: u8) :: u64) = unat b"
proof -
  have "unat b < 256" using unsigned_less [of b] by simp
  then show ?thesis by (simp add: unsigned_ucast_eq take_bit_nat_eq_self)
qed

lemma fnv_step_inj:
  assumes "fnv_step b c = fnv_step b' c'"
  shows "c = c' \<Longrightarrow> b = b'" and "b = b' \<Longrightarrow> c = c'"
proof -
  have e: "c XOR ucast b = c' XOR ucast b'"
    using multiplier_cancel assms by (simp add: fnv_step_def)
  show "c = c'" if "b = b'"
  proof -
    have "(c XOR ucast b) XOR ucast b = (c' XOR ucast b) XOR ucast b" using e that by simp
    then show ?thesis by (simp add: xor.assoc)
  qed
  show "b = b'" if "c = c'"
  proof -
    have "c XOR (c XOR ucast b) = c XOR (c XOR ucast b')" using e that by simp
    then have "(ucast b :: u64) = ucast b'" by (simp add: xor.assoc [symmetric])
    then have "unat (ucast b :: u64) = unat (ucast b' :: u64)" by simp
    then show ?thesis by (simp add: unat_ucast_u8 word_eq_iff_unat)
  qed
qed

lemma fnv_fold_inj: "fold fnv_step bs c = fold fnv_step bs c' \<Longrightarrow> c = c'"
  by (induction bs arbitrary: c c') (auto dest: fnv_step_inj(2) [OF _ refl])

lemma fnv_fold_differs:
  assumes "a \<noteq> b"
  shows "fold fnv_step (us @ a # vs) c \<noteq> fold fnv_step (us @ b # vs) c"
proof
  assume "fold fnv_step (us @ a # vs) c = fold fnv_step (us @ b # vs) c"
  then have "fnv_step a (fold fnv_step us c) = fnv_step b (fold fnv_step us c)"
    by (auto intro: fnv_fold_inj)
  from fnv_step_inj(1) [OF this refl] assms show False by simp
qed

text \<open>The offsets the checksum covers, in the order it reads them.\<close>

definition covered :: "nat list" where
  "covered = [0..<32] @ [192..<2496]"

lemma checksum_bytes_fold: "shm_region_checksum_bytes c bs = fold fnv_step bs c"
  by (simp add: shm_region_checksum_bytes_def fnv_step_def [abs_def])

lemma upt_split: "i \<le> j \<Longrightarrow> j \<le> k \<Longrightarrow> [i..<j] @ [j..<k] = [i..<k]"
  using upt_add_eq_append [of i j "k - j"] by simp

lemma compute_checksum_fold:
  "shm_region_compute_header_checksum m = fold fnv_step (map m covered) REGION_CHECKSUM_SEED"
proof -
  have cv: "covered = [0..<8] @ [8..<12] @ [12..<16] @ [16..<24] @ [24..<32] @ [192..<960] @ [960..<2496]"
    unfolding covered_def
    using upt_split [of 0 8 12] upt_split [of 0 12 16] upt_split [of 0 16 24] upt_split [of 0 24 32]
      upt_split [of 192 960 2496]
    by (simp del: upt_rec_numeral flip: append_assoc)
  show ?thesis unfolding cv
    by (simp add: shm_region_compute_header_checksum_def checksum_bytes_fold rd_def Let_def del: upt_rec_numeral)
qed

lemma compute_checksum_corrupt:
  assumes "x < 32 \<or> 192 \<le> x \<and> x < 2496" and "v \<noteq> m x"
  shows "shm_region_compute_header_checksum (m(x := v)) \<noteq> shm_region_compute_header_checksum m"
proof -
  have "x \<in> set covered" and d: "distinct covered" using assms(1) by (auto simp: covered_def simp del: upt_rec_numeral)
  then obtain us vs where c: "covered = us @ x # vs" by (metis split_list)
  have "distinct (us @ x # vs)" using d unfolding c .
  then have "x \<notin> set us" "x \<notin> set vs" by auto
  then have e: "map (m(x := v)) (us @ x # vs) = map m us @ v # map m vs" by (auto simp: map_fun_upd)
  have f: "map m (us @ x # vs) = map m us @ m x # map m vs" by simp
  show ?thesis unfolding compute_checksum_fold c e f by (rule fnv_fold_differs [OF assms(2)])
qed

lemma ld64_corrupt:
  assumes "a \<le> x" "x < a + 8" and "v \<noteq> m x"
  shows "ld64 (m(x := v)) a \<noteq> ld64 m a"
proof
  assume e: "ld64 (m(x := v)) a = ld64 m a"
  have b: "le_val (rd q a 8) < 2 ^ 64" for q using le_val_less [of "rd q a 8"] by simp
  have "le_val (rd (m(x := v)) a 8) = le_val (rd m a 8)"
    using e b [of m] b [of "m(x := v)"]
      unat_of_nat_small [where 'a = 64, of "le_val (rd m a 8)"]
      unat_of_nat_small [where 'a = 64, of "le_val (rd (m(x := v)) a 8)"] by (simp add: ld64_def)
  then have "rd (m(x := v)) a 8 = rd m a 8" using le_bytes_le_val by (metis length_rd)
  then have "rd (m(x := v)) a 8 ! (x - a) = rd m a 8 ! (x - a)" by simp
  with assms show False by simp
qed

text \<open>C26: A region header that validates no longer validates after any single byte of its scalar
  fields, its stored checksum or its root and index tables is changed.\<close>

theorem header_corruption_detected:
  assumes v: "shm_region_validate_header (Some rg) m" and x: "x < 40 \<or> 192 \<le> x \<and> x < 2496" and c: "b \<noteq> m x"
  shows "\<not> shm_region_validate_header (Some rg) (m(x := b))"
proof -
  have ok: "ld64 m 32 = shm_region_compute_header_checksum m"
    using v by (simp add: shm_region_validate_header_def split: if_splits)
  have "ld64 (m(x := b)) 32 \<noteq> shm_region_compute_header_checksum (m(x := b))"
  proof (cases "32 \<le> x \<and> x < 40")
    case True
    then have "shm_region_compute_header_checksum (m(x := b)) = shm_region_compute_header_checksum m"
      by (intro compute_checksum_same_on) (auto simp: same_on_def)
    then show ?thesis using ld64_corrupt [of 32 x b m] True c ok by simp
  next
    case False
    then have "ld64 (m(x := b)) 32 = ld64 m 32" using x by (intro ld64_same_on) (auto simp: same_on_def)
    then show ?thesis using compute_checksum_corrupt [of x b m] False x c ok by auto
  qed
  then show ?thesis by (simp add: shm_region_validate_header_def)
qed

theorem header_corruption_detected_witness:
  "\<exists>m. shm_region_validate_header (Some demo_region) m \<and>
       \<not> shm_region_validate_header (Some demo_region) (m(192 := m 192 + 1))"
proof -
  have "rg_base demo_region \<noteq> 0" "rg_size demo_region = 8192" by (simp_all add: demo_region_def)
  note v = fresh_header_valid [OF this, of "\<lambda>_. 0"]
  have "192 < (40 :: nat) \<or> 192 \<le> (192 :: nat) \<and> 192 < (2496 :: nat)" by simp
  from v header_corruption_detected [OF v this, of "fresh_header 8192 (\<lambda>_. 0) 192 + 1"] show ?thesis by auto
qed

end
