(* ===== verification/Store.thy ===== *)
theory Store
  imports ObjectStore RegionChecksum
begin

text \<open>
  The store of src/store/store.c, the layer applications use: it creates or opens a region,
  initializes or validates the allocator, and forwards the root and index operations. An operation
  that may block is an option; \<open>os\<close> and \<open>world\<close> are threaded as in the components it calls.
\<close>

record OffsetStore =
  os_region :: ShmRegion

definition offset_store_reset :: "OffsetStore option \<Rightarrow> OffsetStore option" where
  "offset_store_reset store =
     map_option (\<lambda>st. st\<lparr>os_region := (os_region st)\<lparr>rg_fd := - 1, rg_base := 0, rg_size := 0, rg_creator := False\<rparr>\<rparr>) store"

definition region_of :: "OffsetStore option \<Rightarrow> ShmRegion option" where
  "region_of store = map_option os_region store"

definition with_region :: "OffsetStore option \<Rightarrow> ShmRegion option \<Rightarrow> OffsetStore option" where
  "with_region store rg = map_option (\<lambda>st. st\<lparr>os_region := the rg\<rparr>) store"

section \<open>Lifecycle\<close>

definition offset_store_bootstrap ::
    "kernel \<Rightarrow> env \<Rightarrow> OffsetStore option \<Rightarrow> cstr option \<Rightarrow> u64 \<Rightarrow> os \<Rightarrow> world
       \<Rightarrow> (OffsetStoreStatus \<times> OffsetStore option \<times> os \<times> world) option" where
  "offset_store_bootstrap K E store name sz s w =
     (if store = None \<or> name = None then Some (STATUS_INVALID_ARGUMENT, store, s, w)
      else
        let store1 = offset_store_reset store;
            (status, rg, s1, w1) = shm_region_create K E (region_of store1) name sz s w;
            store2 = with_region store1 rg
        in if status \<noteq> STATUS_OK then Some (status, store2, s1, w1)
           else do {
             (status', w2) \<leftarrow> allocator_init E rg w1;
             if status' \<noteq> STATUS_OK then
               (let (_, rg', s2) = shm_region_close K rg s1;
                    (_, s3) = shm_region_unlink K name s2
                in Some (status', with_region store2 rg', s3, w2))
             else Some (STATUS_OK, store2, s1, w2)
           })"

definition offset_store_open_existing ::
    "kernel \<Rightarrow> OffsetStore option \<Rightarrow> cstr option \<Rightarrow> os \<Rightarrow> mem
       \<Rightarrow> OffsetStoreStatus \<times> OffsetStore option \<times> os" where
  "offset_store_open_existing K store name s m =
     (if store = None \<or> name = None then (STATUS_INVALID_ARGUMENT, store, s)
      else
        let store1 = offset_store_reset store;
            (status, rg, s1) = shm_region_open K (region_of store1) name s m;
            store2 = with_region store1 rg
        in if status \<noteq> STATUS_OK then (status, store2, s1)
           else
             let status' = allocator_validate rg m in
             if status' \<noteq> STATUS_OK then
               (let (_, rg', s2) = shm_region_close K rg s1 in (status', with_region store2 rg', s2))
             else (STATUS_OK, store2, s1))"

definition offset_store_close ::
    "kernel \<Rightarrow> OffsetStore option \<Rightarrow> os \<Rightarrow> OffsetStoreStatus \<times> OffsetStore option \<times> os" where
  "offset_store_close K store s =
     (if store = None then (STATUS_INVALID_ARGUMENT, store, s)
      else let (st, rg, s1) = shm_region_close K (region_of store) s in (st, with_region store rg, s1))"

definition offset_store_validate ::
    "env \<Rightarrow> OffsetStore option \<Rightarrow> world \<Rightarrow> OffsetStoreStatus \<times> world" where
  "offset_store_validate E store w =
     (if store = None then (STATUS_INVALID_ARGUMENT, w)
      else
        let (status, w1) = shm_region_validate E (region_of store) w in
        if status \<noteq> STATUS_OK then (status, w1)
        else (allocator_validate (region_of store) (bytes w1), w1))"

section \<open>Roots and index\<close>

definition offset_store_set_root ::
    "env \<Rightarrow> OffsetStore option \<Rightarrow> cstr option \<Rightarrow> OffsetPtr \<Rightarrow> world \<Rightarrow> OffsetStoreStatus result" where
  "offset_store_set_root E store name obj w =
     (if store = None then Some (STATUS_INVALID_ARGUMENT, w)
      else shm_region_set_root E (region_of store) name obj w)"

definition offset_store_get_root ::
    "env \<Rightarrow> OffsetStore option \<Rightarrow> cstr option \<Rightarrow> bool \<Rightarrow> world \<Rightarrow> (OffsetStoreStatus \<times> OffsetPtr option) result" where
  "offset_store_get_root E store name out_nonnull w =
     (if store = None then Some ((STATUS_INVALID_ARGUMENT, None), w)
      else shm_region_get_root E (region_of store) name out_nonnull w)"

definition offset_store_remove_root ::
    "env \<Rightarrow> OffsetStore option \<Rightarrow> cstr option \<Rightarrow> world \<Rightarrow> OffsetStoreStatus result" where
  "offset_store_remove_root E store name w =
     (if store = None then Some (STATUS_INVALID_ARGUMENT, w)
      else shm_region_remove_root E (region_of store) name w)"

definition offset_store_index_put ::
    "env \<Rightarrow> OffsetStore option \<Rightarrow> cstr option \<Rightarrow> OffsetPtr \<Rightarrow> world \<Rightarrow> OffsetStoreStatus result" where
  "offset_store_index_put E store key obj w =
     (if store = None then Some (STATUS_INVALID_ARGUMENT, w)
      else shm_region_index_put E (region_of store) key obj w)"

definition offset_store_index_get ::
    "env \<Rightarrow> OffsetStore option \<Rightarrow> cstr option \<Rightarrow> bool \<Rightarrow> world \<Rightarrow> (OffsetStoreStatus \<times> OffsetPtr option) result" where
  "offset_store_index_get E store key out_nonnull w =
     (if store = None then Some ((STATUS_INVALID_ARGUMENT, None), w)
      else shm_region_index_get E (region_of store) key out_nonnull w)"

definition offset_store_index_contains ::
    "env \<Rightarrow> OffsetStore option \<Rightarrow> cstr option \<Rightarrow> bool \<Rightarrow> world \<Rightarrow> (OffsetStoreStatus \<times> bool option) result" where
  "offset_store_index_contains E store key out_nonnull w =
     (if store = None then Some ((STATUS_INVALID_ARGUMENT, None), w)
      else shm_region_index_contains E (region_of store) key out_nonnull w)"

definition offset_store_index_remove ::
    "env \<Rightarrow> OffsetStore option \<Rightarrow> cstr option \<Rightarrow> world \<Rightarrow> OffsetStoreStatus result" where
  "offset_store_index_remove E store key w =
     (if store = None then Some (STATUS_INVALID_ARGUMENT, w)
      else shm_region_index_remove E (region_of store) key w)"

section \<open>Descriptors\<close>

definition empty_region :: ShmRegion where
  "empty_region = \<lparr>rg_fd = - 1, rg_base = 0, rg_size = 0, rg_creator = False\<rparr>"

lemma reset_store: "offset_store_reset (Some old) = Some \<lparr>os_region = empty_region\<rparr>"
  by (cases old; cases "os_region old") (simp add: offset_store_reset_def empty_region_def)

lemma reset_region: "shm_region_reset (Some rg) = Some empty_region"
  by (cases rg) (simp add: shm_region_reset_def empty_region_def)

lemma store_region [simp]:
  "region_of (Some \<lparr>os_region = rg\<rparr>) = Some rg" "with_region (Some \<lparr>os_region = rg\<rparr>) rg' = Some \<lparr>os_region = the rg'\<rparr>"
  by (simp_all add: region_of_def with_region_def)

section \<open>Relocation\<close>

text \<open>The heap does not depend on where a process maps the region.\<close>

lemma heap_inv_relocate:
  assumes "heap_inv rg m" and "region_ok rg'" and "rg_size rg' = rg_size rg"
  shows "heap_inv rg' m"
proof -
  have "allocator_header (Some rg') = None \<longleftrightarrow> allocator_header (Some rg) = None"
    using assms region_okD(1) by (auto simp: allocator_header_def heap_inv_def header_inv_def)
  then have "allocator_header_valid (Some rg') (allocator_header (Some rg')) m"
    using assms by (auto simp: heap_inv_def header_inv_def allocator_header_valid_def split: if_splits)
  then show ?thesis using assms by (simp add: heap_inv_def header_inv_def)
qed

lemma validate_header_relocate:
  "shm_region_validate_header (Some rg) m \<Longrightarrow> rg_base rg' \<noteq> 0 \<Longrightarrow> rg_size rg' = rg_size rg \<Longrightarrow>
     shm_region_validate_header (Some rg') m"
  by (auto simp: shm_region_validate_header_def split: if_splits)

lemma header_low_same:
  assumes "same_on m m' 0 2496"
  shows "shm_region_validate_header r m' = shm_region_validate_header r m"
    and "roots_map m' = roots_map m" and "index_map m' = index_map m" and "tables_ok m' = tables_ok m"
    and "tables_exact m' = tables_exact m"
proof -
  have so: "\<And>a b. b \<le> 2496 \<Longrightarrow> same_on m m' a b" using assms by (auto elim: same_on_sub)
  have "shm_region_compute_header_checksum m' = shm_region_compute_header_checksum m"
    using so by (intro compute_checksum_same_on) auto
  moreover have "\<And>a. a + 8 \<le> 2496 \<Longrightarrow> ld64 m' a = ld64 m a" "\<And>a. a + 4 \<le> 2496 \<Longrightarrow> ld32 m' a = ld32 m a"
    using so by (auto intro: ld64_same_on ld32_same_on)
  ultimately show "shm_region_validate_header r m' = shm_region_validate_header r m"
    by (cases r) (simp_all add: shm_region_validate_header_def)
  have r: "same_on m m' HDR_roots (HDR_roots + 48 * ROOT_CAPACITY)"
    and i: "same_on m m' HDR_index (HDR_index + 48 * INDEX_CAPACITY)" using so by simp_all
  show "roots_map m' = roots_map m" "index_map m' = index_map m" "tables_ok m' = tables_ok m"
    "tables_exact m' = tables_exact m"
    using roots.named_same_on(1,2,4) [OF r] index.named_same_on(1,2,4) [OF i]
    by (simp_all add: roots_map_def index_map_def tables_ok_def tables_exact_def)
qed

section \<open>Bootstrap and open\<close>

lemma bootstrap_runs:
  assumes k: "create_calls_ok K E" and sz: "2960 \<le> unat sz" "unat sz < 2 ^ 63"
    and a: "k_mmap K = Some a" "mapping_ok a sz" and z: "\<forall>x \<ge> 2496. bytes w x = 0"
  shows "\<exists>rg s' w'. offset_store_bootstrap K E (Some old) (Some name) sz s w = Some (STATUS_OK, Some \<lparr>os_region = rg\<rparr>, s', w') \<and>
     rg_base rg = a \<and> rg_size rg = sz \<and> region_ok rg \<and>
     shm_region_validate_header (Some rg) (bytes w') \<and> heap_inv rg (bytes w') \<and> heap_abs (bytes w') = Map.empty \<and>
     roots_map (bytes w') = Map.empty \<and> index_map (bytes w') = Map.empty \<and> tables_ok (bytes w') \<and> tables_exact (bytes w') \<and>
     mtx w' HDR_allocator_mutex = MFree \<and> (\<forall>i < 4. mtx w' (shard_mutex_at i) = MFree) \<and>
     rwl w' HDR_roots_rwlock = RWFree \<and> rwl w' HDR_index_rwlock = RWFree \<and> held_shard w' = held_shard w \<and>
     unat (ah_heap_size (bytes w')) = unat sz - 2736 \<and> shard_len (bytes w') = (unat sz - 2736) div 4 \<and>
     free_blocks (bytes w') = (\<lambda>i. 2736 + i * ((unat sz - 2736) div 4)) ` {..<4} \<and>
     (\<forall>b \<in> free_blocks (bytes w'). bsz (bytes w') b = (unat sz - 2736) div 4) \<and>
     os_fds s' = k_open K # os_fds s \<and> os_maps s' = (a, sz) # os_maps s \<and> os_linked s' \<and> rg_fd rg = k_open K"
proof -
  obtain s1 w1 where cr: "shm_region_create K E (Some empty_region) (Some name) sz s w =
       (STATUS_OK, Some \<lparr>rg_fd = k_open K, rg_base = a, rg_size = sz, rg_creator = True\<rparr>, s1, w1)"
    and v: "shm_region_validate_header (Some \<lparr>rg_fd = k_open K, rg_base = a, rg_size = sz, rg_creator = True\<rparr>) (bytes w1)"
    and t: "roots_map (bytes w1) = Map.empty" "index_map (bytes w1) = Map.empty" "tables_ok (bytes w1)"
      "tables_exact (bytes w1)"
    and lk: "mtx w1 HDR_allocator_mutex = MFree" "rwl w1 HDR_roots_rwlock = RWFree" "rwl w1 HDR_index_rwlock = RWFree"
    and hi: "\<forall>x \<ge> 2496. bytes w1 x = bytes w x" and hd: "held_shard w1 = held_shard w"
    and os: "os_fds s1 = k_open K # os_fds s" "os_maps s1 = (a, sz) # os_maps s" "os_linked s1"
    using create_runs [OF k, of sz _ name s w] sz a(1) by fastforce
  let ?rg = "\<lparr>rg_fd = k_open K, rg_base = a, rg_size = sz, rg_creator = True\<rparr>"
  have rg: "region_ok ?rg" using a(2) sz by (simp add: region_ok_def)
  have "ah_magic (bytes w1) = ld64 (\<lambda>_. 0) 2496"
    unfolding ah_magic_def using hi z by (subst metadata_offset) (auto intro!: ld64_same_on simp: same_on_def)
  then have nv: "\<not> allocator_header_valid (Some ?rg) (allocator_header (Some ?rg)) (bytes w1)"
    by (simp add: allocator_header_valid_def ld64_zeros ALLOCATOR_MAGIC_def)
  have ic: "init_calls_ok E" using k by (simp add: create_calls_ok_def init_calls_ok_def)
  have sz': "2960 \<le> unat (rg_size ?rg)" using sz by simp
  obtain w' where i: "allocator_init E (Some ?rg) w1 = Some (STATUS_OK, w')" "header_inv ?rg (bytes w')"
     "\<forall>s < 4. fresh_shard (bytes w') s" "same_on (bytes w1) (bytes w') 0 2496"
     "shard_len (bytes w') = (unat sz - 2736) div 4" "unat (ah_heap_offset (bytes w')) = 2736"
     "mtx w' = (\<lambda>a. if \<exists>s < 4. a = shard_mutex_at s then MFree else mtx w1 a)" "rwl w' = rwl w1" "held_shard w' = held_shard w1"
    using init_ok [OF rg sz' lk(1) ic nv] by auto
  have hs: "unat (ah_heap_size (bytes w')) = unat sz - 2736" using header_invD(1) [OF i(2)] i(6) by simp
  have fb: "free_blocks (bytes w') = (\<lambda>i. 2736 + i * ((unat sz - 2736) div 4)) ` {..<4}"
    using fresh_heap(3) [OF i(2,3)] i(5,6) by (simp add: shard_lo_def)
  have bs: "\<forall>b \<in> free_blocks (bytes w'). bsz (bytes w') b = (unat sz - 2736) div 4"
    using fresh_heap(3,4) [OF i(2,3)] i(5) by auto
  note fh = fresh_heap [OF i(2,3)] and hl = header_low_same [OF i(4)]
  have "offset_store_bootstrap K E (Some old) (Some name) sz s w = Some (STATUS_OK, Some \<lparr>os_region = ?rg\<rparr>, s1, w')"
    using cr i(1) by (simp add: offset_store_bootstrap_def reset_store)
  then show ?thesis using rg v t lk hl fh(1,2) i(5,7,8,9) hd hs fb bs os by (intro exI [of _ ?rg] exI [of _ s1] exI [of _ w']) auto
qed

text \<open>C32: When the system calls succeed on a fresh, zero-filled object of at least 2960 bytes,
  \<open>offset_store_bootstrap\<close> returns \<open>OK\<close> and a complete store: the region header validates, the heap is
  well formed and empty, both name tables are empty and every lock is initialized and free.\<close>

theorem offset_store_bootstrap_establishes:
  assumes k: "create_calls_ok K E" and sz: "2960 \<le> unat sz" "unat sz < 2 ^ 63"
    and a: "k_mmap K = Some a" "mapping_ok a sz" and z: "\<forall>x \<ge> 2496. bytes w x = 0"
  shows "\<exists>rg s' w'. offset_store_bootstrap K E (Some old) (Some name) sz s w = Some (STATUS_OK, Some \<lparr>os_region = rg\<rparr>, s', w') \<and>
     rg_base rg = a \<and> rg_size rg = sz \<and> region_ok rg \<and>
     shm_region_validate_header (Some rg) (bytes w') \<and> heap_inv rg (bytes w') \<and> heap_abs (bytes w') = Map.empty \<and>
     roots_map (bytes w') = Map.empty \<and> index_map (bytes w') = Map.empty \<and> tables_ok (bytes w') \<and> tables_exact (bytes w') \<and>
     mtx w' HDR_allocator_mutex = MFree \<and> (\<forall>i < 4. mtx w' (shard_mutex_at i) = MFree) \<and>
     rwl w' HDR_roots_rwlock = RWFree \<and> rwl w' HDR_index_rwlock = RWFree \<and> held_shard w' = held_shard w"
  using bootstrap_runs [OF assms, of old name s] by blast

text \<open>A region too small for four minimal shards is refused and cleaned up: for a size between the
  region header and 2959 bytes \<open>offset_store_bootstrap\<close> returns \<open>OUT_OF_MEMORY\<close>, the descriptor is reset,
  no file descriptor or mapping stays and the name is removed.\<close>

theorem offset_store_bootstrap_too_small:
  assumes k: "create_calls_ok K E" and c: "cleanup_ok K" and sz: "2496 \<le> unat sz" "unat sz < 2960"
  shows "\<exists>s' w'. offset_store_bootstrap K E (Some old) (Some name) sz s w
       = Some (STATUS_OUT_OF_MEMORY, Some \<lparr>os_region = empty_region\<rparr>, s', w') \<and>
     os_fds s' = os_fds s \<and> os_maps s' = os_maps s \<and> \<not> os_linked s'"
proof -
  obtain a s1 w1 where cr: "shm_region_create K E (Some empty_region) (Some name) sz s w =
       (STATUS_OK, Some \<lparr>rg_fd = k_open K, rg_base = a, rg_size = sz, rg_creator = True\<rparr>, s1, w1)"
    and a: "k_mmap K = Some a" and lk: "mtx w1 HDR_allocator_mutex = MFree"
    and s1: "os_fds s1 = k_open K # os_fds s" "os_maps s1 = (a, sz) # os_maps s"
    using create_runs [OF k sz(1), of empty_region name s w] by blast
  let ?rg = "\<lparr>rg_fd = k_open K, rg_base = a, rg_size = sz, rg_creator = True\<rparr>"
  have a0: "a \<noteq> 0" and fd: "0 \<le> k_open K" using k a by (auto simp: create_calls_ok_def)
  have small: "case allocator_region_offsets (Some ?rg) of None \<Rightarrow> True | Some (ho, hs) \<Rightarrow> hs < 224"
  proof -
    have "allocator_align_up 2728 16 = Some 2736" by (simp add: allocator_align_up_def word_less_nat_alt)
    moreover have "unat (sz - 2736) < 224" if "\<not> sz \<le> 2736"
      using that sz by (subst unat_diff_le) (auto simp: word_le_nat_alt)
    ultimately show ?thesis by (simp add: allocator_region_offsets_def word_less_nat_alt)
  qed
  have i: "allocator_init E (Some ?rg) w1 = Some (STATUS_OUT_OF_MEMORY, w1)"
    using lk a0 small
    by (auto simp: allocator_init_def shm_region_allocator_lock_def shm_region_allocator_mutex_def
        shm_region_header_def shm_region_lock_one_def shm_region_allocator_unlock_def
        shm_region_unlock_one_def allocator_min_block_size_def split: option.splits prod.splits)
  let ?s2 = "s1\<lparr>os_maps := os_maps s, os_fds := os_fds s, os_linked := False\<rparr>"
  have "offset_store_bootstrap K E (Some old) (Some name) sz s w
      = Some (STATUS_OUT_OF_MEMORY, Some \<lparr>os_region = empty_region\<rparr>, ?s2, w1)"
    using cr i c a0 fd s1
    by (simp add: offset_store_bootstrap_def reset_store shm_region_close_def sys_munmap_def sys_close_def
        shm_region_unlink_def sys_shm_unlink_def cleanup_ok_def reset_region)
  then show ?thesis by auto
qed

lemma open_existing_runs:
  assumes h: "heap_inv rg m" and v: "shm_region_validate_header (Some rg) m" and c: "cleanup_ok K"
    and k: "0 \<le> k_open K" "k_fstat K = (0, int (unat (rg_size rg)))" "k_mmap K = Some a" "mapping_ok a (rg_size rg)"
  shows "\<exists>rg' s'. rg' = \<lparr>rg_fd = k_open K, rg_base = a, rg_size = rg_size rg, rg_creator = False\<rparr> \<and> heap_inv rg' m \<and>
     (if unat (ah_heap_size m) mod 4 = 0
      then offset_store_open_existing K (Some old) (Some name) s m = (STATUS_OK, Some \<lparr>os_region = rg'\<rparr>, s') \<and>
           s' = s\<lparr>os_fds := k_open K # os_fds s, os_maps := (a, rg_size rg) # os_maps s\<rparr>
      else offset_store_open_existing K (Some old) (Some name) s m
             = (STATUS_INVALID_STATE, Some \<lparr>os_region = empty_region\<rparr>, s') \<and>
           os_fds s' = os_fds s \<and> os_maps s' = os_maps s)"
proof -
  define rg' where "rg' = \<lparr>rg_fd = k_open K, rg_base = a, rg_size = rg_size rg, rg_creator = False\<rparr>"
  have ok: "region_ok rg" using h by (simp add: heap_inv_def header_inv_def)
  have h': "heap_inv rg' m"
    using k(4) ok by (intro heap_inv_relocate [OF h]) (simp_all add: rg'_def region_ok_def)
  have a0: "a \<noteq> 0" using k(4) by (simp add: mapping_ok_def)
  have v': "shm_region_validate_header (Some rg') m"
    using a0 by (intro validate_header_relocate [OF v]) (simp_all add: rg'_def)
  have big: "2736 \<le> unat (rg_size rg)"
    using header_invD(1) [of rg m] h by (auto simp: heap_inv_def header_inv_def shard_len_def)
  have st: "fst (k_fstat K) = 0" "\<not> snd (k_fstat K) \<le> 0" "of_int (snd (k_fstat K)) = rg_size rg"
  proof -
    show "fst (k_fstat K) = 0" "\<not> snd (k_fstat K) \<le> 0" unfolding k(2) fst_conv snd_conv using big by linarith+
    show "of_int (snd (k_fstat K)) = rg_size rg" unfolding k(2) snd_conv of_int_of_nat_eq by simp
  qed
  let ?s1 = "s\<lparr>os_fds := k_open K # os_fds s, os_maps := (a, rg_size rg) # os_maps s\<rparr>"
  have op: "shm_region_open K (Some empty_region) (Some name) s m = (STATUS_OK, Some rg', ?s1)"
    using k(1,3) st a0 v' big
    by (simp add: shm_region_open_def reset_region sys_shm_open_def shm_region_map_fd_def sys_mmap_def
        shm_region_is_size_valid_def empty_region_def rg'_def Let_def)
  have av: "allocator_validate (Some rg') m = (if unat (ah_heap_size m) mod 4 = 0 then STATUS_OK else STATUS_INVALID_STATE)"
    using validate_heap [OF h'] .
  show ?thesis
  proof (cases "unat (ah_heap_size m) mod 4 = 0")
    case True
    then have "offset_store_open_existing K (Some old) (Some name) s m = (STATUS_OK, Some \<lparr>os_region = rg'\<rparr>, ?s1)"
      using op av by (simp add: offset_store_open_existing_def reset_store)
    then show ?thesis using True h' by (simp add: rg'_def)
  next
    case False
    have "shm_region_close K (Some rg') ?s1 = (STATUS_OK, Some empty_region, ?s1\<lparr>os_maps := os_maps s, os_fds := os_fds s\<rparr>)"
      using c a0 k(1) by (simp add: shm_region_close_def sys_munmap_def sys_close_def cleanup_ok_def rg'_def reset_region)
    then have "offset_store_open_existing K (Some old) (Some name) s m
        = (STATUS_INVALID_STATE, Some \<lparr>os_region = empty_region\<rparr>, ?s1\<lparr>os_maps := os_maps s, os_fds := os_fds s\<rparr>)"
      using op av False by (simp add: offset_store_open_existing_def reset_store)
    then show ?thesis using False h' by (simp add: rg'_def)
  qed
qed

text \<open>C33: Opening a store in another process, at any mapping address: the object's header validates, and
  \<open>offset_store_open_existing\<close> returns \<open>OK\<close> with a descriptor at the new address on which the same heap
  invariant holds, provided the heap size is a multiple of four; otherwise the well-formed store is
  refused with \<open>INVALID_STATE\<close> and nothing stays open.\<close>

theorem offset_store_open_existing_relocates:
  assumes h: "heap_inv rg m" and v: "shm_region_validate_header (Some rg) m" and c: "cleanup_ok K"
    and k: "0 \<le> k_open K" "k_fstat K = (0, int (unat (rg_size rg)))" "k_mmap K = Some a" "mapping_ok a (rg_size rg)"
  shows "\<exists>rg' s'. rg' = \<lparr>rg_fd = k_open K, rg_base = a, rg_size = rg_size rg, rg_creator = False\<rparr> \<and> heap_inv rg' m \<and>
     (if unat (ah_heap_size m) mod 4 = 0
      then offset_store_open_existing K (Some old) (Some name) s m = (STATUS_OK, Some \<lparr>os_region = rg'\<rparr>, s')
      else offset_store_open_existing K (Some old) (Some name) s m
             = (STATUS_INVALID_STATE, Some \<lparr>os_region = empty_region\<rparr>, s') \<and>
           os_fds s' = os_fds s \<and> os_maps s' = os_maps s)"
  using open_existing_runs [OF assms, of old name s] by (auto split: if_splits)

section \<open>Witnesses\<close>

lemma demo_create_ok: "create_calls_ok demo_kernel demo_env" "cleanup_ok demo_kernel"
  by (simp_all add: create_calls_ok_def cleanup_ok_def demo_kernel_def demo_env_def)

theorem offset_store_bootstrap_establishes_witness:
  "\<exists>rg s' w'. offset_store_bootstrap demo_kernel demo_env (Some \<lparr>os_region = demo_region\<rparr>) (Some [47]) 8192 demo_os demo_blank
     = Some (STATUS_OK, Some \<lparr>os_region = rg\<rparr>, s', w') \<and> heap_inv rg (bytes w') \<and> shm_region_validate_header (Some rg) (bytes w')"
proof -
  have a: "k_mmap demo_kernel = Some 65536" "mapping_ok 65536 8192" by (simp_all add: demo_kernel_def mapping_ok_def)
  have z: "\<forall>x \<ge> 2496. bytes demo_blank x = 0" by (simp add: demo_blank_def)
  have sz: "2960 \<le> unat (8192 :: u64)" "unat (8192 :: u64) < 2 ^ 63" by simp_all
  from offset_store_bootstrap_establishes [OF demo_create_ok(1) sz a z] show ?thesis by blast
qed

theorem offset_store_bootstrap_too_small_witness:
  "\<exists>s' w'. offset_store_bootstrap demo_kernel demo_env (Some \<lparr>os_region = demo_region\<rparr>) (Some [47]) 2500 demo_os demo_blank
     = Some (STATUS_OUT_OF_MEMORY, Some \<lparr>os_region = empty_region\<rparr>, s', w') \<and> os_fds s' = []"
proof -
  have sz: "2496 \<le> unat (2500 :: u64)" "unat (2500 :: u64) < 2960" by simp_all
  have "os_fds demo_os = []" by (simp add: demo_os_def)
  with offset_store_bootstrap_too_small [OF demo_create_ok sz, of "\<lparr>os_region = demo_region\<rparr>" "[47]" demo_os demo_blank]
  show ?thesis by auto
qed

text \<open>A complete region: a valid header in front of the concrete heap.\<close>

definition demo_bytes :: mem where
  "demo_bytes = (\<lambda>x. if x < 2496 then fresh_header 8192 (\<lambda>_. 0) x else bytes demo_world x)"

lemma demo_bytes_facts:
  "heap_inv demo_region demo_bytes" "heap_abs demo_bytes = Map.empty"
  "shm_region_validate_header (Some demo_region) demo_bytes" "unat (ah_heap_size demo_bytes) mod 4 = 0"
  "tables_ok demo_bytes" "roots_map demo_bytes = Map.empty"
proof -
  have w: "demo_bytes x = bytes demo_world x" if "\<not> outside_heap_meta (bytes demo_world) x" for x
    using that by (simp add: demo_bytes_def outside_heap_meta_def)
  show h: "heap_inv demo_region demo_bytes" using heap_write(1) [OF demo_facts(2) w] .
  show "heap_abs demo_bytes = Map.empty" using heap_write(2) [OF demo_facts(2) w] demo_facts(3) by simp
  have so: "same_on (fresh_header 8192 (\<lambda>_. 0)) demo_bytes 0 2496" by (simp add: same_on_def demo_bytes_def)
  have "shm_region_validate_header (Some demo_region) (fresh_header 8192 (\<lambda>_. 0))"
    by (intro fresh_header_valid) (simp_all add: demo_region_def)
  then show "shm_region_validate_header (Some demo_region) demo_bytes" using header_low_same(1) [OF so] by simp
  show "tables_ok demo_bytes" "roots_map demo_bytes = Map.empty"
    using header_low_same(2,4) [OF so] fresh_header_tables(1,3) by simp_all
  have "unat (ah_heap_offset demo_bytes) = unat (ah_heap_offset (bytes demo_world))"
    unfolding ah_heap_offset_def by (rule arg_cong [where f = unat], rule ld64_same_on) (simp add: same_on_def demo_bytes_def)
  then have "unat (ah_heap_size demo_bytes) = 8192 - 2736"
    using header_invD(1) [of demo_region demo_bytes] h demo_facts(9) by (simp add: heap_inv_def demo_region_def)
  then show "unat (ah_heap_size demo_bytes) mod 4 = 0" by simp
qed

theorem offset_store_open_existing_relocates_witness:
  "\<exists>st s'. offset_store_open_existing (demo_kernel\<lparr>k_mmap := Some 131072\<rparr>) (Some \<lparr>os_region = demo_region\<rparr>) (Some [47]) demo_os demo_bytes
     = (STATUS_OK, Some st, s') \<and> rg_base (os_region st) = 131072"
proof -
  let ?K = "demo_kernel\<lparr>k_mmap := Some 131072\<rparr>"
  have k: "0 \<le> k_open ?K" "k_fstat ?K = (0, int (unat (rg_size demo_region)))" "k_mmap ?K = Some 131072"
    "mapping_ok 131072 (rg_size demo_region)" "cleanup_ok ?K"
    by (simp_all add: demo_kernel_def demo_region_def mapping_ok_def cleanup_ok_def)
  from offset_store_open_existing_relocates [OF demo_bytes_facts(1,3) k(5,1-4), of "\<lparr>os_region = demo_region\<rparr>" "[47]" demo_os]
    demo_bytes_facts(4)
  show ?thesis by auto
qed

end
