(* ===== verification/StoreTables.thy ===== *)
theory StoreTables
  imports Store Simulation
begin

text \<open>
  The seven operations of the store facade (src/store/store.c) on named handles, in any order and
  with any arguments, against two bounded finite maps. The capacity is exact: a table is full when
  it binds as many names as it has entries.
\<close>

section \<open>The abstract tables\<close>

definition accepted :: "cstr option \<Rightarrow> bool" where
  "accepted n \<longleftrightarrow> (\<exists>s. n = Some s \<and> good_name s)"

text \<open>A C string has no null byte inside.\<close>

definition c_string :: "cstr option \<Rightarrow> bool" where
  "c_string n \<longleftrightarrow> (\<forall>s. n = Some s \<longrightarrow> 0 \<notin> set s)"

definition bind_name ::
    "nat \<Rightarrow> cstr option \<Rightarrow> OffsetPtr \<Rightarrow> (cstr \<rightharpoonup> OffsetPtr) \<Rightarrow> OffsetStoreStatus \<times> (cstr \<rightharpoonup> OffsetPtr)" where
  "bind_name cap n obj M =
     (if \<not> accepted n \<or> obj = 0 then (STATUS_INVALID_ARGUMENT, M)
      else if M (the n) \<noteq> None \<or> card (dom M) < cap then (STATUS_OK, M(the n \<mapsto> obj))
      else (STATUS_OUT_OF_MEMORY, M))"

definition lookup_name ::
    "cstr option \<Rightarrow> (cstr \<rightharpoonup> OffsetPtr) \<Rightarrow> OffsetStoreStatus \<times> OffsetPtr option" where
  "lookup_name n M =
     (if \<not> accepted n then (STATUS_INVALID_ARGUMENT, None)
      else case M (the n) of None \<Rightarrow> (STATUS_NOT_FOUND, None) | Some obj \<Rightarrow> (STATUS_OK, Some obj))"

definition unbind_name ::
    "cstr option \<Rightarrow> (cstr \<rightharpoonup> OffsetPtr) \<Rightarrow> OffsetStoreStatus \<times> (cstr \<rightharpoonup> OffsetPtr)" where
  "unbind_name n M =
     (if \<not> accepted n then (STATUS_INVALID_ARGUMENT, M)
      else if M (the n) = None then (STATUS_NOT_FOUND, M) else (STATUS_OK, M(the n := None)))"

datatype name_op = SetRoot "cstr option" OffsetPtr | GetRoot "cstr option" | RemoveRoot "cstr option"
  | IndexPut "cstr option" OffsetPtr | IndexGet "cstr option" | IndexContains "cstr option" | IndexRemove "cstr option"

datatype name_res = NStatus OffsetStoreStatus | NHandle OffsetStoreStatus "OffsetPtr option"
  | NBool OffsetStoreStatus "bool option"

fun name_spec ::
    "name_op \<Rightarrow> (cstr \<rightharpoonup> OffsetPtr) \<times> (cstr \<rightharpoonup> OffsetPtr) \<Rightarrow> name_res \<times> (cstr \<rightharpoonup> OffsetPtr) \<times> (cstr \<rightharpoonup> OffsetPtr)" where
  "name_spec (SetRoot n obj) (R, I) = (let (st, R') = bind_name 16 n obj R in (NStatus st, R', I))"
| "name_spec (GetRoot n) (R, I) = (let (st, out) = lookup_name n R in (NHandle st out, R, I))"
| "name_spec (RemoveRoot n) (R, I) = (let (st, R') = unbind_name n R in (NStatus st, R', I))"
| "name_spec (IndexPut n obj) (R, I) = (let (st, I') = bind_name 32 n obj I in (NStatus st, R, I'))"
| "name_spec (IndexGet n) (R, I) = (let (st, out) = lookup_name n I in (NHandle st out, R, I))"
| "name_spec (IndexContains n) (R, I) =
     ((if accepted n then NBool STATUS_OK (Some (I (the n) \<noteq> None)) else NBool STATUS_INVALID_ARGUMENT None), R, I)"
| "name_spec (IndexRemove n) (R, I) = (let (st, I') = unbind_name n I in (NStatus st, R, I'))"

fun name_run :: "env \<Rightarrow> OffsetStore \<Rightarrow> name_op \<Rightarrow> world \<Rightarrow> name_res result" where
  "name_run E st (SetRoot n obj) w = map_option (apfst NStatus) (offset_store_set_root E (Some st) n obj w)"
| "name_run E st (GetRoot n) w = map_option (apfst (\<lambda>(s, out). NHandle s out)) (offset_store_get_root E (Some st) n True w)"
| "name_run E st (RemoveRoot n) w = map_option (apfst NStatus) (offset_store_remove_root E (Some st) n w)"
| "name_run E st (IndexPut n obj) w = map_option (apfst NStatus) (offset_store_index_put E (Some st) n obj w)"
| "name_run E st (IndexGet n) w = map_option (apfst (\<lambda>(s, out). NHandle s out)) (offset_store_index_get E (Some st) n True w)"
| "name_run E st (IndexContains n) w = map_option (apfst (\<lambda>(s, b). NBool s b)) (offset_store_index_contains E (Some st) n True w)"
| "name_run E st (IndexRemove n) w = map_option (apfst NStatus) (offset_store_index_remove E (Some st) n w)"

fun name_op_ok :: "name_op \<Rightarrow> bool" where
  "name_op_ok (SetRoot n obj) = c_string n" | "name_op_ok (GetRoot n) = c_string n" | "name_op_ok (RemoveRoot n) = c_string n"
| "name_op_ok (IndexPut n obj) = c_string n" | "name_op_ok (IndexGet n) = c_string n"
| "name_op_ok (IndexContains n) = c_string n" | "name_op_ok (IndexRemove n) = c_string n"

section \<open>Each operation\<close>

lemma roots_room_card:
  "tables_ok m \<Longrightarrow> tables_exact m \<Longrightarrow> roots_room m s \<longleftrightarrow> roots_map m s \<noteq> None \<or> card (dom (roots_map m)) < 16"
  using roots.unused_iff_named [of m] by (simp add: roots_room_def roots_map_def tables_ok_def tables_exact_def)

lemma index_room_card:
  "tables_ok m \<Longrightarrow> tables_exact m \<Longrightarrow> index_room m s \<longleftrightarrow> index_map m s \<noteq> None \<or> card (dom (index_map m)) < 32"
  using index.unused_iff_named [of m] by (simp add: index_room_def index_map_def tables_ok_def tables_exact_def)

text \<open>A name that is not accepted is refused before any lock is taken.\<close>

lemma not_accepted: "c_string n \<Longrightarrow> \<not> accepted n \<Longrightarrow> \<not> name_valid 32 n"
  by (auto simp: c_string_def accepted_def name_valid_iff good_name_def)

lemma name_invalid:
  assumes "\<not> name_valid 32 n"
  shows "shm_region_set_root E (Some rg) n obj w = Some (STATUS_INVALID_ARGUMENT, w)"
    and "shm_region_get_root E (Some rg) n b w = Some ((STATUS_INVALID_ARGUMENT, None), w)"
    and "shm_region_remove_root E (Some rg) n w = Some (STATUS_INVALID_ARGUMENT, w)"
    and "shm_region_index_put E (Some rg) n obj w = Some (STATUS_INVALID_ARGUMENT, w)"
    and "shm_region_index_get E (Some rg) n b w = Some ((STATUS_INVALID_ARGUMENT, None), w)"
    and "shm_region_index_contains E (Some rg) n b w = Some ((STATUS_INVALID_ARGUMENT, None), w)"
    and "shm_region_index_remove E (Some rg) n w = Some (STATUS_INVALID_ARGUMENT, w)"
  using assms
  by (simp_all add: shm_region_set_root_def shm_region_get_root_def shm_region_remove_root_def shm_region_index_put_def
      shm_region_index_get_def shm_region_index_contains_def shm_region_index_remove_def
      shm_region_is_root_name_valid_def shm_region_is_index_key_valid_def)

lemma null_handle:
  "shm_region_set_root E (Some rg) n 0 w = Some (STATUS_INVALID_ARGUMENT, w)"
  "shm_region_index_put E (Some rg) n 0 w = Some (STATUS_INVALID_ARGUMENT, w)"
  by (simp_all add: shm_region_set_root_def shm_region_index_put_def offset_ptr_is_null_def)

text \<open>The states that the operations lead to from \<open>w0\<close>.\<close>

definition names_inv :: "ShmRegion \<Rightarrow> world \<Rightarrow> world \<Rightarrow> bool" where
  "names_inv rg w0 w \<longleftrightarrow>
     (\<exists>m. w = set_bytes m w0 \<and> tables_ok m \<and> tables_exact m \<and> (\<forall>x \<ge> 2496. m x = bytes w0 x) \<and>
       (shm_region_validate_header (Some rg) (bytes w0) \<longrightarrow> shm_region_validate_header (Some rg) m)) \<and>
     rg_base rg \<noteq> 0 \<and> rwl w0 HDR_roots_rwlock = RWFree \<and> rwl w0 HDR_index_rwlock = RWFree"

lemma names_invE:
  assumes "names_inv rg w0 w"
  obtains "rg_base rg \<noteq> 0" "rwl w HDR_roots_rwlock = RWFree" "rwl w HDR_index_rwlock = RWFree"
    "tables_ok (bytes w)" "tables_exact (bytes w)" "readable w HDR_roots_rwlock" "readable w HDR_index_rwlock"
  using assms by (auto simp: names_inv_def readable_def)

lemma names_inv_step:
  assumes "names_inv rg w0 w" and "tables_ok m'" and "tables_exact (bytes w) \<longrightarrow> tables_exact m'" and "\<forall>x \<ge> 2496. m' x = bytes w x"
    and "shm_region_validate_header (Some rg) (bytes w) \<longrightarrow> shm_region_validate_header (Some rg) m'"
  shows "names_inv rg w0 (set_bytes m' w)"
  using assms by (auto simp: names_inv_def)

definition names_abs :: "world \<Rightarrow> (cstr \<rightharpoonup> OffsetPtr) \<times> (cstr \<rightharpoonup> OffsetPtr)" where
  "names_abs w = (roots_map (bytes w), index_map (bytes w))"

lemma name_step:
  assumes i: "names_inv rg w0 w" and k: "name_op_ok x"
  shows "\<exists>w'. name_run E \<lparr>os_region = rg\<rparr> x w = Some (fst (name_spec x (names_abs w)), w') \<and> names_inv rg w0 w' \<and>
     names_abs w' = snd (name_spec x (names_abs w))"
proof -
  obtain b: "rg_base rg \<noteq> 0" and l: "rwl w HDR_roots_rwlock = RWFree" "rwl w HDR_index_rwlock = RWFree"
    and t: "tables_ok (bytes w)" "tables_exact (bytes w)" and rd: "readable w HDR_roots_rwlock" "readable w HDR_index_rwlock"
    using names_invE [OF i] .
  note room = roots_room_card [OF t] index_room_card [OF t]
  show ?thesis
  proof (cases x)
    case (SetRoot n obj)
    show ?thesis
    proof (cases "accepted n \<and> obj \<noteq> 0")
      case True
      then obtain s where s: "n = Some s" "good_name s" by (auto simp: accepted_def)
      then show ?thesis using set_root_runs [OF b l(1) s(2) _ t(1), of obj E] True room(1) names_inv_step [OF i] i
        by (auto simp: SetRoot offset_store_set_root_def bind_name_def names_abs_def split: if_splits)
    next
      case False
      then show ?thesis using i k name_invalid(1) [OF not_accepted] null_handle(1)
        by (auto simp: SetRoot offset_store_set_root_def bind_name_def names_abs_def)
    qed
  next
    case (GetRoot n)
    then show ?thesis using i k name_invalid(2) [OF not_accepted] shm_region_get_root_refines [OF b rd(1), of "the n" E]
      by (cases "accepted n") (auto simp: accepted_def offset_store_get_root_def lookup_name_def names_abs_def split: option.splits)
  next
    case (RemoveRoot n)
    then show ?thesis using i k name_invalid(3) [OF not_accepted] shm_region_remove_root_refines [OF b l(1) _ t(1), of "the n" E] names_inv_step [OF i]
      by (cases "accepted n") (auto simp: accepted_def offset_store_remove_root_def unbind_name_def names_abs_def split: if_splits)
  next
    case (IndexPut n obj)
    show ?thesis
    proof (cases "accepted n \<and> obj \<noteq> 0")
      case True
      then obtain s where s: "n = Some s" "good_name s" by (auto simp: accepted_def)
      then show ?thesis using shm_region_index_put_refines [OF b l(2) s(2) _ t(1), of obj E] True room(2) names_inv_step [OF i] i
        by (auto simp: IndexPut offset_store_index_put_def bind_name_def names_abs_def split: if_splits)
    next
      case False
      then show ?thesis using i k name_invalid(4) [OF not_accepted] null_handle(2)
        by (auto simp: IndexPut offset_store_index_put_def bind_name_def names_abs_def)
    qed
  next
    case (IndexGet n)
    then show ?thesis using i k name_invalid(5) [OF not_accepted] shm_region_index_get_refines [OF b rd(2), of "the n" E]
      by (cases "accepted n") (auto simp: accepted_def offset_store_index_get_def lookup_name_def names_abs_def split: option.splits)
  next
    case (IndexContains n)
    then show ?thesis using i k name_invalid(6) [OF not_accepted] shm_region_index_contains_refines [OF b rd(2), of "the n" E]
      by (cases "accepted n") (auto simp: accepted_def offset_store_index_contains_def names_abs_def)
  next
    case (IndexRemove n)
    then show ?thesis using i k name_invalid(7) [OF not_accepted] shm_region_index_remove_refines [OF b l(2) _ t(1), of "the n" E] names_inv_step [OF i]
      by (cases "accepted n") (auto simp: accepted_def offset_store_index_remove_def unbind_name_def names_abs_def split: if_splits)
  qed
qed

interpretation nm: exact_simulation "names_inv rg w0" names_abs name_op_ok "name_run E \<lparr>os_region = rg\<rparr>" name_spec
  for rg w0 E
  by unfold_locales (rule name_step)

text \<open>C11: The store's named handles are two finite maps of at most 16 roots and 32 index entries: any
  sequence of the seven operations, with any names, null and over-long ones included, returns on every
  path and returns exactly what the maps return; \<open>OUT_OF_MEMORY\<close> comes exactly when an unbound name meets
  a full table. Nothing behind the header changes, a valid header stays valid and both locks are free
  again.\<close>

theorem store_names_sequence_refines:
  assumes b: "rg_base rg \<noteq> 0" and l: "rwl w HDR_roots_rwlock = RWFree" "rwl w HDR_index_rwlock = RWFree"
    and t: "tables_ok (bytes w)" "tables_exact (bytes w)" and k: "list_all name_op_ok ops"
  shows "\<exists>m'. run_ops (name_run E \<lparr>os_region = rg\<rparr>) ops w
      = Some (fst (run_spec name_spec ops (roots_map (bytes w), index_map (bytes w))), set_bytes m' w) \<and>
     (roots_map m', index_map m') = snd (run_spec name_spec ops (roots_map (bytes w), index_map (bytes w))) \<and>
     tables_ok m' \<and> tables_exact m' \<and> (\<forall>x \<ge> 2496. m' x = bytes w x) \<and>
     (shm_region_validate_header (Some rg) (bytes w) \<longrightarrow> shm_region_validate_header (Some rg) m')"
proof -
  have "names_inv rg w w" using b l t unfolding names_inv_def by (metis set_bytes_same)
  from nm.run_refines [OF this k, of E] show ?thesis by (auto simp: names_inv_def names_abs_def)
qed

lemma demo_tables_empty: "roots_map (bytes demo_blank) = Map.empty" "index_map (bytes demo_blank) = Map.empty"
proof -
  have z: "bytes demo_blank x = 0" for x by (simp add: demo_blank_def)
  then show "roots_map (bytes demo_blank) = Map.empty" "index_map (bytes demo_blank) = Map.empty"
    using roots.unused_empty(1) [of "bytes demo_blank"] index.unused_empty(1) [of "bytes demo_blank"]
    by (simp_all add: roots_map_def index_map_def named_def fun_eq_iff)
qed

theorem store_names_sequence_refines_witness:
  "\<exists>w'. run_ops (name_run demo_env \<lparr>os_region = demo_region\<rparr>)
      [SetRoot (Some [97]) 4096, GetRoot (Some [97]), GetRoot (Some [98]), IndexContains (Some [97]), SetRoot (Some []) 64,
       IndexPut (Some [97]) 0, SetRoot (Some [97]) 64, RemoveRoot (Some [97]), RemoveRoot (Some [97]), GetRoot None] demo_blank
    = Some ([NStatus STATUS_OK, NHandle STATUS_OK (Some 4096), NHandle STATUS_NOT_FOUND None, NBool STATUS_OK (Some False),
        NStatus STATUS_INVALID_ARGUMENT, NStatus STATUS_INVALID_ARGUMENT, NStatus STATUS_OK, NStatus STATUS_OK,
        NStatus STATUS_NOT_FOUND, NHandle STATUS_INVALID_ARGUMENT None], w')"
proof -
  let ?ops = "[SetRoot (Some [97]) 4096, GetRoot (Some [97]), GetRoot (Some [98]), IndexContains (Some [97]), SetRoot (Some []) 64,
       IndexPut (Some [97]) 0, SetRoot (Some [97]) 64, RemoveRoot (Some [97]), RemoveRoot (Some [97]), GetRoot None]"
  have k: "list_all name_op_ok ?ops" by (simp add: c_string_def)
  have g: "accepted (Some [97])" "accepted (Some [98])" "\<not> accepted (Some [])" "\<not> accepted None"
    by (simp_all add: accepted_def good_name_def)
  from store_names_sequence_refines [OF demo_base demo_blank_facts(1,1,2,5) k, of demo_env] obtain m' where
    "run_ops (name_run demo_env \<lparr>os_region = demo_region\<rparr>) ?ops demo_blank
      = Some (fst (run_spec name_spec ?ops (Map.empty, Map.empty)), set_bytes m' demo_blank)"
    by (auto simp only: demo_tables_empty)
  then show ?thesis by (simp add: bind_name_def lookup_name_def unbind_name_def g)
qed

end
