(* ===== verification/Workload.thy ===== *)
theory Workload
  imports Lifecycle StoreTables
begin

text \<open>
  A store at work. Several processes, each at its own mapping address and on its own thread, create and
  destroy containers, bind their handles to names and look them up, and operate on the containers. A
  client picks each request after reading all replies, so a handle that one process publishes is used
  by another. The abstract store is two bounded name maps, the contents of the containers by handle,
  and the funds: what the largest free block is known to have.
\<close>

section \<open>Requests\<close>

datatype request = Naming env ShmRegion name_op | Using env ShmRegion OffsetPtr call
  | Making env ShmRegion recipe | Dropping env ShmRegion kind OffsetPtr

datatype reply = NameReply name_res | UseReply answer | Made OffsetPtr | Dropped

fun request_run :: "request \<Rightarrow> world \<Rightarrow> reply result" where
  "request_run (Naming E rg x) w = map_option (apfst NameReply) (name_run E \<lparr>os_region = rg\<rparr> x w)"
| "request_run (Using E rg off x) w = map_option (apfst UseReply) (container_run E rg off x w)"
| "request_run (Making E rg rc) w = map_option (apfst Made) (create_run E rg rc w)"
| "request_run (Dropping E rg k off) w = map_option (apfst (\<lambda>u. Dropped)) (destroy_run E rg k off w)"

section \<open>The abstract store\<close>

record view =
  funds :: nat
  names :: "(cstr \<rightharpoonup> OffsetPtr) \<times> (cstr \<rightharpoonup> OffsetPtr)"
  conts :: "OffsetPtr \<rightharpoonup> content"

text \<open>A request changes just the part it names. What costs more than the funds may be refused; a new
  handle is one that no container has.\<close>

fun request_spec :: "request \<Rightarrow> view \<Rightarrow> reply \<Rightarrow> view \<Rightarrow> bool" where
  "request_spec (Naming E rg x) v r v' \<longleftrightarrow>
     r = NameReply (fst (name_spec x (names v))) \<and> v' = v\<lparr>names := snd (name_spec x (names v))\<rparr>"
| "request_spec (Using E rg off x) v r v' \<longleftrightarrow>
     (\<exists>a c c' B. r = UseReply a \<and> conts v off = Some c \<and> content_spec x c a c' \<and>
        spend (call_price x c) (call_granted x a) (funds v) B \<and>
        v' = v\<lparr>funds := B, conts := (conts v)(off \<mapsto> c')\<rparr>)"
| "request_spec (Making E rg rc) v r v' \<longleftrightarrow>
     (\<exists>off B. r = Made off \<and> spend (recipe_cost rc) (off \<noteq> 0) (funds v) B \<and>
        (if off = 0 then v' = v\<lparr>funds := B\<rparr>
         else conts v off = None \<and> v' = v\<lparr>funds := B, conts := (conts v)(off \<mapsto> recipe_content rc)\<rparr>))"
| "request_spec (Dropping E rg k off) v r v' \<longleftrightarrow>
     r = Dropped \<and> v' = v\<lparr>conts := (conts v)(off := None)\<rparr>"

text \<open>A request comes from a process that maps the region, at any address; it names a container that
  exists and that the call fits, or a recipe of acceptable sizes.\<close>

fun request_ok :: "ShmRegion \<Rightarrow> world \<Rightarrow> request \<Rightarrow> view \<Rightarrow> bool" where
  "request_ok rg w (Naming E rg' x) v \<longleftrightarrow> region_ok rg' \<and> rg_size rg' = rg_size rg \<and> name_op_ok x"
| "request_ok rg w (Using E rg' off x) v \<longleftrightarrow> region_ok rg' \<and> rg_size rg' = rg_size rg \<and> ready E w \<and>
     (\<exists>c. conts v off = Some c \<and> call_fits x c)"
| "request_ok rg w (Making E rg' rc) v \<longleftrightarrow> region_ok rg' \<and> rg_size rg' = rg_size rg \<and> ready E w \<and>
     (\<forall>a. rc_mutex_init E a = 0) \<and> recipe_ok rc"
| "request_ok rg w (Dropping E rg' k off) v \<longleftrightarrow> region_ok rg' \<and> rg_size rg' = rg_size rg \<and> ready E w \<and>
     (\<exists>c. conts v off = Some c \<and> content_kind c = k \<and> droppable c)"

section \<open>The store and what it stands for\<close>

abbreviation registered_spans :: "(OffsetPtr \<rightharpoonup> kind) \<Rightarrow> mem \<Rightarrow> nat set" where
  "registered_spans \<equiv> family_spans container_spans"

definition store_content :: "(OffsetPtr \<rightharpoonup> kind) \<Rightarrow> mem \<Rightarrow> OffsetPtr \<rightharpoonup> content" where
  "store_content reg m = (\<lambda>off. map_option (\<lambda>k. container_content k m (unat off)) (reg off))"

definition store_names :: "mem \<Rightarrow> (cstr \<rightharpoonup> OffsetPtr) \<times> (cstr \<rightharpoonup> OffsetPtr)" where
  "store_names m = (roots_map m, index_map m)"

text \<open>The memory of a store in which the registry names the containers.\<close>

definition store_ok :: "ShmRegion \<Rightarrow> (OffsetPtr \<rightharpoonup> kind) \<Rightarrow> mem \<Rightarrow> bool" where
  "store_ok rg reg m \<longleftrightarrow>
     heap_inv rg m \<and> tables_ok m \<and> tables_exact m \<and> shm_region_validate_header (Some rg) m \<and>
     family_ok container_ok container_spans reg m"

text \<open>The mutexes of the containers and the locks of the two name tables are free.\<close>

definition store_unlocked :: "(OffsetPtr \<rightharpoonup> kind) \<Rightarrow> world \<Rightarrow> bool" where
  "store_unlocked reg w \<longleftrightarrow>
     rwl w HDR_roots_rwlock = RWFree \<and> rwl w HDR_index_rwlock = RWFree \<and>
     (\<forall>off k. reg off = Some k \<longrightarrow> mtx w (unat off + container_lock_at k) = MFree)"

definition store_shows :: "ShmRegion \<Rightarrow> (OffsetPtr \<rightharpoonup> kind) \<Rightarrow> world \<Rightarrow> view \<Rightarrow> bool" where
  "store_shows rg reg w v \<longleftrightarrow>
     store_ok rg reg (bytes w) \<and> store_unlocked reg w \<and> funded (funds v) (bytes w) \<and>
     names v = store_names (bytes w) \<and> conts v = store_content reg (bytes w)"

text \<open>The spans \<open>F\<close> of everyone else: live in \<open>m0\<close>, undisturbed in \<open>m\<close>, and none of them the store's.\<close>

definition foreign_kept :: "nat set \<Rightarrow> nat set \<Rightarrow> mem \<Rightarrow> mem \<Rightarrow> bool" where
  "foreign_kept F S m0 m \<longleftrightarrow> F \<subseteq> dom (heap_abs m0) \<and> F \<inter> S = {} \<and> undisturbed F m0 m"

lemma undisturbed_trans: "undisturbed T m m1 \<Longrightarrow> undisturbed T m1 m2 \<Longrightarrow> undisturbed T m m2"
  unfolding undisturbed_def using same_on_trans by blast

lemma foreign_kept_step:
  assumes k: "foreign_kept F S m0 m" and s: "owner_step S S' m m'"
  shows "foreign_kept F S' m0 m'"
proof -
  have f: "F \<subseteq> dom (heap_abs m0)" "F \<inter> S = {}" "undisturbed F m0 m" using k by (simp_all add: foreign_kept_def)
  have "q \<notin> S'" if q: "q \<in> F" for q
  proof -
    obtain n where "heap_abs m0 q = Some n" using f(1) q by blast
    then have "heap_abs m q = Some n" using undisturbedD(1) [OF f(3) q] by blast
    moreover have "q \<notin> S" using f(2) q by auto
    ultimately show ?thesis by (rule private_step_live(2) [OF s])
  qed
  then show ?thesis using f undisturbed_trans [OF f(3) undisturbed_step [OF s f(2)]] by (auto simp: foreign_kept_def)
qed

lemma foreign_kept_fewer: "foreign_kept F S m0 m \<Longrightarrow> S' \<subseteq> S \<Longrightarrow> foreign_kept F S' m0 m"
  by (auto simp: foreign_kept_def)

text \<open>The states that requests lead to from \<open>w0\<close>.\<close>

definition store_rel :: "ShmRegion \<Rightarrow> nat set \<Rightarrow> world \<Rightarrow> world \<Rightarrow> view \<Rightarrow> bool" where
  "store_rel rg F w0 w v \<longleftrightarrow>
     (\<exists>reg. store_shows rg reg w v \<and> foreign_kept F (registered_spans reg (bytes w)) (bytes w0) (bytes w)) \<and>
     (\<forall>E. ready E w = ready E w0) \<and> unat (rg_size rg) \<le> 2 ^ 61"

lemma store_relE:
  assumes "store_rel rg F w0 w v"
  obtains reg where "store_ok rg reg (bytes w)" "store_unlocked reg w" "funded (funds v) (bytes w)"
    "names v = store_names (bytes w)" "conts v = store_content reg (bytes w)"
    "foreign_kept F (registered_spans reg (bytes w)) (bytes w0) (bytes w)"
    "\<forall>E. ready E w = ready E w0" "unat (rg_size rg) \<le> 2 ^ 61"
  using assms by (auto simp: store_rel_def store_shows_def)

text \<open>What a step of the owner of some spans keeps of the store: the header and the tables.\<close>

lemma store_step:
  assumes s: "store_ok rg reg m" and p: "owner_step S S' m m'" and h: "heap_inv rg' m'" and rg': "rg_size rg' = rg_size rg"
    and f: "family_ok container_ok container_spans reg' m'"
  shows "store_ok rg reg' m'" and "store_names m' = store_names m"
proof -
  have "same_on m m' 0 2496" using p by (simp add: private_step_def)
  note low = header_low_same [OF this]
  have "region_ok rg" using s by (simp add: store_ok_def heap_inv_def header_inv_def)
  then have "heap_inv rg m'" using heap_inv_relocate [OF h] rg' by simp
  then show "store_ok rg reg' m'" "store_names m' = store_names m"
    using s f low by (simp_all add: store_ok_def store_names_def)
qed

lemma store_content_Some:
  "store_content reg m off = Some c \<longleftrightarrow> (\<exists>k. reg off = Some k \<and> container_content k m (unat off) = c)"
  by (auto simp: store_content_def)

lemma store_content_None: "store_content reg m off = None \<longleftrightarrow> reg off = None"
  by (simp add: store_content_def)

lemma store_content_upd:
  assumes "\<And>off' k'. reg off' = Some k' \<Longrightarrow> off' \<noteq> off \<Longrightarrow>
      container_content k' m' (unat off') = container_content k' m (unat off')"
  shows "store_content (reg(off := x)) m' = (store_content reg m)(off := map_option (\<lambda>k. container_content k m' (unat off)) x)"
proof
  fix off'
  show "store_content (reg(off := x)) m' off'
      = ((store_content reg m)(off := map_option (\<lambda>k. container_content k m' (unat off)) x)) off'"
    using assms [of off'] by (cases "off' = off"; cases "reg off'") (simp_all add: store_content_def)
qed

section \<open>Requests on names\<close>

text \<open>The tables lie below the heap, so writing them disturbs no span.\<close>

lemma low_write_undisturbed:
  assumes h: "heap_inv rg m" and w: "\<forall>x \<ge> 2496. m' x = m x"
  shows "heap_inv rg m'" and "heap_abs m' = heap_abs m" and "undisturbed T m m'" and "funded B m' = funded B m"
proof -
  have o: "m' x = m x" if "\<not> outside_heap_meta m x" for x using that w by (simp add: outside_heap_meta_def)
  note hw = heap_write(1,2) [OF h o] and sv = serves_write [OF h o] and sn = spare_write [OF h o]
  have so: "same_on m m' q (q + j)" if "heap_abs m q = Some j" for q j
    using heap_abs_bounds(1) [OF h that] w by (simp add: same_on_def)
  show "heap_inv rg m'" "heap_abs m' = heap_abs m" using hw by blast+
  show "undisturbed T m m'" using hw(2) so sv by (simp add: undisturbed_def span_serves_def)
  show "funded B m' = funded B m" using sn by (simp add: funded_def)
qed

lemma naming_step:
  assumes i: "store_rel rg F w0 w v" and k: "request_ok rg w0 (Naming E rg' x) v"
  shows "\<exists>r w' v'. request_run (Naming E rg' x) w = Some (r, w') \<and> store_rel rg F w0 w' v' \<and>
     request_spec (Naming E rg' x) v r v'"
proof -
  let ?m = "bytes w"
  obtain reg where st: "store_ok rg reg ?m" and ul: "store_unlocked reg w" and fd: "funded (funds v) ?m"
    and nv: "names v = store_names ?m" and cv: "conts v = store_content reg ?m"
    and ok: "foreign_kept F (registered_spans reg ?m) (bytes w0) ?m"
    and rd: "\<forall>E. ready E w = ready E w0" and sz: "unat (rg_size rg) \<le> 2 ^ 61" using store_relE [OF i] .
  have h: "heap_inv rg ?m" and t: "tables_ok ?m" "tables_exact ?m" and hv: "shm_region_validate_header (Some rg) ?m"
    and f: "family_ok container_ok container_spans reg ?m" using st by (simp_all add: store_ok_def)
  have l: "rwl w HDR_roots_rwlock = RWFree" "rwl w HDR_index_rwlock = RWFree" using ul by (simp_all add: store_unlocked_def)
  have rg': "rg_base rg' \<noteq> 0" "rg_size rg' = rg_size rg" and x: "name_op_ok x" using k region_okD(1) by simp_all
  have b: "rg_base rg \<noteq> 0" using hv by (auto simp: shm_region_validate_header_def)
  have "names_inv rg' w w" using rg'(1) l t unfolding names_inv_def by (metis set_bytes_same)
  from nm.step_refines [OF this x, of E] obtain w' where
    r: "name_run E \<lparr>os_region = rg'\<rparr> x w = Some (fst (name_spec x (names_abs w)), w')" "names_inv rg' w w'"
      "names_abs w' = snd (name_spec x (names_abs w))" by blast
  then obtain m where m: "w' = set_bytes m w" "tables_ok m" "tables_exact m" "\<forall>x \<ge> 2496. m x = ?m x"
      "shm_region_validate_header (Some rg') ?m \<longrightarrow> shm_region_validate_header (Some rg') m"
    by (auto simp: names_inv_def)
  note q = low_write_undisturbed [OF h m(4)]
  note u = fam.family_undisturbed [OF f q(3) q(1)]
  have "shm_region_validate_header (Some rg') ?m" by (rule validate_header_relocate [OF hv rg'])
  then have "shm_region_validate_header (Some rg) m" using m(5) validate_header_relocate [of rg' m rg] b rg'(2) by simp
  then have "store_ok rg reg m" using q(1) m(2,3) u(1) by (simp add: store_ok_def)
  moreover have "store_content reg m = store_content reg ?m"
  proof
    fix off show "store_content reg m off = store_content reg ?m off"
      using u(3) [of off] by (cases "reg off") (simp_all add: store_content_def)
  qed
  moreover have "foreign_kept F (registered_spans reg m) (bytes w0) m"
    using ok undisturbed_trans [OF _ q(3)] u(2) by (simp add: foreign_kept_def)
  moreover have nm: "names_abs w = names v" "names_abs w' = store_names m"
    using nv m(1) by (simp_all add: names_abs_def store_names_def)
  ultimately have "store_rel rg F w0 w' (v\<lparr>names := snd (name_spec x (names v))\<rparr>)"
    using ul fd q(4) cv rd sz r(3) unfolding store_rel_def store_shows_def m(1)
    by (intro conjI exI [of _ reg]) (simp_all add: store_unlocked_def)
  then show ?thesis using r(1) nm(1) by auto
qed

section \<open>Requests on containers\<close>

lemma using_step:
  assumes i: "store_rel rg F w0 w v" and k: "request_ok rg w0 (Using E rg' off x) v"
  shows "\<exists>r w' v'. request_run (Using E rg' off x) w = Some (r, w') \<and> store_rel rg F w0 w' v' \<and>
     request_spec (Using E rg' off x) v r v'"
proof -
  let ?m = "bytes w"
  obtain reg where st: "store_ok rg reg ?m" and ul: "store_unlocked reg w" and fd: "funded (funds v) ?m"
    and nv: "names v = store_names ?m" and cv: "conts v = store_content reg ?m"
    and ok: "foreign_kept F (registered_spans reg ?m) (bytes w0) ?m"
    and rd: "\<forall>E. ready E w = ready E w0" and sz: "unat (rg_size rg) \<le> 2 ^ 61" using store_relE [OF i] .
  have rg': "region_ok rg'" "rg_size rg' = rg_size rg" and r: "ready E w" using k rd by simp_all
  obtain kd where kd: "reg off = Some kd" "call_fits x (container_content kd ?m (unat off))"
    using k by (auto simp: cv store_content_Some)
  have l: "mtx w (unat off + container_lock_at kd) = MFree" using ul kd(1) by (simp add: store_unlocked_def)
  have h: "heap_inv rg ?m" and f: "family_ok container_ok container_spans reg ?m" using st by (simp_all add: store_ok_def)
  have h': "heap_inv rg' (bytes w)" "unat (rg_size rg') \<le> 2 ^ 61" using heap_inv_relocate [OF h rg'] sz rg'(2) by simp_all
  show ?thesis
  proof (rule fam.member_step [OF h' r f kd(1) l kd(2) fd])
    fix a m B
    assume a: "container_run E rg' off x w = Some (a, set_bytes m w)" "heap_inv rg' m"
        "family_ok container_ok container_spans reg m"
      "content_spec x (container_content kd ?m (unat off)) a (container_content kd m (unat off))"
      and s: "owner_step (registered_spans reg ?m) (registered_spans reg m) ?m m"
      and cc: "\<And>off' k'. reg off' = Some k' \<Longrightarrow> off' \<noteq> off \<Longrightarrow>
        container_content k' m (unat off') = container_content k' ?m (unat off')"
      and b: "spend (call_price x (container_content kd ?m (unat off))) (call_granted x a) (funds v) B" "funded B m"
    have e: "reg(off := Some kd) = reg" using kd(1) by auto
    have c': "store_content reg m = (conts v)(off \<mapsto> container_content kd m (unat off))"
      using store_content_upd [of reg off m ?m "Some kd"] cc unfolding cv e by simp
    note ss = store_step [OF st s a(2) rg'(2) a(3)] and fk = foreign_kept_step [OF ok s]
    let ?v = "v\<lparr>funds := B, conts := (conts v)(off \<mapsto> container_content kd m (unat off))\<rparr>"
    have "store_rel rg F w0 (set_bytes m w) ?v"
      using ss fk ul rd sz b(2) nv c' unfolding store_rel_def store_shows_def
      by (intro conjI exI [of _ reg]) (simp_all add: store_unlocked_def)
    moreover have "request_spec (Using E rg' off x) v (UseReply a) ?v"
      using a(4) b(1) kd(1) unfolding request_spec.simps
      by (intro exI [of _ a] exI [of _ "container_content kd ?m (unat off)"] exI [of _ "container_content kd m (unat off)"] exI [of _ B])
         (simp add: cv store_content_def)
    moreover have "request_run (Using E rg' off x) w = Some (UseReply a, set_bytes m w)" using a(1) by simp
    ultimately show ?thesis by blast
  qed
qed

section \<open>Making and dropping containers\<close>

lemma unlocked_kept:
  assumes u: "store_unlocked reg w" and f: "family_ok container_ok container_spans reg (bytes w)" and l: "locks_kept w w'"
  shows "store_unlocked reg w'"
proof -
  have "mtx w' (unat off + container_lock_at k) = MFree" if r: "reg off = Some k" for off k
  proof -
    obtain n where n: "heap_abs (bytes w) (unat off) = Some n" "container_lock_at k < n"
      using container_header [OF family_okD(1) [OF f r]] by blast
    then show ?thesis using locks_keptD(3) [OF l n(1), of "unat off + container_lock_at k"] u r by (simp add: store_unlocked_def)
  qed
  then show ?thesis using u locks_keptD(1) [OF l] by (simp add: store_unlocked_def)
qed

lemma making_step:
  assumes i: "store_rel rg F w0 w v" and k: "request_ok rg w0 (Making E rg' rc) v"
  shows "\<exists>r w' v'. request_run (Making E rg' rc) w = Some (r, w') \<and> store_rel rg F w0 w' v' \<and>
     request_spec (Making E rg' rc) v r v'"
proof -
  let ?m = "bytes w"
  obtain reg where st: "store_ok rg reg ?m" and ul: "store_unlocked reg w" and fd: "funded (funds v) ?m"
    and nv: "names v = store_names ?m" and cv: "conts v = store_content reg ?m"
    and ok: "foreign_kept F (registered_spans reg ?m) (bytes w0) ?m"
    and rd: "\<forall>E. ready E w = ready E w0" and sz: "unat (rg_size rg) \<le> 2 ^ 61" using store_relE [OF i] .
  have rg': "region_ok rg'" "rg_size rg' = rg_size rg" and r: "ready E w" and ini: "\<forall>a. rc_mutex_init E a = 0"
    and rc: "recipe_ok rc" using k rd by simp_all
  have h: "heap_inv rg ?m" and f: "family_ok container_ok container_spans reg ?m" using st by (simp_all add: store_ok_def)
  have h': "heap_inv rg' (bytes w)" using heap_inv_relocate [OF h rg'] .
  show ?thesis
  proof (rule create_step [OF h' r ini rc])
    fix off w'
    assume a: "create_run E rg' rc w = Some (off, w')" "heap_inv rg' (bytes w')" "locks_kept w w'"
      and new: "off \<noteq> 0 \<Longrightarrow> made rc off w w'" and not: "off = 0 \<Longrightarrow> \<exists>S. owner_step {} S ?m (bytes w')"
      and b: "\<And>N. spare (N + recipe_cost rc) ?m \<Longrightarrow> off \<noteq> 0 \<and> spare N (bytes w')"
    obtain B where B: "spend (recipe_cost rc) (off \<noteq> 0) (funds v) B" "funded B (bytes w')"
      using spend_funded [OF fd, of "recipe_cost rc" "off \<noteq> 0" "bytes w'"] b by auto
    have run: "request_run (Making E rg' rc) w = Some (Made off, w')" using a(1) by simp
    have rd': "\<forall>E. ready E w' = ready E w0" using rd locks_keptD(2) [OF a(3)] by simp
    show ?thesis
    proof (cases "off = 0")
      case True
      then obtain S where s: "owner_step {} S ?m (bytes w')" using not by blast
      note ap = fam.apart_step [OF f s a(2) Int_empty_right]
      note ss = store_step [OF st s a(2) rg'(2) ap(1)]
      have "registered_spans reg ?m \<union> {} = registered_spans reg ?m" by simp
      then have "owner_step (registered_spans reg ?m) (S \<union> registered_spans reg ?m) ?m (bytes w')"
        using private_step_widen [OF s, of "registered_spans reg ?m"] by simp
      from foreign_kept_fewer [OF foreign_kept_step [OF ok this], of "registered_spans reg (bytes w')"]
      have fk: "foreign_kept F (registered_spans reg (bytes w')) (bytes w0) (bytes w')" using ap(2) by simp
      have c': "store_content reg (bytes w') = conts v"
      proof
        fix off' show "store_content reg (bytes w') off' = conts v off'"
          using ap(3) [of off'] by (cases "reg off'") (simp_all add: cv store_content_def)
      qed
      have "store_rel rg F w0 w' (v\<lparr>funds := B\<rparr>)"
        using ss fk unlocked_kept [OF ul f a(3)] rd' sz B(2) nv c' unfolding store_rel_def store_shows_def
        by (intro conjI exI [of _ reg]) simp_all
      moreover have "request_spec (Making E rg' rc) v (Made off) (v\<lparr>funds := B\<rparr>)" using B(1) True by auto
      ultimately show ?thesis using run by blast
    next
      case False
      let ?k = "recipe_kind rc"
      have m: "container_ok ?k (bytes w') (unat off)" "container_content ?k (bytes w') (unat off) = recipe_content rc"
        "owner_step {} (container_spans ?k (bytes w') (unat off)) ?m (bytes w')" "mtx w' (unat off + container_lock_at ?k) = MFree"
        using new [OF False] by (simp_all add: made_def)
      note mn = fam.member_new [OF f a(2) m(1,3)]
      note ss = store_step [OF st m(3) a(2) rg'(2) mn(2)] and fk = foreign_kept_step [OF ok mn(4)]
      have c': "store_content (reg(off \<mapsto> ?k)) (bytes w') = (conts v)(off \<mapsto> recipe_content rc)"
        unfolding cv using store_content_upd [OF mn(3), where x = "Some ?k"] m(2) by simp
      have "store_unlocked (reg(off \<mapsto> ?k)) w'" using unlocked_kept [OF ul f a(3)] m(4) by (auto simp: store_unlocked_def)
      then have "store_rel rg F w0 w' (v\<lparr>funds := B, conts := (conts v)(off \<mapsto> recipe_content rc)\<rparr>)"
        using ss fk rd' sz B(2) nv c' unfolding store_rel_def store_shows_def
        by (intro conjI exI [of _ "reg(off \<mapsto> ?k)"]) simp_all
      moreover have "request_spec (Making E rg' rc) v (Made off) (v\<lparr>funds := B, conts := (conts v)(off \<mapsto> recipe_content rc)\<rparr>)"
        using B(1) False mn(1) by (auto simp: cv store_content_None)
      ultimately show ?thesis using run by blast
    qed
  qed
qed

lemma dropping_step:
  assumes i: "store_rel rg F w0 w v" and k: "request_ok rg w0 (Dropping E rg' kd off) v"
  shows "\<exists>r w' v'. request_run (Dropping E rg' kd off) w = Some (r, w') \<and> store_rel rg F w0 w' v' \<and>
     request_spec (Dropping E rg' kd off) v r v'"
proof -
  let ?m = "bytes w" and ?a = "unat off + container_lock_at kd"
  obtain reg where st: "store_ok rg reg ?m" and ul: "store_unlocked reg w" and fd: "funded (funds v) ?m"
    and nv: "names v = store_names ?m" and cv: "conts v = store_content reg ?m"
    and ok: "foreign_kept F (registered_spans reg ?m) (bytes w0) ?m"
    and rd: "\<forall>E. ready E w = ready E w0" and sz: "unat (rg_size rg) \<le> 2 ^ 61" using store_relE [OF i] .
  have rg': "region_ok rg'" "rg_size rg' = rg_size rg" and r: "ready E w" using k rd by simp_all
  have kd: "reg off = Some kd" "droppable (container_content kd ?m (unat off))" using k by (auto simp: cv store_content_Some)
  have l: "mtx w ?a = MFree" using ul kd(1) by (simp add: store_unlocked_def)
  have h: "heap_inv rg ?m" and f: "family_ok container_ok container_spans reg ?m" using st by (simp_all add: store_ok_def)
  have h': "heap_inv rg' (bytes w)" using heap_inv_relocate [OF h rg'] .
  show ?thesis
  proof (rule destroy_step [OF h' r family_okD(1) [OF f kd(1)] l kd(2)])
    fix m T
    assume a: "destroy_run E rg' kd off w = Some ((), set_mtx ?a MUninit (set_bytes m w))" "heap_inv rg' m"
      and s: "owner_step (container_spans kd ?m (unat off)) T ?m m" and py: "pays spare 0 ?m m"
    let ?w = "set_mtx ?a MUninit (set_bytes m w)" and ?reg = "reg(off := None)"
    note mg = fam.member_gone [OF f a(2) kd(1) s]
    note ss = store_step [OF st s a(2) rg'(2) mg(1)]
    have fk: "foreign_kept F (registered_spans ?reg m) (bytes w0) m"
      using foreign_kept_fewer [OF foreign_kept_step [OF ok mg(3)]] by blast
    have c': "store_content ?reg m = (conts v)(off := None)"
      unfolding cv using store_content_upd [of reg off m ?m, where x = None] mg(2) by simp
    obtain n where n: "heap_abs ?m (unat off) = Some n" "container_lock_at kd < n"
      using container_header [OF family_okD(1) [OF f kd(1)]] by blast
    have other: "unat off' + container_lock_at k' \<noteq> ?a" if r': "reg off' = Some k'" "off' \<noteq> off" for off' k'
    proof -
      obtain j where j: "heap_abs ?m (unat off') = Some j" "container_lock_at k' < j"
        using container_header [OF family_okD(1) [OF f r'(1)]] by blast
      have "unat off' \<noteq> unat off" using r'(2) by (simp add: word_eq_iff_unat)
      then show ?thesis using heap_abs_disjoint [OF h j(1) n(1)] j(2) n(2) by linarith
    qed
    have "store_unlocked ?reg ?w" using ul other by (auto simp: store_unlocked_def)
    moreover have "\<forall>E. ready E ?w = ready E w0" using rd heap_abs_bounds(1) [OF h n(1)] by (simp add: ready_set_mtx)
    ultimately have "store_rel rg F w0 ?w (v\<lparr>conts := (conts v)(off := None)\<rparr>)"
      using ss fk sz funded_same [OF fd py] nv c' unfolding store_rel_def store_shows_def
      by (intro conjI exI [of _ ?reg]) simp_all
    then show ?thesis using a(1) by auto
  qed
qed

section \<open>Clients of the store\<close>

interpretation clients: client_simulation "store_rel rg F w0" "request_ok rg w0" request_run request_spec
  for rg F w0
proof unfold_locales
  fix w v x
  assume i: "store_rel rg F w0 w v" and k: "request_ok rg w0 x v"
  show "\<exists>r w' v'. request_run x w = Some (r, w') \<and> store_rel rg F w0 w' v' \<and> request_spec x v r v'"
  proof (cases x)
    case (Naming E rg' y)
    then show ?thesis using naming_step [OF i] k by blast
  next
    case (Using E rg' off y)
    then show ?thesis using using_step [OF i] k by blast
  next
    case (Making E rg' rc)
    then show ?thesis using making_step [OF i] k by blast
  next
    case (Dropping E rg' kd off)
    then show ?thesis using dropping_step [OF i] k by blast
  qed
qed

text \<open>C1: A store at work. Any client program that uses the store properly, whatever it decides from the
  replies it reads, is served: it may run in several processes, each at its own mapping address and on
  its own thread, create and destroy ring buffers, arrays, lists and tables, bind, look up and remove
  names, and operate on the containers, in any order. Properly means (\<open>request_ok\<close>) that a request
  comes from a thread that holds no shard lock, that it names a container that exists and has its
  kind, that sizes are acceptable and do not wrap, that the mutex of a container that is made can be
  initialized, that an element or value has the container's size, that a key is put only if it is at
  most \<open>key_size\<close> characters long, and that a list of more than one element is destroyed only while all
  its elements but the last are quiet (\<open>droppable\<close>); any other list may be used but not destroyed, since \<open>dynlist_destroy\<close> reads elements as block headers. Every request
  returns. The replies are those of the abstract store: two bounded name maps and a map from handles
  to contents, of which each request changes just the part it names. As long as the funds, what the
  largest free block had at first less what each request costs, cover a request, it is not refused
  memory. Afterwards the store's invariant holds, its memory shows the abstract state, every lock is
  free, and the allocations of no one else are touched.\<close>

theorem store_serves_clients:
  assumes s: "store_shows rg reg w v" and b: "unat (rg_size rg) \<le> 2 ^ 61"
    and c: "proper_client (request_ok rg w) request_spec n c [] v"
  shows "\<exists>rs w' v' reg'. run_client request_run n c [] w = Some (rs, w') \<and>
     allowed_client request_spec n c [] v rs v' \<and> store_shows rg reg' w' v' \<and>
     undisturbed (dom (heap_abs (bytes w)) - registered_spans reg (bytes w)) (bytes w) (bytes w')"
proof -
  let ?F = "dom (heap_abs (bytes w)) - registered_spans reg (bytes w)"
  have "undisturbed ?F (bytes w) (bytes w)" by (simp add: undisturbed_def)
  then have "foreign_kept ?F (registered_spans reg (bytes w)) (bytes w) (bytes w)" by (auto simp: foreign_kept_def)
  then have "store_rel rg ?F w w v" using s b by (auto simp: store_rel_def)
  from clients.run_related [OF this c] obtain rs w' v' where
    "run_client request_run n c [] w = Some (rs, w')" "store_rel rg ?F w w' v'" "allowed_client request_spec n c [] v rs v'"
    by blast
  then show ?thesis by (auto simp: store_rel_def foreign_kept_def)
qed

section \<open>A concrete store\<close>

text \<open>A fresh header and tables over the concrete heap, and no container yet.\<close>

definition demo_store :: world where
  "demo_store = set_bytes (fresh_header (rg_size demo_region) (bytes demo_world)) demo_world"

definition demo_view :: view where
  "demo_view = \<lparr>funds = 1364, names = (Map.empty, Map.empty), conts = Map.empty\<rparr>"

lemma demo_store_facts:
  shows "store_shows demo_region Map.empty demo_store demo_view" and "ready demo_env demo_store"
proof -
  let ?m = "bytes demo_world" let ?h = "fresh_header (rg_size demo_region) ?m"
  have "\<forall>x \<ge> 2496. ?h x = ?m x" using fresh_header_tables(4) by blast
  note q = low_write_undisturbed [OF demo_facts(2) this]
  have "funded 1364 ?m" using demo_spare by (simp add: funded_def)
  moreover have "rg_base demo_region \<noteq> 0" by (simp add: demo_region_def)
  ultimately show "store_shows demo_region Map.empty demo_store demo_view"
    using q(1,4) fresh_header_tables(1-3,5) fresh_header_valid demo_facts(8)
    by (simp add: store_shows_def store_ok_def store_unlocked_def demo_store_def demo_view_def family_ok_def store_names_def
        store_content_def)
  show "ready demo_env demo_store" using demo_facts(4) by (simp add: demo_store_def)
qed

text \<open>Two processes. The first makes an array and binds its handle to a name; the second, which maps the
  region elsewhere, looks the name up and pushes an element through the handle it reads; the first reads
  the element back, and the second destroys the array.\<close>

definition demo_region2 :: ShmRegion where
  "demo_region2 = demo_region\<lparr>rg_base := 131072\<rparr>"

fun reply_handle :: "reply \<Rightarrow> OffsetPtr" where
  "reply_handle (Made h) = h"
| "reply_handle (NameReply (NHandle st (Some h))) = h"
| "reply_handle _ = 0"

definition demo_client :: "reply list \<Rightarrow> request option" where
  "demo_client rs =
     (if length rs = 0 then Some (Making demo_env demo_region (MakeArray 8))
      else if length rs = 1 then Some (Naming demo_env demo_region (SetRoot (Some [97]) (reply_handle (rs ! 0))))
      else if length rs = 2 then Some (Naming demo_env demo_region2 (GetRoot (Some [97])))
      else if length rs = 3 then
        Some (Using demo_env demo_region2 (reply_handle (rs ! 2)) (ArrayCall (DPush [1, 2, 3, 4, 5, 6, 7, 8])))
      else if length rs = 4 then Some (Using demo_env demo_region (reply_handle (rs ! 0)) (ArrayCall (DGet 0)))
      else if length rs = 5 then Some (Dropping demo_env demo_region2 KArray (reply_handle (rs ! 2)))
      else None)"

lemma demo_facts_simps [simp]:
  "accepted (Some [97])" "c_string (Some [97])" "ready demo_env demo_store" "rc_mutex_init demo_env x = 0"
  "region_ok demo_region" "region_ok demo_region2" "rg_size demo_region2 = rg_size demo_region"
  using demo_store_facts(2)
  by (simp_all add: accepted_def good_name_def c_string_def region_ok_def mapping_ok_def demo_region_def demo_region2_def demo_env_def)

lemma array_call_spec:
  "content_spec (ArrayCall x) (CArray e c xs) a b \<longleftrightarrow>
     (\<exists>r c' ys. a = ArrayAns r \<and> dyn_spec x (c, xs) r (c', ys) \<and> b = CArray e c' ys)"
  by (cases a) auto

lemma demo_client_gets:
  "client_gets (request_ok demo_region demo_store) request_spec 6 demo_client [] demo_view
     (\<lambda>rs. \<exists>h. h \<noteq> 0 \<and> rs = [Made h, NameReply (NStatus STATUS_OK), NameReply (NHandle STATUS_OK (Some h)),
        UseReply (ArrayAns (DCode 0)), UseReply (ArrayAns (DGot 0 (Some [1, 2, 3, 4, 5, 6, 7, 8]))), Dropped])"
  (is "client_gets ?ok _ _ _ _ _ ?Q")
proof -
  have n: "6 = Suc (Suc (Suc (Suc (Suc (Suc 0)))))" by simp
  let ?x = "[1, 2, 3, 4, 5, 6, 7, 8] :: u8 list" let ?a = "Some [97] :: cstr option"
  let ?G = "\<lambda>n rs B N h c xs. client_gets ?ok request_spec n demo_client rs
      \<lparr>funds = B, names = (N, Map.empty), conts = [h \<mapsto> CArray 8 c xs]\<rparr> ?Q"
  have main: "?G (Suc (Suc (Suc (Suc (Suc 0))))) [Made h] 1140 Map.empty h 0 []" if h: "h \<noteq> 0" for h
  proof -
    let ?M = "[[97] \<mapsto> h]" and ?r = "[Made h, NameReply (NStatus STATUS_OK), NameReply (NHandle STATUS_OK (Some h))]"
    let ?p = "UseReply (ArrayAns (DCode 0))" and ?g = "UseReply (ArrayAns (DGot 0 (Some ?x)))"
    have "client_gets ?ok request_spec 0 demo_client (?r @ [?p, ?g, Dropped]) v ?Q" for v
      using h by (intro client_gets_end) simp
    then have "?G (Suc 0) (?r @ [?p, ?g]) B ?M h 4 [?x]" for B
      by - (rule client_gets_step [where x = "Dropping demo_env demo_region2 KArray h"],
          auto simp: demo_client_def)
    then have "?G (Suc (Suc 0)) (?r @ [?p]) B ?M h 4 [?x]" for B
      by - (rule client_gets_step [where x = "Using demo_env demo_region h (ArrayCall (DGet 0))"],
          auto simp: demo_client_def spend_def array_call_spec)
    then have "?G (Suc (Suc (Suc 0))) ?r 1140 ?M h 0 []"
      by - (rule client_gets_step [where x = "Using demo_env demo_region2 h (ArrayCall (DPush ?x))"],
          auto simp: demo_client_def spend_def array_call_spec cost_simps dyn_next_cap_def)
    then have "?G (Suc (Suc (Suc (Suc 0)))) [Made h, NameReply (NStatus STATUS_OK)] 1140 ?M h 0 []"
      by - (rule client_gets_step [where x = "Naming demo_env demo_region2 (GetRoot ?a)"],
          auto simp: demo_client_def lookup_name_def)
    then show ?thesis
      using h by - (rule client_gets_step [where x = "Naming demo_env demo_region (SetRoot ?a h)"],
          auto simp: demo_client_def bind_name_def)
  qed
  show ?thesis unfolding n
    using main by - (rule client_gets_step [where x = "Making demo_env demo_region (MakeArray 8)"],
          auto simp: demo_client_def demo_view_def spend_def cost_simps)
qed

theorem store_serves_clients_witness:
  "\<exists>h w'. h \<noteq> 0 \<and> run_client request_run 6 demo_client [] demo_store
     = Some ([Made h, NameReply (NStatus STATUS_OK), NameReply (NHandle STATUS_OK (Some h)), UseReply (ArrayAns (DCode 0)),
         UseReply (ArrayAns (DGot 0 (Some [1, 2, 3, 4, 5, 6, 7, 8]))), Dropped], w')"
proof -
  have "proper_client (request_ok demo_region demo_store) request_spec 6 demo_client [] demo_view"
    using demo_client_gets by (simp add: client_gets_def)
  from store_serves_clients [OF demo_store_facts(1) demo_bounds this] demo_client_gets show ?thesis
    unfolding client_gets_def by blast
qed

end
