(* ===== verification/ExamplePrograms.thy ===== *)
theory ExamplePrograms
  imports Store RingBuf DynArray DynList HashTable
begin

text \<open>
  The two programs of examples/: producer.c creates a store, fills one container or object in it and
  publishes it under a root name; consumer.c opens the store in another process, looks the name up and
  prints what it finds. Both threads run one call of the library after the other. A program returns its
  exit code, what it printed, the kernel's resources and the shared object.
\<close>

section \<open>The console\<close>

text \<open>A call of printf is its format and its arguments: numbers, C strings, and the string constants of
  the library and of the programs.\<close>

datatype arg = AInt int | ANat nat | AStr cstr | AText string

datatype line = Out string "arg list" | Err string "arg list"

text \<open>A string constant as the bytes of a C string.\<close>

definition lit :: "string \<Rightarrow> cstr" where
  "lit s = List.map of_char s"

text \<open>An \<open>int\<close> in memory: four bytes, two's complement. Copying any other number of bytes into an \<open>int\<close> leaves
  no defined value.\<close>

definition int_bytes :: "int \<Rightarrow> u8 list" where
  "int_bytes v = le_bytes 4 (unat (word_of_int v :: u32))"

definition bytes_int :: "u8 list \<Rightarrow> int option" where
  "bytes_int bs = (if length bs = 4 then Some (sint (of_nat (le_val bs) :: u32)) else None)"

text \<open>The string in a zeroed buffer of \<open>n\<close> bytes into which \<open>bs\<close> was copied; no value when the copy overflows
  the buffer or leaves no terminator in it.\<close>

definition buffer_string :: "nat \<Rightarrow> u8 list \<Rightarrow> cstr option" where
  "buffer_string n bs =
     (let buf = bs @ replicate (n - length bs) 0
      in if length bs \<le> n \<and> 0 \<in> set buf then Some (takeWhile (\<lambda>b. b \<noteq> 0) buf) else None)"

definition status_code :: "OffsetStoreStatus \<Rightarrow> int" where
  "status_code st =
     (case st of STATUS_OK \<Rightarrow> 0 | STATUS_INVALID_ARGUMENT \<Rightarrow> 1 | STATUS_INVALID_STATE \<Rightarrow> 2 | STATUS_NOT_FOUND \<Rightarrow> 3
      | STATUS_ALREADY_EXISTS \<Rightarrow> 4 | STATUS_OUT_OF_MEMORY \<Rightarrow> 5 | STATUS_SYSTEM_ERROR \<Rightarrow> 6)"

definition EXAMPLE_REGION_SIZE :: u64 where "EXAMPLE_REGION_SIZE = 65536"

type_synonym outcome = "int \<times> line list"

section \<open>The producer\<close>

text \<open>The fill loops: each value is pushed until one push fails, whose position is reported.\<close>

fun push_each :: "('v \<Rightarrow> world \<Rightarrow> int result) \<Rightarrow> nat \<Rightarrow> 'v list \<Rightarrow> world \<Rightarrow> nat option result" where
  "push_each push i [] w = Some (None, w)"
| "push_each push i (x # xs) w =
     do { (rc, w1) \<leftarrow> push x w; if rc \<noteq> 0 then Some (Some i, w1) else push_each push (Suc i) xs w1 }"

definition produce_basic_object :: "env \<Rightarrow> OffsetStore \<Rightarrow> cstr \<Rightarrow> cstr \<Rightarrow> world \<Rightarrow> outcome result" where
  "produce_basic_object E store root_name message w =
     (let rg = os_region store; payload_size = of_nat (length message + 1) in do {
        ((status, object), w1) \<leftarrow> object_store_alloc E (Some rg) 1 payload_size True w;
        if status \<noteq> STATUS_OK then Some ((- 1, [Err ''object_store_alloc failed\<newline>'' []]), w1)
        else let obj = the object in
          case offset_ptr_try_resolve (rg_base rg) (rg_size rg) obj payload_size True of
            None \<Rightarrow> do {
              (_, w2) \<leftarrow> object_store_free E (Some rg) obj w1;
              Some ((- 1, [Err ''offset_ptr_try_resolve failed\<newline>'' []]), w2)
            }
          | Some payload \<Rightarrow>
              let w2 = set_bytes (wr (bytes w1) (roff rg payload) (message @ [0])) w1 in do {
                (status', w3) \<leftarrow> offset_store_set_root E (Some store) (Some root_name) obj w2;
                if status' \<noteq> STATUS_OK then do {
                  (_, w4) \<leftarrow> object_store_free E (Some rg) obj w3;
                  Some ((- 1, [Err ''offset_store_set_root failed\<newline>'' []]), w4)
                }
                else Some ((0, [Out ''basic: created object at offset %llu, root='%s', value='%s'\<newline>''
                                  [ANat (unat obj), AStr root_name, AStr message]]), w3)
              }
      })"

definition array_values :: "int list" where "array_values = [10, 20, 30, 40, 50]"

definition produce_dynarray :: "env \<Rightarrow> OffsetStore \<Rightarrow> cstr \<Rightarrow> world \<Rightarrow> outcome result" where
  "produce_dynarray E store root_name w =
     (let rg = os_region store in do {
        (array, w1) \<leftarrow> dynarray_create E rg 4 w;
        if offset_ptr_is_null array then Some ((- 1, [Err ''dynarray_create failed\<newline>'' []]), w1)
        else do {
          (failed, w2) \<leftarrow> push_each (\<lambda>v. dynarray_push E rg array (Some (int_bytes v))) 0 array_values w1;
          case failed of
            Some i \<Rightarrow> do {
              (_, w3) \<leftarrow> dynarray_destroy E rg array w2;
              Some ((- 1, [Err ''dynarray_push failed at %zu\<newline>'' [ANat i]]), w3)
            }
          | None \<Rightarrow> do {
              (status, w3) \<leftarrow> offset_store_set_root E (Some store) (Some root_name) array w2;
              if status \<noteq> STATUS_OK then do {
                (_, w4) \<leftarrow> dynarray_destroy E rg array w3;
                Some ((- 1, [Err ''offset_store_set_root failed\<newline>'' []]), w4)
              }
              else do {
                (len, w4) \<leftarrow> dynarray_length E rg array w3;
                Some ((0, [Out ''array: created at offset %llu, root='%s', length=%llu\<newline>''
                             [ANat (unat array), AStr root_name, ANat (unat len)]]), w4)
              }
            }
        }
      })"

text \<open>The list has elements of 64 bytes and the values are shorter literals, so each push reads on behind
  the literal; \<open>behind s\<close> are the bytes it finds there.\<close>

definition list_values :: "cstr list" where "list_values = [lit ''alpha'', lit ''beta'', lit ''gamma'']"

definition list_elem :: "(cstr \<Rightarrow> nat \<Rightarrow> u8) \<Rightarrow> cstr \<Rightarrow> u8 list" where
  "list_elem behind s = s @ [0] @ List.map (behind s) [0..<63 - length s]"

definition produce_dynlist :: "(cstr \<Rightarrow> nat \<Rightarrow> u8) \<Rightarrow> env \<Rightarrow> OffsetStore \<Rightarrow> cstr \<Rightarrow> world \<Rightarrow> outcome result" where
  "produce_dynlist behind E store root_name w =
     (let rg = os_region store in do {
        (lst, w1) \<leftarrow> dynlist_create E rg 64 w;
        if offset_ptr_is_null lst then Some ((- 1, [Err ''dynlist_create failed\<newline>'' []]), w1)
        else do {
          (failed, w2) \<leftarrow> push_each (\<lambda>s. dynlist_push_back E rg lst (list_elem behind s)) 0 list_values w1;
          case failed of
            Some i \<Rightarrow> do {
              (_, w3) \<leftarrow> dynlist_destroy E rg lst w2;
              Some ((- 1, [Err ''dynlist_push_back failed at %zu\<newline>'' [ANat i]]), w3)
            }
          | None \<Rightarrow> do {
              (status, w3) \<leftarrow> offset_store_set_root E (Some store) (Some root_name) lst w2;
              if status \<noteq> STATUS_OK then do {
                (_, w4) \<leftarrow> dynlist_destroy E rg lst w3;
                Some ((- 1, [Err ''offset_store_set_root failed\<newline>'' []]), w4)
              }
              else do {
                (len, w4) \<leftarrow> dynlist_length E rg lst w3;
                Some ((0, [Out ''list: created at offset %llu, root='%s', length=%llu\<newline>''
                             [ANat (unat lst), AStr root_name, ANat (unat len)]]), w4)
              }
            }
        }
      })"

definition hash_entries :: "(cstr \<times> int) list" where
  "hash_entries = [(lit ''apple'', 100), (lit ''banana'', 200), (lit ''cherry'', 300)]"

definition produce_hashtable :: "env \<Rightarrow> OffsetStore \<Rightarrow> cstr \<Rightarrow> world \<Rightarrow> outcome result" where
  "produce_hashtable E store root_name w =
     (let rg = os_region store in do {
        (table, w1) \<leftarrow> hashtable_create E rg 8 64 4 w;
        if offset_ptr_is_null table then Some ((- 1, [Err ''hashtable_create failed\<newline>'' []]), w1)
        else do {
          (failed, w2) \<leftarrow> push_each (\<lambda>(k, v). hashtable_put E rg table (Some k) (Some (int_bytes v))) 0 hash_entries w1;
          case failed of
            Some i \<Rightarrow> do {
              (_, w3) \<leftarrow> hashtable_destroy E rg table w2;
              Some ((- 1, [Err ''hashtable_put failed for '%s'\<newline>'' [AStr (fst (hash_entries ! i))]]), w3)
            }
          | None \<Rightarrow> do {
              (status, w3) \<leftarrow> offset_store_set_root E (Some store) (Some root_name) table w2;
              if status \<noteq> STATUS_OK then do {
                (_, w4) \<leftarrow> hashtable_destroy E rg table w3;
                Some ((- 1, [Err ''offset_store_set_root failed\<newline>'' []]), w4)
              }
              else do {
                (len, w4) \<leftarrow> hashtable_length E rg table w3;
                Some ((0, [Out ''hash: created at offset %llu, root='%s', entries=%llu\<newline>''
                             [ANat (unat table), AStr root_name, ANat (unat len)]]), w4)
              }
            }
        }
      })"

definition ring_values :: "int list" where "ring_values = [100, 200, 300, 400, 500]"

definition produce_ringbuf :: "env \<Rightarrow> OffsetStore \<Rightarrow> cstr \<Rightarrow> world \<Rightarrow> outcome result" where
  "produce_ringbuf E store root_name w =
     (let rg = os_region store in do {
        (buf, w1) \<leftarrow> ringbuf_create E rg 8 4 w;
        if offset_ptr_is_null buf then Some ((- 1, [Err ''ringbuf_create failed\<newline>'' []]), w1)
        else do {
          (failed, w2) \<leftarrow> push_each (\<lambda>v. ringbuf_push E rg buf (Some (int_bytes v))) 0 ring_values w1;
          case failed of
            Some i \<Rightarrow> do {
              (_, w3) \<leftarrow> ringbuf_destroy E rg buf w2;
              Some ((- 1, [Err ''ringbuf_push failed at %zu\<newline>'' [ANat i]]), w3)
            }
          | None \<Rightarrow> do {
              (status, w3) \<leftarrow> offset_store_set_root E (Some store) (Some root_name) buf w2;
              if status \<noteq> STATUS_OK then do {
                (_, w4) \<leftarrow> ringbuf_destroy E rg buf w3;
                Some ((- 1, [Err ''offset_store_set_root failed\<newline>'' []]), w4)
              }
              else do {
                (len, w4) \<leftarrow> ringbuf_length E rg buf w3;
                Some ((0, [Out ''ring: created at offset %llu, root='%s', length=%llu/%llu\<newline>''
                             [ANat (unat buf), AStr root_name, ANat (unat len), ANat (unat (ringbuf_capacity rg buf (bytes w4)))]]), w4)
              }
            }
        }
      })"

definition producer_usage :: "cstr \<Rightarrow> line list" where
  "producer_usage prog =
     [Err ''Usage: %s <type> <shm-name> <root-name> [args...]\<newline>\<newline>'' [AStr prog],
      Err ''Types:\<newline>'' [], Err ''  basic <root-name> <message>  - basic object\<newline>'' [],
      Err ''  array  <root-name>           - dynamic array\<newline>'' [], Err ''  list   <root-name>          - linked list\<newline>'' [],
      Err ''  hash   <root-name>          - hash table\<newline>'' [], Err ''  ring   <root-name>          - ring buffer\<newline>'' []]"

text \<open>The command dispatch of main; \<open>argv\<close> starts with the program's name.\<close>

definition producer_dispatch ::
    "(cstr \<Rightarrow> nat \<Rightarrow> u8) \<Rightarrow> env \<Rightarrow> OffsetStore \<Rightarrow> cstr list \<Rightarrow> world \<Rightarrow> outcome result" where
  "producer_dispatch behind E store argv w =
     (let ty = argv ! 1; root_name = argv ! 3 in
      if ty = lit ''basic'' then
        (if length argv < 5 then Some ((1, [Err ''basic requires <message>\<newline>'' []]), w)
         else produce_basic_object E store root_name (argv ! 4) w)
      else if ty = lit ''array'' then produce_dynarray E store root_name w
      else if ty = lit ''list'' then produce_dynlist behind E store root_name w
      else if ty = lit ''hash'' then produce_hashtable E store root_name w
      else if ty = lit ''ring'' then produce_ringbuf E store root_name w
      else Some ((1, [Err ''Unknown type: %s\<newline>'' [AStr ty]]), w))"

definition producer_main ::
    "(cstr \<Rightarrow> nat \<Rightarrow> u8) \<Rightarrow> kernel \<Rightarrow> env \<Rightarrow> OffsetStore \<Rightarrow> cstr list \<Rightarrow> os \<Rightarrow> world \<Rightarrow> (int \<times> line list \<times> os \<times> world) option" where
  "producer_main behind K E uninit argv s w =
     (if length argv < 4 then Some (1, producer_usage (argv ! 0), s, w)
      else do {
        (status, store, s1, w1) \<leftarrow>
          offset_store_bootstrap K E (Some uninit) (Some (argv ! 2)) EXAMPLE_REGION_SIZE s w;
        if status \<noteq> STATUS_OK
        then Some (1, [Err ''offset_store_bootstrap: %s\<newline>'' [AText (offset_store_status_string (status_code status))]], s1, w1)
        else do {
          ((ret, out), w2) \<leftarrow> producer_dispatch behind E (the store) argv w1;
          if ret \<noteq> 0
          then (let (_, _, s2) = offset_store_close K store s1; (_, s3) = shm_region_unlink K (Some (argv ! 2)) s2
                in Some (ret, out, s3, w2))
          else Some (ret, out, s1, w2)
        }
      })"

section \<open>The consumer\<close>

text \<open>printf with the conversion \<open>%s\<close> of a pointer into the region: the bytes up to the first zero. There
  is no value when the mapping ends before.\<close>

definition region_string :: "ShmRegion \<Rightarrow> u64 \<Rightarrow> mem \<Rightarrow> cstr option" where
  "region_string rg a m =
     (let bs = rd m (roff rg a) (unat (rg_size rg) - roff rg a)
      in if 0 \<in> set bs then Some (takeWhile (\<lambda>b. b \<noteq> 0) bs) else None)"

definition consume_basic_object :: "env \<Rightarrow> OffsetStore \<Rightarrow> cstr \<Rightarrow> world \<Rightarrow> outcome result" where
  "consume_basic_object E store root_name w =
     (let rg = os_region store in do {
        ((status, object), w1) \<leftarrow> offset_store_get_root E (Some store) (Some root_name) True w;
        if status \<noteq> STATUS_OK then Some ((- 1, [Err ''offset_store_get_root failed\<newline>'' []]), w1)
        else case offset_ptr_try_resolve (rg_base rg) (rg_size rg) (the object) 256 True of
            None \<Rightarrow> Some ((- 1, [Err ''offset_ptr_try_resolve failed\<newline>'' []]), w1)
          | Some payload \<Rightarrow> do {
              text \<leftarrow> region_string rg payload (bytes w1);
              Some ((0, [Out ''basic: root='%s', offset=%llu, value='%s'\<newline>''
                           [AStr root_name, ANat (unat (the object)), AStr text]]), w1)
            }
      })"

text \<open>The read loops over an index: what is printed before the first failing read, and its position.\<close>

function read_each ::
    "(u64 \<Rightarrow> world \<Rightarrow> (int \<times> u8 list option) result) \<Rightarrow> (u8 list \<Rightarrow> bool \<Rightarrow> line option) \<Rightarrow> u64 \<Rightarrow> u64 \<Rightarrow> world
       \<Rightarrow> (u64 option \<times> line list) result" where
  "read_each get show i len w =
     (if i < len then do {
        ((rc, out), w1) \<leftarrow> get i w;
        if rc \<noteq> 0 then Some ((Some i, []), w1)
        else do {
          l \<leftarrow> show (the out) (i + 1 < len);
          ((failed, out'), w2) \<leftarrow> read_each get show (i + 1) len w1;
          Some ((failed, l # out'), w2)
        }
      }
      else Some ((None, []), w))"
  by pat_completeness auto

termination
proof (relation "measure (\<lambda>(get, show, i, len, w). unat len - unat i)")
  fix i len :: u64
  assume "i < len"
  then show "((get, show, i + 1, len, w'), (get, show, i, len, w)) \<in> measure (\<lambda>(get, show, i, len, w). unat len - unat i)"
    for get :: "u64 \<Rightarrow> world \<Rightarrow> (int \<times> u8 list option) result" and "show" :: "u8 list \<Rightarrow> bool \<Rightarrow> line option" and w w' :: world
    using unat_less_2p64 [of len] by (subst in_measure) (simp add: word_less_nat_alt unat_add_nowrap)
qed simp

definition separator :: "bool \<Rightarrow> arg" where
  "separator again = AText (if again then '', '' else '''')"

definition consume_dynarray :: "env \<Rightarrow> OffsetStore \<Rightarrow> cstr \<Rightarrow> world \<Rightarrow> outcome result" where
  "consume_dynarray E store root_name w =
     (let rg = os_region store in do {
        ((status, object), w1) \<leftarrow> offset_store_get_root E (Some store) (Some root_name) True w;
        if status \<noteq> STATUS_OK then Some ((- 1, [Err ''offset_store_get_root failed\<newline>'' []]), w1)
        else let array = the object in do {
          (len, w2) \<leftarrow> dynarray_length E rg array w1;
          let start = Out ''array: root='%s', offset=%llu, length=%lu, values=[''
                        [AStr root_name, ANat (unat array), ANat (unat len)];
          ((failed, out), w3) \<leftarrow> read_each (\<lambda>i. dynarray_get E rg array i True)
              (\<lambda>bs again. do { v \<leftarrow> bytes_int bs; Some (Out ''%d%s'' [AInt v, separator again]) }) 0 len w2;
          case failed of
            Some i \<Rightarrow> Some ((- 1, start # out @ [Err ''dynarray_get failed at %lu\<newline>'' [ANat (unat i)]]), w3)
          | None \<Rightarrow> Some ((0, start # out @ [Out '']\<newline>'' []]), w3)
        }
      })"

definition consume_dynlist :: "env \<Rightarrow> OffsetStore \<Rightarrow> cstr \<Rightarrow> world \<Rightarrow> outcome result" where
  "consume_dynlist E store root_name w =
     (let rg = os_region store in do {
        ((status, object), w1) \<leftarrow> offset_store_get_root E (Some store) (Some root_name) True w;
        if status \<noteq> STATUS_OK then Some ((- 1, [Err ''offset_store_get_root failed\<newline>'' []]), w1)
        else let lst = the object in do {
          (len, w2) \<leftarrow> dynlist_length E rg lst w1;
          let start = Out ''list: root='%s', offset=%llu, length=%lu, values=[''
                        [AStr root_name, ANat (unat lst), ANat (unat len)];
          ((failed, out), w3) \<leftarrow> read_each (\<lambda>i. dynlist_get E rg lst i True)
              (\<lambda>bs again. do { s \<leftarrow> buffer_string 64 bs; Some (Out ''\"%s\"%s'' [AStr s, separator again]) }) 0 len w2;
          case failed of
            Some i \<Rightarrow> Some ((- 1, start # out @ [Err ''dynlist_get failed at %lu\<newline>'' [ANat (unat i)]]), w3)
          | None \<Rightarrow> Some ((0, start # out @ [Out '']\<newline>'' []]), w3)
        }
      })"

fun lookup_each :: "env \<Rightarrow> ShmRegion \<Rightarrow> OffsetPtr \<Rightarrow> cstr list \<Rightarrow> world \<Rightarrow> line list result" where
  "lookup_each E rg table [] w = Some ([], w)"
| "lookup_each E rg table (k # ks) w =
     do {
       ((rc, out), w1) \<leftarrow> hashtable_get E rg table (Some k) True w;
       l \<leftarrow> (if rc = 0 then do { v \<leftarrow> bytes_int (the out); Some (Out ''  %s -> %d\<newline>'' [AStr k, AInt v]) }
            else Some (Out ''  %s -> (not found)\<newline>'' [AStr k]));
       (rest, w2) \<leftarrow> lookup_each E rg table ks w1;
       Some (l # rest, w2)
     }"

definition hash_keys :: "cstr list" where "hash_keys = [lit ''apple'', lit ''banana'', lit ''cherry'']"

definition consume_hashtable :: "env \<Rightarrow> OffsetStore \<Rightarrow> cstr \<Rightarrow> world \<Rightarrow> outcome result" where
  "consume_hashtable E store root_name w =
     (let rg = os_region store in do {
        ((status, object), w1) \<leftarrow> offset_store_get_root E (Some store) (Some root_name) True w;
        if status \<noteq> STATUS_OK then Some ((- 1, [Err ''offset_store_get_root failed\<newline>'' []]), w1)
        else let table = the object in do {
          (len, w2) \<leftarrow> hashtable_length E rg table w1;
          (out, w3) \<leftarrow> lookup_each E rg table hash_keys w2;
          Some ((0, Out ''hash: root='%s', offset=%llu, entries=%lu\<newline>''
                      [AStr root_name, ANat (unat table), ANat (unat len)] # out), w3)
        }
      })"

text \<open>The loop that pops until a pop fails; it has no bound of its own.\<close>

partial_function (option) pop_all :: "env \<Rightarrow> ShmRegion \<Rightarrow> OffsetPtr \<Rightarrow> world \<Rightarrow> line list result" where
  "pop_all E rg buf w =
     do {
       ((rc, out), w1) \<leftarrow> ringbuf_pop E rg buf True w;
       if rc \<noteq> 0 then Some ([], w1)
       else do {
         (empty, w2) \<leftarrow> ringbuf_is_empty E rg buf w1;
         v \<leftarrow> bytes_int (the out);
         (rest, w3) \<leftarrow> pop_all E rg buf w2;
         Some (Out ''%d%s'' [AInt v, separator (\<not> empty)] # rest, w3)
       }
     }"

definition consume_ringbuf :: "env \<Rightarrow> OffsetStore \<Rightarrow> cstr \<Rightarrow> world \<Rightarrow> outcome result" where
  "consume_ringbuf E store root_name w =
     (let rg = os_region store in do {
        ((status, object), w1) \<leftarrow> offset_store_get_root E (Some store) (Some root_name) True w;
        if status \<noteq> STATUS_OK then Some ((- 1, [Err ''offset_store_get_root failed\<newline>'' []]), w1)
        else let buf = the object in do {
          (len, w2) \<leftarrow> ringbuf_length E rg buf w1;
          let cap = ringbuf_capacity rg buf (bytes w2);
          (out, w3) \<leftarrow> pop_all E rg buf w2;
          Some ((0, Out ''ring: root='%s', offset=%llu, length=%lu/%lu, values=[''
                      [AStr root_name, ANat (unat buf), ANat (unat len), ANat (unat cap)] # out @ [Out '']\<newline>'' []]), w3)
        }
      })"

definition consumer_usage :: "cstr \<Rightarrow> line list" where
  "consumer_usage prog =
     [Err ''Usage: %s <type> <shm-name> <root-name>\<newline>\<newline>'' [AStr prog],
      Err ''Types:\<newline>'' [], Err ''  basic <root-name>  - read basic object\<newline>'' [],
      Err ''  array  <root-name> - read dynamic array\<newline>'' [], Err ''  list   <root-name> - read linked list\<newline>'' [],
      Err ''  hash   <root-name> - read hash table\<newline>'' [], Err ''  ring   <root-name> - read ring buffer\<newline>'' []]"

definition consumer_dispatch :: "env \<Rightarrow> OffsetStore \<Rightarrow> cstr list \<Rightarrow> world \<Rightarrow> outcome result" where
  "consumer_dispatch E store argv w =
     (let ty = argv ! 1; root_name = argv ! 3 in
      if ty = lit ''basic'' then consume_basic_object E store root_name w
      else if ty = lit ''array'' then consume_dynarray E store root_name w
      else if ty = lit ''list'' then consume_dynlist E store root_name w
      else if ty = lit ''hash'' then consume_hashtable E store root_name w
      else if ty = lit ''ring'' then consume_ringbuf E store root_name w
      else Some ((1, [Err ''Unknown type: %s\<newline>'' [AStr ty]]), w))"

definition consumer_main ::
    "kernel \<Rightarrow> env \<Rightarrow> OffsetStore \<Rightarrow> cstr list \<Rightarrow> os \<Rightarrow> world \<Rightarrow> (int \<times> line list \<times> os \<times> world) option" where
  "consumer_main K E uninit argv s w =
     (if length argv < 4 then Some (1, consumer_usage (argv ! 0), s, w)
      else
        let (status, store, s1) = offset_store_open_existing K (Some uninit) (Some (argv ! 2)) s (bytes w) in
        if status \<noteq> STATUS_OK
        then Some (1, [Err ''offset_store_open_existing: %s\<newline>'' [AText (offset_store_status_string (status_code status))]], s1, w)
        else do {
          ((ret, out), w1) \<leftarrow> consumer_dispatch E (the store) argv w;
          let (_, _, s2) = offset_store_close K store s1;
          Some (ret, out, s2, w1)
        })"

end
