(* ===== verification/Exchange.thy ===== *)
theory Exchange
  imports Workload ExamplePrograms
begin

text \<open>
  The calls the example programs make on a store at work, and their loops: what a fill loop leaves in a
  container while the funds last, and what a read loop prints. Each call is a request of the abstract
  store, so its result is read off the abstract state.
\<close>

section \<open>Calls of one process\<close>

text \<open>A process with the mapping \<open>rg'\<close>, running on the thread of \<open>E\<close>, in the state \<open>v\<close> of the store.\<close>

definition session :: "ShmRegion \<Rightarrow> nat set \<Rightarrow> world \<Rightarrow> env \<Rightarrow> ShmRegion \<Rightarrow> world \<Rightarrow> view \<Rightarrow> bool" where
  "session rg F w0 E rg' w v \<longleftrightarrow>
     store_rel rg F w0 w v \<and> region_ok rg' \<and> rg_size rg' = rg_size rg \<and> ready E w0"

lemma sessionD:
  assumes "session rg F w0 E rg' w v"
  shows "store_rel rg F w0 w v" "region_ok rg'" "rg_size rg' = rg_size rg" "ready E w0"
  using assms by (simp_all add: session_def)

lemma name_served:
  assumes s: "session rg F w0 E rg' w v" and x: "name_op_ok x"
  shows "\<exists>w'. name_run E \<lparr>os_region = rg'\<rparr> x w = Some (fst (name_spec x (names v)), w') \<and>
     session rg F w0 E rg' w' (v\<lparr>names := snd (name_spec x (names v))\<rparr>)"
proof -
  have "request_ok rg w0 (Naming E rg' x) v" using sessionD(2,3) [OF s] x by simp
  from naming_step [OF sessionD(1) [OF s] this] show ?thesis using s by (fastforce simp: session_def)
qed

lemma call_served:
  assumes s: "session rg F w0 E rg' w v" and c: "conts v off = Some c" "call_fits x c" "call_price x c \<le> funds v"
  shows "\<exists>a c' w'. container_run E rg' off x w = Some (a, w') \<and> content_spec x c a c' \<and> call_granted x a \<and>
     session rg F w0 E rg' w' (v\<lparr>funds := funds v - call_price x c, conts := (conts v)(off \<mapsto> c')\<rparr>)"
proof -
  have "request_ok rg w0 (Using E rg' off x) v" using sessionD(2-4) [OF s] c by simp
  from using_step [OF sessionD(1) [OF s] this] obtain r w' v' where
    r: "request_run (Using E rg' off x) w = Some (r, w')" "store_rel rg F w0 w' v'" "request_spec (Using E rg' off x) v r v'"
    by blast
  obtain a c' B where a: "r = UseReply a" "content_spec x c a c'" "spend (call_price x c) (call_granted x a) (funds v) B"
      "v' = v\<lparr>funds := B, conts := (conts v)(off \<mapsto> c')\<rparr>" using r(3) c(1) by auto
  have "call_granted x a" "B = funds v - call_price x c" using a(3) c(3) by (simp_all add: spend_def)
  moreover have "container_run E rg' off x w = Some (a, w')" using r(1) a(1) by auto
  ultimately show ?thesis using a(2,4) r(2) s by (auto simp: session_def)
qed

lemma make_served:
  assumes s: "session rg F w0 E rg' w v" and i: "\<forall>a. rc_mutex_init E a = 0" and c: "recipe_ok rc" "recipe_cost rc \<le> funds v"
  shows "\<exists>h w'. create_run E rg' rc w = Some (h, w') \<and> h \<noteq> 0 \<and>
     session rg F w0 E rg' w' (v\<lparr>funds := funds v - recipe_cost rc, conts := (conts v)(h \<mapsto> recipe_content rc)\<rparr>)"
proof -
  have "request_ok rg w0 (Making E rg' rc) v" using sessionD(2-4) [OF s] i c by simp
  from making_step [OF sessionD(1) [OF s] this] obtain r w' v' where
    r: "request_run (Making E rg' rc) w = Some (r, w')" "store_rel rg F w0 w' v'" "request_spec (Making E rg' rc) v r v'"
    by blast
  obtain h B where h: "r = Made h" "spend (recipe_cost rc) (h \<noteq> 0) (funds v) B"
      "if h = 0 then v' = v\<lparr>funds := B\<rparr> else conts v h = None \<and> v' = v\<lparr>funds := B, conts := (conts v)(h \<mapsto> recipe_content rc)\<rparr>"
    using r(3) by auto
  have "h \<noteq> 0" "B = funds v - recipe_cost rc" using h(2) c(2) by (simp_all add: spend_def)
  moreover have "create_run E rg' rc w = Some (h, w')" using r(1) h(1) by auto
  ultimately show ?thesis using h(3) r(2) s by (auto simp: session_def)
qed

section \<open>Fill loops\<close>

text \<open>The calls that add one element, what they make of the contents, and when they cannot fail.\<close>

fun grown :: "call \<Rightarrow> content \<Rightarrow> content" where
  "grown (ArrayCall (DPush x)) (CArray e c xs) = CArray e (dyn_next_cap c (length xs)) (xs @ [x])"
| "grown (ListCall (LPushBack x)) (CList e xs) = CList e (xs @ [x])"
| "grown (TableCall (TPut k y)) (CMap ks vs M) = CMap ks vs (M(k \<mapsto> y))"
| "grown (RingCall (RPush x)) (CQueue e c q) = CQueue e c (q @ [x])"
| "grown _ c = c"

fun addable :: "call \<Rightarrow> content \<Rightarrow> bool" where
  "addable (ArrayCall (DPush x)) (CArray e c xs) \<longleftrightarrow> length x = unat e"
| "addable (ListCall (LPushBack x)) (CList e xs) \<longleftrightarrow> length x = unat e"
| "addable (TableCall (TPut k y)) (CMap ks vs M) \<longleftrightarrow>
     0 \<notin> set k \<and> length k \<le> unat ks \<and> length k < 2 ^ 32 \<and> length y = unat vs"
| "addable (RingCall (RPush x)) (CQueue e c q) \<longleftrightarrow> length x = unat e \<and> Suc (length q) < c"
| "addable _ c \<longleftrightarrow> False"

definition answer_ok :: "answer \<Rightarrow> bool" where
  "answer_ok a \<longleftrightarrow> a \<in> {ArrayAns (DCode 0), ListAns (LCode 0), TableAns (TCode 0), RingAns (RCode 0)}"

lemma addable_fits: "addable x c \<Longrightarrow> call_fits x c"
  by (induction x c rule: addable.induct) simp_all

lemma addable_grows: "addable x c \<Longrightarrow> content_spec x c a c' \<Longrightarrow> call_granted x a \<Longrightarrow> answer_ok a \<and> c' = grown x c"
  by (induction x c rule: addable.induct; cases a) (auto simp: answer_ok_def)

fun affordable :: "call list \<Rightarrow> content \<Rightarrow> nat \<Rightarrow> bool" where
  "affordable [] c B \<longleftrightarrow> True"
| "affordable (x # xs) c B \<longleftrightarrow> addable x c \<and> call_price x c \<le> B \<and> affordable xs (grown x c) (B - call_price x c)"

text \<open>The body of a fill loop runs such a call for each value.\<close>

definition runs_as :: "env \<Rightarrow> ShmRegion \<Rightarrow> OffsetPtr \<Rightarrow> ('x \<Rightarrow> call) \<Rightarrow> ('x \<Rightarrow> world \<Rightarrow> int result) \<Rightarrow> bool" where
  "runs_as E rg' h f push \<longleftrightarrow>
     (\<forall>x w w' a. container_run E rg' h (f x) w = Some (a, w') \<longrightarrow> answer_ok a \<longrightarrow> push x w = Some (0, w'))"

text \<open>Such a loop succeeds while the funds last.\<close>

lemma push_each_served:
  assumes p: "runs_as E rg' h f push"
    and s: "session rg F w0 E rg' w v" "conts v h = Some c" "affordable (List.map f xs) c (funds v)"
  shows "\<exists>w' B. push_each push i xs w = Some (None, w') \<and>
     session rg F w0 E rg' w' (v\<lparr>funds := B, conts := (conts v)(h \<mapsto> fold grown (List.map f xs) c)\<rparr>)"
  using s
proof (induction xs arbitrary: i w v c)
  case Nil
  have "v\<lparr>funds := funds v, conts := (conts v)(h \<mapsto> c)\<rparr> = v" using Nil.prems(2) by (simp add: fun_upd_idem)
  then show ?case unfolding list.map fold_simps push_each.simps using Nil.prems(1) by metis
next
  case (Cons x xs)
  have k: "addable (f x) c" "call_price (f x) c \<le> funds v" "affordable (List.map f xs) (grown (f x) c) (funds v - call_price (f x) c)"
    using Cons.prems(3) by simp_all
  from call_served [OF Cons.prems(1,2) addable_fits [OF k(1)] k(2)] obtain a c1 w1 where
    a: "container_run E rg' h (f x) w = Some (a, w1)" "content_spec (f x) c a c1" "call_granted (f x) a"
      "session rg F w0 E rg' w1 (v\<lparr>funds := funds v - call_price (f x) c, conts := (conts v)(h \<mapsto> c1)\<rparr>)" by blast
  note g = addable_grows [OF k(1) a(2,3)]
  have "push x w = Some (0, w1)" using p a(1) g unfolding runs_as_def by blast
  moreover from Cons.IH [OF a(4), where c = "grown (f x) c" and i = "Suc i"] g k(3) obtain w' B where
    "push_each push (Suc i) xs w1 = Some (None, w')"
    "session rg F w0 E rg' w' (v\<lparr>funds := B, conts := (conts v)(h \<mapsto> fold grown (List.map f xs) (grown (f x) c))\<rparr>)"
    by (auto simp add: fun_upd_same simp del: fun_upd_apply)
  ultimately show ?case by (auto simp del: fun_upd_apply)
qed

text \<open>The pushes of the four programs are such calls.\<close>

lemma pushes_run:
  "runs_as E rg' h (\<lambda>x. ArrayCall (DPush (g x))) (\<lambda>x. dynarray_push E rg' h (Some (g x)))"
  "runs_as E rg' h (\<lambda>x. ListCall (LPushBack (g x))) (\<lambda>x. dynlist_push_back E rg' h (g x))"
  "runs_as E rg' h (\<lambda>(k, y). TableCall (TPut k (g y))) (\<lambda>(k, y). hashtable_put E rg' h (Some k) (Some (g y)))"
  "runs_as E rg' h (\<lambda>x. RingCall (RPush (g x))) (\<lambda>x. ringbuf_push E rg' h (Some (g x)))"
  by (auto simp: runs_as_def answer_ok_def)

section \<open>Queries\<close>

text \<open>A query changes nothing in the abstract store and costs nothing.\<close>

fun is_query :: "call \<Rightarrow> bool" where
  "is_query (ArrayCall x) \<longleftrightarrow> (case x of DGet i \<Rightarrow> True | DLength \<Rightarrow> True | _ \<Rightarrow> False)"
| "is_query (ListCall x) \<longleftrightarrow> (case x of LGet i \<Rightarrow> True | LLength \<Rightarrow> True | _ \<Rightarrow> False)"
| "is_query (TableCall x) \<longleftrightarrow> (case x of TGet k \<Rightarrow> True | TLength \<Rightarrow> True | _ \<Rightarrow> False)"
| "is_query (RingCall x) \<longleftrightarrow> (case x of RPush y \<Rightarrow> False | RPop \<Rightarrow> False | _ \<Rightarrow> True)"

lemma query_keeps:
  assumes "is_query x" and "content_spec x c a c'"
  shows "c' = c"
proof (cases x)
  case (RingCall y)
  then show ?thesis using assms by (cases y; cases c; cases a) auto
next
  case (ArrayCall y)
  then show ?thesis using assms by (cases y; cases c; cases a) (auto split: if_splits)
next
  case (ListCall y)
  then show ?thesis using assms by (cases y; cases c; cases a) (auto split: if_splits)
next
  case (TableCall y)
  then show ?thesis using assms by (cases y; cases c; cases a) (auto split: option.splits)
qed

lemma query_price: "is_query x \<Longrightarrow> call_price x c = 0"
proof (cases x)
  case (ArrayCall y)
  then show "is_query x \<Longrightarrow> ?thesis" by (cases y; cases c) simp_all
next
  case (ListCall y)
  then show "is_query x \<Longrightarrow> ?thesis" by (cases y; cases c) simp_all
next
  case (TableCall y)
  then show "is_query x \<Longrightarrow> ?thesis" by (cases y; cases c) simp_all
qed simp_all

lemma query_served:
  assumes s: "session rg F w0 E rg' w v" and c: "conts v off = Some c" "call_fits x c" and q: "is_query x"
  shows "\<exists>a w'. container_run E rg' off x w = Some (a, w') \<and> content_spec x c a c \<and> session rg F w0 E rg' w' v"
proof -
  have pr: "call_price x c = 0" by (rule query_price [OF q])
  then have "call_price x c \<le> funds v" by simp
  from call_served [OF s c this] obtain a c' w' where
    a: "container_run E rg' off x w = Some (a, w')" "content_spec x c a c'"
      "session rg F w0 E rg' w' (v\<lparr>funds := funds v - call_price x c, conts := (conts v)(off \<mapsto> c')\<rparr>)" by blast
  have "c' = c" by (rule query_keeps [OF q a(2)])
  moreover have "v\<lparr>funds := funds v - 0, conts := (conts v)(off \<mapsto> c)\<rparr> = v" using c(1) by (simp add: fun_upd_idem)
  ultimately show ?thesis using a pr by metis
qed

text \<open>Binding a root name and looking it up.\<close>

lemma good_name_accepted: "good_name name \<Longrightarrow> accepted (Some name) \<and> c_string (Some name)"
  by (simp add: accepted_def c_string_def good_name_def)

lemma root_bound:
  assumes s: "session rg F w0 E rg' w v" and n: "good_name name" and h: "h \<noteq> 0"
    and v: "names v = (Map.empty, Map.empty)"
  shows "\<exists>w'. offset_store_set_root E (Some \<lparr>os_region = rg'\<rparr>) (Some name) h w = Some (STATUS_OK, w') \<and>
     session rg F w0 E rg' w' (v\<lparr>names := ([name \<mapsto> h], Map.empty)\<rparr>)"
  using name_served [OF s, of "SetRoot (Some name) h"] good_name_accepted [OF n] h v by (fastforce simp: bind_name_def)

lemma root_found:
  assumes s: "session rg F w0 E rg' w v" and n: "good_name name" and h: "fst (names v) name = Some h"
  shows "\<exists>w'. offset_store_get_root E (Some \<lparr>os_region = rg'\<rparr>) (Some name) True w = Some ((STATUS_OK, Some h), w') \<and>
     session rg F w0 E rg' w' v"
proof -
  obtain R I where ri: "names v = (R, I)" by (cases "names v")
  have e: "v\<lparr>names := (R, I)\<rparr> = v" using ri by simp
  show ?thesis using name_served [OF s, of "GetRoot (Some name)"] good_name_accepted [OF n] h ri
    by (auto simp: lookup_name_def e)
qed

section \<open>Read loops\<close>

text \<open>The lines for a list of elements: every one but the last is followed by a separator.\<close>

fun shown :: "('x \<Rightarrow> bool \<Rightarrow> line) \<Rightarrow> 'x list \<Rightarrow> line list" where
  "shown f [] = []"
| "shown f (x # xs) = f x (xs \<noteq> []) # shown f xs"

lemma shown_map: "shown f (List.map g xs) = shown (\<lambda>x. f (g x)) xs"
  by (induction xs) simp_all

lemma shown_cong: "(\<And>x b. x \<in> set xs \<Longrightarrow> f x b = g x b) \<Longrightarrow> shown f xs = shown g xs"
  by (induction xs) simp_all

lemma read_each_served:
  assumes g: "\<And>i w. session rg F w0 E rg' w v \<Longrightarrow> unat i < length xs \<Longrightarrow>
      \<exists>w'. get i w = Some ((0, Some (xs ! unat i)), w') \<and> session rg F w0 E rg' w' v"
    and sh: "\<And>x again. x \<in> set xs \<Longrightarrow> show_line x again = Some (f x again)" and len: "unat len = length xs"
    and s: "session rg F w0 E rg' w v"
  shows "\<exists>w'. read_each get show_line i len w = Some ((None, shown f (drop (unat i) xs)), w') \<and> session rg F w0 E rg' w' v"
  using s
proof (induction "length xs - unat i" arbitrary: i w)
  case 0
  then show ?case using len by (subst read_each.simps) (auto simp: word_less_nat_alt)
next
  case (Suc k)
  have i: "unat i < length xs" using Suc.hyps(2) by simp
  have u: "unat (i + 1) = Suc (unat i)" using i len unat_less_2p64 [of len] by (subst unat_add_nowrap) simp_all
  obtain w1 where w1: "get i w = Some ((0, Some (xs ! unat i)), w1)" "session rg F w0 E rg' w1 v"
    using g [OF Suc.prems i] by blast
  have "k = length xs - unat (i + 1)" using Suc.hyps(2) u by simp
  from Suc.hyps(1) [OF this w1(2)] obtain w2 where
    w2: "read_each get show_line (i + 1) len w1 = Some ((None, shown f (drop (unat (i + 1)) xs)), w2)" "session rg F w0 E rg' w2 v"
    by blast
  have d: "drop (unat i) xs = xs ! unat i # drop (unat (i + 1)) xs" using i u by (simp add: Cons_nth_drop_Suc)
  have "i < len" "i + 1 < len \<longleftrightarrow> drop (unat (i + 1)) xs \<noteq> []" using i u len by (auto simp: word_less_nat_alt)
  then have "read_each get show_line i len w = Some ((None, shown f (drop (unat i) xs)), w2)"
    using w1(1) w2(1) sh [of "xs ! unat i"] i by (subst read_each.simps) (simp add: d)
  then show ?case using w2(2) by blast
qed

text \<open>An \<open>int\<close> survives its four bytes.\<close>

definition int_range :: "int \<Rightarrow> bool" where
  "int_range x \<longleftrightarrow> - (2 ^ 31) \<le> x \<and> x < 2 ^ 31"

lemma length_int_bytes [simp]: "length (int_bytes x) = 4"
  by (simp add: int_bytes_def)

lemma bytes_int_bytes: "int_range x \<Longrightarrow> bytes_int (int_bytes x) = Some x"
proof -
  assume r: "int_range x"
  have "sint (word_of_int x :: u32) = signed_take_bit 31 x" by (simp add: signed_of_int)
  also have "\<dots> = x" using r by (simp add: int_range_def signed_take_bit_int_eq_self)
  finally show ?thesis
    using unat_less_2p32 [of "word_of_int x"] by (simp add: bytes_int_def int_bytes_def le_val_le_bytes)
qed

definition int_line :: "int \<Rightarrow> bool \<Rightarrow> line" where
  "int_line x again = Out ''%d%s'' [AInt x, separator again]"

definition string_line :: "cstr \<Rightarrow> bool \<Rightarrow> line" where
  "string_line x again = Out ''\"%s\"%s'' [AStr x, separator again]"

section \<open>The loop that empties a ring buffer\<close>

lemma pop_all_served:
  assumes s: "session rg F w0 E rg' w v" and c: "conts v h = Some (CQueue e n (List.map int_bytes xs))"
    and r: "\<forall>x \<in> set xs. int_range x"
  shows "\<exists>w'. pop_all E rg' h w = Some (shown int_line xs, w') \<and>
     session rg F w0 E rg' w' (v\<lparr>conts := (conts v)(h \<mapsto> CQueue e n [])\<rparr>)"
  using assms
proof (induction xs arbitrary: w v)
  case Nil
  have f: "call_fits (RingCall RPop) (CQueue e n [])" "call_price (RingCall RPop) (CQueue e n []) \<le> funds v" by simp_all
  have "conts v h = Some (CQueue e n [])" using Nil.prems(2) by simp
  from call_served [OF Nil.prems(1) this f] obtain a c' w' where
    a: "container_run E rg' h (RingCall RPop) w = Some (a, w')" "content_spec (RingCall RPop) (CQueue e n []) a c'"
      "session rg F w0 E rg' w' (v\<lparr>funds := funds v - 0, conts := (conts v)(h \<mapsto> c')\<rparr>)" by auto
  have "a = RingAns (RPopped (- 1) None)" "c' = CQueue e n []" using a(2) by (cases a; simp)+
  then show ?case using a(1,3) by (auto simp: pop_all.simps simp del: fun_upd_apply)
next
  case (Cons x xs)
  let ?q = "CQueue e n (List.map int_bytes xs)" and ?c = "CQueue e n (List.map int_bytes (x # xs))"
  have f: "call_fits (RingCall RPop) ?c" "call_price (RingCall RPop) ?c \<le> funds v" by simp_all
  from call_served [OF Cons.prems(1,2) f] obtain a c' w1 where
    a: "container_run E rg' h (RingCall RPop) w = Some (a, w1)" "content_spec (RingCall RPop) ?c a c'"
      "session rg F w0 E rg' w1 (v\<lparr>funds := funds v - 0, conts := (conts v)(h \<mapsto> c')\<rparr>)" by auto
  have c': "a = RingAns (RPopped 0 (Some (int_bytes x)))" "c' = ?q" using a(2) by (cases a; simp)+
  define v1 where "v1 = v\<lparr>conts := (conts v)(h \<mapsto> ?q)\<rparr>"
  have s1: "session rg F w0 E rg' w1 v1" using a(3) c'(2) by (simp add: v1_def)
  have c1: "conts v1 h = Some ?q" by (simp add: v1_def)
  have q: "call_fits (RingCall RIsEmpty) ?q" "is_query (RingCall RIsEmpty)" by simp_all
  from query_served [OF s1 c1 q] obtain b w2 where
    b: "container_run E rg' h (RingCall RIsEmpty) w1 = Some (b, w2)" "content_spec (RingCall RIsEmpty) ?q b ?q"
      "session rg F w0 E rg' w2 v1" by blast
  have b': "b = RingAns (RBool (xs = []))" using b(2) by (cases b) simp_all
  from Cons.IH [OF b(3) c1] Cons.prems(3) obtain w3 where
    w3: "pop_all E rg' h w2 = Some (shown int_line xs, w3)"
      "session rg F w0 E rg' w3 (v1\<lparr>conts := (conts v1)(h \<mapsto> CQueue e n [])\<rparr>)"
    by (auto simp del: fun_upd_apply)
  have "bytes_int (int_bytes x) = Some x" using Cons.prems(3) by (simp add: bytes_int_bytes)
  then have "pop_all E rg' h w = Some (shown int_line (x # xs), w3)"
    using a(1) b(1) c'(1) b' w3(1) by (subst pop_all.simps) (auto simp: int_line_def)
  then show ?case using w3(2) by (auto simp: v1_def simp del: fun_upd_apply)
qed

end
