(* ===== verification/ExampleRuns.thy ===== *)
theory ExampleRuns
  imports Exchange
begin

text \<open>
  What each function of the example programs does on a store at work: a producer function fills a new
  container and publishes it, and the consumer function of the same kind prints the elements it finds
  under a name, whatever program stored them.
\<close>

section \<open>Producing\<close>

lemma fill_and_publish:
  assumes s: "session rg F w0 E rg' w v" and nv: "names v = (Map.empty, Map.empty)" and n: "good_name name"
    and ini: "\<forall>a. rc_mutex_init E a = 0" and rc: "recipe_ok rc" "recipe_cost rc \<le> funds v"
    and af: "affordable (List.map f xs) (recipe_content rc) (funds v - recipe_cost rc)"
    and p: "\<And>h. runs_as E rg' h f (push h)"
  shows "\<exists>h w1 w2 w3 v'. create_run E rg' rc w = Some (h, w1) \<and> h \<noteq> 0 \<and> push_each (push h) 0 xs w1 = Some (None, w2) \<and>
     offset_store_set_root E (Some \<lparr>os_region = rg'\<rparr>) (Some name) h w2 = Some (STATUS_OK, w3) \<and>
     session rg F w0 E rg' w3 v' \<and> names v' = ([name \<mapsto> h], Map.empty) \<and>
     conts v' h = Some (fold grown (List.map f xs) (recipe_content rc))"
proof -
  from make_served [OF s ini rc] obtain h w1 where
    h: "create_run E rg' rc w = Some (h, w1)" "h \<noteq> 0" and
    s1: "session rg F w0 E rg' w1 (v\<lparr>funds := funds v - recipe_cost rc, conts := (conts v)(h \<mapsto> recipe_content rc)\<rparr>)"
    by blast
  from push_each_served [OF p [of h] s1, where c = "recipe_content rc" and xs = xs and i = 0] af obtain w2 B where
    w2: "push_each (push h) 0 xs w1 = Some (None, w2)" and
    s2: "session rg F w0 E rg' w2 (v\<lparr>funds := B, conts := (conts v)(h \<mapsto> fold grown (List.map f xs) (recipe_content rc))\<rparr>)"
    by (auto simp add: fun_upd_same simp del: fun_upd_apply)
  from root_bound [OF s2 n h(2)] nv obtain w3 where
    w3: "offset_store_set_root E (Some \<lparr>os_region = rg'\<rparr>) (Some name) h w2 = Some (STATUS_OK, w3)" and
    s3: "session rg F w0 E rg' w3 (v\<lparr>funds := B, conts := (conts v)(h \<mapsto> fold grown (List.map f xs) (recipe_content rc)),
           names := ([name \<mapsto> h], Map.empty)\<rparr>)" by auto
  let ?v = "v\<lparr>funds := B, conts := (conts v)(h \<mapsto> fold grown (List.map f xs) (recipe_content rc)),
      names := ([name \<mapsto> h], Map.empty)\<rparr>"
  have "names ?v = ([name \<mapsto> h], Map.empty)" "conts ?v h = Some (fold grown (List.map f xs) (recipe_content rc))"
    by simp_all
  then show ?thesis using h w2 w3 s3 by blast
qed

text \<open>The contents the four functions produce.\<close>

definition array_content :: content where
  "array_content = CArray 4 8 (List.map int_bytes array_values)"

definition list_content :: "(cstr \<Rightarrow> nat \<Rightarrow> u8) \<Rightarrow> content" where
  "list_content behind = CList 64 (List.map (list_elem behind) list_values)"

definition hash_content :: content where
  "hash_content = CMap 64 4 (map_of (List.map (\<lambda>(k, x). (k, int_bytes x)) hash_entries))"

definition ring_content :: content where
  "ring_content = CQueue 4 8 (List.map int_bytes ring_values)"

lemma lit_values:
  "lit ''alpha'' = [97, 108, 112, 104, 97]" "lit ''beta'' = [98, 101, 116, 97]" "lit ''gamma'' = [103, 97, 109, 109, 97]"
  "lit ''apple'' = [97, 112, 112, 108, 101]" "lit ''banana'' = [98, 97, 110, 97, 110, 97]"
  "lit ''cherry'' = [99, 104, 101, 114, 114, 121]"
  "lit ''basic'' = [98, 97, 115, 105, 99]" "lit ''array'' = [97, 114, 114, 97, 121]" "lit ''list'' = [108, 105, 115, 116]"
  "lit ''hash'' = [104, 97, 115, 104]" "lit ''ring'' = [114, 105, 110, 103]"
  by (simp_all add: lit_def)

text \<open>The state after a producer function: the name is bound to a container with the contents.\<close>

definition published :: "ShmRegion \<Rightarrow> nat set \<Rightarrow> world \<Rightarrow> env \<Rightarrow> ShmRegion \<Rightarrow> cstr \<Rightarrow> content \<Rightarrow> OffsetPtr \<Rightarrow> world \<Rightarrow> bool" where
  "published rg F w0 E rg' name c h w \<longleftrightarrow>
     (\<exists>v. session rg F w0 E rg' w v \<and> names v = ([name \<mapsto> h], Map.empty) \<and> conts v h = Some c)"

lemma produce_dynarray_runs:
  assumes s: "session rg F w0 E rg' w v" and v: "names v = (Map.empty, Map.empty)" "4000 \<le> funds v" and n: "good_name name"
    and ini: "\<forall>a. rc_mutex_init E a = 0"
  shows "\<exists>h w'. produce_dynarray E \<lparr>os_region = rg'\<rparr> name w
       = Some ((0, [Out ''array: created at offset %llu, root='%s', length=%llu\<newline>'' [ANat (unat h), AStr name, ANat 5]]), w') \<and>
     published rg F w0 E rg' name array_content h w'"
proof -
  let ?f = "\<lambda>x. ArrayCall (DPush (int_bytes x))"
  have rc: "recipe_ok (MakeArray 4)" "recipe_cost (MakeArray 4) \<le> funds v" using v(2) by (simp_all add: cost_simps)
  have af: "affordable (List.map ?f array_values) (recipe_content (MakeArray 4)) (funds v - recipe_cost (MakeArray 4))"
    using v(2) by (simp add: array_values_def dyn_next_cap_def cost_simps) arith
  have c: "fold grown (List.map ?f array_values) (recipe_content (MakeArray 4)) = array_content"
    by (simp add: array_values_def array_content_def dyn_next_cap_def)
  from fill_and_publish [OF s v(1) n ini rc af, of "\<lambda>h x. dynarray_push E rg' h (Some (int_bytes x))", OF pushes_run(1)]
  obtain h w1 w2 w3 v' where
    r: "dynarray_create E rg' 4 w = Some (h, w1)" "h \<noteq> 0"
      "push_each (\<lambda>x. dynarray_push E rg' h (Some (int_bytes x))) 0 array_values w1 = Some (None, w2)"
      "offset_store_set_root E (Some \<lparr>os_region = rg'\<rparr>) (Some name) h w2 = Some (STATUS_OK, w3)"
    and s3: "session rg F w0 E rg' w3 v'" "names v' = ([name \<mapsto> h], Map.empty)" "conts v' h = Some array_content"
    unfolding c by auto
  have q: "call_fits (ArrayCall DLength) array_content" "is_query (ArrayCall DLength)" by (simp_all add: array_content_def)
  from query_served [OF s3(1,3) q] obtain a w4 where
    a: "container_run E rg' h (ArrayCall DLength) w3 = Some (a, w4)" "content_spec (ArrayCall DLength) array_content a array_content"
      "session rg F w0 E rg' w4 v'" by blast
  have "a = ArrayAns (DCount 5)" using a(2) by (cases a) (simp_all add: array_content_def array_values_def)
  then have "dynarray_length E rg' h w3 = Some (5, w4)" using a(1) by auto
  then show ?thesis using r s3(2,3) a(3) unfolding published_def
    by (intro exI [of _ h] exI [of _ w4]) (auto simp: produce_dynarray_def)
qed

lemma produce_dynlist_runs:
  assumes s: "session rg F w0 E rg' w v" and v: "names v = (Map.empty, Map.empty)" "4000 \<le> funds v" and n: "good_name name"
    and ini: "\<forall>a. rc_mutex_init E a = 0"
  shows "\<exists>h w'. produce_dynlist behind E \<lparr>os_region = rg'\<rparr> name w
       = Some ((0, [Out ''list: created at offset %llu, root='%s', length=%llu\<newline>'' [ANat (unat h), AStr name, ANat 3]]), w') \<and>
     published rg F w0 E rg' name (list_content behind) h w'"
proof -
  let ?f = "\<lambda>x. ListCall (LPushBack (list_elem behind x))" and ?c = "list_content behind"
  have rc: "recipe_ok (MakeList 64)" "recipe_cost (MakeList 64) \<le> funds v" using v(2) by (simp_all add: cost_simps)
  have af: "affordable (List.map ?f list_values) (recipe_content (MakeList 64)) (funds v - recipe_cost (MakeList 64))"
    using v(2) by (simp add: list_values_def list_elem_def lit_values cost_simps) arith
  have c: "fold grown (List.map ?f list_values) (recipe_content (MakeList 64)) = ?c"
    by (simp add: list_values_def list_content_def)
  from fill_and_publish [OF s v(1) n ini rc af, of "\<lambda>h x. dynlist_push_back E rg' h (list_elem behind x)", OF pushes_run(2)]
  obtain h w1 w2 w3 v' where
    r: "dynlist_create E rg' 64 w = Some (h, w1)" "h \<noteq> 0"
      "push_each (\<lambda>x. dynlist_push_back E rg' h (list_elem behind x)) 0 list_values w1 = Some (None, w2)"
      "offset_store_set_root E (Some \<lparr>os_region = rg'\<rparr>) (Some name) h w2 = Some (STATUS_OK, w3)"
    and s3: "session rg F w0 E rg' w3 v'" "names v' = ([name \<mapsto> h], Map.empty)" "conts v' h = Some ?c"
    unfolding c by auto
  have q: "call_fits (ListCall LLength) ?c" "is_query (ListCall LLength)" by (simp_all add: list_content_def)
  from query_served [OF s3(1,3) q] obtain a w4 where
    a: "container_run E rg' h (ListCall LLength) w3 = Some (a, w4)" "content_spec (ListCall LLength) ?c a ?c"
      "session rg F w0 E rg' w4 v'" by blast
  have "a = ListAns (LCount 3)" using a(2) by (cases a) (simp_all add: list_content_def list_values_def)
  then have "dynlist_length E rg' h w3 = Some (3, w4)" using a(1) by auto
  then show ?thesis using r s3(2,3) a(3) unfolding published_def
    by (intro exI [of _ h] exI [of _ w4]) (auto simp: produce_dynlist_def)
qed

lemma produce_hashtable_runs:
  assumes s: "session rg F w0 E rg' w v" and v: "names v = (Map.empty, Map.empty)" "4000 \<le> funds v" and n: "good_name name"
    and ini: "\<forall>a. rc_mutex_init E a = 0"
  shows "\<exists>h w'. produce_hashtable E \<lparr>os_region = rg'\<rparr> name w
       = Some ((0, [Out ''hash: created at offset %llu, root='%s', entries=%llu\<newline>'' [ANat (unat h), AStr name, ANat 3]]), w') \<and>
     published rg F w0 E rg' name hash_content h w'"
proof -
  let ?f = "\<lambda>(k, x). TableCall (TPut k (int_bytes x))"
  let ?push = "\<lambda>h (k, x). hashtable_put E rg' h (Some k) (Some (int_bytes x))"
  have rc: "recipe_ok (MakeTable 8 64 4)" "recipe_cost (MakeTable 8 64 4) \<le> funds v" using v(2) by (simp_all add: cost_simps)
  have af: "affordable (List.map ?f hash_entries) (recipe_content (MakeTable 8 64 4)) (funds v - recipe_cost (MakeTable 8 64 4))"
    using v(2) by (simp add: hash_entries_def lit_values put_cost_def cost_simps) arith
  have c: "fold grown (List.map ?f hash_entries) (recipe_content (MakeTable 8 64 4)) = hash_content"
    by (simp add: hash_entries_def hash_content_def lit_values fun_eq_iff)
  from fill_and_publish [OF s v(1) n ini rc af, of ?push, OF pushes_run(3)]
  obtain h w1 w2 w3 v' where
    r: "hashtable_create E rg' 8 64 4 w = Some (h, w1)" "h \<noteq> 0" "push_each (?push h) 0 hash_entries w1 = Some (None, w2)"
      "offset_store_set_root E (Some \<lparr>os_region = rg'\<rparr>) (Some name) h w2 = Some (STATUS_OK, w3)"
    and s3: "session rg F w0 E rg' w3 v'" "names v' = ([name \<mapsto> h], Map.empty)" "conts v' h = Some hash_content"
    unfolding c by auto
  have q: "call_fits (TableCall TLength) hash_content" "is_query (TableCall TLength)" by (simp_all add: hash_content_def)
  from query_served [OF s3(1,3) q] obtain a w4 where
    a: "container_run E rg' h (TableCall TLength) w3 = Some (a, w4)" "content_spec (TableCall TLength) hash_content a hash_content"
      "session rg F w0 E rg' w4 v'" by blast
  have "a = TableAns (TCount 3)" using a(2) by (cases a) (simp_all add: hash_content_def hash_entries_def lit_values)
  then have "hashtable_length E rg' h w3 = Some (3, w4)" using a(1) by auto
  then show ?thesis using r s3(2,3) a(3) unfolding published_def
    by (intro exI [of _ h] exI [of _ w4]) (auto simp: produce_hashtable_def)
qed

lemma produce_ringbuf_runs:
  assumes s: "session rg F w0 E rg' w v" and v: "names v = (Map.empty, Map.empty)" "4000 \<le> funds v" and n: "good_name name"
    and ini: "\<forall>a. rc_mutex_init E a = 0"
  shows "\<exists>h w'. produce_ringbuf E \<lparr>os_region = rg'\<rparr> name w
       = Some ((0, [Out ''ring: created at offset %llu, root='%s', length=%llu/%llu\<newline>'' [ANat (unat h), AStr name, ANat 5, ANat 8]]), w') \<and>
     published rg F w0 E rg' name ring_content h w'"
proof -
  let ?f = "\<lambda>x. RingCall (RPush (int_bytes x))"
  have rc: "recipe_ok (MakeRing 8 4)" "recipe_cost (MakeRing 8 4) \<le> funds v" using v(2) by (simp_all add: cost_simps)
  have af: "affordable (List.map ?f ring_values) (recipe_content (MakeRing 8 4)) (funds v - recipe_cost (MakeRing 8 4))"
    by (simp add: ring_values_def)
  have c: "fold grown (List.map ?f ring_values) (recipe_content (MakeRing 8 4)) = ring_content"
    by (simp add: ring_values_def ring_content_def)
  from fill_and_publish [OF s v(1) n ini rc af, of "\<lambda>h x. ringbuf_push E rg' h (Some (int_bytes x))", OF pushes_run(4)]
  obtain h w1 w2 w3 v' where
    r: "ringbuf_create E rg' 8 4 w = Some (h, w1)" "h \<noteq> 0"
      "push_each (\<lambda>x. ringbuf_push E rg' h (Some (int_bytes x))) 0 ring_values w1 = Some (None, w2)"
      "offset_store_set_root E (Some \<lparr>os_region = rg'\<rparr>) (Some name) h w2 = Some (STATUS_OK, w3)"
    and s3: "session rg F w0 E rg' w3 v'" "names v' = ([name \<mapsto> h], Map.empty)" "conts v' h = Some ring_content"
    unfolding c by auto
  have q: "call_fits (RingCall RLength) ring_content" "is_query (RingCall RLength)"
    "call_fits (RingCall RCapacity) ring_content" "is_query (RingCall RCapacity)" by (simp_all add: ring_content_def)
  from query_served [OF s3(1,3) q(1,2)] obtain a w4 where
    a: "container_run E rg' h (RingCall RLength) w3 = Some (a, w4)" "content_spec (RingCall RLength) ring_content a ring_content"
      "session rg F w0 E rg' w4 v'" by blast
  from query_served [OF a(3) s3(3) q(3,4)] obtain b w5 where
    b: "container_run E rg' h (RingCall RCapacity) w4 = Some (b, w5)" "content_spec (RingCall RCapacity) ring_content b ring_content"
    by blast
  have "a = RingAns (RCount 5)" using a(2) by (cases a) (simp_all add: ring_content_def ring_values_def)
  then have "ringbuf_length E rg' h w3 = Some (5, w4)" using a(1) by auto
  moreover have "b = RingAns (RCount 8)" using b(2) by (cases b) (simp_all add: ring_content_def)
  then have "ringbuf_capacity rg' h (bytes w4) = 8" using b(1) by auto
  ultimately show ?thesis using r s3(2,3) a(3) unfolding published_def
    by (intro exI [of _ h] exI [of _ w4]) (auto simp: produce_ringbuf_def)
qed

section \<open>Consuming\<close>

text \<open>The two queries of a read loop.\<close>

lemma array_queries:
  assumes s: "session rg F w0 E rg' w v" and c: "conts v h = Some (CArray e c xs)"
  shows "\<exists>w'. dynarray_length E rg' h w = Some (of_nat (length xs), w') \<and> session rg F w0 E rg' w' v"
    and "unat i < length xs \<Longrightarrow>
      \<exists>w'. dynarray_get E rg' h i True w = Some ((0, Some (xs ! unat i)), w') \<and> session rg F w0 E rg' w' v"
proof -
  have q: "call_fits (ArrayCall DLength) (CArray e c xs)" "is_query (ArrayCall DLength)"
    "call_fits (ArrayCall (DGet i)) (CArray e c xs)" "is_query (ArrayCall (DGet i))" by simp_all
  show "\<exists>w'. dynarray_length E rg' h w = Some (of_nat (length xs), w') \<and> session rg F w0 E rg' w' v"
    using query_served [OF s c q(1,2)] by (auto simp: array_call_spec)
  show "\<exists>w'. dynarray_get E rg' h i True w = Some ((0, Some (xs ! unat i)), w') \<and> session rg F w0 E rg' w' v"
    if "unat i < length xs" using that query_served [OF s c q(3,4)] by (auto simp: array_call_spec)
qed

lemma list_call_spec:
  "content_spec (ListCall x) (CList e xs) a b \<longleftrightarrow> (\<exists>r ys. a = ListAns r \<and> list_spec x xs r ys \<and> b = CList e ys)"
  by (cases a) auto

lemma list_queries:
  assumes s: "session rg F w0 E rg' w v" and c: "conts v h = Some (CList e xs)"
  shows "\<exists>w'. dynlist_length E rg' h w = Some (of_nat (length xs), w') \<and> session rg F w0 E rg' w' v"
    and "unat i < length xs \<Longrightarrow>
      \<exists>w'. dynlist_get E rg' h i True w = Some ((0, Some (xs ! unat i)), w') \<and> session rg F w0 E rg' w' v"
proof -
  have q: "call_fits (ListCall LLength) (CList e xs)" "is_query (ListCall LLength)"
    "call_fits (ListCall (LGet i)) (CList e xs)" "is_query (ListCall (LGet i))" by simp_all
  show "\<exists>w'. dynlist_length E rg' h w = Some (of_nat (length xs), w') \<and> session rg F w0 E rg' w' v"
    using query_served [OF s c q(1,2)] by (auto simp: list_call_spec)
  show "\<exists>w'. dynlist_get E rg' h i True w = Some ((0, Some (xs ! unat i)), w') \<and> session rg F w0 E rg' w' v"
    if "unat i < length xs" using that query_served [OF s c q(3,4)] by (auto simp: list_call_spec)
qed

lemma consume_dynarray_runs:
  assumes s: "session rg F w0 E rg' w v" and n: "good_name name" "fst (names v) name = Some h"
    and c: "conts v h = Some (CArray e k (List.map int_bytes xs))" and b: "length xs < 2 ^ 64" "\<forall>x \<in> set xs. int_range x"
  shows "\<exists>w'. consume_dynarray E \<lparr>os_region = rg'\<rparr> name w
       = Some ((0, Out ''array: root='%s', offset=%llu, length=%lu, values=['' [AStr name, ANat (unat h), ANat (length xs)]
                    # shown int_line xs @ [Out '']\<newline>'' []]), w') \<and> session rg F w0 E rg' w' v"
proof -
  let ?ys = "List.map int_bytes xs"
  obtain w1 where w1: "offset_store_get_root E (Some \<lparr>os_region = rg'\<rparr>) (Some name) True w = Some ((STATUS_OK, Some h), w1)"
    "session rg F w0 E rg' w1 v" using root_found [OF s n] by blast
  obtain w2 where w2: "dynarray_length E rg' h w1 = Some (of_nat (length xs), w2)" "session rg F w0 E rg' w2 v"
    using array_queries(1) [OF w1(2) c] by auto
  let ?get = "\<lambda>i. dynarray_get E rg' h i True"
  let ?show = "\<lambda>bs again. do { v \<leftarrow> bytes_int bs; Some (Out ''%d%s'' [AInt v, separator again]) }"
  let ?line = "\<lambda>bs again. int_line (the (bytes_int bs)) again"
  have g: "\<exists>w'. ?get i w = Some ((0, Some (?ys ! unat i)), w') \<and> session rg F w0 E rg' w' v"
    if "session rg F w0 E rg' w v" "unat i < length ?ys" for i w using array_queries(2) [OF that(1) c that(2)] .
  have l: "?show y again = Some (?line y again)" if "y \<in> set ?ys" for y again
    using that b(2) by (auto simp: bytes_int_bytes int_line_def)
  have len: "unat (of_nat (length xs) :: u64) = length ?ys" using b(1) by (simp add: unat_of_nat_small)
  have sh: "shown ?line (drop (unat 0) ?ys) = shown int_line xs"
    using b(2) by (simp add: shown_map) (intro shown_cong, simp add: bytes_int_bytes)
  obtain w3 where "read_each ?get ?show 0 (of_nat (length xs)) w2 = Some ((None, shown int_line xs), w3)" "session rg F w0 E rg' w3 v"
    using read_each_served [of rg F w0 E rg' v ?ys ?get ?show ?line "of_nat (length xs)" w2 0, OF g l len w2(2)] sh by auto
  then show ?thesis using w1 w2(1) len by (auto simp: consume_dynarray_def)
qed

lemma consume_dynlist_runs:
  assumes s: "session rg F w0 E rg' w v" and n: "good_name name" "fst (names v) name = Some h"
    and c: "conts v h = Some (CList e xs)" and b: "length xs < 2 ^ 64" "\<forall>x \<in> set xs. buffer_string 64 x = Some (str x)"
  shows "\<exists>w'. consume_dynlist E \<lparr>os_region = rg'\<rparr> name w
       = Some ((0, Out ''list: root='%s', offset=%llu, length=%lu, values=['' [AStr name, ANat (unat h), ANat (length xs)]
                    # shown string_line (List.map str xs) @ [Out '']\<newline>'' []]), w') \<and> session rg F w0 E rg' w' v"
proof -
  obtain w1 where w1: "offset_store_get_root E (Some \<lparr>os_region = rg'\<rparr>) (Some name) True w = Some ((STATUS_OK, Some h), w1)"
    "session rg F w0 E rg' w1 v" using root_found [OF s n] by blast
  obtain w2 where w2: "dynlist_length E rg' h w1 = Some (of_nat (length xs), w2)" "session rg F w0 E rg' w2 v"
    using list_queries(1) [OF w1(2) c] by auto
  let ?get = "\<lambda>i. dynlist_get E rg' h i True"
  let ?show = "\<lambda>bs again. do { s \<leftarrow> buffer_string 64 bs; Some (Out ''\"%s\"%s'' [AStr s, separator again]) }"
  let ?line = "\<lambda>bs again. string_line (str bs) again"
  have g: "\<exists>w'. ?get i w = Some ((0, Some (xs ! unat i)), w') \<and> session rg F w0 E rg' w' v"
    if "session rg F w0 E rg' w v" "unat i < length xs" for i w using list_queries(2) [OF that(1) c that(2)] .
  have l: "?show y again = Some (?line y again)" if "y \<in> set xs" for y again
    using that b(2) by (auto simp: string_line_def)
  have len: "unat (of_nat (length xs) :: u64) = length xs" using b(1) by (simp add: unat_of_nat_small)
  obtain w3 where "read_each ?get ?show 0 (of_nat (length xs)) w2 = Some ((None, shown ?line xs), w3)" "session rg F w0 E rg' w3 v"
    using read_each_served [of rg F w0 E rg' v xs ?get ?show ?line "of_nat (length xs)" w2 0, OF g l len w2(2)] by auto
  then show ?thesis using w1 w2(1) len by (auto simp: consume_dynlist_def shown_map)
qed

text \<open>What the consumer prints of a key.\<close>

definition key_line :: "(cstr \<rightharpoonup> u8 list) \<Rightarrow> cstr \<Rightarrow> line" where
  "key_line M k =
     (case M k of None \<Rightarrow> Out ''  %s -> (not found)\<newline>'' [AStr k]
      | Some b \<Rightarrow> Out ''  %s -> %d\<newline>'' [AStr k, AInt (the (bytes_int b))])"

lemma table_call_spec:
  "content_spec (TableCall x) (CMap ks vs M) a b \<longleftrightarrow> (\<exists>r M'. a = TableAns r \<and> table_spec x M r M' \<and> b = CMap ks vs M')"
  by (cases a) auto

lemma lookup_each_served:
  assumes "session rg F w0 E rg' w v" and c: "conts v h = Some (CMap ks vs M)"
    and "\<forall>k \<in> set keys. length k < 2 ^ 64 \<and> (\<forall>b. M k = Some b \<longrightarrow> length b = 4)"
  shows "\<exists>w'. lookup_each E rg' h keys w = Some (List.map (key_line M) keys, w') \<and> session rg F w0 E rg' w' v"
  using assms(1,3)
proof (induction keys arbitrary: w)
  case Nil
  then show ?case by simp
next
  case (Cons k keys)
  have q: "call_fits (TableCall (TGet k)) (CMap ks vs M)" "is_query (TableCall (TGet k))" using Cons.prems(2) by simp_all
  from query_served [OF Cons.prems(1) c q] obtain w1 where
    w1: "hashtable_get E rg' h (Some k) True w = Some ((if M k = None then - 1 else 0, M k), w1)" "session rg F w0 E rg' w1 v"
    by (auto simp: table_call_spec split: option.splits)
  from Cons.IH [OF w1(2)] Cons.prems(2) obtain w2 where
    w2: "lookup_each E rg' h keys w1 = Some (List.map (key_line M) keys, w2)" "session rg F w0 E rg' w2 v" by auto
  have "\<exists>x. bytes_int b = Some x" if "M k = Some b" for b using that Cons.prems(2) by (simp add: bytes_int_def)
  then show ?case using w1(1) w2 by (cases "M k") (auto simp: key_line_def)
qed

lemma consume_hashtable_runs:
  assumes s: "session rg F w0 E rg' w v" and n: "good_name name" "fst (names v) name = Some h"
    and c: "conts v h = Some (CMap ks vs M)" and b: "card (dom M) < 2 ^ 64" "\<forall>k b. M k = Some b \<longrightarrow> length b = 4"
  shows "\<exists>w'. consume_hashtable E \<lparr>os_region = rg'\<rparr> name w
       = Some ((0, Out ''hash: root='%s', offset=%llu, entries=%lu\<newline>'' [AStr name, ANat (unat h), ANat (card (dom M))]
                    # List.map (key_line M) hash_keys), w') \<and> session rg F w0 E rg' w' v"
proof -
  obtain w1 where w1: "offset_store_get_root E (Some \<lparr>os_region = rg'\<rparr>) (Some name) True w = Some ((STATUS_OK, Some h), w1)"
    "session rg F w0 E rg' w1 v" using root_found [OF s n] by blast
  have q: "call_fits (TableCall TLength) (CMap ks vs M)" "is_query (TableCall TLength)" by simp_all
  from query_served [OF w1(2) c q] obtain w2 where
    w2: "hashtable_length E rg' h w1 = Some (of_nat (card (dom M)), w2)" "session rg F w0 E rg' w2 v"
    by (auto simp: table_call_spec)
  have "\<forall>k \<in> set hash_keys. length k < 2 ^ 64 \<and> (\<forall>b. M k = Some b \<longrightarrow> length b = 4)"
    using b(2) by (simp add: hash_keys_def lit_values)
  from lookup_each_served [OF w2(2) c this] obtain w3 where
    "lookup_each E rg' h hash_keys w2 = Some (List.map (key_line M) hash_keys, w3)" "session rg F w0 E rg' w3 v" by blast
  moreover have "unat (of_nat (card (dom M)) :: u64) = card (dom M)" using b(1) by (simp add: unat_of_nat_small)
  ultimately show ?thesis using w1(1) w2(1) by (auto simp: consume_hashtable_def)
qed

lemma ring_call_spec:
  "content_spec (RingCall x) (CQueue e n q) a b \<longleftrightarrow> (\<exists>q'. queue_spec n x q = (case a of RingAns r \<Rightarrow> r | _ \<Rightarrow> undefined, q') \<and>
     (\<exists>r. a = RingAns r) \<and> b = CQueue e n q')"
  by (cases a) auto

lemma consume_ringbuf_runs:
  assumes s: "session rg F w0 E rg' w v" and n: "good_name name" "fst (names v) name = Some h"
    and c: "conts v h = Some (CQueue e k (List.map int_bytes xs))" and b: "length xs < 2 ^ 64" "k < 2 ^ 64" "\<forall>x \<in> set xs. int_range x"
  shows "\<exists>w'. consume_ringbuf E \<lparr>os_region = rg'\<rparr> name w
       = Some ((0, Out ''ring: root='%s', offset=%llu, length=%lu/%lu, values=[''
                      [AStr name, ANat (unat h), ANat (length xs), ANat k]
                    # shown int_line xs @ [Out '']\<newline>'' []]), w') \<and>
     session rg F w0 E rg' w' (v\<lparr>conts := (conts v)(h \<mapsto> CQueue e k [])\<rparr>)"
proof -
  let ?c = "CQueue e k (List.map int_bytes xs)"
  obtain w1 where w1: "offset_store_get_root E (Some \<lparr>os_region = rg'\<rparr>) (Some name) True w = Some ((STATUS_OK, Some h), w1)"
    "session rg F w0 E rg' w1 v" using root_found [OF s n] by blast
  have q: "call_fits (RingCall RLength) ?c" "is_query (RingCall RLength)"
    "call_fits (RingCall RCapacity) ?c" "is_query (RingCall RCapacity)" by simp_all
  from query_served [OF w1(2) c q(1,2)] obtain w2 where
    w2: "ringbuf_length E rg' h w1 = Some (of_nat (length xs), w2)" "session rg F w0 E rg' w2 v"
    by (auto simp: ring_call_spec)
  from query_served [OF w2(2) c q(3,4)] have cap: "ringbuf_capacity rg' h (bytes w2) = of_nat k"
    by (auto simp: ring_call_spec)
  from pop_all_served [OF w2(2) c b(3)] obtain w3 where
    "pop_all E rg' h w2 = Some (shown int_line xs, w3)"
    "session rg F w0 E rg' w3 (v\<lparr>conts := (conts v)(h \<mapsto> CQueue e k [])\<rparr>)" by blast
  moreover have "unat (of_nat (length xs) :: u64) = length xs" "unat (of_nat k :: u64) = k" using b(1,2) by (simp_all add: unat_of_nat_small)
  ultimately show ?thesis using w1(1) w2(1) cap by (auto simp: consume_ringbuf_def)
qed

end
