(* ===== verification/ExampleMain.thy ===== *)
theory ExampleMain
  imports ExampleRuns
begin

text \<open>
  The two programs end to end: from a fresh shared object through the producer's \<open>main\<close> to what the
  \<open>main\<close> of a consumer prints in another process, which maps the region at an address of its own.
\<close>

section \<open>Starting and attaching\<close>

text \<open>The kernel gives the producer a fresh, zero-filled object, and later gives a consumer that object.\<close>

definition fresh_start :: "kernel \<Rightarrow> env \<Rightarrow> world \<Rightarrow> bool" where
  "fresh_start K E w \<longleftrightarrow>
     create_calls_ok K E \<and> (\<exists>a. k_mmap K = Some a \<and> mapping_ok a EXAMPLE_REGION_SIZE) \<and>
     (\<forall>x \<ge> 2496. bytes w x = 0) \<and> (\<forall>t. held_shard w t = - 1)"

definition attaches :: "kernel \<Rightarrow> bool" where
  "attaches K \<longleftrightarrow>
     0 \<le> k_open K \<and> k_fstat K = (0, 65536) \<and> (\<exists>a. k_mmap K = Some a \<and> mapping_ok a EXAMPLE_REGION_SIZE) \<and> cleanup_ok K"

lemma heap_size_fixed: "heap_inv rg m \<Longrightarrow> unat (ah_heap_size m) = unat (rg_size rg) - 2736"
  using header_invD(1) [of rg m] by (simp add: heap_inv_def header_inv_def)

definition empty_store :: "nat \<Rightarrow> view" where
  "empty_store B = \<lparr>funds = B, names = (Map.empty, Map.empty), conts = Map.empty\<rparr>"

lemma bootstrap_session:
  assumes "fresh_start K E w"
  shows "\<exists>rg s' w'. offset_store_bootstrap K E (Some old) (Some shm) EXAMPLE_REGION_SIZE s w
       = Some (STATUS_OK, Some \<lparr>os_region = rg\<rparr>, s', w') \<and>
     session rg {} w' E rg w' (empty_store 15700) \<and> rg_size rg = EXAMPLE_REGION_SIZE \<and> (\<forall>E. ready E w') \<and>
     free_blocks (bytes w') \<subseteq> {..49836} \<and> (\<forall>b \<in> free_blocks (bytes w'). bsz (bytes w') b = 15700) \<and>
     2736 \<in> free_blocks (bytes w')"
proof -
  obtain a where k: "create_calls_ok K E" "k_mmap K = Some a" "mapping_ok a EXAMPLE_REGION_SIZE" "\<forall>x \<ge> 2496. bytes w x = 0"
    and hd: "\<forall>t. held_shard w t = - 1" using assms by (auto simp: fresh_start_def)
  have sz: "2960 \<le> unat EXAMPLE_REGION_SIZE" "unat EXAMPLE_REGION_SIZE < 2 ^ 63" by (simp_all add: EXAMPLE_REGION_SIZE_def)
  have d: "(unat EXAMPLE_REGION_SIZE - 2736) div 4 = 15700" by (simp add: EXAMPLE_REGION_SIZE_def)
  from bootstrap_runs [OF k(1) sz k(2-4), of old shm s, unfolded d] obtain rg s' w' where
    b: "offset_store_bootstrap K E (Some old) (Some shm) EXAMPLE_REGION_SIZE s w = Some (STATUS_OK, Some \<lparr>os_region = rg\<rparr>, s', w')"
      "rg_size rg = EXAMPLE_REGION_SIZE" "region_ok rg"
    and m: "shm_region_validate_header (Some rg) (bytes w')" "heap_inv rg (bytes w')"
      "roots_map (bytes w') = Map.empty" "index_map (bytes w') = Map.empty" "tables_ok (bytes w')" "tables_exact (bytes w')"
    and l: "\<forall>i < 4. mtx w' (shard_mutex_at i) = MFree" "rwl w' HDR_roots_rwlock = RWFree" "rwl w' HDR_index_rwlock = RWFree"
      "held_shard w' = held_shard w"
    and f: "free_blocks (bytes w') = (\<lambda>i. 2736 + i * 15700) ` {..<4}" "\<forall>b \<in> free_blocks (bytes w'). bsz (bytes w') b = 15700"
    by blast
  have rd: "\<forall>E. ready E w'" using l(1,4) hd by (simp add: ready_def)
  have z: "2736 \<in> free_blocks (bytes w')" using f(1) by force
  then have "funded 15700 (bytes w')" using f(2) by (force simp: funded_def spare_def)
  then have "store_shows rg Map.empty w' (empty_store 15700)" using m l(2,3)
    by (simp add: store_shows_def store_ok_def store_unlocked_def empty_store_def family_ok_def store_names_def store_content_def)
  moreover have "foreign_kept {} (registered_spans Map.empty (bytes w')) (bytes w') (bytes w')"
    by (simp add: foreign_kept_def undisturbed_def)
  ultimately have "store_rel rg {} w' w' (empty_store 15700)"
    using b(2) by (auto simp: store_rel_def EXAMPLE_REGION_SIZE_def)
  moreover have "free_blocks (bytes w') \<subseteq> {..49836}" using f(1) by auto
  ultimately show ?thesis using b rd z f(2) by (auto simp: session_def)
qed

lemma attach_runs:
  assumes h: "heap_inv rg m" and v: "shm_region_validate_header (Some rg) m" and sz: "rg_size rg = EXAMPLE_REGION_SIZE"
    and k: "attaches K"
  shows "\<exists>rg' s'. offset_store_open_existing K (Some old) (Some shm) s m = (STATUS_OK, Some \<lparr>os_region = rg'\<rparr>, s') \<and>
     region_ok rg' \<and> rg_size rg' = rg_size rg \<and> heap_inv rg' m \<and>
     (\<exists>st. offset_store_close K (Some \<lparr>os_region = rg'\<rparr>) s' = (STATUS_OK, st, s))"
proof -
  obtain a where a: "0 \<le> k_open K" "k_fstat K = (0, int (unat (rg_size rg)))" "k_mmap K = Some a" "mapping_ok a (rg_size rg)"
    and c: "cleanup_ok K" using k by (auto simp: attaches_def sz EXAMPLE_REGION_SIZE_def)
  let ?rg = "\<lparr>rg_fd = k_open K, rg_base = a, rg_size = rg_size rg, rg_creator = False\<rparr>"
  let ?s = "s\<lparr>os_fds := k_open K # os_fds s, os_maps := (a, rg_size rg) # os_maps s\<rparr>"
  have "unat (ah_heap_size m) mod 4 = 0" using heap_size_fixed [OF h] by (simp add: sz EXAMPLE_REGION_SIZE_def)
  with open_existing_runs [OF h v c a, of old shm s] have
    "offset_store_open_existing K (Some old) (Some shm) s m = (STATUS_OK, Some \<lparr>os_region = ?rg\<rparr>, ?s)" "heap_inv ?rg m" by auto
  moreover have "region_ok ?rg" using a(4) h by (simp add: region_ok_def heap_inv_def header_inv_def)
  moreover have "\<exists>st. offset_store_close K (Some \<lparr>os_region = ?rg\<rparr>) ?s = (STATUS_OK, st, s)"
    using a(1,3) c by (auto simp: offset_store_close_def shm_region_close_def sys_munmap_def sys_close_def cleanup_ok_def)
  ultimately show ?thesis by (metis ShmRegion.select_convs(3))
qed

section \<open>Containers\<close>

text \<open>What a consumer prints of a container under a name at a region offset.\<close>

definition array_lines :: "cstr \<Rightarrow> nat \<Rightarrow> int list \<Rightarrow> line list" where
  "array_lines name p xs =
     Out ''array: root='%s', offset=%llu, length=%lu, values=['' [AStr name, ANat p, ANat (length xs)]
       # shown int_line xs @ [Out '']\<newline>'' []]"

definition list_lines :: "cstr \<Rightarrow> nat \<Rightarrow> cstr list \<Rightarrow> line list" where
  "list_lines name p xs =
     Out ''list: root='%s', offset=%llu, length=%lu, values=['' [AStr name, ANat p, ANat (length xs)]
       # shown string_line xs @ [Out '']\<newline>'' []]"

definition hash_lines :: "cstr \<Rightarrow> nat \<Rightarrow> (cstr \<times> int) list \<Rightarrow> line list" where
  "hash_lines name p kvs =
     Out ''hash: root='%s', offset=%llu, entries=%lu\<newline>'' [AStr name, ANat p, ANat (length kvs)]
       # List.map (\<lambda>(k, x). Out ''  %s -> %d\<newline>'' [AStr k, AInt x]) kvs"

definition ring_lines :: "cstr \<Rightarrow> nat \<Rightarrow> int list \<Rightarrow> line list" where
  "ring_lines name p xs =
     Out ''ring: root='%s', offset=%llu, length=%lu/%lu, values=['' [AStr name, ANat p, ANat (length xs), ANat 8]
       # shown int_line xs @ [Out '']\<newline>'' []]"

text \<open>The lines of the first consumer of each kind, and of a later one: reading a ring buffer empties it.\<close>

definition first_lines :: "cstr \<Rightarrow> cstr \<Rightarrow> nat \<Rightarrow> line list" where
  "first_lines ty name p =
     (if ty = lit ''array'' then array_lines name p [10, 20, 30, 40, 50]
      else if ty = lit ''list'' then list_lines name p [lit ''alpha'', lit ''beta'', lit ''gamma'']
      else if ty = lit ''hash'' then hash_lines name p [(lit ''apple'', 100), (lit ''banana'', 200), (lit ''cherry'', 300)]
      else ring_lines name p [100, 200, 300, 400, 500])"

definition later_lines :: "cstr \<Rightarrow> cstr \<Rightarrow> nat \<Rightarrow> line list" where
  "later_lines ty name p = (if ty = lit ''ring'' then ring_lines name p [] else first_lines ty name p)"

definition container_types :: "cstr list" where
  "container_types = [lit ''array'', lit ''list'', lit ''hash'', lit ''ring'']"

text \<open>The contents behind a program's type argument, before and after a consumer.\<close>

definition made_content :: "(cstr \<Rightarrow> nat \<Rightarrow> u8) \<Rightarrow> cstr \<Rightarrow> content" where
  "made_content behind ty =
     (if ty = lit ''array'' then array_content else if ty = lit ''list'' then list_content behind
      else if ty = lit ''hash'' then hash_content else ring_content)"

definition read_content :: "(cstr \<Rightarrow> nat \<Rightarrow> u8) \<Rightarrow> cstr \<Rightarrow> content" where
  "read_content behind ty = (if ty = lit ''ring'' then CQueue 4 8 [] else made_content behind ty)"

lemma dispatch_produces:
  assumes s: "session rg F w0 E rg' w (empty_store B)" "4000 \<le> B" and n: "good_name (argv ! 3)" and ty: "argv ! 1 \<in> set container_types"
    and ini: "\<forall>a. rc_mutex_init E a = 0"
  shows "\<exists>h out w'. producer_dispatch behind E \<lparr>os_region = rg'\<rparr> argv w = Some ((0, out), w') \<and>
     published rg F w0 E rg' (argv ! 3) (made_content behind (argv ! 1)) h w'"
proof -
  have v: "names (empty_store B) = (Map.empty, Map.empty)" "4000 \<le> funds (empty_store B)" using s(2) by (simp_all add: empty_store_def)
  note runs = produce_dynarray_runs [OF s(1) v n ini] produce_dynlist_runs [OF s(1) v n ini, of behind]
    produce_hashtable_runs [OF s(1) v n ini] produce_ringbuf_runs [OF s(1) v n ini]
  consider "argv ! 1 = lit ''array''" | "argv ! 1 = lit ''list''" | "argv ! 1 = lit ''hash''" | "argv ! 1 = lit ''ring''"
    using ty by (auto simp: container_types_def)
  then show ?thesis
  proof cases
    case 1
    then show ?thesis using runs(1) by (auto simp: producer_dispatch_def made_content_def lit_values)
  next
    case 2
    then show ?thesis using runs(2) by (auto simp: producer_dispatch_def made_content_def lit_values)
  next
    case 3
    then show ?thesis using runs(3) by (auto simp: producer_dispatch_def made_content_def lit_values)
  next
    case 4
    then show ?thesis using runs(4) by (auto simp: producer_dispatch_def made_content_def lit_values)
  qed
qed

text \<open>A string literal that is read back from a list element, whatever bytes follow it.\<close>

lemma list_elem_string:
  assumes "length x < 64" and "0 \<notin> set x"
  shows "buffer_string 64 (list_elem behind x) = Some x"
proof -
  have "takeWhile (\<lambda>b. b \<noteq> 0) (x @ 0 # ys) = x" for ys
    using assms(2) by (subst takeWhile_append2) auto
  then show ?thesis using assms by (simp add: buffer_string_def list_elem_def)
qed

lemma published_elsewhere:
  assumes "published rg F w0 E rg1 name c h w" and "region_ok rg2" and "rg_size rg2 = rg_size rg" and "ready E2 w0"
  shows "published rg F w0 E2 rg2 name c h w"
  using assms by (auto simp: published_def session_def)

lemma publishedE:
  assumes "published rg F w0 E rg' name c h w"
  obtains v where "session rg F w0 E rg' w v" "fst (names v) name = Some h" "conts v h = Some c"
    "names v = ([name \<mapsto> h], Map.empty)"
  using assms by (auto simp: published_def)

text \<open>Reading keeps what is published, except that a ring buffer is left empty.\<close>

lemma consumes_array:
  assumes p: "published rg F w0 E rg' name array_content h w" and n: "good_name name"
  shows "\<exists>w'. consume_dynarray E \<lparr>os_region = rg'\<rparr> name w = Some ((0, array_lines name (unat h) [10, 20, 30, 40, 50]), w') \<and>
     published rg F w0 E rg' name array_content h w'"
proof (rule publishedE [OF p])
  fix v
  assume s: "session rg F w0 E rg' w v" "fst (names v) name = Some h" "conts v h = Some array_content" "names v = ([name \<mapsto> h], Map.empty)"
  have "\<forall>x \<in> set array_values. int_range x" "length array_values < 2 ^ 64" by (simp_all add: array_values_def int_range_def)
  from consume_dynarray_runs [OF s(1) n s(2) s(3) [unfolded array_content_def] this(2,1)] show ?thesis
    using s(3,4) by (auto simp: array_lines_def array_values_def published_def)
qed

lemma consumes_list:
  assumes p: "published rg F w0 E rg' name (list_content behind) h w" and n: "good_name name"
  shows "\<exists>w'. consume_dynlist E \<lparr>os_region = rg'\<rparr> name w
       = Some ((0, list_lines name (unat h) [lit ''alpha'', lit ''beta'', lit ''gamma'']), w') \<and>
     published rg F w0 E rg' name (list_content behind) h w'"
proof (rule publishedE [OF p])
  fix v
  assume s: "session rg F w0 E rg' w v" "fst (names v) name = Some h" "conts v h = Some (list_content behind)"
    "names v = ([name \<mapsto> h], Map.empty)"
  have e: "buffer_string 64 (list_elem behind x) = Some x" if "x \<in> set list_values" for x
    using that by (intro list_elem_string) (auto simp: list_values_def lit_values)
  let ?str = "\<lambda>y. the (buffer_string 64 y)"
  have "\<forall>y \<in> set (List.map (list_elem behind) list_values). buffer_string 64 y = Some (?str y)"
    "length (List.map (list_elem behind) list_values) < 2 ^ 64" using e by (auto simp: list_values_def)
  note r = consume_dynlist_runs [OF s(1) n s(2) s(3) [unfolded list_content_def] this(2,1)]
  have "List.map ?str (List.map (list_elem behind) list_values) = list_values" using e by (simp add: map_idI)
  then show ?thesis using r s(3,4) by (auto simp: list_lines_def list_values_def published_def)
qed

lemma consumes_hash:
  assumes p: "published rg F w0 E rg' name hash_content h w" and n: "good_name name"
  shows "\<exists>w'. consume_hashtable E \<lparr>os_region = rg'\<rparr> name w
       = Some ((0, hash_lines name (unat h) [(lit ''apple'', 100), (lit ''banana'', 200), (lit ''cherry'', 300)]), w') \<and>
     published rg F w0 E rg' name hash_content h w'"
proof (rule publishedE [OF p])
  fix v
  assume s: "session rg F w0 E rg' w v" "fst (names v) name = Some h" "conts v h = Some hash_content" "names v = ([name \<mapsto> h], Map.empty)"
  let ?M = "map_of (List.map (\<lambda>(k, x). (k, int_bytes x)) hash_entries)"
  have d: "card (dom ?M) = 3" by (simp add: hash_entries_def lit_values)
  have b: "card (dom ?M) < 2 ^ 64" "\<forall>k b. ?M k = Some b \<longrightarrow> length b = 4" unfolding d by (auto simp: hash_entries_def)
  have l: "List.map (key_line ?M) hash_keys
      = List.map (\<lambda>(k, x). Out ''  %s -> %d\<newline>'' [AStr k, AInt x]) [(lit ''apple'', 100), (lit ''banana'', 200), (lit ''cherry'', 300)]"
    by (simp add: hash_keys_def key_line_def hash_entries_def lit_values bytes_int_bytes int_range_def)
  from consume_hashtable_runs [OF s(1) n s(2) s(3) [unfolded hash_content_def] b] show ?thesis
    using s(3,4) unfolding d l by (auto simp: hash_lines_def published_def)
qed

lemma consumes_ring:
  assumes p: "published rg F w0 E rg' name (CQueue 4 8 (List.map int_bytes xs)) h w" and n: "good_name name"
    and xs: "length xs < 8" "\<forall>x \<in> set xs. int_range x"
  shows "\<exists>w'. consume_ringbuf E \<lparr>os_region = rg'\<rparr> name w = Some ((0, ring_lines name (unat h) xs), w') \<and>
     published rg F w0 E rg' name (CQueue 4 8 []) h w'"
proof (rule publishedE [OF p])
  fix v
  assume s: "session rg F w0 E rg' w v" "fst (names v) name = Some h" "conts v h = Some (CQueue 4 8 (List.map int_bytes xs))"
    "names v = ([name \<mapsto> h], Map.empty)"
  have "length xs < 2 ^ 64" "8 < (2 :: nat) ^ 64" using xs(1) by simp_all
  from consume_ringbuf_runs [OF s(1) n s(2,3) this xs(2)] obtain w' where
    r: "consume_ringbuf E \<lparr>os_region = rg'\<rparr> name w = Some ((0, ring_lines name (unat h) xs), w')"
      "session rg F w0 E rg' w' (v\<lparr>conts := (conts v)(h \<mapsto> CQueue 4 8 [])\<rparr>)" by (auto simp: ring_lines_def)
  moreover have "names (v\<lparr>conts := (conts v)(h \<mapsto> CQueue 4 8 [])\<rparr>) = ([name \<mapsto> h], Map.empty)"
    "conts (v\<lparr>conts := (conts v)(h \<mapsto> CQueue 4 8 [])\<rparr>) h = Some (CQueue 4 8 [])" using s(4) by simp_all
  ultimately show ?thesis unfolding published_def by blast
qed

lemma dispatch_consumes:
  assumes n: "good_name (argv ! 3)" and ty: "argv ! 1 \<in> set container_types"
  shows "published rg F w0 E rg' (argv ! 3) (made_content behind (argv ! 1)) h w \<Longrightarrow>
      \<exists>w'. consumer_dispatch E \<lparr>os_region = rg'\<rparr> argv w = Some ((0, first_lines (argv ! 1) (argv ! 3) (unat h)), w') \<and>
        published rg F w0 E rg' (argv ! 3) (read_content behind (argv ! 1)) h w'"
    and "published rg F w0 E rg' (argv ! 3) (read_content behind (argv ! 1)) h w \<Longrightarrow>
      \<exists>w'. consumer_dispatch E \<lparr>os_region = rg'\<rparr> argv w = Some ((0, later_lines (argv ! 1) (argv ! 3) (unat h)), w') \<and>
        published rg F w0 E rg' (argv ! 3) (read_content behind (argv ! 1)) h w'"
proof -
  note defs = consumer_dispatch_def made_content_def read_content_def first_lines_def later_lines_def lit_values
  have r: "length ring_values < 8" "\<forall>x \<in> set ring_values. int_range x" by (simp_all add: ring_values_def int_range_def)
  note ring1 = consumes_ring [OF _ n r, folded ring_content_def] and ring2 = consumes_ring [OF _ n, of rg F w0 E rg' "[]", simplified]
  consider "argv ! 1 = lit ''array''" | "argv ! 1 = lit ''list''" | "argv ! 1 = lit ''hash''" | "argv ! 1 = lit ''ring''"
    using ty by (auto simp: container_types_def)
  note cs = this
  {
    assume p: "published rg F w0 E rg' (argv ! 3) (made_content behind (argv ! 1)) h w"
    show "\<exists>w'. consumer_dispatch E \<lparr>os_region = rg'\<rparr> argv w = Some ((0, first_lines (argv ! 1) (argv ! 3) (unat h)), w') \<and>
        published rg F w0 E rg' (argv ! 3) (read_content behind (argv ! 1)) h w'"
    proof (cases rule: cs)
      case 1
      then show ?thesis using p consumes_array [OF _ n] by (simp add: defs)
    next
      case 2
      then show ?thesis using p consumes_list [OF _ n] by (simp add: defs)
    next
      case 3
      then show ?thesis using p consumes_hash [OF _ n] by (simp add: defs)
    next
      case 4
      then show ?thesis using p ring1 by (simp add: defs ring_values_def)
    qed
  next
    assume p: "published rg F w0 E rg' (argv ! 3) (read_content behind (argv ! 1)) h w"
    show "\<exists>w'. consumer_dispatch E \<lparr>os_region = rg'\<rparr> argv w = Some ((0, later_lines (argv ! 1) (argv ! 3) (unat h)), w') \<and>
        published rg F w0 E rg' (argv ! 3) (read_content behind (argv ! 1)) h w'"
    proof (cases rule: cs)
      case 1
      then show ?thesis using p consumes_array [OF _ n] by (simp add: defs)
    next
      case 2
      then show ?thesis using p consumes_list [OF _ n] by (simp add: defs)
    next
      case 3
      then show ?thesis using p consumes_hash [OF _ n] by (simp add: defs)
    next
      case 4
      then show ?thesis using p ring2 by (simp add: defs)
    qed
  }
qed

text \<open>A run of the consumer on what is published.\<close>

lemma consumer_runs:
  assumes p: "published rg F w0 E rg' name c h w" and sz: "rg_size rg = EXAMPLE_REGION_SIZE" and r: "ready E2 w0"
    and k: "attaches K" and argv: "4 \<le> length argv"
    and d: "\<And>rg'. published rg F w0 E2 rg' name c h w \<Longrightarrow>
        \<exists>w'. consumer_dispatch E2 \<lparr>os_region = rg'\<rparr> argv w = Some ((0, out), w') \<and> published rg F w0 E2 rg' name c' h w'"
  shows "\<exists>rg'' w'. consumer_main K E2 old argv s w = Some (0, out, s, w') \<and> published rg F w0 E2 rg'' name c' h w'"
proof -
  obtain v where "session rg F w0 E rg' w v" using p by (auto simp: published_def)
  then have "store_rel rg F w0 w v" by (simp add: session_def)
  from store_relE [OF this] have m: "heap_inv rg (bytes w)" "shm_region_validate_header (Some rg) (bytes w)"
    by (auto simp: store_ok_def)
  from attach_runs [OF m sz k, of old "argv ! 2" s] obtain rg2 s2 st where
    o: "offset_store_open_existing K (Some old) (Some (argv ! 2)) s (bytes w) = (STATUS_OK, Some \<lparr>os_region = rg2\<rparr>, s2)"
      "region_ok rg2" "rg_size rg2 = rg_size rg" "offset_store_close K (Some \<lparr>os_region = rg2\<rparr>) s2 = (STATUS_OK, st, s)" by blast
  from d [OF published_elsewhere [OF p o(2,3) r]] obtain w' where
    "consumer_dispatch E2 \<lparr>os_region = rg2\<rparr> argv w = Some ((0, out), w')" "published rg F w0 E2 rg2 name c' h w'" by blast
  then show ?thesis using o(1,4) argv by (auto simp: consumer_main_def)
qed

text \<open>C3: The two programs exchange a container. On a fresh object, for each of the four container types
  and every root name, the producer exits with 0; a consumer in another process, at any mapping address,
  then exits with 0 and prints exactly the values the producer stored, in order, and leaves no descriptor
  or mapping; so does a second consumer after it, except that the first has emptied a ring buffer. The
  bytes the producer reads behind its string literals do not show.\<close>

theorem producer_then_consumers:
  assumes "fresh_start K E w" and "attaches K1" and "attaches K2"
    and "ty \<in> set container_types" and "good_name name"
  shows "\<exists>p out s1 w1 w2 w3. producer_main behind K E old ([prog, ty, shm, name] @ rest) s w = Some (0, out, s1, w1) \<and>
     consumer_main K1 E1 old1 ([prog1, ty, shm, name] @ rest1) sc1 w1 = Some (0, first_lines ty name p, sc1, w2) \<and>
     consumer_main K2 E2 old2 ([prog2, ty, shm, name] @ rest2) sc2 w2 = Some (0, later_lines ty name p, sc2, w3)"
proof -
  let ?argv = "[prog, ty, shm, name] @ rest" and ?argv1 = "[prog1, ty, shm, name] @ rest1" and ?argv2 = "[prog2, ty, shm, name] @ rest2"
  from bootstrap_session [OF assms(1), of old shm s] obtain rg s1 w0 where
    b: "offset_store_bootstrap K E (Some old) (Some shm) EXAMPLE_REGION_SIZE s w = Some (STATUS_OK, Some \<lparr>os_region = rg\<rparr>, s1, w0)"
      "session rg {} w0 E rg w0 (empty_store 15700)" "rg_size rg = EXAMPLE_REGION_SIZE" "\<forall>E. ready E w0" by blast
  have i: "(4000 :: nat) \<le> 15700" "good_name (?argv ! 3)" "?argv ! 1 \<in> set container_types" "\<forall>a. rc_mutex_init E a = 0"
    using assms by (simp_all add: fresh_start_def create_calls_ok_def)
  from dispatch_produces [OF b(2) i, of behind] obtain h out w1 where
    p: "producer_dispatch behind E \<lparr>os_region = rg\<rparr> ?argv w0 = Some ((0, out), w1)"
      "published rg {} w0 E rg name (made_content behind ty) h w1" by auto
  have "producer_main behind K E old ?argv s w = Some (0, out, s1, w1)" using b(1) p(1) by (simp add: producer_main_def)
  moreover have k: "good_name (?argv1 ! 3)" "?argv1 ! 1 \<in> set container_types" "4 \<le> length ?argv1"
    "good_name (?argv2 ! 3)" "?argv2 ! 1 \<in> set container_types" "4 \<le> length ?argv2" using assms by simp_all
  note d1 = dispatch_consumes(1) [OF k(1,2), of rg "{}" w0 E1 _ behind h w1]
  obtain rg1 w2 where c1: "consumer_main K1 E1 old1 ?argv1 sc1 w1 = Some (0, first_lines ty name (unat h), sc1, w2)"
      "published rg {} w0 E1 rg1 name (read_content behind ty) h w2"
    using consumer_runs [OF p(2) b(3) spec [OF b(4)] assms(2) k(3), of E1 "first_lines ty name (unat h)" "read_content behind ty" old1 sc1] d1
    by auto
  note d2 = dispatch_consumes(2) [OF k(4,5), of rg "{}" w0 E2 _ behind h w2]
  obtain rg2 w3 where "consumer_main K2 E2 old2 ?argv2 sc2 w2 = Some (0, later_lines ty name (unat h), sc2, w3)"
    using consumer_runs [OF c1(2) b(3) spec [OF b(4)] assms(3) k(6), of E2 "later_lines ty name (unat h)" "read_content behind ty" old2 sc2] d2
    by auto
  with c1(1) calculation show ?thesis by blast
qed

end
