(* ===== verification/ExampleBasic.thy ===== *)
theory ExampleBasic
  imports ExampleMain
begin

text \<open>
  The object of the \<open>basic\<close> command. Both programs resolve its handle as if it were the payload, so the
  message replaces the object's header: a consumer reads the message back, but the object store no longer
  knows the object. And what the programs leave open: a consumer and a failing producer nothing.
\<close>

section \<open>The message\<close>

lemma rd_append: "rd m a (k + j) = rd m a k @ rd m (a + k) j"
  unfolding rd_def by (metis add.assoc le_add1 map_append upt_add_eq_append)

text \<open>The state after the producer: the message stands at the handle.\<close>

definition message_at :: "ShmRegion \<Rightarrow> cstr \<Rightarrow> cstr \<Rightarrow> OffsetPtr \<Rightarrow> mem \<Rightarrow> bool" where
  "message_at rg name message h m \<longleftrightarrow>
     heap_inv rg m \<and> shm_region_validate_header (Some rg) m \<and> roots_map m = [name \<mapsto> h] \<and>
     (\<exists>n. heap_abs m (unat h) = Some n \<and> 17 + length message \<le> n) \<and>
     rd m (unat h) (length message + 1) = message @ [0] \<and> unat h + 256 \<le> 65536"

lemma produce_basic_runs:
  assumes s: "session rg F w0 E rg w (empty_store B)" and sz: "rg_size rg = EXAMPLE_REGION_SIZE"
    and b: "free_blocks (bytes w) \<subseteq> {..49836}" "\<forall>b \<in> free_blocks (bytes w). bsz (bytes w) b = 15700" "2736 \<in> free_blocks (bytes w)"
    and n: "good_name name" and msg: "length message \<le> 15000"
  shows "\<exists>h m. produce_basic_object E \<lparr>os_region = rg\<rparr> name message w
       = Some ((0, [Out ''basic: created object at offset %llu, root='%s', value='%s'\<newline>''
                      [ANat (unat h), AStr name, AStr message]]), set_bytes m w) \<and>
     message_at rg name message h m \<and> rwl w HDR_roots_rwlock = RWFree"
proof -
  let ?m = "bytes w" and ?len = "length message + 1" let ?ps = "of_nat (length message + 1) :: u64"
  from store_relE [OF sessionD(1) [OF s]] obtain reg where
    st: "store_ok rg reg ?m" "store_unlocked reg w" and nm: "names (empty_store B) = store_names ?m"
      "\<forall>E. ready E w = ready E w0" by blast
  have h: "heap_inv rg ?m" and t: "tables_ok ?m" "tables_exact ?m" and v: "shm_region_validate_header (Some rg) ?m"
    using st(1) by (simp_all add: store_ok_def)
  have l: "rwl w HDR_roots_rwlock = RWFree" using st(2) by (simp add: store_unlocked_def)
  have rm: "roots_map ?m = Map.empty" using nm(1) by (simp add: empty_store_def store_names_def)
  have r: "ready E w" using nm(2) sessionD(4) [OF s] by simp
  have bs: "rg_base rg \<noteq> 0" using sessionD(2) [OF s] region_okD(1) by simp
  have u: "unat ?ps = ?len" "unat (16 + ?ps) = 16 + ?len"
  proof -
    show "unat ?ps = ?len" using msg by (intro unat_of_nat_small) simp
    then show "unat (16 + ?ps) = 16 + ?len" using msg by (subst unat_add_nowrap) simp_all
  qed
  have "req_size (16 + ?ps) + 16 + 112 \<le> 15700"
    using msg u(2) round_up_less [of 16 "16 + ?len"] by (simp add: req_size_def)
  then have "spare (req_size (16 + ?ps) + 16 + 112) ?m" using b(2,3) by (auto simp: spare_def)
  from spare_fits [OF this] obtain f where f: "f \<in> free_blocks ?m" "fits ?m 16 (req_size (16 + ?ps)) f" by auto
  have "unat ?ps \<le> 4294967295" using u(1) msg by simp
  from object_alloc_grants [OF h r this f, of 1] obtain p k m1 where
    a: "object_store_alloc E (Some rg) 1 ?ps True w = Some ((STATUS_OK, Some (of_nat p)), set_bytes m1 w)"
    and m1: "heap_inv rg m1" "heap_abs m1 = (heap_abs ?m)(p \<mapsto> k)" "16 + unat ?ps \<le> k" "same_on ?m m1 0 2496"
    and loc: "\<exists>b \<in> free_blocks ?m. p = b + payload_off 16 b" by metis
  have p1: "heap_abs m1 p = Some k" using m1(2) by simp
  note pp = payload_pointer [OF m1(1) p1] and bp = heap_abs_bounds [OF m1(1) p1]
  obtain c where c: "c \<in> free_blocks ?m" "p = c + payload_off 16 c" using loc by blast
  then have near: "p + 256 \<le> 65536" using b(1) payload_off_bounds(2) [of 16 c] by fastforce
  have res: "offset_ptr_try_resolve (rg_base rg) (rg_size rg) (of_nat p) ?ps True = Some (rg_base rg + of_nat p)"
    using bs bp m1(3) u(1) pp(1) by (auto simp: resolve_iff)
  define m2 where "m2 = wr m1 p (message @ [0])"
  have "heap.own_write p m1 m2" using m1(3) u(1) p1 by (auto simp: heap.own_write_def m2_def wr_def)
  note i2 = heap.own_write_inv [OF m1(1) p1 this]
  have "same_on m1 m2 0 2496" using bp(1) by (auto simp: same_on_def m2_def wr_def)
  note low = header_low_same [OF same_on_trans [OF m1(4) this]]
  have t2: "tables_ok m2" "tables_exact m2" "roots_map m2 = Map.empty" "shm_region_validate_header (Some rg) m2"
    using t rm v low by simp_all
  have "roots_room m2 name" using roots_room_card [OF t2(1,2)] t2(3) by simp
  moreover have "of_nat p \<noteq> (0 :: OffsetPtr)" using pp(1) bp(1) by auto
  ultimately obtain m3 where
    sr: "shm_region_set_root E (Some rg) (Some name) (of_nat p) (set_bytes m2 w) = Some (STATUS_OK, set_bytes m3 w)"
    and m3: "roots_map m3 = [name \<mapsto> of_nat p]" "\<forall>x \<ge> 2496. m3 x = m2 x"
      "shm_region_validate_header (Some rg) m2 \<longrightarrow> shm_region_validate_header (Some rg) m3"
    using set_root_runs [OF bs _ n, of "set_bytes m2 w" "of_nat p" E] l t2(1,3) by auto
  note i3 = low_write_undisturbed(1,2) [OF i2(1) m3(2)]
  have "rd m3 p ?len = rd m2 p ?len" using m3(2) bp(1) by (intro rd_same_on) (simp add: same_on_def)
  then have rd3: "rd m3 p ?len = message @ [0]" by (simp add: m2_def)
  have "message_at rg name message (of_nat p) m3"
    unfolding message_at_def using i3 i2(2) p1 m1(3) u(1) t2(4) m3(1,3) rd3 near pp(1) by auto
  moreover have "produce_basic_object E \<lparr>os_region = rg\<rparr> name message w
       = Some ((0, [Out ''basic: created object at offset %llu, root='%s', value='%s'\<newline>''
                      [ANat (unat (of_nat p :: OffsetPtr)), AStr name, AStr message]]), set_bytes m3 w)"
    using a res sr pp(1) by (simp add: produce_basic_object_def offset_store_set_root_def m2_def)
  ultimately show ?thesis using l by blast
qed

lemma consume_basic_runs:
  assumes m: "message_at rg name message h (bytes w)" and rg: "heap_inv rg' (bytes w)" "rg_size rg' = EXAMPLE_REGION_SIZE"
    and l: "rwl w HDR_roots_rwlock = RWFree" and n: "good_name name" and z: "0 \<notin> set message"
  shows "consume_basic_object E \<lparr>os_region = rg'\<rparr> name w
       = Some ((0, [Out ''basic: root='%s', offset=%llu, value='%s'\<newline>'' [AStr name, ANat (unat h), AStr message]]), w)"
proof -
  have bs: "rg_base rg' \<noteq> 0" using rg(1) region_okD(1) by (simp add: heap_inv_def header_inv_def)
  obtain k where k: "heap_abs (bytes w) (unat h) = Some k" "17 + length message \<le> k"
    and r: "rd (bytes w) (unat h) (length message + 1) = message @ [0]" "unat h + 256 \<le> 65536" "roots_map (bytes w) = [name \<mapsto> h]"
    using m by (auto simp: message_at_def)
  note bp = heap_abs_bounds [OF rg(1) k(1)]
  have "readable w HDR_roots_rwlock" using l by (simp add: readable_def)
  from get_root_runs [OF bs this n, of E] have
    g: "offset_store_get_root E (Some \<lparr>os_region = rg'\<rparr>) (Some name) True w = Some ((STATUS_OK, Some h), w)"
    using r(3) by (simp add: offset_store_get_root_def)
  have h0: "h \<noteq> 0" using bp(1) by auto
  have res: "offset_ptr_try_resolve (rg_base rg') (rg_size rg') h 256 True = Some (rg_base rg' + h)"
    using bs h0 r(2) rg(2) by (auto simp: resolve_iff EXAMPLE_REGION_SIZE_def)
  have "length message + 1 \<le> unat (rg_size rg') - unat h" using bp(3) k(2) by simp
  then obtain j where j: "unat (rg_size rg') - unat h = length message + 1 + j" using le_iff_add by blast
  have "rd (bytes w) (unat h) (unat (rg_size rg') - unat h) = message @ 0 # rd (bytes w) (unat h + (length message + 1)) j"
    using rd_append [of "bytes w" "unat h" "length message + 1" j] r(1) by (simp add: j)
  moreover have "takeWhile (\<lambda>b. b \<noteq> 0) (message @ 0 # ys) = message" for ys using z by (subst takeWhile_append2) auto
  ultimately have "region_string rg' (rg_base rg' + h) (bytes w) = Some message" by (simp add: region_string_def)
  then show ?thesis using g res by (simp add: consume_basic_object_def)
qed

text \<open>C18: The two programs exchange a message. On a fresh object, for every root name and every message of
  at most 15000 characters, the producer's \<open>basic\<close> command exits with 0, and a consumer in another process,
  at any mapping address, exits with 0, prints exactly the message and leaves no descriptor or mapping.\<close>

theorem basic_message_exchanged:
  assumes f: "fresh_start K E w" and k: "attaches K1" and n: "good_name name" and msg: "length message \<le> 15000" "0 \<notin> set message"
  shows "\<exists>p out s1 w1. producer_main behind K E old ([prog, lit ''basic'', shm, name, message] @ rest) s w = Some (0, out, s1, w1) \<and>
     consumer_main K1 E1 old1 ([prog1, lit ''basic'', shm, name] @ rest1) sc w1
       = Some (0, [Out ''basic: root='%s', offset=%llu, value='%s'\<newline>'' [AStr name, ANat p, AStr message]], sc, w1)"
proof -
  from bootstrap_session [OF f, of old shm s] obtain rg s1 w0 where
    b: "offset_store_bootstrap K E (Some old) (Some shm) EXAMPLE_REGION_SIZE s w = Some (STATUS_OK, Some \<lparr>os_region = rg\<rparr>, s1, w0)"
      "session rg {} w0 E rg w0 (empty_store 15700)" "rg_size rg = EXAMPLE_REGION_SIZE"
      "free_blocks (bytes w0) \<subseteq> {..49836}" "\<forall>b \<in> free_blocks (bytes w0). bsz (bytes w0) b = 15700" "2736 \<in> free_blocks (bytes w0)"
    by blast
  from produce_basic_runs [OF b(2-6) n msg(1)] obtain h m out where
    p: "produce_basic_object E \<lparr>os_region = rg\<rparr> name message w0 = Some ((0, out), set_bytes m w0)"
      "message_at rg name message h m" "rwl w0 HDR_roots_rwlock = RWFree" by blast
  let ?w = "set_bytes m w0"
  have m: "heap_inv rg m" "shm_region_validate_header (Some rg) m" using p(2) by (simp_all add: message_at_def)
  from attach_runs [OF m b(3) k, of old1 shm sc] obtain rg1 s2 st where
    o: "offset_store_open_existing K1 (Some old1) (Some shm) sc m = (STATUS_OK, Some \<lparr>os_region = rg1\<rparr>, s2)"
      "rg_size rg1 = rg_size rg" "heap_inv rg1 m" "offset_store_close K1 (Some \<lparr>os_region = rg1\<rparr>) s2 = (STATUS_OK, st, sc)" by blast
  have c: "consume_basic_object E1 \<lparr>os_region = rg1\<rparr> name ?w
      = Some ((0, [Out ''basic: root='%s', offset=%llu, value='%s'\<newline>'' [AStr name, ANat (unat h), AStr message]]), ?w)"
    using consume_basic_runs [of rg name message h ?w rg1 E1] p(2,3) o(2,3) b(3) n msg(2) by simp
  have "producer_main behind K E old ([prog, lit ''basic'', shm, name, message] @ rest) s w = Some (0, out, s1, ?w)"
    using b(1) p(1) by (simp add: producer_main_def producer_dispatch_def)
  moreover have "consumer_main K1 E1 old1 ([prog1, lit ''basic'', shm, name] @ rest1) sc ?w
      = Some (0, [Out ''basic: root='%s', offset=%llu, value='%s'\<newline>'' [AStr name, ANat (unat h), AStr message]], sc, ?w)"
    using o(1,4) c by (simp add: consumer_main_def consumer_dispatch_def)
  ultimately show ?thesis by blast
qed

section \<open>The header\<close>

lemma rd_four: "rd m p 4 = [m p, m (p + 1), m (p + 2), m (p + 3)]"
proof -
  have "[p..<p + 4] = [p, p + 1, p + 2, p + 3]" by (simp add: upt_conv_Cons)
  then show ?thesis by (simp add: rd_def)
qed

text \<open>The first four bytes of the message are where the header keeps the payload's size; three characters
  already make it larger than the region.\<close>

lemma message_size:
  assumes m: "rd m p (length message + 1) = message @ [0]" and l: "3 \<le> length message" and z: "0 \<notin> set message"
  shows "65536 \<le> unat (oh_size (get_object m p))"
proof -
  have nth: "m (p + i) = (message @ [0]) ! i" if "i < length message + 1" for i
    using arg_cong [OF m, of "\<lambda>bs. bs ! i"] that by (simp add: rd_def del: upt_Suc)
  have "m (p + 2) = message ! 2" using nth [of 2] l by (simp add: nth_append)
  moreover have "message ! 2 \<in> set message" using l by simp
  ultimately have "m (p + 2) \<noteq> 0" using z by metis
  then have b2: "1 \<le> unat (m (p + 2))" by (metis One_nat_def Suc_leI unat_gt_0)
  have v: "le_val (rd m p 4) = unat (m p) + 256 * (unat (m (p + 1)) + 256 * (unat (m (p + 2)) + 256 * unat (m (p + 3))))"
    by (simp add: rd_four)
  have "le_val (rd m p 4) < 2 ^ 32" using le_val_less [of "rd m p 4"] by simp
  then have "unat (ld32 m p) = le_val (rd m p 4)" unfolding ld32_def by (intro unat_of_nat_small) simp
  then show ?thesis using v b2 by (simp add: get_object_def OBJ_size_def)
qed

lemma message_is_no_object:
  assumes m: "message_at rg name message h m" and sz: "rg_size rg = EXAMPLE_REGION_SIZE"
    and l: "3 \<le> length message" "0 \<notin> set message"
  shows "\<not> object_at m (unat h)"
proof
  assume "object_at m (unat h)"
  then obtain n where n: "heap_abs m (unat h) = Some n" "16 + unat (oh_size (get_object m (unat h))) \<le> n"
    by (auto simp: object_at_def)
  have "heap_inv rg m" and r: "rd m (unat h) (length message + 1) = message @ [0]" using m by (simp_all add: message_at_def)
  then have "n \<le> 65536" using heap_abs_bounds(3) [OF _ n(1)] sz by (fastforce simp: EXAMPLE_REGION_SIZE_def)
  then show False using n(2) message_size [OF r l] by simp
qed

text \<open>A handle that denotes no object cannot be freed, and has no payload.\<close>

lemma no_object_refused:
  assumes h: "heap_inv rg (bytes w)" and o: "\<not> object_at (bytes w) (unat obj)" and z: "obj \<noteq> 0"
  shows "object_store_free E (Some rg) obj w = Some (STATUS_NOT_FOUND, w)"
    and "object_store_get_payload (Some rg) obj (bytes w) = Some None"
  using o z
  by (auto simp: object_at_def object_store_free_def object_store_get_header_mut_def object_store_get_payload_def
      object_store_get_payload_const_def object_store_get_header_def resolve_header_run [OF h] unat_ucast_64)

text \<open>C19: The \<open>basic\<close> command destroys the header of the object it publishes. For every message of at
  least three characters, after a successful run the name leads to a handle that the object store refuses
  in every process: it has no payload, and freeing it returns \<open>NOT_FOUND\<close>, so its memory stays allocated.\<close>

theorem basic_object_lost:
  assumes f: "fresh_start K E w" and n: "good_name name" and msg: "3 \<le> length message" "length message \<le> 15000" "0 \<notin> set message"
  shows "\<exists>h out s1 w1. producer_main behind K E old ([prog, lit ''basic'', shm, name, message] @ rest) s w = Some (0, out, s1, w1) \<and>
     roots_map (bytes w1) = [name \<mapsto> h] \<and> heap_abs (bytes w1) (unat h) \<noteq> None \<and>
     (\<forall>rg' E'. region_ok rg' \<and> rg_size rg' = EXAMPLE_REGION_SIZE \<longrightarrow>
        object_store_get_payload (Some rg') h (bytes w1) = Some None \<and>
        object_store_free E' (Some rg') h w1 = Some (STATUS_NOT_FOUND, w1))"
proof -
  from bootstrap_session [OF f, of old shm s] obtain rg s1 w0 where
    b: "offset_store_bootstrap K E (Some old) (Some shm) EXAMPLE_REGION_SIZE s w = Some (STATUS_OK, Some \<lparr>os_region = rg\<rparr>, s1, w0)"
      "session rg {} w0 E rg w0 (empty_store 15700)" "rg_size rg = EXAMPLE_REGION_SIZE"
      "free_blocks (bytes w0) \<subseteq> {..49836}" "\<forall>b \<in> free_blocks (bytes w0). bsz (bytes w0) b = 15700" "2736 \<in> free_blocks (bytes w0)"
    by blast
  from produce_basic_runs [OF b(2-6) n msg(2)] obtain h m out where
    p: "produce_basic_object E \<lparr>os_region = rg\<rparr> name message w0 = Some ((0, out), set_bytes m w0)"
      "message_at rg name message h m" by blast
  let ?w = "set_bytes m w0"
  have m: "heap_inv rg m" "roots_map m = [name \<mapsto> h]" "heap_abs m (unat h) \<noteq> None" using p(2) by (auto simp: message_at_def)
  have no: "\<not> object_at m (unat h)" by (rule message_is_no_object [OF p(2) b(3) msg(1,3)])
  have "h \<noteq> 0" using m(3) heap_abs_bounds(1) [OF m(1), of "unat h"] by fastforce
  then have "object_store_get_payload (Some rg') h (bytes ?w) = Some None \<and> object_store_free E' (Some rg') h ?w = Some (STATUS_NOT_FOUND, ?w)"
    if "region_ok rg'" "rg_size rg' = EXAMPLE_REGION_SIZE" for rg' E'
    using no_object_refused [of rg' ?w h] heap_inv_relocate [OF m(1) that(1)] that(2) b(3) no by simp
  moreover have "producer_main behind K E old ([prog, lit ''basic'', shm, name, message] @ rest) s w = Some (0, out, s1, ?w)"
    using b(1) p(1) by (simp add: producer_main_def producer_dispatch_def)
  ultimately show ?thesis using m(2,3) by (intro exI [of _ h] exI [of _ out] exI [of _ s1] exI [of _ ?w]) simp
qed

section \<open>What the programs leave open\<close>

text \<open>Closing what was just opened.\<close>

lemma close_restores:
  assumes c: "cleanup_ok K" and fd: "0 \<le> rg_fd rg" and b: "rg_base rg \<noteq> 0"
    and s: "os_fds s' = rg_fd rg # os_fds s" "os_maps s' = (rg_base rg, rg_size rg) # os_maps s"
  shows "\<exists>st s1. offset_store_close K (Some \<lparr>os_region = rg\<rparr>) s' = (STATUS_OK, st, s1) \<and> os_fds s1 = os_fds s \<and>
     os_maps s1 = os_maps s \<and> os_linked s1 = os_linked s'"
  using assms by (auto simp: offset_store_close_def shm_region_close_def sys_munmap_def sys_close_def cleanup_ok_def)

lemma bootstrap_outcome:
  assumes c: "cleanup_ok K" and r: "offset_store_bootstrap K E (Some old) (Some shm) EXAMPLE_REGION_SIZE s w = Some (st, store, s', w')"
  shows "if st = STATUS_OK
     then \<exists>rg. store = Some \<lparr>os_region = rg\<rparr> \<and> 0 \<le> rg_fd rg \<and> rg_base rg \<noteq> 0 \<and> 0 \<le> k_open K \<and>
       os_fds s' = rg_fd rg # os_fds s \<and> os_maps s' = (rg_base rg, rg_size rg) # os_maps s
     else os_fds s' = os_fds s \<and> os_maps s' = os_maps s \<and> os_linked s' = (if k_open K < 0 then os_linked s else False)"
proof -
  obtain cst rg s1 w1 where cr: "shm_region_create K E (Some empty_region) (Some shm) EXAMPLE_REGION_SIZE s w = (cst, rg, s1, w1)"
    by (metis surj_pair)
  have sz: "2496 \<le> unat EXAMPLE_REGION_SIZE" by (simp add: EXAMPLE_REGION_SIZE_def)
  note o = create_outcome [OF c sz cr]
  show ?thesis
  proof (cases "cst = STATUS_OK")
    case False
    then show ?thesis using r cr o by (auto simp: offset_store_bootstrap_def reset_store)
  next
    case True
    then obtain a where a: "rg = Some \<lparr>rg_fd = k_open K, rg_base = a, rg_size = EXAMPLE_REGION_SIZE, rg_creator = True\<rparr>"
        "0 \<le> k_open K" "a \<noteq> 0" "os_fds s1 = k_open K # os_fds s" "os_maps s1 = (a, EXAMPLE_REGION_SIZE) # os_maps s"
      using o by auto
    then show ?thesis using r cr True c
      by (auto simp: offset_store_bootstrap_def reset_store shm_region_close_def shm_region_unlink_def sys_munmap_def sys_close_def
          sys_shm_unlink_def cleanup_ok_def bind_eq_Some_conv Let_def split: if_splits prod.splits)
  qed
qed

lemma open_outcome:
  assumes c: "cleanup_ok K" and r: "offset_store_open_existing K (Some old) (Some shm) s m = (st, store, s')"
  shows "if st = STATUS_OK
     then \<exists>rg. store = Some \<lparr>os_region = rg\<rparr> \<and> 0 \<le> rg_fd rg \<and> rg_base rg \<noteq> 0 \<and>
       os_fds s' = rg_fd rg # os_fds s \<and> os_maps s' = (rg_base rg, rg_size rg) # os_maps s
     else os_fds s' = os_fds s \<and> os_maps s' = os_maps s"
proof -
  obtain ost rg s1 where op: "shm_region_open K (Some empty_region) (Some shm) s m = (ost, rg, s1)" by (metis surj_pair)
  note o = open_outcome_region [OF c op]
  show ?thesis
  proof (cases "ost = STATUS_OK")
    case False
    then show ?thesis using r op o by (auto simp: offset_store_open_existing_def reset_store)
  next
    case True
    then show ?thesis using r op o c
      by (auto simp: offset_store_open_existing_def reset_store shm_region_close_def sys_munmap_def sys_close_def cleanup_ok_def
          Let_def split: if_splits prod.splits)
  qed
qed

lemma producer_main_clean:
  assumes c: "cleanup_ok K" and r: "producer_main behind K E old argv s w = Some (ret, out, s1, w1)" and e: "ret \<noteq> 0"
  shows "os_fds s1 = os_fds s \<and> os_maps s1 = os_maps s \<and>
    os_linked s1 = (if length argv < 4 \<or> k_open K < 0 then os_linked s else False)"
proof (cases "length argv < 4")
  case True
  then show ?thesis using r by (simp add: producer_main_def)
next
  case False
  then obtain st store s2 w2 where
    b: "offset_store_bootstrap K E (Some old) (Some (argv ! 2)) EXAMPLE_REGION_SIZE s w = Some (st, store, s2, w2)"
    using r by (auto simp: producer_main_def bind_eq_Some_conv)
  note o = bootstrap_outcome [OF c b]
  show ?thesis
  proof (cases "st = STATUS_OK")
    case True
    then obtain rg where rg: "store = Some \<lparr>os_region = rg\<rparr>" "0 \<le> rg_fd rg" "rg_base rg \<noteq> 0" "0 \<le> k_open K"
        "os_fds s2 = rg_fd rg # os_fds s" "os_maps s2 = (rg_base rg, rg_size rg) # os_maps s" using o by auto
    from close_restores [OF c rg(2,3,5,6)] obtain x s3 where
      x: "offset_store_close K (Some \<lparr>os_region = rg\<rparr>) s2 = (STATUS_OK, x, s3)" "os_fds s3 = os_fds s" "os_maps s3 = os_maps s"
      by blast
    have "fst (k_unlink K) = 0" using c by (simp add: cleanup_ok_def)
    then have "s1 = s3\<lparr>os_linked := False\<rparr>" using r b False True e rg(1) x(1)
      by (auto simp: producer_main_def bind_eq_Some_conv shm_region_unlink_def sys_shm_unlink_def split: if_splits)
    then show ?thesis using x(2,3) rg(4) False by simp
  next
    case nok: False
    then show ?thesis using r b o False by (auto simp: producer_main_def)
  qed
qed

lemma consumer_main_clean:
  assumes c: "cleanup_ok K" and r: "consumer_main K E old argv s w = Some (ret, out, s1, w1)"
  shows "os_fds s1 = os_fds s \<and> os_maps s1 = os_maps s"
proof (cases "length argv < 4")
  case True
  then show ?thesis using r by (simp add: consumer_main_def)
next
  case False
  obtain st store s2 where
    b: "offset_store_open_existing K (Some old) (Some (argv ! 2)) s (bytes w) = (st, store, s2)" by (metis surj_pair)
  note o = open_outcome [OF c b]
  show ?thesis
  proof (cases "st = STATUS_OK")
    case True
    then obtain rg where rg: "store = Some \<lparr>os_region = rg\<rparr>" "0 \<le> rg_fd rg" "rg_base rg \<noteq> 0"
        "os_fds s2 = rg_fd rg # os_fds s" "os_maps s2 = (rg_base rg, rg_size rg) # os_maps s" using o by auto
    from close_restores [OF c rg(2-5)] obtain x s3 where
      "offset_store_close K (Some \<lparr>os_region = rg\<rparr>) s2 = (STATUS_OK, x, s3)" "os_fds s3 = os_fds s" "os_maps s3 = os_maps s"
      by blast
    then show ?thesis using r b False True rg(1) by (auto simp: consumer_main_def bind_eq_Some_conv)
  next
    case nok: False
    then show ?thesis using r b o False by (auto simp: consumer_main_def)
  qed
qed

text \<open>C20: The programs clean up. As long as the cleanup calls of the kernel succeed, a consumer ends with
  the descriptors and mappings it started with, whatever happens, and so does a producer that fails,
  whatever the reason; the name of the region it created is then removed.\<close>

theorem example_programs_clean:
  assumes c: "cleanup_ok K"
  shows "(producer_main behind K E old argv s w = Some (ret, out, s1, w1) \<longrightarrow> ret \<noteq> 0 \<longrightarrow>
        os_fds s1 = os_fds s \<and> os_maps s1 = os_maps s \<and>
        os_linked s1 = (if length argv < 4 \<or> k_open K < 0 then os_linked s else False)) \<and>
     (consumer_main K E old argv s w = Some (ret, out, s1, w1) \<longrightarrow> os_fds s1 = os_fds s \<and> os_maps s1 = os_maps s)"
  using producer_main_clean [OF c] consumer_main_clean [OF c] by blast

section \<open>Witnesses\<close>

text \<open>Consumers map the object at another address than the producer.\<close>

definition consumer_kernel :: kernel where
  "consumer_kernel = demo_kernel\<lparr>k_fstat := (0, 65536), k_mmap := Some 131072\<rparr>"

lemma demo_start: "fresh_start demo_kernel demo_env demo_blank" "attaches consumer_kernel"
  using demo_create_ok
  by (auto simp: fresh_start_def attaches_def cleanup_ok_def consumer_kernel_def demo_kernel_def demo_blank_def mapping_ok_def
      EXAMPLE_REGION_SIZE_def)

definition no_store :: OffsetStore where
  "no_store = \<lparr>os_region = empty_region\<rparr>"

theorem producer_then_consumers_witness:
  "\<exists>p out s1 w1 w2 w3. producer_main (\<lambda>_ _. 7) demo_kernel demo_env no_store [[112], lit ''ring'', [47], [97]] demo_os demo_blank
       = Some (0, out, s1, w1) \<and>
     consumer_main consumer_kernel demo_env no_store [[99], lit ''ring'', [47], [97]] demo_os w1
       = Some (0, ring_lines [97] p [100, 200, 300, 400, 500], demo_os, w2) \<and>
     consumer_main consumer_kernel demo_env no_store [[99], lit ''ring'', [47], [97]] demo_os w2
       = Some (0, ring_lines [97] p [], demo_os, w3)"
proof -
  have ty: "lit ''ring'' \<in> set container_types" by (simp add: container_types_def)
  have l: "first_lines (lit ''ring'') [97] p = ring_lines [97] p [100, 200, 300, 400, 500]"
    "later_lines (lit ''ring'') [97] p = ring_lines [97] p []" for p
    by (simp_all add: first_lines_def later_lines_def lit_values)
  from producer_then_consumers [OF demo_start demo_start(2) ty demo_name, of "\<lambda>_ _. 7" no_store "[112]" "[47]" "[]" demo_os
      demo_env no_store "[99]" "[]" demo_os demo_env no_store "[99]" "[]" demo_os] show ?thesis
    by (simp add: l)
qed

theorem basic_message_exchanged_witness:
  "\<exists>p out s1 w1. producer_main (\<lambda>_ _. 7) demo_kernel demo_env no_store [[112], lit ''basic'', [47], [97], lit ''hello''] demo_os demo_blank
       = Some (0, out, s1, w1) \<and>
     consumer_main consumer_kernel demo_env no_store [[99], lit ''basic'', [47], [97]] demo_os w1
       = Some (0, [Out ''basic: root='%s', offset=%llu, value='%s'\<newline>'' [AStr [97], ANat p, AStr (lit ''hello'')]], demo_os, w1)"
proof -
  have msg: "length (lit ''hello'') \<le> 15000" "0 \<notin> set (lit ''hello'')" by (simp_all add: lit_def)
  from basic_message_exchanged [OF demo_start demo_name msg, of "\<lambda>_ _. 7" no_store "[112]" "[47]" "[]" demo_os
      demo_env no_store "[99]" "[]" demo_os] show ?thesis by simp
qed

theorem basic_object_lost_witness:
  "\<exists>h out s1 w1. producer_main (\<lambda>_ _. 7) demo_kernel demo_env no_store [[112], lit ''basic'', [47], [97], lit ''hello''] demo_os demo_blank
       = Some (0, out, s1, w1) \<and>
     object_store_free demo_env (Some \<lparr>rg_fd = 3, rg_base = 131072, rg_size = 65536, rg_creator = False\<rparr>) h w1
       = Some (STATUS_NOT_FOUND, w1)"
proof -
  have msg: "3 \<le> length (lit ''hello'')" "length (lit ''hello'') \<le> 15000" "0 \<notin> set (lit ''hello'')" by (simp_all add: lit_def)
  have rg: "region_ok \<lparr>rg_fd = 3, rg_base = 131072, rg_size = 65536, rg_creator = False\<rparr>"
    by (simp add: region_ok_def mapping_ok_def)
  from basic_object_lost [OF demo_start(1) demo_name msg, of "\<lambda>_ _. 7" no_store "[112]" "[47]" "[]" demo_os] show ?thesis
    using rg by (fastforce simp: EXAMPLE_REGION_SIZE_def)
qed

text \<open>A producer that is given an unknown type.\<close>

theorem example_programs_clean_witness:
  "\<exists>out s1 w1. producer_main (\<lambda>_ _. 7) demo_kernel demo_env no_store [[112], lit ''tree'', [47], [97]] demo_os demo_blank
       = Some (1, out, s1, w1) \<and> os_fds s1 = [] \<and> os_maps s1 = [] \<and> \<not> os_linked s1"
proof -
  let ?argv = "[[112], lit ''tree'', [47], [97]]"
  from bootstrap_session [OF demo_start(1), of no_store "[47]" demo_os] obtain rg s' w' where
    b: "offset_store_bootstrap demo_kernel demo_env (Some no_store) (Some [47]) EXAMPLE_REGION_SIZE demo_os demo_blank
       = Some (STATUS_OK, Some \<lparr>os_region = rg\<rparr>, s', w')" by blast
  have "producer_dispatch (\<lambda>_ _. 7) demo_env \<lparr>os_region = rg\<rparr> ?argv w' = Some ((1, [Err ''Unknown type: %s\<newline>'' [AStr (lit ''tree'')]]), w')"
    by (simp add: producer_dispatch_def lit_def)
  then obtain out s1 w1 where r: "producer_main (\<lambda>_ _. 7) demo_kernel demo_env no_store ?argv demo_os demo_blank = Some (1, out, s1, w1)"
    using b by (cases "offset_store_close demo_kernel (Some \<lparr>os_region = rg\<rparr>) s'") (auto simp: producer_main_def case_prod_beta)
  have "\<not> (length ?argv < 4 \<or> k_open demo_kernel < 0)" "os_fds demo_os = []" "os_maps demo_os = []"
    by (simp_all add: demo_kernel_def demo_os_def)
  with example_programs_clean [OF demo_create_ok(2), of "\<lambda>_ _. 7" demo_env no_store ?argv demo_os demo_blank 1 out s1 w1] r
  show ?thesis by simp
qed

end
