(* ===== verification/HashTableKeys.thy ===== *)
theory HashTableKeys
  imports HashTableLife
begin

text \<open>
  Two facts about keys: the hash is the polynomial the shifts and additions stand for, and a key
  longer than the table's key size is lost, because only its first characters are stored while
  the comparison is with the whole key.
\<close>

section \<open>The hash\<close>

lemma hash_step: "push_bit 5 h + h = 33 * (h :: u64)"
  by (simp add: push_bit_eq_mult)

lemma hash_fold:
  "fold (\<lambda>c h. (push_bit 5 h + h) + scast c) (key :: cstr) (s :: u64) =
     s * 33 ^ length key + (\<Sum>i < length key. scast (key ! i) * 33 ^ (length key - 1 - i))"
proof (induction key arbitrary: s)
  case (Cons c key)
  have e: "(\<Sum>i < length (c # key). scast ((c # key) ! i) * 33 ^ (length (c # key) - 1 - i) :: u64)
      = scast c * 33 ^ length key + (\<Sum>i < length key. scast (key ! i) * 33 ^ (length key - 1 - i))"
    unfolding list.size(4) add_Suc_right add_0_right sum.lessThan_Suc_shift by simp
  have "fold (\<lambda>c h. (push_bit 5 h + h) + scast c) (c # key) s
      = (33 * s + scast c) * 33 ^ length key + (\<Sum>i < length key. scast (key ! i) * 33 ^ (length key - 1 - i))"
    by (simp only: fold.simps comp_def Cons.IH) (simp only: hash_step)
  then show ?case unfolding e by (simp add: distrib_right mult.assoc mult.left_commute add.assoc)
qed simp

text \<open>C39: The loop of shifts and additions in \<open>hashtable_hash\<close> computes the djb2 polynomial
  \<open>5381 * 33 ^ n + c0 * 33 ^ (n - 1) + ... + c(n - 1)\<close> modulo \<open>2 ^ 64\<close>, over sign-extended characters, and
  then its remainder by the number of buckets.\<close>

theorem hashtable_hash_polynomial:
  "hashtable_hash key n =
     (5381 * 33 ^ length key + (\<Sum>i < length key. scast (key ! i) * 33 ^ (length key - 1 - i))) mod n"
  by (simp add: hashtable_hash_def hash_fold)

section \<open>Keys that are too long\<close>

text \<open>The chain of a bucket after an entry of fresh spans is linked into it, whatever the entry's key.\<close>

lemma link_chain:
  assumes h: "heap_inv rg m" "heap_inv rg m4" and r: "ht_repr m p cs" and i: "i < length cs"
    and x: "ent_ok m4 (ht_val_size (get_table m p)) x" "owner_step {} (set (ent_spans x)) m m4"
    and nx: "ld64 m4 (node_pos x + 16) = ld64 m (unat (ht_buckets (get_table m p)) + i * 8)" and q: "unat q = node_pos x"
  defines "b \<equiv> unat (ht_buckets (get_table m p))"
  defines "m' \<equiv> st64 m4 (b + i * 8) q"
  shows "heap_inv rg m'" and "heap_abs m' = heap_abs m4" and "get_table m' p = get_table m p"
    and "chain m' (unat (ld64 m' (b + i * 8))) (x # cs ! i)"
    and "\<And>y. y \<in> set (x # cs ! i) \<Longrightarrow> ent_ok m' (ht_val_size (get_table m p)) y"
proof -
  have dj: "ht_spans m p cs \<inter> {} = {}" by simp
  note k4 = ht_kept [OF r x(2) dj]
  obtain n where n: "heap_abs m4 b = Some n" "\<And>i. i < length cs \<Longrightarrow> i * 8 + 8 \<le> n" "b \<noteq> p"
    "\<And>y. y \<in> set (concat cs) \<Longrightarrow> b \<notin> set (ent_spans y)"
    using ht_apart [OF h(2) k4(2)] k4(1) unfolding b_def by metis
  have w: "m' y = m4 y" if "y < b \<or> b + n \<le> y" for y
    using that n(2) [OF i] by (auto simp: m'_def st64_outside)
  note s = svc.own_step [OF h(2) n(1) w]
  show "heap_inv rg m'" "heap_abs m' = heap_abs m4" using s(1,2) by simp_all
  obtain k where k: "heap_abs m4 p = Some k" "72 \<le> k" using ht_reprD(1) [OF k4(2)] by blast
  have "p \<notin> {b}" using n(3) by simp
  then show "get_table m' p = get_table m p" using get_table_kept [OF s(3) k] k4(1) by simp
  have sub: "set (cs ! i) \<subseteq> set (concat cs)" using nth_mem [OF i] by auto
  have "b \<in> ht_spans m p cs" by (simp add: ht_spans_def b_def)
  then have bx: "set (ent_spans x) \<inter> {b} = {}" using k4(4) by auto
  have ey: "ent_ok m' (ht_val_size (get_table m p)) y \<and> ld64 m' (node_pos y + 16) = ld64 m4 (node_pos y + 16)"
    if "y \<in> set (x # cs ! i)" for y
  proof -
    have "y = x \<or> y \<in> set (concat cs)" using that sub by auto
    then have "ent_ok m4 (ht_val_size (get_table m p)) y" "set (ent_spans y) \<inter> {b} = {}"
      using x(1) bx ht_reprD(8) [OF k4(2)] k4(1) n(4) by (simp, metis) (use \<open>y = x \<or> y \<in> set (concat cs)\<close> bx n(4) in blast)
    then show ?thesis using ent_ok_kept [OF _ s(3)] by blast
  qed
  then show "\<And>y. y \<in> set (x # cs ! i) \<Longrightarrow> ent_ok m' (ht_val_size (get_table m p)) y" by blast
  have "ld64 m4 (b + i * 8) = ld64 m (b + i * 8)" unfolding b_def by (rule bucket_word_kept [OF r i x(2)])
  moreover have "chain m4 (unat (ld64 m4 (b + i * 8))) (cs ! i)" using ht_reprD(6,9) [OF k4(2)] k4(1) i by (simp add: b_def)
  ultimately have "chain m4 (unat (ld64 m (b + i * 8))) (cs ! i)" by (simp only:)
  moreover have "chain m' z (cs ! i) = chain m4 z (cs ! i)" for z using ey by (intro chain_cong) simp
  ultimately show "chain m' (unat (ld64 m' (b + i * 8))) (x # cs ! i)" using ey [of x] q nx by (simp add: m'_def b_def)
qed

text \<open>A lookup fails on every table whose chain for the key's hash has no entry with it.\<close>

lemma get_absent:
  assumes h: "heap_inv rg (bytes w)" and l: "mtx w (unat off + 32) = MFree" and n: "length key < 2 ^ 64"
    and p: "heap_abs (bytes w) (unat off) = Some k" "72 \<le> k"
    and b: "heap_abs (bytes w) (unat (ht_buckets (get_table (bytes w) (unat off)))) = Some j"
      "unat (ht_num_buckets (get_table (bytes w) (unat off))) * 8 \<le> j" "0 < unat (ht_num_buckets (get_table (bytes w) (unat off)))"
    and c: "chain (bytes w) (unat (ld64 (bytes w) (unat (ht_buckets (get_table (bytes w) (unat off))) +
      unat (hashtable_hash key (ht_num_buckets (get_table (bytes w) (unat off)))) * 8))) xs"
    and e: "\<And>x. x \<in> set xs \<Longrightarrow> ent_ok (bytes w) vs x \<and> ent_key x \<noteq> key"
  shows "hashtable_get E rg off (Some key) True w = Some ((- 1, None), w)"
proof -
  let ?t = "get_table (bytes w) (unat off)"
  have hr: "hashtable_resolve_header rg off = Some (rg_base rg + off)"
    using span_resolves(1) [OF h p(1), of 72] p(2) by (simp add: hashtable_resolve_header_def)
  have b8: "unat (ht_num_buckets ?t) * unat (8 :: u64) \<le> j" using b(2) by simp
  note a = array_span [OF h b(1) b8]
  have ba: "hashtable_bucket_array rg ?t = Some (rg_base rg + ht_buckets ?t)" using a(1) by (simp add: hashtable_bucket_array_def)
  have "unat (hashtable_hash key (ht_num_buckets ?t)) < unat (ht_num_buckets ?t)" using b(3) by (simp add: hashtable_hash_def unat_mod)
  then have at: "bucket_at rg (rg_base rg + ht_buckets ?t) (hashtable_hash key (ht_num_buckets ?t))
      = unat (ht_buckets ?t) + unat (hashtable_hash key (ht_num_buckets ?t)) * 8"
    using a(2) by (simp add: bucket_at_def)
  show ?thesis
    using find_none [OF h n c e] hr ba at ht_lock_free [where E = E, OF l] ht_unlock_own(2) [where E = E, OF l]
    by (simp add: hashtable_get_def Let_def offset_ptr_null_def)
qed

text \<open>C40: A key longer than the table's key size is lost: whatever \<open>hashtable_put\<close> answers for a new key of
  that kind, the lookup that follows answers that the key is absent, on a table whose memory holds
  three more allocations when the put reported success; and the put does report success whenever the
  largest free block covers it.\<close>

theorem hashtable_long_key_lost:
  assumes h: "heap_inv rg (bytes w)" and r: "ready E w" and o: "table_ok (bytes w) (unat off)" and l: "mtx w (unat off + 32) = MFree"
    and key: "0 \<notin> set key" "unat (ht_key_size (get_table (bytes w) (unat off))) < length key" "length key < 2 ^ 64"
      "unat (ht_key_size (get_table (bytes w) (unat off))) < 2 ^ 32"
    and val: "length val = unat (ht_val_size (get_table (bytes w) (unat off)))"
      "unat (ht_val_size (get_table (bytes w) (unat off))) \<le> 2 ^ 62"
    and new: "table_abs (bytes w) (unat off) key = None"
  shows "\<exists>rc m'. hashtable_put E rg off (Some key) (Some val) w = Some (rc, set_bytes m' w) \<and> (rc = 0 \<or> rc = - 1) \<and>
     (rc = 0 \<longrightarrow> (\<exists>S. card S = 3 \<and> S \<inter> dom (heap_abs (bytes w)) = {} \<and> S \<subseteq> dom (heap_abs m'))) \<and>
     (spare (put_cost (ht_val_size (get_table (bytes w) (unat off))) (stored_key (ht_key_size (get_table (bytes w) (unat off))) key))
        (bytes w) \<longrightarrow> rc = 0) \<and>
     hashtable_get E rg off (Some key) True (set_bytes m' w) = Some ((- 1, None), set_bytes m' w)"
proof -
  let ?m = "bytes w" and ?p = "unat off" let ?w1 = "holding E (?p + 32) w" and ?t = "get_table ?m ?p"
  define cs where "cs = ht_read ?m ?p"
  have t: "ht_repr ?m ?p cs" using o by (simp add: table_ok_def cs_def)
  note hold = ht_holding [OF h r o, folded cs_def]
  define idx where "idx = hashtable_hash key (ht_num_buckets ?t)"
  have i: "unat idx < length cs" unfolding idx_def by (rule hash_bound [OF t])
  note br = buckets_resolve [OF h t]
  have args: "length (stored_key (ht_key_size (get_table (bytes ?w1) ?p)) key) < 2 ^ 32"
    "length val = unat (ht_val_size (get_table (bytes ?w1) ?p))" "valid_request (ht_val_size (get_table (bytes ?w1) ?p)) 16"
    using key(2,4) val ht_reprD(5) [OF t] by (auto simp: valid_request_def intro: exI [of _ 4])
  have ab: "\<And>x. x \<in> set (concat cs) \<Longrightarrow> ent_key x \<noteq> key" and
    f: "hashtable_find rg key ?m 0 (ld64 ?m (unat (ht_buckets ?t) + unat idx * 8)) = Some None"
  proof -
    have n: "ht_map cs key = None" using new by (simp add: table_abs_def cs_def)
    then show "\<And>x. x \<in> set (concat cs) \<Longrightarrow> ent_key x \<noteq> key" using ht_map_dom [of cs] by auto
    show "hashtable_find rg key ?m 0 (ld64 ?m (unat (ht_buckets ?t) + unat idx * 8)) = Some None"
      by (cases rule: ht_search [OF h t key(3)]) (use n br(2) [OF i] in \<open>simp_all add: idx_def\<close>)
  qed
  note df = hashtable_put_def ht_header_resolves [OF h t] ht_lock_free [where E = E, OF l] ht_unlock_own [where E = E, OF l]
    br(1) Let_def idx_def [symmetric] br(2) [OF i] offset_ptr_null_def f
  show ?thesis
  proof (cases rule: hashtable_insert_mem [OF hold i key(1,3) args, where N = 0])
    case (1 x q m4)
    have nx: "ld64 m4 (node_pos x + 16) = ld64 ?m (unat (ht_buckets ?t) + unat idx * 8)" using 1(6) by simp
    have x: "ent_ok m4 (ht_val_size ?t) x" "owner_step {} (set (ent_spans x)) ?m m4" using 1(3,5) by simp_all
    define m' where "m' = st64 m4 (unat (ht_buckets ?t) + unat idx * 8) q"
    note lc = link_chain [OF h 1(2) t i x nx 1(7), folded m'_def]
    have "length (ent_key x) < length key" using 1(8) key(2) by simp
    then have xk: "ent_key x \<noteq> key" by auto
    have sub: "set (cs ! unat idx) \<subseteq> set (concat cs)" using nth_mem [OF i] by auto
    have e: "ent_ok m' (ht_val_size ?t) y \<and> ent_key y \<noteq> key" if "y \<in> set (x # cs ! unat idx)" for y
    proof -
      have "y = x \<or> y \<in> set (concat cs)" using that sub by auto
      then show ?thesis using lc(5) [OF that] xk ab by blast
    qed
    have k4: "ht_repr m4 ?p cs" "get_table m4 ?p = ?t" using ht_kept_fresh [OF t x(2)] by simp_all
    obtain k where k: "heap_abs m' ?p = Some k" "72 \<le> k" using ht_reprD(1) [OF k4(1)] lc(2) by auto
    obtain j where j: "heap_abs m' (unat (ht_buckets ?t)) = Some j" "unat (ht_num_buckets ?t) * 8 \<le> j"
      using ht_reprD(2) [OF k4(1)] k4(2) lc(2) by auto
    have g: "hashtable_get E rg off (Some key) True (set_bytes m' w) = Some ((- 1, None), set_bytes m' w)"
      by (rule get_absent [where xs = "x # cs ! unat idx" and vs = "ht_val_size ?t" and k = k and j = j])
         (use lc(1,3,4) l key(3) k j ht_reprD(3) [OF t] e in \<open>simp_all add: idx_def [symmetric]\<close>)
    have "card (set (ent_spans x)) = 3" using distinct_card [OF 1(4)] by (simp add: ent_spans_def)
    moreover have "set (ent_spans x) \<inter> dom (heap_abs ?m) = {}" using private_step_new [OF x(2)] by fastforce
    moreover have "set (ent_spans x) \<subseteq> dom (heap_abs m')" using ent_ok_live [OF x(1)] lc(2) by auto
    ultimately show ?thesis using 1(1) g by (intro exI [of _ 0] exI [of _ m']) (auto simp: df m'_def)
  next
    case (2 m')
    have w': "heap_inv rg (bytes (set_bytes m' w))" "mtx (set_bytes m' w) (unat off + 32) = MFree" using 2(2) l by simp_all
    have s: "owner_step {} {} ?m m'" using 2(3) by simp
    have k: "table_ok (bytes (set_bytes m' w)) (unat off)" "table_abs m' (unat off) key = None"
      using table_kept [OF 2(2) o s] new by (simp_all add: table_step_def)
    show ?thesis using 2(1,4) ht_query_runs(2) [where E = E, OF w'(1) k(1) w'(2) key(3)] k(2)
      by (intro exI [of _ "- 1"] exI [of _ m']) (simp add: df)
  qed
qed

text \<open>A key of nine characters put into a table of keys of eight: the put succeeds, and the key is not found.\<close>

theorem hashtable_long_key_lost_witness:
  "\<exists>w off m'. hashtable_put demo_env demo_region off (Some (replicate 9 120)) (Some [1, 2, 3, 4]) w = Some (0, set_bytes m' w) \<and>
     hashtable_get demo_env demo_region off (Some (replicate 9 120)) True (set_bytes m' w) = Some ((- 1, None), set_bytes m' w)"
proof (rule demo_table)
  fix w :: world and off :: OffsetPtr
  assume d: "heap_inv demo_region (bytes w)" "ready demo_env w" "table_ok (bytes w) (unat off)" "mtx w (unat off + 32) = MFree"
    and m: "table_abs (bytes w) (unat off) = Map.empty"
    and e: "ht_key_size (get_table (bytes w) (unat off)) = 8" "ht_val_size (get_table (bytes w) (unat off)) = 4"
    and sp: "spare 996 (bytes w)"
  have c: "0 \<notin> set (replicate 9 (120 :: u8))" "unat (ht_key_size (get_table (bytes w) (unat off))) < length (replicate 9 (120 :: u8))"
    "length (replicate 9 (120 :: u8)) < 2 ^ 64" "unat (ht_key_size (get_table (bytes w) (unat off))) < 2 ^ 32"
    "length [1, 2, 3, 4 :: u8] = unat (ht_val_size (get_table (bytes w) (unat off)))"
    "unat (ht_val_size (get_table (bytes w) (unat off))) \<le> 2 ^ 62" "table_abs (bytes w) (unat off) (replicate 9 120) = None"
    by (simp_all add: e m)
  let ?cost = "put_cost (ht_val_size (get_table (bytes w) (unat off)))
      (stored_key (ht_key_size (get_table (bytes w) (unat off))) (replicate 9 120))"
  have f: "spare ?cost (bytes w)" by (rule spare_mono [OF sp]) (simp add: e put_cost_def cost_simps)
  from hashtable_long_key_lost [OF d c] obtain rc m' where
    p: "hashtable_put demo_env demo_region off (Some (replicate 9 120)) (Some [1, 2, 3, 4]) w = Some (rc, set_bytes m' w)"
      "spare ?cost (bytes w) \<longrightarrow> rc = 0"
      "hashtable_get demo_env demo_region off (Some (replicate 9 120)) True (set_bytes m' w) = Some ((- 1, None), set_bytes m' w)"
    by (elim exE conjE)
  have "rc = 0" using p(2) f by (rule mp)
  with p(1,3) show ?thesis by blast
qed

end
