(* ===== verification/RingThreads.thy ===== *)
theory RingThreads
  imports RingBufSpec
begin

text \<open>
  The operations of src/containers/ringbuf.c as several threads run them at once, in several processes: a
  thread stands at a point of the C function between two accesses to shared memory, and a step is one such
  access. Threads may die at any point, inside a critical section too; the mutex is robust, so the next
  thread takes it over. Loads and stores of a 64-bit field are single steps and \<open>memcpy\<close> copies byte by byte
  from the front.
\<close>

section \<open>A thread\<close>

text \<open>Where a thread is: not in a call; at \<open>ringbuf_lock\<close>; behind it; in the \<open>memcpy\<close> of push, with the bytes
  to copy, their destination, \<open>next_tail\<close> and how many are copied; in that of pop, with the source, the number
  of bytes to copy and the bytes copied; at \<open>ringbuf_unlock\<close>; in \<open>ringbuf_length\<close>, where \<open>tail >= head\<close> was seen:
  at the unlock, behind it, and with the tail loaded; at the return.\<close>

datatype ring_pc =
    Idle
  | Waiting ring_op
  | Inside ring_op
  | Storing "u8 list" "u8 list" nat u64 nat
  | Fetching nat nat "u8 list"
  | Leaving ring_op ring_res
  | Measured
  | Loading
  | Loaded u64
  | Returned ring_op ring_res

text \<open>What an operation returns when the handle does not resolve.\<close>

fun ring_unresolved :: "ring_op \<Rightarrow> ring_res" where
  "ring_unresolved (RPush x) = RCode (- 1)"
| "ring_unresolved RPop = RPopped (- 1) None"
| "ring_unresolved RLength = RCount 0"
| "ring_unresolved RCapacity = RCount 0"
| "ring_unresolved RIsEmpty = RBool True"
| "ring_unresolved RIsFull = RBool False"

definition header_at :: "ShmRegion \<Rightarrow> OffsetPtr \<Rightarrow> nat" where
  "header_at rg off = roff rg (the (ringbuf_resolve_header rg off))"

text \<open>The code behind the lock up to the \<open>memcpy\<close> or the unlock.\<close>

fun ring_enter :: "ShmRegion \<Rightarrow> RingBufHeader \<Rightarrow> ring_op \<Rightarrow> ring_pc" where
  "ring_enter rg hdr (RPush x) =
     (let next_tail = ringbuf_idx hdr (rb_tail hdr + 1) in
      if next_tail = rb_head hdr then Leaving (RPush x) (RCode (- 1))
      else case ringbuf_data rg hdr of
        None \<Rightarrow> Leaving (RPush x) (RCode (- 1))
      | Some data \<Rightarrow>
          Storing x (take (unat (rb_elem_size hdr)) x) (roff rg (data + rb_tail hdr * rb_elem_size hdr)) next_tail 0)"
| "ring_enter rg hdr RPop =
     (if rb_head hdr = rb_tail hdr then Leaving RPop (RPopped (- 1) None)
      else case ringbuf_data rg hdr of
        None \<Rightarrow> Leaving RPop (RPopped (- 1) None)
      | Some data \<Rightarrow> Fetching (roff rg (data + rb_head hdr * rb_elem_size hdr)) (unat (rb_elem_size hdr)) [])"
| "ring_enter rg hdr RLength =
     (if rb_head hdr \<le> rb_tail hdr then Measured
      else Leaving RLength (RCount (rb_capacity hdr - rb_head hdr + rb_tail hdr)))"
| "ring_enter rg hdr RCapacity = Returned RCapacity (RCount (rb_capacity hdr))"
| "ring_enter rg hdr RIsEmpty = Leaving RIsEmpty (RBool (rb_head hdr = rb_tail hdr))"
| "ring_enter rg hdr RIsFull = Leaving RIsFull (RBool (ringbuf_idx hdr (rb_tail hdr + 1) = rb_head hdr))"

text \<open>One step of a thread on the shared state; \<open>None\<close> when it is not in a call or has to wait.\<close>

fun ring_move :: "env \<Rightarrow> ShmRegion \<Rightarrow> OffsetPtr \<Rightarrow> ring_pc \<Rightarrow> world \<Rightarrow> (ring_pc \<times> world) option" where
  "ring_move E rg off Idle w = None"
| "ring_move E rg off (Waiting x) w =
     (case ringbuf_resolve_header rg off of
        None \<Rightarrow> Some (Returned x (ring_unresolved x), w)
      | Some hp \<Rightarrow>
          if x = RCapacity then Some (ring_enter rg (get_ring (bytes w) (roff rg hp)) x, w)
          else do { w1 \<leftarrow> ringbuf_lock E (roff rg hp) w; Some (Inside x, w1) })"
| "ring_move E rg off (Inside x) w = Some (ring_enter rg (get_ring (bytes w) (header_at rg off)) x, w)"
| "ring_move E rg off (Storing x y a next_tail k) w =
     (if k < length y then Some (Storing x y a next_tail (Suc k), set_bytes ((bytes w)(a + k := y ! k)) w)
      else Some (Leaving (RPush x) (RCode 0), set_bytes (st64 (bytes w) (header_at rg off + RB_tail) next_tail) w))"
| "ring_move E rg off (Fetching a n out) w =
     (if length out < n then Some (Fetching a n (out @ [bytes w (a + length out)]), w)
      else let h = header_at rg off; hdr = get_ring (bytes w) h in
        Some (Leaving RPop (RPopped 0 (Some out)), set_bytes (st64 (bytes w) (h + RB_head) (ringbuf_idx hdr (rb_head hdr + 1))) w))"
| "ring_move E rg off (Leaving x r) w = Some (Returned x r, ringbuf_unlock E (header_at rg off) w)"
| "ring_move E rg off Measured w = Some (Loading, ringbuf_unlock E (header_at rg off) w)"
| "ring_move E rg off Loading w = Some (Loaded (rb_tail (get_ring (bytes w) (header_at rg off))), w)"
| "ring_move E rg off (Loaded tail) w =
     Some (Returned RLength (RCount (tail - rb_head (get_ring (bytes w) (header_at rg off)))), w)"
| "ring_move E rg off (Returned x r) w = None"

section \<open>A thread alone\<close>

inductive ring_alone :: "env \<Rightarrow> ShmRegion \<Rightarrow> OffsetPtr \<Rightarrow> ring_pc \<Rightarrow> world \<Rightarrow> ring_pc \<Rightarrow> world \<Rightarrow> bool"
  for E rg off where
  alone_here: "ring_alone E rg off pc w pc w"
| alone_move: "ring_move E rg off pc w = Some (pc1, w1) \<Longrightarrow> ring_alone E rg off pc1 w1 pc2 w2 \<Longrightarrow> ring_alone E rg off pc w pc2 w2"

inductive_cases alone_returned: "ring_alone E rg off (Returned x r) w pc w'"
inductive_cases alone_waiting: "ring_alone E rg off (Waiting x) w (Returned y r) w'"

lemma alone_one: "ring_move E rg off pc w = Some (pc1, w1) \<Longrightarrow> ring_alone E rg off pc w pc1 w1"
  by (blast intro: ring_alone.intros)

lemma alone_trans: "ring_alone E rg off pc w pc1 w1 \<Longrightarrow> ring_alone E rg off pc1 w1 pc2 w2 \<Longrightarrow> ring_alone E rg off pc w pc2 w2"
  by (induction rule: ring_alone.induct) (blast intro: ring_alone.intros)+

text \<open>A thread that gets to a return got there in only one way.\<close>

lemma alone_deterministic:
  "ring_alone E rg off pc w (Returned x r) w' \<Longrightarrow> ring_alone E rg off pc w (Returned y s) w'' \<Longrightarrow> x = y \<and> r = s \<and> w' = w''"
proof (induction pc w "Returned x r" w' rule: ring_alone.induct)
  case (alone_here w)
  then show ?case by (auto elim: alone_returned)
next
  case (alone_move pc w pc1 w1 w2)
  from alone_move.prems alone_move.hyps(1) have "ring_alone E rg off pc1 w1 (Returned y s) w''"
    by (cases rule: ring_alone.cases) auto
  then show ?case by (rule alone_move.hyps(3))
qed

text \<open>The copies.\<close>

lemma wr_snoc: "wr m a (ys @ [y]) = (wr m a ys)(a + length ys := y)"
  by (auto simp: wr_def nth_append fun_eq_iff)

lemma alone_storing:
  assumes "k \<le> length y"
  shows "ring_alone E rg off (Storing x y a nt k) (set_bytes (wr m a (take k y)) w) (Storing x y a nt (length y)) (set_bytes (wr m a y) w)"
  using assms
proof (induction "length y - k" arbitrary: k)
  case 0
  then show ?case by (simp add: alone_here)
next
  case (Suc j)
  then have k: "k < length y" by simp
  have "ring_move E rg off (Storing x y a nt k) (set_bytes (wr m a (take k y)) w)
      = Some (Storing x y a nt (Suc k), set_bytes (wr m a (take (Suc k) y)) w)"
    using k by (simp add: take_Suc_conv_app_nth wr_snoc min_def)
  moreover have "j = length y - Suc k" "Suc k \<le> length y" using Suc.hyps(2) k by simp_all
  ultimately show ?case using Suc.hyps(1) [of "Suc k"] by (blast intro: alone_move)
qed

lemma rd_snoc: "rd m a (Suc n) = rd m a n @ [m (a + n)]"
  by (simp add: rd_def)

lemma alone_fetching:
  assumes "k \<le> n"
  shows "ring_alone E rg off (Fetching a n (rd (bytes w) a k)) w (Fetching a n (rd (bytes w) a n)) w"
  using assms
proof (induction "n - k" arbitrary: k)
  case 0
  then show ?case by (simp add: alone_here)
next
  case (Suc j)
  then have k: "k < n" by simp
  then have "ring_move E rg off (Fetching a n (rd (bytes w) a k)) w = Some (Fetching a n (rd (bytes w) a (Suc k)), w)"
    by (simp add: rd_snoc)
  moreover have "j = n - Suc k" "Suc k \<le> n" using Suc.hyps(2) k by simp_all
  ultimately show ?case using Suc.hyps(1) [of "Suc k"] by (blast intro: alone_move)
qed

text \<open>What an operation does behind the lock, when nobody interferes.\<close>

fun ring_body :: "env \<Rightarrow> ShmRegion \<Rightarrow> nat \<Rightarrow> RingBufHeader \<Rightarrow> ring_op \<Rightarrow> world \<Rightarrow> ring_res \<times> world" where
  "ring_body E rg h hdr (RPush x) w =
     (case ring_enter rg hdr (RPush x) of
        Storing _ y a nt _ \<Rightarrow> (RCode 0, ringbuf_unlock E h (set_bytes (st64 (wr (bytes w) a y) (h + RB_tail) nt) w))
      | _ \<Rightarrow> (RCode (- 1), ringbuf_unlock E h w))"
| "ring_body E rg h hdr RPop w =
     (case ring_enter rg hdr RPop of
        Fetching a n _ \<Rightarrow> (RPopped 0 (Some (rd (bytes w) a n)),
          ringbuf_unlock E h (set_bytes (st64 (bytes w) (h + RB_head) (ringbuf_idx hdr (rb_head hdr + 1))) w))
      | _ \<Rightarrow> (RPopped (- 1) None, ringbuf_unlock E h w))"
| "ring_body E rg h hdr x w =
     (case ring_enter rg hdr x of
        Leaving _ r \<Rightarrow> (r, ringbuf_unlock E h w)
      | _ \<Rightarrow> (RCount (rb_tail (get_ring (bytes (ringbuf_unlock E h w)) h) - rb_head (get_ring (bytes (ringbuf_unlock E h w)) h)),
              ringbuf_unlock E h w))"

lemma ring_step_body:
  assumes "ringbuf_resolve_header rg off = Some hp" and "x \<noteq> RCapacity"
  shows "ring_step E rg off x w = map_option (\<lambda>w1. ring_body E rg (roff rg hp) (get_ring (bytes w1) (roff rg hp)) x w1)
     (ringbuf_lock E (roff rg hp) w)"
  using assms
  by (cases "ringbuf_lock E (roff rg hp) w"; cases x)
    (auto simp: ringbuf_push_def ringbuf_pop_def ringbuf_length_def ringbuf_is_empty_def ringbuf_is_full_def Let_def
      split: option.splits)

lemma alone_inside:
  assumes h: "header_at rg off = h" and x: "x \<noteq> RCapacity"
    and b: "ring_body E rg h (get_ring (bytes w) h) x w = (r, w')"
  shows "ring_alone E rg off (Inside x) w (Returned x r) w'"
proof -
  let ?hdr = "get_ring (bytes w) h"
  have m1: "ring_move E rg off (Inside x) w = Some (ring_enter rg ?hdr x, w)" by (simp add: h)
  have m2: "ring_alone E rg off (Leaving y s) v (Returned y s) (ringbuf_unlock E h v)" for y s v
    by (rule alone_one) (simp add: h)
  have "ring_alone E rg off (ring_enter rg ?hdr x) w (Returned x r) w'"
  proof (cases "ring_enter rg ?hdr x")
    case (Storing x' y a nt k)
    then obtain z where z: "x = RPush z" "x' = z" "k = 0"
      by (cases x) (auto simp: Let_def split: if_splits option.splits)
    have "ring_alone E rg off (Storing x' y a nt 0) w (Storing x' y a nt (length y)) (set_bytes (wr (bytes w) a y) w)"
      using alone_storing [of 0 y E rg off x' a nt "bytes w" w] by simp
    moreover have "ring_move E rg off (Storing x' y a nt (length y)) (set_bytes (wr (bytes w) a y) w)
        = Some (Leaving x (RCode 0), set_bytes (st64 (wr (bytes w) a y) (h + RB_tail) nt) w)" by (simp add: h z)
    ultimately have "ring_alone E rg off (Storing x' y a nt 0) w (Leaving x (RCode 0)) (set_bytes (st64 (wr (bytes w) a y) (h + RB_tail) nt) w)"
      by (blast intro: alone_trans alone_one)
    then show ?thesis using m2 b z Storing by (auto intro: alone_trans simp del: ring_enter.simps)
  next
    case (Fetching a n out)
    then have z: "x = RPop" "out = []" by (cases x; auto simp: Let_def split: if_splits option.splits)+
    have "ring_alone E rg off (Fetching a n []) w (Fetching a n (rd (bytes w) a n)) w"
      using alone_fetching [of 0 n E rg off a w] by simp
    moreover have "ring_move E rg off (Fetching a n (rd (bytes w) a n)) w
        = Some (Leaving x (RPopped 0 (Some (rd (bytes w) a n))),
             set_bytes (st64 (bytes w) (h + RB_head) (ringbuf_idx ?hdr (rb_head ?hdr + 1))) w)" by (simp add: h z Let_def)
    ultimately have "ring_alone E rg off (Fetching a n []) w (Leaving x (RPopped 0 (Some (rd (bytes w) a n))))
        (set_bytes (st64 (bytes w) (h + RB_head) (ringbuf_idx ?hdr (rb_head ?hdr + 1))) w)"
      by (blast intro: alone_trans alone_one)
    then show ?thesis using m2 b z Fetching by (auto intro: alone_trans simp del: ring_enter.simps)
  next
    case Measured
    then have z: "x = RLength" by (cases x) (auto simp: Let_def split: if_splits option.splits)
    let ?w = "ringbuf_unlock E h w"
    have "ring_move E rg off Measured w = Some (Loading, ?w)"
      "ring_move E rg off Loading ?w = Some (Loaded (rb_tail (get_ring (bytes ?w) h)), ?w)"
      "ring_move E rg off (Loaded (rb_tail (get_ring (bytes ?w) h))) ?w = Some (Returned RLength
         (RCount (rb_tail (get_ring (bytes ?w) h) - rb_head (get_ring (bytes ?w) h))), ?w)" by (simp_all add: h)
    then have "ring_alone E rg off Measured w (Returned RLength
         (RCount (rb_tail (get_ring (bytes ?w) h) - rb_head (get_ring (bytes ?w) h)))) ?w"
      by (blast intro: alone_trans alone_one)
    then show ?thesis using b z Measured by (auto simp del: ring_enter.simps)
  next
    case (Leaving y s)
    then have "y = x" by (cases x) (auto simp: Let_def split: if_splits option.splits)
    moreover have "r = s \<and> w' = ringbuf_unlock E h w"
      using b Leaving by (cases x) (auto simp: Let_def split: if_splits option.splits)
    ultimately show ?thesis using m2 Leaving by simp
  qed (use x in \<open>cases x; auto simp: Let_def split: if_splits option.splits\<close>)+
  with m1 show ?thesis by (rule alone_move)
qed

lemma ring_step_alone:
  assumes s: "ring_step E rg off x w = Some (s, w')"
  shows "ring_alone E rg off (Waiting x) w (Returned x s) w'"
proof (cases "ringbuf_resolve_header rg off")
  case None
  then have "ring_unresolved x = s" "w' = w"
    using s by (cases x; simp add: ringbuf_push_def ringbuf_pop_def ringbuf_length_def ringbuf_capacity_def ringbuf_is_empty_def
        ringbuf_is_full_def)+
  then show ?thesis using None by (intro alone_one) simp
next
  case (Some hp)
  show ?thesis
  proof (cases "x = RCapacity")
    case True
    then show ?thesis using s Some by (intro alone_one) (auto simp: ringbuf_capacity_def)
  next
    case False
    then obtain w1 where w1: "ringbuf_lock E (roff rg hp) w = Some w1"
        "ring_body E rg (roff rg hp) (get_ring (bytes w1) (roff rg hp)) x w1 = (s, w')"
      using s ring_step_body [OF Some, of x E w] by auto
    have "header_at rg off = roff rg hp" using Some by (simp add: header_at_def)
    from alone_inside [OF this False w1(2)] show ?thesis
      using w1(1) Some False by (intro alone_move [of E rg off "Waiting x"]) simp_all
  qed
qed

text \<open>The thread model is the code's: the steps of a thread that runs alone from the call of an operation
  to its return give the result and the state of the operation's function, and reach a return exactly when
  the function returns.\<close>

theorem ring_threads_adequate:
  "ring_alone E rg off (Waiting x) w (Returned x r) w' \<longleftrightarrow> ring_step E rg off x w = Some (r, w')"
proof -
  show ?thesis
  proof
    assume a: "ring_alone E rg off (Waiting x) w (Returned x r) w'"
    then obtain pc1 w1 where m: "ring_move E rg off (Waiting x) w = Some (pc1, w1)" by (auto elim: alone_waiting)
    have "ring_step E rg off x w \<noteq> None"
    proof (cases "ringbuf_resolve_header rg off")
      case None
      then show ?thesis
        by (cases x; simp add: ringbuf_push_def ringbuf_pop_def ringbuf_length_def ringbuf_is_empty_def ringbuf_is_full_def)
    next
      case (Some hp)
      then show ?thesis using m ring_step_body [OF Some, of x E w] by (cases "x = RCapacity") (auto simp: bind_eq_Some_conv)
    qed
    then obtain s w'' where s: "ring_step E rg off x w = Some (s, w'')" by auto
    with alone_deterministic [OF a ring_step_alone [OF this]] show "ring_step E rg off x w = Some (r, w')" by simp
  qed (rule ring_step_alone)
qed

end
