(* ===== verification/RingSystem.thy ===== *)
theory RingSystem
  imports RingThreads
begin

text \<open>
  One ring buffer shared by any number of threads in several processes. Threads call operations, take
  steps in any order and may die anywhere; the rest of the program changes what is not the buffer's. In
  every state they reach the buffer is the queue of the operations that took effect, in the order in which
  they did.
\<close>

section \<open>The system\<close>

text \<open>The shared state, where each thread is, the threads that died, what each thread got back from its calls
  and, for the statements only, the operations in the order in which they took effect.\<close>

record ring_sys =
  shared :: world
  pcs :: "nat \<Rightarrow> ring_pc"
  dead :: "nat set"
  results :: "nat \<Rightarrow> (ring_op \<times> ring_res) list"
  history :: "(nat \<times> ring_op \<times> ring_res) list"

definition ring_start :: "world \<Rightarrow> ring_sys" where
  "ring_start w = \<lparr>shared = w, pcs = (\<lambda>_. Idle), dead = {}, results = (\<lambda>_. []), history = []\<rparr>"

text \<open>An operation has taken effect when its result is fixed. \<open>ringbuf_length\<close> is left out, see theory RingLength.\<close>

fun effective :: "ring_pc \<Rightarrow> (ring_op \<times> ring_res) list" where
  "effective (Leaving x r) = (if x = RLength then [] else [(x, r)])"
| "effective (Returned x r) = (if x = RLength then [] else [(x, r)])"
| "effective _ = []"

definition takes_effect :: "ring_pc \<Rightarrow> ring_pc \<Rightarrow> (ring_op \<times> ring_res) list" where
  "takes_effect pc pc' = (if effective pc = [] then effective pc' else [])"

text \<open>When a thread dies, the kernel marks the robust mutexes it owned.\<close>

definition owner_dies :: "nat \<Rightarrow> world \<Rightarrow> world" where
  "owner_dies t w = w\<lparr>mtx := (\<lambda>a. case mtx w a of MHeld u i \<Rightarrow> (if u = t then MDead else MHeld u i) | s \<Rightarrow> s)\<rparr>"

text \<open>What the rest of the program may change.\<close>

definition ring_outside :: "ShmRegion \<Rightarrow> nat \<Rightarrow> world \<Rightarrow> world \<Rightarrow> bool" where
  "ring_outside rg p w w' \<longleftrightarrow>
     (let d = unat (rb_data_offset (get_ring (bytes w) p)) in
      heap_inv rg (bytes w') \<and> heap_abs (bytes w') p = heap_abs (bytes w) p \<and> heap_abs (bytes w') d = heap_abs (bytes w) d \<and>
      (\<forall>x \<in> ring_bytes (bytes w) p. bytes w' x = bytes w x) \<and> mtx w' (p + 40) = mtx w (p + 40))"

inductive ring_sys_step :: "env \<Rightarrow> (nat \<Rightarrow> ShmRegion) \<Rightarrow> ShmRegion \<Rightarrow> OffsetPtr \<Rightarrow> ring_sys \<Rightarrow> ring_sys \<Rightarrow> bool"
  for E RG rg off where
  sys_call: "t \<notin> dead S \<Longrightarrow> pcs S t = Idle \<Longrightarrow> ring_op_ok (unat (rb_elem_size (get_ring (bytes (shared S)) (unat off)))) x \<Longrightarrow>
    ring_sys_step E RG rg off S (S\<lparr>pcs := (pcs S)(t := Waiting x)\<rparr>)"
| sys_move: "t \<notin> dead S \<Longrightarrow> ring_move (E\<lparr>env_tid := t\<rparr>) (RG t) off (pcs S t) (shared S) = Some (pc, w) \<Longrightarrow>
    ring_sys_step E RG rg off S (S\<lparr>shared := w, pcs := (pcs S)(t := pc), history := history S @ map (Pair t) (takes_effect (pcs S t) pc)\<rparr>)"
| sys_return: "t \<notin> dead S \<Longrightarrow> pcs S t = Returned x r \<Longrightarrow>
    ring_sys_step E RG rg off S (S\<lparr>pcs := (pcs S)(t := Idle), results := (results S)(t := results S t @ [(x, r)])\<rparr>)"
| sys_die: "t \<notin> dead S \<Longrightarrow> ring_sys_step E RG rg off S (S\<lparr>dead := insert t (dead S), shared := owner_dies t (shared S)\<rparr>)"
| sys_outside: "ring_outside rg (unat off) (shared S) w \<Longrightarrow> ring_sys_step E RG rg off S (S\<lparr>shared := w\<rparr>)"

inductive ring_sys_run :: "env \<Rightarrow> (nat \<Rightarrow> ShmRegion) \<Rightarrow> ShmRegion \<Rightarrow> OffsetPtr \<Rightarrow> ring_sys \<Rightarrow> ring_sys \<Rightarrow> bool"
  for E RG rg off S where
  run_here: "ring_sys_run E RG rg off S S"
| run_step: "ring_sys_run E RG rg off S S1 \<Longrightarrow> ring_sys_step E RG rg off S1 S2 \<Longrightarrow> ring_sys_run E RG rg off S S2"

section \<open>Steps inside the critical section\<close>

text \<open>The points at which a thread owns the mutex.\<close>

fun locked :: "ring_pc \<Rightarrow> bool" where
  "locked (Inside x) \<longleftrightarrow> True"
| "locked (Storing x y a nt k) \<longleftrightarrow> True"
| "locked (Fetching a n out) \<longleftrightarrow> True"
| "locked (Leaving x r) \<longleftrightarrow> True"
| "locked Measured \<longleftrightarrow> True"
| "locked _ \<longleftrightarrow> False"

text \<open>What a thread knows about the buffer at its point: the slot being written is the free one.\<close>

fun thread_ok :: "nat \<Rightarrow> mem \<Rightarrow> nat \<Rightarrow> ring_pc \<Rightarrow> bool" where
  "thread_ok e m p (Waiting x) \<longleftrightarrow> ring_op_ok e x"
| "thread_ok e m p (Inside x) \<longleftrightarrow> ring_op_ok e x \<and> x \<noteq> RCapacity"
| "thread_ok e m p (Storing x y a nt k) \<longleftrightarrow>
     (let r = get_ring m p in y = x \<and> length x = e \<and> a = unat (rb_data_offset r) + unat (rb_tail r) * e \<and>
        nt = ringbuf_idx r (rb_tail r + 1) \<and> nt \<noteq> rb_head r \<and> k \<le> e \<and> (\<forall>i < k. m (a + i) = x ! i))"
| "thread_ok e m p (Fetching a n out) \<longleftrightarrow>
     (let r = get_ring m p in rb_head r \<noteq> rb_tail r \<and> a = unat (rb_data_offset r) + unat (rb_head r) * e \<and> n = e \<and>
        length out \<le> n \<and> out = rd m a (length out))"
| "thread_ok e m p _ \<longleftrightarrow> True"

lemma thread_ok_unlocked: "\<not> locked pc \<Longrightarrow> thread_ok e m p pc \<longleftrightarrow> thread_ok e m' p pc"
  by (cases pc) simp_all

text \<open>Bytes of the free slot are not part of the queue.\<close>

lemma ring_store_byte:
  assumes h: "heap_inv rg m" and o: "ring_ok m p" and r: "r = get_ring m p" and k: "k < unat (rb_elem_size r)"
    and m': "m' = m(unat (rb_data_offset r) + unat (rb_tail r) * unat (rb_elem_size r) + k := v)"
  shows "heap_inv rg m'" and "ring_ok m' p" and "ring_queue m' p = ring_queue m p" and "ring_same p m m'" and "get_ring m' p = r"
proof -
  let ?c = "unat (rb_capacity r)" and ?t = "unat (rb_tail r)" and ?e = "unat (rb_elem_size r)" and ?d = "unat (rb_data_offset r)"
  note d = ring_okD [OF o, folded r] and ap = ring_apart [OF h o, folded r]
  note rc = ring_count_facts [OF d(3,4)]
  have w: "m' = wr m (?d + ?t * ?e + k) [v]" by (auto simp: m' wr_def)
  show g: "get_ring m' p = r" using ap(1) [OF d(4)] k by (auto simp: w get_ring_def r)
  have fr: "m' y = m y" if "y \<notin> ring_bytes m p" for y using that ap(2) [OF d(4), of y] k by (auto simp: m')
  note rw = ring_write [OF h o fr]
  show "heap_inv rg m'" using rw(1) .
  show "ring_same p m m'" using rw(2) g fr by (simp add: ring_same_def r)
  show "ring_ok m' p" using o rw(2) by (auto simp: ring_ok_def Let_def g r [symmetric])
  have "ring_slot m' r i = ring_slot m r i" if "i \<noteq> ?t" for i
    using ring_slots_apart [OF that, of ?d ?e] k unfolding ring_slot_def w by (intro rd_wr_other) auto
  then show "ring_queue m' p = ring_queue m p" using rc(4) by (auto simp: ring_queue_def Let_def g r [symmetric])
qed

text \<open>Taking effect: nothing, or what the queue does.\<close>

definition effect_ok :: "nat \<Rightarrow> u8 list list \<Rightarrow> (ring_op \<times> ring_res) list \<Rightarrow> u8 list list \<Rightarrow> bool" where
  "effect_ok c q l q' \<longleftrightarrow> run_spec (queue_spec c) (map fst l) q = (map snd l, q')"

lemma effect_ok_simps [simp]:
  "effect_ok c q [] q' \<longleftrightarrow> q' = q" "effect_ok c q [(x, r)] q' \<longleftrightarrow> queue_spec c x q = (r, q')"
  by (auto simp: effect_ok_def split: prod.splits)

lemma effect_ok_append:
  assumes "effect_ok c q l1 q1" and "effect_ok c q1 l2 q2"
  shows "effect_ok c q (l1 @ l2) q2"
proof -
  have "run_spec (queue_spec c) (map fst l1 @ xs) q = (case run_spec (queue_spec c) xs q1 of (rs, b) \<Rightarrow> (map snd l1 @ rs, b))" for xs
    using assms(1)
  proof (induction l1 arbitrary: q)
    case (Cons z l1)
    then show ?case by (cases z) (auto simp: effect_ok_def split: prod.splits)
  qed (simp add: effect_ok_def)
  then show ?thesis using assms(2) by (simp add: effect_ok_def)
qed

text \<open>Behind the lock: what the operations without copying do at once, and where the copies start.\<close>

lemma ring_enter_ok:
  fixes off :: OffsetPtr
  assumes h: "heap_inv rg m" and o: "ring_ok m (unat off)" and r: "r = get_ring m (unat off)"
    and x: "ring_op_ok (unat (rb_elem_size r)) x" "x \<noteq> RCapacity"
  defines "pc \<equiv> ring_enter rg r x" and "q \<equiv> ring_queue m (unat off)"
  shows "locked pc" and "thread_ok (unat (rb_elem_size r)) m (unat off) pc"
    and "effect_ok (unat (rb_capacity r)) q (effective pc) q"
proof -
  note d = ring_okD [OF o, folded r] and rs = ring_resolves [OF h o, folded r]
  note rc = ring_count_facts [OF d(3,4)] and nx = ring_idx_next [OF d(4)]
  have len: "length q = ring_count (unat (rb_head r)) (unat (rb_tail r)) (unat (rb_capacity r))"
    by (simp add: q_def ring_queue_length r)
  have e: "q = [] \<longleftrightarrow> rb_head r = rb_tail r" using rc(2) len by (metis length_0_conv word_eq_iff_unat)
  have f: "Suc (length q) = unat (rb_capacity r) \<longleftrightarrow> ringbuf_idx r (rb_tail r + 1) = rb_head r"
    using rc(5) nx len by (simp add: word_eq_iff_unat)
  have l: "length q < unat (rb_capacity r)" using len rc(1) by simp
  have "locked pc \<and> thread_ok (unat (rb_elem_size r)) m (unat off) pc \<and> effect_ok (unat (rb_capacity r)) q (effective pc) q"
  proof (cases x)
    case (RPush y)
    then show ?thesis using x f l d(4) rs(2) rs(3) [OF d(4)] by (auto simp: pc_def Let_def r [symmetric])
  next
    case RPop
    then show ?thesis using e rs(2) rs(3) [OF d(3)] by (auto simp: pc_def Let_def r [symmetric])
  qed (use x e f in \<open>auto simp: pc_def\<close>)
  then show "locked pc" "thread_ok (unat (rb_elem_size r)) m (unat off) pc" "effect_ok (unat (rb_capacity r)) q (effective pc) q"
    by blast+
qed

text \<open>A step of the thread that owns the mutex, up to the unlock.\<close>

lemma ring_locked_move:
  assumes h: "heap_inv rg (bytes w)" and o: "ring_ok (bytes w) (unat off)" and r: "r = get_ring (bytes w) (unat off)"
    and t: "thread_ok (unat (rb_elem_size r)) (bytes w) (unat off) pc" and l: "locked pc" "\<nexists>x s. pc = Leaving x s" "pc \<noteq> Measured"
    and m: "ring_move E rg off pc w = Some (pc', w')"
  shows "\<exists>m'. w' = set_bytes m' w \<and> heap_inv rg m' \<and> ring_ok m' (unat off) \<and> ring_same (unat off) (bytes w) m' \<and>
     locked pc' \<and> thread_ok (unat (rb_elem_size r)) m' (unat off) pc' \<and>
     effect_ok (unat (rb_capacity r)) (ring_queue (bytes w) (unat off)) (takes_effect pc pc') (ring_queue m' (unat off))"
proof -
  let ?m = "bytes w" and ?p = "unat off" and ?e = "unat (rb_elem_size r)"
  note d = ring_okD [OF o, folded r] and rs = ring_resolves [OF h o, folded r]
  have p: "header_at rg off = ?p" using rs(1) by (simp add: header_at_def)
  consider (inside) x where "pc = Inside x" | (storing) x y a nt k where "pc = Storing x y a nt k" | (fetching) a n out where "pc = Fetching a n out"
    using l by (cases pc) auto
  then show ?thesis
  proof cases
    case inside
    then have m': "pc' = ring_enter rg r x" "w' = w" using m by (auto simp: p r)
    have x: "ring_op_ok ?e x" "x \<noteq> RCapacity" using t inside by simp_all
    note en = ring_enter_ok [OF h o r x]
    show ?thesis using en inside m' h o by (intro exI [of _ ?m]) (simp add: takes_effect_def)
  next
    case storing
    then have t': "y = x" "length x = ?e" "a = unat (rb_data_offset r) + unat (rb_tail r) * ?e" "nt = ringbuf_idx r (rb_tail r + 1)"
        "nt \<noteq> rb_head r" "k \<le> ?e" "\<forall>i < k. ?m (a + i) = x ! i"
      using t unfolding r by (auto simp: Let_def)
    show ?thesis
    proof (cases "k < ?e")
      case True
      then have m': "pc' = Storing x y a nt (Suc k)" "w' = set_bytes (?m(a + k := x ! k)) w" using m storing t'(1,2) by simp_all
      note sb = ring_store_byte [OF h o r True refl, of "x ! k", folded t'(3)]
      have "thread_ok ?e (?m(a + k := x ! k)) ?p pc'" using t' True sb(5) by (auto simp: m'(1) Let_def less_Suc_eq)
      then show ?thesis using sb m' storing by (intro exI [of _ "?m(a + k := x ! k)"]) (simp add: takes_effect_def del: thread_ok.simps)
    next
      case False
      let ?m' = "st64 ?m (?p + 16) nt"
      have m': "pc' = Leaving (RPush x) (RCode 0)" "w' = set_bytes ?m' w" using m storing t'(1,2) False by (simp_all add: p)
      have "k = ?e" using False t'(6) by simp
      then have "rd ?m a ?e = x" using t'(2,7) by (intro nth_equalityI) (simp_all add: rd_def)
      then have "wr ?m a x = ?m" by (metis wr_rd_same)
      then have "?m' = st64 (wr ?m a x) (?p + 16) nt" by simp
      note st = ring_push_state [OF h o r t'(2) _ _ this [unfolded t'(3)]]
      have nt: "unat nt = Suc (unat (rb_tail r)) mod unat (rb_capacity r)" "unat nt \<noteq> unat (rb_head r)"
        using t'(4,5) ring_idx_next [OF d(4)] by (simp_all add: word_eq_iff_unat)
      have "Suc (length (ring_queue ?m ?p)) < unat (rb_capacity r)"
        using ring_count_facts(1,5) [OF d(3,4)] nt by (simp add: ring_queue_length r)
      then show ?thesis using st [OF nt] m' storing by (intro exI [of _ ?m']) (simp add: takes_effect_def)
    qed
  next
    case fetching
    then have t': "rb_head r \<noteq> rb_tail r" "a = unat (rb_data_offset r) + unat (rb_head r) * ?e" "n = ?e" "length out \<le> n"
        "out = rd ?m a (length out)" using t unfolding r by (auto simp: Let_def)
    show ?thesis
    proof (cases "length out < n")
      case True
      then have m': "pc' = Fetching a n (out @ [?m (a + length out)])" "w' = w" using m fetching by auto
      have "out @ [?m (a + length out)] = rd ?m a (length (out @ [?m (a + length out)]))" using t'(5) by (simp add: rd_snoc)
      then have "thread_ok ?e ?m ?p pc'" using t'(1-3) True by (simp add: m'(1) Let_def r)
      then show ?thesis using h o m' fetching by (intro exI [of _ ?m]) (simp add: takes_effect_def del: thread_ok.simps)
    next
      case False
      let ?m' = "st64 ?m (?p + 8) (ringbuf_idx r (rb_head r + 1))"
      have m': "pc' = Leaving RPop (RPopped 0 (Some out))" "w' = set_bytes ?m' w" using m fetching False by (simp_all add: p r Let_def)
      have ne: "unat (rb_head r) \<noteq> unat (rb_tail r)" using t'(1) by (simp add: word_eq_iff_unat)
      note st = ring_pop_state [OF h o r ring_idx_next [OF d(3)] ne refl]
      have "out = ring_slot ?m r (unat (rb_head r))" using False t'(2-5) by (simp add: ring_slot_def)
      then show ?thesis using st m' fetching by (intro exI [of _ ?m']) (simp add: takes_effect_def)
    qed
  qed
qed

end
