(* ===== verification/RingLinear.thy ===== *)
theory RingLinear
  imports RingSystem Store
begin

text \<open>
  What holds of a shared ring buffer in every state its threads reach: at most one live thread is between
  lock and unlock, the buffer is the queue of the operations that took effect, and each thread got exactly
  the results of its own. No wait is for ever.
\<close>

section \<open>The invariant\<close>

definition lock_agrees :: "nat \<Rightarrow> ring_sys \<Rightarrow> bool" where
  "lock_agrees a S \<longleftrightarrow>
     (case mtx (shared S) a of
        MHeld u i \<Rightarrow> \<not> i \<and> u \<notin> dead S \<and> (\<forall>t. t \<notin> dead S \<longrightarrow> (locked (pcs S t) \<longleftrightarrow> t = u))
      | MFree \<Rightarrow> (\<forall>t. t \<notin> dead S \<longrightarrow> \<not> locked (pcs S t))
      | MDead \<Rightarrow> (\<forall>t. t \<notin> dead S \<longrightarrow> \<not> locked (pcs S t))
      | _ \<Rightarrow> False)"

definition own :: "nat \<Rightarrow> (nat \<times> ring_op \<times> ring_res) list \<Rightarrow> (ring_op \<times> ring_res) list" where
  "own t H = map snd (filter (\<lambda>(u, _). u = t) H)"

text \<open>The results of a thread's calls other than \<open>ringbuf_length\<close>.\<close>

definition answered :: "ring_sys \<Rightarrow> nat \<Rightarrow> (ring_op \<times> ring_res) list" where
  "answered S t = filter (\<lambda>(x, r). x \<noteq> RLength) (results S t)"

definition same_shape :: "nat \<Rightarrow> mem \<Rightarrow> mem \<Rightarrow> bool" where
  "same_shape p m m' \<longleftrightarrow>
     rb_capacity (get_ring m' p) = rb_capacity (get_ring m p) \<and> rb_elem_size (get_ring m' p) = rb_elem_size (get_ring m p) \<and>
     rb_data_offset (get_ring m' p) = rb_data_offset (get_ring m p)"

definition ring_sys_inv :: "ShmRegion \<Rightarrow> OffsetPtr \<Rightarrow> world \<Rightarrow> ring_sys \<Rightarrow> bool" where
  "ring_sys_inv rg off w0 S \<longleftrightarrow>
     (let p = unat off; r = get_ring (bytes w0) p; m = bytes (shared S) in
      heap_inv rg m \<and> ring_ok m p \<and> same_shape p (bytes w0) m \<and> lock_agrees (p + 40) S \<and>
      (\<forall>t. t \<notin> dead S \<longrightarrow> thread_ok (unat (rb_elem_size r)) m p (pcs S t)) \<and>
      effect_ok (unat (rb_capacity r)) (ring_queue (bytes w0) p) (map snd (history S)) (ring_queue m p) \<and>
      (\<forall>t. own t (history S) = answered S t @ effective (pcs S t)))"

lemma ring_sys_invD:
  assumes "ring_sys_inv rg off w0 S"
  shows "heap_inv rg (bytes (shared S))" "ring_ok (bytes (shared S)) (unat off)"
    "same_shape (unat off) (bytes w0) (bytes (shared S))" "lock_agrees (unat off + 40) S"
    "t \<notin> dead S \<Longrightarrow> thread_ok (unat (rb_elem_size (get_ring (bytes w0) (unat off)))) (bytes (shared S)) (unat off) (pcs S t)"
    "effect_ok (unat (rb_capacity (get_ring (bytes w0) (unat off)))) (ring_queue (bytes w0) (unat off)) (map snd (history S))
       (ring_queue (bytes (shared S)) (unat off))"
    "own t (history S) = answered S t @ effective (pcs S t)"
  using assms by (simp_all add: ring_sys_inv_def Let_def)

lemma ring_sys_inv_start:
  assumes "heap_inv rg (bytes w)" and "ring_ok (bytes w) (unat off)" and "mtx w (unat off + 40) = MFree"
  shows "ring_sys_inv rg off w (ring_start w)"
  using assms by (simp add: ring_sys_inv_def ring_start_def same_shape_def lock_agrees_def own_def answered_def Let_def)

section \<open>Steps\<close>

lemma run_trans: "ring_sys_run E RG rg off S1 S2 \<Longrightarrow> ring_sys_run E RG rg off S S1 \<Longrightarrow> ring_sys_run E RG rg off S S2"
  by (induction rule: ring_sys_run.induct) (blast intro: run_step)+

lemmas run_from = run_trans [OF _ run_step [OF run_here]]

lemma effective_move: "ring_move E rg off pc w = Some (pc', w') \<Longrightarrow> effective pc' = effective pc @ takes_effect pc pc'"
  by (cases pc) (auto simp: takes_effect_def split: if_splits)

lemma own_move: "own t (H @ map (Pair u) l) = own t H @ (if t = u then l else [])"
  by (induction l) (auto simp: own_def)

text \<open>How a step of one thread changes the mutex.\<close>

definition lock_moves :: "nat \<Rightarrow> ring_pc \<Rightarrow> ring_pc \<Rightarrow> mutex_state \<Rightarrow> mutex_state \<Rightarrow> bool" where
  "lock_moves t pc pc' s s' \<longleftrightarrow>
     locked pc' \<and> s' = MHeld t False \<and> (locked pc \<or> s = MFree \<or> s = MDead) \<or>
     locked pc \<and> \<not> locked pc' \<and> s' = MFree \<or>
     \<not> locked pc \<and> \<not> locked pc' \<and> s' = s"

lemma lock_agrees_move:
  assumes a: "lock_agrees a S" and t: "t \<notin> dead S" and l: "lock_moves t (pcs S t) pc (mtx (shared S) a) (mtx w a)"
  shows "lock_agrees a (S\<lparr>shared := w, pcs := (pcs S)(t := pc), history := H\<rparr>)"
  using assms by (cases "mtx (shared S) a") (auto simp: lock_agrees_def lock_moves_def)

lemma ring_move_facts:
  assumes i: "ring_sys_inv rg off w0 S" and t: "t \<notin> dead S" and rg': "region_ok rg'" "rg_size rg' = rg_size rg"
    and E: "env_tid E = t" "def_ROBUST E" and m: "ring_move E rg' off (pcs S t) (shared S) = Some (pc', w')"
  defines "w \<equiv> shared S" and "p \<equiv> unat off" and "r \<equiv> get_ring (bytes w0) (unat off)" and "pc \<equiv> pcs S t"
  shows "heap_inv rg (bytes w') \<and> ring_ok (bytes w') p \<and> ring_same p (bytes w) (bytes w') \<and>
     thread_ok (unat (rb_elem_size r)) (bytes w') p pc' \<and> (locked pc \<or> bytes w' = bytes w) \<and>
     effect_ok (unat (rb_capacity r)) (ring_queue (bytes w) p) (takes_effect pc pc') (ring_queue (bytes w') p) \<and>
     lock_moves t pc pc' (mtx w (p + 40)) (mtx w' (p + 40))"
proof -
  note d = ring_sys_invD [OF i, folded w_def p_def r_def]
  have h': "heap_inv rg' (bytes w)" by (rule heap_inv_relocate [OF d(1) rg'])
  have sh: "rb_elem_size (get_ring (bytes w) p) = rb_elem_size r" "rb_capacity (get_ring (bytes w) p) = rb_capacity r"
    using d(3) by (simp_all add: same_shape_def r_def p_def)
  have rs: "ringbuf_resolve_header rg' off = Some (rg_base rg' + off)" "header_at rg' off = p"
    using ring_resolves(1) [OF h'] d(2) by (simp_all add: p_def header_at_def)
  have held: "mtx w (p + 40) = MHeld t False" if "locked pc"
    using d(4) t that by (auto simp: lock_agrees_def w_def pc_def split: mutex_state.splits)
  have un: "ringbuf_unlock E p w = set_mtx (p + 40) MFree w" if "locked pc"
    using held [OF that] E(1) by (simp add: ringbuf_unlock_def container_unlock_def pthread_mutex_unlock_def)
  note m = m [folded w_def pc_def]
  show ?thesis
  proof (cases "locked pc \<and> (\<nexists>x s. pc = Leaving x s) \<and> pc \<noteq> Measured")
    case True
    have tk: "thread_ok (unat (rb_elem_size (get_ring (bytes w) p))) (bytes w) p pc" using d(5) [OF t] by (simp add: sh pc_def)
    from ring_locked_move [OF h' d(2) [unfolded p_def] refl tk [unfolded p_def] _ _ _ m, folded p_def, unfolded sh] True obtain m' where
      m': "w' = set_bytes m' w" "ring_ok m' p" "ring_same p (bytes w) m'" "locked pc'"
        "thread_ok (unat (rb_elem_size r)) m' p pc'"
        "effect_ok (unat (rb_capacity r)) (ring_queue (bytes w) p) (takes_effect pc pc') (ring_queue m' p)" by blast
    have "heap_inv rg m'" using ring_write(1) [OF d(1,2), of m'] m'(3) by (auto simp: ring_same_def)
    then show ?thesis using m' True held by (simp add: lock_moves_def)
  next
    case False
    note dd = d(1,2)
    show ?thesis
    proof (cases pc)
      case (Waiting x)
      show ?thesis
      proof (cases "x = RCapacity")
        case True
        then have e: "pc' = Returned RCapacity (RCount (rb_capacity r))" "w' = w" using m Waiting rs by (auto simp: sh [unfolded p_def])
        then show ?thesis using dd Waiting by (simp add: takes_effect_def lock_moves_def True)
      next
        case nc: False
        then obtain w1 where w1: "ringbuf_lock E p w = Some w1" "pc' = Inside x" "w' = w1"
          using m Waiting rs(1) by (auto simp: bind_eq_Some_conv p_def)
        have "mtx w (p + 40) = MFree \<or> mtx w (p + 40) = MDead"
          using w1(1) d(4) by (auto simp: lock_agrees_def w_def ringbuf_lock_def container_lock_def pthread_mutex_lock_def
              split: mutex_state.splits)
        then have "w1 = set_mtx (p + 40) (MHeld t False) w" "mtx w (p + 40) = MFree \<or> mtx w (p + 40) = MDead"
          using w1(1) E by (auto simp: ringbuf_lock_def container_lock_def pthread_mutex_lock_def pthread_mutex_consistent_def
              set_mtx_def)
        then show ?thesis using dd w1(2,3) Waiting nc d(5) [OF t] by (auto simp: takes_effect_def lock_moves_def pc_def)
      qed
    next
      case (Leaving x s)
      then have "pc' = Returned x s" "w' = set_mtx (p + 40) MFree w" using m un rs(2) by auto
      then show ?thesis using dd Leaving by (simp add: takes_effect_def lock_moves_def)
    next
      case Measured
      then have "pc' = Loading" "w' = set_mtx (p + 40) MFree w" using m un rs(2) by auto
      then show ?thesis using dd Measured by (simp add: takes_effect_def lock_moves_def)
    next
      case Loading
      then have "pc' = Loaded (rb_tail (get_ring (bytes w) p))" "w' = w" using m rs(2) by auto
      then show ?thesis using dd Loading by (simp add: takes_effect_def lock_moves_def)
    next
      case (Loaded a)
      then have "pc' = Returned RLength (RCount (a - rb_head (get_ring (bytes w) p)))" "w' = w" using m rs(2) by auto
      then show ?thesis using dd Loaded by (simp add: takes_effect_def lock_moves_def)
    qed (use m False in auto)
  qed
qed

lemma same_shape_trans: "same_shape p m m1 \<Longrightarrow> same_shape p m1 m2 \<Longrightarrow> same_shape p m m2"
  by (simp add: same_shape_def)

lemma ring_inv_move:
  assumes i: "ring_sys_inv rg off w0 S" and t: "t \<notin> dead S" and rg': "region_ok rg'" "rg_size rg' = rg_size rg"
    and E: "env_tid E = t" "def_ROBUST E" and m: "ring_move E rg' off (pcs S t) (shared S) = Some (pc', w')"
  shows "ring_sys_inv rg off w0
     (S\<lparr>shared := w', pcs := (pcs S)(t := pc'), history := history S @ map (Pair t) (takes_effect (pcs S t) pc')\<rparr>)"
    (is "ring_sys_inv rg off w0 ?S")
proof -
  note d = ring_sys_invD [OF i] and f = ring_move_facts [OF i t rg' E m]
  have "same_shape (unat off) (bytes (shared S)) (bytes w')" using f by (simp add: ring_same_def same_shape_def)
  then have "same_shape (unat off) (bytes w0) (bytes w')" by (rule same_shape_trans [OF d(3)])
  moreover have "lock_agrees (unat off + 40) ?S" using lock_agrees_move [OF d(4) t] f by blast
  moreover have "thread_ok (unat (rb_elem_size (get_ring (bytes w0) (unat off)))) (bytes w') (unat off) (pcs ?S u)" if "u \<notin> dead S" for u
  proof (cases "u = t")
    case True
    then show ?thesis using f by simp
  next
    case False
    have "locked (pcs S t) \<Longrightarrow> \<not> locked (pcs S u)"
      using d(4) t that False by (auto simp: lock_agrees_def split: mutex_state.splits)
    then have "bytes w' = bytes (shared S) \<or> \<not> locked (pcs S u)" using f by blast
    then show ?thesis using d(5) [OF that] thread_ok_unlocked [of "pcs S u"] False by auto
  qed
  moreover have "map snd (history ?S) = map snd (history S) @ takes_effect (pcs S t) pc'" by (simp add: comp_def)
  then have "effect_ok (unat (rb_capacity (get_ring (bytes w0) (unat off)))) (ring_queue (bytes w0) (unat off)) (map snd (history ?S))
      (ring_queue (bytes w') (unat off))" using effect_ok_append [OF d(6)] f by presburger
  moreover have "own u (history ?S) = answered ?S u @ effective (pcs ?S u)" for u
    using d(7) [of u] effective_move [OF m] by (auto simp: own_move answered_def)
  ultimately show ?thesis using f by (simp add: ring_sys_inv_def Let_def)
qed

lemma thread_ok_same:
  assumes h: "heap_inv rg m" and o: "ring_ok m p" and s: "\<forall>x \<in> ring_bytes m p. m' x = m x" and g: "get_ring m' p = get_ring m p"
    and e: "unat (rb_elem_size (get_ring m p)) = e" and t: "thread_ok e m p pc"
  shows "thread_ok e m' p pc"
proof (cases pc)
  case (Storing x y a nt k)
  let ?r = "get_ring m p"
  have t': "y = x" "length x = e" "a = unat (rb_data_offset ?r) + unat (rb_tail ?r) * e" "nt = ringbuf_idx ?r (rb_tail ?r + 1)"
      "nt \<noteq> rb_head ?r" "k \<le> e" "\<forall>i < k. m (a + i) = x ! i" using t Storing by (auto simp: Let_def)
  have "m' (a + i) = m (a + i)" if "i < k" for i
    using s ring_apart(2) [OF h o ring_okD(4) [OF o], of "a + i"] that t'(3,6) e by auto
  then have "\<forall>i < k. m' (a + i) = x ! i" using t'(7) by simp
  then show ?thesis using Storing t'(1-6) by (auto simp: Let_def g)
next
  case (Fetching a n out)
  let ?r = "get_ring m p"
  have t': "rb_head ?r \<noteq> rb_tail ?r" "a = unat (rb_data_offset ?r) + unat (rb_head ?r) * e" "n = e" "length out \<le> n"
      "out = rd m a (length out)" using t Fetching by (auto simp: Let_def)
  have "m' z = m z" if "a \<le> z" "z < a + length out" for z
    using s ring_apart(2) [OF h o ring_okD(3) [OF o], of z] that t'(2-4) e by auto
  then have "rd m' a (length out) = rd m a (length out)" by (intro rd_same_on) (simp add: same_on_def)
  then show ?thesis using Fetching t' by (simp add: Let_def g)
qed (use t in simp_all)

lemma ring_inv_outside:
  assumes i: "ring_sys_inv rg off w0 S" and o: "ring_outside rg (unat off) (shared S) w"
  shows "ring_sys_inv rg off w0 (S\<lparr>shared := w\<rparr>)"
proof -
  let ?p = "unat off" and ?m = "bytes (shared S)" and ?m' = "bytes w" let ?r = "get_ring ?m ?p"
  note d = ring_sys_invD [OF i]
  have o': "heap_inv rg ?m'" "heap_abs ?m' ?p = heap_abs ?m ?p"
      "heap_abs ?m' (unat (rb_data_offset ?r)) = heap_abs ?m (unat (rb_data_offset ?r))"
      "\<forall>x \<in> ring_bytes ?m ?p. ?m' x = ?m x" "mtx w (?p + 40) = mtx (shared S) (?p + 40)"
    using o by (simp_all add: ring_outside_def Let_def)
  note dd = ring_okD [OF d(2)]
  have "same_on ?m ?m' ?p (?p + 80)" using o'(4) ring_apart(3) [OF d(1,2) dd(4)] by (simp add: same_on_def)
  then have g: "get_ring ?m' ?p = ?r" by (auto simp: get_ring_def same_on_def intro!: ld64_same_on)
  have ok: "ring_ok ?m' ?p" using d(2) o'(2,3) by (simp add: ring_ok_def Let_def g)
  have sl: "ring_slot ?m' ?r j = ring_slot ?m ?r j" if "j < unat (rb_capacity ?r)" for j
    using o'(4) ring_apart(2) [OF d(1,2) that] by (auto simp: ring_slot_def intro!: rd_same_on simp: same_on_def)
  have "0 < unat (rb_capacity ?r)" using dd(1) by simp
  then have q: "ring_queue ?m' ?p = ring_queue ?m ?p" using sl by (simp add: ring_queue_def Let_def g)
  have "unat (rb_elem_size ?r) = unat (rb_elem_size (get_ring (bytes w0) ?p))" using d(3) by (simp add: same_shape_def)
  note tk = thread_ok_same [OF d(1,2) o'(4) g this d(5)]
  have "lock_agrees (?p + 40) (S\<lparr>shared := w\<rparr>)" using d(4) o'(5) by (auto simp: lock_agrees_def split: mutex_state.splits)
  then show ?thesis using o'(1) ok d(3,6,7) tk by (simp add: ring_sys_inv_def Let_def same_shape_def g q answered_def)
qed

lemma ring_inv_die:
  assumes i: "ring_sys_inv rg off w0 S"
  shows "ring_sys_inv rg off w0 (S\<lparr>dead := insert t (dead S), shared := owner_dies t (shared S)\<rparr>)" (is "ring_sys_inv rg off w0 ?S")
proof -
  note d = ring_sys_invD [OF i]
  have "lock_agrees (unat off + 40) ?S"
    using d(4) by (cases "mtx (shared S) (unat off + 40)") (auto simp: lock_agrees_def owner_dies_def)
  moreover have "bytes (shared ?S) = bytes (shared S)" by (simp add: owner_dies_def)
  ultimately show ?thesis using d by (simp add: ring_sys_inv_def Let_def answered_def)
qed

lemma ring_inv_call:
  assumes i: "ring_sys_inv rg off w0 S" and t: "t \<notin> dead S" "pcs S t = Idle"
    and x: "ring_op_ok (unat (rb_elem_size (get_ring (bytes (shared S)) (unat off)))) x"
  shows "ring_sys_inv rg off w0 (S\<lparr>pcs := (pcs S)(t := Waiting x)\<rparr>)" (is "ring_sys_inv rg off w0 ?S")
proof -
  note d = ring_sys_invD [OF i]
  have "lock_agrees (unat off + 40) ?S"
    using d(4) t by (cases "mtx (shared S) (unat off + 40)") (auto simp: lock_agrees_def)
  moreover have "own u (history S) = answered ?S u @ effective (pcs ?S u)" for u using d(7) [of u] t(2) by (simp add: answered_def)
  ultimately show ?thesis using d x by (simp add: ring_sys_inv_def Let_def same_shape_def)
qed

lemma ring_inv_return:
  assumes i: "ring_sys_inv rg off w0 S" and t: "t \<notin> dead S" "pcs S t = Returned x r"
  shows "ring_sys_inv rg off w0 (S\<lparr>pcs := (pcs S)(t := Idle), results := (results S)(t := results S t @ [(x, r)])\<rparr>)"
    (is "ring_sys_inv rg off w0 ?S")
proof -
  note d = ring_sys_invD [OF i]
  have "lock_agrees (unat off + 40) ?S"
    using d(4) t by (cases "mtx (shared S) (unat off + 40)") (auto simp: lock_agrees_def)
  moreover have "own u (history S) = answered ?S u @ effective (pcs ?S u)" for u
    using d(7) [of u] t(2) by (auto simp: answered_def)
  ultimately show ?thesis using d by (simp add: ring_sys_inv_def Let_def)
qed

lemma ring_sys_inv_step:
  assumes "ring_sys_step E RG rg off S S'" and "ring_sys_inv rg off w0 S" and "def_ROBUST E"
    and "\<forall>t. region_ok (RG t) \<and> rg_size (RG t) = rg_size rg"
  shows "ring_sys_inv rg off w0 S'"
  using assms
proof (induction rule: ring_sys_step.induct)
  case (sys_move t S pc w)
  have "env_tid (E\<lparr>env_tid := t\<rparr>) = t" "def_ROBUST (E\<lparr>env_tid := t\<rparr>)" using sys_move.prems by simp_all
  from ring_inv_move [OF sys_move.prems(1) sys_move.hyps(1) _ _ this sys_move.hyps(2)] show ?case using sys_move.prems by blast
qed (auto intro: ring_inv_call ring_inv_return ring_inv_die ring_inv_outside)

lemma ring_inv_run:
  assumes "ring_sys_run E RG rg off S S'" and "ring_sys_inv rg off w0 S" and "def_ROBUST E"
    and "\<forall>t. region_ok (RG t) \<and> rg_size (RG t) = rg_size rg"
  shows "ring_sys_inv rg off w0 S'"
  using assms by (induction rule: ring_sys_run.induct) (auto intro: ring_sys_inv_step)

section \<open>Linearizability\<close>

text \<open>C2: A ring buffer shared by any number of threads in several processes is linearizable and survives
  the death of its threads. However calls, steps of pushes, pops and queries, deaths in the middle of an operation
  and changes of the rest of the region interleave, the buffer holds the queue that results from the
  operations that took effect, in that order, with exactly their results; each thread's returned calls other
  than \<open>ringbuf_length\<close> are its part of that order, in program order, plus at most the one under way, so a dead thread's
  last operation took effect whole or not at all; and no two live threads are between lock and unlock. The
  platform must have robust mutexes (\<open>def_ROBUST\<close>); without them a dead thread's lock is never recovered.\<close>

theorem ring_threads_linearizable:
  assumes "heap_inv rg (bytes w)" and "ring_ok (bytes w) (unat off)" and "mtx w (unat off + 40) = MFree"
    and "def_ROBUST E" and "\<forall>t. region_ok (RG t) \<and> rg_size (RG t) = rg_size rg"
    and run: "ring_sys_run E RG rg off (ring_start w) S"
  shows "run_spec (queue_spec (unat (rb_capacity (get_ring (bytes w) (unat off))))) (map (fst \<circ> snd) (history S)) (ring_queue (bytes w) (unat off))
       = (map (snd \<circ> snd) (history S), ring_queue (bytes (shared S)) (unat off)) \<and>
     heap_inv rg (bytes (shared S)) \<and> ring_ok (bytes (shared S)) (unat off) \<and>
     (\<forall>t. own t (history S) = answered S t @ effective (pcs S t) \<and> length (effective (pcs S t)) \<le> 1) \<and>
     (\<forall>t u. t \<notin> dead S \<and> u \<notin> dead S \<and> locked (pcs S t) \<and> locked (pcs S u) \<longrightarrow> t = u)"
proof -
  have "ring_sys_inv rg off w S" using ring_inv_run [OF run ring_sys_inv_start] assms(1-5) by blast
  note d = ring_sys_invD [OF this]
  have "length (effective pc) \<le> 1" for pc by (cases pc) simp_all
  moreover have "t = u" if "t \<notin> dead S" "u \<notin> dead S" "locked (pcs S t)" "locked (pcs S u)" for t u
    using d(4) that by (auto simp: lock_agrees_def split: mutex_state.splits)
  ultimately show ?thesis using d(1,2,6,7) by (auto simp: effect_ok_def comp_def)
qed

section \<open>Waiting\<close>

text \<open>The operation a thread is in, and how many steps it has left behind the lock.\<close>

fun doing :: "ring_pc \<Rightarrow> ring_op" where
  "doing (Waiting x) = x"
| "doing (Inside x) = x"
| "doing (Storing x y a nt k) = RPush x"
| "doing (Fetching a n out) = RPop"
| "doing (Leaving x r) = x"
| "doing (Returned x r) = x"
| "doing _ = RLength"

fun steps_left :: "ring_pc \<Rightarrow> nat" where
  "steps_left (Storing x y a nt k) = length y - k + 2"
| "steps_left (Fetching a n out) = n - length out + 2"
| "steps_left (Leaving x r) = 1"
| "steps_left Measured = 3"
| "steps_left Loading = 2"
| "steps_left (Loaded a) = 1"
| "steps_left _ = 0"

lemma doing_enter: "doing (ring_enter rg hdr x) = x"
  by (cases x) (auto simp: Let_def split: option.splits)

lemma enter_started: "ring_enter rg hdr x \<noteq> Idle \<and> ring_enter rg hdr x \<noteq> Waiting y \<and> ring_enter rg hdr x \<noteq> Inside y"
  by (cases x) (auto simp: Let_def split: option.splits)

text \<open>Behind the lock a thread needs nobody.\<close>

lemma alone_finishes:
  "pc \<noteq> Idle \<Longrightarrow> (\<And>x. pc \<noteq> Waiting x \<and> pc \<noteq> Inside x) \<Longrightarrow> \<exists>r w'. ring_alone E rg off pc w (Returned (doing pc) r) w'"
proof (induction "steps_left pc" arbitrary: pc w rule: less_induct)
  case less
  show ?case
  proof (cases "\<exists>x r. pc = Returned x r")
    case True
    then obtain x r where "pc = Returned x r" by blast
    then show ?thesis using alone_here [of E rg off pc w] by auto
  next
    case False
    have "\<exists>pc1 w1. ring_move E rg off pc w = Some (pc1, w1) \<and> steps_left pc1 < steps_left pc \<and> doing pc1 = doing pc \<and>
        pc1 \<noteq> Idle \<and> (\<forall>x. pc1 \<noteq> Waiting x \<and> pc1 \<noteq> Inside x)"
      using less.prems False by (cases pc) (auto simp: Let_def)
    then obtain pc1 w1 where m: "ring_move E rg off pc w = Some (pc1, w1)" "steps_left pc1 < steps_left pc" "doing pc1 = doing pc"
        "pc1 \<noteq> Idle" "\<forall>x. pc1 \<noteq> Waiting x \<and> pc1 \<noteq> Inside x" by blast
    from less.hyps [OF m(2,4), of w1] m(5) obtain r w' where "ring_alone E rg off pc1 w1 (Returned (doing pc) r) w'"
      unfolding m(3) by blast
    then show ?thesis using m(1) by (blast intro: alone_move)
  qed
qed

lemma alone_finishes_inside: "\<exists>r w'. ring_alone E rg off (Inside x) w (Returned x r) w'"
proof -
  let ?pc = "ring_enter rg (get_ring (bytes w) (header_at rg off)) x"
  have "\<exists>r w'. ring_alone E rg off ?pc w (Returned (doing ?pc) r) w'"
    using enter_started by (intro alone_finishes) blast+
  moreover have "ring_move E rg off (Inside x) w = Some (?pc, w)" by simp
  ultimately show ?thesis by (metis alone_move doing_enter)
qed

lemma alone_in_system:
  assumes "ring_alone (E\<lparr>env_tid := t\<rparr>) (RG t) off pc w pc' w'" and "pcs S t = pc" and "shared S = w" and "t \<notin> dead S"
  shows "\<exists>S'. ring_sys_run E RG rg off S S' \<and> shared S' = w' \<and> pcs S' = (pcs S)(t := pc') \<and> dead S' = dead S \<and> results S' = results S"
  using assms
proof (induction arbitrary: S rule: ring_alone.induct)
  case (alone_here pc w)
  then show ?case by (intro exI [of _ S]) (auto intro: run_here)
next
  case (alone_move pc w pc1 w1 pc2 w2)
  let ?S = "S\<lparr>shared := w1, pcs := (pcs S)(t := pc1), history := history S @ map (Pair t) (takes_effect (pcs S t) pc1)\<rparr>"
  have st: "ring_sys_step E RG rg off S ?S" using alone_move.prems alone_move.hyps(1) by (intro sys_move) simp_all
  have "pcs ?S t = pc1" "shared ?S = w1" "t \<notin> dead ?S" using alone_move.prems by simp_all
  from alone_move.IH [OF this] obtain S' where s': "ring_sys_run E RG rg off ?S S'" "shared S' = w2"
      "pcs S' = (pcs ?S)(t := pc2)" "dead S' = dead ?S" "results S' = results ?S" by blast
  have "ring_sys_run E RG rg off S S'" using run_from [OF s'(1) st] .
  moreover have "pcs S' = (pcs S)(t := pc2)" using s'(3) by simp
  ultimately show ?case using s'(2,4,5) by auto
qed

text \<open>A thread that finds the mutex free, or its owner dead, returns without the others.\<close>

lemma free_lock_finishes:
  assumes i: "ring_sys_inv rg off w0 S" and rgs: "\<forall>t. region_ok (RG t) \<and> rg_size (RG t) = rg_size rg"
    and t: "t \<notin> dead S" "pcs S t = Waiting x" and l: "mtx (shared S) (unat off + 40) = MFree \<or> mtx (shared S) (unat off + 40) = MDead"
  shows "\<exists>S' r. ring_sys_run E RG rg off S S' \<and> pcs S' t = Returned x r \<and> dead S' = dead S \<and> results S' = results S"
proof -
  let ?E = "E\<lparr>env_tid := t\<rparr>"
  have h: "heap_inv (RG t) (bytes (shared S))" using heap_inv_relocate [OF ring_sys_invD(1) [OF i]] rgs by blast
  have rs: "ringbuf_resolve_header (RG t) off = Some (rg_base (RG t) + off)"
    using ring_resolves(1) [OF h ring_sys_invD(2) [OF i]] .
  have "\<exists>r w'. ring_alone ?E (RG t) off (Waiting x) (shared S) (Returned x r) w'"
  proof (cases "x = RCapacity")
    case True
    then show ?thesis using rs by (intro exI alone_one) auto
  next
    case False
    have "\<exists>w1. ringbuf_lock ?E (unat off) (shared S) = Some w1"
      using l by (auto simp: ringbuf_lock_def container_lock_def pthread_mutex_lock_def)
    then obtain w1 where "ring_move ?E (RG t) off (Waiting x) (shared S) = Some (Inside x, w1)" using rs False by auto
    then show ?thesis using alone_finishes_inside [of ?E "RG t" off x w1] by (blast intro: alone_move)
  qed
  then obtain r w' where "ring_alone ?E (RG t) off (Waiting x) (shared S) (Returned x r) w'" by blast
  from alone_in_system [where E = E and RG = RG and rg = rg and t = t, OF this t(2) refl t(1)] show ?thesis by auto
qed

text \<open>C16: No thread of a shared ring buffer waits for ever: in every state the threads reach, whoever died
  and wherever the others stand, a live thread at the lock returns from its operation once the owner of the mutex,
  if there is one, and then the thread itself are scheduled, without a call or a death. The platform must
  have robust mutexes (\<open>def_ROBUST\<close>).\<close>

theorem ring_threads_no_deadlock:
  assumes start: "heap_inv rg (bytes w)" "ring_ok (bytes w) (unat off)" "mtx w (unat off + 40) = MFree"
    and E: "def_ROBUST E" and rgs: "\<forall>t. region_ok (RG t) \<and> rg_size (RG t) = rg_size rg"
    and run: "ring_sys_run E RG rg off (ring_start w) S" and t: "t \<notin> dead S" "pcs S t = Waiting x"
  shows "\<exists>S' r. ring_sys_run E RG rg off S S' \<and> pcs S' t = Returned x r \<and> dead S' = dead S \<and> results S' = results S"
proof -
  have i: "ring_sys_inv rg off w S" using ring_inv_run [OF run ring_sys_inv_start] start E rgs by blast
  show ?thesis
  proof (cases "mtx (shared S) (unat off + 40)")
    case (MHeld u b)
    then have u: "u \<notin> dead S" "locked (pcs S u)" "\<forall>v. v \<notin> dead S \<longrightarrow> locked (pcs S v) \<longrightarrow> v = u"
      using ring_sys_invD(4) [OF i] by (auto simp: lock_agrees_def)
    have "\<exists>y r w'. ring_alone (E\<lparr>env_tid := u\<rparr>) (RG u) off (pcs S u) (shared S) (Returned y r) w'"
      using alone_finishes_inside [of "E\<lparr>env_tid := u\<rparr>" "RG u" off] alone_finishes [of "pcs S u" "E\<lparr>env_tid := u\<rparr>" "RG u" off "shared S"] u(2)
      by (cases "pcs S u") (simp_all, blast+)
    then obtain y r w' where "ring_alone (E\<lparr>env_tid := u\<rparr>) (RG u) off (pcs S u) (shared S) (Returned y r) w'" by blast
    from alone_in_system [where E = E and RG = RG and rg = rg and t = u, OF this refl refl u(1)] obtain S1 where
      s1: "ring_sys_run E RG rg off S S1" "pcs S1 = (pcs S)(u := Returned y r)" "dead S1 = dead S" "results S1 = results S" by blast
    have i1: "ring_sys_inv rg off w S1" using ring_inv_run [OF s1(1) i] E rgs by blast
    have ut: "u \<noteq> t" using u(2) t(2) by auto
    have "\<not> locked (pcs S1 v)" if "v \<notin> dead S1" for v using u(3) that s1(2,3) by auto
    then have "mtx (shared S1) (unat off + 40) = MFree \<or> mtx (shared S1) (unat off + 40) = MDead"
      using ring_sys_invD(4) [OF i1] by (cases "mtx (shared S1) (unat off + 40)") (fastforce simp: lock_agrees_def)+
    moreover have "t \<notin> dead S1" "pcs S1 t = Waiting x" using t ut s1(2,3) by simp_all
    ultimately obtain S' r' where "ring_sys_run E RG rg off S1 S'" "pcs S' t = Returned x r'" "dead S' = dead S" "results S' = results S"
      using free_lock_finishes [OF i1 rgs, of t x E] s1(3,4) by auto
    then show ?thesis using run_trans [OF _ s1(1)] by blast
  qed (use free_lock_finishes [OF i rgs t, of E] ring_sys_invD(4) [OF i] in \<open>auto simp: lock_agrees_def\<close>)
qed

end
