(* ===== verification/RingLength.thy ===== *)
theory RingLength
  imports RingLinear RingBufLife
begin

text \<open>
  What does not hold of a shared ring buffer: \<open>ringbuf_length\<close> loads the indices behind the unlock, so its result
  may mix two states. And concrete runs of the threads.
\<close>

section \<open>The race\<close>

text \<open>A whole operation of one thread between the steps of the others.\<close>

lemma operation_in_system:
  assumes t: "t \<notin> dead S" "pcs S t = Idle" and x: "ring_op_ok (unat (rb_elem_size (get_ring (bytes (shared S)) (unat off)))) x"
    and r: "ring_step (E\<lparr>env_tid := t\<rparr>) (RG t) off x (shared S) = Some (res, w')"
  shows "\<exists>S'. ring_sys_run E RG rg off S S' \<and> shared S' = w' \<and> pcs S' = pcs S \<and> dead S' = dead S \<and>
     results S' = (results S)(t := results S t @ [(x, res)])"
proof -
  let ?S1 = "S\<lparr>pcs := (pcs S)(t := Waiting x)\<rparr>"
  have r1: "ring_sys_step E RG rg off S ?S1" by (rule sys_call [OF t x])
  from alone_in_system [where E = E and RG = RG and rg = rg and t = t, OF ring_step_alone [OF r], of ?S1] t(1) obtain S2 where
    s2: "ring_sys_run E RG rg off ?S1 S2" "shared S2 = w'" "pcs S2 = (pcs S)(t := Returned x res)" "dead S2 = dead S" "results S2 = results S"
    by auto
  let ?S3 = "S2\<lparr>pcs := (pcs S2)(t := Idle), results := (results S2)(t := results S2 t @ [(x, res)])\<rparr>"
  have "ring_sys_step E RG rg off S2 ?S3" using t(1) s2 by (intro sys_return) simp_all
  then have "ring_sys_run E RG rg off S ?S3" using run_from [OF run_step [OF s2(1)] r1] by blast
  moreover have "pcs ?S3 = pcs S" using t(2) s2(3) by (simp add: fun_upd_idem)
  ultimately show ?thesis using s2 by (intro exI [of _ ?S3]) simp
qed

text \<open>Pushing to an empty buffer and popping moves the head on.\<close>

lemma ring_push_pop:
  assumes h: "heap_inv rg (bytes w)" and o: "ring_ok (bytes w) (unat off)" and l: "mtx w (unat off + 40) = MFree"
    and r: "r = get_ring (bytes w) (unat off)" and q: "ring_queue (bytes w) (unat off) = []" and x: "length x = unat (rb_elem_size r)"
  shows "rb_tail r = rb_head r"
    and "\<exists>m1 m2. ring_step E rg off (RPush x) w = Some (RCode 0, set_bytes m1 w) \<and>
       ring_step E rg off RPop (set_bytes m1 w) = Some (RPopped 0 (Some x), set_bytes m2 w) \<and>
       ring_ok m2 (unat off) \<and> ring_queue m2 (unat off) = [] \<and> ring_same (unat off) (bytes w) m2 \<and>
       rb_head (get_ring m2 (unat off)) = ringbuf_idx r (rb_head r + 1)"
proof -
  define p where "p = unat off" define m where "m = bytes w"
  note h = h [folded m_def] and o = o [folded m_def p_def] and r = r [folded m_def p_def] and q = q [folded m_def p_def]
  note d = ring_okD [OF o, folded r]
  show ht: "rb_tail r = rb_head r"
    using ring_count_facts(2) [OF d(3,4)] q ring_queue_length [of m p] by (simp add: r word_eq_iff_unat)
  define nt where "nt = ringbuf_idx r (rb_tail r + 1)"
  define m1 where "m1 = st64 (wr m (unat (rb_data_offset r) + unat (rb_tail r) * unat (rb_elem_size r)) x) (p + 16) nt"
  have ntv: "unat nt = Suc (unat (rb_tail r)) mod unat (rb_capacity r)" unfolding nt_def by (rule ring_idx_next [OF d(4)])
  have ne: "unat nt \<noteq> unat (rb_head r)" using ntv d(1,3) by (auto simp: ht mod_Suc)
  note st = ring_push_state [OF h o r x ntv ne m1_def]
  have g: "get_ring m1 p = r\<lparr>rb_tail := nt\<rparr>"
    using ring_apart(1) [OF h o d(4) [unfolded r]] x by (auto simp: m1_def get_ring_def r)
  have "ringbuf_push E rg off (Some x) w = Some (0, set_bytes m1 w)"
    using ring_run(1) [OF h [unfolded m_def] o [unfolded m_def p_def] l refl, where E = E and x = x] ne x
    by (auto simp: m1_def m_def p_def r nt_def)
  then have s1: "ring_step E rg off (RPush x) w = Some (RCode 0, set_bytes m1 w)" by simp
  define m2 where "m2 = st64 m1 (p + 8) (ringbuf_idx (get_ring m1 p) (rb_head (get_ring m1 p) + 1))"
  have d1: "unat (rb_head (get_ring m1 p)) < unat (rb_capacity (get_ring m1 p))" "unat (rb_head (get_ring m1 p)) \<noteq> unat (rb_tail (get_ring m1 p))"
    using ring_okD(3) [OF st(2)] ne by (simp_all add: g)
  note st2 = ring_pop_state [OF st(1,2) refl ring_idx_next [OF d1(1)] d1(2) m2_def]
  have q2: "ring_slot m1 (get_ring m1 p) (unat (rb_head (get_ring m1 p))) = x" "ring_queue m2 p = []" using st2(4) st(3) q by simp_all
  have "rb_head (get_ring m1 p) \<noteq> rb_tail (get_ring m1 p)" using d1(2) by auto
  then have "ringbuf_pop E rg off True (set_bytes m1 w) = Some ((0, Some x), set_bytes m2 w)"
    using ring_run(2) [of rg "set_bytes m1 w" off, OF _ _ _ refl, where E = E] st(1,2) l q2(1) by (simp add: m2_def p_def)
  then have s2: "ring_step E rg off RPop (set_bytes m1 w) = Some (RPopped 0 (Some x), set_bytes m2 w)" by simp
  have "rb_head (get_ring m2 p) = ringbuf_idx r (rb_head r + 1)" by (simp add: m2_def get_ring_def [of "st64 _ _ _"] g ringbuf_idx_def)
  with s1 s2 q2(2) st2(2) ring_same_trans [OF st(4) st2(3)] show "\<exists>m1 m2. ring_step E rg off (RPush x) w = Some (RCode 0, set_bytes m1 w) \<and>
       ring_step E rg off RPop (set_bytes m1 w) = Some (RPopped 0 (Some x), set_bytes m2 w) \<and>
       ring_ok m2 (unat off) \<and> ring_queue m2 (unat off) = [] \<and> ring_same (unat off) (bytes w) m2 \<and>
       rb_head (get_ring m2 (unat off)) = ringbuf_idx r (rb_head r + 1)" unfolding p_def m_def by blast
qed

text \<open>An empty buffer whose mutex is free, and a thread that pushes and pops while the others stand still.\<close>

definition ring_empty :: "ShmRegion \<Rightarrow> OffsetPtr \<Rightarrow> world \<Rightarrow> bool" where
  "ring_empty rg off w \<longleftrightarrow>
     heap_inv rg (bytes w) \<and> ring_ok (bytes w) (unat off) \<and> mtx w (unat off + 40) = MFree \<and> ring_queue (bytes w) (unat off) = []"

lemma push_pop_in_system:
  assumes e: "ring_empty rg off (shared S)" and rgs: "\<forall>t. region_ok (RG t) \<and> rg_size (RG t) = rg_size rg"
    and t: "t \<notin> dead S" "pcs S t = Idle"
  defines "r \<equiv> get_ring (bytes (shared S)) (unat off)"
  shows "\<exists>S'. ring_sys_run E RG rg off S S' \<and> ring_empty rg off (shared S') \<and> pcs S' = pcs S \<and> dead S' = dead S \<and>
     (\<forall>u. u \<noteq> t \<longrightarrow> results S' u = results S u) \<and>
     rb_head (get_ring (bytes (shared S')) (unat off)) = ringbuf_idx r (rb_head r + 1) \<and>
     rb_capacity (get_ring (bytes (shared S')) (unat off)) = rb_capacity r"
proof -
  let ?w = "shared S" and ?E = "E\<lparr>env_tid := t\<rparr>" and ?x = "replicate (unat (rb_elem_size r)) (0 :: u8)"
  have e': "heap_inv rg (bytes ?w)" "ring_ok (bytes ?w) (unat off)" "mtx ?w (unat off + 40) = MFree" "ring_queue (bytes ?w) (unat off) = []"
    using e by (simp_all add: ring_empty_def)
  have h: "heap_inv (RG t) (bytes ?w)" using heap_inv_relocate [OF e'(1)] rgs by blast
  have x: "length ?x = unat (rb_elem_size r)" by simp
  obtain m1 m2 where s: "ring_step ?E (RG t) off (RPush ?x) ?w = Some (RCode 0, set_bytes m1 ?w)"
      "ring_step ?E (RG t) off RPop (set_bytes m1 ?w) = Some (RPopped 0 (Some ?x), set_bytes m2 ?w)"
    and m2: "ring_ok m2 (unat off)" "ring_queue m2 (unat off) = []" "ring_same (unat off) (bytes ?w) m2"
      "rb_head (get_ring m2 (unat off)) = ringbuf_idx r (rb_head r + 1)"
    using ring_push_pop(2) [OF h e'(2,3) _ e'(4) x] r_def by blast
  have "ring_op_ok (unat (rb_elem_size (get_ring (bytes ?w) (unat off)))) (RPush ?x)" by (simp add: r_def)
  from operation_in_system [where E = E and RG = RG and rg = rg and t = t, OF t this s(1)] obtain S1 where
    s1: "ring_sys_run E RG rg off S S1" "shared S1 = set_bytes m1 ?w" "pcs S1 = pcs S" "dead S1 = dead S"
      "\<forall>u. u \<noteq> t \<longrightarrow> results S1 u = results S u" by auto
  have "t \<notin> dead S1" "pcs S1 t = Idle" using t by (simp_all add: s1)
  from operation_in_system [where E = E and RG = RG and rg = rg and t = t, OF this _ s(2) [folded s1(2)]] obtain S2 where
    s2: "ring_sys_run E RG rg off S1 S2" "shared S2 = set_bytes m2 ?w" "pcs S2 = pcs S" "dead S2 = dead S"
      "\<forall>u. u \<noteq> t \<longrightarrow> results S2 u = results S u" by (auto simp: s1)
  have "heap_inv rg m2" using ring_write(1) [OF e'(1,2), of m2] m2(3) by (simp add: ring_same_def)
  then have "ring_empty rg off (shared S2)" using m2(1,2) e'(3) by (simp add: ring_empty_def s2(2))
  moreover have "rb_capacity (get_ring m2 (unat off)) = rb_capacity r" using m2(3) by (simp add: ring_same_def r_def)
  moreover have "ring_sys_run E RG rg off S S2" using run_trans [OF s2(1) s1(1)] .
  ultimately show ?thesis using s2(3-5) m2(4) by (intro exI [of _ S2]) (simp add: s2(2))
qed

text \<open>A thread gets to the load behind the unlock of \<open>ringbuf_length\<close>.\<close>

lemma length_alone:
  assumes h: "heap_inv rg (bytes w)" and o: "ring_ok (bytes w) (unat off)" and l: "mtx w (unat off + 40) = MFree"
    and r: "r = get_ring (bytes w) (unat off)" and ht: "rb_tail r = rb_head r"
  shows "ring_alone E rg off (Waiting RLength) w (Loaded (rb_tail r)) w"
proof -
  note rs = ring_resolves(1) [OF h o] and lk = ring_lock_free [where E = E, OF l] ring_unlock_own [where E = E, OF l]
  have ha: "header_at rg off = unat off" using rs by (simp add: header_at_def)
  let ?w1 = "holding E (unat off + 40) w"
  have "ring_move E rg off (Waiting RLength) w = Some (Inside RLength, ?w1)" using rs lk by simp
  moreover have "ring_move E rg off (Inside RLength) ?w1 = Some (Measured, ?w1)" using ht by (simp add: ha r)
  moreover have "ring_move E rg off Measured ?w1 = Some (Loading, w)" using lk by (simp add: ha)
  moreover have "ring_move E rg off Loading w = Some (Loaded (rb_tail r), w)" by (simp add: ha r)
  ultimately show ?thesis by (blast intro: alone_trans alone_one)
qed

lemma length_race:
  assumes e: "ring_empty rg off (shared S)" and rgs: "\<forall>t. region_ok (RG t) \<and> rg_size (RG t) = rg_size rg"
    and S: "pcs S = (\<lambda>_. Idle)" "dead S = {}" "results S 0 = []"
  defines "r \<equiv> get_ring (bytes (shared S)) (unat off)"
  assumes c: "unat (rb_head r) + 1 < unat (rb_capacity r)"
  shows "\<exists>S'. ring_sys_run E RG rg off S S' \<and> dead S' = {} \<and> results S' 0 = [(RLength, RCount 18446744073709551615)]"
proof -
  let ?w = "shared S" and ?E = "E\<lparr>env_tid := 0\<rparr>" and ?res = "RCount 18446744073709551615"
  have e': "heap_inv rg (bytes ?w)" "ring_ok (bytes ?w) (unat off)" "mtx ?w (unat off + 40) = MFree" "ring_queue (bytes ?w) (unat off) = []"
    using e by (simp_all add: ring_empty_def)
  have h: "heap_inv (RG 0) (bytes ?w)" using heap_inv_relocate [OF e'(1)] rgs by blast
  have "length (replicate (unat (rb_elem_size r)) (0 :: u8)) = unat (rb_elem_size r)" by simp
  note ht = ring_push_pop(1) [OF h e'(2,3) _ e'(4) this, folded r_def, OF refl]
  let ?S1 = "S\<lparr>pcs := (pcs S)(0 := Waiting RLength)\<rparr>"
  have "ring_sys_step E RG rg off S ?S1" by (rule sys_call) (simp_all add: S)
  then have r1: "ring_sys_run E RG rg off S ?S1" by (rule run_step [OF run_here])
  from alone_in_system [where E = E and RG = RG and rg = rg and t = 0, OF length_alone [OF h e'(2,3) r_def [THEN meta_eq_to_obj_eq] ht], of ?S1]
  obtain S2 where s2: "ring_sys_run E RG rg off ?S1 S2" "shared S2 = ?w" "pcs S2 0 = Loaded (rb_tail r)" "pcs S2 1 = Idle" "dead S2 = {}"
      "results S2 0 = []"
    by (auto simp: S)
  have "1 \<notin> dead S2" by (simp add: s2(5))
  from push_pop_in_system [OF e [folded s2(2)] rgs this s2(4), of E] obtain S4 where
    s4: "ring_sys_run E RG rg off S2 S4" "ring_empty rg off (shared S4)" "pcs S4 = pcs S2" "dead S4 = {}" "results S4 0 = []"
      "rb_head (get_ring (bytes (shared S4)) (unat off)) = ringbuf_idx r (rb_head r + 1)"
    by (auto simp: s2(2,5,6) r_def)
  have d: "unat (rb_head r) < unat (rb_capacity r)" using ring_okD(3) [OF e'(2)] by (simp add: r_def)
  have "ringbuf_idx r (rb_head r + 1) = rb_head r + 1"
    using ring_idx_next [OF d] c unat_Suc_word [OF d] by (simp add: word_eq_iff_unat)
  then have nh: "rb_tail r - rb_head (get_ring (bytes (shared S4)) (unat off)) = 18446744073709551615" by (simp add: ht s4(6))
  have h4: "heap_inv (RG 0) (bytes (shared S4))" "ring_ok (bytes (shared S4)) (unat off)"
    using heap_inv_relocate s4(2) rgs unfolding ring_empty_def by blast+
  have ha: "header_at (RG 0) off = unat off" using ring_resolves(1) [OF h4] by (simp add: header_at_def)
  have p4: "pcs S4 0 = Loaded (rb_tail r)" by (simp add: s4(3) s2(3))
  have "ring_move ?E (RG 0) off (pcs S4 0) (shared S4) = Some (Returned RLength ?res, shared S4)"
    unfolding p4 by (simp add: ha nh)
  note mv = sys_move [where E = E and RG = RG and t = 0 and rg = rg, OF _ this]
  obtain H5 where s5: "ring_sys_step E RG rg off S4 (S4\<lparr>shared := shared S4, pcs := (pcs S4)(0 := Returned RLength ?res), history := H5\<rparr>)"
      (is "ring_sys_step E RG rg off S4 ?S5")
    using mv s4(4) by blast
  have s6: "ring_sys_step E RG rg off ?S5 (?S5\<lparr>pcs := (pcs ?S5)(0 := Idle), results := (results ?S5)(0 := results ?S5 0 @ [(RLength, ?res)])\<rparr>)"
    (is "ring_sys_step E RG rg off ?S5 ?S6") by (rule sys_return) (simp_all add: s4(4))
  have "ring_sys_run E RG rg off S S4" using run_trans [OF s4(1) run_trans [OF s2(1) r1]] .
  then have "ring_sys_run E RG rg off S ?S6" by (rule run_step [OF run_step [OF _ s5] s6])
  moreover have "dead ?S6 = {}" "results ?S6 0 = [(RLength, ?res)]" by (simp_all add: s4)
  ultimately show ?thesis by blast
qed

text \<open>C17: \<open>ringbuf_length\<close> is not linearizable: it takes the lock, sees \<open>tail >= head\<close>, releases the lock and only
  then loads the two indices. On every empty buffer there is a run of two threads, one of which pushes and pops,
  in which the length returned is 18446744073709551615.\<close>

theorem ring_length_race:
  assumes e: "heap_inv rg (bytes w)" "ring_ok (bytes w) (unat off)" "mtx w (unat off + 40) = MFree" "ring_queue (bytes w) (unat off) = []"
    and rgs: "\<forall>t. region_ok (RG t) \<and> rg_size (RG t) = rg_size rg"
  shows "\<exists>S. ring_sys_run E RG rg off (ring_start w) S \<and> dead S = {} \<and> results S 0 = [(RLength, RCount 18446744073709551615)]"
proof -
  let ?S = "ring_start w" let ?r = "get_ring (bytes w) (unat off)"
  have S: "pcs ?S = (\<lambda>_. Idle)" "dead ?S = {}" "results ?S 0 = []" "shared ?S = w" by (simp_all add: ring_start_def)
  have e': "ring_empty rg off (shared ?S)" using e by (simp add: ring_empty_def S)
  note d = ring_okD [OF e(2)]
  show ?thesis
  proof (cases "unat (rb_head ?r) + 1 < unat (rb_capacity ?r)")
    case True
    then show ?thesis using length_race [OF e' rgs S(1-3)] by (simp add: S)
  next
    case False
    have "1 \<notin> dead ?S" "pcs ?S 1 = Idle" by (simp_all add: S)
    from push_pop_in_system [OF e' rgs this, of E] obtain S1 where
      s1: "ring_sys_run E RG rg off ?S S1" "ring_empty rg off (shared S1)" "pcs S1 = (\<lambda>_. Idle)" "dead S1 = {}" "results S1 0 = []"
        "rb_head (get_ring (bytes (shared S1)) (unat off)) = ringbuf_idx ?r (rb_head ?r + 1)"
        "rb_capacity (get_ring (bytes (shared S1)) (unat off)) = rb_capacity ?r" by (auto simp: S)
    have "unat (ringbuf_idx ?r (rb_head ?r + 1)) = 0" using ring_idx_next [OF d(3)] False d(3) by (simp add: mod_Suc)
    then have "unat (rb_head (get_ring (bytes (shared S1)) (unat off))) + 1 < unat (rb_capacity (get_ring (bytes (shared S1)) (unat off)))"
      using d(1) by (simp only: s1(6,7))
    from length_race [OF s1(2) rgs s1(3-5) this, of E] show ?thesis using run_trans [OF _ s1(1)] by blast
  qed
qed

section \<open>Witnesses\<close>

text \<open>Two processes at different addresses; the thread of the first dies in a push, behind the lock, while the
  thread of the second is at the lock.\<close>

definition demo_mappings :: "nat \<Rightarrow> ShmRegion" where
  "demo_mappings t = demo_region\<lparr>rg_base := (if t = 0 then 65536 else 131072)\<rparr>"

lemma demo_mappings_ok: "\<forall>t. region_ok (demo_mappings t) \<and> rg_size (demo_mappings t) = rg_size demo_region"
  by (simp add: demo_mappings_def region_ok_def mapping_ok_def demo_region_def)

lemma demo_robust: "def_ROBUST demo_env"
  by (simp add: demo_env_def)

lemma demo_threads:
  obtains w :: world and off S where "heap_inv demo_region (bytes w)" "ring_ok (bytes w) (unat off)" "mtx w (unat off + 40) = MFree"
    "ring_queue (bytes w) (unat off) = []" "ring_sys_run demo_env demo_mappings demo_region off (ring_start w) S" "dead S = {0}"
    "pcs S 0 = Inside (RPush [1,2,3,4,5,6,7,8])" "pcs S 1 = Waiting (RPush [9,9,9,9,9,9,9,9])"
proof (rule demo_ring)
  fix w :: world and off :: OffsetPtr
  assume d: "heap_inv demo_region (bytes w)" "ring_ok (bytes w) (unat off)" "mtx w (unat off + 40) = MFree" "ring_queue (bytes w) (unat off) = []"
    "rb_elem_size (get_ring (bytes w) (unat off)) = 8"
  let ?step = "ring_sys_step demo_env demo_mappings demo_region off" and ?x = "[1,2,3,4,5,6,7,8] :: u8 list" and ?y = "[9,9,9,9,9,9,9,9] :: u8 list"
  let ?S0 = "ring_start w"
  have f0: "shared ?S0 = w" "pcs ?S0 = (\<lambda>_. Idle)" "dead ?S0 = {}" by (simp_all add: ring_start_def)
  let ?S1 = "?S0\<lparr>pcs := (pcs ?S0)(0 := Waiting (RPush ?x))\<rparr>"
  have s1: "?step ?S0 ?S1" by (rule sys_call) (simp_all add: f0 d(5))
  let ?S2 = "?S1\<lparr>pcs := (pcs ?S1)(1 := Waiting (RPush ?y))\<rparr>"
  have s2: "?step ?S1 ?S2" by (rule sys_call) (simp_all add: f0 d(5))
  have h: "heap_inv (demo_mappings 0) (bytes w)" using heap_inv_relocate [OF d(1)] demo_mappings_ok by blast
  note rs = ring_resolves(1) [OF h d(2)] and lk = ring_lock_free [where E = "demo_env\<lparr>env_tid := 0\<rparr>", OF d(3)]
  have "ring_move (demo_env\<lparr>env_tid := 0\<rparr>) (demo_mappings 0) off (pcs ?S2 0) (shared ?S2)
      = Some (Inside (RPush ?x), holding (demo_env\<lparr>env_tid := 0\<rparr>) (unat off + 40) w)" using rs lk by (simp add: f0)
  note mv = sys_move [where E = demo_env and RG = demo_mappings and t = 0 and rg = demo_region, OF _ this]
  obtain S3 where s3: "?step ?S2 S3" "dead S3 = {}" "pcs S3 0 = Inside (RPush ?x)" "pcs S3 1 = Waiting (RPush ?y)"
    using mv by (auto simp: f0)
  let ?S4 = "S3\<lparr>dead := insert 0 (dead S3), shared := owner_dies 0 (shared S3)\<rparr>"
  have s4: "?step S3 ?S4" by (rule sys_die) (simp add: s3(2))
  have "ring_sys_run demo_env demo_mappings demo_region off ?S0 ?S4"
    by (rule run_step [OF run_step [OF run_step [OF run_step [OF run_here s1] s2] s3(1)] s4])
  with d(1-4) show thesis by (rule that) (use s3 in simp_all)
qed

theorem ring_threads_linearizable_witness:
  "\<exists>w off S. ring_sys_run demo_env demo_mappings demo_region off (ring_start w) S \<and> dead S = {0} \<and>
     ring_ok (bytes (shared S)) (unat off) \<and> own 0 (history S) = answered S 0"
proof (rule demo_threads)
  fix w :: world and off S
  assume d: "heap_inv demo_region (bytes w)" "ring_ok (bytes w) (unat off)" "mtx w (unat off + 40) = MFree"
    and r: "ring_sys_run demo_env demo_mappings demo_region off (ring_start w) S" "dead S = {0}" "pcs S 0 = Inside (RPush [1,2,3,4,5,6,7,8])"
  note l = ring_threads_linearizable [OF d demo_robust demo_mappings_ok r(1)]
  have "own 0 (history S) = answered S 0 @ effective (pcs S 0)"
    using l [THEN conjunct2, THEN conjunct2, THEN conjunct2, THEN conjunct1] by blast
  then have "own 0 (history S) = answered S 0" by (simp add: r(3))
  then show ?thesis using r(1,2) l [THEN conjunct2, THEN conjunct2, THEN conjunct1] by blast
qed

theorem ring_threads_no_deadlock_witness:
  "\<exists>w off S S' r. ring_sys_run demo_env demo_mappings demo_region off (ring_start w) S \<and>
     dead S = {0} \<and> pcs S 0 = Inside (RPush [1,2,3,4,5,6,7,8]) \<and> pcs S 1 = Waiting (RPush [9,9,9,9,9,9,9,9]) \<and>
     ring_sys_run demo_env demo_mappings demo_region off S S' \<and> pcs S' 1 = Returned (RPush [9,9,9,9,9,9,9,9]) r"
proof (rule demo_threads)
  fix w :: world and off S
  assume d: "heap_inv demo_region (bytes w)" "ring_ok (bytes w) (unat off)" "mtx w (unat off + 40) = MFree"
    and r: "ring_sys_run demo_env demo_mappings demo_region off (ring_start w) S" "dead S = {0}" "pcs S 0 = Inside (RPush [1,2,3,4,5,6,7,8])"
      "pcs S 1 = Waiting (RPush [9,9,9,9,9,9,9,9])"
  have "1 \<notin> dead S" by (simp add: r(2))
  from ring_threads_no_deadlock [OF d demo_robust demo_mappings_ok r(1) this r(4)] show ?thesis using r by blast
qed

theorem ring_length_race_witness:
  "\<exists>w off S. ring_sys_run demo_env demo_mappings demo_region off (ring_start w) S \<and>
     results S 0 = [(RLength, RCount 18446744073709551615)]"
proof (rule demo_threads)
  fix w :: world and off :: OffsetPtr
  assume d: "heap_inv demo_region (bytes w)" "ring_ok (bytes w) (unat off)" "mtx w (unat off + 40) = MFree" "ring_queue (bytes w) (unat off) = []"
  from ring_length_race [OF d demo_mappings_ok, of demo_env] show ?thesis by blast
qed

end
