(* ===== verification/Spec2Isabelle.thy ===== *)
theory Spec2Isabelle
  imports ExampleBasic HashTableKeys RingLength
begin

text \<open>
  A verification development of offset-store, a C library that keeps objects in POSIX shared
  memory so that several processes, each mapping the region at its own address, can share them.
  References inside the region are offsets from its base.

  \<^bold>\<open>Parts of the program and their theories.\<close> The calls go downwards in this list's reverse order: the store
  facade calls the region and the allocator, the object store calls the allocator, the allocator
  calls the region's locks, and everything uses offset pointers.

  \<^item> \<^verbatim>\<open>Prelude\<close>: byte memory \<open>mem\<close> (region offset to byte), little-endian loads and stores of 32 and 64
    bits, and the frame lemmas on them.
  \<^item> \<^verbatim>\<open>OffsetPtr\<close>: include/offset_store/offset_store.h, src/core/offset_store.c and
    src/core/offset_ptr.c; status codes, null, bounds check, and the conversions between addresses and
    offsets.
  \<^item> \<^verbatim>\<open>Sync\<close>: the pthread mutexes and read-write locks the sources use, as states in the \<open>world\<close> next to
    the bytes of the region. The record \<open>env\<close> holds the calling thread, the compile-time switches and
    the return codes of the library calls that may fail. A lock call that would block is \<open>None\<close>.
  \<^item> \<^verbatim>\<open>NameTable\<close>: the fixed tables of named handles, their entry loops, and the locale of what a table
    promises (a finite map).
  \<^item> \<^verbatim>\<open>Region\<close>, \<^verbatim>\<open>RegionSpec\<close>, \<^verbatim>\<open>RegionLife\<close>, \<^verbatim>\<open>RegionChecksum\<close>: src/core/shm_region.c. \<^verbatim>\<open>Region\<close> has the
    header layout, checksum, validation, locks, queries and the root and index operations;
    \<^verbatim>\<open>RegionSpec\<close> proves that these operations implement a finite map from names to handles;
    \<^verbatim>\<open>RegionLife\<close> has create, open, close and unlink over a record of kernel answers and a ledger of
    descriptors, mappings and the name; \<^verbatim>\<open>RegionChecksum\<close> shows which corruption validation detects.
  \<^item> \<^verbatim>\<open>Allocator\<close>, \<^verbatim>\<open>AllocatorOps\<close>: the definitions of src/core/allocator.c, queries first, then
    init, validate, alloc and free. \<^verbatim>\<open>AllocatorInv\<close> states the heap invariant \<open>heap_inv\<close> (blocks tile
    each shard, the free list of a shard holds exactly its free blocks, live blocks carry a correct
    prefix); \<^verbatim>\<open>AllocatorHeap\<close> the abstraction \<open>heap_abs\<close>, a finite map from the offset of each live
    payload to its length, and what writes keep of it; \<^verbatim>\<open>AllocatorAlloc\<close>, \<^verbatim>\<open>AllocatorWalk\<close> and
    \<^verbatim>\<open>AllocatorAllocSpec\<close> the correctness of allocation; \<^verbatim>\<open>AllocatorInitSpec\<close>, \<^verbatim>\<open>AllocatorFreeSpec\<close>,
    \<^verbatim>\<open>AllocatorQuery\<close> that of the other operations.
  \<^item> \<^verbatim>\<open>ObjectStore\<close>: src/store/object_store.c over the interface \<open>span_heap\<close>, a heap of disjoint spans,
    which the allocator's model interprets.
  \<^item> \<^verbatim>\<open>Store\<close>: src/store/store.c, bootstrap, open, close, validate and the forwarding calls.
  \<^item> \<^verbatim>\<open>StoreTables\<close>: sequences of the facade's root and index calls against two bounded finite maps.
  \<^item> \<^verbatim>\<open>HeapClient\<close>, \<^verbatim>\<open>Simulation\<close>, \<^verbatim>\<open>Container\<close>: what the four containers share. \<open>heap_service\<close> extends
    \<open>span_heap\<close> with the calls that grant and release spans; a container owns a set of spans, and each of
    its operations is an \<open>owner_step\<close>, a change of memory that trades spans of its own for fresh ones
    and leaves everyone else's alone. \<open>simulation\<close> and \<open>exact_simulation\<close> lift the correctness of one
    operation to sequences of operations, \<open>settled_simulation\<close> adds that the memory each step runs in decides
    what it answers, \<open>funded_simulation\<close> does so for operations that must not be refused
    memory, and \<open>client_simulation\<close> for clients that choose each operation after reading all results.
  \<^item> \<^verbatim>\<open>RingBuf\<close>, \<^verbatim>\<open>RingBufSpec\<close>, \<^verbatim>\<open>RingBufLife\<close>: src/containers/ringbuf.c, a bounded queue.
  \<^item> \<^verbatim>\<open>RingThreads\<close>, \<^verbatim>\<open>RingSystem\<close>, \<^verbatim>\<open>RingLinear\<close>, \<^verbatim>\<open>RingLength\<close>: the same file with threads in several
    processes inside its functions at once. \<^verbatim>\<open>RingThreads\<close> cuts each operation into its accesses to shared
    memory and shows that a thread alone computes the function of \<^verbatim>\<open>RingBuf\<close>; \<^verbatim>\<open>RingSystem\<close> is the step
    relation of all threads, their deaths and the rest of the program; \<^verbatim>\<open>RingLinear\<close> has its invariant,
    linearizability and the absence of deadlock; \<^verbatim>\<open>RingLength\<close> the race in \<open>ringbuf_length\<close>.
  \<^item> \<^verbatim>\<open>DynArray\<close>, \<^verbatim>\<open>DynArraySpec\<close>, \<^verbatim>\<open>DynArrayRefine\<close>, \<^verbatim>\<open>DynArrayLife\<close>: src/containers/dynarray.c, a list
    in a buffer that grows by doubling.
  \<^item> \<^verbatim>\<open>DynList\<close>, \<^verbatim>\<open>DynListSpec\<close>, \<^verbatim>\<open>DynListRefine\<close>, \<^verbatim>\<open>DynListLife\<close>: src/containers/dynlist.c, a list as a
    doubly linked chain of nodes.
  \<^item> \<^verbatim>\<open>HashTable\<close> (the definitions), \<^verbatim>\<open>HashTableSpec\<close> (the representation), \<^verbatim>\<open>HashTableSteps\<close>,
    \<^verbatim>\<open>HashTableRefine\<close>, \<^verbatim>\<open>HashTableMap\<close>, \<^verbatim>\<open>HashTableOps\<close>, \<^verbatim>\<open>HashTableLife\<close>, \<^verbatim>\<open>HashTableKeys\<close>:
    src/containers/hashtable.c, a finite map as an array of chains, three allocations for an entry.
  \<^item> \<^verbatim>\<open>Family\<close>, \<^verbatim>\<open>Containers\<close>, \<^verbatim>\<open>Lifecycle\<close>, \<^verbatim>\<open>Workload\<close>: composition. The locale \<open>container_family\<close> says
    what a kind of container promises so that many of them coexist in one region; \<^verbatim>\<open>Containers\<close> interprets
    it on the four kinds; \<^verbatim>\<open>Lifecycle\<close> has creation and destruction of any kind; \<^verbatim>\<open>Workload\<close> serves clients
    in several processes, which create, name, use and destroy containers, and relates the store to an
    abstract one.
  \<^item> \<^verbatim>\<open>ExamplePrograms\<close>: examples/producer.c and examples/consumer.c, every function and both \<open>main\<close>s. A
    program is a function from its arguments, the kernel's answers and the shared object to its return code, the
    printf calls it made (a format and its arguments), the kernel's resources and the object. \<^verbatim>\<open>Exchange\<close>
    serves their calls and loops through the requests of \<^verbatim>\<open>Workload\<close>, \<^verbatim>\<open>ExampleRuns\<close> runs each of the
    producer's and consumer's functions on a store at work, \<^verbatim>\<open>ExampleMain\<close> the programs end to end from a
    fresh object, \<^verbatim>\<open>ExampleBasic\<close> the object command, whose payload overwrites its header, and what the
    programs leave open.

  The header of a container is an object of the object store whose handle the code resolves itself,
  so it overlays the \<open>ObjectHeader\<close>; what \<open>object_store_free\<close> then reads in it decides whether the
  header is released, and the destruction properties say when. \<open>dynlist_destroy\<close> frees at the address
  behind each node's header, where \<open>allocator_free\<close> reads the elements of the list as block headers: on a list
  that does not forge one (\<open>list_unforged\<close>) every free is refused and every node leaks, though the thread's
  record of the shard it last locked may then be wrong; on a list of quiet elements (\<open>quiet_elem\<close>) each free is
  refused before it locks anything. The clients of \<^verbatim>\<open>Workload\<close> may destroy a list of two or more elements only
  if all but the last are quiet; any list may be created, named and used.

  This theory holds the properties that span components.

  \<^bold>\<open>How code corresponds to definitions.\<close> A definition has the name of the C function it models and
  every early return of it is a branch. A C struct that lives in the region is a range of bytes read
  and written field by field in source order, with the x86-64 Linux layout (\<open>sizeof(pthread_mutex_t)\<close>
  40, \<open>sizeof(pthread_rwlock_t)\<close> 56, \<open>alignof(max_align_t)\<close> 16), so aliasing between structs is what
  it is in memory. Process-local structs are records. \<open>size_t\<close> and \<open>uint64_t\<close> are \<open>64 word\<close> and wrap.
  Addresses are words and \<open>roff\<close> turns one into a region offset. Out parameters are results, with a
  flag for whether the pointer passed was non-null. Loops the code bounds are total functions; the
  loops that corrupt metadata can make endless (the free-list walk of an allocation, the span lookup,
  the traversals of a list and of the chains of a hash table) are \<open>partial_function (option)\<close>, and the
  properties show that they return on a state that satisfies the invariant.

  \<^bold>\<open>What is shown.\<close> Offset pointers: relocation, and exactly which offsets resolve and
  to what. Region: table
  operations refine a finite map, create establishes a valid empty header and cleans up after every
  failure, open accepts only valid headers, single-byte corruption is detected. Allocator: init
  establishes the invariant; alloc returns a fresh, aligned, disjoint span or reports exhaustion; free
  removes exactly one span; a double free is refused; queries and validation are exact. Object
  store: handles resolve exactly when they denote live objects; alloc and free change exactly one
  object. Store: bootstrap establishes everything at once or releases everything; opening at another
  base keeps it; publication under a root name reaches every process; any sequence of calls on named
  handles is two bounded finite maps. Containers: any sequence of operations on a ring buffer, array,
  list or table returns what a bounded queue, a list, a list and a finite map return; an operation that
  allocates may be refused, an array's exactly when no free block can hold the buffer it asks for, and
  nothing is refused while the largest free block covers the bill; creation establishes the invariant
  or leaves nothing behind, destruction terminates and releases what it says, which for a list is no node; the hash is the djb2 polynomial, and a key longer than the
  table's key size is lost. Concurrency: a ring buffer under any interleaving of its threads, some of which
  die in the middle of an operation, is the queue of the operations in the order in which they took effect,
  nobody waits for ever, and only the length may be wrong. The whole store: clients in any number of processes, at different mapping
  addresses, see one abstract store of two bounded name maps and a map from handles to contents, of
  which each request changes just its part. The example programs: what a producer stores is what the
  consumers print, for each container kind and for a message; the message's object loses its header; a
  consumer, and a producer that fails, leave no descriptor or mapping.

  \<^bold>\<open>Room.\<close> \<open>spare N m\<close> says that some free block leaves at least \<open>N\<close> bytes of payload; \<open>alloc_cost n\<close> is what
  an object of \<open>n\<close> bytes takes from such a block at most, its header and alignment included. An operation
  that costs \<open>c\<close> leaves \<open>spare N\<close> where \<open>spare (N + c)\<close> held, whichever block the allocator picks; this is
  why a sequence whose bill is covered is not refused. Freeing costs nothing and is not credited. The
  abstract store carries such a lower bound as its funds; a request that costs more than the funds may
  be granted or refused, and leaves funds 0.

  \<^bold>\<open>Bounds.\<close> A region's mapping ends below \<open>2^64\<close> and is below \<open>2^63\<close> bytes, and a valid request is at most
  \<open>2^62\<close> bytes with an alignment of at most \<open>2^31\<close>: beyond these \<open>payload_offset + size\<close> in
  allocator_alloc wraps and the 32-bit \<open>payload_offset\<close> field truncates, and the properties do not
  hold. For arrays the region is at most \<open>2^61\<close> bytes, the element size at most \<open>2^60\<close> (\<open>2^61\<close> for lists), and a
  reservation of at most \<open>2^62\<close> bytes is claimed to be a guarantee; values of a table are at most \<open>2^62\<close>
  bytes, bucket counts at most \<open>2^59\<close>, and stored keys shorter than \<open>2^32\<close>, the width of their length
  field. \<open>char\<close> is signed. The heap is a multiple of the shard count where validate, statistics and attaching are claimed
  to succeed. In a fresh region the heap starts at offset 2736, which \<open>heap_inv\<close> states, so the example's
  region of 65536 bytes has four blocks of 15700 bytes, and a message of the example is at most 15000
  characters.

  \<^bold>\<open>Undefined behaviour of the examples.\<close> The producer's list has elements of 64 bytes but pushes shorter string
  literals, so it reads behind them; those bytes are the parameter \<open>behind\<close>, and the properties hold for every
  value of it. Printing a buffer without a terminator, or a number of which not all bytes were written, is
  \<open>None\<close>. The output says which call of printf comes after which, not how stdout and stderr are buffered.

  \<^bold>\<open>Not modelled.\<close> The test programs and the vendored test framework. The text of the
  deadlock warning is a log of its arguments without process and thread id. Clients do not destroy a
  container that another thread has locked, which is a misuse of pthread_mutex_destroy. The attribute objects of
  a container's mutex are inside the return code of its initialization. Operations
  run one at a time between lock and unlock, with the locks as state machines; steps of other threads and
  deaths inside an operation are modelled for the ring buffer only, on a machine on which a load or store of
  64 bits is one step and \<open>memcpy\<close> copies from the front.
\<close>

section \<open>Properties that span components\<close>

text \<open>Publishing and discovering an object across processes. One process binds a live object to a
  root name; then any process that maps the region, at whatever address, looks the name up, gets
  the same handle, and resolves it to the object's payload inside its own mapping, where the bytes
  are those the first process wrote. The heap and every live allocation are untouched by the
  publication.\<close>

theorem publish_then_discover:
  assumes h: "heap_inv rg (bytes w)" and o: "object_at (bytes w) (unat obj)"
    and t: "tables_ok (bytes w)" and l: "rwl w HDR_roots_rwlock = RWFree"
    and n: "good_name name" and r: "roots_room (bytes w) name"
    and rg': "region_ok rg'" "rg_size rg' = rg_size rg"
  shows "\<exists>w'. offset_store_set_root E (Some \<lparr>os_region = rg\<rparr>) (Some name) obj w = Some (STATUS_OK, w') \<and>
     offset_store_get_root E' (Some \<lparr>os_region = rg'\<rparr>) (Some name) True w' = Some ((STATUS_OK, Some obj), w') \<and>
     object_store_get_payload (Some rg') obj (bytes w') = Some (Some (rg_base rg' + obj + 16)) \<and>
     heap_inv rg' (bytes w') \<and> heap_abs (bytes w') = heap_abs (bytes w) \<and>
     (\<forall>q j. heap_abs (bytes w) q = Some j \<longrightarrow> same_on (bytes w) (bytes w') q (q + j))"
proof -
  have b: "rg_base rg \<noteq> 0" using h region_okD(1) by (simp add: heap_inv_def header_inv_def)
  have o0: "obj \<noteq> 0" using object_resolves(3) [OF h o] .
  obtain m' where s: "shm_region_set_root E (Some rg) (Some name) obj w = Some (STATUS_OK, set_bytes m' w)"
    and m': "roots_map m' = (roots_map (bytes w))(name \<mapsto> obj)" "\<forall>x \<ge> 2496. m' x = bytes w x"
    using set_root_runs [OF b l n o0 t, of E] r by auto
  have w: "m' x = bytes w x" if "\<not> outside_heap_meta (bytes w) x" for x
    using that m'(2) by (simp add: outside_heap_meta_def)
  note hw = heap_write [OF h w]
  have h': "heap_inv rg' m'" by (rule heap_inv_relocate [OF hw(1) rg'])
  have so: "same_on (bytes w) m' q (q + j)" if "heap_abs (bytes w) q = Some j" for q j
    using heap_abs_bounds(1) [OF h that] m'(2) by (simp add: same_on_def)
  have "get_object m' (unat obj) = get_object (bytes w) (unat obj)"
  proof -
    obtain k where k: "heap_abs (bytes w) (unat obj) = Some k" using o by (auto simp: object_at_def)
    have "m' x = bytes w x" if "unat obj \<le> x" for x using heap_abs_bounds(1) [OF h k] that m'(2) by simp
    then show ?thesis by (auto simp: get_object_def intro!: ld32_same_on simp: same_on_def)
  qed
  then have o': "object_at m' (unat obj)" using o hw(2) by (simp add: object_at_def)
  have "object_store_get_payload (Some rg') obj m' = Some (Some (rg_base rg' + obj + 16))"
    using object_resolves [OF h' o']
    by (simp add: object_store_get_payload_def object_store_get_payload_const_def object_store_get_header_def)
  moreover have "shm_region_get_root E' (Some rg') (Some name) True (set_bytes m' w) = Some ((STATUS_OK, Some obj), set_bytes m' w)"
    using get_root_runs [OF region_okD(1) [OF rg'(1)] _ n, of "set_bytes m' w" E'] l m'(1) by (simp add: readable_def)
  ultimately show ?thesis
    using s h' hw(2) so by (auto simp: offset_store_set_root_def offset_store_get_root_def)
qed

text \<open>A concrete region that holds a live object and an empty header.\<close>

lemma demo_complete:
  obtains w obj where "heap_inv demo_region (bytes (w :: world))" "object_at (bytes w) (unat (obj :: OffsetPtr))"
    "tables_ok (bytes w)" "rwl w HDR_roots_rwlock = RWFree" "roots_room (bytes w) [97]"
proof (rule demo_object)
  fix w :: world and obj :: OffsetPtr
  assume h: "heap_inv demo_region (bytes w)" and o: "object_at (bytes w) (unat obj)"
  define m where "m = (\<lambda>x. if x < 2496 then 0 else bytes w x)"
  define w' where "w' = set_rwl HDR_roots_rwlock RWFree (set_bytes m w)"
  have eq: "m x = bytes w x" if "\<not> outside_heap_meta (bytes w) x" for x
    using that by (simp add: m_def outside_heap_meta_def)
  note hw = heap_write [OF h eq]
  obtain k where k: "heap_abs (bytes w) (unat obj) = Some k" using o by (auto simp: object_at_def)
  have "get_object m (unat obj) = get_object (bytes w) (unat obj)"
    using heap_abs_bounds(1) [OF h k] by (auto simp: get_object_def m_def intro!: ld32_same_on simp: same_on_def)
  then have ob: "object_at m (unat obj)" using o hw(2) by (simp add: object_at_def)
  have so: "same_on (bytes demo_blank) m 0 2496" by (simp add: same_on_def m_def demo_blank_def)
  have "tables_ok m" using header_low_same(4) [OF so] demo_blank_facts(2) by simp
  moreover have "roots_room m [97]" by (auto simp: roots_room_def m_def entry_at_def intro!: exI [of _ 0])
  ultimately show thesis using that [of w' obj] hw(1) ob by (simp add: w'_def)
qed

theorem publish_then_discover_witness:
  "\<exists>w w' obj. offset_store_set_root demo_env (Some \<lparr>os_region = demo_region\<rparr>) (Some [97]) obj w = Some (STATUS_OK, w') \<and>
     object_store_get_payload (Some (demo_region\<lparr>rg_base := 131072\<rparr>)) obj (bytes w') = Some (Some (131072 + obj + 16))"
proof (rule demo_complete)
  fix w :: world and obj :: OffsetPtr
  assume d: "heap_inv demo_region (bytes w)" "object_at (bytes w) (unat obj)" "tables_ok (bytes w)"
    "rwl w HDR_roots_rwlock = RWFree" and r: "roots_room (bytes w) [97]"
  have "region_ok (demo_region\<lparr>rg_base := 131072\<rparr>)" "rg_size (demo_region\<lparr>rg_base := 131072\<rparr>) = rg_size demo_region"
    by (simp_all add: region_ok_def mapping_ok_def demo_region_def)
  from publish_then_discover [OF d demo_name r this, of demo_env demo_env] show ?thesis by auto
qed

end
